(* ===== verification/Kiseki_Prelude.thy ===== *)
theory Kiseki_Prelude
  imports Main "HOL-Library.Word" "HOL-Library.List_Lexorder"
begin

text \<open>
  Shared vocabulary of the development.

  \<^item> The outcome of a Rust call: a value, a typed error, or a panic. The workspace is built
    with \<^verbatim>\<open>overflow-checks = true\<close> in every profile (\<^verbatim>\<open>src/Cargo.toml\<close>), so plain \<open>+\<close> and
    \<open>*\<close> on \<^verbatim>\<open>u64\<close> panic on overflow. Unsigned integers are naturals; arithmetic that can
    leave the 64-bit range goes through \<open>add_u64\<close> and \<open>mul_u64\<close>, which panic.
  \<^item> Fixed-width little-endian encodings of integers and the big-endian value of a byte
    string, with the facts that relate them to the order on byte strings.
  \<^item> The ordered map (\<^verbatim>\<open>BTreeMap\<close>) as a key-sorted association list.
  \<^item> Reachability of a step relation and the locale that turns a one-step preservation proof
    into an invariant of all reachable states.
\<close>

section \<open>Machine integers and call outcomes\<close>

type_synonym u8 = "8 word"
type_synonym u32 = "32 word"
type_synonym u64 = "64 word"
type_synonym bytes = "u8 list"

datatype ('e, 'a) res = Ok 'a | Err 'e | Panic

fun bind_res :: "('e, 'a) res \<Rightarrow> ('a \<Rightarrow> ('e, 'b) res) \<Rightarrow> ('e, 'b) res" where
  "bind_res (Ok a) f = f a"
| "bind_res (Err e) f = Err e"
| "bind_res Panic f = Panic"

fun map_err :: "('e \<Rightarrow> 'f) \<Rightarrow> ('e, 'a) res \<Rightarrow> ('f, 'a) res" where
  "map_err g (Ok a) = Ok a"
| "map_err g (Err e) = Err (g e)"
| "map_err g Panic = Panic"

fun ok_or :: "'e \<Rightarrow> 'a option \<Rightarrow> ('e, 'a) res" where
  "ok_or e None = Err e"
| "ok_or e (Some a) = Ok a"

fun is_ok :: "('e, 'a) res \<Rightarrow> bool" where
  "is_ok (Ok a) = True"
| "is_ok (Err e) = False"
| "is_ok Panic = False"

text \<open>Sequencing of fallible calls that also change a state.\<close>

fun bind_st :: "'s \<times> ('e, 'a) res \<Rightarrow> ('s \<Rightarrow> 'a \<Rightarrow> 's \<times> ('e, 'b) res) \<Rightarrow> 's \<times> ('e, 'b) res" where
  "bind_st (s, Ok a) f = f s a"
| "bind_st (s, Err e) f = (s, Err e)"
| "bind_st (s, Panic) f = (s, Panic)"

definition u64_max :: nat where
  "u64_max = 2 ^ 64 - 1"

definition u32_max :: nat where
  "u32_max = 2 ^ 32 - 1"

definition add_u64 :: "nat \<Rightarrow> nat \<Rightarrow> ('e, nat) res" where
  "add_u64 a b = (if a + b \<le> u64_max then Ok (a + b) else Panic)"

definition mul_u64 :: "nat \<Rightarrow> nat \<Rightarrow> ('e, nat) res" where
  "mul_u64 a b = (if a * b \<le> u64_max then Ok (a * b) else Panic)"

definition sub_u64 :: "nat \<Rightarrow> nat \<Rightarrow> ('e, nat) res" where
  "sub_u64 a b = (if b \<le> a then Ok (a - b) else Panic)"

definition sum_u64 :: "nat list \<Rightarrow> ('e, nat) res" where
  "sum_u64 xs = (if sum_list xs \<le> u64_max then Ok (sum_list xs) else Panic)"

definition div_ceil :: "nat \<Rightarrow> nat \<Rightarrow> nat" where
  "div_ceil a b = (if a mod b > 0 then a div b + 1 else a div b)"

lemma u64_max_val: "u64_max = 18446744073709551615"
  by (simp add: u64_max_def)

lemma u32_max_val: "u32_max = 4294967295"
  by (simp add: u32_max_def)

lemma bind_st_cases:
  assumes "bind_st p f = (t, r)"
  obtains (ok) s a where "p = (s, Ok a)" "f s a = (t, r)"
  | (err) e where "p = (t, Err e)" "r = Err e"
  | (panic) "p = (t, Panic)" "r = Panic"
  using assms by (cases "(p, f)" rule: bind_st.cases) auto

lemma bind_st_eq_Ok [simp]:
  "bind_st p f = (t, Ok b) \<longleftrightarrow> (\<exists>s a. p = (s, Ok a) \<and> f s a = (t, Ok b))"
  "snd (bind_st p f) = Ok b \<longleftrightarrow> (\<exists>s a. p = (s, Ok a) \<and> snd (f s a) = Ok b)"
  by (cases "(p, f)" rule: bind_st.cases; auto)+

lemma bind_res_eq_Ok [simp]: "bind_res r f = Ok b \<longleftrightarrow> (\<exists>a. r = Ok a \<and> f a = Ok b)"
  by (cases r) auto

lemma map_err_eq_Ok [simp]: "map_err g r = Ok a \<longleftrightarrow> r = Ok a"
  by (cases r) auto

lemma ok_or_eq_Ok [simp]: "ok_or e x = Ok a \<longleftrightarrow> x = Some a"
  by (cases x) auto

lemma is_ok_iff: "is_ok r \<longleftrightarrow> (\<exists>a. r = Ok a)"
  by (cases r) auto

lemma add_u64_eq_Ok [simp]: "add_u64 a b = Ok c \<longleftrightarrow> c = a + b \<and> a + b \<le> u64_max"
  by (auto simp: add_u64_def)

lemma mul_u64_eq_Ok [simp]: "mul_u64 a b = Ok c \<longleftrightarrow> c = a * b \<and> a * b \<le> u64_max"
  by (auto simp: mul_u64_def)

lemma sub_u64_eq_Ok [simp]: "sub_u64 a b = Ok c \<longleftrightarrow> c = a - b \<and> b \<le> a"
  by (auto simp: sub_u64_def)

lemma sum_u64_eq_Ok [simp]: "sum_u64 xs = Ok c \<longleftrightarrow> c = sum_list xs \<and> sum_list xs \<le> u64_max"
  by (auto simp: sum_u64_def)

lemma div_ceil_mult:
  assumes "0 < b"
  shows "div_ceil a b * b = a + (if a mod b = 0 then 0 else b - a mod b)"
proof -
  obtain q r where "a div b = q" "a mod b = r" "a = q * b + r" "r < b"
    using assms by (metis div_mult_mod_eq mod_less_divisor)
  then show ?thesis by (simp add: div_ceil_def)
qed

lemma div_ceil_ge: "0 < b \<Longrightarrow> a \<le> div_ceil a b * b"
  by (simp add: div_ceil_mult)

lemma div_ceil_less: "0 < b \<Longrightarrow> div_ceil a b * b < a + b"
  by (simp add: div_ceil_mult)

lemma div_ceil_0 [simp]: "div_ceil 0 b = 0"
  by (simp add: div_ceil_def)

lemma div_ceil_eq_0 [simp]: "0 < b \<Longrightarrow> div_ceil a b = 0 \<longleftrightarrow> a = 0"
  using div_ceil_ge [of b a] by auto

lemma div_ceil_pos [simp]: "0 < b \<Longrightarrow> 0 < div_ceil a b \<longleftrightarrow> 0 < a"
  by (metis div_ceil_eq_0 neq0_conv)

lemma div_ceil_mono: "div_ceil a b \<le> div_ceil c b" if "0 < b" "a \<le> c"
proof (rule ccontr)
  assume "\<not> div_ceil a b \<le> div_ceil c b"
  then have "Suc (div_ceil c b) * b \<le> div_ceil a b * b" by (intro mult_le_mono1) simp
  with div_ceil_ge [of b c] div_ceil_less [of b a] that show False by simp
qed

lemma ivl_disjoint_nat:
  "{a..<b} \<inter> {c..<d} = {} \<longleftrightarrow> b \<le> a \<or> d \<le> c \<or> b \<le> c \<or> d \<le> (a :: nat)"
proof
  assume e: "{a..<b} \<inter> {c..<d} = {}"
  then have "max a c \<notin> {a..<b} \<inter> {c..<d}" by simp
  then show "b \<le> a \<or> d \<le> c \<or> b \<le> c \<or> d \<le> a" by auto
qed auto

section \<open>Byte strings\<close>

text \<open>\<^verbatim>\<open>u32::to_le_bytes\<close> and \<^verbatim>\<open>u64::to_le_bytes\<close> (n = 4, 8) and their inverses.\<close>

fun le_bytes :: "nat \<Rightarrow> nat \<Rightarrow> bytes" where
  "le_bytes 0 x = []"
| "le_bytes (Suc n) x = word_of_nat x # le_bytes n (x div 256)"

fun le_val :: "bytes \<Rightarrow> nat" where
  "le_val [] = 0"
| "le_val (b # bs) = unat b + 256 * le_val bs"

fun be_val :: "bytes \<Rightarrow> nat" where
  "be_val [] = 0"
| "be_val (b # bs) = unat b * 256 ^ length bs + be_val bs"

lemma unat_u8_bound: "unat (b :: u8) < 256"
  using unsigned_less [of b] by simp

lemma length_le_bytes [simp]: "length (le_bytes n x) = n"
  by (induction n arbitrary: x) auto

lemma le_val_le_bytes: "x < 256 ^ n \<Longrightarrow> le_val (le_bytes n x) = x"
proof (induction n arbitrary: x)
  case (Suc n)
  have "x div 256 < 256 ^ n"
    using Suc.prems by (simp add: less_mult_imp_div_less mult.commute)
  then show ?case by (simp add: Suc.IH unat_of_nat take_bit_eq_mod)
qed simp

lemma le_val_bound: "le_val bs < 256 ^ length bs"
proof (induction bs)
  case (Cons b bs)
  have "Suc (le_val bs) * 256 \<le> 256 ^ length bs * 256"
    using Cons.IH by (intro mult_le_mono1) simp
  with unat_u8_bound [of b] show ?case by simp
qed simp

lemma be_val_bound: "be_val bs < 256 ^ length bs"
proof (induction bs)
  case (Cons b bs)
  have "Suc (unat b) * 256 ^ length bs \<le> 256 * 256 ^ length bs"
    using unat_u8_bound [of b] by (intro mult_le_mono1 Suc_leI)
  then have "256 ^ length bs + unat b * 256 ^ length bs \<le> 256 ^ length (b # bs)" by simp
  with Cons.IH show ?case by (simp only: be_val.simps)
qed simp

lemma be_val_less_iff: "length xs = length ys \<Longrightarrow> xs < ys \<longleftrightarrow> be_val xs < be_val ys"
proof (induction xs ys rule: list_induct2)
  case (Cons x xs y ys)
  let ?B = "256 ^ length ys :: nat"
  note bx = be_val_bound [of xs] and bt = be_val_bound [of ys]
  consider "unat x < unat y" | "unat y < unat x" | "x = y"
    using word_unat_eq_iff by (metis linorder_neqE_nat)
  then show ?case
  proof cases
    case 1
    then have "Suc (unat x) * ?B \<le> unat y * ?B" by (intro mult_le_mono1) simp
    with bx have "be_val (x # xs) < be_val (y # ys)" using Cons.hyps by simp
    moreover have "x < y" using 1 by (simp add: word_less_nat_alt)
    ultimately show ?thesis by simp
  next
    case 2
    then have "Suc (unat y) * ?B \<le> unat x * ?B" by (intro mult_le_mono1) simp
    with bt have "be_val (y # ys) \<le> be_val (x # xs)" using Cons.hyps by simp
    moreover have "\<not> x < y" "x \<noteq> y" using 2 by (auto simp: word_less_nat_alt)
    ultimately show ?thesis by simp
  next
    case 3
    with Cons show ?thesis by simp
  qed
qed simp

lemma be_val_inj: "length xs = length ys \<Longrightarrow> be_val xs = be_val ys \<longleftrightarrow> xs = ys"
  by (metis be_val_less_iff less_irrefl linorder_less_linear)

lemma be_val_le_iff: "length xs = length ys \<Longrightarrow> xs \<le> ys \<longleftrightarrow> be_val xs \<le> be_val ys"
  by (metis be_val_less_iff linorder_not_le)

lemma be_val_append: "be_val (xs @ ys) = be_val xs * 256 ^ length ys + be_val ys"
  by (induction xs) (simp_all add: algebra_simps power_add)

lemma be_val_rev: "be_val (rev bs) = le_val bs"
  by (induction bs) (simp_all add: be_val_append)

text \<open>The bytes of an ASCII string literal.\<close>

definition string_bytes :: "string \<Rightarrow> bytes" where
  "string_bytes s = map (\<lambda>c. of_nat (of_char c)) s"

text \<open>The decimal form \<^verbatim>\<open>format!\<close> prints for an unsigned integer.\<close>

fun decimal :: "nat \<Rightarrow> string" where
  "decimal n = (if n < 10 then [char_of (48 + n)] else decimal (n div 10) @ [char_of (48 + n mod 10)])"

declare decimal.simps [simp del]

section \<open>Ordered maps as key-sorted association lists\<close>

fun bt_insert :: "'k::linorder \<Rightarrow> 'v \<Rightarrow> ('k \<times> 'v) list \<Rightarrow> ('k \<times> 'v) list" where
  "bt_insert k v [] = [(k, v)]"
| "bt_insert k v ((k', v') # m) =
     (if k < k' then (k, v) # (k', v') # m
      else if k = k' then (k, v) # m
      else (k', v') # bt_insert k v m)"

definition bt_remove :: "'k \<Rightarrow> ('k \<times> 'v) list \<Rightarrow> ('k \<times> 'v) list" where
  "bt_remove k m = filter (\<lambda>e. fst e \<noteq> k) m"

definition bt_before :: "'k::linorder \<Rightarrow> ('k \<times> 'v) list \<Rightarrow> ('k \<times> 'v) option" where
  "bt_before k m =
     (let below = filter (\<lambda>e. fst e < k) m in if below = [] then None else Some (last below))"

abbreviation bt_sorted :: "('k::linorder \<times> 'v) list \<Rightarrow> bool" where
  "bt_sorted m \<equiv> sorted_wrt (<) (map fst m)"

text \<open>The interface of an ordered map: what lookup returns after an update, and that
  updates keep the representation invariant.\<close>

locale ordered_map =
  fixes emp :: 'm
    and ins :: "'k \<Rightarrow> 'v \<Rightarrow> 'm \<Rightarrow> 'm"
    and del :: "'k \<Rightarrow> 'm \<Rightarrow> 'm"
    and get :: "'m \<Rightarrow> 'k \<Rightarrow> 'v option"
    and wf :: "'m \<Rightarrow> bool"
  assumes get_emp: "get emp k = None"
    and get_ins: "wf m \<Longrightarrow> get (ins k v m) k' = (if k' = k then Some v else get m k')"
    and get_del: "wf m \<Longrightarrow> get (del k m) k' = (if k' = k then None else get m k')"
    and wf_emp: "wf emp"
    and wf_ins: "wf m \<Longrightarrow> wf (ins k v m)"
    and wf_del: "wf m \<Longrightarrow> wf (del k m)"
begin

lemma get_del_ins: "wf m \<Longrightarrow> get m k = None \<Longrightarrow> get (del k (ins k v m)) = get m"
  by (rule ext) (simp add: get_ins get_del wf_ins)

lemma dom_ins: "wf m \<Longrightarrow> dom (get (ins k v m)) = insert k (dom (get m))"
  by (auto simp: dom_def get_ins)

lemma dom_del: "wf m \<Longrightarrow> dom (get (del k m)) = dom (get m) - {k}"
  by (auto simp: dom_def get_del split: if_splits)

end

lemma set_fst_bt_insert [simp]: "fst ` set (bt_insert k v m) = insert k (fst ` set m)"
  by (induction k v m rule: bt_insert.induct) auto

lemma bt_sorted_insert: "bt_sorted m \<Longrightarrow> bt_sorted (bt_insert k v m)"
proof (induction k v m rule: bt_insert.induct)
  case (2 k v k' v' m)
  have "set (map fst (bt_insert k v m)) = insert k (set (map fst m))" by simp
  with 2 show ?case by (auto simp del: set_map)
qed simp

lemma bt_sorted_remove: "bt_sorted m \<Longrightarrow> bt_sorted (bt_remove k m)"
  by (induction m) (auto simp: bt_remove_def)

lemma map_of_bt_insert: "bt_sorted m \<Longrightarrow>
    map_of (bt_insert k v m) k' = (if k' = k then Some v else map_of m k')"
proof (induction k v m rule: bt_insert.induct)
  case (2 k v k1 v1 m)
  then show ?case by auto
qed simp

lemma bt_insert_split:
  assumes "\<forall>e \<in> set xs. fst e < k" "\<forall>e \<in> set ys. k < fst e"
  shows "bt_insert k v (xs @ ys) = xs @ (k, v) # ys"
    and "bt_insert k v (xs @ (k, w) # ys) = xs @ (k, v) # ys"
proof -
  have *: "bt_insert k v zs = (k, v) # zs" if "\<forall>e \<in> set zs. k < fst e" for zs :: "('a \<times> 'b) list"
    using that by (cases zs) auto
  show "bt_insert k v (xs @ ys) = xs @ (k, v) # ys"
    using assms(1) by (induction xs) (auto simp: * [OF assms(2)])
  show "bt_insert k v (xs @ (k, w) # ys) = xs @ (k, v) # ys"
    using assms(1) by (induction xs) auto
qed

lemma bt_remove_split:
  assumes "\<forall>e \<in> set xs. fst e \<noteq> k" "\<forall>e \<in> set ys. fst e \<noteq> k"
  shows "bt_remove k (xs @ (k, v) # ys) = xs @ ys"
proof -
  have "filter (\<lambda>e. fst e \<noteq> k) zs = zs" if "\<forall>e \<in> set zs. fst e \<noteq> k" for zs :: "('a \<times> 'b) list"
    using that by (simp add: filter_id_conv)
  with assms show ?thesis by (simp add: bt_remove_def)
qed

lemma bt_before_split:
  assumes "\<forall>e \<in> set xs. fst e < k" "\<forall>e \<in> set ys. k \<le> fst e"
  shows "bt_before k (xs @ ys) = (if xs = [] then None else Some (last xs))"
proof -
  have "filter (\<lambda>e. fst e < k) xs = xs" using assms(1) by (simp add: filter_id_conv)
  moreover have "filter (\<lambda>e. fst e < k) ys = []" using assms(2) by (auto simp: filter_empty_conv)
  ultimately show ?thesis by (simp add: bt_before_def)
qed

lemma map_of_bt_remove: "map_of (bt_remove k m) k' = (if k' = k then None else map_of m k')"
  by (induction m) (auto simp: bt_remove_def)

interpretation btree: ordered_map "[] :: ('k::linorder \<times> 'v) list" bt_insert bt_remove map_of bt_sorted
  by unfold_locales
    (auto simp: map_of_bt_insert map_of_bt_remove bt_sorted_remove intro: bt_sorted_insert)

section \<open>Reachability\<close>

inductive reach :: "('s \<Rightarrow> bool) \<Rightarrow> ('s \<Rightarrow> 's \<Rightarrow> bool) \<Rightarrow> 's \<Rightarrow> bool"
  for init :: "'s \<Rightarrow> bool" and step :: "'s \<Rightarrow> 's \<Rightarrow> bool" where
  reach_init: "init s \<Longrightarrow> reach init step s"
| reach_step: "reach init step s \<Longrightarrow> step s t \<Longrightarrow> reach init step t"

locale invariant_system =
  fixes init :: "'s \<Rightarrow> bool"
    and step :: "'s \<Rightarrow> 's \<Rightarrow> bool"
    and inv :: "'s \<Rightarrow> bool"
  assumes init_inv: "init s \<Longrightarrow> inv s"
    and step_inv: "inv s \<Longrightarrow> step s t \<Longrightarrow> inv t"
begin

lemma reach_inv: "reach init step s \<Longrightarrow> inv s"
  by (induction rule: reach.induct) (auto intro: init_inv step_inv)

end

end
