(* ===== verification/Kiseki_Time.thy ===== *)
theory Kiseki_Time
  imports Kiseki_Prelude
begin

text \<open>
  The hybrid logical clock of \<^verbatim>\<open>crates/kiseki-common/src/time.rs\<close>: the clock value, its
  total order, \<open>tick\<close> and \<open>merge\<close>. The components keep their machine width, so a counter
  that saturates behaves as it does in the code. The causality section runs clocks of several
  nodes against a sequence of local events and message receipts.
\<close>

section \<open>The clock\<close>

datatype HlcExhausted = HlcExhausted

datatype HybridLogicalClock = HLC (physical_ms: u64) (logical: u32) (node_id: u64)

datatype ClockQuality = Ntp | Ptp | Gps | Unsync

record WallTime =
  millis_since_epoch :: nat
  timezone :: string

record DeltaTimestamp =
  ts_hlc :: HybridLogicalClock
  ts_wall :: WallTime
  ts_quality :: ClockQuality

definition checked_add :: "'a::len word \<Rightarrow> 'a word \<Rightarrow> 'a word option" where
  "checked_add a b = (if unat a + unat b < 2 ^ LENGTH('a) then Some (a + b) else None)"

definition hlc_zero :: "u64 \<Rightarrow> HybridLogicalClock" where
  "hlc_zero n = HLC 0 0 n"

definition tick :: "HybridLogicalClock \<Rightarrow> u64 \<Rightarrow> (HlcExhausted, HybridLogicalClock) res" where
  "tick self now =
     (if now > physical_ms self then Ok (HLC now 0 (node_id self))
      else case checked_add (logical self) 1 of
        Some nxt \<Rightarrow> Ok (HLC (physical_ms self) nxt (node_id self))
      | None \<Rightarrow>
          (case checked_add (physical_ms self) 1 of
             Some next_phys \<Rightarrow> Ok (HLC next_phys 0 (node_id self))
           | None \<Rightarrow> Err HlcExhausted))"

definition merge_base :: "HybridLogicalClock \<Rightarrow> HybridLogicalClock \<Rightarrow> u64 \<Rightarrow> u32 option" where
  "merge_base self remote phys' =
     (if phys' = physical_ms self \<and> phys' = physical_ms remote
      then Some (max (logical self) (logical remote))
      else if phys' = physical_ms self then Some (logical self)
      else if phys' = physical_ms remote then Some (logical remote)
      else None)"

definition merge ::
  "HybridLogicalClock \<Rightarrow> HybridLogicalClock \<Rightarrow> u64 \<Rightarrow> (HlcExhausted, HybridLogicalClock) res" where
  "merge self remote now =
     (let phys' = max (max (physical_ms self) (physical_ms remote)) now in
      case merge_base self remote phys' of
        None \<Rightarrow> Ok (HLC phys' 0 (node_id self))
      | Some base \<Rightarrow>
          (case checked_add base 1 of
             Some l \<Rightarrow> Ok (HLC phys' l (node_id self))
           | None \<Rightarrow>
               (case checked_add phys' 1 of
                  Some next_phys \<Rightarrow> Ok (HLC next_phys 0 (node_id self))
                | None \<Rightarrow> Err HlcExhausted)))"

text \<open>\<open>Ord for HybridLogicalClock\<close>: physical, then logical, then node. The order makes the type an
  instance of \<open>linorder\<close>.\<close>

definition hlc_le :: "HybridLogicalClock \<Rightarrow> HybridLogicalClock \<Rightarrow> bool" where
  "hlc_le a b \<longleftrightarrow>
     physical_ms a < physical_ms b \<or>
     (physical_ms a = physical_ms b \<and>
       (logical a < logical b \<or> (logical a = logical b \<and> node_id a \<le> node_id b)))"

instantiation HybridLogicalClock :: linorder
begin

definition less_eq_HybridLogicalClock :: "HybridLogicalClock \<Rightarrow> HybridLogicalClock \<Rightarrow> bool" where
  "less_eq_HybridLogicalClock a b \<longleftrightarrow> hlc_le a b"

definition less_HybridLogicalClock :: "HybridLogicalClock \<Rightarrow> HybridLogicalClock \<Rightarrow> bool" where
  "less_HybridLogicalClock a b \<longleftrightarrow> hlc_le a b \<and> \<not> hlc_le b a"

instance
proof
  fix x y z :: HybridLogicalClock
  show "(x < y) = (x \<le> y \<and> \<not> y \<le> x)"
    by (auto simp: less_HybridLogicalClock_def less_eq_HybridLogicalClock_def hlc_le_def)
  show "x \<le> x" by (simp add: less_eq_HybridLogicalClock_def hlc_le_def)
  show "x \<le> y \<Longrightarrow> y \<le> z \<Longrightarrow> x \<le> z"
    by (auto simp: less_eq_HybridLogicalClock_def hlc_le_def)
  show "x \<le> y \<Longrightarrow> y \<le> x \<Longrightarrow> x = y"
    by (auto simp: less_eq_HybridLogicalClock_def hlc_le_def intro: HybridLogicalClock.expand)
  show "x \<le> y \<or> y \<le> x"
    by (auto simp: less_eq_HybridLogicalClock_def hlc_le_def)
qed

end

section \<open>Monotonicity\<close>

lemma checked_add_1_Some: "checked_add a 1 = Some b \<Longrightarrow> a < b"
  by (auto simp: checked_add_def word_less_nat_alt unat_word_ariths split: if_splits)

lemma checked_add_1_None: "checked_add (a :: 'a::len word) 1 = None \<longleftrightarrow> a = - 1"
proof -
  have "unat a < 2 ^ LENGTH('a)" by (rule unsigned_less)
  then have "\<not> unat a + 1 < 2 ^ LENGTH('a) \<longleftrightarrow> unat a = 2 ^ LENGTH('a) - 1" by linarith
  then have "checked_add a 1 = None \<longleftrightarrow> unat a = 2 ^ LENGTH('a) - 1"
    by (auto simp: checked_add_def)
  also have "\<dots> \<longleftrightarrow> unat a = unat (- 1 :: 'a word)"
    by (simp add: unsigned_minus_1_eq_mask mask_eq_exp_minus_1)
  finally show ?thesis by (simp add: word_unat_eq_iff)
qed

lemma hlc_less_simps: "a < b \<longleftrightarrow>
     physical_ms a < physical_ms b \<or>
     (physical_ms a = physical_ms b \<and>
       (logical a < logical b \<or> (logical a = logical b \<and> node_id a < node_id b)))"
  for a b :: HybridLogicalClock
  by (auto simp: less_HybridLogicalClock_def hlc_le_def)

lemma tick_greater: "tick c now = Ok c' \<Longrightarrow> c < c' \<and> node_id c' = node_id c"
  by (auto simp: tick_def hlc_less_simps split: if_splits option.splits dest: checked_add_1_Some)

lemma tick_not_Panic: "tick c now \<noteq> Panic"
  by (auto simp: tick_def split: option.splits)

lemma merge_greater:
  assumes "merge c r now = Ok c'"
  shows "c < c'" "r < c'" "node_id c' = node_id c"
proof -
  let ?p = "max (max (physical_ms c) (physical_ms r)) now"
  have p: "physical_ms c \<le> ?p" "physical_ms r \<le> ?p" by (simp_all add: le_max_iff_disj)
  have base: "merge_base c r ?p = Some b \<Longrightarrow>
      (?p = physical_ms c \<longrightarrow> logical c \<le> b) \<and> (?p = physical_ms r \<longrightarrow> logical r \<le> b)" for b
    by (auto simp: merge_base_def split: if_splits)
  have none: "merge_base c r ?p = None \<Longrightarrow> ?p \<noteq> physical_ms c \<and> ?p \<noteq> physical_ms r"
    by (auto simp: merge_base_def split: if_splits)
  show "node_id c' = node_id c"
    using assms by (auto simp: merge_def Let_def split: option.splits)
  have "x < c'" if "x = c \<or> x = r" for x
  proof (cases "merge_base c r ?p")
    case None
    then have "c' = HLC ?p 0 (node_id c)" using assms by (simp add: merge_def Let_def)
    then show ?thesis using that p none [OF None] by (auto simp: hlc_less_simps order_le_less)
  next
    case (Some b)
    have x: "physical_ms x < ?p \<or> (physical_ms x = ?p \<and> logical x \<le> b)"
      using that p base [OF Some] by (auto simp: order_le_less)
    show ?thesis
    proof (cases "checked_add b 1")
      case None
      then obtain q where "checked_add ?p 1 = Some q" "c' = HLC q 0 (node_id c)"
        using assms Some by (auto simp: merge_def Let_def split: option.splits)
      then have "physical_ms x < physical_ms c'"
        using x checked_add_1_Some [of ?p q] by (auto simp del: max_less_iff_conj less_max_iff_disj)
      then show ?thesis by (simp add: hlc_less_simps)
    next
      case (Some l)
      then have "c' = HLC ?p l (node_id c)"
        using assms \<open>merge_base c r ?p = Some b\<close> by (simp add: merge_def Let_def)
      then show ?thesis using x checked_add_1_Some [OF Some] by (auto simp: hlc_less_simps)
    qed
  qed
  then show "c < c'" "r < c'" by auto
qed

lemma checked_add_1: "checked_add (a :: 'a::len word) 1 = (if a = - 1 then None else Some (a + 1))"
proof (cases "checked_add a 1")
  case None
  then show ?thesis using checked_add_1_None [of a] by simp
next
  case (Some b)
  then have "b = a + 1" by (simp add: checked_add_def split: if_splits)
  moreover have "a \<noteq> - 1" using Some checked_add_1_None [of a] by auto
  ultimately show ?thesis using Some by simp
qed

lemma tick_Err_iff: "tick c now = Err HlcExhausted \<longleftrightarrow> physical_ms c = - 1 \<and> logical c = - 1"
proof -
  have "\<not> (- 1 :: u64) < now" by (simp add: not_less)
  then show ?thesis by (auto simp: tick_def checked_add_1)
qed

section \<open>Causality across nodes\<close>

text \<open>
  Events of several nodes in the order they happen: a local event ticks the node's clock, the
  receipt of a message merges in the stamp of the event that sent it. \<open>hlc_run\<close> gives every
  event its stamp; it fails when a clock is exhausted or a message was never sent.
\<close>

datatype hlc_event = Local nat u64 | Receive nat nat u64

fun ev_node :: "hlc_event \<Rightarrow> nat" where
  "ev_node (Local n now) = n"
| "ev_node (Receive n i now) = n"

fun hlc_run :: "(nat \<Rightarrow> HybridLogicalClock) \<Rightarrow> HybridLogicalClock list \<Rightarrow> hlc_event list \<Rightarrow>
    (HlcExhausted, HybridLogicalClock list) res" where
  "hlc_run clk stamps [] = Ok stamps"
| "hlc_run clk stamps (Local n now # es) =
     bind_res (tick (clk n) now) (\<lambda>c. hlc_run (clk(n := c)) (stamps @ [c]) es)"
| "hlc_run clk stamps (Receive n i now # es) =
     (if i < length stamps
      then bind_res (merge (clk n) (stamps ! i) now)
             (\<lambda>c. hlc_run (clk(n := c)) (stamps @ [c]) es)
      else Panic)"

inductive happens_before :: "hlc_event list \<Rightarrow> nat \<Rightarrow> nat \<Rightarrow> bool" for es where
  hb_node: "i < j \<Longrightarrow> j < length es \<Longrightarrow> ev_node (es ! i) = ev_node (es ! j) \<Longrightarrow>
    happens_before es i j"
| hb_msg: "j < length es \<Longrightarrow> es ! j = Receive n i now \<Longrightarrow> happens_before es i j"
| hb_trans: "happens_before es i j \<Longrightarrow> happens_before es j k \<Longrightarrow> happens_before es i k"

text \<open>What the run has established after the prefix \<open>pre\<close>: every stamp is at most its node's
  clock, and the two generating cases of happens-before are respected.\<close>

definition run_inv ::
  "(nat \<Rightarrow> HybridLogicalClock) \<Rightarrow> HybridLogicalClock list \<Rightarrow> hlc_event list \<Rightarrow> bool" where
  "run_inv clk stamps pre \<longleftrightarrow>
     length stamps = length pre \<and>
     (\<forall>i < length pre. stamps ! i \<le> clk (ev_node (pre ! i))) \<and>
     (\<forall>i j. i < j \<longrightarrow> j < length pre \<longrightarrow> ev_node (pre ! i) = ev_node (pre ! j) \<longrightarrow>
        stamps ! i < stamps ! j) \<and>
     (\<forall>j n i now. j < length pre \<longrightarrow> pre ! j = Receive n i now \<longrightarrow> stamps ! i < stamps ! j \<and> i < j)"

lemma run_inv_extend:
  assumes inv: "run_inv clk stamps pre" and c: "clk (ev_node e) < c"
    and msg: "\<And>n i now. e = Receive n i now \<Longrightarrow> i < length stamps \<and> stamps ! i < c"
  shows "run_inv (clk(ev_node e := c)) (stamps @ [c]) (pre @ [e])"
proof -
  have len: "length stamps = length pre" using inv by (simp add: run_inv_def)
  have le: "stamps ! i \<le> clk (ev_node (pre ! i))" if "i < length pre" for i
    using inv that by (simp add: run_inv_def)
  have "stamps ! i < c" if "i < length pre" "ev_node (pre ! i) = ev_node e" for i
    using le [OF that(1)] that(2) c by simp
  then show ?thesis
    using inv msg le unfolding run_inv_def
    by (auto simp: nth_append len less_Suc_eq less_imp_le)
qed

lemma hlc_run_inv:
  assumes "hlc_run clk stamps es = Ok out" "run_inv clk stamps pre"
  shows "\<exists>clk'. run_inv clk' out (pre @ es)"
  using assms
proof (induction clk stamps es arbitrary: pre rule: hlc_run.induct)
  case (2 clk stamps n now es)
  then obtain c where c: "tick (clk n) now = Ok c"
    and rest: "hlc_run (clk(n := c)) (stamps @ [c]) es = Ok out" by auto
  have "run_inv (clk(n := c)) (stamps @ [c]) (pre @ [Local n now])"
    using run_inv_extend [OF "2.prems"(2), of "Local n now" c] tick_greater [OF c] by simp
  with "2.IH" [OF rest] show ?case by fastforce
next
  case (3 clk stamps n i now es)
  then obtain c where i: "i < length stamps" and c: "merge (clk n) (stamps ! i) now = Ok c"
    and rest: "hlc_run (clk(n := c)) (stamps @ [c]) es = Ok out" by (auto split: if_splits)
  have "run_inv (clk(n := c)) (stamps @ [c]) (pre @ [Receive n i now])"
    using run_inv_extend [OF "3.prems"(2), of "Receive n i now" c] merge_greater [OF c] i by simp
  with "3.IH" [OF i rest] show ?case by fastforce
qed auto

lemma happens_before_stamps:
  assumes "happens_before es i j" "run_inv clk stamps es"
  shows "stamps ! i < stamps ! j"
  using assms by (induction rule: happens_before.induct) (auto simp: run_inv_def)

lemma merge_Err:
  "merge c r now = Err e \<Longrightarrow> max (physical_ms c) (physical_ms r) = - 1 \<and>
     (logical c = - 1 \<or> logical r = - 1)"
proof -
  assume e: "merge c r now = Err e"
  let ?p = "max (max (physical_ms c) (physical_ms r)) now"
  from e obtain b where b: "merge_base c r ?p = Some b" "b = - 1" "?p = - 1"
    by (auto simp: merge_def Let_def checked_add_1 split: option.splits if_splits)
  have "physical_ms c = ?p \<or> physical_ms r = ?p" "logical c = - 1 \<or> logical r = - 1"
    using b by (auto simp: merge_base_def max_def split: if_splits)
  moreover have "max (physical_ms c) (physical_ms r) \<le> - 1" by simp
  ultimately show ?thesis using b(3) by (metis antisym max.cobounded1 max.cobounded2)
qed

lemma merge_not_Panic: "merge c r now \<noteq> Panic"
  by (auto simp: merge_def Let_def split: option.splits)

section \<open>Properties\<close>

text \<open>both clock operations are total: \<open>tick\<close> returns a strictly greater clock of the same
  node and reports exhaustion exactly when the physical and the logical component are both at
  their maximum; \<open>merge\<close> returns a clock strictly greater than the local and the remote one,
  and reports exhaustion only when the larger physical component is at its maximum and a
  logical counter is saturated.\<close>

lemma clock_step_total:
  "(case tick c now of
      Ok c' \<Rightarrow> c < c' \<and> node_id c' = node_id c
    | Err e \<Rightarrow> physical_ms c = - 1 \<and> logical c = - 1
    | Panic \<Rightarrow> False) \<and>
   (physical_ms c = - 1 \<and> logical c = - 1 \<longleftrightarrow> tick c now = Err HlcExhausted) \<and>
   (case merge c r now of
      Ok c' \<Rightarrow> c < c' \<and> r < c' \<and> node_id c' = node_id c
    | Err e \<Rightarrow> max (physical_ms c) (physical_ms r) = - 1 \<and> (logical c = - 1 \<or> logical r = - 1)
    | Panic \<Rightarrow> False)"
proof (intro conjI)
  have e: "e = HlcExhausted" for e by (cases e) simp
  show "case tick c now of
      Ok c' \<Rightarrow> c < c' \<and> node_id c' = node_id c
    | Err e \<Rightarrow> physical_ms c = - 1 \<and> logical c = - 1
    | Panic \<Rightarrow> False"
    using tick_greater tick_not_Panic tick_Err_iff e by (simp split: res.split) metis
  show "physical_ms c = - 1 \<and> logical c = - 1 \<longleftrightarrow> tick c now = Err HlcExhausted"
    by (simp only: tick_Err_iff)
  show "case merge c r now of
      Ok c' \<Rightarrow> c < c' \<and> r < c' \<and> node_id c' = node_id c
    | Err e \<Rightarrow> max (physical_ms c) (physical_ms r) = - 1 \<and> (logical c = - 1 \<or> logical r = - 1)
    | Panic \<Rightarrow> False"
    using merge_greater merge_not_Panic merge_Err by (simp split: res.split)
qed

text \<open>C40: clock stamps respect causality. However the events of the nodes interleave, an event
  that happens before another (earlier on the same node, or the sending of the message the
  other receives, or through a chain of these) has a strictly smaller stamp.\<close>

theorem hlc_causality:
  assumes "hlc_run clk [] es = Ok stamps" and "happens_before es i j"
  shows "stamps ! i < stamps ! j"
proof -
  have "run_inv clk [] []" by (simp add: run_inv_def)
  with hlc_run_inv [OF assms(1)] obtain clk' where "run_inv clk' stamps es" by fastforce
  with assms(2) show ?thesis by (rule happens_before_stamps)
qed

theorem hlc_causality_witness:
  "hlc_run (\<lambda>n. hlc_zero (of_nat n)) [] [Local 0 5, Receive 1 0 3, Local 1 3] =
     Ok [HLC 5 0 0, HLC 5 1 1, HLC 5 2 1] \<and> HLC 5 0 0 < HLC 5 2 1"
proof -
  let ?es = "[Local 0 5, Receive 1 0 3, Local 1 3]"
  have r: "hlc_run (\<lambda>n. hlc_zero (of_nat n)) [] ?es = Ok [HLC 5 0 0, HLC 5 1 1, HLC 5 2 1]"
    by (simp add: tick_def merge_def merge_base_def hlc_zero_def checked_add_def Let_def)
  have "happens_before ?es 0 1" by (rule hb_msg [where n = 1 and now = 3]) simp_all
  moreover have "happens_before ?es 1 2" by (rule hb_node) simp_all
  ultimately have "happens_before ?es 0 2" by (rule hb_trans)
  from hlc_causality [OF r this] r show ?thesis by simp
qed

end
