(* ===== verification/Block_Allocator.thy ===== *)
theory Block_Allocator
  imports Kiseki_Prelude
begin

text \<open>
  The bitmap extent allocator of \<^verbatim>\<open>crates/kiseki-block/src/allocator.rs\<close> and the extents of
  \<^verbatim>\<open>extent.rs\<close>. The bitmap is a byte vector with the code's bit layout, the free list an ordered
  map from run start to run length. Block numbers in the free list never exceed
  \<open>total_blocks\<close> (part of \<open>alloc_inv\<close>), so additions on them are plain; products with the
  block size, the end of a freed extent and the accounting sums are checked, as in the code.
  The main results: every operation keeps the free list equal to what \<open>rebuild_free_list\<close> would
  compute from the bitmap, and live extents never overlap.
\<close>

unbundle bit_operations_syntax

section \<open>Extents\<close>

record Extent =
  ext_offset :: nat
  ext_length :: nat

definition extent_new :: "nat \<Rightarrow> nat \<Rightarrow> Extent" where
  "extent_new off len = \<lparr>ext_offset = off, ext_length = len\<rparr>"

definition extent_end :: "Extent \<Rightarrow> ('e, nat) res" where
  "extent_end e = add_u64 (ext_offset e) (ext_length e)"

definition is_adjacent_before :: "Extent \<Rightarrow> Extent \<Rightarrow> ('e, bool) res" where
  "is_adjacent_before e f = bind_res (extent_end e) (\<lambda>x. Ok (x = ext_offset f))"

definition extent_merge :: "Extent \<Rightarrow> Extent \<Rightarrow> ('e, Extent option) res" where
  "extent_merge e f =
     bind_res (is_adjacent_before e f) (\<lambda>before.
       if before
       then bind_res (add_u64 (ext_length e) (ext_length f))
              (\<lambda>l. Ok (Some (extent_new (ext_offset e) l)))
       else bind_res (is_adjacent_before f e) (\<lambda>after.
         if after
         then bind_res (add_u64 (ext_length e) (ext_length f))
                (\<lambda>l. Ok (Some (extent_new (ext_offset f) l)))
         else Ok None))"

section \<open>Allocator state\<close>

datatype AllocError =
    DeviceFull nat nat
  | RequestTooLarge nat nat
  | Inconsistency string

record BitmapAllocator =
  ba_total_blocks :: nat
  ba_block_size :: nat
  ba_bitmap :: bytes
  ba_free_list :: "(nat \<times> nat) list"
  ba_max_extent_blocks :: nat

definition MAX_EXTENT_BYTES :: nat where
  "MAX_EXTENT_BYTES = 16 * 1024 * 1024 + 8"

definition ba_set_bit :: "nat \<Rightarrow> bool \<Rightarrow> bytes \<Rightarrow> bytes" where
  "ba_set_bit block allocated bm =
     (let byte_idx = block div 8; bit_idx = block mod 8 in
      if byte_idx < length bm
      then bm[byte_idx :=
             (if allocated then bm ! byte_idx OR push_bit bit_idx 1
              else bm ! byte_idx AND NOT (push_bit bit_idx 1))]
      else bm)"

definition ba_get_bit :: "bytes \<Rightarrow> nat \<Rightarrow> bool" where
  "ba_get_bit bm block =
     (let byte_idx = block div 8; bit_idx = block mod 8 in
      if byte_idx < length bm then drop_bit bit_idx (bm ! byte_idx) AND 1 = 1 else True)"

fun rebuild_scan :: "(nat \<Rightarrow> bool) \<Rightarrow> nat list \<Rightarrow> nat option \<Rightarrow> (nat \<times> nat) list \<Rightarrow>
    nat option \<times> (nat \<times> nat) list" where
  "rebuild_scan getb [] run_start fl = (run_start, fl)"
| "rebuild_scan getb (block # bs) run_start fl =
     (if getb block
      then (case run_start of
              Some start \<Rightarrow> rebuild_scan getb bs None (bt_insert start (block - start) fl)
            | None \<Rightarrow> rebuild_scan getb bs None fl)
      else rebuild_scan getb bs
             (case run_start of None \<Rightarrow> Some block | Some start \<Rightarrow> Some start) fl)"

definition rebuild_free_list :: "BitmapAllocator \<Rightarrow> BitmapAllocator" where
  "rebuild_free_list a =
     (let (run_start, fl) =
        rebuild_scan (ba_get_bit (ba_bitmap a)) [0..<ba_total_blocks a] None [] in
      a\<lparr>ba_free_list :=
          (case run_start of
             Some start \<Rightarrow> bt_insert start (ba_total_blocks a - start) fl
           | None \<Rightarrow> fl)\<rparr>)"

definition from_bitmap :: "bytes \<Rightarrow> nat \<Rightarrow> nat \<Rightarrow> ('e, BitmapAllocator) res" where
  "from_bitmap bm total_blocks block_size =
     (if block_size = 0 then Panic
      else Ok (rebuild_free_list
        \<lparr>ba_total_blocks = total_blocks, ba_block_size = block_size, ba_bitmap = bm,
         ba_free_list = [], ba_max_extent_blocks = div_ceil MAX_EXTENT_BYTES block_size\<rparr>))"

definition ba_new :: "nat \<Rightarrow> nat \<Rightarrow> ('e, BitmapAllocator) res" where
  "ba_new total_blocks block_size =
     (if block_size = 0 then Panic
      else Ok (rebuild_free_list
        \<lparr>ba_total_blocks = total_blocks, ba_block_size = block_size,
         ba_bitmap = replicate (div_ceil total_blocks 8) 0,
         ba_free_list = [], ba_max_extent_blocks = div_ceil MAX_EXTENT_BYTES block_size\<rparr>))"

section \<open>Allocation\<close>

text \<open>\<open>Iterator::min_by_key\<close>: the first of the minimal elements.\<close>

fun first_min :: "('a \<Rightarrow> nat) \<Rightarrow> 'a list \<Rightarrow> 'a option" where
  "first_min f [] = None"
| "first_min f (x # xs) =
     (case first_min f xs of
        None \<Rightarrow> Some x
      | Some y \<Rightarrow> if f y < f x then Some y else Some x)"

definition best_fit :: "nat \<Rightarrow> (nat \<times> nat) list \<Rightarrow> (nat \<times> nat) option" where
  "best_fit blocks_needed fl = first_min snd (filter (\<lambda>e. snd e \<ge> blocks_needed) fl)"

definition largest_free :: "(nat \<times> nat) list \<Rightarrow> nat" where
  "largest_free fl = foldr max (map snd fl) 0"

definition mark_blocks :: "nat \<Rightarrow> nat \<Rightarrow> bool \<Rightarrow> bytes \<Rightarrow> bytes" where
  "mark_blocks lo hi allocated bm = fold (\<lambda>i. ba_set_bit i allocated) [lo..<hi] bm"

definition ba_alloc :: "BitmapAllocator \<Rightarrow> nat \<Rightarrow> BitmapAllocator \<times> (AllocError, Extent) res" where
  "ba_alloc a size_bytes =
     (let bs = ba_block_size a; blocks_needed = div_ceil size_bytes bs in
      if blocks_needed = 0 then (a, Err (Inconsistency ''zero-size allocation''))
      else if blocks_needed > ba_max_extent_blocks a
      then (a, Err (RequestTooLarge size_bytes MAX_EXTENT_BYTES))
      else case best_fit blocks_needed (ba_free_list a) of
        None \<Rightarrow>
          (a, bind_res (mul_u64 (largest_free (ba_free_list a)) bs)
                (\<lambda>available. Err (DeviceFull size_bytes available)))
      | Some (off, free_len) \<Rightarrow>
          (let fl = bt_remove off (ba_free_list a);
               fl = (if free_len > blocks_needed
                     then bt_insert (off + blocks_needed) (free_len - blocks_needed) fl
                     else fl);
               bm = mark_blocks off (off + blocks_needed) True (ba_bitmap a) in
           (a\<lparr>ba_free_list := fl, ba_bitmap := bm\<rparr>,
            bind_res (mul_u64 off bs) (\<lambda>byte_offset.
            bind_res (mul_u64 blocks_needed bs) (\<lambda>byte_length.
              Ok (extent_new byte_offset byte_length))))))"

section \<open>Release\<close>

definition coalesce_next :: "nat \<Rightarrow> (nat \<times> nat) list \<Rightarrow> (nat \<times> nat) list" where
  "coalesce_next block_offset fl =
     (case map_of fl block_offset of
        None \<Rightarrow> fl
      | Some cur_len \<Rightarrow>
          (let next_offset = block_offset + cur_len in
           case map_of fl next_offset of
             None \<Rightarrow> fl
           | Some next_len \<Rightarrow>
               bt_insert block_offset (cur_len + next_len) (bt_remove next_offset fl)))"

definition coalesce :: "nat \<Rightarrow> (nat \<times> nat) list \<Rightarrow> (nat \<times> nat) list" where
  "coalesce block_offset fl =
     (case bt_before block_offset fl of
        Some (prev_offset, prev_len) \<Rightarrow>
          if prev_offset + prev_len = block_offset
          then (let cur_len = (case map_of fl block_offset of Some l \<Rightarrow> l | None \<Rightarrow> 0);
                    fl' = bt_remove block_offset fl in
                coalesce_next prev_offset (bt_insert prev_offset (prev_len + cur_len) fl'))
          else coalesce_next block_offset fl
      | None \<Rightarrow> coalesce_next block_offset fl)"

definition ba_free :: "BitmapAllocator \<Rightarrow> Extent \<Rightarrow> BitmapAllocator \<times> (AllocError, unit) res" where
  "ba_free a e =
     (let block_offset = ext_offset e div ba_block_size a;
          block_count = ext_length e div ba_block_size a in
      case add_u64 block_offset block_count of
        Ok block_end \<Rightarrow>
          if block_end > ba_total_blocks a
          then (a, Err (Inconsistency ''free beyond device''))
          else (a\<lparr>ba_bitmap := mark_blocks block_offset block_end False (ba_bitmap a),
                  ba_free_list :=
                    coalesce block_offset (bt_insert block_offset block_count (ba_free_list a))\<rparr>,
                Ok ())
      | Err x \<Rightarrow> (a, Err x)
      | Panic \<Rightarrow> (a, Panic))"

section \<open>Accounting\<close>

definition free_blocks :: "BitmapAllocator \<Rightarrow> (AllocError, nat) res" where
  "free_blocks a = sum_u64 (map snd (ba_free_list a))"

definition used_bytes :: "BitmapAllocator \<Rightarrow> (AllocError, nat) res" where
  "used_bytes a =
     bind_res (sum_u64 (map snd (ba_free_list a))) (\<lambda>free.
     bind_res (sub_u64 (ba_total_blocks a) free) (\<lambda>used.
       mul_u64 used (ba_block_size a)))"

definition total_bytes :: "BitmapAllocator \<Rightarrow> (AllocError, nat) res" where
  "total_bytes a = mul_u64 (ba_total_blocks a) (ba_block_size a)"

section \<open>The bitmap\<close>

lemma ba_get_bit_iff:
  "ba_get_bit bm b \<longleftrightarrow> (b div 8 < length bm \<longrightarrow> bit (bm ! (b div 8)) (b mod 8))"
  by (auto simp: ba_get_bit_def Let_def bit_iff_odd_drop_bit and_one_eq odd_iff_mod_2_eq_one)

lemma length_ba_set_bit [simp]: "length (ba_set_bit b v bm) = length bm"
  by (simp add: ba_set_bit_def Let_def)

lemma ba_get_set_bit:
  assumes "i div 8 < length bm"
  shows "ba_get_bit (ba_set_bit i v bm) j = (if j = i then v else ba_get_bit bm j)"
proof -
  have m8: "k mod 8 < 8" for k :: nat by simp
  have "j = i \<longleftrightarrow> j div 8 = i div 8 \<and> j mod 8 = i mod 8" by (metis div_mult_mod_eq)
  then show ?thesis
    using assms m8 [of i] m8 [of j]
    by (auto simp: ba_get_bit_iff ba_set_bit_def Let_def nth_list_update bit_simps)
qed

lemma mark_blocks_Suc: "lo \<le> hi \<Longrightarrow>
    mark_blocks lo (Suc hi) v bm = ba_set_bit hi v (mark_blocks lo hi v bm)"
  by (simp add: mark_blocks_def)

lemma length_mark_blocks [simp]: "length (mark_blocks lo hi v bm) = length bm"
proof (cases "lo \<le> hi")
  case True
  then show ?thesis
    by (induction hi rule: nat_induct_at_least) (auto simp: mark_blocks_Suc mark_blocks_def)
qed (simp add: mark_blocks_def)

lemma ba_get_mark_blocks:
  assumes "hi \<le> 8 * length bm" "lo \<le> hi"
  shows "ba_get_bit (mark_blocks lo hi v bm) j = (if lo \<le> j \<and> j < hi then v else ba_get_bit bm j)"
  using assms(2,1)
proof (induction hi rule: nat_induct_at_least)
  case base
  then show ?case by (auto simp: mark_blocks_def)
next
  case (Suc n)
  then have "n div 8 < length bm" by (simp add: less_mult_imp_div_less)
  with Suc show ?case by (auto simp: mark_blocks_Suc ba_get_set_bit)
qed

lemma ba_get_bit_replicate_0: "b < 8 * n \<Longrightarrow> \<not> ba_get_bit (replicate n 0) b"
  by (simp add: ba_get_bit_iff less_mult_imp_div_less)

section \<open>Canonical free lists\<close>

text \<open>\<open>cover\<close> is the set of blocks a free list stands for; \<open>canon lo\<close> says that it lists the
  maximal runs of that set in order, none starting before \<open>lo\<close>. Two canonical lists with the
  same cover are equal, so the canonical list is a function of the bitmap.\<close>

fun cover :: "(nat \<times> nat) list \<Rightarrow> nat set" where
  "cover [] = {}"
| "cover ((o', l) # fl) = {o'..<o' + l} \<union> cover fl"

fun canon :: "nat \<Rightarrow> (nat \<times> nat) list \<Rightarrow> bool" where
  "canon lo [] \<longleftrightarrow> True"
| "canon lo ((o', l) # fl) \<longleftrightarrow> lo \<le> o' \<and> 0 < l \<and> canon (Suc (o' + l)) fl"

fun canon_end :: "nat \<Rightarrow> (nat \<times> nat) list \<Rightarrow> nat" where
  "canon_end lo [] = lo"
| "canon_end lo ((o', l) # fl) = canon_end (Suc (o' + l)) fl"

lemma cover_append [simp]: "cover (xs @ ys) = cover xs \<union> cover ys"
  by (induction xs rule: cover.induct) auto

lemma canon_append [simp]: "canon lo (xs @ ys) \<longleftrightarrow> canon lo xs \<and> canon (canon_end lo xs) ys"
  by (induction lo xs rule: canon.induct) auto

lemma canon_end_append [simp]: "canon_end lo (xs @ ys) = canon_end (canon_end lo xs) ys"
  by (induction lo xs rule: canon_end.induct) auto

lemma canon_mono: "canon lo fl \<Longrightarrow> lo' \<le> lo \<Longrightarrow> canon lo' fl"
  by (cases fl rule: cover.cases) auto

lemma canon_bounds:
  "canon lo fl \<Longrightarrow> e \<in> set fl \<Longrightarrow> lo \<le> fst e \<and> 0 < snd e \<and> fst e + snd e < canon_end lo fl"
proof (induction lo fl rule: canon.induct)
  case (2 lo o' l fl)
  have le: "x \<le> canon_end x ys" if "canon x ys" for x ys
    using that by (induction x ys rule: canon.induct) auto
  from 2 le [of "Suc (o' + l)" fl] show ?case by fastforce
qed simp

lemma canon_cover_bounds: "canon lo fl \<Longrightarrow> b \<in> cover fl \<Longrightarrow> lo \<le> b \<and> Suc b < canon_end lo fl"
proof (induction lo fl rule: canon.induct)
  case (2 lo o' l fl)
  have le: "x \<le> canon_end x ys" if "canon x ys" for x ys
    using that by (induction x ys rule: canon.induct) auto
  from 2 le [of "Suc (o' + l)" fl] show ?case by fastforce
qed simp

lemma canon_keys_sorted: "canon lo fl \<Longrightarrow> bt_sorted fl"
proof (induction lo fl rule: canon.induct)
  case (2 lo o' l fl)
  then show ?case using canon_bounds [of "Suc (o' + l)" fl] by fastforce
qed simp

lemma cover_cong_tail:
  assumes "canon lo ((o', l) # xs)" "canon lo' ((p, k) # ys)"
    and "cover ((o', l) # xs) = cover ((p, k) # ys)"
  shows "o' = p \<and> l = k \<and> cover xs = cover ys"
proof -
  have mem: "{o'..<o' + l} \<union> cover xs = {p..<p + k} \<union> cover ys" using assms(3) by simp
  have xs: "o' + l < b" if "b \<in> cover xs" for b
    using canon_cover_bounds [of "Suc (o' + l)" xs b] assms(1) that by simp
  have ys: "p + k < b" if "b \<in> cover ys" for b
    using canon_cover_bounds [of "Suc (p + k)" ys b] assms(2) that by simp
  have pos: "0 < l" "0 < k" using assms(1,2) by auto
  have "p \<le> o'" using mem pos ys [of o'] by fastforce
  moreover have "o' \<le> p" using mem pos xs [of p] by fastforce
  ultimately have op: "o' = p" by simp
  have "o' + l \<notin> {p..<p + k} \<union> cover ys" "p + k \<notin> {o'..<o' + l} \<union> cover xs"
    using mem xs [of "o' + l"] ys [of "p + k"] by (metis Un_iff atLeastLessThan_iff less_irrefl)+
  then have lk: "l = k" using op pos by (metis Un_iff atLeastLessThan_iff le_add1 nat_add_left_cancel_less nat_neq_iff)
  have "cover xs = cover ys"
  proof (rule set_eqI)
    fix b
    show "b \<in> cover xs \<longleftrightarrow> b \<in> cover ys"
      using mem op lk xs [of b] ys [of b] by (metis Un_iff atLeastLessThan_iff less_asym)
  qed
  with op lk show ?thesis by simp
qed

lemma canon_unique: "canon lo xs \<Longrightarrow> canon lo' ys \<Longrightarrow> cover xs = cover ys \<Longrightarrow> xs = ys"
proof (induction lo xs arbitrary: lo' ys rule: canon.induct)
  case (1 lo)
  then show ?case by (cases ys rule: cover.cases) auto
next
  case (2 lo o' l xs)
  from "2.prems" obtain p k ys' where ys: "ys = (p, k) # ys'"
    by (cases ys rule: cover.cases) auto
  from cover_cong_tail [OF "2.prems"(1) "2.prems"(2) [unfolded ys]] "2.prems"(3) ys
  have "o' = p" "l = k" "cover xs = cover ys'" by auto
  with "2.IH" [of "Suc (p + k)" ys'] "2.prems" ys show ?case by simp
qed

section \<open>Rebuilding the free list\<close>

definition scan_inv :: "(nat \<Rightarrow> bool) \<Rightarrow> nat \<Rightarrow> nat option \<Rightarrow> (nat \<times> nat) list \<Rightarrow> bool" where
  "scan_inv getb b run fl \<longleftrightarrow> canon 0 fl \<and>
     (case run of
        None \<Rightarrow> canon_end 0 fl \<le> b \<and> cover fl = {i. i < b \<and> \<not> getb i}
      | Some st \<Rightarrow> st < b \<and> canon_end 0 fl \<le> st \<and>
          cover fl \<union> {st..<b} = {i. i < b \<and> \<not> getb i})"

lemma bt_insert_canon_end:
  "canon 0 fl \<Longrightarrow> canon_end 0 fl \<le> st \<Longrightarrow> bt_insert st l fl = fl @ [(st, l)]"
  using bt_insert_split(1) [of fl st "[]" l] canon_bounds [of 0 fl] by fastforce

lemma scan_inv_step:
  assumes "scan_inv getb b run fl"
  shows "getb b \<Longrightarrow> run = None \<Longrightarrow> scan_inv getb (Suc b) None fl"
    and "getb b \<Longrightarrow> run = Some st \<Longrightarrow> scan_inv getb (Suc b) None (bt_insert st (b - st) fl)"
    and "\<not> getb b \<Longrightarrow>
      scan_inv getb (Suc b) (case run of None \<Rightarrow> Some b | Some st \<Rightarrow> Some st) fl"
proof -
  show "getb b \<Longrightarrow> run = None \<Longrightarrow> scan_inv getb (Suc b) None fl"
    using assms by (auto simp: scan_inv_def less_Suc_eq)
  show "\<not> getb b \<Longrightarrow> scan_inv getb (Suc b) (case run of None \<Rightarrow> Some b | Some st \<Rightarrow> Some st) fl"
    using assms by (auto simp: scan_inv_def atLeastLessThanSuc less_Suc_eq split: option.splits)
  assume g: "getb b" and r: "run = Some st"
  have c: "canon 0 fl" "canon_end 0 fl \<le> st" "st < b"
    and cov: "cover fl \<union> {st..<b} = {i. i < b \<and> \<not> getb i}"
    using assms r by (auto simp: scan_inv_def)
  have "{i. i < Suc b \<and> \<not> getb i} = {i. i < b \<and> \<not> getb i}" using g by (auto simp: less_Suc_eq)
  with c cov show "scan_inv getb (Suc b) None (bt_insert st (b - st) fl)"
    by (simp add: scan_inv_def bt_insert_canon_end)
qed

lemma rebuild_scan_inv:
  assumes "scan_inv getb b run fl" "b \<le> n" "rebuild_scan getb [b..<n] run fl = (run', fl')"
  shows "scan_inv getb n run' fl'"
  using assms(2,1,3)
proof (induction b arbitrary: run fl rule: inc_induct)
  case (step b)
  have upt: "[b..<n] = b # [Suc b..<n]" using step.hyps by (simp add: upt_conv_Cons)
  show ?case
  proof (cases "getb b")
    case True
    then show ?thesis
      using scan_inv_step(1,2) [OF step.prems(1) True] step.IH step.prems(2)
      by (auto simp: upt split: option.splits)
  next
    case False
    then show ?thesis
      using scan_inv_step(3) [OF step.prems(1) False] step.IH step.prems(2) by (auto simp: upt)
  qed
qed simp

text \<open>What \<open>rebuild_free_list\<close> computes: the canonical list of the free blocks.\<close>

definition derived :: "BitmapAllocator \<Rightarrow> bool" where
  "derived a \<longleftrightarrow> canon 0 (ba_free_list a) \<and>
     cover (ba_free_list a) = {b. b < ba_total_blocks a \<and> \<not> ba_get_bit (ba_bitmap a) b}"

lemma rebuild_derived: "derived (rebuild_free_list a)"
proof -
  let ?g = "ba_get_bit (ba_bitmap a)" and ?n = "ba_total_blocks a"
  obtain run fl where sc: "rebuild_scan ?g [0..<?n] None [] = (run, fl)" by fastforce
  have "scan_inv ?g 0 None []" by (simp add: scan_inv_def)
  from rebuild_scan_inv [OF this _ sc] have inv: "scan_inv ?g ?n run fl" by simp
  show ?thesis
  proof (cases run)
    case None
    with inv sc show ?thesis by (simp add: derived_def rebuild_free_list_def scan_inv_def)
  next
    case (Some st)
    with inv have "canon 0 fl" "canon_end 0 fl \<le> st" "st < ?n"
      "cover fl \<union> {st..<?n} = {i. i < ?n \<and> \<not> ?g i}" by (auto simp: scan_inv_def)
    with Some sc show ?thesis
      by (simp add: derived_def rebuild_free_list_def bt_insert_canon_end)
  qed
qed

lemma rebuild_fields [simp]:
  "ba_total_blocks (rebuild_free_list a) = ba_total_blocks a"
  "ba_block_size (rebuild_free_list a) = ba_block_size a"
  "ba_bitmap (rebuild_free_list a) = ba_bitmap a"
  "ba_max_extent_blocks (rebuild_free_list a) = ba_max_extent_blocks a"
  by (simp_all add: rebuild_free_list_def split: prod.split)

lemma rebuild_eq_iff_derived: "rebuild_free_list a = a \<longleftrightarrow> derived a"
proof
  assume "derived a"
  moreover have "derived (rebuild_free_list a)" by (rule rebuild_derived)
  ultimately have "ba_free_list (rebuild_free_list a) = ba_free_list a"
    unfolding derived_def by (metis canon_unique rebuild_fields(1,3))
  then show "rebuild_free_list a = a" by simp
qed (metis rebuild_derived)

section \<open>Allocation and release on canonical lists\<close>

lemma canon_split_at:
  assumes "canon lo fl" "(off, len) \<in> set fl"
  obtains xs ys where "fl = xs @ (off, len) # ys" "\<forall>e \<in> set xs. fst e < off"
    "\<forall>e \<in> set ys. off + len < fst e"
proof -
  from assms(2) obtain xs ys where fl: "fl = xs @ (off, len) # ys" by (meson split_list)
  have "\<forall>e \<in> set xs. fst e < off"
    using assms(1) canon_bounds [of lo xs] unfolding fl by fastforce
  moreover have "\<forall>e \<in> set ys. off + len < fst e"
    using assms(1) canon_bounds [of "Suc (off + len)" ys] unfolding fl by fastforce
  ultimately show ?thesis using fl that by blast
qed

definition take_run :: "nat \<Rightarrow> nat \<Rightarrow> nat \<Rightarrow> (nat \<times> nat) list \<Rightarrow> (nat \<times> nat) list" where
  "take_run off n len fl =
     (if len > n then bt_insert (off + n) (len - n) (bt_remove off fl) else bt_remove off fl)"

lemma take_run_canon:
  assumes fl: "canon 0 fl" and mem: "(off, len) \<in> set fl" and n: "0 < n" "n \<le> len"
  shows "canon 0 (take_run off n len fl)"
    and "cover (take_run off n len fl) = cover fl - {off..<off + n}"
    and "{off..<off + n} \<subseteq> cover fl"
proof -
  obtain xs ys where split: "fl = xs @ (off, len) # ys" and xs: "\<forall>e \<in> set xs. fst e < off"
    and ys: "\<forall>e \<in> set ys. off + len < fst e"
    using canon_split_at [OF fl mem] by blast
  have rem: "bt_remove off fl = xs @ ys"
    unfolding split by (rule bt_remove_split) (use xs ys in auto)
  have run: "take_run off n len fl =
      xs @ (if len > n then [(off + n, len - n)] else []) @ ys"
    using bt_insert_split(1) [of xs "off + n" ys "len - n"] xs ys n
    by (fastforce simp: take_run_def rem)
  have c: "canon 0 xs" "canon_end 0 xs \<le> off" "canon (Suc (off + len)) ys"
    using fl unfolding split by auto
  have cx: "Suc b < off \<or> off = 0" if "b \<in> cover xs" for b
    using canon_cover_bounds [OF c(1) that] c(2) by simp
  have cy: "off + len < b" if "b \<in> cover ys" for b
    using canon_cover_bounds [OF c(3) that] by simp
  show "canon 0 (take_run off n len fl)"
    using c n canon_mono [OF c(3), of "canon_end 0 xs"] by (simp add: run)
  have "cover xs \<inter> {off..<off + n} = {}" using canon_cover_bounds [OF c(1)] c(2) by fastforce
  moreover have "cover ys \<inter> {off..<off + n} = {}" using cy n by fastforce
  moreover have "cover fl = cover xs \<union> {off..<off + len} \<union> cover ys" by (auto simp: split)
  ultimately show "cover (take_run off n len fl) = cover fl - {off..<off + n}"
    using n by (auto simp: run)
  show "{off..<off + n} \<subseteq> cover fl" using n by (auto simp: split)
qed

lemma first_min_None: "first_min f xs = None \<longleftrightarrow> xs = []"
  by (cases xs) (auto split: option.splits)

lemma first_min_SomeD: "first_min f xs = Some y \<Longrightarrow> y \<in> set xs \<and> (\<forall>x \<in> set xs. f y \<le> f x)"
proof (induction xs arbitrary: y)
  case (Cons a xs)
  show ?case
  proof (cases "first_min f xs")
    case None
    with Cons.prems show ?thesis by (simp add: first_min_None)
  next
    case (Some z)
    with Cons.IH [OF Some] Cons.prems show ?thesis by (auto split: if_splits)
  qed
qed simp

lemma best_fit_SomeD:
  "best_fit n fl = Some (off, len) \<Longrightarrow>
     (off, len) \<in> set fl \<and> n \<le> len \<and> (\<forall>e \<in> set fl. n \<le> snd e \<longrightarrow> len \<le> snd e)"
  using first_min_SomeD [of snd "filter (\<lambda>e. snd e \<ge> n) fl"] by (fastforce simp: best_fit_def)

lemma best_fit_None: "best_fit n fl = None \<longleftrightarrow> (\<forall>e \<in> set fl. snd e < n)"
  by (auto simp: best_fit_def first_min_None filter_empty_conv not_le)

lemma coalesce_next_canon:
  assumes xs: "canon 0 xs" "canon_end 0 xs \<le> off" and len: "0 < len" and ys: "canon (off + len) ys"
  shows "canon 0 (coalesce_next off (xs @ (off, len) # ys)) \<and>
    cover (coalesce_next off (xs @ (off, len) # ys)) = cover xs \<union> {off..<off + len} \<union> cover ys"
proof -
  have kx: "\<forall>e \<in> set xs. fst e < off" using canon_bounds [OF xs(1)] xs(2) by fastforce
  have ky: "\<forall>e \<in> set ys. off + len \<le> fst e" using canon_bounds [OF ys] by fastforce
  have none: "map_of zs k = None" if "\<forall>e \<in> set zs. fst e \<noteq> k" for zs :: "(nat \<times> nat) list" and k
    using that by (auto simp: map_of_eq_None_iff)
  have mx: "map_of xs off = None" "map_of xs (off + len) = None"
    by (rule none, use kx in fastforce)+
  have cur: "map_of (xs @ (off, len) # ys) off = Some len"
    and nxt: "map_of (xs @ (off, len) # ys) (off + len) = map_of ys (off + len)"
    using mx len by (simp_all add: map_add_def)
  show ?thesis
  proof (cases "\<exists>nl ys'. ys = (off + len, nl) # ys'")
    case True
    then obtain nl ys' where y: "ys = (off + len, nl) # ys'" by blast
    have "bt_remove (off + len) ((xs @ [(off, len)]) @ (off + len, nl) # ys') = (xs @ [(off, len)]) @ ys'"
      by (rule bt_remove_split) (use kx len ys y canon_bounds [of "Suc (off + len + nl)" ys'] in fastforce)+
    moreover have "bt_insert off (len + nl) (xs @ (off, len) # ys') = xs @ (off, len + nl) # ys'"
      by (rule bt_insert_split(2)) (use kx len ys y canon_bounds [of "Suc (off + len + nl)" ys'] in fastforce)+
    moreover have "map_of ys (off + len) = Some nl" by (simp add: y)
    then have "coalesce_next off (xs @ (off, len) # ys) =
        bt_insert off (len + nl) (bt_remove (off + len) (xs @ (off, len) # ys))"
      by (simp only: coalesce_next_def cur nxt option.case Let_def)
    ultimately have "coalesce_next off (xs @ (off, len) # ys) = xs @ (off, len + nl) # ys'"
      by (simp add: y)
    then show ?thesis using xs len ys y by (auto simp: add.assoc)
  next
    case False
    have "canon (Suc (off + len)) ys"
      using ys False by (cases ys rule: cover.cases) (auto simp: Suc_le_eq le_neq_implies_less)
    moreover from this have "map_of ys (off + len) = None"
      by (intro none) (use canon_bounds [of "Suc (off + len)" ys] in fastforce)
    then have "coalesce_next off (xs @ (off, len) # ys) = xs @ (off, len) # ys"
      by (simp only: coalesce_next_def cur nxt option.case Let_def)
    ultimately show ?thesis using xs len by (simp add: Un_assoc)
  qed
qed

lemma split_at_key:
  "bt_sorted fl \<Longrightarrow> \<exists>xs ys. fl = xs @ ys \<and> (\<forall>e \<in> set xs. fst e < k) \<and> (\<forall>e \<in> set ys. k \<le> fst e)"
proof (induction fl)
  case (Cons a fl)
  then obtain xs ys where IH: "fl = xs @ ys" "\<forall>e \<in> set xs. fst e < k" "\<forall>e \<in> set ys. k \<le> fst e"
    by auto
  show ?case
  proof (cases "fst a < k")
    case True
    with IH show ?thesis by (intro exI [of _ "a # xs"] exI [of _ ys]) simp
  next
    case False
    with Cons.prems show ?thesis by (intro exI [of _ "[]"] exI [of _ "a # fl"]) fastforce
  qed
qed simp

lemma cover_mem: "(off, len) \<in> set fl \<Longrightarrow> off \<le> b \<Longrightarrow> b < off + len \<Longrightarrow> b \<in> cover fl"
  by (induction fl rule: cover.induct) auto

lemma release_canon:
  assumes fl: "canon 0 fl" and n: "0 < n" and disj: "cover fl \<inter> {off..<off + n} = {}"
  shows "canon 0 (coalesce off (bt_insert off n fl)) \<and>
    cover (coalesce off (bt_insert off n fl)) = cover fl \<union> {off..<off + n}"
proof -
  obtain xs ys where split: "fl = xs @ ys" and xs: "\<forall>e \<in> set xs. fst e < off"
    and ys: "\<forall>e \<in> set ys. off \<le> fst e"
    using split_at_key [OF canon_keys_sorted [OF fl]] by blast
  have c: "canon 0 xs" "canon (canon_end 0 xs) ys" using fl by (auto simp: split)
  have ky: "off + n \<le> fst e" if e: "e \<in> set ys" for e
  proof -
    have "fst e \<in> cover fl"
      using cover_mem [of "fst e" "snd e" fl "fst e"] canon_bounds [OF fl, of e] e split by simp
    with disj ys e show ?thesis by fastforce
  qed
  have cy: "canon (off + n) ys"
    using c(2) ky by (cases ys rule: cover.cases) fastforce+
  have ins: "bt_insert off n fl = xs @ (off, n) # ys"
    unfolding split by (rule bt_insert_split(1)) (use xs ky n in fastforce)+
  have before: "bt_before off (bt_insert off n fl) = (if xs = [] then None else Some (last xs))"
    unfolding ins by (rule bt_before_split) (use xs ys in auto)
  show ?thesis
  proof (cases xs rule: rev_cases)
    case Nil
    with before have "coalesce off (bt_insert off n fl) = coalesce_next off (xs @ (off, n) # ys)"
      unfolding coalesce_def ins by simp
    then show ?thesis
      using coalesce_next_canon [of "[]" off n ys] n cy by (auto simp: split Nil)
  next
    case (snoc xs0 e)
    obtain po pl where e: "e = (po, pl)" by fastforce
    have cx: "canon 0 xs0" "canon_end 0 xs0 \<le> po" "0 < pl" using c(1) by (auto simp: snoc e)
    have "po + pl \<le> off"
    proof (rule ccontr)
      assume "\<not> po + pl \<le> off"
      then have "off \<in> cover fl"
        using cover_mem [of po pl fl off] xs by (auto simp: split snoc e)
      with disj n show False by auto
    qed
    show ?thesis
    proof (cases "po + pl = off")
      case True
      have k0: "\<forall>e \<in> set xs0. fst e < po" using canon_bounds [OF cx(1)] cx(2) by fastforce
      have "map_of xs off = None"
        using xs by (auto simp: map_of_eq_None_iff)
      then have m: "map_of (xs @ (off, n) # ys) off = Some n" by (simp add: map_add_def)
      have r: "bt_remove off (xs @ (off, n) # ys) = xs @ ys"
        by (rule bt_remove_split) (use xs ky n in fastforce)+
      have i: "bt_insert po (pl + n) (xs @ ys) = xs0 @ (po, pl + n) # ys"
        unfolding snoc e append_assoc append_Cons append_Nil
        by (rule bt_insert_split(2)) (use k0 ky n True cx(3) in fastforce)+
      have b: "bt_before off (xs @ (off, n) # ys) = Some (po, pl)"
        using before [unfolded ins] by (simp add: snoc e)
      have "coalesce off (bt_insert off n fl) = coalesce_next po (xs0 @ (po, pl + n) # ys)"
        by (simp only: coalesce_def ins b option.case prod.case True if_True m r i Let_def simp_thms)
      then show ?thesis
        using coalesce_next_canon [of xs0 po "pl + n" ys] cx cy True n
        by (auto simp: split snoc e add.assoc)
    next
      case False
      with \<open>po + pl \<le> off\<close> have "canon_end 0 xs \<le> off" by (simp add: snoc e)
      moreover have "coalesce off (bt_insert off n fl) = coalesce_next off (xs @ (off, n) # ys)"
        using before False unfolding coalesce_def ins by (simp add: snoc e)
      ultimately show ?thesis
        using coalesce_next_canon [OF c(1) _ n cy] by (auto simp: split)
    qed
  qed
qed

section \<open>The allocator invariant\<close>

definition alloc_inv :: "BitmapAllocator \<Rightarrow> bool" where
  "alloc_inv a \<longleftrightarrow> 0 < ba_block_size a \<and> ba_total_blocks a \<le> 8 * length (ba_bitmap a) \<and>
     ba_total_blocks a * ba_block_size a \<le> u64_max \<and>
     ba_max_extent_blocks a = div_ceil MAX_EXTENT_BYTES (ba_block_size a) \<and> derived a"

definition ext_blocks :: "nat \<Rightarrow> Extent \<Rightarrow> nat set" where
  "ext_blocks bs e = {ext_offset e div bs..<ext_offset e div bs + ext_length e div bs}"

definition ext_ok :: "BitmapAllocator \<Rightarrow> Extent \<Rightarrow> bool" where
  "ext_ok a e \<longleftrightarrow> ba_block_size a dvd ext_offset e \<and> ba_block_size a dvd ext_length e \<and>
     0 < ext_length e \<and> ext_offset e + ext_length e \<le> ba_total_blocks a * ba_block_size a"

abbreviation allocated :: "BitmapAllocator \<Rightarrow> nat set" where
  "allocated a \<equiv> {b. b < ba_total_blocks a \<and> ba_get_bit (ba_bitmap a) b}"

lemma ba_new_inv:
  assumes "ba_new tb bs = Ok a" "tb * bs \<le> u64_max"
  shows "alloc_inv a" and "allocated a = {}"
proof -
  let ?a0 = "\<lparr>ba_total_blocks = tb, ba_block_size = bs,
    ba_bitmap = replicate (div_ceil tb 8) 0, ba_free_list = [],
    ba_max_extent_blocks = div_ceil MAX_EXTENT_BYTES bs\<rparr>"
  have a: "a = rebuild_free_list ?a0" "0 < bs" using assms(1) by (auto simp: ba_new_def split: if_splits)
  have le: "tb \<le> 8 * div_ceil tb 8" using div_ceil_ge [of 8 tb] by simp
  show "alloc_inv a"
    using a le assms(2) rebuild_derived [of ?a0] by (simp add: alloc_inv_def)
  show "allocated a = {}"
    using a le ba_get_bit_replicate_0 [of _ "div_ceil tb 8"] by (auto simp: a)
qed

lemma ba_new_fields:
  assumes "ba_new tb bs = Ok a"
  shows "ba_total_blocks a = tb" "ba_block_size a = bs" "length (ba_bitmap a) = div_ceil tb 8"
proof -
  have "a = rebuild_free_list \<lparr>ba_total_blocks = tb, ba_block_size = bs,
      ba_bitmap = replicate (div_ceil tb 8) 0, ba_free_list = [],
      ba_max_extent_blocks = div_ceil MAX_EXTENT_BYTES bs\<rparr>"
    using assms by (auto simp: ba_new_def split: if_splits)
  then show "ba_total_blocks a = tb" "ba_block_size a = bs" "length (ba_bitmap a) = div_ceil tb 8"
    by simp_all
qed

lemma alloc_inv_run_bound:
  assumes "alloc_inv a" "(off, len) \<in> set (ba_free_list a)"
  shows "0 < len" "off + len \<le> ba_total_blocks a"
proof -
  have c: "canon 0 (ba_free_list a)" "cover (ba_free_list a) \<subseteq> {b. b < ba_total_blocks a}"
    using assms(1) by (auto simp: alloc_inv_def derived_def)
  show l: "0 < len" using canon_bounds [OF c(1) assms(2)] by simp
  have "off + len - 1 \<in> cover (ba_free_list a)" using cover_mem [OF assms(2)] l by simp
  with c(2) l show "off + len \<le> ba_total_blocks a" by (auto simp: subset_eq)
qed

lemma largest_free_le: "(\<forall>e \<in> set fl. snd e \<le> m) \<Longrightarrow> largest_free fl \<le> m"
  by (induction fl) (auto simp: largest_free_def)

lemma ba_alloc_cases:
  assumes inv: "alloc_inv a" and al: "ba_alloc a sz = (a', r)"
  defines "bs \<equiv> ba_block_size a" and "n \<equiv> div_ceil sz (ba_block_size a)"
  obtains
    (zero) "sz = 0" "a' = a" "r = Err (Inconsistency ''zero-size allocation'')"
  | (large) "0 < sz" "ba_max_extent_blocks a < n" "a' = a"
      "r = Err (RequestTooLarge sz MAX_EXTENT_BYTES)"
  | (full) "0 < sz" "n \<le> ba_max_extent_blocks a" "\<forall>e \<in> set (ba_free_list a). snd e < n" "a' = a"
      "r = Err (DeviceFull sz (largest_free (ba_free_list a) * bs))"
  | (served) off len where "0 < n" "n \<le> ba_max_extent_blocks a"
      "best_fit n (ba_free_list a) = Some (off, len)" "(off, len) \<in> set (ba_free_list a)" "n \<le> len"
      "a' = a\<lparr>ba_free_list := take_run off n len (ba_free_list a),
              ba_bitmap := mark_blocks off (off + n) True (ba_bitmap a)\<rparr>"
      "r = Ok (extent_new (off * bs) (n * bs))"
proof -
  have bs: "0 < bs" using inv by (simp add: alloc_inv_def bs_def)
  have tot: "ba_total_blocks a * bs \<le> u64_max" using inv by (simp add: alloc_inv_def bs_def)
  have lt: "k * bs \<le> u64_max" if "k \<le> ba_total_blocks a" for k
    by (rule le_trans [OF mult_le_mono1 [OF that, of bs] tot])
  have al': "(a', r) = ba_alloc a sz" using al by simp
  show thesis
  proof (cases "n = 0")
    case True
    then have "sz = 0" using bs by (simp add: n_def bs_def)
    moreover have "a' = a" "r = Err (Inconsistency ''zero-size allocation'')"
      using al' True by (simp_all add: ba_alloc_def Let_def n_def)
    ultimately show ?thesis by (rule zero)
  next
    case n: False
    then have sz: "0 < sz" using bs by (cases "sz = 0") (auto simp: n_def bs_def)
    show ?thesis
    proof (cases "ba_max_extent_blocks a < n")
      case True
      have "a' = a" "r = Err (RequestTooLarge sz MAX_EXTENT_BYTES)"
        using al' True n by (simp_all add: ba_alloc_def Let_def n_def)
      with sz True show ?thesis by (rule large)
    next
      case mx: False
      show ?thesis
      proof (cases "best_fit n (ba_free_list a)")
        case None
        have "largest_free (ba_free_list a) \<le> ba_total_blocks a"
          by (rule largest_free_le) (use alloc_inv_run_bound [OF inv] in fastforce)
        from lt [OF this]
        have "a' = a" "r = Err (DeviceFull sz (largest_free (ba_free_list a) * bs))"
          using al' None n mx by (simp_all add: ba_alloc_def Let_def n_def bs_def mul_u64_def)
        with sz mx None show ?thesis by (intro full) (simp_all add: best_fit_None)
      next
        case (Some p)
        obtain off len where p: "p = (off, len)" by fastforce
        have mem: "(off, len) \<in> set (ba_free_list a)" "n \<le> len"
          using best_fit_SomeD [of n "ba_free_list a" off len] Some p by auto
        have "off \<le> ba_total_blocks a" "n \<le> ba_total_blocks a"
          using alloc_inv_run_bound [OF inv mem(1)] mem(2) by auto
        from lt [OF this(1)] lt [OF this(2)]
        have "a' = a\<lparr>ba_free_list := take_run off n len (ba_free_list a),
              ba_bitmap := mark_blocks off (off + n) True (ba_bitmap a)\<rparr>"
          "r = Ok (extent_new (off * bs) (n * bs))"
          using al' Some n mx
          by (simp_all add: ba_alloc_def Let_def n_def bs_def take_run_def mul_u64_def p)
        with n mx Some p mem show ?thesis by (intro served) simp_all
      qed
    qed
  qed
qed

lemma marked_blocks:
  assumes "off + n \<le> t" "t \<le> 8 * length bm"
  shows "{b. b < t \<and> ba_get_bit (mark_blocks off (off + n) True bm) b} =
      {b. b < t \<and> ba_get_bit bm b} \<union> {off..<off + n}"
    and "{b. b < t \<and> ba_get_bit (mark_blocks off (off + n) False bm) b} =
      {b. b < t \<and> ba_get_bit bm b} - {off..<off + n}"
    and "{b. b < t \<and> \<not> ba_get_bit (mark_blocks off (off + n) True bm) b} =
      {b. b < t \<and> \<not> ba_get_bit bm b} - {off..<off + n}"
    and "{b. b < t \<and> \<not> ba_get_bit (mark_blocks off (off + n) False bm) b} =
      {b. b < t \<and> \<not> ba_get_bit bm b} \<union> {off..<off + n}"
  using assms(1) ba_get_mark_blocks [OF le_trans [OF assms] le_add1] by auto

lemma ba_alloc_Ok:
  assumes inv: "alloc_inv a" and al: "ba_alloc a sz = (a', Ok e)"
  shows "alloc_inv a'" "ext_ok a' e" "sz \<le> ext_length e" "ext_length e < sz + ba_block_size a"
    and "ba_block_size a' = ba_block_size a" "ba_total_blocks a' = ba_total_blocks a"
    and "ext_blocks (ba_block_size a) e \<inter> allocated a = {}"
    and "allocated a' = allocated a \<union> ext_blocks (ba_block_size a) e"
proof -
  let ?bs = "ba_block_size a" and ?n = "div_ceil sz (ba_block_size a)"
  obtain off len where n: "0 < ?n" and mem: "(off, len) \<in> set (ba_free_list a)" "?n \<le> len"
    and a': "a' = a\<lparr>ba_free_list := take_run off ?n len (ba_free_list a),
              ba_bitmap := mark_blocks off (off + ?n) True (ba_bitmap a)\<rparr>"
    and e: "e = extent_new (off * ?bs) (?n * ?bs)"
    by (rule ba_alloc_cases [OF inv al]) auto
  have bs: "0 < ?bs" and dv: "canon 0 (ba_free_list a)"
    and cov: "cover (ba_free_list a) = {b. b < ba_total_blocks a \<and> \<not> ba_get_bit (ba_bitmap a) b}"
    and len8: "ba_total_blocks a \<le> 8 * length (ba_bitmap a)"
    using inv by (auto simp: alloc_inv_def derived_def)
  have bd: "off + ?n \<le> ba_total_blocks a" using alloc_inv_run_bound [OF inv mem(1)] mem(2) by simp
  have eb: "ext_blocks ?bs e = {off..<off + ?n}"
    using bs by (simp add: ext_blocks_def e extent_new_def)
  have sub: "{off..<off + ?n} \<subseteq> cover (ba_free_list a)"
    using take_run_canon(3) [OF dv mem(1) n mem(2)] .
  note marked = marked_blocks [OF bd len8]
  show "ext_blocks ?bs e \<inter> allocated a = {}" using sub cov by (auto simp: eb)
  show "allocated a' = allocated a \<union> ext_blocks ?bs e" by (simp add: eb a' marked)
  have "derived a'"
    using take_run_canon(1,2) [OF dv mem(1) n mem(2)] by (simp add: derived_def a' marked cov)
  then show "alloc_inv a'" using inv by (simp add: alloc_inv_def a')
  have "(off + ?n) * ?bs \<le> ba_total_blocks a * ?bs" using bd by (rule mult_le_mono1)
  then show "ext_ok a' e" using n bs by (simp add: ext_ok_def e extent_new_def a' algebra_simps)
  show "sz \<le> ext_length e" "ext_length e < sz + ?bs"
    using div_ceil_ge [OF bs] div_ceil_less [OF bs] by (simp_all add: e extent_new_def)
  show "ba_block_size a' = ?bs" "ba_total_blocks a' = ba_total_blocks a" by (simp_all add: a')
qed

lemma ba_alloc_Err: "alloc_inv a \<Longrightarrow> ba_alloc a sz = (a', r) \<Longrightarrow> (\<And>e. r \<noteq> Ok e) \<Longrightarrow> a' = a \<and> r \<noteq> Panic"
  by (erule (1) ba_alloc_cases) auto

lemma ba_free_Ok:
  assumes inv: "alloc_inv a" and e: "ext_ok a e" and used: "ext_blocks (ba_block_size a) e \<subseteq> allocated a"
    and fr: "ba_free a e = (a', r)"
  shows "r = Ok ()" "alloc_inv a'"
    and "allocated a' = allocated a - ext_blocks (ba_block_size a) e"
    and "ba_block_size a' = ba_block_size a" "ba_total_blocks a' = ba_total_blocks a"
proof -
  let ?bs = "ba_block_size a"
  have bs: "0 < ?bs" and dv: "canon 0 (ba_free_list a)"
    and cov: "cover (ba_free_list a) = {b. b < ba_total_blocks a \<and> \<not> ba_get_bit (ba_bitmap a) b}"
    and len8: "ba_total_blocks a \<le> 8 * length (ba_bitmap a)"
    and mx: "ba_total_blocks a * ?bs \<le> u64_max"
    using inv by (auto simp: alloc_inv_def derived_def)
  from e obtain off n where "ext_offset e = ?bs * off" "ext_length e = ?bs * n"
    unfolding ext_ok_def by (meson dvdE)
  then have off: "ext_offset e = off * ?bs" and n: "ext_length e = n * ?bs" "0 < n"
    using e by (simp_all add: ext_ok_def)
  have "(off + n) * ?bs \<le> ba_total_blocks a * ?bs"
    using e off n by (simp add: ext_ok_def algebra_simps)
  then have bd: "off + n \<le> ba_total_blocks a" using bs by simp
  moreover have "ba_total_blocks a * 1 \<le> ba_total_blocks a * ?bs" using bs by (intro mult_le_mono2) simp
  then have "ba_total_blocks a \<le> u64_max" using mx by linarith
  ultimately have "add_u64 off n = (Ok (off + n) :: (AllocError, nat) res)" "\<not> ba_total_blocks a < off + n"
    by (simp_all add: add_u64_def)
  moreover have "(a', r) = ba_free a e" using fr by simp
  ultimately have eq: "a' = a\<lparr>ba_bitmap := mark_blocks off (off + n) False (ba_bitmap a),
      ba_free_list := coalesce off (bt_insert off n (ba_free_list a))\<rparr>" "r = Ok ()"
    using bs by (simp_all add: ba_free_def Let_def off n add_u64_def)
  show "r = Ok ()" by (rule eq)
  have eb: "ext_blocks ?bs e = {off..<off + n}" using bs by (simp add: ext_blocks_def off n)
  note marked = marked_blocks [OF bd len8]
  show "allocated a' = allocated a - ext_blocks ?bs e" by (simp add: eb eq(1) marked)
  have "cover (ba_free_list a) \<inter> {off..<off + n} = {}" using used cov by (auto simp: eb)
  from release_canon [OF dv n(2) this] have "derived a'"
    by (simp add: derived_def eq(1) marked cov)
  then show "alloc_inv a'" using inv by (simp add: alloc_inv_def eq(1))
  show "ba_block_size a' = ?bs" "ba_total_blocks a' = ba_total_blocks a" by (simp_all add: eq(1))
qed

lemma rebuild_ignores_list [simp]:
  "rebuild_free_list (a\<lparr>ba_free_list := fl\<rparr>) = rebuild_free_list a"
  by (simp add: rebuild_free_list_def split: prod.split option.split)

lemma from_bitmap_inv:
  assumes "alloc_inv a"
  shows "from_bitmap (ba_bitmap a) (ba_total_blocks a) (ba_block_size a) = Ok a"
proof -
  let ?b = "\<lparr>ba_total_blocks = ba_total_blocks a, ba_block_size = ba_block_size a,
    ba_bitmap = ba_bitmap a, ba_free_list = [],
    ba_max_extent_blocks = div_ceil MAX_EXTENT_BYTES (ba_block_size a)\<rparr>"
  have "?b = a\<lparr>ba_free_list := []\<rparr>" using assms by (simp add: alloc_inv_def)
  then have "rebuild_free_list ?b = rebuild_free_list a" by (simp only: rebuild_ignores_list)
  also have "\<dots> = a" using assms by (simp add: rebuild_eq_iff_derived alloc_inv_def)
  finally show ?thesis using assms by (simp add: from_bitmap_def alloc_inv_def)
qed

lemma finite_cover [simp]: "finite (cover fl)"
  by (induction fl rule: cover.induct) auto

lemma card_cover: "canon lo fl \<Longrightarrow> card (cover fl) = sum_list (map snd fl)"
proof (induction lo fl rule: canon.induct)
  case (2 lo o' l fl)
  then have "{o'..<o' + l} \<inter> cover fl = {}"
    using canon_cover_bounds [of "Suc (o' + l)" fl] by fastforce
  with 2 show ?case by (simp add: card_Un_disjoint)
qed simp

lemma run_in_cover:
  "canon lo fl \<Longrightarrow> 0 < n \<Longrightarrow> {off..<off + n} \<subseteq> cover fl \<Longrightarrow> \<exists>e \<in> set fl. n \<le> snd e"
proof (induction lo fl rule: canon.induct)
  case (2 lo o' l fl)
  have above: "o' + l < b" if "b \<in> cover fl" for b
    using canon_cover_bounds [of "Suc (o' + l)" fl b] "2.prems"(1) that by simp
  show ?case
  proof (cases "off < o' + l")
    case True
    have "o' + l \<notin> cover ((o', l) # fl)" using above [of "o' + l"] by auto
    then have "o' + l \<notin> {off..<off + n}" using "2.prems"(3) by (meson subsetD)
    moreover have "o' \<le> off"
      using "2.prems"(2,3) True above [of off] by fastforce
    ultimately have "n \<le> l" using True by auto
    then show ?thesis by auto
  next
    case False
    then have "{off..<off + n} \<subseteq> cover fl" using "2.prems"(3) by fastforce
    with "2.IH" "2.prems" show ?thesis by auto
  qed
qed auto

lemma free_run_iff:
  assumes "alloc_inv a" "0 < n"
  shows "(\<exists>off. off + n \<le> ba_total_blocks a \<and> {off..<off + n} \<inter> allocated a = {}) \<longleftrightarrow>
    (\<exists>e \<in> set (ba_free_list a). n \<le> snd e)"
proof -
  have c: "canon 0 (ba_free_list a)"
    and cov: "cover (ba_free_list a) = {b. b < ba_total_blocks a \<and> \<not> ba_get_bit (ba_bitmap a) b}"
    using assms(1) by (auto simp: alloc_inv_def derived_def)
  show ?thesis
  proof
    assume "\<exists>off. off + n \<le> ba_total_blocks a \<and> {off..<off + n} \<inter> allocated a = {}"
    then obtain off where "off + n \<le> ba_total_blocks a" "{off..<off + n} \<inter> allocated a = {}" by blast
    then have "{off..<off + n} \<subseteq> cover (ba_free_list a)" unfolding cov by fastforce
    from run_in_cover [OF c assms(2) this] show "\<exists>e \<in> set (ba_free_list a). n \<le> snd e" .
  next
    assume "\<exists>e \<in> set (ba_free_list a). n \<le> snd e"
    then obtain off len where e: "(off, len) \<in> set (ba_free_list a)" "n \<le> len" by auto
    have "{off..<off + n} \<subseteq> cover (ba_free_list a)" using cover_mem [OF e(1)] e(2) by auto
    moreover have "off + n \<le> ba_total_blocks a" using alloc_inv_run_bound [OF assms(1) e(1)] e(2) by simp
    ultimately show "\<exists>off. off + n \<le> ba_total_blocks a \<and> {off..<off + n} \<inter> allocated a = {}"
      unfolding cov by (intro exI [of _ off]) auto
  qed
qed

section \<open>The allocator and its clients\<close>

text \<open>A run of the allocator together with the extents its clients hold: requests that succeed or
  fail, releases of held extents, and a restart that reloads the bitmap (\<open>from_bitmap\<close>).\<close>

type_synonym alloc_sys = "BitmapAllocator \<times> Extent list"

definition ba_init :: "alloc_sys \<Rightarrow> bool" where
  "ba_init s \<longleftrightarrow> (\<exists>tb bs. ba_new tb bs = (Ok (fst s) :: (AllocError, BitmapAllocator) res) \<and>
     tb * bs \<le> u64_max \<and> snd s = [])"

inductive ba_step :: "alloc_sys \<Rightarrow> alloc_sys \<Rightarrow> bool" where
  step_alloc: "ba_alloc a sz = (a', Ok e) \<Longrightarrow> ba_step (a, L) (a', e # L)"
| step_refuse: "ba_alloc a sz = (a', r) \<Longrightarrow> \<not> is_ok r \<Longrightarrow> ba_step (a, L) (a', L)"
| step_free: "e \<in> set L \<Longrightarrow> ba_free a e = (a', r) \<Longrightarrow> ba_step (a, L) (a', remove1 e L)"
| step_restart: "from_bitmap (ba_bitmap a) (ba_total_blocks a) (ba_block_size a) =
      (Ok a' :: (AllocError, BitmapAllocator) res) \<Longrightarrow> ba_step (a, L) (a', L)"

inductive_cases ba_stepE: "ba_step s t"

definition blocks_disjoint :: "nat \<Rightarrow> Extent list \<Rightarrow> bool" where
  "blocks_disjoint bs = sorted_wrt (\<lambda>e f. ext_blocks bs e \<inter> ext_blocks bs f = {})"

definition blocks_of :: "nat \<Rightarrow> Extent list \<Rightarrow> nat set" where
  "blocks_of bs L = (\<Union>e \<in> set L. ext_blocks bs e)"

definition sys_inv :: "alloc_sys \<Rightarrow> bool" where
  "sys_inv s \<longleftrightarrow> (case s of (a, L) \<Rightarrow>
     alloc_inv a \<and> (\<forall>e \<in> set L. ext_ok a e) \<and> blocks_disjoint (ba_block_size a) L \<and>
     allocated a = blocks_of (ba_block_size a) L)"

lemma blocks_disjoint_split:
  "blocks_disjoint bs (xs @ e # ys) \<longleftrightarrow> blocks_disjoint bs (xs @ ys) \<and>
     ext_blocks bs e \<inter> blocks_of bs (xs @ ys) = {}"
  by (simp add: blocks_disjoint_def blocks_of_def sorted_wrt_append) blast

lemma blocks_disjoint_remove1:
  assumes "blocks_disjoint bs L" "e \<in> set L"
  shows "blocks_disjoint bs (remove1 e L)"
    and "blocks_of bs (remove1 e L) = blocks_of bs L - ext_blocks bs e"
proof -
  from split_list_first [OF assms(2)] obtain xs ys where L: "L = xs @ e # ys" "e \<notin> set xs" by blast
  then have r: "remove1 e L = xs @ ys" by (simp add: remove1_append)
  have d: "blocks_disjoint bs (xs @ ys)" "ext_blocks bs e \<inter> blocks_of bs (xs @ ys) = {}"
    using assms(1) unfolding L(1) blocks_disjoint_split by simp_all
  show "blocks_disjoint bs (remove1 e L)" unfolding r by (rule d)
  have "blocks_of bs L = ext_blocks bs e \<union> blocks_of bs (xs @ ys)" by (auto simp: L(1) blocks_of_def)
  with d(2) show "blocks_of bs (remove1 e L) = blocks_of bs L - ext_blocks bs e" unfolding r by blast
qed

lemma sys_step_inv:
  assumes "sys_inv s" "ba_step s t"
  shows "sys_inv t"
  using assms(2)
proof cases
  case (step_alloc a sz a' e L)
  then have i: "alloc_inv a" "\<forall>e \<in> set L. ext_ok a e" "blocks_disjoint (ba_block_size a) L"
    "allocated a = blocks_of (ba_block_size a) L" using assms(1) by (auto simp: sys_inv_def)
  note al = ba_alloc_Ok [OF i(1) step_alloc(3)]
  have "ext_ok a' f" if "f \<in> set L" for f using i(2) that al(5,6) by (simp add: ext_ok_def)
  moreover have "ext_blocks (ba_block_size a) e \<inter> ext_blocks (ba_block_size a) f = {}" if "f \<in> set L" for f
    using al(7) i(4) that by (auto simp: blocks_of_def)
  moreover have "allocated a' = ext_blocks (ba_block_size a) e \<union> blocks_of (ba_block_size a) L"
    using al(8) i(4) by (simp add: Un_commute)
  ultimately show ?thesis
    using step_alloc(2) al(1,2,5) i(3) by (simp add: sys_inv_def blocks_disjoint_def blocks_of_def)
next
  case (step_refuse a sz a' r L)
  then have "a' = a"
    using ba_alloc_Err [of a sz a' r] assms(1) by (auto simp: sys_inv_def is_ok_iff)
  with step_refuse assms(1) show ?thesis by simp
next
  case (step_free e L a a' r)
  then have i: "alloc_inv a" "\<forall>e \<in> set L. ext_ok a e" "blocks_disjoint (ba_block_size a) L"
    "allocated a = blocks_of (ba_block_size a) L" using assms(1) by (auto simp: sys_inv_def)
  have "ext_blocks (ba_block_size a) e \<subseteq> allocated a"
    unfolding i(4) using step_free(3) by (auto simp: blocks_of_def)
  note fr = ba_free_Ok [OF i(1) bspec [OF i(2) step_free(3)] this step_free(4)]
  have "\<forall>f \<in> set (remove1 e L). ext_ok a' f"
    using i(2) fr(4,5) by (auto simp: ext_ok_def dest: notin_set_remove1)
  with fr i(4) blocks_disjoint_remove1 [OF i(3) step_free(3)] step_free(2) show ?thesis
    by (simp add: sys_inv_def)
next
  case (step_restart a a' L)
  have "(Ok a' :: (AllocError, BitmapAllocator) res) = Ok a"
    unfolding step_restart(3) [symmetric]
    by (rule from_bitmap_inv) (use step_restart(1) assms(1) in \<open>simp add: sys_inv_def\<close>)
  then have "a' = a" by simp
  with step_restart assms(1) show ?thesis by simp
qed

interpretation alloc_sys: invariant_system ba_init ba_step sys_inv
proof
  fix s assume "ba_init s"
  then obtain a tb bs where s: "s = (a, [])" and n: "ba_new tb bs = (Ok a :: (AllocError, BitmapAllocator) res)"
    "tb * bs \<le> u64_max" by (cases s) (auto simp: ba_init_def)
  from ba_new_inv [OF n] show "sys_inv s"
    by (simp add: s sys_inv_def blocks_disjoint_def blocks_of_def)
qed (rule sys_step_inv)

lemmas reach_alloc = alloc_sys.reach_inv [unfolded sys_inv_def split_conv]

section \<open>Properties\<close>

lemma ext_bytes_disjoint:
  assumes bs: "0 < bs" and e: "bs dvd ext_offset e" "bs dvd ext_length e"
    and f: "bs dvd ext_offset f" "bs dvd ext_length f"
    and d: "ext_blocks bs e \<inter> ext_blocks bs f = {}"
  shows "{ext_offset e..<ext_offset e + ext_length e} \<inter> {ext_offset f..<ext_offset f + ext_length f} = {}"
proof -
  have blk: "x div bs \<in> ext_blocks bs g"
    if g: "bs dvd ext_offset g" "bs dvd ext_length g" and x: "ext_offset g \<le> x" "x < ext_offset g + ext_length g" for g x
  proof -
    have "x div bs < (ext_offset g + ext_length g) div bs"
      using bs x(2) g by (metis dvd_add dvd_div_mult_self div_mult_self1_is_m less_mult_imp_div_less)
    then show ?thesis using g x(1) by (simp add: ext_blocks_def div_le_mono)
  qed
  show ?thesis using blk [OF e] blk [OF f] d by fastforce
qed

lemma sum_ext_lengths:
  assumes "0 < bs" "\<forall>e \<in> set L. bs dvd ext_length e" "blocks_disjoint bs L"
  shows "sum_list (map ext_length L) = card (blocks_of bs L) * bs"
  using assms(2,3)
proof (induction L)
  case (Cons e L)
  have "ext_blocks bs e \<inter> blocks_of bs L = {}" "blocks_disjoint bs L"
    using Cons.prems(2) blocks_disjoint_split [of bs "[]" e L] by auto
  moreover have "finite (blocks_of bs L)" "finite (ext_blocks bs e)"
    by (auto simp: blocks_of_def ext_blocks_def)
  moreover have "card (ext_blocks bs e) * bs = ext_length e"
    using Cons.prems(1) by (simp add: ext_blocks_def)
  moreover have "blocks_of bs (e # L) = ext_blocks bs e \<union> blocks_of bs L" by (simp add: blocks_of_def)
  ultimately show ?case using Cons by (simp add: card_Un_disjoint add_mult_distrib)
qed (simp add: blocks_of_def)

lemma ba_get_bit_ext:
  assumes "length bm = length bm'" "\<And>b. ba_get_bit bm b = ba_get_bit bm' b"
  shows "bm = bm'"
proof (rule nth_equalityI [OF assms(1)])
  fix i assume i: "i < length bm"
  show "bm ! i = bm' ! i"
  proof (rule bit_eqI)
    fix n assume "possible_bit TYPE(8 word) n"
    then have "n < 8" by simp
    then show "bit (bm ! i) n = bit (bm' ! i) n"
      using assms(2) [of "8 * i + n"] i assms(1) by (simp add: ba_get_bit_iff)
  qed
qed

definition ext_bytes :: "Extent \<Rightarrow> nat set" where
  "ext_bytes e = {ext_offset e..<ext_offset e + ext_length e}"

lemma held_disjoint:
  assumes "sys_inv (a, L)" "e \<in> set L" "f \<in> set L" "e \<noteq> f"
  shows "ext_bytes e \<inter> ext_bytes f = {}"
proof -
  have i: "0 < ba_block_size a" "\<forall>e \<in> set L. ext_ok a e" "blocks_disjoint (ba_block_size a) L"
    using assms(1) by (auto simp: sys_inv_def alloc_inv_def)
  obtain xs ys where L: "L = xs @ e # ys" using split_list [OF assms(2)] by blast
  have "ext_blocks (ba_block_size a) e \<inter> blocks_of (ba_block_size a) (xs @ ys) = {}"
    using i(3) unfolding L blocks_disjoint_split by simp
  moreover have "f \<in> set (xs @ ys)" using assms(3,4) L by auto
  ultimately have "ext_blocks (ba_block_size a) e \<inter> ext_blocks (ba_block_size a) f = {}"
    by (auto simp: blocks_of_def)
  with i(2) assms(2,3) show ?thesis
    unfolding ext_bytes_def by (intro ext_bytes_disjoint [OF i(1)]) (auto simp: ext_ok_def)
qed

lemma held_distinct:
  assumes "sys_inv (a, L)"
  shows "distinct L"
proof -
  have i: "0 < ba_block_size a" "\<forall>e \<in> set L. ext_ok a e" "blocks_disjoint (ba_block_size a) L"
    using assms by (auto simp: sys_inv_def alloc_inv_def)
  have "ext_blocks (ba_block_size a) e \<noteq> {}" if "e \<in> set L" for e
    using i(1,2) that by (auto simp: ext_blocks_def ext_ok_def div_greater_zero_iff dest: dvd_imp_le)
  with i(3) show ?thesis
    by (auto simp: distinct_conv_nth blocks_disjoint_def sorted_wrt_iff_nth_less nat_neq_iff) (metis Int_absorb nth_mem)+
qed

lemma ba_alloc_bitmap_length: "ba_alloc a sz = (a', r) \<Longrightarrow> length (ba_bitmap a') = length (ba_bitmap a)"
  by (auto simp: ba_alloc_def Let_def split: if_splits option.splits)

lemma ba_free_bitmap_length: "ba_free a e = (a', r) \<Longrightarrow> length (ba_bitmap a') = length (ba_bitmap a)"
  by (auto simp: ba_free_def Let_def split: if_splits res.splits)

lemma counters_ok:
  assumes "alloc_inv a"
  defines "f \<equiv> sum_list (map snd (ba_free_list a))" and "u \<equiv> card (allocated a)"
  shows "used_bytes a = Ok (u * ba_block_size a)" "free_blocks a = Ok f"
    and "total_bytes a = Ok (ba_total_blocks a * ba_block_size a)"
    and "f * ba_block_size a + u * ba_block_size a = ba_total_blocks a * ba_block_size a"
proof -
  have bs: "0 < ba_block_size a" and mx: "ba_total_blocks a * ba_block_size a \<le> u64_max"
    and cov: "canon 0 (ba_free_list a)"
      "cover (ba_free_list a) = {b. b < ba_total_blocks a \<and> \<not> ba_get_bit (ba_bitmap a) b}"
    using assms(1) by (auto simp: alloc_inv_def derived_def)
  have "{..<ba_total_blocks a} = cover (ba_free_list a) \<union> allocated a" by (auto simp: cov(2))
  moreover have "cover (ba_free_list a) \<inter> allocated a = {}" by (auto simp: cov(2))
  ultimately have "card {..<ba_total_blocks a} = card (cover (ba_free_list a)) + u"
    by (simp add: card_Un_disjoint u_def)
  then have tb: "ba_total_blocks a = f + u" by (simp add: card_cover [OF cov(1)] f_def)
  have "ba_total_blocks a * 1 \<le> ba_total_blocks a * ba_block_size a" using bs by (intro mult_le_mono2) simp
  with tb mx have fu: "f \<le> u64_max" by linarith
  have "u * ba_block_size a \<le> ba_total_blocks a * ba_block_size a" using tb by (intro mult_le_mono1) simp
  with mx have uu: "u * ba_block_size a \<le> u64_max" by linarith
  have diff: "ba_total_blocks a - f = u" "f \<le> ba_total_blocks a" using tb by linarith+
  with fu uu show "used_bytes a = Ok (u * ba_block_size a)" "free_blocks a = Ok f"
    by (simp_all add: used_bytes_def free_blocks_def f_def)
  show "total_bytes a = Ok (ba_total_blocks a * ba_block_size a)" using mx by (simp add: total_bytes_def)
  show "f * ba_block_size a + u * ba_block_size a = ba_total_blocks a * ba_block_size a"
    unfolding add_mult_distrib [symmetric] using tb by simp
qed

lemma alloc_free_bitmap:
  assumes inv: "alloc_inv a" and al: "ba_alloc a sz = (a', Ok e)" and fr: "ba_free a' e = (a2, r)"
  shows "ba_bitmap a2 = ba_bitmap a"
proof -
  let ?bs = "ba_block_size a" and ?n = "div_ceil sz (ba_block_size a)"
  obtain off len where mem: "(off, len) \<in> set (ba_free_list a)" "?n \<le> len"
    and a': "a' = a\<lparr>ba_free_list := take_run off ?n len (ba_free_list a),
              ba_bitmap := mark_blocks off (off + ?n) True (ba_bitmap a)\<rparr>"
    and e: "e = extent_new (off * ?bs) (?n * ?bs)"
    by (rule ba_alloc_cases [OF inv al]) auto
  have bs: "0 < ?bs" and len8: "ba_total_blocks a \<le> 8 * length (ba_bitmap a)"
    using inv by (auto simp: alloc_inv_def)
  have bd: "off + ?n \<le> ba_total_blocks a" using alloc_inv_run_bound [OF inv mem(1)] mem(2) by simp
  note ok = ba_alloc_Ok [OF inv al]
  have "ext_blocks (ba_block_size a') e \<subseteq> allocated a'" using ok(5,8) by auto
  from ba_free_Ok(1) [OF ok(1,2) this fr] fr bs
  have b2: "ba_bitmap a2 = mark_blocks off (off + ?n) False (ba_bitmap a')"
    by (auto simp: ba_free_def Let_def e extent_new_def a' add_u64_def split: if_splits)
  have free: "\<not> ba_get_bit (ba_bitmap a) b" if "off \<le> b" "b < off + ?n" for b
    using ok(7) that bd bs by (fastforce simp: ext_blocks_def e extent_new_def)
  show ?thesis
  proof (rule ba_get_bit_ext)
    show "length (ba_bitmap a2) = length (ba_bitmap a)" by (simp add: b2 a')
    show "ba_get_bit (ba_bitmap a2) b = ba_get_bit (ba_bitmap a) b" for b
      using ba_get_mark_blocks [of "off + ?n" _ off] le_trans [OF bd len8] free [of b]
      by (simp add: b2 a')
  qed
qed

text \<open>A concrete run used by the witnesses: a 16-block device after one request of 5000 bytes.\<close>

definition demo_alloc :: BitmapAllocator where
  "demo_alloc = \<lparr>ba_total_blocks = 16, ba_block_size = 4096, ba_bitmap = [3, 0],
     ba_free_list = [(2, 14)], ba_max_extent_blocks = 4097\<rparr>"

definition demo_fresh :: BitmapAllocator where
  "demo_fresh = \<lparr>ba_total_blocks = 16, ba_block_size = 4096, ba_bitmap = [0, 0],
     ba_free_list = [(0, 16)], ba_max_extent_blocks = 4097\<rparr>"

lemma demo_new: "ba_new 16 4096 = Ok demo_fresh"
  by (simp add: ba_new_def rebuild_free_list_def demo_fresh_def div_ceil_def MAX_EXTENT_BYTES_def
      ba_get_bit_iff numeral_2_eq_2 upt_rec)

lemma demo_step: "ba_alloc demo_fresh 5000 = (demo_alloc, Ok (extent_new 0 8192))"
  by (simp add: ba_alloc_def demo_fresh_def demo_alloc_def div_ceil_def best_fit_def mark_blocks_def
      ba_set_bit_def bt_remove_def mul_u64_def u64_max_def upt_rec)

lemma demo_reach: "reach ba_init ba_step (demo_alloc, [extent_new 0 8192])"
proof (rule reach_step)
  have "ba_init (demo_fresh, [])"
    unfolding ba_init_def using demo_new by (intro exI [of _ 16] exI [of _ 4096]) (simp add: u64_max_def)
  then show "reach ba_init ba_step (demo_fresh, [])" by (rule reach_init)
qed (rule step_alloc [OF demo_step])

text \<open>C3: Held extents never overlap. In every reachable state of the allocator (requests, refused
  requests, releases of held extents and restarts from the bitmap), any two held extents occupy
  disjoint byte ranges, each is non-empty, block-aligned and inside the device, and the bitmap
  marks exactly the blocks of the held extents.\<close>

theorem alloc_safety:
  assumes "reach ba_init ba_step (a, L)"
  shows "(\<forall>i j. i < j \<and> j < length L \<longrightarrow> ext_bytes (L ! i) \<inter> ext_bytes (L ! j) = {}) \<and>
    (\<forall>e \<in> set L. 0 < ext_length e \<and> ba_block_size a dvd ext_offset e \<and>
       ba_block_size a dvd ext_length e \<and>
       ext_offset e + ext_length e \<le> ba_total_blocks a * ba_block_size a) \<and>
    {b. b < ba_total_blocks a \<and> ba_get_bit (ba_bitmap a) b} =
      (\<Union>e \<in> set L. {ext_offset e div ba_block_size a..<
                      (ext_offset e + ext_length e) div ba_block_size a})"
proof -
  note i = reach_alloc [OF assms]
  have bs: "0 < ba_block_size a" using i by (simp add: alloc_inv_def)
  have ok: "ext_ok a e" if "e \<in> set L" for e using i that by blast
  have "ext_bytes (L ! i) \<inter> ext_bytes (L ! j) = {}" if "i < j" "j < length L" for i j
    unfolding ext_bytes_def
    by (rule ext_bytes_disjoint [OF bs])
      (use ok [of "L ! i"] ok [of "L ! j"] that i in
        \<open>auto simp: ext_ok_def blocks_disjoint_def sorted_wrt_iff_nth_less\<close>)
  moreover have "ext_blocks (ba_block_size a) e =
      {ext_offset e div ba_block_size a..<(ext_offset e + ext_length e) div ba_block_size a}"
    if "e \<in> set L" for e
    using ok [OF that] by (simp add: ext_blocks_def ext_ok_def)
  ultimately show ?thesis using i ok by (auto simp: ext_ok_def blocks_of_def)
qed

theorem alloc_safety_witness:
  "ext_offset (extent_new 0 8192) + ext_length (extent_new 0 8192) \<le>
     ba_total_blocks demo_alloc * ba_block_size demo_alloc"
  using alloc_safety [OF demo_reach] by simp

text \<open>Restart recovers the allocator (I-C8). In every reachable state, rebuilding an allocator
  from the persisted bitmap alone gives back the very same allocator, free list included; the free
  list is redundant.\<close>

lemma alloc_restart:
  assumes "reach ba_init ba_step (a, L)"
  shows "from_bitmap (ba_bitmap a) (ba_total_blocks a) (ba_block_size a) = Ok a"
  using from_bitmap_inv reach_alloc [OF assms] by blast

lemma alloc_restart_example: "from_bitmap [3, 0] 16 4096 = Ok demo_alloc"
  using alloc_restart [OF demo_reach] by (simp add: demo_alloc_def)

text \<open>The outcome of a request is exact. On a reachable allocator no request panics; a zero
  request and a request above the extent limit are refused with their own errors; otherwise the
  request is served if and only if enough consecutive free blocks exist, with a block-rounded
  extent made of blocks that were free, and \<open>DeviceFull\<close> is returned, with the state unchanged,
  when they do not.\<close>

lemma alloc_outcome:
  assumes "reach ba_init ba_step (a, L)" and "ba_alloc a sz = (a', r)"
  defines "n \<equiv> div_ceil sz (ba_block_size a)"
    and "used \<equiv> {b. b < ba_total_blocks a \<and> ba_get_bit (ba_bitmap a) b}"
  shows "if sz = 0 then a' = a \<and> r = Err (Inconsistency ''zero-size allocation'')
    else if ba_max_extent_blocks a < n then a' = a \<and> r = Err (RequestTooLarge sz MAX_EXTENT_BYTES)
    else if \<exists>off. off + n \<le> ba_total_blocks a \<and> {off..<off + n} \<inter> used = {}
    then \<exists>off. r = Ok (extent_new (off * ba_block_size a) (n * ba_block_size a)) \<and>
           off + n \<le> ba_total_blocks a \<and> {off..<off + n} \<inter> used = {} \<and>
           {b. b < ba_total_blocks a' \<and> ba_get_bit (ba_bitmap a') b} = used \<union> {off..<off + n}
    else \<exists>avail. a' = a \<and> r = Err (DeviceFull sz avail)"
proof -
  have inv: "alloc_inv a" using reach_alloc [OF assms(1)] by simp
  have bs: "0 < ba_block_size a" using inv by (simp add: alloc_inv_def)
  have n0: "0 < n \<longleftrightarrow> 0 < sz" using div_ceil_eq_0 [OF bs, of sz] by (auto simp: n_def simp del: div_ceil_eq_0)
  note iff = free_run_iff [OF inv, of n, folded used_def]
  show ?thesis
  proof (rule ba_alloc_cases [OF inv assms(2)], goal_cases)
    case 3
    then have "\<not> (\<exists>e \<in> set (ba_free_list a). n \<le> snd e)" by (auto simp: n_def)
    with 3 n0 iff show ?case by (auto simp: n_def)
  next
    case (4 off len)
    note ok = ba_alloc_Ok [OF inv assms(2) [unfolded 4(7)]]
    let ?e = "extent_new (off * ba_block_size a) (n * ba_block_size a)"
    have eb: "ext_blocks (ba_block_size a) ?e = {off..<off + n}"
      using bs by (simp add: ext_blocks_def extent_new_def)
    have "off + n \<le> ba_total_blocks a" using alloc_inv_run_bound [OF inv 4(4)] 4(5) by (simp add: n_def)
    moreover have "{off..<off + n} \<inter> used = {}" using ok(7) eb unfolding n_def used_def by simp
    moreover have "{b. b < ba_total_blocks a' \<and> ba_get_bit (ba_bitmap a') b} = used \<union> {off..<off + n}"
      using ok(8) eb unfolding n_def used_def by simp
    ultimately show ?case using 4 n0 by (auto simp: n_def)
  qed (use n0 in \<open>auto simp: n_def\<close>)
qed

lemma alloc_outcome_example:
  "\<exists>avail. ba_alloc demo_alloc 60000 = (demo_alloc, Err (DeviceFull 60000 avail))"
proof -
  let ?n = "div_ceil 60000 (ba_block_size demo_alloc)"
  obtain a' r where al: "ba_alloc demo_alloc 60000 = (a', r)" by fastforce
  have n: "?n = 15" "ba_total_blocks demo_alloc = 16" by (simp_all add: demo_alloc_def div_ceil_def)
  have used: "1 \<in> allocated demo_alloc" by (simp add: demo_alloc_def ba_get_bit_def)
  have "1 \<in> {off..<off + ?n}" if "off + ?n \<le> ba_total_blocks demo_alloc" for off
    using that unfolding n by auto
  with used have full: "\<not> (\<exists>off. off + ?n \<le> ba_total_blocks demo_alloc \<and>
      {off..<off + ?n} \<inter> allocated demo_alloc = {})" by blast
  have small: "\<not> ba_max_extent_blocks demo_alloc < ?n" by (simp add: demo_alloc_def div_ceil_def)
  have "(60000::nat) \<noteq> 0" by simp
  with alloc_outcome [OF demo_reach al] show ?thesis
    unfolding if_not_P [OF full] if_not_P [OF small] by (auto simp: al)
qed

text \<open>Releasing what was just allocated restores the allocator. On a reachable allocator, a
  served request followed by the release of the extent it returned succeeds and leaves exactly
  the original state: bitmap, free list (runs merged back) and configuration.\<close>

lemma alloc_free_restores:
  assumes "reach ba_init ba_step (a, L)" and "ba_alloc a sz = (a', Ok e)"
  shows "ba_free a' e = (a, Ok ())"
proof -
  have inv: "alloc_inv a" using reach_alloc [OF assms(1)] by simp
  note ok = ba_alloc_Ok [OF inv assms(2)]
  obtain a2 r where fr: "ba_free a' e = (a2, r)" by fastforce
  have "ext_blocks (ba_block_size a') e \<subseteq> allocated a'" using ok(5,8) by auto
  note rel = ba_free_Ok [OF ok(1) ok(2) this fr]
  have bm: "ba_bitmap a2 = ba_bitmap a"
    by (rule alloc_free_bitmap [OF inv assms(2) fr])
  have "ba_total_blocks a2 = ba_total_blocks a" "ba_block_size a2 = ba_block_size a"
    using rel(4,5) ok(5,6) by simp_all
  with bm from_bitmap_inv [OF inv, where ?'a = unit] from_bitmap_inv [OF rel(2), where ?'a = unit]
  have "a2 = a" by simp
  with fr rel(1) show ?thesis by simp
qed

lemma alloc_free_restores_example:
  "ba_alloc demo_alloc 5000 = (fst (ba_alloc demo_alloc 5000), Ok (extent_new 8192 8192)) \<and>
   ba_free (fst (ba_alloc demo_alloc 5000)) (extent_new 8192 8192) = (demo_alloc, Ok ())"
proof -
  have "ba_alloc demo_alloc 5000 = (fst (ba_alloc demo_alloc 5000), Ok (extent_new 8192 8192))"
    by (simp add: ba_alloc_def demo_alloc_def div_ceil_def best_fit_def bt_remove_def mul_u64_def
        u64_max_def)
  with alloc_free_restores [OF demo_reach this] show ?thesis by simp
qed

text \<open>Accounting. In every reachable state the byte counters are computed without overflow or
  underflow, the used bytes are the sum of the lengths of the held extents, and used and free
  blocks add up to the device.\<close>

lemma alloc_accounting:
  assumes "reach ba_init ba_step (a, L)"
  shows "used_bytes a = Ok (sum_list (map ext_length L)) \<and>
    total_bytes a = Ok (ba_total_blocks a * ba_block_size a) \<and>
    (\<exists>free. free_blocks a = Ok free \<and>
       free * ba_block_size a + sum_list (map ext_length L) = ba_total_blocks a * ba_block_size a)"
proof -
  note i = reach_alloc [OF assms]
  have "sum_list (map ext_length L) = card (allocated a) * ba_block_size a"
    using sum_ext_lengths [of "ba_block_size a" L] i by (simp add: ext_ok_def alloc_inv_def)
  with counters_ok [of a] i show ?thesis by auto
qed

lemma alloc_accounting_example: "used_bytes demo_alloc = Ok (sum_list (map ext_length [extent_new 0 8192]))"
  using alloc_accounting [OF demo_reach] by blast

end
