(* ===== verification/Block_Device.thy ===== *)
theory Block_Device
  imports Block_Allocator
begin

text \<open>
  The superblock (\<^verbatim>\<open>superblock.rs\<close>) and the file-backed device (\<^verbatim>\<open>file.rs\<close>) of
  \<^verbatim>\<open>crates/kiseki-block/src\<close>. A file is its byte contents together with a fault schedule: after a
  number of successful system calls every further call fails, and the first failing write may
  have stored a prefix of its data. The checksum function of the \<^verbatim>\<open>crc32c\<close> crate and the UUID drawn
  by \<open>Superblock::new\<close> are arguments. Numbers inside error messages are dropped, the message
  text that identifies the branch is kept.
  The main results: the superblock survives a write and a parse, the on-disk regions do not
  overlap, and in every reachable state of the device each held extent reads back the last data
  written to it, whatever writes (completed or torn) went to other extents, and across
  a sync and reopen.
\<close>

section \<open>Errors\<close>

datatype IoError = InvalidInput string | UnexpectedEof | OtherIo

datatype BlockError =
    Io IoError
  | Corruption nat u32 u32
  | InvalidSuperblock string
  | NotInitialized
  | AlreadyInitialized
  | ExistingFilesystem string

section \<open>Superblock\<close>

definition MAGIC :: bytes where
  "MAGIC = [75, 73, 83, 69, 75, 73, 1, 0]"

definition FORMAT_VERSION :: nat where
  "FORMAT_VERSION = 1"

definition SUPERBLOCK_SIZE :: nat where
  "SUPERBLOCK_SIZE = 4096"

record Superblock =
  sb_magic :: bytes
  sb_version :: nat
  sb_device_id :: bytes
  sb_block_size :: nat
  sb_total_blocks :: nat
  sb_bitmap_offset :: nat
  sb_bitmap_mirror_offset :: nat
  sb_bitmap_blocks :: nat
  sb_data_offset :: nat
  sb_generation :: nat

definition sb_new :: "bytes \<Rightarrow> nat \<Rightarrow> nat \<Rightarrow> ('e, Superblock) res" where
  "sb_new uuid device_bytes block_size =
     (if block_size = 0 then Panic
      else
        let bs = block_size;
            usable = device_bytes - SUPERBLOCK_SIZE;
            approx_data_blocks = usable div bs;
            bitmap_bytes = div_ceil approx_data_blocks 8;
            bitmap_blocks = div_ceil bitmap_bytes bs;
            bitmap_offset = SUPERBLOCK_SIZE in
        bind_res (mul_u64 bitmap_blocks bs) (\<lambda>sz.
        bind_res (add_u64 bitmap_offset sz) (\<lambda>bitmap_mirror_offset.
        bind_res (add_u64 bitmap_mirror_offset sz) (\<lambda>data_offset.
          let total_blocks = (device_bytes - data_offset) div bs in
          Ok \<lparr>sb_magic = MAGIC, sb_version = FORMAT_VERSION, sb_device_id = uuid,
              sb_block_size = block_size, sb_total_blocks = total_blocks,
              sb_bitmap_offset = bitmap_offset, sb_bitmap_mirror_offset = bitmap_mirror_offset,
              sb_bitmap_blocks = bitmap_blocks, sb_data_offset = data_offset,
              sb_generation = 0\<rparr>))))"

definition sb_to_bytes :: "Superblock \<Rightarrow> bytes" where
  "sb_to_bytes sb =
     sb_magic sb @ le_bytes 4 (sb_version sb) @ sb_device_id sb @ le_bytes 4 (sb_block_size sb) @
     le_bytes 8 (sb_total_blocks sb) @ le_bytes 8 (sb_bitmap_offset sb) @
     le_bytes 8 (sb_bitmap_mirror_offset sb) @ le_bytes 8 (sb_bitmap_blocks sb) @
     le_bytes 8 (sb_data_offset sb) @ le_bytes 8 (sb_generation sb) @
     replicate (SUPERBLOCK_SIZE - 80) 0"

definition subslice :: "nat \<Rightarrow> nat \<Rightarrow> 'a list \<Rightarrow> 'a list" where
  "subslice lo hi xs = take (hi - lo) (drop lo xs)"

definition is_power_of_two :: "nat \<Rightarrow> bool" where
  "is_power_of_two n \<longleftrightarrow> (\<exists>k \<in> set [0..<32]. n = 2 ^ k)"

definition sb_from_bytes :: "bytes \<Rightarrow> (BlockError, Superblock) res" where
  "sb_from_bytes buf =
     (if length buf < SUPERBLOCK_SIZE then Err (InvalidSuperblock ''buffer too small'')
      else
        let magic = subslice 0 8 buf in
        if magic \<noteq> MAGIC then Err NotInitialized
        else
          let version = le_val (subslice 8 12 buf) in
          if version \<noteq> FORMAT_VERSION then Err (InvalidSuperblock ''unsupported version'')
          else
            let device_id = subslice 12 28 buf;
                block_size = le_val (subslice 28 32 buf);
                total_blocks = le_val (subslice 32 40 buf);
                bitmap_offset = le_val (subslice 40 48 buf);
                bitmap_mirror_offset = le_val (subslice 48 56 buf);
                bitmap_blocks = le_val (subslice 56 64 buf);
                data_offset = le_val (subslice 64 72 buf);
                generation = le_val (subslice 72 80 buf) in
            if block_size = 0 \<or> \<not> is_power_of_two block_size
            then Err (InvalidSuperblock ''block_size must be a positive power of two'')
            else if bitmap_offset < SUPERBLOCK_SIZE
            then Err (InvalidSuperblock ''bitmap_offset must be >= SUPERBLOCK_SIZE'')
            else if bitmap_mirror_offset \<le> bitmap_offset
            then Err (InvalidSuperblock ''bitmap_mirror_offset must be > bitmap_offset'')
            else if data_offset \<le> bitmap_mirror_offset
            then Err (InvalidSuperblock ''data_offset must be > bitmap_mirror_offset'')
            else if total_blocks = 0
            then Err (InvalidSuperblock ''total_blocks must be > 0'')
            else Ok \<lparr>sb_magic = magic, sb_version = version, sb_device_id = device_id,
                     sb_block_size = block_size, sb_total_blocks = total_blocks,
                     sb_bitmap_offset = bitmap_offset,
                     sb_bitmap_mirror_offset = bitmap_mirror_offset,
                     sb_bitmap_blocks = bitmap_blocks, sb_data_offset = data_offset,
                     sb_generation = generation\<rparr>)"

definition sb_block_offset :: "Superblock \<Rightarrow> nat \<Rightarrow> ('e, nat) res" where
  "sb_block_offset sb block_index =
     bind_res (mul_u64 block_index (sb_block_size sb)) (\<lambda>x. add_u64 (sb_data_offset sb) x)"

section \<open>Files\<close>

text \<open>\<open>pwrite pos data f\<close> is the contents after \<open>write_all\<close> at a position: a gap after the old end
  is filled with zeros, an empty write changes nothing.\<close>

definition pwrite :: "nat \<Rightarrow> bytes \<Rightarrow> bytes \<Rightarrow> bytes" where
  "pwrite pos data f =
     (if data = [] then f
      else take pos (f @ replicate (pos - length f) 0) @ data @ drop (pos + length data) f)"

record FileSt =
  fs_bytes :: bytes
  fs_fault :: "(nat \<times> nat) option"

definition io_call :: "FileSt \<Rightarrow> FileSt \<times> bool" where
  "io_call f =
     (case fs_fault f of
        None \<Rightarrow> (f, True)
      | Some (n, k) \<Rightarrow>
          if n = 0 then (f\<lparr>fs_fault := Some (0, 0)\<rparr>, False)
          else (f\<lparr>fs_fault := Some (n - 1, k)\<rparr>, True))"

text \<open>The calls that transfer no data (open, set_len, seek, sync_all) succeed or fail.\<close>

definition f_call :: "FileSt \<Rightarrow> FileSt \<times> (BlockError, unit) res" where
  "f_call f = (let (f', okay) = io_call f in (f', if okay then Ok () else Err (Io OtherIo)))"

definition f_write_all :: "FileSt \<Rightarrow> nat \<Rightarrow> bytes \<Rightarrow> FileSt \<times> (BlockError, unit) res" where
  "f_write_all f pos data =
     (let (f', okay) = io_call f in
      if okay then (f'\<lparr>fs_bytes := pwrite pos data (fs_bytes f)\<rparr>, Ok ())
      else (f'\<lparr>fs_bytes :=
                 pwrite pos (take (case fs_fault f of Some (_, k) \<Rightarrow> k | None \<Rightarrow> 0) data) (fs_bytes f)\<rparr>,
            Err (Io OtherIo)))"

definition f_read_exact :: "FileSt \<Rightarrow> nat \<Rightarrow> nat \<Rightarrow> FileSt \<times> (BlockError, bytes) res" where
  "f_read_exact f pos n =
     (let (f', okay) = io_call f in
      (f', if \<not> okay then Err (Io OtherIo)
           else if pos + n \<le> length (fs_bytes f) then Ok (subslice pos (pos + n) (fs_bytes f))
           else Err (Io UnexpectedEof)))"

section \<open>The file-backed device\<close>

definition HEADER_SIZE :: nat where
  "HEADER_SIZE = 4"

definition CRC_SIZE :: nat where
  "CRC_SIZE = 4"

definition OVERHEAD :: nat where
  "OVERHEAD = HEADER_SIZE + CRC_SIZE"

definition MAX_EXTENT_PAYLOAD_BYTES :: nat where
  "MAX_EXTENT_PAYLOAD_BYTES = MAX_EXTENT_BYTES - OVERHEAD"

record FileBackedDevice =
  fd_file :: FileSt
  fd_superblock :: Superblock
  fd_allocator :: BitmapAllocator

text \<open>\<open>DeviceCharacteristics::file_backed_defaults().physical_block_size\<close>.\<close>

definition file_backed_block_size :: nat where
  "file_backed_block_size = 4096"

text \<open>\<open>existing\<close> is the file found at the path, if any; \<open>fault\<close> the fault schedule of the calls.\<close>

definition dev_init :: "bytes \<Rightarrow> bytes option \<Rightarrow> (nat \<times> nat) option \<Rightarrow> nat \<Rightarrow>
    FileSt \<times> (BlockError, FileBackedDevice) res" where
  "dev_init uuid existing fault size_bytes =
     (let f0 = \<lparr>fs_bytes = (case existing of None \<Rightarrow> [] | Some old \<Rightarrow> old), fs_fault = fault\<rparr> in
      bind_st (f0, sb_new uuid size_bytes file_backed_block_size) (\<lambda>f sb.
      bind_st
        (case existing of
           None \<Rightarrow> (f, Ok ())
         | Some old \<Rightarrow>
             bind_st (f_call f) (\<lambda>f _.
             bind_st (f_call f) (\<lambda>f _.
               if min 4096 (length old) \<ge> 8 \<and> take 8 old = MAGIC
               then (f, Err AlreadyInitialized) else (f, Ok ()))))
      (\<lambda>f _. bind_st (f_call f) (\<lambda>f _. let f = f\<lparr>fs_bytes := []\<rparr> in
      bind_st (f_call f) (\<lambda>f _. let f = f\<lparr>fs_bytes := replicate size_bytes 0\<rparr> in
      bind_st (f_call f) (\<lambda>f _.
      bind_st (f_write_all f 0 (sb_to_bytes sb)) (\<lambda>f _.
      let empty_bitmap = replicate (div_ceil (sb_total_blocks sb) 8) 0 in
      bind_st (f_call f) (\<lambda>f _.
      bind_st (f_write_all f (sb_bitmap_offset sb) empty_bitmap) (\<lambda>f _.
      bind_st (f_call f) (\<lambda>f _.
      bind_st (f_write_all f (sb_bitmap_mirror_offset sb) empty_bitmap) (\<lambda>f _.
      bind_st (f_call f) (\<lambda>f _.
      bind_st (f, ba_new (sb_total_blocks sb) (sb_block_size sb)) (\<lambda>f allocator.
        (f, Ok \<lparr>fd_file = f, fd_superblock = sb, fd_allocator = allocator\<rparr>))))))))))))))"

text \<open>The bitmaps are compared only to log a warning; the primary is used either way.\<close>

definition dev_open :: "FileSt option \<Rightarrow> (BlockError, FileBackedDevice) res" where
  "dev_open path =
     (case path of
        None \<Rightarrow> Err NotInitialized
      | Some f \<Rightarrow> snd (
          bind_st (f_call f) (\<lambda>f _.
          bind_st (f_call f) (\<lambda>f _.
          bind_st (f_read_exact f 0 4096) (\<lambda>f sb_buf.
          bind_st (f, sb_from_bytes sb_buf) (\<lambda>f sb.
          let bitmap_size = div_ceil (sb_total_blocks sb) 8 in
          bind_st (f_call f) (\<lambda>f _.
          bind_st (f_read_exact f (sb_bitmap_offset sb) bitmap_size) (\<lambda>f bitmap.
          bind_st (f_call f) (\<lambda>f _.
          bind_st (f_read_exact f (sb_bitmap_mirror_offset sb) bitmap_size) (\<lambda>f mirror.
          bind_st (f, from_bitmap bitmap (sb_total_blocks sb) (sb_block_size sb)) (\<lambda>f allocator.
            (f, Ok \<lparr>fd_file = f, fd_superblock = sb, fd_allocator = allocator\<rparr>))))))))))))"

definition flush_bitmap :: "FileBackedDevice \<Rightarrow> FileBackedDevice \<times> (BlockError, unit) res" where
  "flush_bitmap d =
     (let bitmap = ba_bitmap (fd_allocator d);
          (f, r) =
            bind_st (f_call (fd_file d)) (\<lambda>f _.
            bind_st (f_write_all f (sb_bitmap_offset (fd_superblock d)) bitmap) (\<lambda>f _.
            bind_st (f_call f) (\<lambda>f _.
              f_write_all f (sb_bitmap_mirror_offset (fd_superblock d)) bitmap)))
      in (d\<lparr>fd_file := f\<rparr>, r))"

definition dev_alloc :: "FileBackedDevice \<Rightarrow> nat \<Rightarrow> FileBackedDevice \<times> (AllocError, Extent) res" where
  "dev_alloc d req =
     bind_st (d, add_u64 req OVERHEAD) (\<lambda>d total_size.
       let (a, r) = ba_alloc (fd_allocator d) total_size in (d\<lparr>fd_allocator := a\<rparr>, r))"

definition dev_write :: "(bytes \<Rightarrow> u32) \<Rightarrow> FileBackedDevice \<Rightarrow> Extent \<Rightarrow> bytes \<Rightarrow>
    FileBackedDevice \<times> (BlockError, unit) res" where
  "dev_write crc32c d extent data =
     (if length data > u32_max then (d, Err (Io (InvalidInput ''data exceeds 4GB'')))
      else if length data > ext_length extent - OVERHEAD
      then (d, Err (Io (InvalidInput ''data exceeds extent payload capacity'')))
      else
        let crc = crc32c data in
        bind_st (d, add_u64 (sb_data_offset (fd_superblock d)) (ext_offset extent)) (\<lambda>d abs_offset.
          let (f, r) =
            bind_st (f_call (fd_file d)) (\<lambda>f _.
            bind_st (f_write_all f abs_offset (le_bytes 4 (length data))) (\<lambda>f _.
            bind_st (f_write_all f (abs_offset + 4) data) (\<lambda>f _.
              f_write_all f (abs_offset + 4 + length data) (le_bytes 4 (unat crc)))))
          in (d\<lparr>fd_file := f\<rparr>, r)))"

definition dev_read :: "(bytes \<Rightarrow> u32) \<Rightarrow> FileBackedDevice \<Rightarrow> Extent \<Rightarrow>
    FileBackedDevice \<times> (BlockError, bytes) res" where
  "dev_read crc32c d extent =
     bind_st (d, add_u64 (sb_data_offset (fd_superblock d)) (ext_offset extent)) (\<lambda>d abs_offset.
       let (f, r) =
         bind_st (f_call (fd_file d)) (\<lambda>f _.
         bind_st (f_read_exact f abs_offset HEADER_SIZE) (\<lambda>f len_buf.
           let data_len = le_val len_buf in
           if data_len > ext_length extent - OVERHEAD
           then (f, Err (Corruption (ext_offset extent) 0 0))
           else
             bind_st (f_read_exact f (abs_offset + HEADER_SIZE) data_len) (\<lambda>f data.
             bind_st (f_read_exact f (abs_offset + HEADER_SIZE + data_len) CRC_SIZE) (\<lambda>f crc_buf.
               let stored_crc = word_of_nat (le_val crc_buf); computed_crc = crc32c data in
               if stored_crc \<noteq> computed_crc
               then (f, Err (Corruption (ext_offset extent) stored_crc computed_crc))
               else (f, Ok data)))))
       in (d\<lparr>fd_file := f\<rparr>, r))"

definition dev_free :: "FileBackedDevice \<Rightarrow> Extent \<Rightarrow> FileBackedDevice \<times> (AllocError, unit) res" where
  "dev_free d extent =
     (let (a, r) = ba_free (fd_allocator d) extent in (d\<lparr>fd_allocator := a\<rparr>, r))"

definition dev_sync :: "FileBackedDevice \<Rightarrow> FileBackedDevice \<times> (BlockError, unit) res" where
  "dev_sync d =
     bind_st (flush_bitmap d) (\<lambda>d _.
       let (f, r) = f_call (fd_file d) in (d\<lparr>fd_file := f\<rparr>, r))"

definition dev_capacity :: "FileBackedDevice \<Rightarrow> (AllocError, nat \<times> nat) res" where
  "dev_capacity d =
     bind_res (used_bytes (fd_allocator d)) (\<lambda>u.
     bind_res (total_bytes (fd_allocator d)) (\<lambda>t. Ok (u, t)))"

definition dev_bitmap_bytes :: "FileBackedDevice \<Rightarrow> bytes" where
  "dev_bitmap_bytes d = ba_bitmap (fd_allocator d)"

section \<open>Byte-level facts\<close>

lemma length_slice [simp]: "length (subslice lo hi xs) = min (hi - lo) (length xs - lo)"
  by (simp add: subslice_def)

lemma nth_slice: "i < hi - lo \<Longrightarrow> lo + i < length xs \<Longrightarrow> subslice lo hi xs ! i = xs ! (lo + i)"
  by (simp add: subslice_def)

lemma slice_eqI:
  assumes "hi \<le> length xs" "hi \<le> length ys" "\<And>i. lo \<le> i \<Longrightarrow> i < hi \<Longrightarrow> xs ! i = ys ! i"
  shows "subslice lo hi xs = subslice lo hi ys"
  by (rule nth_equalityI) (use assms in \<open>auto simp: nth_slice\<close>)

lemma slice_sub:
  "subslice lo hi xs = subslice lo hi ys \<Longrightarrow> lo \<le> a \<Longrightarrow> b \<le> hi \<Longrightarrow> subslice a b xs = subslice a b ys"
proof -
  assume eq: "subslice lo hi xs = subslice lo hi ys" and le: "lo \<le> a" "b \<le> hi"
  have "subslice a b zs = subslice (a - lo) (b - lo) (subslice lo hi zs)" for zs :: "'a list"
    using le by (simp add: subslice_def drop_take min_def add.commute diff_le_mono)
  then show ?thesis using eq by metis
qed

lemma length_pwrite: "length (pwrite pos d f) = (if d = [] then length f else max (length f) (pos + length d))"
  by (auto simp: pwrite_def)

lemma length_pwrite_ge: "length f \<le> length (pwrite pos d f)"
  by (simp add: length_pwrite)

lemma nth_pwrite:
  assumes "i < length (pwrite pos d f)"
  shows "pwrite pos d f ! i =
    (if pos \<le> i \<and> i < pos + length d then d ! (i - pos) else if i < length f then f ! i else 0)"
proof (cases "d = []")
  case False
  let ?t = "take pos (f @ replicate (pos - length f) 0)"
  have t: "length ?t = pos" "pwrite pos d f = ?t @ d @ drop (pos + length d) f"
    using False by (auto simp: pwrite_def)
  show ?thesis
  proof (cases "i < pos")
    case True
    then show ?thesis unfolding t(2) by (auto simp: nth_append)
  next
    case ge: False
    have "pwrite pos d f ! i = (d @ drop (pos + length d) f) ! (i - pos)"
      unfolding t(2) by (subst nth_append) (use ge t(1) in \<open>simp only: t(1) if_False\<close>)
    with ge assms False show ?thesis by (auto simp: nth_append length_pwrite)
  qed
qed (use assms in \<open>auto simp: pwrite_def\<close>)

lemma pwrite_Nil [simp]: "pwrite pos [] f = f"
  by (simp add: pwrite_def)

lemma pwrite_append: "pwrite (pos + length a) b (pwrite pos a f) = pwrite pos (a @ b) f"
proof (cases "a = [] \<or> b = []")
  case False
  show ?thesis
    by (rule nth_equalityI) (use False in \<open>auto simp: length_pwrite nth_pwrite nth_append\<close>)
qed auto

lemma slice_pwrite_same: "subslice pos (pos + length d) (pwrite pos d f) = d"
  by (rule nth_equalityI) (auto simp: length_pwrite nth_slice nth_pwrite)

lemma slice_pwrite_other:
  assumes "hi \<le> length f" "hi \<le> pos \<or> pos + length d \<le> lo"
  shows "subslice lo hi (pwrite pos d f) = subslice lo hi f"
proof (rule slice_eqI)
  show le: "hi \<le> length (pwrite pos d f)" using assms(1) by (auto simp: length_pwrite)
  fix i assume "lo \<le> i" "i < hi"
  with le assms nth_pwrite [of i pos d f] show "pwrite pos d f ! i = f ! i" by auto
qed (rule assms(1))

lemma slice_concat:
  "subslice pos (pos + length (a @ b)) f = a @ b \<Longrightarrow>
     subslice pos (pos + length a) f = a \<and> subslice (pos + length a) (pos + length a + length b) f = b"
proof -
  assume eq: "subslice pos (pos + length (a @ b)) f = a @ b"
  have "subslice pos (pos + length a) f = take (length a) (subslice pos (pos + length (a @ b)) f)"
    "subslice (pos + length a) (pos + length a + length b) f = drop (length a) (subslice pos (pos + length (a @ b)) f)"
    by (simp_all add: subslice_def drop_take add.commute)
  then show ?thesis unfolding eq by simp
qed

lemma crc_roundtrip [simp]: "word_of_nat (le_val (le_bytes 4 (unat c))) = (c :: u32)"
proof -
  have "unat c < 256 ^ 4" using unsigned_less [of c] by simp
  then show ?thesis by (simp add: le_val_le_bytes)
qed

section \<open>Superblock round trip and layout\<close>

text \<open>The values a superblock in memory can have (field widths), and those \<open>from_bytes\<close> accepts.\<close>

definition sb_typed :: "Superblock \<Rightarrow> bool" where
  "sb_typed sb \<longleftrightarrow> length (sb_magic sb) = 8 \<and> sb_version sb \<le> u32_max \<and> length (sb_device_id sb) = 16 \<and>
     sb_block_size sb \<le> u32_max \<and> sb_total_blocks sb \<le> u64_max \<and> sb_bitmap_offset sb \<le> u64_max \<and>
     sb_bitmap_mirror_offset sb \<le> u64_max \<and> sb_bitmap_blocks sb \<le> u64_max \<and>
     sb_data_offset sb \<le> u64_max \<and> sb_generation sb \<le> u64_max"

definition sb_valid :: "Superblock \<Rightarrow> bool" where
  "sb_valid sb \<longleftrightarrow> sb_magic sb = MAGIC \<and> sb_version sb = FORMAT_VERSION \<and>
     is_power_of_two (sb_block_size sb) \<and> SUPERBLOCK_SIZE \<le> sb_bitmap_offset sb \<and>
     sb_bitmap_offset sb < sb_bitmap_mirror_offset sb \<and>
     sb_bitmap_mirror_offset sb < sb_data_offset sb \<and> 0 < sb_total_blocks sb"

lemma length_sb_to_bytes: "sb_typed sb \<Longrightarrow> length (sb_to_bytes sb) = SUPERBLOCK_SIZE"
  by (simp add: sb_to_bytes_def sb_typed_def SUPERBLOCK_SIZE_def)

lemma slice_here: "length a = n \<Longrightarrow> subslice 0 n (a @ b) = a"
  by (simp add: subslice_def)

lemma slice_skip: "length a = n \<Longrightarrow> n \<le> lo \<Longrightarrow> subslice lo hi (a @ b) = subslice (lo - n) (hi - n) b"
  by (simp add: subslice_def)

lemma sb_fields:
  assumes "sb_typed sb"
  shows "subslice 0 8 (sb_to_bytes sb) = sb_magic sb"
    "le_val (subslice 8 12 (sb_to_bytes sb)) = sb_version sb"
    "subslice 12 28 (sb_to_bytes sb) = sb_device_id sb"
    "le_val (subslice 28 32 (sb_to_bytes sb)) = sb_block_size sb"
    "le_val (subslice 32 40 (sb_to_bytes sb)) = sb_total_blocks sb"
    "le_val (subslice 40 48 (sb_to_bytes sb)) = sb_bitmap_offset sb"
    "le_val (subslice 48 56 (sb_to_bytes sb)) = sb_bitmap_mirror_offset sb"
    "le_val (subslice 56 64 (sb_to_bytes sb)) = sb_bitmap_blocks sb"
    "le_val (subslice 64 72 (sb_to_bytes sb)) = sb_data_offset sb"
    "le_val (subslice 72 80 (sb_to_bytes sb)) = sb_generation sb"
  using assms unfolding sb_to_bytes_def sb_typed_def u32_max_def u64_max_def
  by (simp_all add: slice_here slice_skip [where n = 8] slice_skip [where n = 4] slice_skip [where n = 16]
      le_val_le_bytes)

lemma power_of_two_pos: "is_power_of_two n \<Longrightarrow> 0 < n"
  by (auto simp: is_power_of_two_def)

lemma sb_roundtrip:
  assumes "sb_typed sb"
  shows "sb_valid sb \<Longrightarrow> sb_from_bytes (sb_to_bytes sb) = Ok sb"
    and "\<not> sb_valid sb \<Longrightarrow> \<exists>e. sb_from_bytes (sb_to_bytes sb) = Err e"
  using length_sb_to_bytes [OF assms] power_of_two_pos [of "sb_block_size sb"]
  by (auto simp: sb_from_bytes_def sb_fields [OF assms] Let_def sb_valid_def not_le not_less)

lemma sb_new_layout:
  assumes new: "sb_new uuid n bs = (Ok sb :: ('e, Superblock) res)"
  shows "sb_magic sb = MAGIC" "sb_version sb = FORMAT_VERSION" "sb_device_id sb = uuid"
    and "sb_block_size sb = bs" "sb_bitmap_offset sb = SUPERBLOCK_SIZE" "sb_generation sb = 0"
    and "sb_bitmap_mirror_offset sb = sb_bitmap_offset sb + sb_bitmap_blocks sb * bs"
    and "sb_data_offset sb = sb_bitmap_mirror_offset sb + sb_bitmap_blocks sb * bs"
    and "sb_data_offset sb \<le> u64_max" "0 < bs"
    and "sb_total_blocks sb = (n - sb_data_offset sb) div bs"
    and "sb_bitmap_blocks sb = div_ceil (div_ceil ((n - SUPERBLOCK_SIZE) div bs) 8) bs"
  using new by (auto simp: sb_new_def Let_def split: if_splits)

lemma sb_new_regions:
  assumes new: "sb_new uuid n bs = (Ok sb :: ('e, Superblock) res)"
  shows "div_ceil (sb_total_blocks sb) 8 \<le> sb_bitmap_blocks sb * bs"
    and "0 < sb_total_blocks sb \<Longrightarrow>
      0 < sb_bitmap_blocks sb \<and> sb_data_offset sb + sb_total_blocks sb * bs \<le> n"
    and "sb_total_blocks sb * bs \<le> n"
proof -
  note l = sb_new_layout [OF new]
  let ?approx = "(n - SUPERBLOCK_SIZE) div bs"
  have "SUPERBLOCK_SIZE \<le> sb_data_offset sb" using l(5,7,8) by simp
  then have "sb_total_blocks sb \<le> ?approx" using l(11) by (simp add: div_le_mono)
  then have "div_ceil (sb_total_blocks sb) 8 \<le> div_ceil ?approx 8" by (intro div_ceil_mono) simp_all
  also have "\<dots> \<le> sb_bitmap_blocks sb * bs" using div_ceil_ge [OF l(10)] l(12) by simp
  finally show fits: "div_ceil (sb_total_blocks sb) 8 \<le> sb_bitmap_blocks sb * bs" .
  have le: "sb_total_blocks sb * bs \<le> n - sb_data_offset sb" unfolding l(11) by simp
  then show "sb_total_blocks sb * bs \<le> n" by simp
  assume pos: "0 < sb_total_blocks sb"
  with fits have "0 < sb_bitmap_blocks sb"
    by (metis div_ceil_eq_0 gr0I le_zero_eq mult_0 zero_less_numeral)
  moreover have "0 < sb_total_blocks sb * bs" using pos l(10) by simp
  with le have "sb_data_offset sb + sb_total_blocks sb * bs \<le> n" by linarith
  ultimately show "0 < sb_bitmap_blocks sb \<and> sb_data_offset sb + sb_total_blocks sb * bs \<le> n" ..
qed

lemma sb_new_total:
  assumes "0 < bs" "bs \<le> u32_max" "n \<le> u64_max"
  shows "\<exists>sb. sb_new uuid n bs = Ok sb"
proof -
  let ?approx = "(n - SUPERBLOCK_SIZE) div bs"
  let ?sz = "div_ceil (div_ceil ?approx 8) bs * bs"
  have "?sz < div_ceil ?approx 8 + bs" by (rule div_ceil_less [OF assms(1)])
  moreover have "div_ceil ?approx 8 * 8 < ?approx + 8" by (rule div_ceil_less) simp
  moreover have "?approx \<le> n" by (meson diff_le_self div_le_dividend le_trans)
  ultimately have "8 * ?sz < n + 8 + 8 * bs" by linarith
  then have "SUPERBLOCK_SIZE + ?sz + ?sz \<le> u64_max"
    using assms(2,3) u32_max_val u64_max_val SUPERBLOCK_SIZE_def by linarith
  moreover from this have "?sz \<le> u64_max" "SUPERBLOCK_SIZE + ?sz \<le> u64_max" by linarith+
  ultimately show ?thesis using assms(1)
    by (simp add: sb_new_def Let_def mul_u64_def add_u64_def)
qed

section \<open>Effects of the device operations\<close>

lemma f_call_outcome:
  "f_call f = (f', r) \<Longrightarrow> fs_bytes f' = fs_bytes f \<and> (r = Ok () \<or> r = Err (Io OtherIo))"
  by (auto simp: f_call_def io_call_def split: option.splits if_splits prod.splits)

lemma f_read_exact_outcome: "f_read_exact f pos n = (f', r) \<Longrightarrow> fs_bytes f' = fs_bytes f"
  by (auto simp: f_read_exact_def io_call_def split: option.splits if_splits prod.splits)

lemma f_write_all_outcome:
  assumes "f_write_all f pos data = (f', r)"
  obtains k where "fs_bytes f' = pwrite pos (take k data) (fs_bytes f)" "r \<noteq> Panic"
    "is_ok r \<Longrightarrow> length data \<le> k"
proof (cases "snd (io_call f)")
  case True
  with assms that [of "length data"] show ?thesis by (auto simp: f_write_all_def split: prod.splits)
next
  case False
  with assms that [of "case fs_fault f of Some (_, k) \<Rightarrow> k | None \<Rightarrow> 0"] show ?thesis
    by (auto simp: f_write_all_def split: prod.splits)
qed

text \<open>Without pending faults the calls are functions of the contents.\<close>

lemma f_call_ok: "fs_fault f = None \<Longrightarrow> f_call f = (f, Ok ())"
  by (simp add: f_call_def io_call_def)

lemma f_write_all_ok:
  "fs_fault f = None \<Longrightarrow> f_write_all f pos data = (f\<lparr>fs_bytes := pwrite pos data (fs_bytes f)\<rparr>, Ok ())"
  by (simp add: f_write_all_def io_call_def)

lemma f_read_exact_ok: "fs_fault f = None \<Longrightarrow> f_read_exact f pos n =
    (f, if pos + n \<le> length (fs_bytes f) then Ok (subslice pos (pos + n) (fs_bytes f))
        else Err (Io UnexpectedEof))"
  by (simp add: f_read_exact_def io_call_def)

lemmas faultless = f_call_ok f_write_all_ok f_read_exact_ok

definition frame :: "(bytes \<Rightarrow> u32) \<Rightarrow> bytes \<Rightarrow> bytes" where
  "frame crc data = le_bytes 4 (length data) @ data @ le_bytes 4 (unat (crc data))"

lemma length_frame [simp]: "length (frame crc data) = length data + OVERHEAD"
  by (simp add: frame_def OVERHEAD_def HEADER_SIZE_def CRC_SIZE_def)

lemma f_write_all_next:
  assumes "f_write_all f (pos + length a) x = (f', r)" "fs_bytes f = pwrite pos a b"
  shows "\<exists>k. fs_bytes f' = pwrite pos (a @ take k x) b \<and> (is_ok r \<longrightarrow> length x \<le> k)"
  using f_write_all_outcome [OF assms(1)] assms(2) pwrite_append by metis

text \<open>Three consecutive writes store a prefix of the concatenated data, all of it on success.\<close>

lemma write_pieces:
  assumes "bind_st (f_call g) (\<lambda>f _. bind_st (f_write_all f pos h) (\<lambda>f _.
      bind_st (f_write_all f (pos + length h) data) (\<lambda>f _.
        f_write_all f (pos + length h + length data) c))) = (f, r)"
  shows "\<exists>k. fs_bytes f = pwrite pos (take k (h @ data @ c)) (fs_bytes g) \<and>
      (is_ok r \<longrightarrow> length (h @ data @ c) \<le> k)"
  using assms
proof (cases rule: bind_st_cases)
  case (ok g1 u)
  then have g1: "fs_bytes g1 = fs_bytes g" using f_call_outcome by fastforce
  from ok(2) show ?thesis
  proof (cases rule: bind_st_cases)
    case (ok g2 v)
    with f_write_all_next [of g1 pos "[]" h g2 "Ok v" "fs_bytes g"] g1
    have g2: "fs_bytes g2 = pwrite pos h (fs_bytes g)" by auto
    from ok(2) show ?thesis
    proof (cases rule: bind_st_cases)
      case (ok g3 w)
      with f_write_all_next [OF _ g2, of data g3 "Ok w"]
      have g3: "fs_bytes g3 = pwrite pos (h @ data) (fs_bytes g)" by auto
      from f_write_all_next [OF _ g3, of c f r] ok(2) obtain k
        where "fs_bytes f = pwrite pos ((h @ data) @ take k c) (fs_bytes g)" "is_ok r \<longrightarrow> length c \<le> k"
        by (auto simp: add.assoc)
      then show ?thesis by (intro exI [of _ "length h + length data + k"]) auto
    next
      case (err e)
      with f_write_all_next [OF _ g2, of data f "Err e"] obtain k
        where "fs_bytes f = pwrite pos (h @ take k data) (fs_bytes g)" by auto
      then show ?thesis using err by (intro exI [of _ "length h + min k (length data)"]) (auto simp: min_def)
    next
      case panic
      with f_write_all_outcome show ?thesis by metis
    qed
  next
    case (err e)
    with f_write_all_next [of g1 pos "[]" h f "Err e" "fs_bytes g"] g1 obtain k
      where "fs_bytes f = pwrite pos (take k h) (fs_bytes g)" by auto
    then show ?thesis using err by (intro exI [of _ "min k (length h)"]) (auto simp: min_def)
  next
    case panic
    with f_write_all_outcome show ?thesis by metis
  qed
next
  case (err e)
  then have "fs_bytes f = fs_bytes g" using f_call_outcome by fastforce
  with err show ?thesis by (intro exI [of _ 0]) simp
next
  case panic
  then show ?thesis using f_call_outcome by fastforce
qed

text \<open>A write to an extent that can hold the framing stores a prefix of the frame inside the
  extent: all of it when it succeeds.\<close>

lemma dev_write_outcome:
  assumes wr: "dev_write crc d e data = (d', r)" and big: "OVERHEAD \<le> ext_length e"
  obtains k where
    "fd_superblock d' = fd_superblock d" "fd_allocator d' = fd_allocator d"
    "fs_bytes (fd_file d') =
       pwrite (sb_data_offset (fd_superblock d) + ext_offset e) (take k (frame crc data)) (fs_bytes (fd_file d))"
    "is_ok r \<Longrightarrow> length (frame crc data) \<le> k"
    "k = 0 \<or> length (frame crc data) \<le> ext_length e"
    "k = 0 \<or> length data \<le> u32_max"
proof -
  let ?abs = "sb_data_offset (fd_superblock d) + ext_offset e" and ?b = "fs_bytes (fd_file d)"
  let ?h = "le_bytes 4 (length data)" and ?c = "le_bytes 4 (unat (crc data))"
  show thesis
  proof (cases "length data > u32_max \<or> length data > ext_length e - OVERHEAD \<or> ?abs > u64_max")
    case True
    with wr have "d' = d" "\<not> is_ok r"
      by (auto simp: dev_write_def Let_def add_u64_def split: if_splits)
    then show thesis by (intro that [of 0]) simp_all
  next
    case False
    obtain f where f: "bind_st (f_call (fd_file d)) (\<lambda>f _. bind_st (f_write_all f ?abs ?h) (\<lambda>f _.
        bind_st (f_write_all f (?abs + length ?h) data) (\<lambda>f _.
          f_write_all f (?abs + length ?h + length data) ?c))) = (f, r)" and d': "d' = d\<lparr>fd_file := f\<rparr>"
      using wr False by (auto simp: dev_write_def Let_def add_u64_def split: prod.splits)
    obtain k where k: "fs_bytes f = pwrite ?abs (take k (frame crc data)) ?b"
      "is_ok r \<longrightarrow> length (frame crc data) \<le> k"
      using write_pieces [OF f] unfolding frame_def by blast
    show thesis by (rule that [of k]) (use False k d' big in auto)
  qed
qed

text \<open>The outcome of a read without pending faults depends only on the bytes of the extent.\<close>

lemma dev_read_cong:
  assumes "fs_fault (fd_file d) = None" "fs_fault (fd_file d') = None"
    and "fd_superblock d' = fd_superblock d" "OVERHEAD \<le> ext_length e"
    and "lo = sb_data_offset (fd_superblock d) + ext_offset e"
    and "lo + ext_length e \<le> length (fs_bytes (fd_file d))"
    and "lo + ext_length e \<le> length (fs_bytes (fd_file d'))"
    and eq: "subslice lo (lo + ext_length e) (fs_bytes (fd_file d)) =
      subslice lo (lo + ext_length e) (fs_bytes (fd_file d'))"
  shows "snd (dev_read crc d e) = snd (dev_read crc d' e)"
proof -
  have sub: "subslice a b (fs_bytes (fd_file d)) = subslice a b (fs_bytes (fd_file d'))"
    if "lo \<le> a" "b \<le> lo + ext_length e" for a b
    using slice_sub [OF eq that] .
  let ?n = "le_val (subslice lo (lo + HEADER_SIZE) (fs_bytes (fd_file d')))"
  have h: "subslice lo (lo + HEADER_SIZE) (fs_bytes (fd_file d)) = subslice lo (lo + HEADER_SIZE) (fs_bytes (fd_file d'))"
    by (rule sub) (use assms(4) in \<open>auto simp: OVERHEAD_def\<close>)
  show ?thesis
  proof (cases "?n > ext_length e - OVERHEAD")
    case True
    with assms h show ?thesis
      by (simp add: dev_read_def faultless add_u64_def Let_def OVERHEAD_def)
  next
    case False
    then have "lo + HEADER_SIZE + ?n + CRC_SIZE \<le> lo + ext_length e"
      using assms(4) unfolding OVERHEAD_def by linarith
    with sub [of "lo + HEADER_SIZE" "lo + HEADER_SIZE + ?n"]
      sub [of "lo + HEADER_SIZE + ?n" "lo + HEADER_SIZE + ?n + CRC_SIZE"] assms h False
    show ?thesis by (simp add: dev_read_def faultless add_u64_def Let_def OVERHEAD_def)
  qed
qed

lemma dev_read_frame:
  assumes "fs_fault (fd_file d) = None" and "lo = sb_data_offset (fd_superblock d) + ext_offset e"
    and fr: "subslice lo (lo + length (frame crc data)) (fs_bytes (fd_file d)) = frame crc data"
    and "length (frame crc data) \<le> ext_length e" "length data \<le> u32_max" "lo \<le> u64_max"
  shows "dev_read crc d e = (d, Ok data)"
proof -
  let ?f = "fs_bytes (fd_file d)"
  have len: "lo + length (frame crc data) \<le> length ?f"
    using arg_cong [OF fr, of length] by (simp add: OVERHEAD_def HEADER_SIZE_def)
  have h: "subslice lo (lo + 4) ?f = le_bytes 4 (length data)"
    and rest: "subslice (lo + 4) (lo + 4 + length (data @ le_bytes 4 (unat (crc data)))) ?f =
      data @ le_bytes 4 (unat (crc data))"
    using slice_concat [OF fr [unfolded frame_def]] by simp_all
  have d: "subslice (lo + 4) (lo + 4 + length data) ?f = data"
    and c: "subslice (lo + 4 + length data) (lo + 4 + length data + 4) ?f = le_bytes 4 (unat (crc data))"
    using slice_concat [OF rest] by simp_all
  have "length data < 256 ^ 4" using assms(5) by (simp add: u32_max_val)
  then have "le_val (le_bytes 4 (length data)) = length data" by (rule le_val_le_bytes)
  with assms len h d c show ?thesis
    by (simp add: dev_read_def faultless add_u64_def Let_def OVERHEAD_def HEADER_SIZE_def CRC_SIZE_def)
qed

section \<open>Device invariant\<close>

definition region_kept :: "nat \<Rightarrow> nat \<Rightarrow> bytes \<Rightarrow> bytes \<Rightarrow> bool" where
  "region_kept lo hi f f' \<longleftrightarrow> (hi \<le> length f \<longrightarrow> hi \<le> length f' \<and> subslice lo hi f' = subslice lo hi f)"

lemma region_kept_refl [simp]: "region_kept lo hi f f"
  by (simp add: region_kept_def)

lemma region_kept_trans: "region_kept lo hi f g \<Longrightarrow> region_kept lo hi g h \<Longrightarrow> region_kept lo hi f h"
  by (auto simp: region_kept_def)

lemma region_kept_pwrite: "hi \<le> pos \<or> pos + length d \<le> lo \<Longrightarrow> region_kept lo hi f (pwrite pos d f)"
  by (auto simp: region_kept_def slice_pwrite_other length_pwrite)

definition sb_layout :: "Superblock \<Rightarrow> bool" where
  "sb_layout sb \<longleftrightarrow> sb_typed sb \<and> sb_magic sb = MAGIC \<and> sb_version sb = FORMAT_VERSION \<and>
     sb_block_size sb = file_backed_block_size \<and> sb_bitmap_offset sb = SUPERBLOCK_SIZE \<and>
     sb_bitmap_offset sb + div_ceil (sb_total_blocks sb) 8 \<le> sb_bitmap_mirror_offset sb \<and>
     sb_bitmap_mirror_offset sb + div_ceil (sb_total_blocks sb) 8 \<le> sb_data_offset sb \<and>
     sb_data_offset sb + sb_total_blocks sb * sb_block_size sb \<le> u64_max"

definition dev_wf :: "FileBackedDevice \<Rightarrow> bool" where
  "dev_wf d \<longleftrightarrow> (let sb = fd_superblock d; a = fd_allocator d; f = fs_bytes (fd_file d) in
     sb_layout sb \<and> ba_total_blocks a = sb_total_blocks sb \<and> ba_block_size a = sb_block_size sb \<and>
     length (ba_bitmap a) = div_ceil (sb_total_blocks sb) 8 \<and>
     SUPERBLOCK_SIZE \<le> length f \<and> subslice 0 SUPERBLOCK_SIZE f = sb_to_bytes sb \<and>
     (0 < sb_total_blocks sb \<longrightarrow> sb_data_offset sb + sb_total_blocks sb * sb_block_size sb \<le> length f))"

definition stored :: "(bytes \<Rightarrow> u32) \<Rightarrow> FileBackedDevice \<Rightarrow> Extent \<Rightarrow> bytes \<Rightarrow> bool" where
  "stored crc d e data \<longleftrightarrow> (let lo = sb_data_offset (fd_superblock d) + ext_offset e in
     subslice lo (lo + length (frame crc data)) (fs_bytes (fd_file d)) = frame crc data \<and>
     length (frame crc data) \<le> ext_length e \<and> length data \<le> u32_max)"

text \<open>The device with the extents its clients hold and, where it is known, the data last written.\<close>

type_synonym dev_sys = "FileBackedDevice \<times> (Extent \<times> bytes option) list"

definition dev_inv :: "(bytes \<Rightarrow> u32) \<Rightarrow> dev_sys \<Rightarrow> bool" where
  "dev_inv crc s \<longleftrightarrow> (case s of (d, L) \<Rightarrow>
     dev_wf d \<and> sys_inv (fd_allocator d, map fst L) \<and>
     (\<forall>e data. (e, Some data) \<in> set L \<longrightarrow> stored crc d e data))"

definition dev_start :: "dev_sys \<Rightarrow> bool" where
  "dev_start s \<longleftrightarrow> (\<exists>uuid existing fault n f. length uuid = 16 \<and> n \<le> u64_max \<and>
     dev_init uuid existing fault n = (f, Ok (fst s)) \<and> snd s = [])"

inductive dev_step :: "(bytes \<Rightarrow> u32) \<Rightarrow> dev_sys \<Rightarrow> dev_sys \<Rightarrow> bool" for crc where
  dstep_alloc: "dev_alloc d n = (d', Ok e) \<Longrightarrow> dev_step crc (d, L) (d', (e, None) # L)"
| dstep_refuse: "dev_alloc d n = (d', r) \<Longrightarrow> \<not> is_ok r \<Longrightarrow> dev_step crc (d, L) (d', L)"
| dstep_write: "e \<in> fst ` set L \<Longrightarrow> dev_write crc d e data = (d', r) \<Longrightarrow>
    L' = map (\<lambda>(x, c). (x, if x \<noteq> e then c else if is_ok r then Some data
                          else if d' = d then c else None)) L \<Longrightarrow> dev_step crc (d, L) (d', L')"
| dstep_read: "dev_read crc d e = (d', r) \<Longrightarrow> dev_step crc (d, L) (d', L)"
| dstep_free: "e \<in> fst ` set L \<Longrightarrow> dev_free d e = (d', r) \<Longrightarrow>
    dev_step crc (d, L) (d', filter (\<lambda>x. fst x \<noteq> e) L)"
| dstep_sync: "dev_sync d = (d', r) \<Longrightarrow> dev_step crc (d, L) (d', L)"
| dstep_reopen: "dev_sync d = (d1, Ok ()) \<Longrightarrow>
    dev_open (Some ((fd_file d1)\<lparr>fs_fault := fault\<rparr>)) = Ok d' \<Longrightarrow> dev_step crc (d, L) (d', L)"

lemma stored_kept:
  assumes "stored crc d e data" "fd_superblock d' = fd_superblock d"
    and "region_kept lo (lo + ext_length e) (fs_bytes (fd_file d)) (fs_bytes (fd_file d'))"
    and "lo = sb_data_offset (fd_superblock d) + ext_offset e"
    and "lo + ext_length e \<le> length (fs_bytes (fd_file d))"
  shows "stored crc d' e data"
proof -
  have "subslice lo (lo + ext_length e) (fs_bytes (fd_file d')) = subslice lo (lo + ext_length e) (fs_bytes (fd_file d))"
    using assms(3,5) by (simp add: region_kept_def)
  then have "subslice lo (lo + length (frame crc data)) (fs_bytes (fd_file d')) =
      subslice lo (lo + length (frame crc data)) (fs_bytes (fd_file d))"
    by (rule slice_sub) (use assms(1) in \<open>auto simp: stored_def Let_def\<close>)
  with assms(1,2,4) show ?thesis by (simp add: stored_def Let_def)
qed

lemma ext_in_file:
  assumes "dev_wf d" and ok: "ext_ok (fd_allocator d) e"
  shows "sb_data_offset (fd_superblock d) + ext_offset e + ext_length e \<le> length (fs_bytes (fd_file d))"
    and "OVERHEAD \<le> ext_length e"
    and "sb_data_offset (fd_superblock d) + ext_offset e \<le> u64_max"
proof -
  let ?sb = "fd_superblock d"
  have t: "ext_offset e + ext_length e \<le> sb_total_blocks ?sb * sb_block_size ?sb" "0 < ext_length e"
    "4096 dvd ext_length e" and bs: "sb_block_size ?sb = 4096"
    using ok assms(1) by (auto simp: ext_ok_def dev_wf_def Let_def sb_layout_def file_backed_block_size_def)
  then have "0 < sb_total_blocks ?sb" by (metis add_is_0 gr0I le_zero_eq mult_0 less_irrefl)
  then have "sb_data_offset ?sb + sb_total_blocks ?sb * sb_block_size ?sb \<le> length (fs_bytes (fd_file d))"
    "sb_data_offset ?sb + sb_total_blocks ?sb * sb_block_size ?sb \<le> u64_max"
    using assms(1) unfolding dev_wf_def Let_def sb_layout_def by blast+
  with t show "sb_data_offset ?sb + ext_offset e + ext_length e \<le> length (fs_bytes (fd_file d))"
    "sb_data_offset ?sb + ext_offset e \<le> u64_max" by linarith+
  show "OVERHEAD \<le> ext_length e"
    using dvd_imp_le [OF t(3,2)] by (simp add: OVERHEAD_def HEADER_SIZE_def CRC_SIZE_def)
qed

lemma held_in_file:
  assumes "dev_wf d" "sys_inv (fd_allocator d, map fst L)" "e \<in> fst ` set L"
  shows "sb_data_offset (fd_superblock d) + ext_offset e + ext_length e \<le> length (fs_bytes (fd_file d))"
    and "OVERHEAD \<le> ext_length e"
    and "sb_data_offset (fd_superblock d) + ext_offset e \<le> u64_max"
proof -
  have ok: "ext_ok (fd_allocator d) e" using assms(2,3) by (auto simp: sys_inv_def)
  show "sb_data_offset (fd_superblock d) + ext_offset e + ext_length e \<le> length (fs_bytes (fd_file d))"
    "OVERHEAD \<le> ext_length e" "sb_data_offset (fd_superblock d) + ext_offset e \<le> u64_max"
    using ext_in_file [OF assms(1) ok] by auto
qed

lemma file_Ok:
  "f_call f = (f', Ok u) \<Longrightarrow> fs_bytes f' = fs_bytes f"
  "f_write_all f pos data = (f', Ok u) \<Longrightarrow> fs_bytes f' = pwrite pos data (fs_bytes f)"
  "f_read_exact f pos n = (f', Ok b) \<Longrightarrow>
     fs_bytes f' = fs_bytes f \<and> pos + n \<le> length (fs_bytes f) \<and> b = subslice pos (pos + n) (fs_bytes f)"
  by (auto simp: f_call_def f_write_all_def f_read_exact_def io_call_def
      split: option.splits if_splits prod.splits)

lemma dev_init_Ok:
  assumes "dev_init uuid existing fault n = (f, Ok d)"
  shows "sb_new uuid n file_backed_block_size = (Ok (fd_superblock d) :: (BlockError, _) res)"
    and "ba_new (sb_total_blocks (fd_superblock d)) (sb_block_size (fd_superblock d)) =
      (Ok (fd_allocator d) :: (BlockError, _) res)"
    and "fs_bytes (fd_file d) = (let sb = fd_superblock d; z = replicate (div_ceil (sb_total_blocks sb) 8) 0 in
      pwrite (sb_bitmap_mirror_offset sb) z (pwrite (sb_bitmap_offset sb) z
        (pwrite 0 (sb_to_bytes sb) (replicate n 0))))"
  using assms unfolding dev_init_def Let_def by (auto dest!: file_Ok)

lemma dev_open_Ok:
  assumes "dev_open (Some f) = Ok d"
  shows "sb_from_bytes (subslice 0 4096 (fs_bytes f)) = Ok (fd_superblock d)"
    and "from_bitmap (subslice (sb_bitmap_offset (fd_superblock d)) (sb_bitmap_offset (fd_superblock d) +
          div_ceil (sb_total_blocks (fd_superblock d)) 8) (fs_bytes f))
        (sb_total_blocks (fd_superblock d)) (sb_block_size (fd_superblock d)) =
      (Ok (fd_allocator d) :: (BlockError, _) res)"
    and "fs_bytes (fd_file d) = fs_bytes f"
  using assms unfolding dev_open_def Let_def by (auto dest!: file_Ok)

lemma flush_bitmap_outcome:
  assumes "flush_bitmap d = (d', r)"
  obtains k1 k2 where "fd_superblock d' = fd_superblock d" "fd_allocator d' = fd_allocator d"
    "fs_bytes (fd_file d') = (let bm = ba_bitmap (fd_allocator d); sb = fd_superblock d in
       pwrite (sb_bitmap_mirror_offset sb) (take k2 bm)
         (pwrite (sb_bitmap_offset sb) (take k1 bm) (fs_bytes (fd_file d))))"
    "is_ok r \<Longrightarrow> length (ba_bitmap (fd_allocator d)) \<le> k1 \<and> length (ba_bitmap (fd_allocator d)) \<le> k2"
proof -
  let ?bm = "ba_bitmap (fd_allocator d)" and ?sb = "fd_superblock d" and ?b = "fs_bytes (fd_file d)"
  obtain f where f: "bind_st (f_call (fd_file d)) (\<lambda>f _. bind_st (f_write_all f (sb_bitmap_offset ?sb) ?bm)
      (\<lambda>f _. bind_st (f_call f) (\<lambda>f _. f_write_all f (sb_bitmap_mirror_offset ?sb) ?bm))) = (f, r)"
    and d': "d' = d\<lparr>fd_file := f\<rparr>"
    using assms by (auto simp: flush_bitmap_def Let_def split: prod.splits)
  have "\<exists>k1 k2. fs_bytes f = pwrite (sb_bitmap_mirror_offset ?sb) (take k2 ?bm)
       (pwrite (sb_bitmap_offset ?sb) (take k1 ?bm) ?b) \<and>
     (is_ok r \<longrightarrow> length ?bm \<le> k1 \<and> length ?bm \<le> k2)"
    using f
  proof (cases rule: bind_st_cases)
    case (ok f1 u)
    then have f1: "fs_bytes f1 = ?b" by (auto dest: file_Ok)
    from ok(2) show ?thesis
    proof (cases rule: bind_st_cases)
      case (ok f2 v)
      then have f2: "fs_bytes f2 = pwrite (sb_bitmap_offset ?sb) ?bm ?b" using f1 by (auto dest: file_Ok)
      from ok(2) show ?thesis
      proof (cases rule: bind_st_cases)
        case (ok f3 w)
        then have f3: "fs_bytes f3 = pwrite (sb_bitmap_offset ?sb) ?bm ?b" using f2 by (auto dest: file_Ok)
        from f_write_all_outcome [OF ok(2)] obtain k
          where "fs_bytes f = pwrite (sb_bitmap_mirror_offset ?sb) (take k ?bm) (fs_bytes f3)"
            "is_ok r \<Longrightarrow> length ?bm \<le> k" by metis
        then show ?thesis unfolding f3 by (intro exI [of _ "length ?bm"] exI [of _ k]) auto
      next
        case (err e)
        then have "fs_bytes f = fs_bytes f2" using f_call_outcome by metis
        then show ?thesis using f2 err by (intro exI [of _ "length ?bm"] exI [of _ 0]) simp
      next
        case panic
        then show ?thesis using f_call_outcome by fastforce
      qed
    next
      case (err e)
      from f_write_all_outcome [OF err(1)] obtain k
        where "fs_bytes f = pwrite (sb_bitmap_offset ?sb) (take k ?bm) (fs_bytes f1)" by metis
      then show ?thesis using f1 err by (intro exI [of _ k] exI [of _ 0]) simp
    next
      case panic
      then show ?thesis using f_write_all_outcome by metis
    qed
  next
    case (err e)
    then have "fs_bytes f = ?b" using f_call_outcome by metis
    then show ?thesis using err by (intro exI [of _ 0]) simp
  next
    case panic
    then show ?thesis using f_call_outcome by fastforce
  qed
  then show thesis using that d' by (auto simp: Let_def)
qed

lemma dev_sync_outcome:
  assumes "dev_sync d = (d', r)"
  obtains k1 k2 where "fd_superblock d' = fd_superblock d" "fd_allocator d' = fd_allocator d"
    "fs_bytes (fd_file d') = (let bm = ba_bitmap (fd_allocator d); sb = fd_superblock d in
       pwrite (sb_bitmap_mirror_offset sb) (take k2 bm)
         (pwrite (sb_bitmap_offset sb) (take k1 bm) (fs_bytes (fd_file d))))"
    "is_ok r \<Longrightarrow> length (ba_bitmap (fd_allocator d)) \<le> k1 \<and> length (ba_bitmap (fd_allocator d)) \<le> k2"
  using assms unfolding dev_sync_def
proof (cases rule: bind_st_cases)
  case (ok d1 u)
  obtain f where "f_call (fd_file d1) = (f, r)" and d': "d' = d1\<lparr>fd_file := f\<rparr>"
    using ok(2) by (auto split: prod.splits)
  then have f: "fs_bytes f = fs_bytes (fd_file d1)" using f_call_outcome by metis
  show thesis
    by (rule flush_bitmap_outcome [OF ok(1)]) (rule that, auto simp: d' f)
next
  case (err e)
  show thesis by (rule flush_bitmap_outcome [OF err(1)]) (rule that, auto simp: err)
next
  case panic
  show thesis by (rule flush_bitmap_outcome [OF panic(1)]) (rule that, auto simp: panic)
qed

lemma dev_wf_file:
  assumes "dev_wf d" "fd_superblock d' = fd_superblock d"
    and "ba_total_blocks (fd_allocator d') = ba_total_blocks (fd_allocator d)"
    and "ba_block_size (fd_allocator d') = ba_block_size (fd_allocator d)"
    and "length (ba_bitmap (fd_allocator d')) = length (ba_bitmap (fd_allocator d))"
    and "region_kept 0 SUPERBLOCK_SIZE (fs_bytes (fd_file d)) (fs_bytes (fd_file d'))"
    and "length (fs_bytes (fd_file d)) \<le> length (fs_bytes (fd_file d'))"
  shows "dev_wf d'"
  using assms by (auto simp: dev_wf_def Let_def region_kept_def)

lemma dev_inv_same_file:
  assumes "dev_inv crc (d, L)" "fd_superblock d' = fd_superblock d" "fd_file d' = fd_file d"
    and "sys_inv (fd_allocator d', map fst L')" "\<forall>e data. (e, Some data) \<in> set L' \<longrightarrow> (e, Some data) \<in> set L"
    and "ba_total_blocks (fd_allocator d') = ba_total_blocks (fd_allocator d)"
    and "ba_block_size (fd_allocator d') = ba_block_size (fd_allocator d)"
    and "length (ba_bitmap (fd_allocator d')) = length (ba_bitmap (fd_allocator d))"
  shows "dev_inv crc (d', L')"
proof -
  have "dev_wf d'" by (rule dev_wf_file [of d]) (use assms in \<open>auto simp: dev_inv_def\<close>)
  moreover have "stored crc d' e data" if "stored crc d e data" for e data
    using that assms(2,3) by (simp add: stored_def)
  ultimately show ?thesis using assms by (auto simp: dev_inv_def)
qed

lemma dev_inv_same_alloc:
  assumes "dev_inv crc (d, L)" "fd_superblock d' = fd_superblock d" "fd_allocator d' = fd_allocator d"
    and "map fst L' = map fst L"
    and "region_kept 0 SUPERBLOCK_SIZE (fs_bytes (fd_file d)) (fs_bytes (fd_file d'))"
    and "length (fs_bytes (fd_file d)) \<le> length (fs_bytes (fd_file d'))"
    and "\<And>e data. (e, Some data) \<in> set L' \<Longrightarrow> stored crc d' e data"
  shows "dev_inv crc (d', L')"
proof -
  have "dev_wf d'" by (rule dev_wf_file [of d]) (use assms in \<open>auto simp: dev_inv_def\<close>)
  with assms show ?thesis by (auto simp: dev_inv_def)
qed

lemma dev_inv_alloc:
  assumes inv: "dev_inv crc (d, L)" and al: "dev_alloc d n = (d', r)"
  shows "is_ok r \<Longrightarrow> r = Ok e \<Longrightarrow> dev_inv crc (d', (e, None) # L)"
    and "\<not> is_ok r \<Longrightarrow> dev_inv crc (d', L)"
proof -
  have s: "sys_inv (fd_allocator d, map fst L)" using inv by (simp add: dev_inv_def)
  then have a: "alloc_inv (fd_allocator d)" by (simp add: sys_inv_def)
  show "dev_inv crc (d', L)" if bad: "\<not> is_ok r"
  proof (cases "n + OVERHEAD \<le> u64_max")
    case True
    then obtain a' where a': "ba_alloc (fd_allocator d) (n + OVERHEAD) = (a', r)" "d' = d\<lparr>fd_allocator := a'\<rparr>"
      using al by (auto simp: dev_alloc_def add_u64_def split: prod.splits)
    with ba_alloc_Err [OF a a'(1)] bad inv show ?thesis by (auto simp: is_ok_iff)
  next
    case False
    with al inv show ?thesis by (simp add: dev_alloc_def add_u64_def)
  qed
  assume r: "r = Ok e"
  then obtain a' where a': "ba_alloc (fd_allocator d) (n + OVERHEAD) = (a', Ok e)" "d' = d\<lparr>fd_allocator := a'\<rparr>"
    using al by (auto simp: dev_alloc_def Let_def split: prod.splits)
  from sys_step_inv [OF s step_alloc [OF a'(1)]] have "sys_inv (a', map fst ((e, None) # L))" by simp
  with ba_alloc_Ok(5,6) [OF a a'(1)] ba_alloc_bitmap_length [OF a'(1)] a'(2)
  show "dev_inv crc (d', (e, None) # L)" by (intro dev_inv_same_file [OF inv]) auto
qed

lemma dev_inv_free:
  assumes inv: "dev_inv crc (d, L)" and e: "e \<in> fst ` set L" and fr: "dev_free d e = (d', r)"
  shows "dev_inv crc (d', filter (\<lambda>x. fst x \<noteq> e) L)"
proof -
  have s: "sys_inv (fd_allocator d, map fst L)" using inv by (simp add: dev_inv_def)
  obtain a' where a': "ba_free (fd_allocator d) e = (a', r)" "d' = d\<lparr>fd_allocator := a'\<rparr>"
    using fr by (auto simp: dev_free_def split: prod.splits)
  have "remove1 e (map fst L) = map fst (filter (\<lambda>x. fst x \<noteq> e) L)"
    using held_distinct [OF s]
    by (simp add: distinct_remove1_removeAll removeAll_filter_not_eq filter_map comp_def eq_commute)
  with sys_step_inv [OF s step_free [OF _ a'(1)]] e
  have s': "sys_inv (a', map fst (filter (\<lambda>x. fst x \<noteq> e) L))" by auto
  have "alloc_inv (fd_allocator d)" "ext_ok (fd_allocator d) e"
    "ext_blocks (ba_block_size (fd_allocator d)) e \<subseteq> allocated (fd_allocator d)"
    using s e by (auto simp: sys_inv_def blocks_of_def)
  from ba_free_Ok(4,5) [OF this a'(1)] ba_free_bitmap_length [OF a'(1)] s' a'(2)
  show ?thesis by (intro dev_inv_same_file [OF inv]) auto
qed

lemma dev_inv_write:
  assumes inv: "dev_inv crc (d, L)" and e: "e \<in> fst ` set L" and wr: "dev_write crc d e data = (d', r)"
    and L': "L' = map (\<lambda>(x, c). (x, if x \<noteq> e then c else if is_ok r then Some data
                          else if d' = d then c else None)) L"
  shows "dev_inv crc (d', L')"
proof -
  let ?do = "sb_data_offset (fd_superblock d)"
  have wf: "dev_wf d" and s: "sys_inv (fd_allocator d, map fst L)"
    and st: "\<And>x c. (x, Some c) \<in> set L \<Longrightarrow> stored crc d x c"
    using inv by (auto simp: dev_inv_def)
  note held = held_in_file [OF wf s]
  obtain k where k: "fd_superblock d' = fd_superblock d" "fd_allocator d' = fd_allocator d"
    "fs_bytes (fd_file d') = pwrite (?do + ext_offset e) (take k (frame crc data)) (fs_bytes (fd_file d))"
    "is_ok r \<longrightarrow> length (frame crc data) \<le> k"
    "k = 0 \<or> length (frame crc data) \<le> ext_length e" "k = 0 \<or> length data \<le> u32_max"
    by (rule dev_write_outcome [OF wr held(2) [OF e]]) simp
  have len: "length (take k (frame crc data)) \<le> ext_length e" using k(5) by auto
  have sup: "SUPERBLOCK_SIZE \<le> ?do" using wf by (simp add: dev_wf_def Let_def sb_layout_def)
  have new: "stored crc d' e data" if ok: "is_ok r"
  proof -
    have "take k (frame crc data) = frame crc data" "0 < k"
      using k(4) ok by (simp_all add: OVERHEAD_def HEADER_SIZE_def)
    then show ?thesis
      using k(1,3,5,6) slice_pwrite_same [of "?do + ext_offset e" "frame crc data"]
      by (simp add: stored_def Let_def)
  qed
  have other: "stored crc d' x c" if x: "(x, Some c) \<in> set L" "x \<noteq> e" for x c
  proof -
    have xL: "x \<in> fst ` set L" using x(1) by force
    have "ext_bytes e \<inter> ext_bytes x = {}" using held_disjoint [OF s] e xL x(2) by auto
    moreover have "0 < ext_length x" "0 < ext_length e"
      using held(2) [OF xL] held(2) [OF e] by (auto simp: OVERHEAD_def HEADER_SIZE_def)
    ultimately have "ext_offset x + ext_length x \<le> ext_offset e \<or> ext_offset e + ext_length e \<le> ext_offset x"
      unfolding ext_bytes_def ivl_disjoint_nat by linarith
    with len have "region_kept (?do + ext_offset x) (?do + ext_offset x + ext_length x)
        (fs_bytes (fd_file d)) (fs_bytes (fd_file d'))"
      unfolding k(3) by (intro region_kept_pwrite) auto
    from stored_kept [OF st [OF x(1)] k(1) this refl held(1) [OF xL]] show ?thesis .
  qed
  show ?thesis
  proof (rule dev_inv_same_alloc [OF inv k(1,2)])
    show "map fst L' = map fst L" by (auto simp: L' comp_def split: prod.splits)
    show "region_kept 0 SUPERBLOCK_SIZE (fs_bytes (fd_file d)) (fs_bytes (fd_file d'))"
      unfolding k(3) using sup by (intro region_kept_pwrite) auto
    show "length (fs_bytes (fd_file d)) \<le> length (fs_bytes (fd_file d'))" by (simp add: k(3) length_pwrite)
    fix x c assume "(x, Some c) \<in> set L'"
    then show "stored crc d' x c" using new other st by (auto simp: L' split: if_splits)
  qed
qed

lemma dev_read_outcome:
  "dev_read crc d e = (d', r) \<Longrightarrow> fd_superblock d' = fd_superblock d \<and> fd_allocator d' = fd_allocator d \<and>
     fs_bytes (fd_file d') = fs_bytes (fd_file d)"
  unfolding dev_read_def
proof (erule bind_st_cases, goal_cases)
  case (1 d1 abs)
  then show ?case
    by (auto simp: Let_def split: prod.splits if_splits
        elim!: bind_st_cases dest!: f_call_outcome f_read_exact_outcome)
qed auto

lemma dev_inv_sync:
  assumes inv: "dev_inv crc (d, L)" and sy: "dev_sync d = (d', r)"
  shows "dev_inv crc (d', L)"
    and "is_ok r \<Longrightarrow> subslice (sb_bitmap_offset (fd_superblock d))
       (sb_bitmap_offset (fd_superblock d) + length (ba_bitmap (fd_allocator d))) (fs_bytes (fd_file d')) =
       ba_bitmap (fd_allocator d)"
    and "is_ok r \<Longrightarrow> sb_bitmap_mirror_offset (fd_superblock d) + length (ba_bitmap (fd_allocator d))
       \<le> length (fs_bytes (fd_file d')) \<or> ba_bitmap (fd_allocator d) = []"
    and "fd_superblock d' = fd_superblock d" "fd_allocator d' = fd_allocator d"
proof -
  let ?sb = "fd_superblock d" and ?bm = "ba_bitmap (fd_allocator d)" and ?f = "fs_bytes (fd_file d)"
  obtain k1 k2 where k: "fd_superblock d' = ?sb" "fd_allocator d' = fd_allocator d"
    "fs_bytes (fd_file d') = pwrite (sb_bitmap_mirror_offset ?sb) (take k2 ?bm)
         (pwrite (sb_bitmap_offset ?sb) (take k1 ?bm) ?f)"
    "is_ok r \<Longrightarrow> length ?bm \<le> k1 \<and> length ?bm \<le> k2"
    by (rule dev_sync_outcome [OF sy]) (simp add: Let_def)
  show "fd_superblock d' = fd_superblock d" "fd_allocator d' = fd_allocator d" by (fact k)+
  have wf: "dev_wf d" and s: "sys_inv (fd_allocator d, map fst L)"
    and st: "\<And>x c. (x, Some c) \<in> set L \<Longrightarrow> stored crc d x c"
    using inv by (auto simp: dev_inv_def)
  have lay: "sb_bitmap_offset ?sb = SUPERBLOCK_SIZE"
    "sb_bitmap_offset ?sb + length ?bm \<le> sb_bitmap_mirror_offset ?sb"
    "sb_bitmap_mirror_offset ?sb + length ?bm \<le> sb_data_offset ?sb"
    using wf by (simp_all add: dev_wf_def Let_def sb_layout_def)
  have kept: "region_kept lo hi ?f (fs_bytes (fd_file d'))"
    if "hi \<le> SUPERBLOCK_SIZE \<or> sb_data_offset ?sb \<le> lo" for lo hi
    unfolding k(3) by (rule region_kept_trans; rule region_kept_pwrite) (use that lay in auto)
  show "dev_inv crc (d', L)"
  proof (rule dev_inv_same_alloc [OF inv k(1,2) refl kept])
    show "length ?f \<le> length (fs_bytes (fd_file d'))"
      unfolding k(3) by (rule le_trans; rule length_pwrite_ge)
    fix x c assume x: "(x, Some c) \<in> set L"
    then have xL: "x \<in> fst ` set L" by force
    show "stored crc d' x c"
      by (rule stored_kept [OF st [OF x] k(1) kept refl held_in_file(1) [OF wf s xL]]) simp
  qed simp
  assume ok: "is_ok r"
  then have full: "take k1 ?bm = ?bm" "take k2 ?bm = ?bm" using k(4) by auto
  show "subslice (sb_bitmap_offset ?sb) (sb_bitmap_offset ?sb + length ?bm) (fs_bytes (fd_file d')) = ?bm"
  proof -
    let ?g = "pwrite (sb_bitmap_offset ?sb) ?bm ?f"
    have "sb_bitmap_offset ?sb + length ?bm \<le> length ?g"
      using lay(1) wf by (auto simp: length_pwrite dev_wf_def Let_def)
    then have "subslice (sb_bitmap_offset ?sb) (sb_bitmap_offset ?sb + length ?bm)
        (pwrite (sb_bitmap_mirror_offset ?sb) ?bm ?g) = subslice (sb_bitmap_offset ?sb) (sb_bitmap_offset ?sb + length ?bm) ?g"
      using lay(2) by (intro slice_pwrite_other) auto
    also have "\<dots> = ?bm" by (rule slice_pwrite_same)
    finally show ?thesis unfolding k(3) full .
  qed
  show "sb_bitmap_mirror_offset ?sb + length ?bm \<le> length (fs_bytes (fd_file d')) \<or> ?bm = []"
    unfolding k(3) full by (auto simp: length_pwrite)
qed

lemma sb_layout_valid: "sb_layout sb \<Longrightarrow> 0 < sb_total_blocks sb \<Longrightarrow> sb_valid sb"
proof -
  assume l: "sb_layout sb" and t: "0 < sb_total_blocks sb"
  have "0 < div_ceil (sb_total_blocks sb) 8" using t by simp
  then have "sb_bitmap_offset sb < sb_bitmap_mirror_offset sb" "sb_bitmap_mirror_offset sb < sb_data_offset sb"
    using l unfolding sb_layout_def by linarith+
  moreover have "is_power_of_two 4096"
    unfolding is_power_of_two_def by (intro bexI [of _ 12]) simp_all
  ultimately show "sb_valid sb"
    using l t by (simp add: sb_layout_def sb_valid_def file_backed_block_size_def)
qed

text \<open>Reopening a synced file gives back the superblock and the allocator.\<close>

lemma reopen_synced:
  assumes inv: "dev_inv crc (d, L)" and sy: "dev_sync d = (d1, Ok ())"
    and op: "dev_open (Some ((fd_file d1)\<lparr>fs_fault := fault\<rparr>)) = Ok d'"
  shows "fd_superblock d' = fd_superblock d" "fd_allocator d' = fd_allocator d"
    "fs_bytes (fd_file d') = fs_bytes (fd_file d1)"
proof -
  note s = dev_inv_sync [OF inv sy]
  note o' = dev_open_Ok [OF op]
  have wf: "dev_wf d1" "dev_wf d" using s(1) inv by (auto simp: dev_inv_def)
  then have ty: "sb_typed (fd_superblock d1)"
    and sup: "subslice 0 4096 (fs_bytes (fd_file d1)) = sb_to_bytes (fd_superblock d1)"
    by (auto simp: dev_wf_def Let_def sb_layout_def SUPERBLOCK_SIZE_def)
  from sb_roundtrip [OF ty] o'(1) sup have "fd_superblock d' = fd_superblock d1"
    by (cases "sb_valid (fd_superblock d1)") auto
  then show sb: "fd_superblock d' = fd_superblock d" using s(4) by simp
  have "alloc_inv (fd_allocator d)" using inv by (simp add: dev_inv_def sys_inv_def)
  from from_bitmap_inv [OF this]
  have fb: "from_bitmap (ba_bitmap (fd_allocator d)) (ba_total_blocks (fd_allocator d))
      (ba_block_size (fd_allocator d)) = (Ok (fd_allocator d) :: (BlockError, _) res)" .
  have "ba_total_blocks (fd_allocator d) = sb_total_blocks (fd_superblock d)"
    "ba_block_size (fd_allocator d) = sb_block_size (fd_superblock d)"
    "length (ba_bitmap (fd_allocator d)) = div_ceil (sb_total_blocks (fd_superblock d)) 8"
    using wf(2) by (auto simp: dev_wf_def Let_def)
  with o'(2) s(2) fb show "fd_allocator d' = fd_allocator d" by (simp add: sb)
  show "fs_bytes (fd_file d') = fs_bytes (fd_file d1)" using o'(3) by simp
qed

lemma dev_step_inv:
  assumes "dev_inv crc s" "dev_step crc s t"
  shows "dev_inv crc t"
  using assms(2)
proof cases
  case (dstep_alloc d n d' e L)
  with dev_inv_alloc(1) [of crc d L n d' "Ok e" e] assms(1) show ?thesis by simp
next
  case (dstep_refuse d n d' r L)
  with dev_inv_alloc(2) [of crc d L n d' r] assms(1) show ?thesis by simp
next
  case (dstep_write e L d data d' r L')
  with dev_inv_write [of crc d L e data d' r L'] assms(1) show ?thesis by simp
next
  case (dstep_read d e d' r L)
  with dev_read_outcome [of crc d e d' r] assms(1) show ?thesis
    using dev_inv_same_alloc [of crc d L d' L] by (auto simp: dev_inv_def stored_def)
next
  case (dstep_free e L d d' r)
  with dev_inv_free [of crc d L e d' r] assms(1) show ?thesis by simp
next
  case (dstep_sync d d' r L)
  with dev_inv_sync(1) [of crc d L d' r] assms(1) show ?thesis by simp
next
  case (dstep_reopen d d1 fault d' L)
  have inv: "dev_inv crc (d, L)" using dstep_reopen assms(1) by simp
  note r = reopen_synced [OF inv dstep_reopen(3,4)] and s = dev_inv_sync [OF inv dstep_reopen(3)]
  have "dev_inv crc (d', L)"
    by (rule dev_inv_same_alloc [OF s(1)]) (use r s in \<open>auto simp: dev_inv_def stored_def\<close>)
  then show ?thesis using dstep_reopen by simp
qed

lemma sb_new_ok:
  assumes new: "sb_new uuid n file_backed_block_size = (Ok sb :: ('e, Superblock) res)"
    and "length uuid = 16" "n \<le> u64_max"
  shows "sb_layout sb"
proof -
  note l = sb_new_layout [OF new] and r = sb_new_regions [OF new]
  have bs: "sb_block_size sb = 4096" using l(4) by (simp add: file_backed_block_size_def)
  have "sb_total_blocks sb * 1 \<le> sb_total_blocks sb * file_backed_block_size"
    using l(10) by (intro mult_le_mono2) simp
  with r(3) assms(3) have t: "sb_total_blocks sb \<le> u64_max" by linarith
  have "sb_bitmap_blocks sb * 1 \<le> sb_bitmap_blocks sb * file_backed_block_size"
    using l(10) by (intro mult_le_mono2) simp
  with l(5,7,8,9) have "sb_bitmap_blocks sb \<le> u64_max" "sb_bitmap_mirror_offset sb \<le> u64_max"
    "SUPERBLOCK_SIZE \<le> u64_max" by linarith+
  with l t assms(2) bs have "sb_typed sb"
    by (simp add: sb_typed_def MAGIC_def FORMAT_VERSION_def u32_max_val)
  moreover have "sb_data_offset sb + sb_total_blocks sb * sb_block_size sb \<le> u64_max"
  proof (cases "sb_total_blocks sb = 0")
    case False
    with r(2) assms(3) l(4) show ?thesis by (metis gr0I le_trans)
  qed (use l(9) in simp)
  ultimately show ?thesis using l r(1) by (simp add: sb_layout_def)
qed

lemma dev_start_inv: "dev_start s \<Longrightarrow> dev_inv crc s"
proof -
  assume "dev_start s"
  then obtain d uuid existing fault n f where s: "s = (d, [])" "length uuid = 16" "n \<le> u64_max"
    and ini: "dev_init uuid existing fault n = (f, Ok d)"
    by (cases s) (auto simp: dev_start_def)
  let ?sb = "fd_superblock d" and ?a = "fd_allocator d" and ?f = "fs_bytes (fd_file d)"
  note i = dev_init_Ok [OF ini]
  have lay: "sb_layout ?sb" by (rule sb_new_ok [OF i(1) s(2,3)])
  have bs: "sb_block_size ?sb = file_backed_block_size" using lay by (simp add: sb_layout_def)
  have tb: "sb_total_blocks ?sb * sb_block_size ?sb \<le> u64_max"
    using sb_new_regions(3) [OF i(1)] s(3) unfolding bs by linarith
  note al = ba_new_inv [OF i(2) tb]
  note a = ba_new_fields [OF i(2)]
  let ?z = "replicate (div_ceil (sb_total_blocks ?sb) 8) 0 :: bytes"
  let ?g = "pwrite 0 (sb_to_bytes ?sb) (replicate n 0)"
  have f: "?f = pwrite (sb_bitmap_mirror_offset ?sb) ?z (pwrite (sb_bitmap_offset ?sb) ?z ?g)"
    using i(3) by (simp add: Let_def)
  have len: "length (sb_to_bytes ?sb) = SUPERBLOCK_SIZE"
    using lay length_sb_to_bytes by (simp add: sb_layout_def)
  have off: "SUPERBLOCK_SIZE \<le> sb_bitmap_offset ?sb" "SUPERBLOCK_SIZE \<le> sb_bitmap_mirror_offset ?sb"
    using lay by (simp_all add: sb_layout_def)
  have "sb_to_bytes ?sb \<noteq> []" using len by (auto simp: SUPERBLOCK_SIZE_def)
  then have g: "length ?g = max n SUPERBLOCK_SIZE" by (simp add: length_pwrite len)
  have "region_kept 0 SUPERBLOCK_SIZE ?g ?f"
    unfolding f by (rule region_kept_trans; rule region_kept_pwrite) (use off in auto)
  moreover have "subslice 0 SUPERBLOCK_SIZE ?g = sb_to_bytes ?sb"
    using slice_pwrite_same [of 0 "sb_to_bytes ?sb"] len by simp
  ultimately have sup: "SUPERBLOCK_SIZE \<le> length ?f" "subslice 0 SUPERBLOCK_SIZE ?f = sb_to_bytes ?sb"
    using g by (auto simp: region_kept_def)
  have "n \<le> length ?f"
    unfolding f using g length_pwrite_ge le_trans max.cobounded1 by metis
  then have "0 < sb_total_blocks ?sb \<longrightarrow> sb_data_offset ?sb + sb_total_blocks ?sb * sb_block_size ?sb \<le> length ?f"
    using sb_new_regions(2) [OF i(1)] bs by auto
  with lay a sup have "dev_wf d" by (simp add: dev_wf_def Let_def)
  with al show ?thesis
    by (simp add: s(1) dev_inv_def sys_inv_def blocks_disjoint_def blocks_of_def)
qed

interpretation device: invariant_system dev_start "dev_step crc" "dev_inv crc" for crc
  by unfold_locales (fact dev_start_inv, fact dev_step_inv)

lemma reach_dev:
  assumes "reach dev_start (dev_step crc) (d, L)"
  shows "dev_inv crc (d, L)" "dev_wf d" "sys_inv (fd_allocator d, map fst L)"
    and "(e, Some data) \<in> set L \<Longrightarrow> stored crc d e data"
  using device.reach_inv [OF assms] by (auto simp: dev_inv_def)

section \<open>Properties\<close>

text \<open>The device the witnesses use: 16384 bytes, one data block, initialised and allocated.\<close>

definition demo_dev :: "FileBackedDevice \<Rightarrow> bool" where
  "demo_dev d \<longleftrightarrow> (\<exists>f. dev_init (replicate 16 0) None None 16384 = (f, Ok d))"

lemma demo_dev_init:
  "\<exists>d. demo_dev d \<and> fs_fault (fd_file d) = None \<and>
     fd_allocator d = \<lparr>ba_total_blocks = 1, ba_block_size = 4096, ba_bitmap = [0],
       ba_free_list = [(0, 1)], ba_max_extent_blocks = 4097\<rparr> \<and>
     sb_data_offset (fd_superblock d) = 12288 \<and> sb_total_blocks (fd_superblock d) = 1"
  by (simp add: demo_dev_def dev_init_def Let_def sb_new_def file_backed_block_size_def SUPERBLOCK_SIZE_def
      div_ceil_def mul_u64_def add_u64_def u64_max_val faultless ba_new_def rebuild_free_list_def
      ba_get_bit_iff MAX_EXTENT_BYTES_def)

lemma demo_dev_reach:
  "\<exists>d. reach dev_start (dev_step crc) (d, [(extent_new 0 4096, Some [1, 2, 3])]) \<and>
     fs_fault (fd_file d) = None \<and> sb_total_blocks (fd_superblock d) = 1"
proof -
  obtain d0 where d0: "demo_dev d0" "fs_fault (fd_file d0) = None"
    "fd_allocator d0 = \<lparr>ba_total_blocks = 1, ba_block_size = 4096, ba_bitmap = [0],
       ba_free_list = [(0, 1)], ba_max_extent_blocks = 4097\<rparr>"
    "sb_data_offset (fd_superblock d0) = 12288" "sb_total_blocks (fd_superblock d0) = 1"
    using demo_dev_init by blast
  have "dev_start (d0, [])"
    using d0(1) unfolding dev_start_def demo_dev_def
    by (auto simp: u64_max_val intro!: exI [of _ "replicate 16 0"] exI [of _ None] exI [of _ 16384])
  then have r0: "reach dev_start (dev_step crc) (d0, [])" by (rule reach_init)
  let ?e = "extent_new 0 4096"
  obtain d1 where al: "dev_alloc d0 100 = (d1, Ok ?e)" and d1: "fd_file d1 = fd_file d0"
    "fd_superblock d1 = fd_superblock d0"
    by (simp add: dev_alloc_def add_u64_def OVERHEAD_def HEADER_SIZE_def CRC_SIZE_def u64_max_val d0
        ba_alloc_def div_ceil_def best_fit_def mul_u64_def)
  have r1: "reach dev_start (dev_step crc) (d1, [(?e, None)])"
    by (rule reach_step [OF r0 dstep_alloc [OF al]])
  obtain d2 where wr: "dev_write crc d1 ?e [1, 2, 3] = (d2, Ok ())"
    and d2: "fs_fault (fd_file d2) = None" "fd_superblock d2 = fd_superblock d0"
    by (simp add: dev_write_def add_u64_def OVERHEAD_def HEADER_SIZE_def CRC_SIZE_def u64_max_val
        u32_max_val d0 d1 extent_new_def faultless)
  have "reach dev_start (dev_step crc) (d2, [(?e, Some [1, 2, 3])])"
    by (rule reach_step [OF r1 dstep_write [OF _ wr]]) simp_all
  with d2 d0(5) show ?thesis by auto
qed



lemma open_synced:
  assumes inv: "dev_inv crc (d, L)" and t: "0 < sb_total_blocks (fd_superblock d)"
    and sy: "dev_sync d = (d1, Ok ())"
  shows "\<exists>d'. dev_open (Some ((fd_file d1)\<lparr>fs_fault := None\<rparr>)) = Ok d' \<and> fs_fault (fd_file d') = None"
proof -
  note s = dev_inv_sync [OF inv sy]
  have wf: "dev_wf d1" "dev_wf d" using s(1) inv by (auto simp: dev_inv_def)
  let ?f = "fs_bytes (fd_file d1)" and ?sb = "fd_superblock d"
  have lay: "sb_layout ?sb" and len: "length (ba_bitmap (fd_allocator d)) = div_ceil (sb_total_blocks ?sb) 8"
    using wf(2) by (auto simp: dev_wf_def Let_def)
  have sup: "4096 \<le> length ?f" "subslice 0 4096 ?f = sb_to_bytes ?sb"
    using wf(1) s(4) by (auto simp: dev_wf_def Let_def SUPERBLOCK_SIZE_def)
  have parsed: "sb_from_bytes (sb_to_bytes ?sb) = Ok ?sb"
    using sb_roundtrip(1) sb_layout_valid [OF lay t] lay by (simp add: sb_layout_def)
  have "ba_bitmap (fd_allocator d) \<noteq> []" using len t div_ceil_pos [of 8 "sb_total_blocks ?sb"] by auto
  then have m: "sb_bitmap_mirror_offset ?sb + div_ceil (sb_total_blocks ?sb) 8 \<le> length ?f"
    using s(3) len by simp
  moreover from this have "sb_bitmap_offset ?sb + div_ceil (sb_total_blocks ?sb) 8 \<le> length ?f"
    using lay unfolding sb_layout_def by linarith
  moreover have "0 < sb_block_size ?sb" using lay by (simp add: sb_layout_def file_backed_block_size_def)
  ultimately show ?thesis using sup parsed
    by (simp add: dev_open_def faultless Let_def from_bitmap_def)
qed

text \<open>A synced device survives a restart (I-C8). From every reachable state with at least one
  data block, when a sync succeeds, opening the resulting file succeeds and gives a device with the
  same superblock and the same allocator, on which every held extent whose last write succeeded
  reads back its data.\<close>

lemma dev_reopen:
  assumes "reach dev_start (dev_step crc) (d, L)" and "0 < sb_total_blocks (fd_superblock d)"
    and "dev_sync d = (d1, Ok ())"
  shows "\<exists>d'. dev_open (Some ((fd_file d1)\<lparr>fs_fault := None\<rparr>)) = Ok d' \<and>
    fd_superblock d' = fd_superblock d \<and> fd_allocator d' = fd_allocator d \<and>
    (\<forall>e data. (e, Some data) \<in> set L \<longrightarrow> dev_read crc d' e = (d', Ok data))"
proof -
  note i = reach_dev [OF assms(1)]
  obtain d' where op: "dev_open (Some ((fd_file d1)\<lparr>fs_fault := None\<rparr>)) = Ok d'" "fs_fault (fd_file d') = None"
    using open_synced [OF i(1) assms(2,3)] by blast
  note r = reopen_synced [OF i(1) assms(3) op(1)]
  have "dev_step crc (d, L) (d', L)" by (rule dstep_reopen [OF assms(3) op(1)])
  then have inv': "dev_inv crc (d', L)" using dev_step_inv [OF i(1)] by blast
  have "dev_read crc d' e = (d', Ok data)" if m: "(e, Some data) \<in> set L" for e data
  proof -
    have "e \<in> fst ` set L" using m by force
    from held_in_file(3) [OF _ _ this] inv' m show ?thesis
      by (intro dev_read_frame [OF op(2) refl]) (auto simp: dev_inv_def stored_def Let_def)
  qed
  with op(1) r show ?thesis by blast
qed

lemma dev_reopen_example:
  "\<exists>d d1 d'. reach dev_start (dev_step (\<lambda>_. 7)) (d, [(extent_new 0 4096, Some [1, 2, 3])]) \<and>
     dev_sync d = (d1, Ok ()) \<and> dev_open (Some ((fd_file d1)\<lparr>fs_fault := None\<rparr>)) = Ok d' \<and>
     dev_read (\<lambda>_. 7) d' (extent_new 0 4096) = (d', Ok [1, 2, 3])"
proof -
  obtain d where d: "reach dev_start (dev_step (\<lambda>_. 7)) (d, [(extent_new 0 4096, Some [1, 2, 3])])"
    "fs_fault (fd_file d) = None" "sb_total_blocks (fd_superblock d) = 1"
    using demo_dev_reach [of "\<lambda>_. 7"] by blast
  obtain d1 where sy: "dev_sync d = (d1, Ok ())"
    using d(2) by (simp add: dev_sync_def flush_bitmap_def faultless Let_def)
  from dev_reopen [OF d(1) _ sy] d(1,3) sy show ?thesis by fastforce
qed

text \<open>The superblock round trip is exact. Serialising any superblock whose fields fit their
  on-disk widths and parsing the result gives the same superblock exactly when it satisfies the
  validity conditions (magic, version, power-of-two block size, ordered regions, non-empty data
  region), and an error otherwise.\<close>

lemma superblock_roundtrip:
  assumes "sb_typed sb"
  shows "if sb_valid sb then sb_from_bytes (sb_to_bytes sb) = Ok sb
         else \<exists>e. sb_from_bytes (sb_to_bytes sb) = Err e"
  using sb_roundtrip [OF assms] by simp

lemma superblock_roundtrip_example:
  "sb_from_bytes (sb_to_bytes \<lparr>sb_magic = MAGIC, sb_version = 1, sb_device_id = replicate 16 9,
     sb_block_size = 4096, sb_total_blocks = 5, sb_bitmap_offset = 4096,
     sb_bitmap_mirror_offset = 8192, sb_bitmap_blocks = 1, sb_data_offset = 12288, sb_generation = 3\<rparr>) =
   Ok \<lparr>sb_magic = MAGIC, sb_version = 1, sb_device_id = replicate 16 9,
     sb_block_size = 4096, sb_total_blocks = 5, sb_bitmap_offset = 4096,
     sb_bitmap_mirror_offset = 8192, sb_bitmap_blocks = 1, sb_data_offset = 12288, sb_generation = 3\<rparr>"
  (is "sb_from_bytes (sb_to_bytes ?sb) = _")
proof -
  have "is_power_of_two 4096" unfolding is_power_of_two_def by (intro bexI [of _ 12]) simp_all
  then have "sb_valid ?sb" by (simp add: sb_valid_def FORMAT_VERSION_def SUPERBLOCK_SIZE_def)
  moreover have "sb_typed ?sb" by (simp add: sb_typed_def MAGIC_def u32_max_val u64_max_val)
  ultimately show ?thesis using superblock_roundtrip [of ?sb] by simp
qed

text \<open>The on-disk regions never overlap. For every block size and device size a superblock can
  be computed without overflow; the superblock, the two bitmap copies (each large enough for one
  bit per data block) and the data region follow one another, and a non-empty data region ends
  inside the device.\<close>

lemma superblock_layout:
  assumes "0 < bs" "bs \<le> u32_max" "n \<le> u64_max"
  shows "\<exists>sb. sb_new uuid n bs = (Ok sb :: (BlockError, Superblock) res) \<and>
    SUPERBLOCK_SIZE \<le> sb_bitmap_offset sb \<and>
    sb_bitmap_offset sb + div_ceil (sb_total_blocks sb) 8 \<le> sb_bitmap_mirror_offset sb \<and>
    sb_bitmap_mirror_offset sb + div_ceil (sb_total_blocks sb) 8 \<le> sb_data_offset sb \<and>
    (0 < sb_total_blocks sb \<longrightarrow> sb_data_offset sb + sb_total_blocks sb * bs \<le> n)"
proof -
  obtain sb where new: "sb_new uuid n bs = (Ok sb :: (BlockError, Superblock) res)"
    using sb_new_total [OF assms] by metis
  note l = sb_new_layout [OF new] and r = sb_new_regions [OF new]
  show ?thesis using new l(5,7,8) r by (intro exI [of _ sb]) auto
qed

lemma superblock_layout_example:
  "\<exists>sb. sb_new (replicate 16 0) 1000000 4096 = (Ok sb :: (BlockError, Superblock) res) \<and>
    (0 < sb_total_blocks sb \<longrightarrow> sb_data_offset sb + sb_total_blocks sb * 4096 \<le> 1000000)"
  using superblock_layout [of 4096 1000000 "replicate 16 0"] by (auto simp: u32_max_val u64_max_val)

end
