(* ===== verification/Block_Pool.thy ===== *)
theory Block_Pool
  imports Block_Device "HOL-Library.Product_Lexorder"
begin

text \<open>
  The uniform device interface (\<^verbatim>\<open>backend.rs\<close>), the pool that spans several devices
  (\<^verbatim>\<open>pool.rs\<close>), the TRIM queue (\<^verbatim>\<open>trim.rs\<close>) and the intent journal (\<^verbatim>\<open>journal.rs\<close>) of
  \<^verbatim>\<open>crates/kiseki-block/src\<close>. The trait is a record of operations over an arbitrary member state;
  the locale \<open>device_backend\<close> states what a client may rely on. The file-backed device satisfies
  it, and a pool of backends that satisfy it satisfies it again, in its global address space.
\<close>

section \<open>The backend interface\<close>

datatype DetectedMedium = NvmeSsd | SataSsd | Hdd | Virtual | Unknown

datatype StorageTier = Fast | Bulk | Cold

fun tier_rank :: "StorageTier \<Rightarrow> nat" where
  "tier_rank Fast = 0"
| "tier_rank Bulk = 1"
| "tier_rank Cold = 2"

lemma tier_rank_inj: "tier_rank s = tier_rank t \<longleftrightarrow> s = t"
  by (cases s; cases t) simp_all

instantiation StorageTier :: linorder
begin

definition less_eq_StorageTier :: "StorageTier \<Rightarrow> StorageTier \<Rightarrow> bool" where
  "less_eq_StorageTier s t \<longleftrightarrow> tier_rank s \<le> tier_rank t"

definition less_StorageTier :: "StorageTier \<Rightarrow> StorageTier \<Rightarrow> bool" where
  "less_StorageTier s t \<longleftrightarrow> tier_rank s < tier_rank t"

instance
  by standard (auto simp: less_eq_StorageTier_def less_StorageTier_def tier_rank_inj)

end

fun tier_of :: "DetectedMedium \<Rightarrow> StorageTier" where
  "tier_of NvmeSsd = Fast"
| "tier_of SataSsd = Bulk"
| "tier_of Virtual = Bulk"
| "tier_of Unknown = Bulk"
| "tier_of Hdd = Cold"

record 's DeviceBackend =
  be_alloc :: "'s \<Rightarrow> nat \<Rightarrow> 's \<times> (AllocError, Extent) res"
  be_write :: "'s \<Rightarrow> Extent \<Rightarrow> bytes \<Rightarrow> 's \<times> (BlockError, unit) res"
  be_read :: "'s \<Rightarrow> Extent \<Rightarrow> 's \<times> (BlockError, bytes) res"
  be_free :: "'s \<Rightarrow> Extent \<Rightarrow> 's \<times> (AllocError, unit) res"
  be_sync :: "'s \<Rightarrow> 's \<times> (BlockError, unit) res"
  be_capacity :: "'s \<Rightarrow> nat \<times> nat"
  be_medium :: "'s \<Rightarrow> DetectedMedium"
  be_device_id :: "'s \<Rightarrow> bytes"
  be_bitmap_bytes :: "'s \<Rightarrow> bytes"

record DeviceUsage =
  du_device_id :: bytes
  du_medium :: DetectedMedium
  du_used_bytes :: nat
  du_total_bytes :: nat

definition device_breakdown :: "'s DeviceBackend \<Rightarrow> 's \<Rightarrow> DeviceUsage list" where
  "device_breakdown ops s =
     (let (used, tot) = be_capacity ops s in
      [\<lparr>du_device_id = be_device_id ops s, du_medium = be_medium ops s,
        du_used_bytes = used, du_total_bytes = tot\<rparr>])"

definition file_backend :: "(bytes \<Rightarrow> u32) \<Rightarrow> FileBackedDevice DeviceBackend" where
  "file_backend crc32c =
     \<lparr>be_alloc = dev_alloc, be_write = dev_write crc32c, be_read = dev_read crc32c,
      be_free = dev_free, be_sync = dev_sync,
      be_capacity = (\<lambda>d. case dev_capacity d of Ok c \<Rightarrow> c | _ \<Rightarrow> (0, 0)),
      be_medium = (\<lambda>d. Virtual), be_device_id = (\<lambda>d. sb_device_id (fd_superblock d)),
      be_bitmap_bytes = dev_bitmap_bytes\<rparr>"

section \<open>The pool\<close>

record 's DevicePool =
  dp_members :: "'s list"
  dp_bases :: "nat list"
  dp_tiers :: "StorageTier list"
  dp_total_bytes :: nat
  dp_device_id :: bytes
  dp_medium :: DetectedMedium

definition saturating_add :: "nat \<Rightarrow> nat \<Rightarrow> nat" where
  "saturating_add a b = min (a + b) u64_max"

fun pool_bases :: "'s DeviceBackend \<Rightarrow> 's list \<Rightarrow> nat \<Rightarrow> nat list \<times> StorageTier list \<times> nat" where
  "pool_bases ops [] acc = ([], [], acc)"
| "pool_bases ops (m # ms) acc =
     (let (bases, tiers, tot) = pool_bases ops ms (saturating_add acc (snd (be_capacity ops m))) in
      (acc # bases, tier_of (be_medium ops m) # tiers, tot))"

definition pool_new :: "'s DeviceBackend \<Rightarrow> 's list \<Rightarrow> (BlockError, 's DevicePool) res" where
  "pool_new ops members =
     (if members = [] then Err NotInitialized
      else let (bases, tiers, acc) = pool_bases ops members 0 in
        Ok \<lparr>dp_members = members, dp_bases = bases, dp_tiers = tiers, dp_total_bytes = acc,
            dp_device_id = be_device_id ops (hd members), dp_medium = be_medium ops (hd members)\<rparr>)"

definition pool_len :: "'s DevicePool \<Rightarrow> nat" where
  "pool_len p = length (dp_members p)"

definition pool_is_empty :: "'s DevicePool \<Rightarrow> bool" where
  "pool_is_empty p \<longleftrightarrow> dp_members p = []"

definition member_free :: "'s DeviceBackend \<Rightarrow> 's DevicePool \<Rightarrow> nat \<Rightarrow> nat" where
  "member_free ops p i = (let (used, tot) = be_capacity ops (dp_members p ! i) in tot - used)"

fun try_alloc_ordered :: "'s DeviceBackend \<Rightarrow> 's DevicePool \<Rightarrow> nat \<Rightarrow> nat list \<Rightarrow> AllocError \<Rightarrow>
    's DevicePool \<times> (AllocError, Extent) res" where
  "try_alloc_ordered ops p req [] last_err = (p, Err last_err)"
| "try_alloc_ordered ops p req (i # order) last_err =
     (if i < length (dp_members p) then
        let (m, r) = be_alloc ops (dp_members p ! i) req;
            p = p\<lparr>dp_members := (dp_members p)[i := m]\<rparr> in
        case r of
          Ok loc \<Rightarrow> (p, bind_res (add_u64 (dp_bases p ! i) (ext_offset loc))
                         (\<lambda>off. Ok (extent_new off (ext_length loc))))
        | Err e \<Rightarrow> try_alloc_ordered ops p req order e
        | Panic \<Rightarrow> (p, Panic)
      else (p, Panic))"

fun route_scan :: "nat list \<Rightarrow> nat \<Rightarrow> nat \<Rightarrow> nat \<Rightarrow> nat" where
  "route_scan [] i global_offset idx = idx"
| "route_scan (base # bases) i global_offset idx =
     (if base \<le> global_offset then route_scan bases (i + 1) global_offset i else idx)"

text \<open>\<open>None\<close> is a panic (index out of range or subtraction underflow).\<close>

definition route :: "'s DevicePool \<Rightarrow> nat \<Rightarrow> (nat \<times> nat) option" where
  "route p global_offset =
     (let idx = route_scan (dp_bases p) 0 global_offset 0 in
      if idx < length (dp_bases p) \<and> dp_bases p ! idx \<le> global_offset
      then Some (idx, global_offset - dp_bases p ! idx)
      else None)"

definition pool_alloc :: "'s DeviceBackend \<Rightarrow> 's DevicePool \<Rightarrow> nat \<Rightarrow>
    's DevicePool \<times> (AllocError, Extent) res" where
  "pool_alloc ops p req =
     (let order = sort_key (\<lambda>i. (dp_tiers p ! i, - int (member_free ops p i))) [0..<length (dp_members p)]
      in try_alloc_ordered ops p req order (DeviceFull req 0))"

definition pool_alloc_in_tier :: "'s DeviceBackend \<Rightarrow> 's DevicePool \<Rightarrow> nat \<Rightarrow> StorageTier option \<Rightarrow>
    's DevicePool \<times> (AllocError, Extent) res" where
  "pool_alloc_in_tier ops p req tier =
     (case tier of
        None \<Rightarrow> pool_alloc ops p req
      | Some want \<Rightarrow>
          (let order = sort_key (\<lambda>i. (dp_tiers p ! i \<noteq> want, dp_tiers p ! i, - int (member_free ops p i)))
                 [0..<length (dp_members p)]
           in try_alloc_ordered ops p req order (DeviceFull req 0)))"

definition on_member :: "'s DevicePool \<Rightarrow> Extent \<Rightarrow> ('s \<Rightarrow> Extent \<Rightarrow> 's \<times> ('e, 'a) res) \<Rightarrow>
    's DevicePool \<times> ('e, 'a) res" where
  "on_member p extent f =
     (case route p (ext_offset extent) of
        Some (i, loc) \<Rightarrow>
          if i < length (dp_members p) then
            let (m, r) = f (dp_members p ! i) (extent_new loc (ext_length extent)) in
            (p\<lparr>dp_members := (dp_members p)[i := m]\<rparr>, r)
          else (p, Panic)
      | None \<Rightarrow> (p, Panic))"

definition pool_write :: "'s DeviceBackend \<Rightarrow> 's DevicePool \<Rightarrow> Extent \<Rightarrow> bytes \<Rightarrow>
    's DevicePool \<times> (BlockError, unit) res" where
  "pool_write ops p extent data = on_member p extent (\<lambda>m e. be_write ops m e data)"

definition pool_read :: "'s DeviceBackend \<Rightarrow> 's DevicePool \<Rightarrow> Extent \<Rightarrow>
    's DevicePool \<times> (BlockError, bytes) res" where
  "pool_read ops p extent = on_member p extent (be_read ops)"

definition pool_free :: "'s DeviceBackend \<Rightarrow> 's DevicePool \<Rightarrow> Extent \<Rightarrow>
    's DevicePool \<times> (AllocError, unit) res" where
  "pool_free ops p extent = on_member p extent (be_free ops)"

fun sync_all :: "'s DeviceBackend \<Rightarrow> 's list \<Rightarrow> BlockError option \<Rightarrow> 's list \<times> (BlockError, unit) res" where
  "sync_all ops [] first_err = ([], case first_err of None \<Rightarrow> Ok () | Some e \<Rightarrow> Err e)"
| "sync_all ops (m # ms) first_err =
     (let (m', r) = be_sync ops m in
      case r of
        Ok _ \<Rightarrow> (let (ms', r') = sync_all ops ms first_err in (m' # ms', r'))
      | Err e \<Rightarrow>
          (let (ms', r') = sync_all ops ms (case first_err of None \<Rightarrow> Some e | Some x \<Rightarrow> Some x) in
           (m' # ms', r'))
      | Panic \<Rightarrow> (m' # ms, Panic))"

definition pool_sync :: "'s DeviceBackend \<Rightarrow> 's DevicePool \<Rightarrow> 's DevicePool \<times> (BlockError, unit) res" where
  "pool_sync ops p =
     (let (ms, r) = sync_all ops (dp_members p) None in (p\<lparr>dp_members := ms\<rparr>, r))"

definition pool_capacity :: "'s DeviceBackend \<Rightarrow> 's DevicePool \<Rightarrow> nat \<times> nat" where
  "pool_capacity ops p = (sum_list (map (fst \<circ> be_capacity ops) (dp_members p)), dp_total_bytes p)"

definition pool_bitmap_bytes :: "'s DeviceBackend \<Rightarrow> 's DevicePool \<Rightarrow> bytes" where
  "pool_bitmap_bytes ops p = concat (map (be_bitmap_bytes ops) (dp_members p))"

definition pool_device_breakdown :: "'s DeviceBackend \<Rightarrow> 's DevicePool \<Rightarrow> DeviceUsage list" where
  "pool_device_breakdown ops p = concat (map (device_breakdown ops) (dp_members p))"

definition pool_backend :: "'s DeviceBackend \<Rightarrow> 's DevicePool DeviceBackend" where
  "pool_backend ops =
     \<lparr>be_alloc = pool_alloc ops, be_write = pool_write ops, be_read = pool_read ops,
      be_free = pool_free ops, be_sync = pool_sync ops, be_capacity = pool_capacity ops,
      be_medium = dp_medium, be_device_id = dp_device_id,
      be_bitmap_bytes = pool_bitmap_bytes ops\<rparr>"

section \<open>The backend contract\<close>

text \<open>\<open>owned\<close> says that an extent is allocated to a client, \<open>holds\<close> that it stores given data.
  \<open>kept\<close> is the frame condition shared by all operations: the invariant and the size stay, and
  every owned extent selected by \<open>P\<close> stays owned with its data.\<close>

definition apart :: "Extent \<Rightarrow> Extent \<Rightarrow> bool" where
  "apart e f \<longleftrightarrow> ext_bytes e \<inter> ext_bytes f = {}"

definition kept :: "('s \<Rightarrow> bool) \<Rightarrow> ('s \<Rightarrow> nat) \<Rightarrow> ('s \<Rightarrow> Extent \<Rightarrow> bool) \<Rightarrow> ('s \<Rightarrow> Extent \<Rightarrow> bytes \<Rightarrow> bool) \<Rightarrow>
    's \<Rightarrow> 's \<Rightarrow> (Extent \<Rightarrow> bool) \<Rightarrow> bool" where
  "kept iv tot owned holds s s' P \<longleftrightarrow> iv s' \<and> tot s' = tot s \<and>
     (\<forall>f. owned s f \<and> P f \<longrightarrow> owned s' f \<and> (\<forall>d. holds s f d \<longrightarrow> holds s' f d))"

locale device_backend =
  fixes ops :: "'s DeviceBackend"
    and inv :: "'s \<Rightarrow> bool"
    and healthy :: "'s \<Rightarrow> bool"
    and owned :: "'s \<Rightarrow> Extent \<Rightarrow> bool"
    and holds :: "'s \<Rightarrow> Extent \<Rightarrow> bytes \<Rightarrow> bool"
  assumes owned_bounds: "inv s \<Longrightarrow> owned s e \<Longrightarrow>
      0 < ext_length e \<and> ext_offset e + ext_length e \<le> snd (be_capacity ops s)"
    and alloc_kept: "inv s \<Longrightarrow> be_alloc ops s n = (s', ra) \<Longrightarrow>
      kept inv (\<lambda>s. snd (be_capacity ops s)) owned holds s s' (\<lambda>_. True) \<and> (healthy s \<longrightarrow> healthy s')"
    and alloc_fresh: "inv s \<Longrightarrow> be_alloc ops s n = (s', Ok e) \<Longrightarrow>
      owned s' e \<and> n + OVERHEAD \<le> ext_length e \<and> (\<forall>f. owned s f \<longrightarrow> apart e f)"
    and write_kept: "inv s \<Longrightarrow> owned s e \<Longrightarrow> be_write ops s e data = (s', rw) \<Longrightarrow>
      kept inv (\<lambda>s. snd (be_capacity ops s)) owned holds s s' (apart e) \<and> owned s' e \<and>
      (healthy s \<longrightarrow> healthy s')"
    and write_holds: "inv s \<Longrightarrow> owned s e \<Longrightarrow> be_write ops s e data = (s', Ok ()) \<Longrightarrow> holds s' e data"
    and write_ok: "inv s \<Longrightarrow> owned s e \<Longrightarrow> healthy s \<Longrightarrow> length data + OVERHEAD \<le> ext_length e \<Longrightarrow>
      length data \<le> u32_max \<Longrightarrow> snd (be_write ops s e data) = Ok ()"
    and read_kept: "inv s \<Longrightarrow> owned s e \<Longrightarrow> be_read ops s e = (s', rr) \<Longrightarrow>
      kept inv (\<lambda>s. snd (be_capacity ops s)) owned holds s s' (\<lambda>_. True) \<and> (healthy s \<longrightarrow> healthy s')"
    and read_ok: "inv s \<Longrightarrow> owned s e \<Longrightarrow> healthy s \<Longrightarrow> holds s e data \<Longrightarrow>
      snd (be_read ops s e) = Ok data"
    and free_kept: "inv s \<Longrightarrow> owned s e \<Longrightarrow> be_free ops s e = (s', rf) \<Longrightarrow>
      kept inv (\<lambda>s. snd (be_capacity ops s)) owned holds s s' (apart e) \<and> rf = Ok () \<and>
      (healthy s \<longrightarrow> healthy s')"
    and sync_kept: "inv s \<Longrightarrow> be_sync ops s = (s', rs) \<Longrightarrow>
      kept inv (\<lambda>s. snd (be_capacity ops s)) owned holds s s' (\<lambda>_. True) \<and> (healthy s \<longrightarrow> healthy s') \<and>
      rs \<noteq> Panic"
begin

text \<open>What a client gets: a stored payload is read back after further operations on other extents.\<close>

lemma alloc_write_read:
  assumes "inv s" "healthy s" "be_alloc ops s n = (s1, Ok e)" "length data \<le> n" "n \<le> u32_max"
    and "be_write ops s1 e data = (s2, r)"
  shows "r = Ok () \<and> snd (be_read ops s2 e) = Ok data"
proof -
  have s1: "inv s1" "healthy s1" using alloc_kept [OF assms(1,3)] assms(2) by (auto simp: kept_def)
  have e: "owned s1 e" "length data + OVERHEAD \<le> ext_length e"
    using alloc_fresh [OF assms(1,3)] assms(4) by auto
  have r: "r = Ok ()" using write_ok [OF s1(1) e(1) s1(2) e(2)] assms(4,5,6) by simp
  have "inv s2" "healthy s2" "owned s2 e" "holds s2 e data"
    using write_kept [OF s1(1) e(1) assms(6)] write_holds [OF s1(1) e(1)] assms(6) r s1(2)
    by (auto simp: kept_def)
  with read_ok r show ?thesis by blast
qed

lemma other_write_read:
  assumes "inv s" "healthy s" "owned s e" "holds s e data" "owned s f" "apart f e"
    and "be_write ops s f data' = (s', r)"
  shows "snd (be_read ops s' e) = Ok data"
  using write_kept [OF assms(1,5,7)] assms read_ok by (auto simp: kept_def)

lemma other_free_read:
  assumes "inv s" "healthy s" "owned s e" "holds s e data" "owned s f" "apart f e"
    and "be_free ops s f = (s', r)"
  shows "snd (be_read ops s' e) = Ok data"
  using free_kept [OF assms(1,5,7)] assms read_ok by (auto simp: kept_def)

end

section \<open>Clients of a backend\<close>

text \<open>A run of a client against a backend: the extents it holds with the data it last stored.\<close>

type_synonym 's client = "'s \<times> (Extent \<times> bytes option) list"

inductive client_step :: "'s DeviceBackend \<Rightarrow> 's client \<Rightarrow> 's client \<Rightarrow> bool" for ops where
  cl_alloc: "be_alloc ops s n = (s', Ok e) \<Longrightarrow> client_step ops (s, L) (s', (e, None) # L)"
| cl_refuse: "be_alloc ops s n = (s', ra) \<Longrightarrow> \<not> is_ok ra \<Longrightarrow> client_step ops (s, L) (s', L)"
| cl_write: "e \<in> fst ` set L \<Longrightarrow> be_write ops s e data = (s', rw) \<Longrightarrow>
    L' = map (\<lambda>(x, c). (x, if x \<noteq> e then c else if is_ok rw then Some data else None)) L \<Longrightarrow>
    client_step ops (s, L) (s', L')"
| cl_read: "e \<in> fst ` set L \<Longrightarrow> be_read ops s e = (s', rr) \<Longrightarrow> client_step ops (s, L) (s', L)"
| cl_free: "e \<in> fst ` set L \<Longrightarrow> be_free ops s e = (s', rf) \<Longrightarrow>
    client_step ops (s, L) (s', filter (\<lambda>x. fst x \<noteq> e) L)"
| cl_sync: "be_sync ops s = (s', rs) \<Longrightarrow> client_step ops (s, L) (s', L)"

definition client_start :: "('s \<Rightarrow> bool) \<Rightarrow> ('s \<Rightarrow> bool) \<Rightarrow> 's client \<Rightarrow> bool" where
  "client_start iv healthy c \<longleftrightarrow> iv (fst c) \<and> healthy (fst c) \<and> snd c = []"

definition client_inv :: "('s \<Rightarrow> bool) \<Rightarrow> ('s \<Rightarrow> bool) \<Rightarrow> ('s \<Rightarrow> Extent \<Rightarrow> bool) \<Rightarrow>
    ('s \<Rightarrow> Extent \<Rightarrow> bytes \<Rightarrow> bool) \<Rightarrow> 's client \<Rightarrow> bool" where
  "client_inv iv healthy owned holds c \<longleftrightarrow> (case c of (s, L) \<Rightarrow>
     iv s \<and> healthy s \<and> (\<forall>e \<in> fst ` set L. owned s e) \<and> sorted_wrt apart (map fst L) \<and>
     (\<forall>e data. (e, Some data) \<in> set L \<longrightarrow> holds s e data))"

lemma apart_sym: "apart e f \<Longrightarrow> apart f e"
  by (auto simp: apart_def)

lemma sorted_wrt_apart_mem:
  "sorted_wrt apart xs \<Longrightarrow> x \<in> set xs \<Longrightarrow> y \<in> set xs \<Longrightarrow> x \<noteq> y \<Longrightarrow> apart x y"
  by (induction xs) (auto intro: apart_sym)

context device_backend
begin

lemma client_kept:
  assumes "client_inv inv healthy owned holds (s, L)"
    and "kept inv (\<lambda>s. snd (be_capacity ops s)) owned holds s s' P" "healthy s'"
    and "\<And>f. f \<in> fst ` set L \<Longrightarrow> P f"
  shows "client_inv inv healthy owned holds (s', L)"
proof -
  have "holds s' e data" if m: "(e, Some data) \<in> set L" for e data
  proof -
    have e: "e \<in> fst ` set L" using m by force
    then have "owned s e" "P e" "holds s e data" using assms(1,4) m by (auto simp: client_inv_def)
    then show ?thesis using assms(2) by (simp add: kept_def)
  qed
  with assms show ?thesis by (auto simp: client_inv_def kept_def)
qed

lemma client_write_inv:
  assumes ci: "client_inv inv healthy owned holds (s, L)" and e: "e \<in> fst ` set L"
    and wr: "be_write ops s e data = (s', r)"
    and L': "L' = map (\<lambda>(x, c). (x, if x \<noteq> e then c else if is_ok r then Some data else None)) L"
  shows "client_inv inv healthy owned holds (s', L')"
proof -
  have i: "inv s" "healthy s" "\<forall>e \<in> fst ` set L. owned s e" "sorted_wrt apart (map fst L)"
    "\<And>e data. (e, Some data) \<in> set L \<Longrightarrow> holds s e data"
    using ci by (auto simp: client_inv_def)
  have oe: "owned s e" using i(3) e by blast
  note w = write_kept [OF i(1) oe wr]
  have ap: "apart e x" if "x \<in> fst ` set L" "x \<noteq> e" for x
    using sorted_wrt_apart_mem [OF i(4)] e that by (metis image_set)
  have fst: "map fst L' = map fst L" by (auto simp: L' split: prod.splits)
  have own: "\<forall>x \<in> fst ` set L'. owned s' x"
  proof
    fix x assume "x \<in> fst ` set L'"
    then have x: "x \<in> fst ` set L" using fst by (metis image_set)
    then show "owned s' x" using w ap [OF x] i(3) by (cases "x = e") (auto simp: kept_def)
  qed
  have "holds s' x d" if m: "(x, Some d) \<in> set L'" for x d
  proof (cases "x = e")
    case True
    with m have "is_ok r" "d = data" by (auto simp: L' split: if_splits)
    with write_holds [OF i(1) oe] wr True show ?thesis by (auto simp: is_ok_iff)
  next
    case False
    with m have m': "(x, Some d) \<in> set L" by (auto simp: L' split: if_splits)
    then have "x \<in> fst ` set L" by force
    with w ap [OF this False] i(3) i(5) [OF m'] show ?thesis by (auto simp: kept_def)
  qed
  with w i own fst show ?thesis by (simp add: client_inv_def kept_def)
qed

lemma client_free_inv:
  assumes ci: "client_inv inv healthy owned holds (s, L)" and e: "e \<in> fst ` set L"
    and fr: "be_free ops s e = (s', r)"
  shows "client_inv inv healthy owned holds (s', filter (\<lambda>x. fst x \<noteq> e) L)"
proof (rule client_kept [where P = "apart e"])
  have i: "inv s" "healthy s" "owned s e" "sorted_wrt apart (map fst L)"
    using ci e by (auto simp: client_inv_def)
  note f = free_kept [OF i(1,3) fr]
  show "client_inv inv healthy owned holds (s, filter (\<lambda>x. fst x \<noteq> e) L)"
    using ci by (auto simp: client_inv_def sorted_wrt_map sorted_wrt_filter)
  show "kept inv (\<lambda>s. snd (be_capacity ops s)) owned holds s s' (apart e)" "healthy s'" using f i(2) by auto
  fix x assume "x \<in> fst ` set (filter (\<lambda>x. fst x \<noteq> e) L)"
  then have "x \<in> set (map fst L)" "x \<noteq> e" by auto
  then show "apart e x" using sorted_wrt_apart_mem [OF i(4)] e by auto
qed

end

sublocale device_backend \<subseteq> client: invariant_system "client_start inv healthy" "client_step ops"
    "client_inv inv healthy owned holds"
proof
  fix c assume "client_start inv healthy c"
  then show "client_inv inv healthy owned holds c"
    by (cases c) (auto simp: client_start_def client_inv_def)
next
  fix c t assume ci: "client_inv inv healthy owned holds c" and "client_step ops c t"
  from this(2) show "client_inv inv healthy owned holds t"
  proof cases
    case (cl_alloc s n s' e L)
    have i: "inv s" "healthy s" "\<forall>e \<in> fst ` set L. owned s e" using ci cl_alloc by (auto simp: client_inv_def)
    note a = alloc_kept [OF i(1) cl_alloc(3)] and f = alloc_fresh [OF i(1) cl_alloc(3)]
    have "client_inv inv healthy owned holds (s', L)"
      by (rule client_kept [OF _ conjunct1 [OF a]]) (use ci cl_alloc a i in auto)
    with f i(3) show ?thesis unfolding cl_alloc(2) by (auto simp: client_inv_def)
  next
    case (cl_refuse s n s' ra L)
    have i: "inv s" "healthy s" using ci cl_refuse by (auto simp: client_inv_def)
    note a = alloc_kept [OF i(1) cl_refuse(3)]
    show ?thesis unfolding cl_refuse(2)
      by (rule client_kept [OF _ conjunct1 [OF a]]) (use ci cl_refuse a i in auto)
  next
    case (cl_write e L s data s' rw L')
    with client_write_inv ci show ?thesis by simp
  next
    case (cl_read e L s s' rr)
    have i: "inv s" "healthy s" "owned s e" using ci cl_read by (auto simp: client_inv_def)
    note a = read_kept [OF i(1,3) cl_read(4)]
    show ?thesis unfolding cl_read(2)
      by (rule client_kept [OF _ conjunct1 [OF a]]) (use ci cl_read a i in auto)
  next
    case (cl_free e L s s' rf)
    with client_free_inv ci show ?thesis by simp
  next
    case (cl_sync s s' rs L)
    have i: "inv s" "healthy s" using ci cl_sync by (auto simp: client_inv_def)
    note a = sync_kept [OF i(1) cl_sync(3)]
    show ?thesis unfolding cl_sync(2)
      by (rule client_kept [OF _ conjunct1 [OF a]]) (use ci cl_sync a i in auto)
  qed
qed

section \<open>The file-backed device satisfies the contract\<close>

definition file_inv :: "FileBackedDevice \<Rightarrow> bool" where
  "file_inv d \<longleftrightarrow> dev_wf d \<and> alloc_inv (fd_allocator d)"

definition file_healthy :: "FileBackedDevice \<Rightarrow> bool" where
  "file_healthy d \<longleftrightarrow> fs_fault (fd_file d) = None"

definition file_owned :: "FileBackedDevice \<Rightarrow> Extent \<Rightarrow> bool" where
  "file_owned d e \<longleftrightarrow> ext_ok (fd_allocator d) e \<and>
     ext_blocks (ba_block_size (fd_allocator d)) e \<subseteq> allocated (fd_allocator d)"

lemma file_owned_in_file:
  assumes "dev_wf d" "file_owned d e"
  shows "sb_data_offset (fd_superblock d) + ext_offset e + ext_length e \<le> length (fs_bytes (fd_file d))"
    and "OVERHEAD \<le> ext_length e"
    and "sb_data_offset (fd_superblock d) + ext_offset e \<le> u64_max"
  using ext_in_file [OF assms(1)] assms(2) by (auto simp: file_owned_def)

lemma file_apart:
  assumes "alloc_inv a" "ext_ok a e" "ext_ok a f"
  shows "apart e f \<longleftrightarrow> ext_blocks (ba_block_size a) e \<inter> ext_blocks (ba_block_size a) f = {}"
proof
  have bs: "0 < ba_block_size a" using assms(1) by (simp add: alloc_inv_def)
  show "apart e f" if "ext_blocks (ba_block_size a) e \<inter> ext_blocks (ba_block_size a) f = {}"
    using ext_bytes_disjoint [OF bs _ _ _ _ that] assms(2,3)
    by (auto simp: apart_def ext_bytes_def ext_ok_def)
  have mem: "b * ba_block_size a \<in> ext_bytes g"
    if og: "ext_ok a g" and b: "b \<in> ext_blocks (ba_block_size a) g" for b g
  proof -
    obtain o' n where g: "ext_offset g = ba_block_size a * o'" "ext_length g = ba_block_size a * n"
      using og unfolding ext_ok_def by (meson dvdE)
    with b bs have "o' \<le> b" "b < o' + n" by (auto simp: ext_blocks_def)
    then have "o' * ba_block_size a \<le> b * ba_block_size a" "Suc b * ba_block_size a \<le> (o' + n) * ba_block_size a"
      by (intro mult_le_mono1; simp)+
    with bs show ?thesis by (simp add: ext_bytes_def g algebra_simps)
  qed
  assume "apart e f"
  with mem [OF assms(2)] mem [OF assms(3)]
  show "ext_blocks (ba_block_size a) e \<inter> ext_blocks (ba_block_size a) f = {}"
    unfolding apart_def by (meson disjoint_iff)
qed

lemma file_capacity:
  "file_inv d \<Longrightarrow> snd (be_capacity (file_backend crc) d) =
     ba_total_blocks (fd_allocator d) * ba_block_size (fd_allocator d)"
  using counters_ok [of "fd_allocator d"] by (simp add: file_backend_def dev_capacity_def file_inv_def)

lemma file_healthy_call:
  "fs_fault f = None \<Longrightarrow> fs_fault (fst (f_call f)) = None"
  "fs_fault f = None \<Longrightarrow> fs_fault (fst (f_read_exact f pos n)) = None"
  by (simp_all add: faultless)

lemma file_alloc_kept:
  assumes "file_inv d" and al: "dev_alloc d n = (d', r)"
  shows "file_inv d'" "fd_file d' = fd_file d" "fd_superblock d' = fd_superblock d"
    and "ba_total_blocks (fd_allocator d') = ba_total_blocks (fd_allocator d)"
    and "ba_block_size (fd_allocator d') = ba_block_size (fd_allocator d)"
    and "file_owned d f \<Longrightarrow> file_owned d' f"
    and "r = Ok e \<Longrightarrow> file_owned d' e \<and> n + OVERHEAD \<le> ext_length e \<and> (file_owned d f \<longrightarrow> apart e f)"
proof -
  let ?a = "fd_allocator d"
  have inv: "alloc_inv ?a" "dev_wf d" using assms(1) by (simp_all add: file_inv_def)
  consider "d' = d" "\<not> is_ok r"
    | a' x where "ba_alloc ?a (n + OVERHEAD) = (a', Ok x)" "d' = d\<lparr>fd_allocator := a'\<rparr>" "r = Ok x"
  proof (cases "n + OVERHEAD \<le> u64_max")
    case True
    then obtain a' where a': "ba_alloc ?a (n + OVERHEAD) = (a', r)" "d' = d\<lparr>fd_allocator := a'\<rparr>"
      using al by (auto simp: dev_alloc_def add_u64_def split: prod.splits)
    show thesis
    proof (cases "is_ok r")
      case True
      with a' that(2) show thesis by (auto simp: is_ok_iff)
    next
      case False
      with ba_alloc_Err [OF inv(1) a'(1)] a' that(1) show thesis by (auto simp: is_ok_iff)
    qed
  next
    case False
    with al that(1) show thesis by (simp add: dev_alloc_def add_u64_def)
  qed
  then have *: "file_inv d' \<and> fd_file d' = fd_file d \<and> fd_superblock d' = fd_superblock d \<and>
      ba_total_blocks (fd_allocator d') = ba_total_blocks ?a \<and> ba_block_size (fd_allocator d') = ba_block_size ?a \<and>
      (file_owned d f \<longrightarrow> file_owned d' f) \<and>
      (r = Ok e \<longrightarrow> file_owned d' e \<and> n + OVERHEAD \<le> ext_length e \<and> (file_owned d f \<longrightarrow> apart e f))"
  proof cases
    case 1
    with assms(1) show ?thesis by auto
  next
    case (2 a' x)
    note ok = ba_alloc_Ok [OF inv(1) 2(1)]
    have "dev_wf d'"
      by (rule dev_wf_file [OF inv(2)]) (use 2 ok ba_alloc_bitmap_length [OF 2(1)] in auto)
    moreover have "apart x f" if "file_owned d f"
      using file_apart [OF ok(1,2), of f] that ok(5,6,7) by (auto simp: file_owned_def ext_ok_def)
    ultimately show ?thesis using 2 ok by (auto simp: file_inv_def file_owned_def ext_ok_def)
  qed
  then show "file_inv d'" "fd_file d' = fd_file d" "fd_superblock d' = fd_superblock d"
    "ba_total_blocks (fd_allocator d') = ba_total_blocks ?a" "ba_block_size (fd_allocator d') = ba_block_size ?a"
    by blast+
  show "file_owned d f \<Longrightarrow> file_owned d' f" using * by blast
  show "r = Ok e \<Longrightarrow> file_owned d' e \<and> n + OVERHEAD \<le> ext_length e \<and> (file_owned d f \<longrightarrow> apart e f)"
    using * by blast
qed

lemma file_faultless_ops:
  "fs_fault (fd_file d) = None \<Longrightarrow> dev_write crc d e data = (d', rw) \<Longrightarrow> fs_fault (fd_file d') = None"
  "fs_fault (fd_file d) = None \<Longrightarrow> dev_read crc d e = (d', rr) \<Longrightarrow> fs_fault (fd_file d') = None"
  "fs_fault (fd_file d) = None \<Longrightarrow> dev_sync d = (d', rs) \<Longrightarrow> fs_fault (fd_file d') = None"
  by (auto simp: dev_write_def dev_read_def dev_sync_def flush_bitmap_def Let_def add_u64_def faultless
      split: if_splits)

text \<open>An operation that keeps the allocator and the bytes of an extent keeps the extent.\<close>

lemma file_kept_bytes:
  assumes inv: "file_inv d" and sb: "fd_superblock d' = fd_superblock d" "fd_allocator d' = fd_allocator d"
    and len: "length (fs_bytes (fd_file d)) \<le> length (fs_bytes (fd_file d'))"
    and sup: "region_kept 0 SUPERBLOCK_SIZE (fs_bytes (fd_file d)) (fs_bytes (fd_file d'))"
    and reg: "\<And>f. file_owned d f \<Longrightarrow> P f \<Longrightarrow>
      region_kept (sb_data_offset (fd_superblock d) + ext_offset f)
        (sb_data_offset (fd_superblock d) + ext_offset f + ext_length f)
        (fs_bytes (fd_file d)) (fs_bytes (fd_file d'))"
  shows "kept file_inv (\<lambda>s. snd (be_capacity (file_backend crc) s)) file_owned (stored crc) d d' P"
proof -
  have wf: "dev_wf d" using inv by (simp add: file_inv_def)
  have inv': "file_inv d'"
    using dev_wf_file [OF wf sb(1) _ _ _ sup len] inv sb(2) by (simp add: file_inv_def)
  moreover have "stored crc d' f data" if "file_owned d f" "P f" "stored crc d f data" for f data
    by (rule stored_kept [OF that(3) sb(1) reg [OF that(1,2)] refl file_owned_in_file(1) [OF wf that(1)]])
  ultimately show ?thesis
    using sb(2) file_capacity [OF inv] file_capacity [OF inv'] by (auto simp: kept_def file_owned_def)
qed

lemma file_write_kept:
  assumes inv: "file_inv d" and e: "file_owned d e" and wr: "dev_write crc d e data = (d', r)"
  shows "kept file_inv (\<lambda>s. snd (be_capacity (file_backend crc) s)) file_owned (stored crc) d d' (apart e)"
    and "file_owned d' e" and "r = Ok () \<Longrightarrow> stored crc d' e data"
proof -
  let ?do = "sb_data_offset (fd_superblock d)"
  have wf: "dev_wf d" using inv by (simp add: file_inv_def)
  note held = file_owned_in_file [OF wf]
  obtain k where k: "fd_superblock d' = fd_superblock d" "fd_allocator d' = fd_allocator d"
    "fs_bytes (fd_file d') = pwrite (?do + ext_offset e) (take k (frame crc data)) (fs_bytes (fd_file d))"
    "is_ok r \<longrightarrow> length (frame crc data) \<le> k"
    "k = 0 \<or> length (frame crc data) \<le> ext_length e" "k = 0 \<or> length data \<le> u32_max"
    by (rule dev_write_outcome [OF wr held(2) [OF e]]) simp
  have len: "length (take k (frame crc data)) \<le> ext_length e" using k(5) by auto
  have sup: "SUPERBLOCK_SIZE \<le> ?do" using wf by (simp add: dev_wf_def Let_def sb_layout_def)
  show "kept file_inv (\<lambda>s. snd (be_capacity (file_backend crc) s)) file_owned (stored crc) d d' (apart e)"
  proof (rule file_kept_bytes [OF inv k(1,2)])
    show "length (fs_bytes (fd_file d)) \<le> length (fs_bytes (fd_file d'))" unfolding k(3) by (rule length_pwrite_ge)
    show "region_kept 0 SUPERBLOCK_SIZE (fs_bytes (fd_file d)) (fs_bytes (fd_file d'))"
      unfolding k(3) using sup by (intro region_kept_pwrite) auto
    fix f assume f: "file_owned d f" "apart e f"
    have "0 < ext_length f" "0 < ext_length e"
      using held(2) [OF f(1)] held(2) [OF e] by (auto simp: OVERHEAD_def HEADER_SIZE_def)
    with f(2) have "ext_offset f + ext_length f \<le> ext_offset e \<or> ext_offset e + ext_length e \<le> ext_offset f"
      unfolding apart_def ext_bytes_def ivl_disjoint_nat by linarith
    with len show "region_kept (?do + ext_offset f) (?do + ext_offset f + ext_length f)
        (fs_bytes (fd_file d)) (fs_bytes (fd_file d'))"
      unfolding k(3) by (intro region_kept_pwrite) auto
  qed
  show "file_owned d' e" using e k(2) by (simp add: file_owned_def)
  assume "r = Ok ()"
  then have "take k (frame crc data) = frame crc data" "0 < k"
    using k(4) by (simp_all add: OVERHEAD_def HEADER_SIZE_def)
  then show "stored crc d' e data"
    using k(1,3,5,6) slice_pwrite_same [of "?do + ext_offset e" "frame crc data"]
    by (simp add: stored_def Let_def)
qed

lemma file_free_kept:
  assumes inv: "file_inv d" and e: "file_owned d e" and fr: "dev_free d e = (d', r)"
  shows "kept file_inv (\<lambda>s. snd (be_capacity (file_backend crc) s)) file_owned (stored crc) d d' (apart e)"
    and "r = Ok ()" "fd_file d' = fd_file d"
proof -
  let ?a = "fd_allocator d"
  obtain a' where a': "ba_free ?a e = (a', r)" "d' = d\<lparr>fd_allocator := a'\<rparr>"
    using fr by (auto simp: dev_free_def split: prod.splits)
  have i: "alloc_inv ?a" "dev_wf d" "ext_ok ?a e" "ext_blocks (ba_block_size ?a) e \<subseteq> allocated ?a"
    using inv e by (auto simp: file_inv_def file_owned_def)
  note f = ba_free_Ok [OF i(1,3,4) a'(1)]
  have "dev_wf d'"
    by (rule dev_wf_file [OF i(2)]) (use a' f ba_free_bitmap_length [OF a'(1)] in auto)
  then have inv': "file_inv d'" using f(2) a'(2) by (simp add: file_inv_def)
  have "file_owned d' g" if "file_owned d g" "apart e g" for g
    using that f(3,4,5) a'(2) file_apart [OF i(1,3), of g] by (auto simp: file_owned_def ext_ok_def)
  moreover have "stored crc d' g x \<longleftrightarrow> stored crc d g x" for g x using a'(2) by (simp add: stored_def)
  ultimately show "kept file_inv (\<lambda>s. snd (be_capacity (file_backend crc) s)) file_owned (stored crc) d d' (apart e)"
    using inv' file_capacity [OF inv] file_capacity [OF inv'] f(4,5) a'(2) by (auto simp: kept_def)
  show "r = Ok ()" by (rule f(1))
  show "fd_file d' = fd_file d" using a'(2) by simp
qed

lemma file_sync_kept:
  assumes inv: "file_inv d" and sy: "dev_sync d = (d', r)"
  shows "kept file_inv (\<lambda>s. snd (be_capacity (file_backend crc) s)) file_owned (stored crc) d d' (\<lambda>_. True)"
proof -
  let ?sb = "fd_superblock d" and ?bm = "ba_bitmap (fd_allocator d)" and ?f = "fs_bytes (fd_file d)"
  obtain k1 k2 where k: "fd_superblock d' = ?sb" "fd_allocator d' = fd_allocator d"
    "fs_bytes (fd_file d') = pwrite (sb_bitmap_mirror_offset ?sb) (take k2 ?bm)
         (pwrite (sb_bitmap_offset ?sb) (take k1 ?bm) ?f)"
    by (rule dev_sync_outcome [OF sy]) (simp add: Let_def)
  have wf: "dev_wf d" using inv by (simp add: file_inv_def)
  have lay: "sb_bitmap_offset ?sb = SUPERBLOCK_SIZE"
    "sb_bitmap_offset ?sb + length ?bm \<le> sb_bitmap_mirror_offset ?sb"
    "sb_bitmap_mirror_offset ?sb + length ?bm \<le> sb_data_offset ?sb"
    using wf by (simp_all add: dev_wf_def Let_def sb_layout_def)
  have reg: "region_kept lo hi ?f (fs_bytes (fd_file d'))"
    if "hi \<le> SUPERBLOCK_SIZE \<or> sb_data_offset ?sb \<le> lo" for lo hi
    unfolding k(3) by (rule region_kept_trans; rule region_kept_pwrite) (use that lay in auto)
  show ?thesis
    by (rule file_kept_bytes [OF inv k(1,2)])
      (use reg in \<open>auto simp: k(3) intro: le_trans [OF length_pwrite_ge length_pwrite_ge]\<close>)
qed

lemma file_calls_no_panic:
  "f_call f = (f', r) \<Longrightarrow> r \<noteq> Panic"
  "f_write_all f pos data = (f', r') \<Longrightarrow> r' \<noteq> Panic"
  using f_call_outcome f_write_all_outcome by (fastforce, metis)

lemma dev_sync_no_panic: "dev_sync d = (d', r) \<Longrightarrow> r \<noteq> Panic"
  unfolding dev_sync_def flush_bitmap_def
  by (auto simp: Let_def split: prod.splits elim!: bind_st_cases dest: file_calls_no_panic)

lemma file_read_kept:
  assumes "file_inv d" "dev_read crc d e = (d', r)"
  shows "kept file_inv (\<lambda>s. snd (be_capacity (file_backend crc) s)) file_owned (stored crc) d d' (\<lambda>_. True)"
  using file_kept_bytes [OF assms(1), of d' "\<lambda>_. True"] dev_read_outcome [OF assms(2)] by simp

interpretation file_dev: device_backend "file_backend crc" file_inv file_healthy file_owned "stored crc" for crc
proof
  fix s s' :: FileBackedDevice and e n ra
  assume inv: "file_inv s"
  show "0 < ext_length e \<and> ext_offset e + ext_length e \<le> snd (be_capacity (file_backend crc) s)"
    if "file_owned s e" using that file_capacity [OF inv] by (simp add: file_owned_def ext_ok_def)
  assume "be_alloc (file_backend crc) s n = (s', ra)"
  then have al: "dev_alloc s n = (s', ra)" by (simp add: file_backend_def)
  note k = file_alloc_kept [OF inv al]
  have "stored crc s' f d \<longleftrightarrow> stored crc s f d" for f d using k(2,3) by (simp add: stored_def)
  then show "kept file_inv (\<lambda>s. snd (be_capacity (file_backend crc) s)) file_owned (stored crc) s s' (\<lambda>_. True) \<and>
      (file_healthy s \<longrightarrow> file_healthy s')"
    using k file_capacity [OF inv] file_capacity [OF k(1)] by (simp add: kept_def file_healthy_def)
next
  fix s s' :: FileBackedDevice and e n
  assume "file_inv s" "be_alloc (file_backend crc) s n = (s', Ok e)"
  then show "file_owned s' e \<and> n + OVERHEAD \<le> ext_length e \<and> (\<forall>f. file_owned s f \<longrightarrow> apart e f)"
    using file_alloc_kept(7) [of s n s' "Ok e"] by (simp add: file_backend_def)
next
  fix s s' :: FileBackedDevice and e data rw
  assume "file_inv s" "file_owned s e" "be_write (file_backend crc) s e data = (s', rw)"
  then show "kept file_inv (\<lambda>s. snd (be_capacity (file_backend crc) s)) file_owned (stored crc) s s' (apart e) \<and>
      file_owned s' e \<and> (file_healthy s \<longrightarrow> file_healthy s')"
    using file_write_kept [of s e crc data s' rw] file_faultless_ops(1) [of s crc e data s' rw]
    by (simp add: file_backend_def file_healthy_def)
next
  fix s s' :: FileBackedDevice and e data
  assume "file_inv s" "file_owned s e" "be_write (file_backend crc) s e data = (s', Ok ())"
  then show "stored crc s' e data"
    using file_write_kept(3) [of s e crc data s' "Ok ()"] by (simp add: file_backend_def)
next
  fix s :: FileBackedDevice and e and data :: bytes
  assume a: "file_inv s" "file_owned s e" "file_healthy s" "length data + OVERHEAD \<le> ext_length e"
    "length data \<le> u32_max"
  have "sb_data_offset (fd_superblock s) + ext_offset e \<le> u64_max"
    using file_owned_in_file(3) a(1,2) by (auto simp: file_inv_def)
  with a(3-5) show "snd (be_write (file_backend crc) s e data) = Ok ()"
    by (simp add: file_backend_def dev_write_def Let_def add_u64_def faultless file_healthy_def)
next
  fix s s' :: FileBackedDevice and e rr
  assume "file_inv s" "file_owned s e" "be_read (file_backend crc) s e = (s', rr)"
  then show "kept file_inv (\<lambda>s. snd (be_capacity (file_backend crc) s)) file_owned (stored crc) s s' (\<lambda>_. True) \<and>
      (file_healthy s \<longrightarrow> file_healthy s')"
    using file_read_kept [of s crc e s' rr] file_faultless_ops(2) [of s crc e s' rr]
    by (simp add: file_backend_def file_healthy_def)
next
  fix s :: FileBackedDevice and e data
  assume a: "file_inv s" "file_owned s e" "file_healthy s" "stored crc s e data"
  have "sb_data_offset (fd_superblock s) + ext_offset e \<le> u64_max"
    using file_owned_in_file(3) a(1,2) by (auto simp: file_inv_def)
  then have "dev_read crc s e = (s, Ok data)"
    using a(3,4) by (intro dev_read_frame) (simp_all add: file_healthy_def stored_def Let_def)
  then show "snd (be_read (file_backend crc) s e) = Ok data" by (simp add: file_backend_def)
next
  fix s s' :: FileBackedDevice and e rf
  assume "file_inv s" "file_owned s e" "be_free (file_backend crc) s e = (s', rf)"
  then show "kept file_inv (\<lambda>s. snd (be_capacity (file_backend crc) s)) file_owned (stored crc) s s' (apart e) \<and>
      rf = Ok () \<and> (file_healthy s \<longrightarrow> file_healthy s')"
    using file_free_kept(1) [of s e s' rf crc] file_free_kept(2,3) [of s e s' rf] by (simp add: file_backend_def file_healthy_def)
next
  fix s s' :: FileBackedDevice and rs
  assume "file_inv s" "be_sync (file_backend crc) s = (s', rs)"
  then show "kept file_inv (\<lambda>s. snd (be_capacity (file_backend crc) s)) file_owned (stored crc) s s' (\<lambda>_. True) \<and>
      (file_healthy s \<longrightarrow> file_healthy s') \<and> rs \<noteq> Panic"
    using file_sync_kept [of s s' rs crc] file_faultless_ops(3) [of s s' rs] dev_sync_no_panic [of s s' rs]
    by (simp add: file_backend_def file_healthy_def)
qed

section \<open>A pool of backends satisfies the contract\<close>

definition member_caps :: "'s DeviceBackend \<Rightarrow> 's DevicePool \<Rightarrow> nat list" where
  "member_caps ops p = map (\<lambda>m. snd (be_capacity ops m)) (dp_members p)"

definition pool_inv :: "'s DeviceBackend \<Rightarrow> ('s \<Rightarrow> bool) \<Rightarrow> 's DevicePool \<Rightarrow> bool" where
  "pool_inv ops iv p \<longleftrightarrow> length (dp_bases p) = length (dp_members p) \<and>
     (\<forall>m \<in> set (dp_members p). iv m) \<and>
     (\<forall>i < length (dp_members p). dp_bases p ! i = sum_list (take i (member_caps ops p))) \<and>
     dp_total_bytes p = sum_list (member_caps ops p) \<and> dp_total_bytes p \<le> u64_max"

definition local_ext :: "'s DevicePool \<Rightarrow> nat \<Rightarrow> Extent \<Rightarrow> Extent" where
  "local_ext p i e = extent_new (ext_offset e - dp_bases p ! i) (ext_length e)"

definition owned_at :: "('s \<Rightarrow> Extent \<Rightarrow> bool) \<Rightarrow> 's DevicePool \<Rightarrow> nat \<Rightarrow> Extent \<Rightarrow> bool" where
  "owned_at owned p i e \<longleftrightarrow> i < length (dp_members p) \<and> dp_bases p ! i \<le> ext_offset e \<and>
     owned (dp_members p ! i) (local_ext p i e)"

definition pool_owned :: "('s \<Rightarrow> Extent \<Rightarrow> bool) \<Rightarrow> 's DevicePool \<Rightarrow> Extent \<Rightarrow> bool" where
  "pool_owned owned p e \<longleftrightarrow> (\<exists>i. owned_at owned p i e)"

definition pool_holds :: "('s \<Rightarrow> Extent \<Rightarrow> bool) \<Rightarrow> ('s \<Rightarrow> Extent \<Rightarrow> bytes \<Rightarrow> bool) \<Rightarrow>
    's DevicePool \<Rightarrow> Extent \<Rightarrow> bytes \<Rightarrow> bool" where
  "pool_holds owned holds p e data \<longleftrightarrow>
     (\<exists>i. owned_at owned p i e \<and> holds (dp_members p ! i) (local_ext p i e) data)"

definition pool_healthy :: "('s \<Rightarrow> bool) \<Rightarrow> 's DevicePool \<Rightarrow> bool" where
  "pool_healthy healthy p \<longleftrightarrow> (\<forall>m \<in> set (dp_members p). healthy m)"

lemma route_scan_prefix:
  "\<forall>x \<in> set xs. x \<le> g \<Longrightarrow> ys = [] \<or> g < hd ys \<Longrightarrow>
     route_scan (xs @ ys) i g idx = (if xs = [] then idx else i + length xs - 1)"
proof (induction xs arbitrary: i idx)
  case Nil
  then show ?case by (cases ys) auto
qed auto

lemma kept_refl: "iv s \<Longrightarrow> kept iv tot owned holds s s P"
  by (simp add: kept_def)

lemma kept_trans:
  "kept iv tot owned holds s t P \<Longrightarrow> kept iv tot owned holds t u P \<Longrightarrow> kept iv tot owned holds s u P"
  by (auto simp: kept_def)

lemma kept_mono: "kept iv tot owned holds s t P \<Longrightarrow> (\<And>f. Q f \<Longrightarrow> P f) \<Longrightarrow> kept iv tot owned holds s t Q"
  by (auto simp: kept_def)

lemma local_apart:
  "dp_bases p ! i \<le> ext_offset e \<Longrightarrow> dp_bases p ! i \<le> ext_offset f \<Longrightarrow>
     apart (local_ext p i e) (local_ext p i f) \<longleftrightarrow> apart e f"
  by (auto simp: apart_def ext_bytes_def ivl_disjoint_nat local_ext_def extent_new_def)

lemma sum_take_mono: "i \<le> j \<Longrightarrow> sum_list (take i xs) \<le> sum_list (take j (xs :: nat list))"
  by (metis le_add1 le_add_diff_inverse sum_list_append take_add)

lemma sum_take_Suc: "i < length xs \<Longrightarrow> sum_list (take (Suc i) xs) = sum_list (take i xs) + xs ! i"
  by (simp add: take_Suc_conv_app_nth)

context device_backend
begin

abbreviation mtot :: "'s \<Rightarrow> nat" where
  "mtot s \<equiv> snd (be_capacity ops s)"

lemma slice_bounds:
  assumes "pool_inv ops inv p" "owned_at owned p i e"
  shows "0 < ext_length e" "ext_offset e + ext_length e \<le> sum_list (take (Suc i) (member_caps ops p))"
    and "sum_list (take i (member_caps ops p)) \<le> ext_offset e"
proof -
  let ?m = "dp_members p ! i"
  have i: "i < length (dp_members p)" "dp_bases p ! i \<le> ext_offset e" "owned ?m (local_ext p i e)"
    using assms(2) by (auto simp: owned_at_def)
  have b: "inv ?m" "dp_bases p ! i = sum_list (take i (member_caps ops p))"
    using assms(1) i(1) by (auto simp: pool_inv_def)
  from owned_bounds [OF b(1) i(3)] have "0 < ext_length e"
    "ext_offset e - dp_bases p ! i + ext_length e \<le> mtot ?m" by (auto simp: local_ext_def extent_new_def)
  moreover have "sum_list (take (Suc i) (member_caps ops p)) = dp_bases p ! i + mtot ?m"
    using i(1) b(2) sum_take_Suc [of i "member_caps ops p"] by (simp add: member_caps_def)
  ultimately show "0 < ext_length e" "ext_offset e + ext_length e \<le> sum_list (take (Suc i) (member_caps ops p))"
    "sum_list (take i (member_caps ops p)) \<le> ext_offset e"
    using i(2) b(2) by linarith+
qed

lemma route_owned:
  assumes "pool_inv ops inv p" "owned_at owned p i e"
  shows "route p (ext_offset e) = Some (i, ext_offset e - dp_bases p ! i)"
proof -
  note b = slice_bounds [OF assms]
  have i: "i < length (dp_members p)" "length (dp_bases p) = length (dp_members p)"
    using assms by (auto simp: owned_at_def pool_inv_def)
  have base: "dp_bases p ! j = sum_list (take j (member_caps ops p))" if "j < length (dp_bases p)" for j
    using assms(1) that by (simp add: pool_inv_def)
  have "\<forall>x \<in> set (take (Suc i) (dp_bases p)). x \<le> ext_offset e"
  proof
    fix x assume "x \<in> set (take (Suc i) (dp_bases p))"
    then obtain j where "j \<le> i" "j < length (dp_bases p)" "x = dp_bases p ! j"
      by (auto simp: in_set_conv_nth less_Suc_eq_le)
    with base [of j] sum_take_mono [of j i "member_caps ops p"] b(3) show "x \<le> ext_offset e" by simp
  qed
  moreover have "drop (Suc i) (dp_bases p) = [] \<or> ext_offset e < hd (drop (Suc i) (dp_bases p))"
    using base [of "Suc i"] b(1,2) by (cases "Suc i < length (dp_bases p)") (auto simp: hd_drop_conv_nth)
  ultimately have "route_scan (take (Suc i) (dp_bases p) @ drop (Suc i) (dp_bases p)) 0 (ext_offset e) 0 = i"
    using route_scan_prefix [of "take (Suc i) (dp_bases p)" "ext_offset e" "drop (Suc i) (dp_bases p)" 0 0] i
    by (auto simp: min_def)
  moreover have "dp_bases p ! i \<le> ext_offset e" using assms(2) by (simp add: owned_at_def)
  ultimately show ?thesis using i by (simp add: route_def Let_def)
qed

lemma owned_at_unique: "pool_inv ops inv p \<Longrightarrow> owned_at owned p i e \<Longrightarrow> owned_at owned p j e \<Longrightarrow> i = j"
  using route_owned [of p i e] route_owned [of p j e] by simp

lemma on_member_owned:
  assumes "pool_inv ops inv p" "owned_at owned p i e" "on_member p e f = (p', r)"
  obtains m' where "f (dp_members p ! i) (local_ext p i e) = (m', r)"
    "p' = p\<lparr>dp_members := (dp_members p)[i := m']\<rparr>"
  using assms(3) route_owned [OF assms(1,2)] assms(2)
  by (auto simp: on_member_def owned_at_def local_ext_def split: prod.splits)

text \<open>Extents on different members never overlap in the global address space.\<close>

lemma apart_members:
  assumes "pool_inv ops inv p" "owned_at owned p i e" "owned_at owned p j f" "i \<noteq> j"
  shows "apart e f"
proof -
  note a = slice_bounds [OF assms(1,2)] and b = slice_bounds [OF assms(1,3)]
  consider "Suc i \<le> j" | "Suc j \<le> i" using assms(4) by linarith
  then have "ext_offset e + ext_length e \<le> ext_offset f \<or> ext_offset f + ext_length f \<le> ext_offset e"
    using a b sum_take_mono [of "Suc i" j "member_caps ops p"] sum_take_mono [of "Suc j" i "member_caps ops p"]
    by cases linarith+
  then show ?thesis by (auto simp: apart_def ext_bytes_def ivl_disjoint_nat)
qed

lemma pool_kept:
  assumes inv: "pool_inv ops inv p" and len: "length ms = length (dp_members p)"
    and k: "\<And>j. j < length ms \<Longrightarrow> kept inv mtot owned holds (dp_members p ! j) (ms ! j) (Q j)"
    and Q: "\<And>j f. owned_at owned p j f \<Longrightarrow> P f \<Longrightarrow> Q j (local_ext p j f)"
  shows "kept (pool_inv ops inv) (\<lambda>p. snd (pool_capacity ops p)) (pool_owned owned)
    (pool_holds owned holds) p (p\<lparr>dp_members := ms\<rparr>) P"
proof -
  let ?p = "p\<lparr>dp_members := ms\<rparr>"
  have caps: "member_caps ops ?p = member_caps ops p"
    by (rule nth_equalityI) (use len k in \<open>auto simp: member_caps_def kept_def\<close>)
  have "inv (ms ! j)" if "j < length ms" for j using k [OF that] by (simp add: kept_def)
  then have "\<forall>m \<in> set ms. inv m" by (auto simp: in_set_conv_nth)
  then have "pool_inv ops inv ?p" using inv caps len by (simp add: pool_inv_def)
  moreover have "owned_at owned ?p j f \<and> (\<forall>d. holds (dp_members p ! j) (local_ext p j f) d \<longrightarrow>
      holds (ms ! j) (local_ext ?p j f) d)" if "owned_at owned p j f" "P f" for j f
    using that k [of j] Q [OF that] len by (auto simp: kept_def owned_at_def local_ext_def)
  then have "pool_owned owned ?p f \<and> (\<forall>d. pool_holds owned holds p f d \<longrightarrow> pool_holds owned holds ?p f d)"
    if "pool_owned owned p f" "P f" for f
    using that unfolding pool_owned_def pool_holds_def by (metis select_convs(1) surjective update_convs(1))
  ultimately show ?thesis by (simp add: kept_def pool_capacity_def)
qed

lemma pool_kept_update:
  assumes inv: "pool_inv ops inv p" and i: "i < length (dp_members p)"
    and k: "kept inv mtot owned holds (dp_members p ! i) m' Q"
    and Q: "\<And>f. owned_at owned p i f \<Longrightarrow> P f \<Longrightarrow> Q (local_ext p i f)"
  shows "kept (pool_inv ops inv) (\<lambda>p. snd (pool_capacity ops p)) (pool_owned owned)
    (pool_holds owned holds) p (p\<lparr>dp_members := (dp_members p)[i := m']\<rparr>) P"
proof (rule pool_kept [OF inv, where Q = "\<lambda>j. if j = i then Q else (\<lambda>_. True)"])
  fix j assume "j < length ((dp_members p)[i := m'])"
  moreover from this have "inv (dp_members p ! j)" using inv by (simp add: pool_inv_def)
  ultimately show "kept inv mtot owned holds (dp_members p ! j) ((dp_members p)[i := m'] ! j)
      (if j = i then Q else (\<lambda>_. True))"
    using k by (cases "j = i") (auto intro: kept_refl)
qed (use Q in auto)

abbreviation pkept :: "'s DevicePool \<Rightarrow> 's DevicePool \<Rightarrow> (Extent \<Rightarrow> bool) \<Rightarrow> bool" where
  "pkept \<equiv> kept (pool_inv ops inv) (\<lambda>p. snd (pool_capacity ops p)) (pool_owned owned) (pool_holds owned holds)"

lemma healthy_update:
  "pool_healthy healthy p \<Longrightarrow> healthy m \<Longrightarrow> pool_healthy healthy (p\<lparr>dp_members := (dp_members p)[i := m]\<rparr>)"
  using set_update_subset_insert [of "dp_members p" i m] by (auto simp: pool_healthy_def)

lemma try_alloc_kept:
  "pool_inv ops inv p \<Longrightarrow> try_alloc_ordered ops p n order le = (p', r) \<Longrightarrow>
     pkept p p' (\<lambda>_. True) \<and> (pool_healthy healthy p \<longrightarrow> pool_healthy healthy p') \<and>
     (\<forall>e. r = Ok e \<longrightarrow> pool_owned owned p' e \<and> n + OVERHEAD \<le> ext_length e \<and>
        (\<forall>f. pool_owned owned p f \<longrightarrow> apart e f))"
proof (induction order arbitrary: p le)
  case Nil
  then show ?case by (auto intro: kept_refl)
next
  case (Cons i order)
  show ?case
  proof (cases "i < length (dp_members p)")
    case False
    with Cons.prems show ?thesis by (auto intro: kept_refl)
  next
    case i: True
    let ?m = "dp_members p ! i"
    obtain m r1 where al: "be_alloc ops ?m n = (m, r1)" by fastforce
    let ?p = "p\<lparr>dp_members := (dp_members p)[i := m]\<rparr>"
    have im: "inv ?m" using Cons.prems(1) i by (simp add: pool_inv_def)
    have hm: "pool_healthy healthy p \<Longrightarrow> healthy ?m" using i by (simp add: pool_healthy_def)
    note mk = alloc_kept [OF im al]
    have pk: "pkept p ?p (\<lambda>_. True)"
      by (rule pool_kept_update [OF Cons.prems(1) i]) (use mk in auto)
    have ph: "pool_healthy healthy p \<longrightarrow> pool_healthy healthy ?p" using mk hm healthy_update by blast
    have rest: "try_alloc_ordered ops p n (i # order) le =
        (case r1 of Ok loc \<Rightarrow> (?p, bind_res (add_u64 (dp_bases p ! i) (ext_offset loc))
            (\<lambda>off. Ok (extent_new off (ext_length loc))))
         | Err e \<Rightarrow> try_alloc_ordered ops ?p n order e | Panic \<Rightarrow> (?p, Panic))"
      using i al by (simp add: Let_def)
    show ?thesis
    proof (cases r1)
      case (Ok loc)
      note fr = alloc_fresh [OF im al [unfolded Ok]]
      have p': "p' = ?p" using Cons.prems(2) rest Ok by simp
      have "pool_owned owned ?p e \<and> n + OVERHEAD \<le> ext_length e \<and> (\<forall>f. pool_owned owned p f \<longrightarrow> apart e f)"
        if "r = Ok e" for e
      proof -
        have "bind_res (add_u64 (dp_bases p ! i) (ext_offset loc))
            (\<lambda>off. Ok (extent_new off (ext_length loc))) = r"
          using Cons.prems(2) rest Ok by simp
        then have e: "e = extent_new (dp_bases p ! i + ext_offset loc) (ext_length loc)"
          unfolding that by simp
        have loc: "local_ext p i e = loc" "local_ext ?p i e = loc"
          by (simp_all add: e local_ext_def extent_new_def)
        have own: "owned_at owned ?p i e" using fr i loc(2) by (simp add: owned_at_def e extent_new_def)
        have "apart e f" if f: "owned_at owned p j f" for j f
        proof (cases "j = i")
          case True
          then have "apart loc (local_ext p i f)" using fr f by (simp add: owned_at_def)
          then show ?thesis
            using local_apart [of p i e f] loc f True by (simp add: owned_at_def e extent_new_def)
        next
          case False
          have "owned_at owned ?p j f" using f False by (simp add: owned_at_def local_ext_def)
          with apart_members [OF _ own this] pk False show ?thesis by (simp add: kept_def)
        qed
        with own fr show ?thesis by (auto simp: pool_owned_def e extent_new_def)
      qed
      with pk ph p' show ?thesis by blast
    next
      case (Err e1)
      have "pool_inv ops inv ?p" using pk by (simp add: kept_def)
      moreover have "try_alloc_ordered ops ?p n order e1 = (p', r)" using Cons.prems(2) rest Err by simp
      ultimately have IH: "pkept ?p p' (\<lambda>_. True)" "pool_healthy healthy ?p \<longrightarrow> pool_healthy healthy p'"
        "\<forall>e. r = Ok e \<longrightarrow> pool_owned owned p' e \<and> n + OVERHEAD \<le> ext_length e \<and>
          (\<forall>f. pool_owned owned ?p f \<longrightarrow> apart e f)" using Cons.IH by blast+
      have "pool_owned owned p f \<Longrightarrow> pool_owned owned ?p f" for f using pk by (simp add: kept_def)
      with IH ph kept_trans [OF pk IH(1)] show ?thesis by blast
    next
      case Panic
      with Cons.prems(2) rest pk ph show ?thesis by simp
    qed
  qed
qed

lemma pool_write_facts:
  assumes inv: "pool_inv ops inv p" and e: "pool_owned owned p e" and wr: "pool_write ops p e data = (p', r)"
  shows "pkept p p' (apart e)" "pool_owned owned p' e" "pool_healthy healthy p \<Longrightarrow> pool_healthy healthy p'"
    and "r = Ok () \<Longrightarrow> pool_holds owned holds p' e data"
    and "pool_healthy healthy p \<Longrightarrow> length data + OVERHEAD \<le> ext_length e \<Longrightarrow> length data \<le> u32_max \<Longrightarrow> r = Ok ()"
proof -
  obtain i where o: "owned_at owned p i e" using e by (auto simp: pool_owned_def)
  obtain m' where m': "be_write ops (dp_members p ! i) (local_ext p i e) data = (m', r)"
    "p' = p\<lparr>dp_members := (dp_members p)[i := m']\<rparr>"
    using on_member_owned [OF inv o wr [unfolded pool_write_def]] by blast
  have i: "i < length (dp_members p)" "owned (dp_members p ! i) (local_ext p i e)" "inv (dp_members p ! i)"
    using o inv by (auto simp: owned_at_def pool_inv_def)
  note w = write_kept [OF i(3,2) m'(1)]
  show "pkept p p' (apart e)"
    unfolding m'(2)
    by (rule pool_kept_update [OF inv i(1), where Q = "apart (local_ext p i e)"])
      (use w o in \<open>auto simp: owned_at_def local_apart\<close>)
  have o': "owned_at owned p' i e" using o w by (simp add: m'(2) owned_at_def local_ext_def)
  then show "pool_owned owned p' e" by (auto simp: pool_owned_def)
  have h: "healthy (dp_members p ! i)" if "pool_healthy healthy p" using that i(1) by (simp add: pool_healthy_def)
  show "pool_healthy healthy p \<Longrightarrow> pool_healthy healthy p'" using h w healthy_update m'(2) by blast
  show "r = Ok () \<Longrightarrow> pool_holds owned holds p' e data"
    using write_holds [OF i(3,2)] m' o' i(1)
    by (auto simp: pool_holds_def local_ext_def intro!: exI [of _ i])
  show "pool_healthy healthy p \<Longrightarrow> length data + OVERHEAD \<le> ext_length e \<Longrightarrow> length data \<le> u32_max \<Longrightarrow> r = Ok ()"
    using write_ok [OF i(3,2) h, of data] m'(1) by (simp add: local_ext_def extent_new_def)
qed

lemma pool_read_facts:
  assumes inv: "pool_inv ops inv p" and e: "pool_owned owned p e" and rd: "pool_read ops p e = (p', r)"
  shows "pkept p p' (\<lambda>_. True)" "pool_healthy healthy p \<Longrightarrow> pool_healthy healthy p'"
    and "pool_healthy healthy p \<Longrightarrow> pool_holds owned holds p e data \<Longrightarrow> r = Ok data"
proof -
  obtain i where o: "owned_at owned p i e" using e by (auto simp: pool_owned_def)
  obtain m' where m': "be_read ops (dp_members p ! i) (local_ext p i e) = (m', r)"
    "p' = p\<lparr>dp_members := (dp_members p)[i := m']\<rparr>"
    using on_member_owned [OF inv o rd [unfolded pool_read_def]] by blast
  have i: "i < length (dp_members p)" "owned (dp_members p ! i) (local_ext p i e)" "inv (dp_members p ! i)"
    using o inv by (auto simp: owned_at_def pool_inv_def)
  note w = read_kept [OF i(3,2) m'(1)]
  show "pkept p p' (\<lambda>_. True)"
    unfolding m'(2) by (rule pool_kept_update [OF inv i(1)]) (use w in auto)
  have h: "healthy (dp_members p ! i)" if "pool_healthy healthy p" using that i(1) by (simp add: pool_healthy_def)
  show "pool_healthy healthy p \<Longrightarrow> pool_healthy healthy p'" using h w healthy_update m'(2) by blast
  assume hp: "pool_healthy healthy p" and "pool_holds owned holds p e data"
  then have "holds (dp_members p ! i) (local_ext p i e) data"
    using owned_at_unique [OF inv o] by (auto simp: pool_holds_def)
  with read_ok [OF i(3,2) h [OF hp]] m'(1) show "r = Ok data" by simp
qed

lemma pool_free_facts:
  assumes inv: "pool_inv ops inv p" and e: "pool_owned owned p e" and fr: "pool_free ops p e = (p', r)"
  shows "pkept p p' (apart e)" "pool_healthy healthy p \<Longrightarrow> pool_healthy healthy p'" "r = Ok ()"
proof -
  obtain i where o: "owned_at owned p i e" using e by (auto simp: pool_owned_def)
  obtain m' where m': "be_free ops (dp_members p ! i) (local_ext p i e) = (m', r)"
    "p' = p\<lparr>dp_members := (dp_members p)[i := m']\<rparr>"
    using on_member_owned [OF inv o fr [unfolded pool_free_def]] by blast
  have i: "i < length (dp_members p)" "owned (dp_members p ! i) (local_ext p i e)" "inv (dp_members p ! i)"
    using o inv by (auto simp: owned_at_def pool_inv_def)
  note w = free_kept [OF i(3,2) m'(1)]
  show "pkept p p' (apart e)"
    unfolding m'(2)
    by (rule pool_kept_update [OF inv i(1), where Q = "apart (local_ext p i e)"])
      (use w o in \<open>auto simp: owned_at_def local_apart\<close>)
  have h: "healthy (dp_members p ! i)" if "pool_healthy healthy p" using that i(1) by (simp add: pool_healthy_def)
  show "pool_healthy healthy p \<Longrightarrow> pool_healthy healthy p'" using h w healthy_update m'(2) by blast
  show "r = Ok ()" using w by blast
qed

lemma sync_all_facts:
  "\<forall>m \<in> set ms. inv m \<Longrightarrow> sync_all ops ms fe = (ms', r) \<Longrightarrow>
     list_all2 (\<lambda>m m'. kept inv mtot owned holds m m' (\<lambda>_. True) \<and> (healthy m \<longrightarrow> healthy m')) ms ms' \<and> r \<noteq> Panic"
proof (induction ms arbitrary: fe ms' r)
  case Nil
  then show ?case by (auto split: option.splits)
next
  case (Cons m ms)
  obtain m1 r1 where sy: "be_sync ops m = (m1, r1)" by fastforce
  note k = sync_kept [OF _ sy]
  from Cons.prems sy k obtain fe' ms1 where "sync_all ops ms fe' = (ms1, r)" "ms' = m1 # ms1"
    by (auto split: res.splits prod.splits)
  with Cons.IH [of fe' ms1 r] Cons.prems(1) k show ?case by auto
qed

lemma pool_is_backend:
  "device_backend (pool_backend ops) (pool_inv ops inv) (pool_healthy healthy) (pool_owned owned)
     (pool_holds owned holds)"
proof
  fix s s' :: "'s DevicePool" and e n ra
  assume inv: "pool_inv ops inv s"
  show "0 < ext_length e \<and> ext_offset e + ext_length e \<le> snd (be_capacity (pool_backend ops) s)"
    if own: "pool_owned owned s e"
  proof -
    obtain i where o: "owned_at owned s i e" using own by (auto simp: pool_owned_def)
    have "sum_list (take (Suc i) (member_caps ops s)) \<le> sum_list (member_caps ops s)"
      by (metis append_take_drop_id le_add1 sum_list_append)
    with slice_bounds [OF inv o] inv show ?thesis
      by (simp add: pool_backend_def pool_capacity_def pool_inv_def)
  qed
  assume "be_alloc (pool_backend ops) s n = (s', ra)"
  then show "kept (pool_inv ops inv) (\<lambda>s. snd (be_capacity (pool_backend ops) s)) (pool_owned owned)
      (pool_holds owned holds) s s' (\<lambda>_. True) \<and> (pool_healthy healthy s \<longrightarrow> pool_healthy healthy s')"
    using try_alloc_kept [OF inv] by (auto simp: pool_backend_def pool_alloc_def Let_def)
next
  fix s s' :: "'s DevicePool" and e n
  assume "pool_inv ops inv s" "be_alloc (pool_backend ops) s n = (s', Ok e)"
  then show "pool_owned owned s' e \<and> n + OVERHEAD \<le> ext_length e \<and> (\<forall>f. pool_owned owned s f \<longrightarrow> apart e f)"
    using try_alloc_kept [of s n _ _ s' "Ok e"] by (auto simp: pool_backend_def pool_alloc_def Let_def)
next
  fix s s' :: "'s DevicePool" and rs
  assume inv: "pool_inv ops inv s" and "be_sync (pool_backend ops) s = (s', rs)"
  then obtain ms where sy: "sync_all ops (dp_members s) None = (ms, rs)" "s' = s\<lparr>dp_members := ms\<rparr>"
    by (auto simp: pool_backend_def pool_sync_def split: prod.splits)
  note f = sync_all_facts [OF _ sy(1)]
  have m: "\<forall>m \<in> set (dp_members s). inv m" using inv by (simp add: pool_inv_def)
  have "pkept s s' (\<lambda>_. True)"
    unfolding sy(2) by (rule pool_kept [OF inv, where Q = "\<lambda>_ _. True"]) (use f [OF m] in \<open>auto simp: list_all2_conv_all_nth\<close>)
  moreover have "pool_healthy healthy s \<longrightarrow> pool_healthy healthy s'"
    using f [OF m] unfolding sy(2) pool_healthy_def
    by (auto simp: list_all2_conv_all_nth in_set_conv_nth) (metis nth_mem)
  ultimately show "kept (pool_inv ops inv) (\<lambda>s. snd (be_capacity (pool_backend ops) s)) (pool_owned owned)
      (pool_holds owned holds) s s' (\<lambda>_. True) \<and> (pool_healthy healthy s \<longrightarrow> pool_healthy healthy s') \<and> rs \<noteq> Panic"
    using f [OF m] by (simp add: pool_backend_def)
next
  fix s s' :: "'s DevicePool" and e data rw
  assume "pool_inv ops inv s" "pool_owned owned s e" "be_write (pool_backend ops) s e data = (s', rw)"
  then show "kept (pool_inv ops inv) (\<lambda>s. snd (be_capacity (pool_backend ops) s)) (pool_owned owned)
      (pool_holds owned holds) s s' (apart e) \<and> pool_owned owned s' e \<and>
      (pool_healthy healthy s \<longrightarrow> pool_healthy healthy s')"
    using pool_write_facts(1-3) [of s e data s' rw] by (simp add: pool_backend_def)
next
  fix s s' :: "'s DevicePool" and e data
  assume "pool_inv ops inv s" "pool_owned owned s e" "be_write (pool_backend ops) s e data = (s', Ok ())"
  then show "pool_holds owned holds s' e data"
    using pool_write_facts(4) [of s e data s' "Ok ()"] by (simp add: pool_backend_def)
next
  fix s :: "'s DevicePool" and e and data :: bytes
  assume a: "pool_inv ops inv s" "pool_owned owned s e" "pool_healthy healthy s"
    "length data + OVERHEAD \<le> ext_length e" "length data \<le> u32_max"
  obtain s' r where "pool_write ops s e data = (s', r)" by fastforce
  with pool_write_facts(5) [OF a(1,2) this a(3-5)] show "snd (be_write (pool_backend ops) s e data) = Ok ()"
    by (simp add: pool_backend_def)
next
  fix s s' :: "'s DevicePool" and e rr
  assume "pool_inv ops inv s" "pool_owned owned s e" "be_read (pool_backend ops) s e = (s', rr)"
  then show "kept (pool_inv ops inv) (\<lambda>s. snd (be_capacity (pool_backend ops) s)) (pool_owned owned)
      (pool_holds owned holds) s s' (\<lambda>_. True) \<and> (pool_healthy healthy s \<longrightarrow> pool_healthy healthy s')"
    using pool_read_facts(1,2) [of s e s' rr] by (simp add: pool_backend_def)
next
  fix s :: "'s DevicePool" and e data
  assume a: "pool_inv ops inv s" "pool_owned owned s e" "pool_healthy healthy s" "pool_holds owned holds s e data"
  obtain s' r where "pool_read ops s e = (s', r)" by fastforce
  with pool_read_facts(3) [OF a(1,2) this a(3,4)] show "snd (be_read (pool_backend ops) s e) = Ok data"
    by (simp add: pool_backend_def)
next
  fix s s' :: "'s DevicePool" and e rf
  assume "pool_inv ops inv s" "pool_owned owned s e" "be_free (pool_backend ops) s e = (s', rf)"
  then show "kept (pool_inv ops inv) (\<lambda>s. snd (be_capacity (pool_backend ops) s)) (pool_owned owned)
      (pool_holds owned holds) s s' (apart e) \<and> rf = Ok () \<and> (pool_healthy healthy s \<longrightarrow> pool_healthy healthy s')"
    using pool_free_facts [of s e s' rf] by (simp add: pool_backend_def)
qed

end

interpretation file_pool: device_backend "pool_backend (file_backend crc)" "pool_inv (file_backend crc) file_inv"
    "pool_healthy file_healthy" "pool_owned file_owned" "pool_holds file_owned (stored crc)" for crc
  by (rule file_dev.pool_is_backend)

section \<open>Building a pool\<close>

lemma pool_bases_sums:
  assumes "pool_bases ops ms acc = (bases, tiers, tot)"
    and "acc + sum_list (map (\<lambda>m. snd (be_capacity ops m)) ms) \<le> u64_max"
  shows "length bases = length ms \<and> length tiers = length ms \<and>
    tot = acc + sum_list (map (\<lambda>m. snd (be_capacity ops m)) ms) \<and>
    (\<forall>i < length ms. bases ! i = acc + sum_list (take i (map (\<lambda>m. snd (be_capacity ops m)) ms)))"
  using assms
proof (induction ops ms acc arbitrary: bases tiers tot rule: pool_bases.induct)
  case (2 ops m ms acc)
  let ?acc = "saturating_add acc (snd (be_capacity ops m))"
  obtain b t x where r: "pool_bases ops ms ?acc = (b, t, x)" by (metis prod.exhaust)
  have acc: "?acc = acc + snd (be_capacity ops m)" using "2.prems"(2) by (simp add: saturating_add_def)
  from "2.IH" [OF r] "2.prems"(2) acc
  have IH: "length b = length ms" "length t = length ms"
    "x = ?acc + sum_list (map (\<lambda>m. snd (be_capacity ops m)) ms)"
    "\<forall>i < length ms. b ! i = ?acc + sum_list (take i (map (\<lambda>m. snd (be_capacity ops m)) ms))"
    by (simp_all add: add.assoc)
  have "bases = acc # b" "tiers = tier_of (be_medium ops m) # t" "tot = x"
    using "2.prems"(1) r by simp_all
  moreover have "(acc # b) ! i = acc + sum_list (take i (map (\<lambda>m. snd (be_capacity ops m)) (m # ms)))"
    if "i < length (m # ms)" for i
    using that IH(4) acc by (cases i) (simp_all add: add.assoc)
  ultimately show ?case using IH(1-3) acc by (simp add: add.assoc)
qed simp

lemma pool_new_inv:
  assumes "pool_new ops ms = Ok p" "\<forall>m \<in> set ms. iv m"
    and "sum_list (map (\<lambda>m. snd (be_capacity ops m)) ms) \<le> u64_max"
  shows "pool_inv ops iv p" "dp_members p = ms"
proof -
  obtain b t x where r: "pool_bases ops ms 0 = (b, t, x)" by (metis prod.exhaust)
  have p: "p = \<lparr>dp_members = ms, dp_bases = b, dp_tiers = t, dp_total_bytes = x,
      dp_device_id = be_device_id ops (hd ms), dp_medium = be_medium ops (hd ms)\<rparr>"
    using assms(1) r by (auto simp: pool_new_def split: if_splits)
  show "pool_inv ops iv p" "dp_members p = ms"
    using pool_bases_sums [OF r] assms(2,3) by (auto simp: p pool_inv_def member_caps_def)
qed

section \<open>Properties\<close>

definition pool_start :: "(bytes \<Rightarrow> u32) \<Rightarrow> FileBackedDevice DevicePool client \<Rightarrow> bool" where
  "pool_start crc c \<longleftrightarrow> (\<exists>ms. pool_new (file_backend crc) ms = Ok (fst c) \<and> snd c = [] \<and>
     (\<forall>d \<in> set ms. dev_start (d, []) \<and> fs_fault (fd_file d) = None) \<and>
     sum_list (map (\<lambda>d. snd (be_capacity (file_backend crc) d)) ms) \<le> u64_max)"

lemma dev_start_file_inv: "dev_start (d, []) \<Longrightarrow> file_inv d"
  using dev_start_inv [of "(d, [])" undefined] by (simp add: dev_inv_def file_inv_def sys_inv_def)

lemma pool_start_client:
  "pool_start crc c \<Longrightarrow> client_start (pool_inv (file_backend crc) file_inv) (pool_healthy file_healthy) c"
  using pool_new_inv [of "file_backend crc" _ _ file_inv] dev_start_file_inv
  by (fastforce simp: pool_start_def client_start_def pool_healthy_def file_healthy_def)

lemma reach_mono: "reach i st s \<Longrightarrow> (\<And>x. i x \<Longrightarrow> i' x) \<Longrightarrow> reach i' st s"
  by (induction rule: reach.induct) (auto intro: reach.intros)

lemma pool_run_inv:
  assumes "reach (pool_start crc) (client_step (pool_backend (file_backend crc))) (p, L)"
  shows "client_inv (pool_inv (file_backend crc) file_inv) (pool_healthy file_healthy)
    (pool_owned file_owned) (pool_holds file_owned (stored crc)) (p, L)"
  by (rule file_pool.client.reach_inv [OF reach_mono [OF assms pool_start_client]])

lemma demo_pool:
  "\<exists>p e. reach (pool_start crc) (client_step (pool_backend (file_backend crc))) (p, [(e, Some [5, 6])])"
proof -
  obtain d where d: "demo_dev d" "fs_fault (fd_file d) = None"
    "fd_allocator d = \<lparr>ba_total_blocks = 1, ba_block_size = 4096, ba_bitmap = [0],
       ba_free_list = [(0, 1)], ba_max_extent_blocks = 4097\<rparr>"
    "sb_data_offset (fd_superblock d) = 12288"
    using demo_dev_init by blast
  have ds: "dev_start (d, [])"
    using d(1) unfolding dev_start_def demo_dev_def
    by (auto simp: u64_max_val intro!: exI [of _ "replicate 16 0"] exI [of _ None] exI [of _ 16384])
  have cap: "be_capacity (file_backend crc) d = (0, 4096)"
    by (simp add: file_backend_def dev_capacity_def used_bytes_def total_bytes_def d sum_u64_def sub_u64_def
        mul_u64_def u64_max_val)
  let ?p = "\<lparr>dp_members = [d, d], dp_bases = [0, 4096], dp_tiers = [Bulk, Bulk], dp_total_bytes = 8192,
     dp_device_id = sb_device_id (fd_superblock d), dp_medium = Virtual\<rparr>"
  have med: "be_medium (file_backend crc) d = Virtual" "be_device_id (file_backend crc) d = sb_device_id (fd_superblock d)"
    by (simp_all add: file_backend_def)
  have new: "pool_new (file_backend crc) [d, d] = Ok ?p"
    by (simp add: pool_new_def cap med saturating_add_def u64_max_val)
  have "pool_start crc (?p, [])"
    unfolding pool_start_def using new ds d(2) cap by (auto simp: u64_max_val intro!: exI [of _ "[d, d]"])
  then have r0: "reach (pool_start crc) (client_step (pool_backend (file_backend crc))) (?p, [])"
    by (rule reach_init)
  let ?e = "extent_new 0 4096"
  have ord: "[0..<Suc (Suc 0)] = [0, 1]" by simp
  have "sort_key (\<lambda>i. (dp_tiers ?p ! i, - int (member_free (file_backend crc) ?p i))) [0..<length (dp_members ?p)] = [0, 1]"
    by (simp add: ord member_free_def cap)
  then obtain d1 where al: "be_alloc (pool_backend (file_backend crc)) ?p 100 =
      (?p\<lparr>dp_members := [d1, d]\<rparr>, Ok ?e)" and d1: "fd_file d1 = fd_file d" "fd_superblock d1 = fd_superblock d"
    by (simp add: pool_backend_def pool_alloc_def file_backend_def dev_alloc_def add_u64_def OVERHEAD_def
        HEADER_SIZE_def CRC_SIZE_def u64_max_val d ba_alloc_def div_ceil_def best_fit_def mul_u64_def
        extent_new_def)
  have r1: "reach (pool_start crc) (client_step (pool_backend (file_backend crc))) (?p\<lparr>dp_members := [d1, d]\<rparr>, [(?e, None)])"
    by (rule reach_step [OF r0 cl_alloc [OF al]])
  obtain p2 where wr: "be_write (pool_backend (file_backend crc)) (?p\<lparr>dp_members := [d1, d]\<rparr>) ?e [5, 6] = (p2, Ok ())"
    by (simp add: pool_backend_def pool_write_def on_member_def route_def file_backend_def dev_write_def
        add_u64_def OVERHEAD_def HEADER_SIZE_def CRC_SIZE_def u64_max_val u32_max_val d d1 extent_new_def faultless)
  have "reach (pool_start crc) (client_step (pool_backend (file_backend crc))) (p2, [(?e, Some [5, 6])])"
    by (rule reach_step [OF r1 cl_write [OF _ wr]]) simp_all
  then show ?thesis by blast
qed

text \<open>C24: A pool behaves like one large device. In every run of a client against a pool of freshly
  initialised file-backed devices (allocation with tier and free-space preference, writes, reads,
  releases, syncs), the extents the client holds are pairwise disjoint in the pool's global
  address space, and each extent whose last write succeeded reads back that data through the
  pool's routing.\<close>

theorem pool_durable:
  assumes "reach (pool_start crc) (client_step (pool_backend (file_backend crc))) (p, L)"
  shows "sorted_wrt (\<lambda>e f. ext_bytes e \<inter> ext_bytes f = {}) (map fst L) \<and>
    (\<forall>e data. (e, Some data) \<in> set L \<longrightarrow> snd (pool_read (file_backend crc) p e) = Ok data)"
proof -
  note i = pool_run_inv [OF assms]
  have "snd (pool_read (file_backend crc) p e) = Ok data" if "(e, Some data) \<in> set L" for e data
    using file_pool.read_ok [of crc p e data] i that by (force simp: client_inv_def pool_backend_def)
  moreover have "sorted_wrt (\<lambda>e f. ext_bytes e \<inter> ext_bytes f = {}) (map fst L)"
    using i by (simp add: client_inv_def apart_def [abs_def])
  ultimately show ?thesis by blast
qed

theorem pool_durable_witness: "\<exists>p e. snd (pool_read (file_backend (\<lambda>_. 0)) p e) = Ok [5, 6]"
proof -
  obtain p e where r: "reach (pool_start (\<lambda>_. 0)) (client_step (pool_backend (file_backend (\<lambda>_. 0)))) (p, [(e, Some [5, 6])])"
    using demo_pool by blast
  from pool_durable [OF r] show ?thesis by auto
qed

end
