(* ===== verification/Block_Journal.thy ===== *)
theory Block_Journal
  imports Block_Allocator
begin

text \<open>
  The intent journal (\<^verbatim>\<open>journal.rs\<close>) and the TRIM queue (\<^verbatim>\<open>trim.rs\<close>) of
  \<^verbatim>\<open>crates/kiseki-block/src\<close>. The journal file is what the last completed rename left at the path;
  the JSON encoder and decoder (\<^verbatim>\<open>serde_json\<close>) are arguments, and every persist takes a flag telling
  whether its file-system calls succeed. Elapsed time is an argument of \<open>should_flush\<close>.
\<close>

section \<open>Journal\<close>

datatype JournalOp = JAlloc | JFree

record JournalEntry =
  je_seq :: nat
  je_offset :: nat
  je_length :: nat
  je_op :: JournalOp
  je_applied :: bool

record 'c Journal =
  j_file :: "'c option"
  j_entries :: "JournalEntry list"
  j_next_seq :: nat

datatype JournalError = JournalIo

definition journal_open :: "('c \<Rightarrow> JournalEntry list option) \<Rightarrow> 'c option \<Rightarrow> (JournalError, 'c Journal) res" where
  "journal_open from_str file =
     (let entries = (case file of
                       Some content \<Rightarrow> (case from_str content of Some es \<Rightarrow> es | None \<Rightarrow> [])
                     | None \<Rightarrow> []) in
      bind_res (add_u64 (foldr max (map je_seq entries) 0) 1) (\<lambda>next_seq.
        Ok \<lparr>j_file = file, j_entries = entries, j_next_seq = next_seq\<rparr>))"

definition persist :: "(JournalEntry list \<Rightarrow> 'c) \<Rightarrow> bool \<Rightarrow> 'c Journal \<Rightarrow> 'c Journal \<times> (JournalError, unit) res" where
  "persist to_string io_ok j =
     (if io_ok then (j\<lparr>j_file := Some (to_string (j_entries j))\<rparr>, Ok ()) else (j, Err JournalIo))"

definition record_op :: "(JournalEntry list \<Rightarrow> 'c) \<Rightarrow> bool \<Rightarrow> 'c Journal \<Rightarrow> Extent \<Rightarrow> JournalOp \<Rightarrow>
    'c Journal \<times> (JournalError, nat) res" where
  "record_op to_string io_ok j extent op =
     (let seq = j_next_seq j in
      bind_st (j, add_u64 (j_next_seq j) 1) (\<lambda>j next_seq.
        let j = j\<lparr>j_next_seq := next_seq,
                  j_entries := j_entries j @
                    [\<lparr>je_seq = seq, je_offset = ext_offset extent, je_length = ext_length extent,
                      je_op = op, je_applied = False\<rparr>]\<rparr> in
        bind_st (persist to_string io_ok j) (\<lambda>j _. (j, Ok seq))))"

definition record_alloc :: "(JournalEntry list \<Rightarrow> 'c) \<Rightarrow> bool \<Rightarrow> 'c Journal \<Rightarrow> Extent \<Rightarrow>
    'c Journal \<times> (JournalError, nat) res" where
  "record_alloc to_string io_ok j extent = record_op to_string io_ok j extent JAlloc"

definition record_free :: "(JournalEntry list \<Rightarrow> 'c) \<Rightarrow> bool \<Rightarrow> 'c Journal \<Rightarrow> Extent \<Rightarrow>
    'c Journal \<times> (JournalError, nat) res" where
  "record_free to_string io_ok j extent = record_op to_string io_ok j extent JFree"

fun mark_first :: "nat \<Rightarrow> JournalEntry list \<Rightarrow> JournalEntry list" where
  "mark_first seq [] = []"
| "mark_first seq (e # es) =
     (if je_seq e = seq then e\<lparr>je_applied := True\<rparr> # es else e # mark_first seq es)"

definition mark_applied :: "(JournalEntry list \<Rightarrow> 'c) \<Rightarrow> bool \<Rightarrow> 'c Journal \<Rightarrow> nat \<Rightarrow>
    'c Journal \<times> (JournalError, unit) res" where
  "mark_applied to_string io_ok j seq =
     persist to_string io_ok (j\<lparr>j_entries := mark_first seq (j_entries j)\<rparr>)"

definition unapplied :: "'c Journal \<Rightarrow> JournalEntry list" where
  "unapplied j = filter (\<lambda>e. \<not> je_applied e) (j_entries j)"

definition journal_compact :: "(JournalEntry list \<Rightarrow> 'c) \<Rightarrow> bool \<Rightarrow> 'c Journal \<Rightarrow>
    'c Journal \<times> (JournalError, unit) res" where
  "journal_compact to_string io_ok j =
     persist to_string io_ok (j\<lparr>j_entries := filter (\<lambda>e. \<not> je_applied e) (j_entries j)\<rparr>)"

definition journal_len :: "'c Journal \<Rightarrow> nat" where
  "journal_len j = length (j_entries j)"

definition journal_is_empty :: "'c Journal \<Rightarrow> bool" where
  "journal_is_empty j \<longleftrightarrow> j_entries j = []"

section \<open>TRIM queue\<close>

record TrimConfig =
  tc_max_batch :: nat
  tc_flush_interval :: nat
  tc_enabled :: bool

definition trim_config_default :: TrimConfig where
  "trim_config_default = \<lparr>tc_max_batch = 256, tc_flush_interval = 5, tc_enabled = True\<rparr>"

record TrimQueue =
  tq_pending :: "Extent list"
  tq_config :: TrimConfig
  tq_last_flush :: nat
  tq_total_flushed :: nat

definition trim_new :: "nat \<Rightarrow> TrimConfig \<Rightarrow> TrimQueue" where
  "trim_new now config =
     \<lparr>tq_pending = [], tq_config = config, tq_last_flush = now, tq_total_flushed = 0\<rparr>"

definition enqueue :: "TrimQueue \<Rightarrow> Extent \<Rightarrow> TrimQueue \<times> bool" where
  "enqueue q extent =
     (if \<not> tc_enabled (tq_config q) then (q, False)
      else let q = q\<lparr>tq_pending := tq_pending q @ [extent]\<rparr> in
        (q, length (tq_pending q) \<ge> tc_max_batch (tq_config q)))"

definition should_flush :: "nat \<Rightarrow> TrimQueue \<Rightarrow> bool" where
  "should_flush now q =
     (if \<not> tc_enabled (tq_config q) \<or> tq_pending q = [] then False
      else length (tq_pending q) \<ge> tc_max_batch (tq_config q) \<or>
        now - tq_last_flush q \<ge> tc_flush_interval (tq_config q))"

fun trim_merge :: "Extent list \<Rightarrow> Extent list \<Rightarrow> (AllocError, Extent list) res" where
  "trim_merge [] merged = Ok merged"
| "trim_merge (extent # es) merged =
     (if merged = [] then trim_merge es [extent]
      else let lst = last merged in
        bind_res (add_u64 (ext_offset lst) (ext_length lst)) (\<lambda>lend.
          if lend = ext_offset extent
          then bind_res (add_u64 (ext_length lst) (ext_length extent)) (\<lambda>len.
                 trim_merge es (butlast merged @ [lst\<lparr>ext_length := len\<rparr>]))
          else trim_merge es (merged @ [extent])))"

definition trim_flush :: "nat \<Rightarrow> TrimQueue \<Rightarrow> TrimQueue \<times> (AllocError, Extent list) res" where
  "trim_flush now q =
     (if tq_pending q = [] then (q, Ok [])
      else
        let q = q\<lparr>tq_pending := sort_key ext_offset (tq_pending q)\<rparr> in
        bind_st (q, trim_merge (tq_pending q) []) (\<lambda>q merged.
        bind_st (q, add_u64 (tq_total_flushed q) (length (tq_pending q))) (\<lambda>q n.
          (q\<lparr>tq_total_flushed := n, tq_pending := [], tq_last_flush := now\<rparr>, Ok merged))))"

definition pending_count :: "TrimQueue \<Rightarrow> nat" where
  "pending_count q = length (tq_pending q)"

section \<open>What a flush returns\<close>

definition bytes_of :: "Extent list \<Rightarrow> nat set" where
  "bytes_of es = (\<Union>e \<in> set es. ext_bytes e)"

definition ends_by :: "Extent \<Rightarrow> Extent \<Rightarrow> bool" where
  "ends_by e f \<longleftrightarrow> ext_offset e + ext_length e \<le> ext_offset f"

definition ends_before :: "Extent \<Rightarrow> Extent \<Rightarrow> bool" where
  "ends_before e f \<longleftrightarrow> ext_offset e + ext_length e < ext_offset f"

lemma bytes_of_simps [simp]:
  "bytes_of [] = {}" "bytes_of (e # es) = ext_bytes e \<union> bytes_of es"
  "bytes_of (xs @ ys) = bytes_of xs \<union> bytes_of ys"
  by (auto simp: bytes_of_def)

lemma trim_merge_bytes: "trim_merge es merged = Ok ms \<Longrightarrow> bytes_of ms = bytes_of merged \<union> bytes_of es"
proof (induction es merged arbitrary: ms rule: trim_merge.induct)
  case (2 extent es merged)
  show ?case
  proof (cases "merged = []")
    case True
    with 2 show ?thesis by simp
  next
    case False
    let ?l = "last merged"
    have m: "bytes_of merged = bytes_of (butlast merged) \<union> ext_bytes ?l"
      using append_butlast_last_id [OF False] bytes_of_simps(3) [of "butlast merged" "[?l]"] by simp
    show ?thesis
    proof (cases "ext_offset ?l + ext_length ?l = ext_offset extent")
      case True
      then have "ext_bytes (?l\<lparr>ext_length := ext_length ?l + ext_length extent\<rparr>) = ext_bytes ?l \<union> ext_bytes extent"
        by (auto simp: ext_bytes_def)
      with 2 False True m show ?thesis by (auto simp: Let_def)
    qed (use 2 False in \<open>auto simp: Let_def\<close>)
  qed
qed simp

lemma trim_merge_separated:
  assumes "trim_merge es merged = Ok ms" "sorted_wrt ends_by es" "sorted_wrt ends_before merged"
    and "\<forall>m \<in> set merged. \<forall>e \<in> set es. ends_by m e"
  shows "sorted_wrt ends_before ms"
  using assms
proof (induction es merged arbitrary: ms rule: trim_merge.induct)
  case (2 extent es merged)
  show ?case
  proof (cases "merged = []")
    case True
    with 2 show ?thesis by simp
  next
    case False
    let ?l = "last merged" and ?b = "butlast merged"
    have m: "merged = ?b @ [?l]" using False by simp
    have sb: "sorted_wrt ends_before ?b" "\<forall>x \<in> set ?b. ends_before x ?l"
      using "2.prems"(3) by (subst (asm) m, simp add: sorted_wrt_append)+
    have le: "ends_by ?l extent" "\<forall>e \<in> set es. ends_by extent e" "\<forall>x \<in> set ?b. ends_by x extent"
      using "2.prems"(2,4) False by (auto dest: in_set_butlastD)
    show ?thesis
    proof (cases "ext_offset ?l + ext_length ?l = ext_offset extent")
      case True
      let ?n = "?l\<lparr>ext_length := ext_length ?l + ext_length extent\<rparr>"
      have "trim_merge es (?b @ [?n]) = Ok ms" using "2.prems"(1) False True by (auto simp: Let_def)
      moreover have "sorted_wrt ends_before (?b @ [?n])"
        using sb by (auto simp: sorted_wrt_append ends_before_def)
      moreover have "\<forall>x \<in> set (?b @ [?n]). \<forall>e \<in> set es. ends_by x e"
        using "2.prems"(4) le True by (auto simp: ends_by_def dest: in_set_butlastD)
      moreover have "ext_offset ?l + ext_length ?l \<le> u64_max" "ext_length ?l + ext_length extent \<le> u64_max"
        using "2.prems"(1) False True by (auto simp: Let_def)
      ultimately show ?thesis using "2.IH"(2) [OF False refl, of "ext_offset extent" "ext_length ?l + ext_length extent" ms]
          "2.prems"(2) True by simp
    next
      case ne: False
      have "trim_merge es (merged @ [extent]) = Ok ms" using "2.prems"(1) False ne by (auto simp: Let_def)
      moreover have "ends_before x extent" if x: "x \<in> set merged" for x
      proof (cases "x \<in> set ?b")
        case True
        with sb(2) le(1) show ?thesis by (auto simp: ends_before_def ends_by_def)
      next
        case no: False
        have "x \<in> set (?b @ [?l])" using x m by metis
        with no have "x = ?l" by simp
        with le(1) ne show ?thesis by (simp add: ends_before_def ends_by_def)
      qed
      then have "sorted_wrt ends_before (merged @ [extent])" using "2.prems"(3) by (simp add: sorted_wrt_append)
      moreover have "\<forall>x \<in> set (merged @ [extent]). \<forall>e \<in> set es. ends_by x e" using "2.prems"(4) le by auto
      moreover have "ext_offset ?l + ext_length ?l \<le> u64_max" using "2.prems"(1) False by (auto simp: Let_def)
      ultimately show ?thesis
        using "2.IH"(3) [OF False refl, of "ext_offset ?l + ext_length ?l" ms] "2.prems"(2) ne by simp
    qed
  qed
qed simp

lemma trim_merge_total:
  assumes "\<forall>e \<in> set es \<union> set merged. ext_offset e + ext_length e \<le> u64_max"
  shows "\<exists>ms. trim_merge es merged = Ok ms"
  using assms
proof (induction es merged rule: trim_merge.induct)
  case (2 extent es merged)
  show ?case
  proof (cases "merged = []")
    case True
    with 2 show ?thesis by simp
  next
    case False
    let ?l = "last merged"
    have l: "?l \<in> set merged" using False by simp
    then have b: "ext_offset ?l + ext_length ?l \<le> u64_max" "ext_offset extent + ext_length extent \<le> u64_max"
      using "2.prems" by auto
    show ?thesis
    proof (cases "ext_offset ?l + ext_length ?l = ext_offset extent")
      case True
      let ?n = "?l\<lparr>ext_length := ext_length ?l + ext_length extent\<rparr>"
      have "\<forall>e \<in> set es \<union> set (butlast merged @ [?n]). ext_offset e + ext_length e \<le> u64_max"
        using "2.prems" b True by (auto dest: in_set_butlastD)
      moreover have "ext_length ?l + ext_length extent \<le> u64_max" using b True by linarith
      ultimately have "\<exists>ms. trim_merge es (butlast merged @ [?n]) = Ok ms"
        using "2.IH"(2) [OF False refl, of "ext_offset extent" "ext_length ?l + ext_length extent"] b True by simp
      with False True b \<open>ext_length ?l + ext_length extent \<le> u64_max\<close> show ?thesis by (simp add: Let_def)
    next
      case ne: False
      with "2.IH"(3) [OF False refl, of "ext_offset ?l + ext_length ?l"] "2.prems" b False
      show ?thesis by (simp add: Let_def)
    qed
  qed
qed simp

lemma sorted_disjoint_ends_by:
  assumes "distinct es" "\<forall>e \<in> set es. 0 < ext_length e"
    and "\<forall>e \<in> set es. \<forall>f \<in> set es. e \<noteq> f \<longrightarrow> ext_bytes e \<inter> ext_bytes f = {}"
  shows "sorted_wrt ends_by (sort_key ext_offset es)"
proof -
  let ?s = "sort_key ext_offset es"
  have "ends_by (?s ! i) (?s ! j)" if ij: "i < j" "j < length ?s" for i j
  proof -
    have d: "distinct ?s" using assms(1) by simp
    then have ne: "?s ! i \<noteq> ?s ! j" using ij by (simp add: nth_eq_iff_index_eq)
    have mem: "?s ! i \<in> set es" "?s ! j \<in> set es"
      using ij nth_mem [of i ?s] nth_mem [of j ?s] by simp_all
    have "sorted (map ext_offset ?s)" by simp
    then have "ext_offset (?s ! i) \<le> ext_offset (?s ! j)"
      using ij sorted_nth_mono [of "map ext_offset ?s" i j] by simp
    moreover have "ext_bytes (?s ! i) \<inter> ext_bytes (?s ! j) = {}" using assms(3) ne mem by blast
    moreover have "0 < ext_length (?s ! i)" "0 < ext_length (?s ! j)" using assms(2) mem by auto
    ultimately show ?thesis unfolding ends_by_def ext_bytes_def ivl_disjoint_nat by linarith
  qed
  then show ?thesis by (simp add: sorted_wrt_iff_nth_less)
qed

text \<open>A TRIM flush loses nothing and invents nothing. For pending extents that end inside the
  address space, flushing always returns a list that covers exactly the bytes of the pending
  extents and leaves the queue empty; when the pending extents are distinct, non-empty and
  disjoint, the returned list is in address order with a gap after each extent, so it cannot be
  coalesced further.\<close>

lemma trim_flush_exact:
  assumes "\<forall>e \<in> set (tq_pending q). ext_offset e + ext_length e \<le> u64_max"
    and "tq_total_flushed q + length (tq_pending q) \<le> u64_max"
  shows "\<exists>q' ms. trim_flush now q = (q', Ok ms) \<and> tq_pending q' = [] \<and>
    (\<Union>e \<in> set ms. ext_bytes e) = (\<Union>e \<in> set (tq_pending q). ext_bytes e) \<and>
    (distinct (tq_pending q) \<and> (\<forall>e \<in> set (tq_pending q). 0 < ext_length e) \<and>
     (\<forall>e \<in> set (tq_pending q). \<forall>f \<in> set (tq_pending q). e \<noteq> f \<longrightarrow> ext_bytes e \<inter> ext_bytes f = {}) \<longrightarrow>
     sorted_wrt (\<lambda>e f. ext_offset e + ext_length e < ext_offset f) ms)"
proof (cases "tq_pending q = []")
  case False
  let ?s = "sort_key ext_offset (tq_pending q)"
  obtain ms where ms: "trim_merge ?s [] = Ok ms" using trim_merge_total [of ?s "[]"] assms(1) by auto
  have "bytes_of ms = bytes_of (tq_pending q)" using trim_merge_bytes [OF ms] by (simp add: bytes_of_def)
  moreover have "sorted_wrt ends_before ms" if "sorted_wrt ends_by ?s"
    using trim_merge_separated [OF ms that] by simp
  ultimately show ?thesis
    using False ms assms(2) sorted_disjoint_ends_by [of "tq_pending q"]
    by (auto simp: trim_flush_def Let_def add_u64_def bytes_of_def ends_before_def [abs_def])
qed (simp add: trim_flush_def)

definition demo_trim :: TrimQueue where
  "demo_trim = \<lparr>tq_pending = [extent_new 8192 4096, extent_new 0 4096, extent_new 4096 4096],
     tq_config = trim_config_default, tq_last_flush = 0, tq_total_flushed = 0\<rparr>"

lemma trim_flush_exact_example:
  "\<exists>q' ms. trim_flush 9 demo_trim = (q', Ok ms) \<and> tq_pending q' = []"
  using trim_flush_exact [of demo_trim 9] by (auto simp: demo_trim_def extent_new_def u64_max_val)

section \<open>Journal recovery\<close>

inductive journal_step :: "(JournalEntry list \<Rightarrow> 'c) \<Rightarrow> 'c Journal \<Rightarrow> 'c Journal \<Rightarrow> bool" for to_string where
  jstep_record: "record_op to_string io_ok j e op = (j', r) \<Longrightarrow> r \<noteq> Panic \<Longrightarrow> journal_step to_string j j'"
| jstep_mark: "mark_applied to_string io_ok j seq = (j', ru) \<Longrightarrow> journal_step to_string j j'"
| jstep_compact: "journal_compact to_string io_ok j = (j', ru) \<Longrightarrow> journal_step to_string j j'"

definition journal_start :: "('c \<Rightarrow> JournalEntry list option) \<Rightarrow> 'c Journal \<Rightarrow> bool" where
  "journal_start from_str j \<longleftrightarrow> journal_open from_str None = Ok j"

definition journal_inv :: "'c Journal \<Rightarrow> bool" where
  "journal_inv j \<longleftrightarrow> sorted_wrt (<) (map je_seq (j_entries j)) \<and>
     (\<forall>e \<in> set (j_entries j). je_seq e < j_next_seq j) \<and> j_next_seq j \<le> u64_max"

lemma map_seq_mark_first [simp]: "map je_seq (mark_first seq es) = map je_seq es"
  by (induction es) auto

lemma seqs_mark_first: "(\<forall>e \<in> set (mark_first seq es). je_seq e < n) \<longleftrightarrow> (\<forall>e \<in> set es. je_seq e < n)"
  by (induction es) auto

interpretation journal: invariant_system "journal_start fs" "journal_step ts" journal_inv for fs ts
proof
  fix j :: "'a Journal" assume "journal_start fs j"
  then show "journal_inv j" by (auto simp: journal_start_def journal_open_def journal_inv_def u64_max_val)
next
  fix j j' assume inv: "journal_inv j" and "journal_step ts j j'"
  from this(2) show "journal_inv j'"
  proof cases
    case (jstep_record ok e op r)
    have "add_u64 (j_next_seq j) 1 \<noteq> (Panic :: (JournalError, nat) res)"
      using jstep_record by (auto simp: record_op_def Let_def)
    then have "j_next_seq j + 1 \<le> u64_max" by (auto simp: add_u64_def split: if_splits)
    moreover from this jstep_record(1) have "j_next_seq j' = j_next_seq j + 1"
      "\<exists>x. j_entries j' = j_entries j @ [x] \<and> je_seq x = j_next_seq j"
      by (auto simp: record_op_def Let_def add_u64_def persist_def split: if_splits)
    ultimately show ?thesis using inv
      by (auto simp: journal_inv_def sorted_wrt_append less_Suc_eq)
  next
    case (jstep_mark ok seq ru)
    then have "j_entries j' = mark_first seq (j_entries j)" "j_next_seq j' = j_next_seq j"
      by (auto simp: mark_applied_def persist_def split: if_splits)
    with inv show ?thesis by (simp add: journal_inv_def seqs_mark_first)
  next
    case (jstep_compact ok ru)
    then have "j_entries j' = filter (\<lambda>e. \<not> je_applied e) (j_entries j)" "j_next_seq j' = j_next_seq j"
      by (auto simp: journal_compact_def persist_def split: if_splits)
    with inv show ?thesis by (simp add: journal_inv_def sorted_wrt_map sorted_wrt_filter)
  qed
qed

lemma max_seq_bound: "\<forall>e \<in> set es. je_seq e < n \<Longrightarrow> 0 < n \<Longrightarrow> foldr max (map je_seq es) 0 < n"
  by (induction es) auto

lemma max_seq_ge: "e \<in> set es \<Longrightarrow> je_seq e \<le> foldr max (map je_seq es) 0"
  by (induction es) auto

text \<open>A recorded intent survives a crash. Take any history of journal operations whose persists
  succeed or fail, with a decoder that inverts the encoder. When recording an intent succeeds, its
  sequence number is larger than every number in the journal, and reopening the journal file
  gives back exactly the entries in memory, among them the intent as an unapplied entry, with a
  next sequence number above all of them.\<close>

lemma journal_intent_durable:
  assumes "reach (journal_start from_str) (journal_step to_string) j"
    and "\<And>es. from_str (to_string es) = Some es"
    and "record_op to_string io_ok j extent op = (j', Ok seq)"
  shows "(\<forall>e \<in> set (j_entries j). je_seq e < seq) \<and>
    (\<exists>j2. journal_open from_str (j_file j') = Ok j2 \<and> j_entries j2 = j_entries j' \<and>
       \<lparr>je_seq = seq, je_offset = ext_offset extent, je_length = ext_length extent,
        je_op = op, je_applied = False\<rparr> \<in> set (unapplied j2) \<and>
       (\<forall>e \<in> set (j_entries j2). je_seq e < j_next_seq j2))"
proof -
  let ?x = "\<lparr>je_seq = seq, je_offset = ext_offset extent, je_length = ext_length extent,
    je_op = op, je_applied = False\<rparr>"
  have inv: "journal_inv j" using journal.reach_inv [OF assms(1)] .
  have seq: "seq = j_next_seq j" "seq + 1 \<le> u64_max" and j': "j_entries j' = j_entries j @ [?x]"
    "j_file j' = Some (to_string (j_entries j'))"
    using assms(3) by (auto simp: record_op_def Let_def persist_def split: if_splits)
  have below: "\<forall>e \<in> set (j_entries j). je_seq e < seq" using inv seq(1) by (simp add: journal_inv_def)
  then have "\<forall>e \<in> set (j_entries j'). je_seq e < seq + 1" using j'(1) by auto
  from max_seq_bound [OF this] seq(2) have "foldr max (map je_seq (j_entries j')) 0 + 1 \<le> u64_max" by linarith
  then have "journal_open from_str (j_file j') = Ok \<lparr>j_file = j_file j', j_entries = j_entries j',
      j_next_seq = foldr max (map je_seq (j_entries j')) 0 + 1\<rparr>"
    unfolding j'(2) by (simp add: journal_open_def assms(2) Let_def)
  moreover have "\<forall>e \<in> set (j_entries j'). je_seq e < foldr max (map je_seq (j_entries j')) 0 + 1"
    using max_seq_ge by (metis less_add_one order_le_less_trans)
  ultimately show ?thesis using below j'(1) by (simp add: unapplied_def)
qed

lemma journal_intent_durable_example:
  "\<exists>j j2. journal_open Some None = Ok j \<and>
     journal_open Some (j_file (fst (record_op id True j (extent_new 0 4096) JAlloc))) = Ok j2 \<and>
     length (j_entries j2) = 1"
proof -
  let ?j = "\<lparr>j_file = None, j_entries = [], j_next_seq = 1\<rparr> :: JournalEntry list Journal"
  have o: "journal_open Some None = Ok ?j" by (simp add: journal_open_def u64_max_val)
  then have r: "reach (journal_start Some) (journal_step id) ?j" by (intro reach_init) (simp add: journal_start_def)
  obtain j' where rec: "record_op id True ?j (extent_new 0 4096) JAlloc = (j', Ok 1)" "length (j_entries j') = 1"
    by (simp add: record_op_def add_u64_def u64_max_val persist_def)
  from journal_intent_durable [OF r _ rec(1)] rec o show ?thesis by fastforce
qed

end
