(* ===== verification/Log_Types.thy ===== *)
theory Log_Types
  imports Kiseki_Time
begin

text \<open>
  Data of the log context: deltas, shards, errors and requests (\<^verbatim>\<open>delta.rs\<close>, \<^verbatim>\<open>shard.rs\<close>,
  \<^verbatim>\<open>error.rs\<close>, \<^verbatim>\<open>traits.rs\<close> of \<^verbatim>\<open>crates/kiseki-log/src\<close>), consumer watermarks (\<^verbatim>\<open>watermark.rs\<close>), and
  the inline-store interface with its key derivation (\<^verbatim>\<open>crates/kiseki-common/src/inline_store.rs\<close>).
  Identifiers (UUIDs, node ids) are natural numbers, keys are byte strings of length 32 ordered
  lexicographically. A watermark table is an association list with distinct names; the iteration
  order of the code's hash map does not matter for what is computed from it.
\<close>

unbundle bit_operations_syntax

section \<open>Deltas\<close>

datatype OperationType =
    Create | Update | Delete | Rename | SetAttribute | Finalize | NamespaceCreate
  | MigrateChunkLocations

record DeltaHeader =
  dh_sequence :: nat
  dh_shard_id :: nat
  dh_tenant_id :: nat
  dh_operation :: OperationType
  dh_timestamp :: DeltaTimestamp
  dh_hashed_key :: bytes
  dh_tombstone :: bool
  dh_chunk_refs :: "bytes list"
  dh_payload_size :: nat
  dh_has_inline_data :: bool

record DeltaPayload =
  dp_ciphertext :: bytes
  dp_auth_tag :: bytes
  dp_nonce :: bytes
  dp_system_epoch :: "nat option"
  dp_tenant_epoch :: "nat option"
  dp_tenant_wrapped_material :: bytes

record Delta =
  d_header :: DeltaHeader
  d_payload :: DeltaPayload

abbreviation d_seq :: "Delta \<Rightarrow> nat" where
  "d_seq d \<equiv> dh_sequence (d_header d)"

abbreviation d_key :: "Delta \<Rightarrow> bytes" where
  "d_key d \<equiv> dh_hashed_key (d_header d)"

section \<open>Shards\<close>

datatype ShardState = Healthy | Election | QuorumLost | Splitting | Merging | Retiring | Maintenance

fun as_u8 :: "ShardState \<Rightarrow> u8" where
  "as_u8 Healthy = 0"
| "as_u8 Election = 1"
| "as_u8 QuorumLost = 2"
| "as_u8 Splitting = 3"
| "as_u8 Merging = 4"
| "as_u8 Retiring = 5"
| "as_u8 Maintenance = 6"

definition from_u8 :: "u8 \<Rightarrow> ShardState option" where
  "from_u8 b =
     (if b = 0 then Some Healthy else if b = 1 then Some Election else if b = 2 then Some QuorumLost
      else if b = 3 then Some Splitting else if b = 4 then Some Merging
      else if b = 5 then Some Retiring else if b = 6 then Some Maintenance else None)"

definition accepts_writes :: "ShardState \<Rightarrow> bool" where
  "accepts_writes s \<longleftrightarrow> s = Healthy \<or> s = Splitting \<or> s = Merging"

definition is_busy :: "ShardState \<Rightarrow> bool" where
  "is_busy s \<longleftrightarrow> s = Splitting \<or> s = Merging"

record ShardConfig =
  sc_max_delta_count :: nat
  sc_max_byte_size :: nat
  sc_inline_threshold_bytes :: nat
  sc_inline_floor_bytes :: nat
  sc_inline_ceiling_bytes :: nat

definition shard_config_default :: ShardConfig where
  "shard_config_default =
     \<lparr>sc_max_delta_count = 10000000, sc_max_byte_size = 10 * 1024 * 1024 * 1024,
      sc_inline_threshold_bytes = 4096, sc_inline_floor_bytes = 128, sc_inline_ceiling_bytes = 65536\<rparr>"

record ShardInfo =
  si_shard_id :: nat
  si_tenant_id :: nat
  si_raft_members :: "nat list"
  si_leader :: "nat option"
  si_tip :: nat
  si_delta_count :: nat
  si_byte_size :: nat
  si_state :: ShardState
  si_config :: ShardConfig
  si_range_start :: bytes
  si_range_end :: bytes

section \<open>Errors and requests\<close>

datatype LogError =
    ShardNotFound nat
  | MaintenanceMode nat
  | ShardSplitting nat
  | LeaderUnavailable nat
  | ForwardToLeader nat nat
  | LogQuorumLost nat
  | KeyOutOfRange nat
  | ShardBusy nat string
  | InvalidRange nat
  | DeltaLogPruned nat nat
  | Unavailable
  | StoreConstruction string
  | LogIo

record AppendDeltaRequest =
  ar_shard_id :: nat
  ar_tenant_id :: nat
  ar_operation :: OperationType
  ar_timestamp :: DeltaTimestamp
  ar_hashed_key :: bytes
  ar_chunk_refs :: "bytes list"
  ar_payload :: bytes
  ar_has_inline_data :: bool

record ReadDeltasRequest =
  rr_shard_id :: nat
  rr_from :: nat
  rr_to :: nat

definition BUFFERED :: nat where
  "BUFFERED = u64_max"

definition checked_next :: "nat \<Rightarrow> nat option" where
  "checked_next n = (if n + 1 \<le> u64_max then Some (n + 1) else None)"

definition is_buffered_sentinel :: "nat \<Rightarrow> bool" where
  "is_buffered_sentinel n \<longleftrightarrow> n = u64_max"

section \<open>Consumer watermarks\<close>

type_synonym ConsumerWatermarks = "(string \<times> nat) list"

definition wm_advance :: "string \<Rightarrow> nat \<Rightarrow> ConsumerWatermarks \<Rightarrow> ConsumerWatermarks" where
  "wm_advance consumer position w =
     (if map_of w consumer = None then w @ [(consumer, position)]
      else map (\<lambda>(c, p). (c, if c = consumer \<and> position > p then position else p)) w)"

definition wm_register :: "string \<Rightarrow> nat \<Rightarrow> ConsumerWatermarks \<Rightarrow> ConsumerWatermarks" where
  "wm_register consumer position w =
     (if map_of w consumer = None then w @ [(consumer, position)] else w)"

definition wm_gc_boundary :: "ConsumerWatermarks \<Rightarrow> nat option" where
  "wm_gc_boundary w = (if w = [] then None else Some (foldr min (map snd w) (snd (hd w))))"

definition wm_get :: "string \<Rightarrow> ConsumerWatermarks \<Rightarrow> nat option" where
  "wm_get consumer w = map_of w consumer"

definition wm_is_stalled :: "string \<Rightarrow> nat \<Rightarrow> ConsumerWatermarks \<Rightarrow> bool" where
  "wm_is_stalled consumer threshold_behind w =
     (case map_of w consumer of
        None \<Rightarrow> False
      | Some pos \<Rightarrow> foldr max (map snd w) 0 - pos > threshold_behind)"

definition wm_consumer_count :: "ConsumerWatermarks \<Rightarrow> nat" where
  "wm_consumer_count w = length w"

definition wm_as_vec :: "ConsumerWatermarks \<Rightarrow> (string \<times> nat) list" where
  "wm_as_vec w = w"

section \<open>Inline store interface\<close>

record 'i InlineStore =
  is_put :: "'i \<Rightarrow> bytes \<Rightarrow> bytes \<Rightarrow> 'i \<times> (unit, bool) res"
  is_get :: "'i \<Rightarrow> bytes \<Rightarrow> (unit, bytes option) res"
  is_delete :: "'i \<Rightarrow> bytes \<Rightarrow> 'i \<times> (unit, bool) res"

fun put_many_default :: "'i InlineStore \<Rightarrow> 'i \<Rightarrow> (bytes \<times> bytes) list \<Rightarrow> nat \<Rightarrow> 'i \<times> (unit, nat) res" where
  "put_many_default ops s [] new_count = (s, Ok new_count)"
| "put_many_default ops s ((key, data) # items) new_count =
     bind_st (is_put ops s key data) (\<lambda>s fresh.
       put_many_default ops s items (if fresh then new_count + 1 else new_count))"

fun delete_many_default :: "'i InlineStore \<Rightarrow> 'i \<Rightarrow> bytes list \<Rightarrow> nat \<Rightarrow> 'i \<times> (unit, nat) res" where
  "delete_many_default ops s [] removed = (s, Ok removed)"
| "delete_many_default ops s (key # keys) removed =
     bind_st (is_delete ops s key) (\<lambda>s existed.
       delete_many_default ops s keys (if existed then removed + 1 else removed))"

definition derive_inline_key :: "bytes \<Rightarrow> nat \<Rightarrow> bytes" where
  "derive_inline_key hashed_key sequence =
     (let seq_bytes = le_bytes 8 sequence in
      take 24 hashed_key @ map2 (XOR) (drop 24 hashed_key) seq_bytes)"

text \<open>What the log relies on: a successful put stores the data under the key and touches nothing
  else, a successful delete removes the key and nothing else, failed calls change nothing, and a
  successful get returns what is stored. \<open>view\<close> is the stored contents.\<close>

locale inline_store =
  fixes ops :: "'i InlineStore"
    and view :: "'i \<Rightarrow> bytes \<Rightarrow> bytes option"
    and okay :: "'i \<Rightarrow> bool"
  assumes put_ok: "okay s \<Longrightarrow> is_put ops s k d = (s', Ok b) \<Longrightarrow> okay s' \<and> view s' = (view s)(k \<mapsto> d)"
    and put_err: "okay s \<Longrightarrow> is_put ops s k d = (s', Err e) \<Longrightarrow> okay s' \<and> view s' = view s"
    and put_no_panic: "okay s \<Longrightarrow> snd (is_put ops s k d) \<noteq> Panic"
    and delete_ok: "okay s \<Longrightarrow> is_delete ops s k = (s', Ok b) \<Longrightarrow> okay s' \<and> view s' = (view s)(k := None)"
    and delete_err: "okay s \<Longrightarrow> is_delete ops s k = (s', Err e) \<Longrightarrow> okay s' \<and> view s' = view s"
    and delete_no_panic: "okay s \<Longrightarrow> snd (is_delete ops s k) \<noteq> Panic"
    and get_ok: "okay s \<Longrightarrow> is_get ops s k = Ok v \<Longrightarrow> v = view s k"
begin

lemma put_many_view:
  "okay s \<Longrightarrow> put_many_default ops s items n = (s', Ok m) \<Longrightarrow>
     okay s' \<and> view s' = view s ++ map_of (rev items) \<and> m \<le> n + length items"
proof (induction items arbitrary: s n)
  case (Cons kd items)
  obtain k d where kd: "kd = (k, d)" by fastforce
  from Cons.prems(2) obtain s1 b where p: "is_put ops s k d = (s1, Ok b)"
    and r: "put_many_default ops s1 items (if b then n + 1 else n) = (s', Ok m)" by (auto simp: kd)
  from put_ok [OF Cons.prems(1) p] have s1: "okay s1" "view s1 = (view s)(k \<mapsto> d)" by auto
  from Cons.IH [OF s1(1) r] s1(2) show ?case
    by (auto simp: kd map_add_def fun_eq_iff split: option.splits if_splits)
qed simp

lemma delete_many_view:
  "okay s \<Longrightarrow> delete_many_default ops s keys n = (s', Ok m) \<Longrightarrow>
     okay s' \<and> view s' = (\<lambda>k. if k \<in> set keys then None else view s k) \<and> m \<le> n + length keys"
proof (induction keys arbitrary: s n)
  case (Cons k keys)
  from Cons.prems(2) obtain s1 b where p: "is_delete ops s k = (s1, Ok b)"
    and r: "delete_many_default ops s1 keys (if b then n + 1 else n) = (s', Ok m)" by auto
  from delete_ok [OF Cons.prems(1) p] have s1: "okay s1" "view s1 = (view s)(k := None)" by auto
  from Cons.IH [OF s1(1) r] s1(2) show ?case by (auto simp: fun_eq_iff split: if_splits)
qed simp

end

section \<open>Derived keys\<close>

lemma le_bytes_inj: "x < 256 ^ n \<Longrightarrow> y < 256 ^ n \<Longrightarrow> le_bytes n x = le_bytes n y \<longleftrightarrow> x = y"
  by (metis le_val_le_bytes)

lemma map2_xor_cancel:
  "length xs = length as \<Longrightarrow> length as = length bs \<Longrightarrow>
     map2 (XOR) xs as = map2 (XOR) xs (bs :: u8 list) \<longleftrightarrow> as = bs"
proof (induction xs as bs rule: list_induct3)
  case (Cons x xs a as b bs)
  have "x XOR a = x XOR b \<longleftrightarrow> a = b" by (simp add: xor.left_commute bit_eq_iff bit_xor_iff) blast
  then show ?case using Cons by simp
qed simp

lemma derive_inline_key_prefix: "length k \<ge> 24 \<Longrightarrow> take 24 (derive_inline_key k n) = take 24 k"
  by (simp add: derive_inline_key_def Let_def)

lemma derive_inline_key_seq:
  "length k = 32 \<Longrightarrow> m \<le> u64_max \<Longrightarrow> n \<le> u64_max \<Longrightarrow>
     derive_inline_key k m = derive_inline_key k n \<longleftrightarrow> m = n"
  by (auto simp: derive_inline_key_def Let_def map2_xor_cancel le_bytes_inj u64_max_val)

end
