(* ===== verification/Composition_Codec.thy ===== *)
theory Composition_Codec
  imports Log_Types "HOL-Library.Monad_Syntax"
begin

text \<open>
  Delta payloads of the composition context (\<^verbatim>\<open>crates/kiseki-composition/src/composition.rs\<close>): the
  byte layouts that carry composition creates, updates, deletes, namespace registrations and chunk
  migrations through the log, with the record types they describe (\<^verbatim>\<open>namespace.rs\<close>, \<^verbatim>\<open>intent.rs\<close>).

  A UUID is the natural number it denotes (its \<^verbatim>\<open>u128\<close> value); \<^verbatim>\<open>as_bytes\<close> is its 16-byte
  big-endian form. A Rust \<^verbatim>\<open>String\<close> is its UTF-8 byte string, and \<^verbatim>\<open>str::from_utf8\<close> is the
  validation of the standard library written out over bytes. Offsets into a payload stay far below
  the 64-bit range (every length prefix is at most 32 bits wide), so they are plain naturals.
\<close>

section \<open>Reading bytes\<close>

definition byte_range :: "nat \<Rightarrow> nat \<Rightarrow> bytes \<Rightarrow> bytes" where
  "byte_range a b xs = take (b - a) (drop a xs)"

definition get_byte :: "bytes \<Rightarrow> nat \<Rightarrow> u8 option" where
  "get_byte xs i = (if i < length xs then Some (xs ! i) else None)"

definition uuid_bytes :: "nat \<Rightarrow> bytes" where
  "uuid_bytes u = rev (le_bytes 16 u)"

definition uuid_from_slice :: "bytes \<Rightarrow> nat option" where
  "uuid_from_slice b = (if length b = 16 then Some (be_val b) else None)"

definition utf8_cont :: "u8 \<Rightarrow> bool" where
  "utf8_cont b \<longleftrightarrow> 0x80 \<le> b \<and> b \<le> 0xBF"

fun utf8_valid :: "bytes \<Rightarrow> bool" where
  "utf8_valid [] \<longleftrightarrow> True"
| "utf8_valid (a # bs) \<longleftrightarrow>
     (if a < 0x80 then utf8_valid bs
      else if 0xC2 \<le> a \<and> a \<le> 0xDF then
        (case bs of b # r \<Rightarrow> utf8_cont b \<and> utf8_valid r | _ \<Rightarrow> False)
      else if 0xE0 \<le> a \<and> a \<le> 0xEF then
        (case bs of
           b # c # r \<Rightarrow>
             (if a = 0xE0 then 0xA0 \<le> b \<and> b \<le> 0xBF
              else if a = 0xED then 0x80 \<le> b \<and> b \<le> 0x9F
              else utf8_cont b) \<and> utf8_cont c \<and> utf8_valid r
         | _ \<Rightarrow> False)
      else if 0xF0 \<le> a \<and> a \<le> 0xF4 then
        (case bs of
           b # c # d # r \<Rightarrow>
             (if a = 0xF0 then 0x90 \<le> b \<and> b \<le> 0xBF
              else if a = 0xF4 then 0x80 \<le> b \<and> b \<le> 0x8F
              else utf8_cont b) \<and> utf8_cont c \<and> utf8_cont d \<and> utf8_valid r
         | _ \<Rightarrow> False)
      else False)"

definition from_utf8 :: "bytes \<Rightarrow> bytes option" where
  "from_utf8 b = (if utf8_valid b then Some b else None)"

fun read_u32s :: "bytes \<Rightarrow> nat \<Rightarrow> nat \<Rightarrow> nat list" where
  "read_u32s payload pos 0 = []"
| "read_u32s payload pos (Suc n) =
     le_val (byte_range pos (pos + 4) payload) # read_u32s payload (pos + 4) n"

section \<open>Records\<close>

type_synonym PerspectiveSeq = HybridLogicalClock

record TierQuota =
  tq_tier :: bytes
  tq_quota_bytes :: nat

record NamespaceSizeBandPools =
  sb_inline :: "bytes option"
  sb_replicated :: "bytes option"
  sb_ec :: "bytes option"

datatype NamespaceTag = NsHipaa | NsGdpr | NsRevFadp | NsCustom bytes

record Namespace =
  ns_id :: nat
  ns_tenant_id :: nat
  ns_shard_id :: nat
  ns_read_only :: bool
  ns_versioning_enabled :: bool
  ns_compliance_tags :: "NamespaceTag list"
  ns_tier_policy :: "TierQuota list"
  ns_size_band_pools :: NamespaceSizeBandPools

definition size_band_pools_default :: NamespaceSizeBandPools where
  "size_band_pools_default = \<lparr>sb_inline = None, sb_replicated = None, sb_ec = None\<rparr>"

definition size_band_pools_is_empty :: "NamespaceSizeBandPools \<Rightarrow> bool" where
  "size_band_pools_is_empty p \<longleftrightarrow> sb_inline p = None \<and> sb_replicated p = None \<and> sb_ec p = None"

section \<open>Create payload\<close>

definition COMPOSITION_CREATE_PAYLOAD_PREFIX_LEN :: nat where
  "COMPOSITION_CREATE_PAYLOAD_PREFIX_LEN = 40"

definition u32_saturate :: "nat \<Rightarrow> nat" where
  "u32_saturate n = (if n \<le> u32_max then n else u32_max)"

definition encode_name_section :: "bytes option \<Rightarrow> bytes" where
  "encode_name_section name =
     (case name of
        Some b \<Rightarrow> 1 # le_bytes 4 (u32_saturate (length b)) @ b
      | None \<Rightarrow> [0])"

definition encode_lens_section :: "nat list \<Rightarrow> bytes" where
  "encode_lens_section lens =
     le_bytes 4 (u32_saturate (length lens)) @ concat (map (le_bytes 4) lens)"

definition encode_seq_section :: "PerspectiveSeq option \<Rightarrow> bytes" where
  "encode_seq_section seq =
     (case seq of
        Some s \<Rightarrow> 1 # le_bytes 8 (unat (physical_ms s)) @ le_bytes 4 (unat (logical s))
                    @ le_bytes 8 (unat (node_id s))
      | None \<Rightarrow> [0])"

definition encode_composition_create_payload ::
    "nat \<Rightarrow> nat \<Rightarrow> nat \<Rightarrow> bytes option \<Rightarrow> nat list \<Rightarrow> PerspectiveSeq option \<Rightarrow> bytes" where
  "encode_composition_create_payload comp_id namespace_id bytes_written name lens seq =
     uuid_bytes comp_id @ uuid_bytes namespace_id @ le_bytes 8 bytes_written
       @ encode_name_section name @ encode_lens_section lens @ encode_seq_section seq"

definition decode_name_section :: "bytes \<Rightarrow> nat \<Rightarrow> (bytes option \<times> nat) option" where
  "decode_name_section payload pos = do {
     present \<leftarrow> get_byte payload pos;
     let pos = pos + 1;
     if present = 0 then Some (None, pos)
     else if present = 1 then
       if length payload < pos + 4 then None
       else do {
         let name_len = le_val (byte_range pos (pos + 4) payload);
         let pos = pos + 4;
         if length payload < pos + name_len then None
         else do {
           name \<leftarrow> from_utf8 (byte_range pos (pos + name_len) payload);
           Some (Some name, pos + name_len)
         }
       }
     else None
   }"

definition decode_lens_section :: "bytes \<Rightarrow> nat \<Rightarrow> (nat list option \<times> nat) option" where
  "decode_lens_section payload pos =
     (if length payload < pos + 4 then None
      else
        let lens_count = le_val (byte_range pos (pos + 4) payload); pos = pos + 4 in
        if lens_count * 4 > u64_max then None
        else if length payload < pos + lens_count * 4 then None
        else
          let lens = read_u32s payload pos lens_count in
          Some (if lens_count = 0 then None else Some lens, pos + lens_count * 4))"

definition decode_seq_section :: "bytes \<Rightarrow> nat \<Rightarrow> (PerspectiveSeq option \<times> nat) option" where
  "decode_seq_section payload pos = do {
     present \<leftarrow> get_byte payload pos;
     let pos = pos + 1;
     if present = 0 then Some (None, pos)
     else if present = 1 then
       if length payload < pos + 20 then None
       else
         Some (Some (HLC (word_of_nat (le_val (byte_range pos (pos + 8) payload)))
                         (word_of_nat (le_val (byte_range (pos + 8) (pos + 12) payload)))
                         (word_of_nat (le_val (byte_range (pos + 12) (pos + 20) payload)))), pos + 20)
     else None
   }"

type_synonym DecodedCompositionCreate =
  "nat \<times> nat \<times> nat \<times> bytes option \<times> nat list option \<times> PerspectiveSeq option"

definition decode_composition_create_payload :: "bytes \<Rightarrow> DecodedCompositionCreate option" where
  "decode_composition_create_payload payload =
     (if length payload < COMPOSITION_CREATE_PAYLOAD_PREFIX_LEN then None
      else do {
        comp_uuid \<leftarrow> uuid_from_slice (byte_range 0 16 payload);
        ns_uuid \<leftarrow> uuid_from_slice (byte_range 16 32 payload);
        let size = le_val (byte_range 32 40 payload);
        (name, pos) \<leftarrow> decode_name_section payload COMPOSITION_CREATE_PAYLOAD_PREFIX_LEN;
        (lens, pos) \<leftarrow> decode_lens_section payload pos;
        (perspective_seq, pos) \<leftarrow> decode_seq_section payload pos;
        if pos \<noteq> length payload then None
        else Some (comp_uuid, ns_uuid, size, name, lens, perspective_seq)
      })"

section \<open>Update and delete payloads\<close>

definition COMPOSITION_UPDATE_PAYLOAD_LEN :: nat where
  "COMPOSITION_UPDATE_PAYLOAD_LEN = 24"

definition COMPOSITION_DELETE_PAYLOAD_LEN :: nat where
  "COMPOSITION_DELETE_PAYLOAD_LEN = 16"

definition encode_composition_update_payload :: "nat \<Rightarrow> nat \<Rightarrow> bytes" where
  "encode_composition_update_payload comp_id bytes_written =
     uuid_bytes comp_id @ le_bytes 8 bytes_written"

definition decode_composition_update_payload :: "bytes \<Rightarrow> (nat \<times> nat) option" where
  "decode_composition_update_payload payload =
     (if length payload \<noteq> COMPOSITION_UPDATE_PAYLOAD_LEN then None
      else do {
        comp_uuid \<leftarrow> uuid_from_slice (byte_range 0 16 payload);
        Some (comp_uuid, le_val (byte_range 16 24 payload))
      })"

definition encode_composition_delete_payload :: "nat \<Rightarrow> bytes" where
  "encode_composition_delete_payload comp_id = uuid_bytes comp_id"

definition decode_composition_delete_payload :: "bytes \<Rightarrow> nat option" where
  "decode_composition_delete_payload payload =
     (if length payload \<noteq> COMPOSITION_DELETE_PAYLOAD_LEN then None
      else uuid_from_slice (byte_range 0 16 payload))"

section \<open>Chunk migration payload\<close>

record DecodedMigrateChunkLocations =
  mg_composition_id :: nat
  mg_pool_name :: bytes
  mg_slab_id :: nat
  mg_entries :: "(nat \<times> nat \<times> nat) list"

definition encode_migrate_entry :: "nat \<times> nat \<times> nat \<Rightarrow> bytes" where
  "encode_migrate_entry e = (case e of (idx, off, len) \<Rightarrow> le_bytes 4 idx @ le_bytes 8 off @ le_bytes 4 len)"

definition encode_migrate_chunk_locations_payload ::
    "nat \<Rightarrow> bytes \<Rightarrow> nat \<Rightarrow> (nat \<times> nat \<times> nat) list \<Rightarrow> bytes" where
  "encode_migrate_chunk_locations_payload comp_id pool_name slab_id entries =
     uuid_bytes comp_id @ word_of_nat (length pool_name) # pool_name @ uuid_bytes slab_id
       @ le_bytes 4 (length entries)
       @ concat (map encode_migrate_entry entries)"

fun decode_migrate_entries :: "bytes \<Rightarrow> nat \<Rightarrow> nat \<Rightarrow> (nat \<times> nat \<times> nat) list" where
  "decode_migrate_entries payload pos 0 = []"
| "decode_migrate_entries payload pos (Suc n) =
     (le_val (byte_range pos (pos + 4) payload), le_val (byte_range (pos + 4) (pos + 12) payload),
      le_val (byte_range (pos + 12) (pos + 16) payload)) # decode_migrate_entries payload (pos + 16) n"

definition decode_migrate_chunk_locations_payload ::
    "bytes \<Rightarrow> DecodedMigrateChunkLocations option" where
  "decode_migrate_chunk_locations_payload payload =
     (if length payload < 16 + 1 then None
      else do {
        comp_uuid \<leftarrow> uuid_from_slice (byte_range 0 16 payload);
        let name_len = unat (payload ! 16);
        let pos = 17;
        let name_end = pos + name_len;
        if name_end + 16 + 4 > length payload then None
        else do {
          pool_name \<leftarrow> from_utf8 (byte_range pos name_end payload);
          let pos = name_end;
          slab_uuid \<leftarrow> uuid_from_slice (byte_range pos (pos + 16) payload);
          let pos = pos + 16;
          let count = le_val (byte_range pos (pos + 4) payload);
          let pos = pos + 4;
          if pos + count * 16 > length payload then None
          else Some \<lparr>mg_composition_id = comp_uuid, mg_pool_name = pool_name,
                     mg_slab_id = slab_uuid, mg_entries = decode_migrate_entries payload pos count\<rparr>
        }
      })"

section \<open>Namespace payload\<close>

definition NAMESPACE_CREATE_PAYLOAD_LEN :: nat where
  "NAMESPACE_CREATE_PAYLOAD_LEN = 49"

definition ns_flags :: "Namespace \<Rightarrow> u8" where
  "ns_flags ns =
     (if ns_read_only ns then 1 else 0) OR (if ns_versioning_enabled ns then 2 else 0)"

definition encode_tier :: "TierQuota \<Rightarrow> bytes" where
  "encode_tier t = word_of_nat (length (tq_tier t)) # tq_tier t @ le_bytes 8 (tq_quota_bytes t)"

definition encode_tier_policy :: "TierQuota list \<Rightarrow> bytes" where
  "encode_tier_policy ts =
     word_of_nat (length ts) # concat (map encode_tier ts)"

definition bands_flag :: "NamespaceSizeBandPools \<Rightarrow> u8" where
  "bands_flag p =
     (if sb_inline p \<noteq> None then 1 else 0) OR (if sb_replicated p \<noteq> None then 2 else 0)
       OR (if sb_ec p \<noteq> None then 4 else 0)"

fun encode_band :: "bytes option \<Rightarrow> bytes" where
  "encode_band None = []"
| "encode_band (Some band) = word_of_nat (length band) # band"

definition encode_size_bands :: "NamespaceSizeBandPools \<Rightarrow> bytes" where
  "encode_size_bands p =
     bands_flag p # encode_band (sb_inline p) @ encode_band (sb_replicated p) @ encode_band (sb_ec p)"

definition encode_namespace_create_payload :: "Namespace \<Rightarrow> bytes" where
  "encode_namespace_create_payload ns =
     uuid_bytes (ns_id ns) @ uuid_bytes (ns_tenant_id ns) @ uuid_bytes (ns_shard_id ns)
       @ ns_flags ns # encode_tier_policy (ns_tier_policy ns)
       @ encode_size_bands (ns_size_band_pools ns)"

fun decode_tiers :: "bytes \<Rightarrow> nat \<Rightarrow> nat \<Rightarrow> TierQuota list \<Rightarrow> TierQuota list \<times> nat" where
  "decode_tiers payload 0 pos acc = (acc, pos)"
| "decode_tiers payload (Suc n) pos acc =
     (case get_byte payload pos of
        None \<Rightarrow> (acc, pos)
      | Some name_len \<Rightarrow>
          let pos = pos + 1; name_end = pos + unat name_len; quota_end = name_end + 8 in
          if quota_end > length payload then (acc, pos)
          else
            (case from_utf8 (byte_range pos name_end payload) of
               None \<Rightarrow> (acc, pos)
             | Some name \<Rightarrow>
                 decode_tiers payload n quota_end
                   (acc @ [\<lparr>tq_tier = name, tq_quota_bytes = le_val (byte_range name_end quota_end payload)\<rparr>])))"

definition decode_tier_policy :: "bytes \<Rightarrow> nat \<Rightarrow> TierQuota list \<times> nat" where
  "decode_tier_policy payload pos =
     (case get_byte payload pos of
        None \<Rightarrow> ([], pos)
      | Some count \<Rightarrow> decode_tiers payload (unat count) (pos + 1) [])"

definition set_band :: "nat \<Rightarrow> bytes \<Rightarrow> NamespaceSizeBandPools \<Rightarrow> NamespaceSizeBandPools" where
  "set_band slot name p =
     (if slot = 0 then p\<lparr>sb_inline := Some name\<rparr>
      else if slot = 1 then p\<lparr>sb_replicated := Some name\<rparr>
      else p\<lparr>sb_ec := Some name\<rparr>)"

fun decode_bands ::
    "bytes \<Rightarrow> u8 \<Rightarrow> (u8 \<times> nat) list \<Rightarrow> nat \<Rightarrow> NamespaceSizeBandPools \<Rightarrow> NamespaceSizeBandPools" where
  "decode_bands payload flag [] pos p = p"
| "decode_bands payload flag ((b, slot) # bits) pos p =
     (if flag AND b = 0 then decode_bands payload flag bits pos p
      else
        (case get_byte payload pos of
           None \<Rightarrow> p
         | Some name_len \<Rightarrow>
             let pos = pos + 1; name_end = pos + unat name_len in
             if name_end > length payload then p
             else
               (case from_utf8 (byte_range pos name_end payload) of
                  None \<Rightarrow> p
                | Some name \<Rightarrow> decode_bands payload flag bits name_end (set_band slot name p))))"

definition decode_size_bands :: "bytes \<Rightarrow> nat \<Rightarrow> NamespaceSizeBandPools" where
  "decode_size_bands payload pos =
     (case get_byte payload pos of
        None \<Rightarrow> size_band_pools_default
      | Some flag \<Rightarrow>
          decode_bands payload flag [(1, 0), (2, 1), (4, 2)] (pos + 1) size_band_pools_default)"

definition decode_namespace_create_payload :: "bytes \<Rightarrow> Namespace option" where
  "decode_namespace_create_payload payload =
     (if length payload < NAMESPACE_CREATE_PAYLOAD_LEN then None
      else do {
        ns_uuid \<leftarrow> uuid_from_slice (byte_range 0 16 payload);
        tenant_uuid \<leftarrow> uuid_from_slice (byte_range 16 32 payload);
        shard_uuid \<leftarrow> uuid_from_slice (byte_range 32 48 payload);
        let flags = payload ! 48;
        let (tier_policy, pos) = decode_tier_policy payload NAMESPACE_CREATE_PAYLOAD_LEN;
        Some \<lparr>ns_id = ns_uuid, ns_tenant_id = tenant_uuid, ns_shard_id = shard_uuid,
              ns_read_only = (flags AND 1 \<noteq> 0), ns_versioning_enabled = (flags AND 2 \<noteq> 0),
              ns_compliance_tags = [], ns_tier_policy = tier_policy,
              ns_size_band_pools = decode_size_bands payload pos\<rparr>
      })"

section \<open>Positions in a payload\<close>

text \<open>Reading the section that starts where a prefix ends.\<close>

lemma byte_range_at:
  "a = length pre \<Longrightarrow> b = a + length m \<Longrightarrow> byte_range a b (pre @ m @ rest) = m"
  by (simp add: byte_range_def)

lemma byte_range_append_left [simp]: "b \<le> length xs \<Longrightarrow> byte_range a b (xs @ ys) = byte_range a b xs"
  by (simp add: byte_range_def)

lemma byte_range_append_right [simp]:
  "length xs \<le> a \<Longrightarrow> byte_range a b (xs @ ys) = byte_range (a - length xs) (b - length xs) ys"
  by (simp add: byte_range_def)

lemma length_byte_range [simp]: "b \<le> length xs \<Longrightarrow> length (byte_range a b xs) = b - a"
  unfolding byte_range_def length_take length_drop by linarith

lemma byte_range_all [simp]: "n = length xs \<Longrightarrow> byte_range 0 n xs = xs"
  by (simp add: byte_range_def)

lemma get_byte_at [simp]: "get_byte (pre @ b # rest) (length pre) = Some b"
  by (simp add: get_byte_def)

lemma length_uuid_bytes [simp]: "length (uuid_bytes u) = 16"
  by (simp add: uuid_bytes_def)

lemma uuid_from_slice_bytes [simp]: "u < 2 ^ 128 \<Longrightarrow> uuid_from_slice (uuid_bytes u) = Some u"
  by (simp add: uuid_from_slice_def uuid_bytes_def be_val_rev le_val_le_bytes)

lemma le_bytes_le_val: "length bs = n \<Longrightarrow> le_bytes n (le_val bs) = bs"
proof (induction bs arbitrary: n)
  case (Cons b bs)
  have "(unat b + 256 * le_val bs) div 256 = le_val bs" using unat_u8_bound [of b] by simp
  moreover have "(word_of_nat (unat b + 256 * le_val bs) :: u8) = b"
    using unat_u8_bound [of b] by (simp only: word_unat_eq_iff unat_of_nat) simp
  ultimately show ?case using Cons by auto
qed simp

lemma uuid_bytes_from_slice: "uuid_from_slice b = Some u \<Longrightarrow> uuid_bytes u = b \<and> u < 2 ^ 128"
  using be_val_bound [of b] le_bytes_le_val [of "rev b" 16] be_val_rev [of "rev b"]
  by (auto simp: uuid_from_slice_def uuid_bytes_def split: if_splits)

lemma le_val_4: "x \<le> u32_max \<Longrightarrow> le_val (le_bytes 4 x) = x"
  by (rule le_val_le_bytes) (simp add: u32_max_def)

lemma le_val_8: "x \<le> u64_max \<Longrightarrow> le_val (le_bytes 8 x) = x"
  by (rule le_val_le_bytes) (simp add: u64_max_def)

lemma le_val_4_bound: "length bs = 4 \<Longrightarrow> le_val bs \<le> u32_max"
  using le_val_bound [of bs] by (simp add: u32_max_def)

lemma le_val_8_bound: "length bs = 8 \<Longrightarrow> le_val bs \<le> u64_max"
  using le_val_bound [of bs] by (simp add: u64_max_def)

lemma unat_u32_max: "unat (w :: u32) \<le> u32_max"
proof -
  have "unat w < 2 ^ 32" using unsigned_less [of w] by simp
  then show ?thesis by (simp add: u32_max_def)
qed

lemma unat_u64_max: "unat (w :: u64) \<le> u64_max"
proof -
  have "unat w < 2 ^ 64" using unsigned_less [of w] by simp
  then show ?thesis by (simp add: u64_max_def)
qed

lemma from_utf8_valid [simp]: "utf8_valid b \<Longrightarrow> from_utf8 b = Some b"
  by (simp add: from_utf8_def)

lemma from_utf8_Some [simp]: "from_utf8 b = Some c \<longleftrightarrow> c = b \<and> utf8_valid b"
  by (auto simp: from_utf8_def)

section \<open>Sections of the create payload\<close>

lemma byte_range_join: "a \<le> b \<Longrightarrow> b \<le> c \<Longrightarrow> byte_range a b xs @ byte_range b c xs = byte_range a c xs"
proof -
  assume "a \<le> b" "b \<le> c"
  then have "drop b xs = drop (b - a) (drop a xs)" "c - a = (b - a) + (c - b)" by simp_all
  then show ?thesis by (simp only: byte_range_def take_add)
qed

lemma byte_range_Cons: "a < b \<Longrightarrow> a < length xs \<Longrightarrow> byte_range a b xs = xs ! a # byte_range (a + 1) b xs"
  unfolding byte_range_def by (subst Cons_nth_drop_Suc [symmetric]) (simp_all add: take_Cons' Suc_diff_Suc)

definition name_ok :: "bytes option \<Rightarrow> bool" where
  "name_ok name \<longleftrightarrow> (case name of None \<Rightarrow> True | Some b \<Rightarrow> utf8_valid b \<and> length b \<le> u32_max)"

definition lens_ok :: "nat list \<Rightarrow> bool" where
  "lens_ok lens \<longleftrightarrow> length lens \<le> u32_max \<and> list_all (\<lambda>l. l \<le> u32_max) lens"

definition lens_list :: "nat list option \<Rightarrow> nat list" where
  "lens_list lens = (case lens of None \<Rightarrow> [] | Some l \<Rightarrow> l)"

lemma decode_name_section_enc:
  assumes "name_ok name"
  shows "decode_name_section (pre @ encode_name_section name @ rest) (length pre)
           = Some (name, length pre + length (encode_name_section name))"
proof (cases name)
  case None
  then show ?thesis by (simp add: decode_name_section_def encode_name_section_def)
next
  case (Some b)
  let ?l = "le_bytes 4 (length b)"
  have e: "encode_name_section name = 1 # ?l @ b"
    using assms Some by (simp add: encode_name_section_def name_ok_def u32_saturate_def)
  have l: "le_val ?l = length b" using assms Some by (simp add: name_ok_def le_val_4)
  have s1: "byte_range (length pre + 1) (length pre + 1 + 4) (pre @ (1 # ?l @ b) @ rest) = ?l"
    using byte_range_at [of "length pre + 1" "pre @ [1]" _ ?l "b @ rest"] by simp
  have s2: "byte_range (length pre + 1 + 4) (length pre + 1 + 4 + length b) (pre @ (1 # ?l @ b) @ rest) = b"
    using byte_range_at [of "length pre + 5" "pre @ 1 # ?l" _ b rest] by simp
  show ?thesis unfolding e decode_name_section_def
    using assms Some by (simp add: s1 [simplified] s2 [simplified] l name_ok_def Let_def)
qed

lemma decode_name_section_Some:
  assumes "decode_name_section payload pos = Some (name, pos')"
  shows "byte_range pos pos' payload = encode_name_section name \<and> pos \<le> pos' \<and> pos' \<le> length payload \<and> name_ok name"
proof -
  from assms have pos: "pos < length payload"
    by (auto simp: decode_name_section_def get_byte_def Option.bind_eq_Some_conv split: if_splits)
  show ?thesis
  proof (cases "payload ! pos = 0")
    case True
    then show ?thesis using assms pos
      by (auto simp: decode_name_section_def get_byte_def encode_name_section_def name_ok_def
            byte_range_Cons Let_def) (simp add: byte_range_def)
  next
    case False
    let ?n = "le_val (byte_range (pos + 1) (pos + 1 + 4) payload)"
    from assms False pos have one: "payload ! pos = 1"
      and len: "pos + 1 + 4 + ?n \<le> length payload"
      and nm: "name = Some (byte_range (pos + 1 + 4) (pos + 1 + 4 + ?n) payload)" "utf8_valid (the name)"
      and pos': "pos' = pos + 1 + 4 + ?n"
      by (auto simp: decode_name_section_def get_byte_def Let_def Option.bind_eq_Some_conv split: if_splits)
    have n: "?n \<le> u32_max" using len by (intro le_val_4_bound) simp
    have ln: "length (the name) = ?n" using nm len by simp
    have "byte_range pos pos' payload
        = 1 # byte_range (pos + 1) (pos + 1 + 4) payload @ byte_range (pos + 1 + 4) (pos + 1 + 4 + ?n) payload"
      using pos len one by (simp add: pos' byte_range_Cons byte_range_join)
    moreover have "byte_range (pos + 1) (pos + 1 + 4) payload = le_bytes 4 ?n"
      using len by (intro le_bytes_le_val [symmetric]) simp
    ultimately show ?thesis using nm len n ln pos'
      by (simp add: encode_name_section_def name_ok_def u32_saturate_def)
  qed
qed

lemma length_encode_u32s [simp]: "length (concat (map (le_bytes 4) lens)) = 4 * length lens"
  by (induction lens) simp_all

lemma read_u32s_enc:
  "list_all (\<lambda>l. l \<le> u32_max) lens \<Longrightarrow>
     read_u32s (pre @ concat (map (le_bytes 4) lens) @ rest) (length pre) (length lens) = lens"
proof (induction lens arbitrary: pre)
  case (Cons l lens)
  have "byte_range (length pre) (length pre + 4) (pre @ le_bytes 4 l @ concat (map (le_bytes 4) lens) @ rest) = le_bytes 4 l"
    by (rule byte_range_at) simp_all
  with Cons.IH [of "pre @ le_bytes 4 l"] Cons.prems show ?case by (simp add: le_val_4)
qed simp

lemma read_u32s_Some:
  "pos + 4 * n \<le> length payload \<Longrightarrow>
     concat (map (le_bytes 4) (read_u32s payload pos n)) = byte_range pos (pos + 4 * n) payload
     \<and> list_all (\<lambda>l. l \<le> u32_max) (read_u32s payload pos n) \<and> length (read_u32s payload pos n) = n"
proof (induction n arbitrary: pos)
  case 0
  then show ?case by (simp add: byte_range_def)
next
  case (Suc n)
  have h: "byte_range pos (pos + 4) payload @ byte_range (pos + 4) (pos + 4 + 4 * n) payload
      = byte_range pos (pos + 4 * Suc n) payload"
    using byte_range_join [of pos "pos + 4" "pos + 4 * Suc n" payload] by (simp add: algebra_simps)
  have l: "length (byte_range pos (pos + 4) payload) = 4" using Suc.prems by simp
  from Suc.IH [of "pos + 4"] Suc.prems h show ?case
    by (simp add: le_bytes_le_val l le_val_4_bound)
qed

lemma decode_lens_section_enc:
  assumes "lens_ok lens"
  shows "decode_lens_section (pre @ encode_lens_section lens @ rest) (length pre)
           = Some (if lens = [] then None else Some lens, length pre + length (encode_lens_section lens))"
proof -
  let ?l = "le_bytes 4 (length lens)" and ?c = "concat (map (le_bytes 4) lens)"
  have e: "encode_lens_section lens = ?l @ ?c"
    using assms by (simp add: encode_lens_section_def lens_ok_def u32_saturate_def)
  have s: "byte_range (length pre) (length pre + 4) (pre @ (?l @ ?c) @ rest) = ?l"
    using byte_range_at [of "length pre" pre _ ?l "?c @ rest"] by simp
  have l: "le_val ?l = length lens" using assms by (simp add: lens_ok_def le_val_4)
  have m: "length lens * 4 \<le> u64_max" using assms by (simp add: lens_ok_def u32_max_val u64_max_val)
  have r: "read_u32s (pre @ (?l @ ?c) @ rest) (length pre + 4) (length lens) = lens"
    using read_u32s_enc [of lens "pre @ ?l" rest] assms by (simp add: lens_ok_def)
  show ?thesis unfolding e decode_lens_section_def
    using m by (simp add: s [simplified] l r [simplified] Let_def)
qed

lemma decode_lens_section_Some:
  assumes "decode_lens_section payload pos = Some (lens, pos')"
  shows "byte_range pos pos' payload = encode_lens_section (lens_list lens) \<and> pos \<le> pos' \<and> pos' \<le> length payload
     \<and> lens_ok (lens_list lens) \<and> lens \<noteq> Some []"
proof -
  let ?n = "le_val (byte_range pos (pos + 4) payload)"
  from assms have len: "pos + 4 + 4 * ?n \<le> length payload"
    and lens: "lens = (if ?n = 0 then None else Some (read_u32s payload (pos + 4) ?n))"
    and pos': "pos' = pos + 4 + 4 * ?n"
    by (auto simp: decode_lens_section_def Let_def split: if_splits)
  note r = read_u32s_Some [OF len]
  have ll: "lens_list lens = read_u32s payload (pos + 4) ?n"
    using r by (auto simp: lens lens_list_def)
  have n: "?n \<le> u32_max" using len by (intro le_val_4_bound) simp
  have "byte_range pos (pos + 4) payload = le_bytes 4 ?n"
    using len by (intro le_bytes_le_val [symmetric]) simp
  moreover have "byte_range pos pos' payload = byte_range pos (pos + 4) payload @ byte_range (pos + 4) (pos + 4 + 4 * ?n) payload"
    by (simp add: pos' byte_range_join)
  moreover have "lens \<noteq> Some []" using r by (auto simp: lens simp del: length_0_conv)
  ultimately show ?thesis using r n len pos'
    by (simp add: ll encode_lens_section_def lens_ok_def u32_saturate_def)
qed

lemma decode_seq_section_enc:
  "decode_seq_section (pre @ encode_seq_section seq @ rest) (length pre)
     = Some (seq, length pre + length (encode_seq_section seq))"
proof (cases seq)
  case None
  then show ?thesis by (simp add: decode_seq_section_def encode_seq_section_def)
next
  case (Some s)
  let ?p = "le_bytes 8 (unat (physical_ms s))" and ?l = "le_bytes 4 (unat (logical s))"
    and ?n = "le_bytes 8 (unat (node_id s))"
  let ?w = "pre @ (1 # ?p @ ?l @ ?n) @ rest"
  have s1: "byte_range (length pre + 1) (length pre + 1 + 8) ?w = ?p"
    using byte_range_at [of "length pre + 1" "pre @ [1]" _ ?p "?l @ ?n @ rest"] by simp
  have s2: "byte_range (length pre + 1 + 8) (length pre + 1 + 12) ?w = ?l"
    using byte_range_at [of "length pre + 9" "pre @ 1 # ?p" _ ?l "?n @ rest"] by simp
  have s3: "byte_range (length pre + 1 + 12) (length pre + 1 + 20) ?w = ?n"
    using byte_range_at [of "length pre + 13" "pre @ 1 # ?p @ ?l" _ ?n rest] by simp
  show ?thesis
    by (simp add: Some decode_seq_section_def encode_seq_section_def Let_def s1 [simplified] s2 [simplified]
          s3 [simplified] le_val_4 le_val_8 unat_u32_max unat_u64_max)
qed

lemma decode_seq_section_Some:
  assumes "decode_seq_section payload pos = Some (seq, pos')"
  shows "byte_range pos pos' payload = encode_seq_section seq \<and> pos \<le> pos' \<and> pos' \<le> length payload"
proof -
  from assms have pos: "pos < length payload"
    by (auto simp: decode_seq_section_def get_byte_def Option.bind_eq_Some_conv split: if_splits)
  show ?thesis
  proof (cases "payload ! pos = 0")
    case True
    then show ?thesis using assms pos
      by (auto simp: decode_seq_section_def get_byte_def encode_seq_section_def byte_range_Cons Let_def)
        (simp add: byte_range_def)
  next
    case False
    let ?p = "byte_range (pos + 1) (pos + 9) payload" and ?l = "byte_range (pos + 9) (pos + 13) payload"
      and ?n = "byte_range (pos + 13) (pos + 21) payload"
    from assms False pos have one: "payload ! pos = 1" and len: "pos + 21 \<le> length payload"
      and s: "seq = Some (HLC (word_of_nat (le_val ?p)) (word_of_nat (le_val ?l)) (word_of_nat (le_val ?n)))"
      and pos': "pos' = pos + 21"
      by (auto simp: decode_seq_section_def get_byte_def Let_def Option.bind_eq_Some_conv add.commute
          split: if_splits)
    have "byte_range pos pos' payload = 1 # ?p @ ?l @ ?n"
      using pos len one byte_range_join [of "pos + 9" "pos + 13" "pos + 21" payload]
        byte_range_join [of "pos + 1" "pos + 9" "pos + 21" payload]
      by (simp add: pos' byte_range_Cons)
    moreover have "unat (word_of_nat (le_val ?p) :: u64) = le_val ?p" "unat (word_of_nat (le_val ?n) :: u64) = le_val ?n"
      using le_val_bound [of ?p] le_val_bound [of ?n] len by (simp_all add: unat_of_nat take_bit_eq_mod)
    moreover have "unat (word_of_nat (le_val ?l) :: u32) = le_val ?l"
      using le_val_bound [of ?l] len by (simp add: unat_of_nat take_bit_eq_mod)
    ultimately show ?thesis using len
      by (simp add: s pos' encode_seq_section_def le_bytes_le_val)
  qed
qed

section \<open>Round trips\<close>

definition create_args_ok :: "nat \<Rightarrow> nat \<Rightarrow> nat \<Rightarrow> bytes option \<Rightarrow> nat list \<Rightarrow> bool" where
  "create_args_ok comp_id namespace_id bytes_written name lens \<longleftrightarrow>
     comp_id < 2 ^ 128 \<and> namespace_id < 2 ^ 128 \<and> bytes_written \<le> u64_max \<and> name_ok name \<and> lens_ok lens"

lemma decode_create_enc:
  assumes "create_args_ok c n sz name lens"
  shows "decode_composition_create_payload (encode_composition_create_payload c n sz name lens seq)
           = Some (c, n, sz, name, if lens = [] then None else Some lens, seq)"
proof -
  let ?pre = "uuid_bytes c @ uuid_bytes n @ le_bytes 8 sz"
  let ?N = "encode_name_section name" and ?L = "encode_lens_section lens" and ?S = "encode_seq_section seq"
  let ?p = "encode_composition_create_payload c n sz name lens seq"
  have p: "?p = ?pre @ ?N @ ?L @ ?S" by (simp add: encode_composition_create_payload_def)
  have ok: "c < 2 ^ 128" "n < 2 ^ 128" "sz \<le> u64_max" "name_ok name" "lens_ok lens"
    using assms by (simp_all add: create_args_ok_def)
  have d1: "decode_name_section ?p 40 = Some (name, 40 + length ?N)"
    using decode_name_section_enc [OF ok(4), of ?pre "?L @ ?S"] by (simp add: p)
  have d2: "decode_lens_section ?p (40 + length ?N)
      = Some (if lens = [] then None else Some lens, 40 + length ?N + length ?L)"
    using decode_lens_section_enc [OF ok(5), of "?pre @ ?N" ?S] by (simp add: p add.assoc)
  have d3: "decode_seq_section ?p (40 + length ?N + length ?L) = Some (seq, 40 + length ?N + length ?L + length ?S)"
    using decode_seq_section_enc [of "?pre @ ?N @ ?L" seq "[]"] by (simp add: p add.assoc)
  have u: "uuid_from_slice (byte_range 0 16 ?p) = Some c" "uuid_from_slice (byte_range 16 32 ?p) = Some n"
    "le_val (byte_range 32 40 ?p) = sz"
    using ok by (simp_all add: p le_val_8)
  have l: "length ?p = 40 + length ?N + length ?L + length ?S" by (simp add: p)
  show ?thesis
    by (simp add: decode_composition_create_payload_def COMPOSITION_CREATE_PAYLOAD_PREFIX_LEN_def u d1 d2 d3)
      (simp add: l)
qed

lemma decode_create_Some:
  assumes "decode_composition_create_payload p = Some (c, n, sz, name, lens, seq)"
  shows "p = encode_composition_create_payload c n sz name (lens_list lens) seq
     \<and> create_args_ok c n sz name (lens_list lens) \<and> lens \<noteq> Some []"
proof -
  from assms obtain p1 p2 where len: "40 \<le> length p"
    and c: "uuid_from_slice (byte_range 0 16 p) = Some c" and n: "uuid_from_slice (byte_range 16 32 p) = Some n"
    and sz: "sz = le_val (byte_range 32 40 p)"
    and d1: "decode_name_section p 40 = Some (name, p1)" and d2: "decode_lens_section p p1 = Some (lens, p2)"
    and d3: "decode_seq_section p p2 = Some (seq, length p)"
    by (auto simp: decode_composition_create_payload_def COMPOSITION_CREATE_PAYLOAD_PREFIX_LEN_def
        Option.bind_eq_Some_conv Let_def split: if_splits)
  note s1 = decode_name_section_Some [OF d1] and s2 = decode_lens_section_Some [OF d2]
    and s3 = decode_seq_section_Some [OF d3]
  note u1 = uuid_bytes_from_slice [OF c] and u2 = uuid_bytes_from_slice [OF n]
  have l8: "le_bytes 8 sz = byte_range 32 40 p" "sz \<le> u64_max"
    using len by (simp_all add: sz le_bytes_le_val le_val_8_bound)
  have "encode_composition_create_payload c n sz name (lens_list lens) seq
      = byte_range 0 16 p @ byte_range 16 32 p @ byte_range 32 40 p @ byte_range 40 p1 p @ byte_range p1 p2 p
          @ byte_range p2 (length p) p"
    using u1 u2 l8 s1 s2 s3 by (simp add: encode_composition_create_payload_def)
  also have "\<dots> = p"
    using s1 [THEN conjunct2] s2 [THEN conjunct2] s3 [THEN conjunct2] by (simp add: byte_range_join)
  finally show ?thesis using u1 u2 l8 s1 s2 by (simp add: create_args_ok_def)
qed

text \<open>C19: The create payload codec is exact: a byte string decodes to a create record precisely when
  it is the encoding of that record and the record's fields fit their wire widths. Decoding undoes
  encoding for every such record, and no byte string other than its encoding (truncated, extended or
  altered) is read as the record. An absent list of chunk lengths and an empty one share the encoding with
  count 0, which decodes as absent.\<close>

theorem create_payload_exact:
  "decode_composition_create_payload p = Some (c, n, sz, name, lens, seq) \<longleftrightarrow>
     p = encode_composition_create_payload c n sz name (lens_list lens) seq
     \<and> create_args_ok c n sz name (lens_list lens) \<and> lens \<noteq> Some []"
proof
  assume "p = encode_composition_create_payload c n sz name (lens_list lens) seq
     \<and> create_args_ok c n sz name (lens_list lens) \<and> lens \<noteq> Some []"
  then show "decode_composition_create_payload p = Some (c, n, sz, name, lens, seq)"
    by (cases lens) (simp_all add: decode_create_enc lens_list_def)
qed (rule decode_create_Some)

lemma update_payload_exact:
  "decode_composition_update_payload p = Some (c, sz) \<longleftrightarrow>
     p = encode_composition_update_payload c sz \<and> c < 2 ^ 128 \<and> sz \<le> u64_max"
proof
  assume d: "decode_composition_update_payload p = Some (c, sz)"
  then have l: "length p = 24" and c: "uuid_from_slice (byte_range 0 16 p) = Some c"
    and sz: "sz = le_val (byte_range 16 24 p)"
    by (auto simp: decode_composition_update_payload_def COMPOSITION_UPDATE_PAYLOAD_LEN_def
        Option.bind_eq_Some_conv split: if_splits)
  have "byte_range 0 16 p @ byte_range 16 24 p = p" using l by (simp add: byte_range_join)
  then show "p = encode_composition_update_payload c sz \<and> c < 2 ^ 128 \<and> sz \<le> u64_max"
    using uuid_bytes_from_slice [OF c] l
    by (simp add: encode_composition_update_payload_def sz le_bytes_le_val le_val_8_bound)
next
  assume "p = encode_composition_update_payload c sz \<and> c < 2 ^ 128 \<and> sz \<le> u64_max"
  then show "decode_composition_update_payload p = Some (c, sz)"
    by (simp add: decode_composition_update_payload_def COMPOSITION_UPDATE_PAYLOAD_LEN_def
        encode_composition_update_payload_def le_val_8)
qed

lemma delete_payload_exact:
  "decode_composition_delete_payload p = Some c \<longleftrightarrow> p = encode_composition_delete_payload c \<and> c < 2 ^ 128"
proof
  assume d: "decode_composition_delete_payload p = Some c"
  then have l: "length p = 16" and c: "uuid_from_slice (byte_range 0 16 p) = Some c"
    by (auto simp: decode_composition_delete_payload_def COMPOSITION_DELETE_PAYLOAD_LEN_def split: if_splits)
  then show "p = encode_composition_delete_payload c \<and> c < 2 ^ 128"
    using uuid_bytes_from_slice [OF c] by (simp add: encode_composition_delete_payload_def)
next
  assume "p = encode_composition_delete_payload c \<and> c < 2 ^ 128"
  then show "decode_composition_delete_payload p = Some c"
    by (simp add: decode_composition_delete_payload_def COMPOSITION_DELETE_PAYLOAD_LEN_def
        encode_composition_delete_payload_def)
qed

section \<open>Round trips of migrations and namespaces\<close>

definition migrate_entry_ok :: "nat \<times> nat \<times> nat \<Rightarrow> bool" where
  "migrate_entry_ok e = (case e of (idx, off, len) \<Rightarrow> idx \<le> u32_max \<and> off \<le> u64_max \<and> len \<le> u32_max)"

lemma length_encode_migrate_entry [simp]: "length (encode_migrate_entry e) = 16"
  by (cases e) (simp add: encode_migrate_entry_def)

lemma length_encode_migrate_entries [simp]: "length (concat (map encode_migrate_entry es)) = 16 * length es"
  by (induction es) simp_all

lemma decode_migrate_entries_enc:
  "list_all migrate_entry_ok es \<Longrightarrow>
     decode_migrate_entries (pre @ concat (map encode_migrate_entry es) @ rest) (length pre) (length es) = es"
proof (induction es arbitrary: pre)
  case (Cons e es)
  obtain idx off len where e: "e = (idx, off, len)" by (cases e)
  have ee: "encode_migrate_entry e = le_bytes 4 idx @ le_bytes 8 off @ le_bytes 4 len"
    by (simp add: e encode_migrate_entry_def)
  let ?R = "concat (map encode_migrate_entry es) @ rest" and ?n = "length pre"
  let ?w = "pre @ le_bytes 4 idx @ le_bytes 8 off @ le_bytes 4 len @ ?R"
  have "byte_range ?n (?n + 4) ?w = le_bytes 4 idx" by (rule byte_range_at) simp_all
  moreover have "byte_range (?n + 4) (?n + 12) ?w = le_bytes 8 off"
    using byte_range_at [of "?n + 4" "pre @ le_bytes 4 idx" _ "le_bytes 8 off"] by simp
  moreover have "byte_range (?n + 12) (?n + 16) ?w = le_bytes 4 len"
    using byte_range_at [of "?n + 12" "pre @ le_bytes 4 idx @ le_bytes 8 off" _ "le_bytes 4 len"] by simp
  moreover have "decode_migrate_entries ?w (?n + 16) (length es) = es"
    using Cons.IH [of "pre @ encode_migrate_entry e"] Cons.prems by (simp add: ee)
  ultimately show ?case
    using Cons.prems by (simp add: ee) (simp add: e migrate_entry_ok_def le_val_4 le_val_8)
qed simp

lemma migrate_payload_roundtrip:
  assumes "c < 2 ^ 128" "slab < 2 ^ 128" "utf8_valid pool" "length pool < 256"
    "length es \<le> u32_max" "list_all migrate_entry_ok es"
  shows "decode_migrate_chunk_locations_payload (encode_migrate_chunk_locations_payload c pool slab es)
    = Some \<lparr>mg_composition_id = c, mg_pool_name = pool, mg_slab_id = slab, mg_entries = es\<rparr>"
proof -
  let ?E = "concat (map encode_migrate_entry es)" and ?k = "17 + length pool"
  let ?L = "word_of_nat (length pool) :: u8"
  let ?p = "encode_migrate_chunk_locations_payload c pool slab es"
  have p: "?p = uuid_bytes c @ ?L # pool @ uuid_bytes slab @ le_bytes 4 (length es) @ ?E"
    by (simp add: encode_migrate_chunk_locations_payload_def)
  have l: "length ?p = ?k + 20 + 16 * length es" by (simp add: p)
  have n: "unat (?p ! 16) = length pool"
    using assms(4) by (simp add: p nth_append unat_of_nat take_bit_eq_mod)
  have r1: "byte_range 0 16 ?p = uuid_bytes c" by (simp add: p)
  have r2: "byte_range 17 ?k ?p = pool"
    using byte_range_at [of 17 "uuid_bytes c @ [?L]" ?k pool] by (simp add: p)
  have r3: "byte_range ?k (?k + 16) ?p = uuid_bytes slab"
    using byte_range_at [of ?k "uuid_bytes c @ ?L # pool" _ "uuid_bytes slab"] by (simp add: p)
  have r4: "byte_range (?k + 16) (?k + 20) ?p = le_bytes 4 (length es)"
    using byte_range_at [of "?k + 16" "uuid_bytes c @ ?L # pool @ uuid_bytes slab" _ "le_bytes 4 (length es)"]
    by (simp add: p)
  have r5: "decode_migrate_entries ?p (?k + 20) (length es) = es"
    using decode_migrate_entries_enc [OF assms(6), of "uuid_bytes c @ ?L # pool @ uuid_bytes slab @ le_bytes 4 (length es)" "[]"]
    by (simp add: p add.commute)
  show ?thesis unfolding decode_migrate_chunk_locations_payload_def
    using assms l by (simp add: n r1 r2 r3 [simplified] r4 [simplified] r5 [simplified] le_val_4 Let_def add.assoc)
qed

definition tier_ok :: "TierQuota \<Rightarrow> bool" where
  "tier_ok t \<longleftrightarrow> utf8_valid (tq_tier t) \<and> length (tq_tier t) < 256 \<and> tq_quota_bytes t \<le> u64_max"

definition band_ok :: "bytes option \<Rightarrow> bool" where
  "band_ok b \<longleftrightarrow> (case b of None \<Rightarrow> True | Some name \<Rightarrow> utf8_valid name \<and> length name < 256)"

definition namespace_ok :: "Namespace \<Rightarrow> bool" where
  "namespace_ok ns \<longleftrightarrow>
     ns_id ns < 2 ^ 128 \<and> ns_tenant_id ns < 2 ^ 128 \<and> ns_shard_id ns < 2 ^ 128
     \<and> length (ns_tier_policy ns) < 256 \<and> list_all tier_ok (ns_tier_policy ns)
     \<and> band_ok (sb_inline (ns_size_band_pools ns)) \<and> band_ok (sb_replicated (ns_size_band_pools ns))
     \<and> band_ok (sb_ec (ns_size_band_pools ns))"

lemma unat_len_byte: "n < 256 \<Longrightarrow> unat (word_of_nat n :: u8) = n"
  by (simp add: unat_of_nat take_bit_eq_mod)

lemma decode_tiers_enc:
  "list_all tier_ok ts \<Longrightarrow>
     decode_tiers (pre @ concat (map encode_tier ts) @ rest) (length ts) (length pre) acc
       = (acc @ ts, length pre + length (concat (map encode_tier ts)))"
proof (induction ts arbitrary: pre acc)
  case (Cons t ts)
  let ?L = "word_of_nat (length (tq_tier t)) :: u8" and ?q = "le_bytes 8 (tq_quota_bytes t)"
  let ?R = "concat (map encode_tier ts) @ rest" and ?n = "length pre + 1"
  let ?w = "pre @ ?L # tq_tier t @ ?q @ ?R"
  have rt: "\<lparr>tq_tier = tq_tier t, tq_quota_bytes = tq_quota_bytes t\<rparr> = t" by (cases t) simp
  have et: "encode_tier t = ?L # tq_tier t @ ?q" by (simp add: encode_tier_def)
  have ok: "utf8_valid (tq_tier t)" "length (tq_tier t) < 256" "tq_quota_bytes t \<le> u64_max"
    using Cons.prems by (simp_all add: tier_ok_def)
  have r1: "byte_range ?n (?n + length (tq_tier t)) ?w = tq_tier t"
    using byte_range_at [of ?n "pre @ [?L]" _ "tq_tier t"] by simp
  have r2: "byte_range (?n + length (tq_tier t)) (?n + length (tq_tier t) + 8) ?w = ?q"
    using byte_range_at [of "?n + length (tq_tier t)" "pre @ ?L # tq_tier t" _ ?q] by simp
  have "decode_tiers ?w (length ts) (?n + length (tq_tier t) + 8) (acc @ [t])
      = (acc @ t # ts, length pre + length (concat (map encode_tier (t # ts))))"
    using Cons.IH [of "pre @ encode_tier t" "acc @ [t]"] Cons.prems by (simp add: et add_ac)
  moreover have "decode_tiers ?w (length (t # ts)) (length pre) acc
      = decode_tiers ?w (length ts) (?n + length (tq_tier t) + 8) (acc @ [t])"
    using ok by (simp add: Let_def unat_len_byte r1 [simplified] r2 [simplified] le_val_8 rt)
  ultimately show ?case by (simp add: et)
qed simp

lemma decode_bands_step:
  assumes "band_ok b" "(flag AND k \<noteq> 0) \<longleftrightarrow> b \<noteq> None"
  shows "decode_bands (pre @ encode_band b @ rest) flag ((k, slot) # ks) (length pre) p
     = decode_bands (pre @ encode_band b @ rest) flag ks (length pre + length (encode_band b))
         (case b of None \<Rightarrow> p | Some name \<Rightarrow> set_band slot name p)"
proof (cases b)
  case None
  then show ?thesis using assms by simp
next
  case (Some name)
  let ?L = "word_of_nat (length name) :: u8"
  have "byte_range (length pre + 1) (length pre + 1 + length name) (pre @ ?L # name @ rest) = name"
    using byte_range_at [of "length pre + 1" "pre @ [?L]" _ name] by simp
  then show ?thesis using assms Some
    by (simp add: band_ok_def Let_def unat_len_byte)
qed

lemma bands_flag_bits:
  "bands_flag p AND 1 \<noteq> 0 \<longleftrightarrow> sb_inline p \<noteq> None"
  "bands_flag p AND 2 \<noteq> 0 \<longleftrightarrow> sb_replicated p \<noteq> None"
  "bands_flag p AND 4 \<noteq> 0 \<longleftrightarrow> sb_ec p \<noteq> None"
  by (simp_all add: bands_flag_def)

lemma decode_size_bands_enc:
  assumes "band_ok (sb_inline p)" "band_ok (sb_replicated p)" "band_ok (sb_ec p)"
  shows "decode_size_bands (pre @ encode_size_bands p) (length pre) = p"
proof -
  let ?i = "encode_band (sb_inline p)" and ?r = "encode_band (sb_replicated p)" and ?e = "encode_band (sb_ec p)"
  let ?f = "bands_flag p" and ?n = "length pre + 1"
  let ?w = "pre @ ?f # ?i @ ?r @ ?e"
  let ?p1 = "case sb_inline p of None \<Rightarrow> size_band_pools_default | Some m \<Rightarrow> set_band 0 m size_band_pools_default"
  let ?p2 = "case sb_replicated p of None \<Rightarrow> ?p1 | Some m \<Rightarrow> set_band 1 m ?p1"
  let ?p3 = "case sb_ec p of None \<Rightarrow> ?p2 | Some m \<Rightarrow> set_band 2 m ?p2"
  have "decode_bands ?w ?f [(1, 0), (2, 1), (4, 2)] ?n size_band_pools_default
      = decode_bands ?w ?f [(2, 1), (4, 2)] (?n + length ?i) ?p1"
    using decode_bands_step [OF assms(1) bands_flag_bits(1), of "pre @ [?f]" "?r @ ?e" 0 "[(2, 1), (4, 2)]" size_band_pools_default]
    by (simp del: decode_bands.simps)
  also have "\<dots> = decode_bands ?w ?f [(4, 2)] (?n + length ?i + length ?r) ?p2"
    using decode_bands_step [OF assms(2) bands_flag_bits(2), of "pre @ ?f # ?i" ?e 1 "[(4, 2)]" ?p1]
    by (simp del: decode_bands.simps add: add_ac)
  also have "\<dots> = ?p3"
    using decode_bands_step [OF assms(3) bands_flag_bits(3), of "pre @ ?f # ?i @ ?r" "[]" 2 "[]" ?p2]
    by (simp del: decode_bands.simps(2) add: add_ac)
  also have "?p3 = p"
    by (cases p) (simp add: set_band_def size_band_pools_default_def split: option.split)
  finally show ?thesis by (simp add: decode_size_bands_def encode_size_bands_def)
qed

lemma ns_flags_bits:
  "ns_flags ns AND 1 \<noteq> 0 \<longleftrightarrow> ns_read_only ns" "ns_flags ns AND 2 \<noteq> 0 \<longleftrightarrow> ns_versioning_enabled ns"
  by (simp_all add: ns_flags_def)

text \<open>A namespace registered on one node reaches the others unchanged through its delta: for a
  namespace whose identifiers, tier names, quotas and pool names fit the wire widths, decoding the encoded
  payload gives back the identifiers, the flags, the whole tier policy in order and the three pool
  selectors. Compliance tags do not travel: the decoded namespace has none.\<close>

lemma namespace_payload_roundtrip:
  assumes "namespace_ok ns"
  shows "decode_namespace_create_payload (encode_namespace_create_payload ns)
    = Some (ns\<lparr>ns_compliance_tags := []\<rparr>)"
proof -
  let ?pre = "uuid_bytes (ns_id ns) @ uuid_bytes (ns_tenant_id ns) @ uuid_bytes (ns_shard_id ns)"
  let ?T = "concat (map encode_tier (ns_tier_policy ns))" and ?B = "encode_size_bands (ns_size_band_pools ns)"
  let ?p = "encode_namespace_create_payload ns" and ?c = "word_of_nat (length (ns_tier_policy ns)) :: u8"
  have ok: "ns_id ns < 2 ^ 128" "ns_tenant_id ns < 2 ^ 128" "ns_shard_id ns < 2 ^ 128"
    "length (ns_tier_policy ns) < 256" "list_all tier_ok (ns_tier_policy ns)"
    "band_ok (sb_inline (ns_size_band_pools ns))" "band_ok (sb_replicated (ns_size_band_pools ns))"
    "band_ok (sb_ec (ns_size_band_pools ns))" using assms by (simp_all add: namespace_ok_def)
  have p: "?p = ?pre @ ns_flags ns # ?c # ?T @ ?B"
    by (simp add: encode_namespace_create_payload_def encode_tier_policy_def)
  have t: "decode_tiers ?p (length (ns_tier_policy ns)) 50 [] = (ns_tier_policy ns, 50 + length ?T)"
    using decode_tiers_enc [OF ok(5), of "?pre @ [ns_flags ns, ?c]" ?B "[]"] by (simp add: p)
  have b: "decode_size_bands ?p (50 + length ?T) = ns_size_band_pools ns"
    using decode_size_bands_enc [OF ok(6-8), of "?pre @ ns_flags ns # ?c # ?T"] by (simp add: p)
  have g: "get_byte ?p 49 = Some ?c" "?p ! 48 = ns_flags ns"
    by (simp_all add: p get_byte_def nth_append)
  have u: "byte_range 0 16 ?p = uuid_bytes (ns_id ns)" "byte_range 16 32 ?p = uuid_bytes (ns_tenant_id ns)"
    "byte_range 32 48 ?p = uuid_bytes (ns_shard_id ns)" by (simp_all add: p)
  have l: "\<not> length ?p < 49" by (simp add: p)
  show ?thesis using ok(1-4) l
    by (simp add: decode_namespace_create_payload_def NAMESPACE_CREATE_PAYLOAD_LEN_def decode_tier_policy_def
        g u t b unat_len_byte ns_flags_bits)
qed

definition demo_namespace :: Namespace where
  "demo_namespace =
     \<lparr>ns_id = 7, ns_tenant_id = 9, ns_shard_id = 3, ns_read_only = False, ns_versioning_enabled = True,
      ns_compliance_tags = [NsGdpr],
      ns_tier_policy = [\<lparr>tq_tier = [0x66, 0x61, 0x73, 0x74], tq_quota_bytes = 1000\<rparr>],
      ns_size_band_pools = \<lparr>sb_inline = None, sb_replicated = Some [0x72, 0xC3, 0xA9], sb_ec = None\<rparr>\<rparr>"

lemma namespace_payload_roundtrip_example:
  "namespace_ok demo_namespace \<and>
   decode_namespace_create_payload (encode_namespace_create_payload demo_namespace)
     = Some (demo_namespace\<lparr>ns_compliance_tags := []\<rparr>)"
proof -
  have "namespace_ok demo_namespace"
    by (simp add: namespace_ok_def demo_namespace_def tier_ok_def band_ok_def utf8_cont_def u64_max_val)
  then show ?thesis using namespace_payload_roundtrip by blast
qed

end
