(* ===== verification/Composition_Storage.thy ===== *)
theory Composition_Storage
  imports Composition_Codec "HOL-Library.AList" "HOL-Library.Multiset"
begin

text \<open>
  The storage seam of the composition context: the composition row
  (\<^verbatim>\<open>crates/kiseki-composition/src/composition.rs\<close>), chunk locations
  (\<^verbatim>\<open>crates/kiseki-common/src/storage_location.rs\<close>), the \<^verbatim>\<open>CompositionStorage\<close> trait with its default
  methods and the in-memory backend \<^verbatim>\<open>MemoryStorage\<close> (\<^verbatim>\<open>persistent/storage.rs\<close>), including the
  last-writer-wins guard on names and the hydration batch.

  A \<^verbatim>\<open>HashMap\<close> is an association list with distinct keys; the list order stands for the map's
  iteration order. \<^verbatim>\<open>MemoryStorage\<close> never fails, so its operations return plain values where the
  trait returns a \<^verbatim>\<open>Result\<close>.

  The locale \<open>name_index\<close> states the contract of a two-way name index (forward and reverse map
  inverse to each other, newest bind wins, removal by identifier never removes a newer bind). It is
  interpreted on the storage index here and on the volatile overlay in \<open>Composition_Store\<close>.
\<close>

section \<open>Rows\<close>

datatype ChunkRefLocation = Hot bytes | Cold bytes nat nat nat

fun loc_pool_name :: "ChunkRefLocation \<Rightarrow> bytes" where
  "loc_pool_name (Hot pool_name) = pool_name"
| "loc_pool_name (Cold pool_name slab_id offset_in_slab len) = pool_name"

fun loc_is_cold :: "ChunkRefLocation \<Rightarrow> bool" where
  "loc_is_cold (Hot pool_name) = False"
| "loc_is_cold (Cold pool_name slab_id offset_in_slab len) = True"

record Composition =
  c_id :: nat
  c_tenant_id :: nat
  c_namespace_id :: nat
  c_shard_id :: nat
  c_chunks :: "bytes list"
  c_version :: nat
  c_size :: nat
  c_has_inline_data :: bool
  c_content_type :: "bytes option"
  c_chunk_plaintext_lens :: "nat list"
  c_chunk_locations :: "ChunkRefLocation list"

definition location_for :: "Composition \<Rightarrow> nat \<Rightarrow> ChunkRefLocation" where
  "location_for c i = (if i < length (c_chunk_locations c) then c_chunk_locations c ! i else Hot [])"

definition INLINE_DATA_THRESHOLD :: nat where
  "INLINE_DATA_THRESHOLD = 4096"

definition inline_flag :: "bytes list \<Rightarrow> nat \<Rightarrow> bool" where
  "inline_flag chunks sz \<longleftrightarrow> chunks = [] \<and> sz > 0 \<and> sz \<le> INLINE_DATA_THRESHOLD"

section \<open>The last-writer-wins guard\<close>

definition lww_accepts_bind :: "PerspectiveSeq option \<Rightarrow> PerspectiveSeq option \<Rightarrow> bool" where
  "lww_accepts_bind stored incoming =
     (case (stored, incoming) of
        (_, None) \<Rightarrow> True
      | (None, Some _) \<Rightarrow> True
      | (Some s_old, Some s_new) \<Rightarrow> s_new \<ge> s_old)"

section \<open>In-memory storage\<close>

type_synonym name_key = "nat \<times> bytes"

record MemoryStorage =
  ms_compositions :: "(nat \<times> Composition) list"
  ms_names :: "(name_key \<times> nat) list"
  ms_names_reverse :: "(nat \<times> name_key) list"
  ms_name_seqs :: "(name_key \<times> PerspectiveSeq) list"
  ms_last_applied_seq :: "(nat \<times> nat) list"
  ms_stuck_state :: "(nat \<times> (nat \<times> nat) option) list"
  ms_halted :: "(nat \<times> bool) list"

definition memory_storage_new :: MemoryStorage where
  "memory_storage_new =
     \<lparr>ms_compositions = [], ms_names = [], ms_names_reverse = [], ms_name_seqs = [],
      ms_last_applied_seq = [], ms_stuck_state = [], ms_halted = []\<rparr>"

definition storage_get :: "nat \<Rightarrow> MemoryStorage \<Rightarrow> Composition option" where
  "storage_get cid s = map_of (ms_compositions s) cid"

definition storage_count :: "MemoryStorage \<Rightarrow> nat" where
  "storage_count s = length (ms_compositions s)"

definition list_in_namespace :: "nat \<Rightarrow> MemoryStorage \<Rightarrow> Composition list" where
  "list_in_namespace ns s = filter (\<lambda>c. c_namespace_id c = ns) (map snd (ms_compositions s))"

definition storage_put :: "Composition \<Rightarrow> MemoryStorage \<Rightarrow> MemoryStorage" where
  "storage_put row s = s\<lparr>ms_compositions := AList.update (c_id row) row (ms_compositions s)\<rparr>"

definition drop_binding :: "nat \<Rightarrow> MemoryStorage \<Rightarrow> MemoryStorage" where
  "drop_binding cid s =
     (case map_of (ms_names_reverse s) cid of
        Some key \<Rightarrow>
          s\<lparr>ms_names_reverse := AList.delete cid (ms_names_reverse s),
            ms_names := AList.delete key (ms_names s),
            ms_name_seqs := AList.delete key (ms_name_seqs s)\<rparr>
      | None \<Rightarrow> s)"

definition storage_remove :: "nat \<Rightarrow> MemoryStorage \<Rightarrow> MemoryStorage \<times> bool" where
  "storage_remove cid s =
     (let s = drop_binding cid s in
      (s\<lparr>ms_compositions := AList.delete cid (ms_compositions s)\<rparr>, map_of (ms_compositions s) cid \<noteq> None))"

definition name_lookup :: "name_key \<Rightarrow> MemoryStorage \<Rightarrow> nat option" where
  "name_lookup key s = map_of (ms_names s) key"

definition name_for :: "nat \<Rightarrow> MemoryStorage \<Rightarrow> name_key option" where
  "name_for cid s = map_of (ms_names_reverse s) cid"

text \<open>The overwrite-replace cascade: the previous owner of the name loses its reverse entry, the
  previous name of the composition loses its forward entry and its stamp.\<close>

definition name_cascade :: "name_key \<Rightarrow> nat \<Rightarrow> MemoryStorage \<Rightarrow> MemoryStorage" where
  "name_cascade key cid s =
     (let s = (case map_of (ms_names s) key of
                 Some old_id \<Rightarrow>
                   if old_id \<noteq> cid
                   then s\<lparr>ms_names_reverse := AList.delete old_id (ms_names_reverse s)\<rparr> else s
               | None \<Rightarrow> s);
          s = (case map_of (ms_names_reverse s) cid of
                 Some old_key \<Rightarrow>
                   if old_key \<noteq> key
                   then s\<lparr>ms_names := AList.delete old_key (ms_names s),
                          ms_name_seqs := AList.delete old_key (ms_name_seqs s)\<rparr> else s
               | None \<Rightarrow> s)
      in s\<lparr>ms_names := AList.update key cid (ms_names s),
           ms_names_reverse := AList.update cid key (ms_names_reverse s)\<rparr>)"

definition name_insert :: "name_key \<Rightarrow> nat \<Rightarrow> MemoryStorage \<Rightarrow> MemoryStorage" where
  "name_insert key cid s =
     (let s = name_cascade key cid s in s\<lparr>ms_name_seqs := AList.delete key (ms_name_seqs s)\<rparr>)"

definition name_seq_lookup :: "name_key \<Rightarrow> MemoryStorage \<Rightarrow> PerspectiveSeq option" where
  "name_seq_lookup key s = map_of (ms_name_seqs s) key"

definition name_seq_record :: "name_key \<Rightarrow> PerspectiveSeq option \<Rightarrow> MemoryStorage \<Rightarrow> MemoryStorage" where
  "name_seq_record key seq s =
     (case seq of
        Some q \<Rightarrow> s\<lparr>ms_name_seqs := AList.update key q (ms_name_seqs s)\<rparr>
      | None \<Rightarrow> s\<lparr>ms_name_seqs := AList.delete key (ms_name_seqs s)\<rparr>)"

definition name_insert_with_seq ::
    "name_key \<Rightarrow> nat \<Rightarrow> PerspectiveSeq option \<Rightarrow> MemoryStorage \<Rightarrow> MemoryStorage \<times> bool" where
  "name_insert_with_seq key cid incoming s =
     (if \<not> lww_accepts_bind (name_seq_lookup key s) incoming then (s, False)
      else (name_seq_record key incoming (name_insert key cid s), True))"

definition put_with_name :: "Composition \<Rightarrow> name_key \<Rightarrow> MemoryStorage \<Rightarrow> MemoryStorage" where
  "put_with_name row key s = name_insert key (c_id row) (storage_put row s)"

definition name_remove :: "name_key \<Rightarrow> MemoryStorage \<Rightarrow> MemoryStorage \<times> bool" where
  "name_remove key s =
     (let s = s\<lparr>ms_name_seqs := AList.delete key (ms_name_seqs s)\<rparr> in
      case map_of (ms_names s) key of
        Some cid \<Rightarrow>
          (s\<lparr>ms_names := AList.delete key (ms_names s),
             ms_names_reverse := AList.delete cid (ms_names_reverse s)\<rparr>, True)
      | None \<Rightarrow> (s, False))"

definition name_remove_with_seq ::
    "name_key \<Rightarrow> PerspectiveSeq option \<Rightarrow> MemoryStorage \<Rightarrow> MemoryStorage \<times> bool" where
  "name_remove_with_seq key incoming s =
     (if \<not> lww_accepts_bind (name_seq_lookup key s) incoming then (s, False)
      else let (s, removed) = name_remove key s in (name_seq_record key None s, removed))"

definition has_prefix :: "bytes option \<Rightarrow> bytes \<Rightarrow> bool" where
  "has_prefix pre name \<longleftrightarrow> (case pre of None \<Rightarrow> True | Some p \<Rightarrow> take (length p) name = p)"

definition name_list :: "nat \<Rightarrow> bytes option \<Rightarrow> MemoryStorage \<Rightarrow> (bytes \<times> nat) list" where
  "name_list ns pre s =
     sort_key fst
       (map (\<lambda>((n, name), cid). (name, cid))
         (filter (\<lambda>((n, name), cid). n = ns \<and> has_prefix pre name) (ms_names s)))"

definition last_applied_seq :: "nat \<Rightarrow> MemoryStorage \<Rightarrow> nat" where
  "last_applied_seq shard s = (case map_of (ms_last_applied_seq s) shard of Some n \<Rightarrow> n | None \<Rightarrow> 0)"

definition stuck_state :: "nat \<Rightarrow> MemoryStorage \<Rightarrow> (nat \<times> nat) option" where
  "stuck_state shard s = (case map_of (ms_stuck_state s) shard of Some st \<Rightarrow> st | None \<Rightarrow> None)"

definition storage_halted :: "nat \<Rightarrow> MemoryStorage \<Rightarrow> bool" where
  "storage_halted shard s = (case map_of (ms_halted s) shard of Some h \<Rightarrow> h | None \<Rightarrow> False)"

definition halted_any :: "MemoryStorage \<Rightarrow> bool" where
  "halted_any s \<longleftrightarrow> list_ex snd (ms_halted s)"

section \<open>Hydration batches\<close>

record HydrationBatch =
  hb_shard_id :: nat
  hb_puts :: "Composition list"
  hb_removes :: "nat list"
  hb_name_inserts :: "(nat \<times> bytes \<times> nat \<times> PerspectiveSeq option) list"
  hb_name_removes :: "(nat \<times> bytes \<times> PerspectiveSeq option) list"
  hb_new_last_applied_seq :: nat
  hb_stuck_state :: "(nat \<times> nat) option option"
  hb_halted :: "bool option"
  hb_migrated_chunk_evictions :: "bytes list"

definition batch_advance :: "nat \<Rightarrow> nat \<Rightarrow> HydrationBatch" where
  "batch_advance shard seq =
     \<lparr>hb_shard_id = shard, hb_puts = [], hb_removes = [], hb_name_inserts = [], hb_name_removes = [],
      hb_new_last_applied_seq = seq, hb_stuck_state = Some None, hb_halted = None,
      hb_migrated_chunk_evictions = []\<rparr>"

definition has_data_changes :: "HydrationBatch \<Rightarrow> bool" where
  "has_data_changes b \<longleftrightarrow>
     hb_puts b \<noteq> [] \<or> hb_removes b \<noteq> [] \<or> hb_name_inserts b \<noteq> [] \<or> hb_name_removes b \<noteq> []"

definition batch_row_remove :: "nat \<Rightarrow> MemoryStorage \<Rightarrow> MemoryStorage" where
  "batch_row_remove cid s =
     (let s = drop_binding cid s in s\<lparr>ms_compositions := AList.delete cid (ms_compositions s)\<rparr>)"

fun batch_name_insert :: "nat \<times> bytes \<times> nat \<times> PerspectiveSeq option \<Rightarrow> MemoryStorage \<Rightarrow> MemoryStorage" where
  "batch_name_insert (ns, name, cid, incoming_seq) s =
     (let key = (ns, name) in
      if \<not> lww_accepts_bind (map_of (ms_name_seqs s) key) incoming_seq then s
      else
        let s = name_cascade key cid s in
        case incoming_seq of
          Some q \<Rightarrow> s\<lparr>ms_name_seqs := AList.update key q (ms_name_seqs s)\<rparr>
        | None \<Rightarrow> s\<lparr>ms_name_seqs := AList.delete key (ms_name_seqs s)\<rparr>)"

fun batch_name_remove :: "nat \<times> bytes \<times> PerspectiveSeq option \<Rightarrow> MemoryStorage \<Rightarrow> MemoryStorage" where
  "batch_name_remove (ns, name, incoming_seq) s =
     (let key = (ns, name) in
      if \<not> lww_accepts_bind (map_of (ms_name_seqs s) key) incoming_seq then s
      else
        let s = (case map_of (ms_names s) key of
                   Some cid \<Rightarrow>
                     s\<lparr>ms_names := AList.delete key (ms_names s),
                       ms_names_reverse := AList.delete cid (ms_names_reverse s)\<rparr>
                 | None \<Rightarrow> s)
        in s\<lparr>ms_name_seqs := AList.delete key (ms_name_seqs s)\<rparr>)"

definition batch_meta :: "HydrationBatch \<Rightarrow> MemoryStorage \<Rightarrow> MemoryStorage" where
  "batch_meta b s =
     (let s = s\<lparr>ms_last_applied_seq :=
                 AList.update (hb_shard_id b) (hb_new_last_applied_seq b) (ms_last_applied_seq s)\<rparr>;
          s = (case hb_stuck_state b of
                 Some stuck \<Rightarrow> s\<lparr>ms_stuck_state := AList.update (hb_shard_id b) stuck (ms_stuck_state s)\<rparr>
               | None \<Rightarrow> s)
      in (case hb_halted b of
            Some h \<Rightarrow> s\<lparr>ms_halted := AList.update (hb_shard_id b) h (ms_halted s)\<rparr>
          | None \<Rightarrow> s))"

definition apply_hydration_batch :: "HydrationBatch \<Rightarrow> MemoryStorage \<Rightarrow> MemoryStorage" where
  "apply_hydration_batch b s =
     (let s = fold storage_put (hb_puts b) s;
          s = fold batch_row_remove (hb_removes b) s;
          s = fold batch_name_insert (hb_name_inserts b) s;
          s = fold batch_name_remove (hb_name_removes b) s
      in batch_meta b s)"

section \<open>Two-way name indexes\<close>

locale name_index =
  fixes fwd :: "'s \<Rightarrow> 'k \<Rightarrow> 'i option"
    and bwd :: "'s \<Rightarrow> 'i \<Rightarrow> 'k option"
    and bind_key :: "'k \<Rightarrow> 'i \<Rightarrow> 's \<Rightarrow> 's"
    and unbind_id :: "'i \<Rightarrow> 's \<Rightarrow> 's"
    and wf :: "'s \<Rightarrow> bool"
  assumes inverse: "wf s \<Longrightarrow> fwd s k = Some i \<longleftrightarrow> bwd s i = Some k"
    and fwd_bind: "wf s \<Longrightarrow>
      fwd (bind_key k i s) k' = (if k' = k then Some i else if fwd s k' = Some i then None else fwd s k')"
    and fwd_unbind: "wf s \<Longrightarrow> fwd (unbind_id i s) k = (if fwd s k = Some i then None else fwd s k)"
    and wf_bind: "wf s \<Longrightarrow> wf (bind_key k i s)"
    and wf_unbind: "wf s \<Longrightarrow> wf (unbind_id i s)"
begin

lemma one_name: "wf s \<Longrightarrow> fwd s k = Some i \<Longrightarrow> fwd s k' = Some i \<Longrightarrow> k = k'"
  by (metis inverse option.inject)

lemma newest_bind_wins: "wf s \<Longrightarrow> fwd (bind_key k j (bind_key k i s)) k = Some j"
  by (simp add: fwd_bind wf_bind)

lemma unbind_keeps_newer: "wf s \<Longrightarrow> i \<noteq> j \<Longrightarrow> fwd (unbind_id i (bind_key k j s)) k = Some j"
  by (simp add: fwd_bind fwd_unbind wf_bind)

lemma unbind_removes: "wf s \<Longrightarrow> bwd (unbind_id i s) i = None"
proof (cases "bwd (unbind_id i s) i")
  case (Some k)
  assume "wf s"
  with Some have "fwd (unbind_id i s) k = Some i" using wf_unbind inverse by blast
  with \<open>wf s\<close> have False by (simp add: fwd_unbind split: if_splits)
  then show ?thesis ..
qed simp

lemma bind_frame: "wf s \<Longrightarrow> fwd s k' \<noteq> Some i \<Longrightarrow> k' \<noteq> k \<Longrightarrow> fwd (bind_key k i s) k' = fwd s k'"
  by (simp add: fwd_bind)

end

section \<open>The storage index\<close>

declare update_conv' [simp] delete_conv' [simp]

definition inverse_maps :: "('k \<Rightarrow> 'i option) \<Rightarrow> ('i \<Rightarrow> 'k option) \<Rightarrow> bool" where
  "inverse_maps f g \<longleftrightarrow> (\<forall>k i. f k = Some i \<longleftrightarrow> g i = Some k)"

lemma inverse_maps_iff: "inverse_maps f g \<Longrightarrow> f k = Some i \<longleftrightarrow> g i = Some k"
  by (simp add: inverse_maps_def)

lemma inverse_mapsI: "(\<And>k i. f k = Some i \<longleftrightarrow> g i = Some k) \<Longrightarrow> inverse_maps f g"
  by (simp add: inverse_maps_def)

lemma inverse_maps_bind:
  assumes "inverse_maps f g"
  shows "inverse_maps (\<lambda>k. if k = key then Some cid else if f k = Some cid then None else f k)
                  (\<lambda>i. if i = cid then Some key else if g i = Some key then None else g i)"
proof (rule inverse_mapsI)
  fix k i
  show "(if k = key then Some cid else if f k = Some cid then None else f k) = Some i
      \<longleftrightarrow> (if i = cid then Some key else if g i = Some key then None else g i) = Some k"
    using inverse_maps_iff [OF assms, of k i] inverse_maps_iff [OF assms, of k cid]
      inverse_maps_iff [OF assms, of key i] by (auto split: if_splits)
qed

lemma inverse_maps_drop:
  assumes "inverse_maps f g" "f key = Some cid"
  shows "inverse_maps (f(key := None)) (g(cid := None))"
proof (rule inverse_mapsI)
  fix k i
  show "(f(key := None)) k = Some i \<longleftrightarrow> (g(cid := None)) i = Some k"
    using inverse_maps_iff [OF assms(1), of k i] inverse_maps_iff [OF assms(1), of k cid]
      inverse_maps_iff [OF assms(1), of key i] inverse_maps_iff [OF assms(1), of key cid] assms(2)
    by (auto split: if_splits)
qed

definition names_wf :: "MemoryStorage \<Rightarrow> bool" where
  "names_wf s \<longleftrightarrow>
     inverse_maps (map_of (ms_names s)) (map_of (ms_names_reverse s))
     \<and> dom (map_of (ms_name_seqs s)) \<subseteq> dom (map_of (ms_names s))
     \<and> distinct (map fst (ms_names s))"

lemma names_wfD:
  assumes "names_wf s"
  shows names_wf_iff: "map_of (ms_names s) key = Some cid \<longleftrightarrow> map_of (ms_names_reverse s) cid = Some key"
    and names_wf_seq: "map_of (ms_name_seqs s) key = Some q \<Longrightarrow> \<exists>cid. map_of (ms_names s) key = Some cid"
    and names_wf_distinct: "distinct (map fst (ms_names s))"
    and names_wf_inverse: "inverse_maps (map_of (ms_names s)) (map_of (ms_names_reverse s))"
proof -
  show "map_of (ms_names s) key = Some cid \<longleftrightarrow> map_of (ms_names_reverse s) cid = Some key"
    by (rule inverse_maps_iff) (use assms in \<open>simp add: names_wf_def\<close>)
  show "\<exists>cid. map_of (ms_names s) key = Some cid" if "map_of (ms_name_seqs s) key = Some q"
    using assms that unfolding names_wf_def by blast
qed (use assms in \<open>simp_all add: names_wf_def\<close>)

lemma names_wf_new [simp]: "names_wf memory_storage_new"
  by (simp add: names_wf_def memory_storage_new_def inverse_maps_def)

lemma cascade_names:
  assumes "names_wf s"
  shows "map_of (ms_names (name_cascade key cid s)) k
    = (if k = key then Some cid else if map_of (ms_names s) k = Some cid then None else map_of (ms_names s) k)"
  using names_wf_iff [OF assms]
  by (auto simp: name_cascade_def Let_def split: option.splits)

lemma cascade_reverse:
  assumes "names_wf s"
  shows "map_of (ms_names_reverse (name_cascade key cid s)) i
    = (if i = cid then Some key else if map_of (ms_names_reverse s) i = Some key then None
       else map_of (ms_names_reverse s) i)"
  using names_wf_iff [OF assms, of key i] names_wf_iff [OF assms, of key cid]
  by (auto simp: name_cascade_def Let_def split: option.splits)

lemma cascade_seqs:
  assumes "names_wf s"
  shows "map_of (ms_name_seqs (name_cascade key cid s)) k
    = (if k \<noteq> key \<and> map_of (ms_names s) k = Some cid then None else map_of (ms_name_seqs s) k)"
  using names_wf_iff [OF assms]
  by (auto simp: name_cascade_def Let_def split: option.splits)

lemma cascade_distinct:
  "distinct (map fst (ms_names s)) \<Longrightarrow> distinct (map fst (ms_names (name_cascade key cid s)))"
  by (auto simp: name_cascade_def Let_def distinct_update distinct_delete split: option.splits)

lemma cascade_frame [simp]:
  "ms_compositions (name_cascade key cid s) = ms_compositions s"
  "ms_last_applied_seq (name_cascade key cid s) = ms_last_applied_seq s"
  "ms_stuck_state (name_cascade key cid s) = ms_stuck_state s"
  "ms_halted (name_cascade key cid s) = ms_halted s"
  by (simp_all add: name_cascade_def Let_def split: option.splits)

text \<open>Binding with a stamp, the step that the plain bind, the guarded bind and the batch share.\<close>

definition bind_stamped :: "name_key \<Rightarrow> nat \<Rightarrow> PerspectiveSeq option \<Rightarrow> MemoryStorage \<Rightarrow> MemoryStorage" where
  "bind_stamped key cid seq s = name_seq_record key seq (name_cascade key cid s)"

lemma name_seq_record_frame [simp]:
  "ms_compositions (name_seq_record key seq s) = ms_compositions s"
  "ms_names (name_seq_record key seq s) = ms_names s"
  "ms_names_reverse (name_seq_record key seq s) = ms_names_reverse s"
  "ms_last_applied_seq (name_seq_record key seq s) = ms_last_applied_seq s"
  "ms_stuck_state (name_seq_record key seq s) = ms_stuck_state s"
  "ms_halted (name_seq_record key seq s) = ms_halted s"
  by (simp_all add: name_seq_record_def split: option.splits)

lemma name_seq_record_seqs [simp]:
  "map_of (ms_name_seqs (name_seq_record key seq s)) = (map_of (ms_name_seqs s))(key := seq)"
  by (simp add: name_seq_record_def fun_eq_iff split: option.splits)

lemma bind_stamped_wf: "names_wf s \<Longrightarrow> names_wf (bind_stamped key cid seq s)"
proof -
  assume w: "names_wf s"
  have "map_of (ms_names (bind_stamped key cid seq s))
      = (\<lambda>k. if k = key then Some cid else if map_of (ms_names s) k = Some cid then None
             else map_of (ms_names s) k)"
    by (rule ext) (simp add: bind_stamped_def cascade_names [OF w])
  moreover have "map_of (ms_names_reverse (bind_stamped key cid seq s))
      = (\<lambda>i. if i = cid then Some key else if map_of (ms_names_reverse s) i = Some key then None
             else map_of (ms_names_reverse s) i)"
    by (rule ext) (simp add: bind_stamped_def cascade_reverse [OF w])
  ultimately have "inverse_maps (map_of (ms_names (bind_stamped key cid seq s)))
      (map_of (ms_names_reverse (bind_stamped key cid seq s)))"
    using inverse_maps_bind [OF names_wf_inverse [OF w], of key cid] by simp
  moreover have "\<exists>i. map_of (ms_names (bind_stamped key cid seq s)) k = Some i"
    if "map_of (ms_name_seqs (bind_stamped key cid seq s)) k = Some q" for k q
    using that names_wf_seq [OF w, of k q]
    by (auto simp: bind_stamped_def cascade_names [OF w] cascade_seqs [OF w] split: if_splits)
  moreover have "distinct (map fst (ms_names (bind_stamped key cid seq s)))"
    using names_wf_distinct [OF w] by (simp add: bind_stamped_def cascade_distinct)
  ultimately show ?thesis unfolding names_wf_def by blast
qed

lemma name_insert_stamped: "name_insert key cid s = bind_stamped key cid None s"
  by (simp add: name_insert_def bind_stamped_def name_seq_record_def Let_def)

lemma batch_name_insert_stamped:
  "batch_name_insert (ns, name, cid, seq) s =
     (if lww_accepts_bind (map_of (ms_name_seqs s) (ns, name)) seq then bind_stamped (ns, name) cid seq s else s)"
  by (simp add: bind_stamped_def name_seq_record_def Let_def split: option.splits)

lemma drop_binding_names:
  assumes "names_wf s"
  shows "map_of (ms_names (drop_binding cid s)) k
    = (if map_of (ms_names s) k = Some cid then None else map_of (ms_names s) k)"
  using names_wf_iff [OF assms] by (auto simp: drop_binding_def split: option.splits)

lemma drop_binding_frame [simp]:
  "ms_compositions (drop_binding cid s) = ms_compositions s"
  "ms_last_applied_seq (drop_binding cid s) = ms_last_applied_seq s"
  "ms_stuck_state (drop_binding cid s) = ms_stuck_state s"
  "ms_halted (drop_binding cid s) = ms_halted s"
  by (simp_all add: drop_binding_def split: option.splits)

lemma drop_binding_wf: "names_wf s \<Longrightarrow> names_wf (drop_binding cid s)"
proof -
  assume w: "names_wf s"
  show ?thesis
  proof (cases "map_of (ms_names_reverse s) cid")
    case (Some key)
    then have "map_of (ms_names s) key = Some cid" using names_wf_iff [OF w] by blast
    note inv = inverse_maps_drop [OF names_wf_inverse [OF w] this]
    have "dom (map_of (ms_name_seqs s)) - {key} \<subseteq> dom (map_of (ms_names s)) - {key}"
      using w unfolding names_wf_def by blast
    then show ?thesis using Some inv names_wf_distinct [OF w]
      by (simp add: names_wf_def drop_binding_def distinct_delete)
  qed (simp add: drop_binding_def w)
qed

interpretation storage_names: name_index
  "\<lambda>s k. name_lookup k s" "\<lambda>s i. name_for i s" "\<lambda>k i. name_insert k i" drop_binding names_wf
proof unfold_locales
  fix s k i k' assume w: "names_wf s"
  show "name_lookup k s = Some i \<longleftrightarrow> name_for i s = Some k"
    using names_wf_iff [OF w] by (simp add: name_lookup_def name_for_def)
  show "name_lookup k' (name_insert k i s)
      = (if k' = k then Some i else if name_lookup k' s = Some i then None else name_lookup k' s)"
    by (simp add: name_lookup_def name_insert_stamped bind_stamped_def cascade_names [OF w])
  show "name_lookup k (drop_binding i s) = (if name_lookup k s = Some i then None else name_lookup k s)"
    by (simp add: name_lookup_def drop_binding_names [OF w])
  show "names_wf (name_insert k i s)" using w by (simp add: name_insert_stamped bind_stamped_wf)
  show "names_wf (drop_binding i s)" using w by (rule drop_binding_wf)
qed

section \<open>Every storage operation keeps the index\<close>

lemma names_wf_cong:
  "ms_names t = ms_names s \<Longrightarrow> ms_names_reverse t = ms_names_reverse s \<Longrightarrow> ms_name_seqs t = ms_name_seqs s \<Longrightarrow>
     names_wf t = names_wf s"
  by (simp add: names_wf_def)

lemma storage_put_wf: "names_wf s \<Longrightarrow> names_wf (storage_put row s)"
  by (simp add: storage_put_def cong: names_wf_cong)

lemma batch_row_remove_wf: "names_wf s \<Longrightarrow> names_wf (batch_row_remove cid s)"
  using drop_binding_wf [of s cid] by (simp add: batch_row_remove_def Let_def names_wf_def)

lemma storage_remove_fst: "fst (storage_remove cid s) = batch_row_remove cid s"
  by (simp add: storage_remove_def batch_row_remove_def Let_def)

lemma batch_name_insert_wf: "names_wf s \<Longrightarrow> names_wf (batch_name_insert b s)"
  by (cases b) (simp add: batch_name_insert_stamped bind_stamped_wf del: batch_name_insert.simps)

text \<open>Unbinding a name drops the binding of its owner.\<close>

lemma unbind_as_drop:
  assumes "names_wf s" "map_of (ms_names s) key = Some cid"
  shows "s\<lparr>ms_names := AList.delete key (ms_names s), ms_names_reverse := AList.delete cid (ms_names_reverse s),
           ms_name_seqs := AList.delete key (ms_name_seqs s)\<rparr> = drop_binding cid s"
  using assms names_wf_iff [OF assms(1), of key cid] by (simp add: drop_binding_def)

lemma unbound_no_stamp:
  assumes "names_wf s" "map_of (ms_names s) key = None"
  shows "AList.delete key (ms_name_seqs s) = ms_name_seqs s"
proof -
  have "map_of (ms_name_seqs s) key = None"
    using names_wf_seq [OF assms(1), of key] assms(2) by (cases "map_of (ms_name_seqs s) key") auto
  then show ?thesis by (simp add: map_of_eq_None_iff delete_idem)
qed

lemma name_remove_drop:
  assumes "names_wf s"
  shows "fst (name_remove key s) = (case name_lookup key s of None \<Rightarrow> s | Some cid \<Rightarrow> drop_binding cid s)"
proof (cases "map_of (ms_names s) key")
  case None
  then show ?thesis
    using unbound_no_stamp [OF assms None] by (simp add: name_remove_def name_lookup_def Let_def)
next
  case (Some cid)
  then show ?thesis
    using names_wf_iff [OF assms, of key cid]
    by (simp add: name_remove_def name_lookup_def Let_def drop_binding_def)
qed

lemma batch_name_remove_drop:
  assumes "names_wf s"
  shows "batch_name_remove (ns, name, seq) s =
    (if lww_accepts_bind (map_of (ms_name_seqs s) (ns, name)) seq
     then case name_lookup (ns, name) s of None \<Rightarrow> s | Some cid \<Rightarrow> drop_binding cid s
     else s)"
proof (cases "map_of (ms_names s) (ns, name)")
  case None
  then show ?thesis
    using unbound_no_stamp [OF assms None] by (simp add: name_lookup_def Let_def)
next
  case (Some cid)
  then show ?thesis
    using unbind_as_drop [OF assms Some] by (simp add: name_lookup_def Let_def)
qed

lemma name_remove_wf: "names_wf s \<Longrightarrow> names_wf (fst (name_remove key s))"
  by (simp add: name_remove_drop drop_binding_wf split: option.split)

lemma batch_name_remove_wf: "names_wf s \<Longrightarrow> names_wf (batch_name_remove b s)"
  by (cases b) (simp add: batch_name_remove_drop drop_binding_wf del: batch_name_remove.simps split: option.split)

lemma fold_wf: "(\<And>x s. P s \<Longrightarrow> P (f x s)) \<Longrightarrow> P s \<Longrightarrow> P (fold f xs s)"
  by (induction xs arbitrary: s) auto

lemma batch_meta_frame [simp]:
  "ms_compositions (batch_meta b s) = ms_compositions s" "ms_names (batch_meta b s) = ms_names s"
  "ms_names_reverse (batch_meta b s) = ms_names_reverse s" "ms_name_seqs (batch_meta b s) = ms_name_seqs s"
  by (simp_all add: batch_meta_def Let_def split: option.split)

lemma batch_meta_wf: "names_wf s \<Longrightarrow> names_wf (batch_meta b s)"
  by (simp add: names_wf_def)

lemma apply_hydration_batch_wf: "names_wf s \<Longrightarrow> names_wf (apply_hydration_batch b s)"
  unfolding apply_hydration_batch_def Let_def
  by (intro batch_meta_wf fold_wf [where P = names_wf]
      storage_put_wf batch_row_remove_wf batch_name_insert_wf batch_name_remove_wf)

text \<open>The guarded bind of the trait and the guarded bind of the batch are the same operation.\<close>

lemma name_insert_with_seq_batch:
  "let t = fst (name_insert_with_seq (ns, name) cid seq s); t' = batch_name_insert (ns, name, cid, seq) s in
     ms_compositions t = ms_compositions t' \<and> ms_names t = ms_names t'
     \<and> ms_names_reverse t = ms_names_reverse t' \<and> map_of (ms_name_seqs t) = map_of (ms_name_seqs t')"
  by (simp add: name_insert_with_seq_def batch_name_insert_stamped name_seq_lookup_def Let_def
      name_insert_def bind_stamped_def del: batch_name_insert.simps)

section \<open>Rows after a batch\<close>

lemma fold_storage_put:
  "map_of (ms_compositions (fold storage_put rows s)) i
     = (map_of (ms_compositions s) ++ map_of (rev (map (\<lambda>r. (c_id r, r)) rows))) i"
  by (induction rows arbitrary: s) (simp_all add: storage_put_def map_add_def split: option.split)

lemma fold_batch_remove:
  "map_of (ms_compositions (fold batch_row_remove ids s)) i
     = (if i \<in> set ids then None else map_of (ms_compositions s) i)"
  by (induction ids arbitrary: s) (simp_all add: batch_row_remove_def Let_def)

lemma name_steps_keep_rows [simp]:
  "ms_compositions (batch_name_insert b s) = ms_compositions s"
  "ms_compositions (batch_name_remove d s) = ms_compositions s"
  by (cases b; simp add: Let_def split: option.split) (cases d; simp add: Let_def split: option.split)

lemma fold_keep_rows:
  "(\<And>x s. ms_compositions (f x s) = ms_compositions s) \<Longrightarrow> ms_compositions (fold f xs s) = ms_compositions s"
  by (induction xs arbitrary: s) simp_all

lemma apply_hydration_batch_rows:
  "storage_get i (apply_hydration_batch b s)
     = (if i \<in> set (hb_removes b) then None
        else (map_of (ms_compositions s) ++ map_of (rev (map (\<lambda>r. (c_id r, r)) (hb_puts b)))) i)"
  by (simp add: apply_hydration_batch_def storage_get_def Let_def fold_keep_rows fold_batch_remove fold_storage_put)

lemma meta_fold [simp]:
  "ms_last_applied_seq (storage_put r s) = ms_last_applied_seq s"
  "ms_last_applied_seq (batch_row_remove i s) = ms_last_applied_seq s"
  "ms_last_applied_seq (batch_name_insert b s) = ms_last_applied_seq s"
  "ms_last_applied_seq (batch_name_remove d s) = ms_last_applied_seq s"
  "ms_halted (storage_put r s) = ms_halted s"
  "ms_halted (batch_row_remove i s) = ms_halted s"
  "ms_halted (batch_name_insert b s) = ms_halted s"
  "ms_halted (batch_name_remove d s) = ms_halted s"
  "ms_stuck_state (storage_put r s) = ms_stuck_state s"
  "ms_stuck_state (batch_row_remove i s) = ms_stuck_state s"
  "ms_stuck_state (batch_name_insert b s) = ms_stuck_state s"
  "ms_stuck_state (batch_name_remove d s) = ms_stuck_state s"
  by (cases b; cases d;
      simp add: storage_put_def batch_row_remove_def Let_def split: option.split)+

lemma fold_keeps: "(\<And>x s. g (f x s) = g s) \<Longrightarrow> g (fold f xs s) = g s"
  by (induction xs arbitrary: s) simp_all

lemma apply_hydration_batch_meta:
  "last_applied_seq sh (apply_hydration_batch b s)
     = (if sh = hb_shard_id b then hb_new_last_applied_seq b else last_applied_seq sh s)"
  "storage_halted sh (apply_hydration_batch b s)
     = (if sh = hb_shard_id b then case hb_halted b of Some h \<Rightarrow> h | None \<Rightarrow> storage_halted sh s
        else storage_halted sh s)"
  "stuck_state sh (apply_hydration_batch b s)
     = (if sh = hb_shard_id b then case hb_stuck_state b of Some st \<Rightarrow> st | None \<Rightarrow> stuck_state sh s
        else stuck_state sh s)"
  by (simp_all add: apply_hydration_batch_def Let_def last_applied_seq_def storage_halted_def stuck_state_def
      batch_meta_def fold_keeps [where g = ms_last_applied_seq] fold_keeps [where g = ms_halted]
      fold_keeps [where g = ms_stuck_state] split: option.split)

section \<open>Convergence of name bindings\<close>

text \<open>The register of a name: its owner and its stamp. A guarded bind of a composition that has no
  other name acts on the register of its name only.\<close>

definition name_register :: "name_key \<Rightarrow> MemoryStorage \<Rightarrow> nat option \<times> PerspectiveSeq option" where
  "name_register key s = (name_lookup key s, name_seq_lookup key s)"

definition unbound :: "nat \<Rightarrow> MemoryStorage \<Rightarrow> bool" where
  "unbound cid s \<longleftrightarrow> name_for cid s = None"

fun register_step ::
    "name_key \<Rightarrow> nat \<times> bytes \<times> nat \<times> PerspectiveSeq option \<Rightarrow>
       nat option \<times> PerspectiveSeq option \<Rightarrow> nat option \<times> PerspectiveSeq option" where
  "register_step key (ns, name, cid, seq) r =
     (if key = (ns, name) \<and> lww_accepts_bind (snd r) seq then (Some cid, seq) else r)"

lemma unbound_lookup: "names_wf s \<Longrightarrow> unbound cid s \<Longrightarrow> name_lookup k s \<noteq> Some cid"
  using storage_names.inverse [of s k cid] by (simp add: unbound_def)

lemma bind_register:
  assumes "names_wf s" "unbound cid s"
  shows "name_register k (batch_name_insert (ns, name, cid, seq) s)
    = register_step k (ns, name, cid, seq) (name_register k s)"
  using unbound_lookup [OF assms, of k]
  by (auto simp: batch_name_insert_stamped bind_stamped_def name_register_def name_lookup_def
      name_seq_lookup_def cascade_names [OF assms(1)] cascade_seqs [OF assms(1)]
      simp del: batch_name_insert.simps)

lemma bind_keeps_unbound:
  assumes "names_wf s" "unbound c s" "c \<noteq> cid"
  shows "unbound c (batch_name_insert (ns, name, cid, seq) s)"
  using assms by (auto simp: batch_name_insert_stamped bind_stamped_def unbound_def name_for_def
      cascade_reverse simp del: batch_name_insert.simps)

abbreviation bind_cid :: "nat \<times> bytes \<times> nat \<times> PerspectiveSeq option \<Rightarrow> nat" where
  "bind_cid b \<equiv> fst (snd (snd b))"

abbreviation bind_seq :: "nat \<times> bytes \<times> nat \<times> PerspectiveSeq option \<Rightarrow> PerspectiveSeq option" where
  "bind_seq b \<equiv> snd (snd (snd b))"

lemma fold_register:
  "names_wf s \<Longrightarrow> distinct (map bind_cid bs) \<Longrightarrow> list_all (\<lambda>b. unbound (bind_cid b) s) bs \<Longrightarrow>
     name_register k (fold batch_name_insert bs s) = fold (register_step k) bs (name_register k s)"
proof (induction bs arbitrary: s)
  case (Cons b bs)
  obtain ns name cid seq where b: "b = (ns, name, cid, seq)" by (cases b)
  let ?t = "batch_name_insert b s"
  have "names_wf ?t" using Cons.prems(1) by (rule batch_name_insert_wf)
  moreover have "list_all (\<lambda>b. unbound (bind_cid b) ?t) bs"
    using Cons.prems by (auto simp: b list_all_iff simp del: batch_name_insert.simps intro!: bind_keeps_unbound)
  moreover have "name_register k ?t = register_step k b (name_register k s)"
    using bind_register [OF Cons.prems(1)] Cons.prems(3) unfolding b by simp
  ultimately show ?case using Cons.IH [of ?t] Cons.prems(2) by simp
qed simp

lemma register_step_commute:
  assumes "bind_seq a \<noteq> None" "bind_seq b \<noteq> None" "bind_seq a \<noteq> bind_seq b \<or> a = b"
  shows "register_step k a \<circ> register_step k b = register_step k b \<circ> register_step k a"
proof
  fix r :: "nat option \<times> PerspectiveSeq option"
  obtain an am ac aq where a: "a = (an, am, ac, Some aq)" using assms(1) by (cases a) auto
  obtain bn bm bc bq where b: "b = (bn, bm, bc, Some bq)" using assms(2) by (cases b) auto
  obtain x q where r: "r = (x, q)" by (cases r)
  show "(register_step k a \<circ> register_step k b) r = (register_step k b \<circ> register_step k a) r"
  proof (cases "k = (an, am) \<and> k = (bn, bm) \<and> a \<noteq> b")
    case True
    then have "aq < bq \<or> bq < aq" using assms(3) by (auto simp: a b)
    then show ?thesis using True by (cases q) (auto simp: a b r lww_accepts_bind_def)
  next
    case False
    then show ?thesis by (cases "a = b") (auto simp: a b)
  qed
qed

lemma register_step_grows:
  assumes "snd r = Some q0" "bind_seq b \<noteq> None"
  shows "\<exists>q. snd (register_step k b r) = Some q \<and> q0 \<le> q"
  using assms by (cases b) (auto simp: lww_accepts_bind_def)

lemma fold_register_grows:
  "list_all (\<lambda>b. bind_seq b \<noteq> None) bs \<Longrightarrow> snd r = Some q0 \<Longrightarrow>
     \<exists>q. snd (fold (register_step k) bs r) = Some q \<and> q0 \<le> q"
proof (induction bs arbitrary: r q0)
  case (Cons b bs)
  have "bind_seq b \<noteq> None" using Cons.prems(1) by simp
  from register_step_grows [OF Cons.prems(2) this] obtain q1
    where "snd (register_step k b r) = Some q1" "q0 \<le> q1" by blast
  with Cons.IH [of "register_step k b r" q1] Cons.prems(1) show ?case by fastforce
qed simp

lemma fold_register_max:
  "list_all (\<lambda>b. bind_seq b \<noteq> None) bs \<Longrightarrow> (ns, name, c, Some q) \<in> set bs \<Longrightarrow>
     \<exists>wq. snd (fold (register_step (ns, name)) bs r) = Some wq \<and> q \<le> wq"
proof (induction bs arbitrary: r)
  case (Cons b bs)
  show ?case
  proof (cases "(ns, name, c, Some q) \<in> set bs")
    case True
    then show ?thesis using Cons.IH [of "register_step (ns, name) b r"] Cons.prems(1) by simp
  next
    case False
    then have b: "b = (ns, name, c, Some q)" using Cons.prems(2) by simp
    have "\<exists>q1. snd (register_step (ns, name) b r) = Some q1 \<and> q \<le> q1"
      by (cases "snd r") (auto simp: b lww_accepts_bind_def)
    then show ?thesis
      using fold_register_grows [of bs "register_step (ns, name) b r"] Cons.prems(1) by fastforce
  qed
qed simp

lemma fold_register_source:
  "fold (register_step (ns, name)) bs r = r
   \<or> (\<exists>w wq. fold (register_step (ns, name)) bs r = (Some w, wq) \<and> (ns, name, w, wq) \<in> set bs)"
proof (induction bs arbitrary: r)
  case (Cons b bs)
  obtain bn bm bc bq where b: "b = (bn, bm, bc, bq)" by (cases b)
  have "register_step (ns, name) b r = r \<or> (bn, bm) = (ns, name) \<and> register_step (ns, name) b r = (Some bc, bq)"
    by (auto simp: b)
  with Cons.IH [of "register_step (ns, name) b r"] show ?case by (auto simp: b)
qed simp

text \<open>C21: Object names converge without coordination. Take any storage and a set of asynchronous binds
  (each of a composition that has no name yet, each with its own ingress timestamp). Applying them in any
  order gives every name the same owner and the same stamp. When at least one of them is for a given
  name, the winner carries a stamp at least as high as every bind for that name, and it is one of the
  binds or the owner that was there before.\<close>

theorem name_binds_converge:
  assumes "names_wf s" "distinct (map bind_cid bs)" "list_all (\<lambda>b. unbound (bind_cid b) s) bs"
    and "list_all (\<lambda>b. bind_seq b \<noteq> None) bs" "distinct (map bind_seq bs)" "mset bs' = mset bs"
  shows "name_register (ns, name) (fold batch_name_insert bs' s)
           = name_register (ns, name) (fold batch_name_insert bs s)
    \<and> ((ns, name, c, Some q) \<in> set bs \<longrightarrow>
        (\<exists>w wq. name_register (ns, name) (fold batch_name_insert bs s) = (Some w, Some wq) \<and> q \<le> wq
          \<and> ((ns, name, w, Some wq) \<in> set bs \<or> name_register (ns, name) s = (Some w, Some wq))))"
proof -
  let ?r = "name_register (ns, name) s"
  let ?R = "fold (register_step (ns, name)) bs ?r"
  have set_eq: "set bs' = set bs" using assms(6) by (rule mset_eq_setD)
  have "mset (map bind_cid bs') = mset (map bind_cid bs)" using assms(6) by (simp only: mset_map)
  then have d: "distinct (map bind_cid bs')" using assms(2) mset_eq_imp_distinct_iff by blast
  have u: "list_all (\<lambda>b. unbound (bind_cid b) s) bs'" using assms(3) set_eq by (simp only: list_all_iff)
  have "fold (register_step (ns, name)) bs' = fold (register_step (ns, name)) bs"
  proof (rule fold_multiset_equiv)
    fix a b assume "a \<in> set bs'" "b \<in> set bs'"
    then have ab: "a \<in> set bs" "b \<in> set bs" using set_eq by simp_all
    then have "bind_seq a \<noteq> None" "bind_seq b \<noteq> None" using assms(4) unfolding list_all_iff by blast+
    moreover have "bind_seq a \<noteq> bind_seq b \<or> a = b"
      using assms(5) ab by (metis distinct_map inj_onD)
    ultimately show "register_step (ns, name) a \<circ> register_step (ns, name) b
        = register_step (ns, name) b \<circ> register_step (ns, name) a"
      by (rule register_step_commute)
  qed (rule assms(6))
  then have eq: "name_register (ns, name) (fold batch_name_insert bs' s)
      = name_register (ns, name) (fold batch_name_insert bs s)"
    using fold_register [OF assms(1) d u] fold_register [OF assms(1-3)] by simp
  have R: "name_register (ns, name) (fold batch_name_insert bs s) = ?R" by (rule fold_register [OF assms(1-3)])
  have "\<exists>w wq. ?R = (Some w, Some wq) \<and> q \<le> wq \<and> ((ns, name, w, Some wq) \<in> set bs \<or> ?r = (Some w, Some wq))"
    if b: "(ns, name, c, Some q) \<in> set bs"
  proof -
    obtain wq where wq: "snd ?R = Some wq" "q \<le> wq" using fold_register_max [OF assms(4) b] by blast
    consider "?R = ?r" | w where "?R = (Some w, Some wq)" "(ns, name, w, Some wq) \<in> set bs"
      using fold_register_source [of ns name bs ?r] wq(1) by (metis snd_conv)
    then show ?thesis
    proof cases
      case 1
      then have "name_seq_lookup (ns, name) s = Some wq" using wq(1) by (simp add: name_register_def)
      then obtain w where "?r = (Some w, Some wq)"
        using names_wf_seq [OF assms(1)] unfolding name_register_def name_lookup_def name_seq_lookup_def by blast
      then show ?thesis using 1 wq(2) by simp
    next
      case 2
      then show ?thesis using wq(2) by blast
    qed
  qed
  then show ?thesis using eq R by simp
qed

theorem name_binds_converge_witness:
  "let a = (1, [97], 10, Some (HLC 5 0 1)); b = (1, [97], 11, Some (HLC 7 0 2)) in
   name_register (1, [97]) (fold batch_name_insert [b, a] memory_storage_new)
     = name_register (1, [97]) (fold batch_name_insert [a, b] memory_storage_new)
   \<and> (\<exists>w wq. name_register (1, [97]) (fold batch_name_insert [a, b] memory_storage_new) = (Some w, Some wq)
        \<and> HLC 7 0 2 \<le> wq
        \<and> ((1, [97], w, Some wq) \<in> set [a, b] \<or> name_register (1, [97]) memory_storage_new = (Some w, Some wq)))"
proof -
  let ?a = "(1, [97], 10, Some (HLC 5 0 1)) :: nat \<times> bytes \<times> nat \<times> PerspectiveSeq option"
  let ?b = "(1, [97], 11, Some (HLC 7 0 2)) :: nat \<times> bytes \<times> nat \<times> PerspectiveSeq option"
  have u: "unbound c memory_storage_new" for c
    by (simp add: unbound_def name_for_def memory_storage_new_def)
  have p: "distinct (map bind_cid [?a, ?b])" "list_all (\<lambda>b. unbound (bind_cid b) memory_storage_new) [?a, ?b]"
    "list_all (\<lambda>b. bind_seq b \<noteq> None) [?a, ?b]" "distinct (map bind_seq [?a, ?b])" "mset [?b, ?a] = mset [?a, ?b]"
    by (simp_all add: u)
  have m: "?b \<in> set [?a, ?b]" by simp
  from name_binds_converge [OF names_wf_new p, of 1 "[97]" 11 "HLC 7 0 2"] m
  show ?thesis unfolding Let_def by blast
qed

end
