(* ===== verification/Lru_Cache.thy ===== *)
theory Lru_Cache
  imports Kiseki_Prelude "HOL-Library.AList"
begin

text \<open>
  Bounded least-recently-used caches. The cache package is a record of its operations over a state \<open>'l\<close>; what
  its clients rely on is the hypothesis \<open>lru_laws\<close>: a cache may forget an entry when another one is put, and otherwise
  behaves like a map. \<open>list_lru\<close> is an instance.
\<close>

record ('l, 'v) Lru =
  lru_get :: "nat \<Rightarrow> 'l \<Rightarrow> 'l \<times> 'v option"
  lru_put :: "nat \<Rightarrow> 'v \<Rightarrow> 'l \<Rightarrow> 'l"
  lru_pop :: "nat \<Rightarrow> 'l \<Rightarrow> 'l"
  lru_clear :: "'l \<Rightarrow> 'l"
  lru_keys :: "'l \<Rightarrow> nat list"
  lru_view :: "'l \<Rightarrow> nat \<Rightarrow> 'v option"

definition lru_laws :: "('l, 'v) Lru \<Rightarrow> bool" where
  "lru_laws L \<longleftrightarrow>
     (\<forall>i l. snd (lru_get L i l) = lru_view L l i \<and> lru_view L (fst (lru_get L i l)) = lru_view L l)
     \<and> (\<forall>i c l j. lru_view L (lru_put L i c l) j \<in> {None, if j = i then Some c else lru_view L l j})
     \<and> (\<forall>i l. lru_view L (lru_pop L i l) = (lru_view L l)(i := None))
     \<and> (\<forall>l i. lru_view L (lru_clear L l) i = None)
     \<and> (\<forall>l. set (lru_keys L l) = dom (lru_view L l))"

definition list_lru :: "nat \<Rightarrow> ((nat \<times> 'v) list, 'v) Lru" where
  "list_lru capacity =
     \<lparr>lru_get = (\<lambda>i l. case map_of l i of None \<Rightarrow> (l, None) | Some c \<Rightarrow> ((i, c) # AList.delete i l, Some c)),
      lru_put = (\<lambda>i c l. take capacity ((i, c) # AList.delete i l)),
      lru_pop = AList.delete, lru_clear = (\<lambda>l. []), lru_keys = map fst, lru_view = map_of\<rparr>"

lemma lru_lawsD:
  assumes "lru_laws L"
  shows "snd (lru_get L i l) = lru_view L l i" "lru_view L (fst (lru_get L i l)) = lru_view L l"
    "lru_view L (lru_put L i c l) j = None \<or> lru_view L (lru_put L i c l) j = (if j = i then Some c else lru_view L l j)"
    "lru_view L (lru_pop L i l) = (lru_view L l)(i := None)" "lru_view L (lru_clear L l) i = None"
    "set (lru_keys L l) = dom (lru_view L l)"
  using assms by (auto simp: lru_laws_def split: if_splits)

lemma list_lru_laws: "lru_laws (list_lru n :: ((nat \<times> 'v) list, 'v) Lru)"
proof -
  have t: "map_of (take n xs) j \<in> {None, map_of xs j}" for xs :: "(nat \<times> 'v) list" and j
    by (induction xs arbitrary: n) (auto simp: take_Cons split: nat.split)
  have g: "map_of ((i, c) # AList.delete i l) = map_of l" if "map_of l i = Some c" for i c and l :: "(nat \<times> 'v) list"
    using that by (auto simp: fun_eq_iff delete_conv')
  show ?thesis unfolding lru_laws_def
  proof (intro conjI allI)
    fix i c j and l :: "(nat \<times> 'v) list"
    show "lru_view (list_lru n) (lru_put (list_lru n) i c l) j
        \<in> {None, if j = i then Some c else lru_view (list_lru n) l j}"
      using t [of "(i, c) # AList.delete i l" j] by (auto simp: list_lru_def delete_conv')
  next
    fix i and l :: "(nat \<times> 'v) list"
    show "lru_view (list_lru n) (fst (lru_get (list_lru n) i l)) = lru_view (list_lru n) l"
      using g [of l i] by (auto simp: list_lru_def split: option.split)
  next
    fix l :: "(nat \<times> 'v) list"
    show "set (lru_keys (list_lru n) l) = dom (lru_view (list_lru n) l)"
      by (simp add: list_lru_def dom_map_of_conv_image_fst)
  qed (simp_all add: list_lru_def delete_conv' split: option.split)
qed

lemma fold_pop_view:
  assumes "lru_laws L"
  shows "lru_view L (fold (lru_pop L) ids c) i = (if i \<in> set ids then None else lru_view L c i)"
  by (induction ids arbitrary: c) (simp_all add: lru_lawsD(4) [OF assms])

end
