(* ===== verification/Composition_Store.thy ===== *)
theory Composition_Store
  imports Composition_Storage Lru_Cache
begin

text \<open>
  The composition store of a node (\<^verbatim>\<open>CompositionStore\<close> in
  \<^verbatim>\<open>crates/kiseki-composition/src/composition.rs\<close>, with \<^verbatim>\<open>multipart.rs\<close>, \<^verbatim>\<open>namespace.rs\<close> and
  \<^verbatim>\<open>error.rs\<close>): the namespaces and multipart uploads kept in memory, the storage backend, the read
  cache in front of it and the volatile overlay of rows that are acknowledged but not yet hydrated.

  The store is modelled over the in-memory backend. Its per-name and per-identifier locks serialise the
  operations on one name or row, so an operation is a function of the whole state. Fresh UUIDs
  (composition ids, upload ids) are arguments. The least-recently-used cache is a third-party map: a
  record of its operations with the laws \<open>lru_laws\<close> (what a hit returns, that an insert may evict other
  entries and that a removal removes), instantiated by a bounded list. Strings shown to users are HOL
  strings; the debug assertion of \<^verbatim>\<open>PendingNames::bind\<close> is compiled out in release builds and omitted.
\<close>

section \<open>Errors, uploads\<close>

datatype CompositionError =
    NamespaceNotFound nat
  | CompositionNotFound nat
  | CrossShardRename nat nat
  | ReadOnlyNamespace nat
  | MultipartNotFound string
  | MultipartNotFinalized string
  | VersionNotFound nat nat
  | Storage string
  | PreconditionFailed string
  | InvalidArgument string

datatype MultipartState = InProgress | Finalized | Aborted

record MultipartPart =
  mp_part_number :: nat
  mp_chunk_id :: bytes
  mp_size :: nat
  mp_was_new :: bool

record MultipartUpload =
  mu_upload_id :: string
  mu_state :: MultipartState
  mu_parts :: "MultipartPart list"

definition multipart_new :: "string \<Rightarrow> MultipartUpload" where
  "multipart_new upload_id = \<lparr>mu_upload_id = upload_id, mu_state = InProgress, mu_parts = []\<rparr>"

definition add_part :: "MultipartPart \<Rightarrow> MultipartUpload \<Rightarrow> MultipartUpload \<times> bool" where
  "add_part part u =
     (if mu_state u \<noteq> InProgress then (u, False) else (u\<lparr>mu_parts := mu_parts u @ [part]\<rparr>, True))"

definition multipart_finalize :: "MultipartUpload \<Rightarrow> MultipartUpload \<times> bool" where
  "multipart_finalize u =
     (if mu_state u \<noteq> InProgress then (u, False) else (u\<lparr>mu_state := Finalized\<rparr>, True))"

definition multipart_abort :: "MultipartUpload \<Rightarrow> MultipartUpload \<times> bool" where
  "multipart_abort u =
     (if mu_state u \<noteq> InProgress then (u, False) else (u\<lparr>mu_state := Aborted\<rparr>, True))"

definition multipart_total_size :: "MultipartUpload \<Rightarrow> ('e, nat) res" where
  "multipart_total_size u = sum_u64 (map mp_size (mu_parts u))"

section \<open>The volatile name overlay\<close>

record PendingNames =
  pn_by_name :: "(name_key \<times> (nat \<times> PerspectiveSeq option)) list"
  pn_by_id :: "(nat \<times> name_key) list"

definition pending_names_default :: PendingNames where
  "pending_names_default = \<lparr>pn_by_name = [], pn_by_id = []\<rparr>"

definition pn_owner :: "PendingNames \<Rightarrow> name_key \<Rightarrow> nat option" where
  "pn_owner p key = map_option fst (map_of (pn_by_name p) key)"

definition pn_bind :: "name_key \<Rightarrow> nat \<Rightarrow> PerspectiveSeq option \<Rightarrow> PendingNames \<Rightarrow> PendingNames" where
  "pn_bind key cid seq p =
     (let old = map_of (pn_by_name p) key;
          p = p\<lparr>pn_by_name := AList.update key (cid, seq) (pn_by_name p)\<rparr>;
          p = (case old of
                 Some (old_id, _) \<Rightarrow>
                   if old_id \<noteq> cid then p\<lparr>pn_by_id := AList.delete old_id (pn_by_id p)\<rparr> else p
               | None \<Rightarrow> p);
          prev = map_of (pn_by_id p) cid;
          p = p\<lparr>pn_by_id := AList.update cid key (pn_by_id p)\<rparr>
      in case prev of
           Some prev_key \<Rightarrow>
             if prev_key \<noteq> key \<and> pn_owner p prev_key = Some cid
             then p\<lparr>pn_by_name := AList.delete prev_key (pn_by_name p)\<rparr> else p
         | None \<Rightarrow> p)"

definition pn_remove_by_name :: "name_key \<Rightarrow> PendingNames \<Rightarrow> PendingNames" where
  "pn_remove_by_name key p =
     (case map_of (pn_by_name p) key of
        Some (old_id, _) \<Rightarrow>
          p\<lparr>pn_by_name := AList.delete key (pn_by_name p), pn_by_id := AList.delete old_id (pn_by_id p)\<rparr>
      | None \<Rightarrow> p)"

definition pn_remove_by_id :: "nat \<Rightarrow> PendingNames \<Rightarrow> PendingNames" where
  "pn_remove_by_id cid p =
     (case map_of (pn_by_id p) cid of
        Some key \<Rightarrow>
          (let p = p\<lparr>pn_by_id := AList.delete cid (pn_by_id p)\<rparr> in
           if pn_owner p key = Some cid then p\<lparr>pn_by_name := AList.delete key (pn_by_name p)\<rparr> else p)
      | None \<Rightarrow> p)"

section \<open>The read cache\<close>

text \<open>A bounded cache of rows (theory \<open>Lru_Cache\<close>).\<close>

type_synonym 'l LruCache = "('l, Composition) Lru"

section \<open>The store\<close>

record 'l CompositionStore =
  cs_storage :: MemoryStorage
  cs_namespaces :: "(nat \<times> Namespace) list"
  cs_multiparts :: "(string \<times> (MultipartUpload \<times> nat)) list"
  cs_read_cache :: 'l
  cs_pending :: "(nat \<times> Composition) list"
  cs_pending_names :: PendingNames
  cs_pending_max :: nat
  cs_pending_overflows :: nat

type_synonym ('l, 'a) comp_call = "'l CompositionStore \<times> (CompositionError, 'a) res"

definition DEFAULT_COMPOSITION_PENDING_MAX :: nat where
  "DEFAULT_COMPOSITION_PENDING_MAX = 65536"

definition composition_store_new :: "'l \<Rightarrow> nat \<Rightarrow> 'l CompositionStore" where
  "composition_store_new cache pending_max =
     \<lparr>cs_storage = memory_storage_new, cs_namespaces = [], cs_multiparts = [], cs_read_cache = cache,
      cs_pending = [], cs_pending_names = pending_names_default, cs_pending_max = pending_max,
      cs_pending_overflows = 0\<rparr>"

definition with_pending_max :: "nat \<Rightarrow> 'l CompositionStore \<Rightarrow> 'l CompositionStore" where
  "with_pending_max m s = s\<lparr>cs_pending_max := m\<rparr>"

definition clear_cache :: "'l LruCache \<Rightarrow> 'l CompositionStore \<Rightarrow> 'l CompositionStore" where
  "clear_cache L s = s\<lparr>cs_read_cache := lru_clear L (cs_read_cache s)\<rparr>"

definition invalidate_cache :: "'l LruCache \<Rightarrow> nat \<Rightarrow> 'l CompositionStore \<Rightarrow> 'l CompositionStore" where
  "invalidate_cache L cid s = s\<lparr>cs_read_cache := lru_pop L cid (cs_read_cache s)\<rparr>"

definition add_namespace :: "Namespace \<Rightarrow> 'l CompositionStore \<Rightarrow> 'l CompositionStore" where
  "add_namespace ns s = s\<lparr>cs_namespaces := AList.update (ns_id ns) ns (cs_namespaces s)\<rparr>"

definition remove_namespace :: "nat \<Rightarrow> 'l CompositionStore \<Rightarrow> 'l CompositionStore \<times> Namespace option" where
  "remove_namespace nid s =
     (s\<lparr>cs_namespaces := AList.delete nid (cs_namespaces s)\<rparr>, map_of (cs_namespaces s) nid)"

definition clear_namespaces :: "'l CompositionStore \<Rightarrow> 'l CompositionStore" where
  "clear_namespaces s = s\<lparr>cs_namespaces := []\<rparr>"

definition store_namespace :: "'l CompositionStore \<Rightarrow> nat \<Rightarrow> Namespace option" where
  "store_namespace s nid = map_of (cs_namespaces s) nid"

definition list_namespaces :: "'l CompositionStore \<Rightarrow> Namespace list" where
  "list_namespaces s = map snd (cs_namespaces s)"

definition store_count :: "'l CompositionStore \<Rightarrow> nat" where
  "store_count s = storage_count (cs_storage s)"

definition list_by_namespace :: "nat \<Rightarrow> 'l CompositionStore \<Rightarrow> Composition list" where
  "list_by_namespace nid s =
     (let out = list_in_namespace nid (cs_storage s);
          pend = filter (\<lambda>c. c_namespace_id c = nid) (map snd (cs_pending s))
      in if pend = [] then out
         else filter (\<lambda>c. c_id c \<notin> set (map c_id pend)) out @ pend)"

definition put_row :: "'l LruCache \<Rightarrow> Composition \<Rightarrow> 'l CompositionStore \<Rightarrow> 'l CompositionStore" where
  "put_row L row s =
     s\<lparr>cs_storage := storage_put row (cs_storage s), cs_read_cache := lru_pop L (c_id row) (cs_read_cache s)\<rparr>"

definition set_content_type ::
    "'l LruCache \<Rightarrow> nat \<Rightarrow> bytes option \<Rightarrow> 'l CompositionStore \<Rightarrow> ('l, unit) comp_call" where
  "set_content_type L cid ct s =
     (case map_of (cs_pending s) cid of
        Some row \<Rightarrow> (s\<lparr>cs_pending := AList.update cid (row\<lparr>c_content_type := ct\<rparr>) (cs_pending s)\<rparr>, Ok ())
      | None \<Rightarrow>
          (case storage_get cid (cs_storage s) of
             None \<Rightarrow> (s, Err (CompositionNotFound cid))
           | Some row \<Rightarrow> (put_row L (row\<lparr>c_content_type := ct\<rparr>) s, Ok ())))"

definition writable_namespace :: "nat \<Rightarrow> 'l CompositionStore \<Rightarrow> (CompositionError, nat \<times> nat) res" where
  "writable_namespace nid s =
     (case map_of (cs_namespaces s) nid of
        None \<Rightarrow> Err (NamespaceNotFound nid)
      | Some ns \<Rightarrow>
          if ns_read_only ns then Err (ReadOnlyNamespace nid) else Ok (ns_tenant_id ns, ns_shard_id ns))"

definition new_row ::
    "nat \<Rightarrow> nat \<Rightarrow> nat \<times> nat \<Rightarrow> bytes list \<Rightarrow> nat \<Rightarrow> nat list \<Rightarrow> Composition" where
  "new_row cid nid snap chunks sz lens =
     \<lparr>c_id = cid, c_tenant_id = fst snap, c_namespace_id = nid, c_shard_id = snd snap, c_chunks = chunks,
      c_version = 1, c_size = sz, c_has_inline_data = inline_flag chunks sz, c_content_type = None,
      c_chunk_plaintext_lens = lens, c_chunk_locations = []\<rparr>"

definition create ::
    "nat \<Rightarrow> nat \<Rightarrow> bytes list \<Rightarrow> nat \<Rightarrow> 'l CompositionStore \<Rightarrow> ('l, nat) comp_call" where
  "create fresh nid chunks sz s =
     bind_st (s, writable_namespace nid s) (\<lambda>s snap.
       (s\<lparr>cs_storage := storage_put (new_row fresh nid snap chunks sz []) (cs_storage s)\<rparr>, Ok fresh))"

definition create_with_lens ::
    "nat \<Rightarrow> nat \<Rightarrow> bytes list \<Rightarrow> nat list \<Rightarrow> nat \<Rightarrow> 'l CompositionStore \<Rightarrow> ('l, nat) comp_call" where
  "create_with_lens fresh nid chunks lens sz s =
     (if length lens \<noteq> length chunks
      then (s, Err (InvalidArgument (''chunk_plaintext_lens length '' @ decimal (length lens)
                 @ '' != chunks length '' @ decimal (length chunks))))
      else
        bind_st (s, writable_namespace nid s) (\<lambda>s snap.
          (s\<lparr>cs_storage := storage_put (new_row fresh nid snap chunks sz lens) (cs_storage s)\<rparr>, Ok fresh)))"

definition create_at ::
    "nat \<Rightarrow> nat \<Rightarrow> bytes list \<Rightarrow> nat \<Rightarrow> 'l CompositionStore \<Rightarrow> ('l, unit) comp_call" where
  "create_at cid nid chunks sz s =
     (case map_of (cs_namespaces s) nid of
        None \<Rightarrow> (s, Err (NamespaceNotFound nid))
      | Some ns \<Rightarrow>
          if storage_get cid (cs_storage s) \<noteq> None then (s, Ok ())
          else (s\<lparr>cs_storage := storage_put (new_row cid nid (ns_tenant_id ns, ns_shard_id ns) chunks sz [])
                                  (cs_storage s)\<rparr>, Ok ()))"

definition lookup_by_name :: "name_key \<Rightarrow> 'l CompositionStore \<Rightarrow> nat option" where
  "lookup_by_name key s =
     (case pn_owner (cs_pending_names s) key of
        Some cid \<Rightarrow> Some cid
      | None \<Rightarrow> name_lookup key (cs_storage s))"

definition store_name_for :: "nat \<Rightarrow> 'l CompositionStore \<Rightarrow> name_key option" where
  "store_name_for cid s =
     (case map_of (pn_by_id (cs_pending_names s)) cid of
        Some key \<Rightarrow> Some key
      | None \<Rightarrow> name_for cid (cs_storage s))"

definition bind_name :: "name_key \<Rightarrow> nat \<Rightarrow> 'l CompositionStore \<Rightarrow> 'l CompositionStore" where
  "bind_name key cid s = s\<lparr>cs_storage := name_insert key cid (cs_storage s)\<rparr>"

definition unbind_name :: "name_key \<Rightarrow> 'l CompositionStore \<Rightarrow> 'l CompositionStore \<times> bool" where
  "unbind_name key s =
     (let (st, existed) = name_remove key (cs_storage s) in (s\<lparr>cs_storage := st\<rparr>, existed))"

text \<open>A conditional check, as the gateway passes it: accept or the reason of the rejection, given the
  present owner of the name.\<close>

type_synonym conditional_check = "nat option \<Rightarrow> (string, unit) res"

definition run_check :: "conditional_check option \<Rightarrow> nat option \<Rightarrow> (CompositionError, unit) res" where
  "run_check cond existing =
     (case cond of None \<Rightarrow> Ok () | Some check \<Rightarrow> map_err PreconditionFailed (check existing))"

definition create_with_name ::
    "nat \<Rightarrow> nat \<Rightarrow> bytes \<Rightarrow> conditional_check option \<Rightarrow> bytes list \<Rightarrow> nat \<Rightarrow> 'l CompositionStore \<Rightarrow>
       ('l, nat) comp_call" where
  "create_with_name fresh nid name cond chunks sz s =
     bind_st (s, writable_namespace nid s) (\<lambda>s snap.
       let existing = name_lookup (nid, name) (cs_storage s) in
       bind_st (s, run_check cond existing) (\<lambda>s _.
         (s\<lparr>cs_storage := put_with_name (new_row fresh nid snap chunks sz []) (nid, name) (cs_storage s)\<rparr>,
          Ok fresh)))"

definition list_names :: "nat \<Rightarrow> bytes option \<Rightarrow> 'l CompositionStore \<Rightarrow> (bytes \<times> nat) list" where
  "list_names nid pre s =
     (let out = name_list nid pre (cs_storage s);
          overlay = map (\<lambda>((n, name), (cid, _)). (name, cid))
                      (filter (\<lambda>((n, name), _). n = nid \<and> has_prefix pre name)
                        (pn_by_name (cs_pending_names s)))
      in if overlay = [] then out
         else sort_key fst (filter (\<lambda>(name, _). name \<notin> set (map fst overlay)) out @ overlay))"

definition bump_overflows :: "'l CompositionStore \<Rightarrow> 'l CompositionStore" where
  "bump_overflows s = s\<lparr>cs_pending_overflows := (cs_pending_overflows s + 1) mod 2 ^ 64\<rparr>"

definition create_volatile ::
    "nat \<Rightarrow> nat \<Rightarrow> bytes list \<Rightarrow> nat \<Rightarrow> 'l CompositionStore \<Rightarrow> ('l, nat) comp_call" where
  "create_volatile fresh nid chunks sz s =
     bind_st (s, writable_namespace nid s) (\<lambda>s snap.
       let row = new_row fresh nid snap chunks sz [] in
       if length (cs_pending s) \<ge> cs_pending_max s
       then let s = bump_overflows s in (s\<lparr>cs_storage := storage_put row (cs_storage s)\<rparr>, Ok fresh)
       else (s\<lparr>cs_pending := AList.update fresh row (cs_pending s)\<rparr>, Ok fresh))"

definition publish_volatile ::
    "Composition \<Rightarrow> name_key \<Rightarrow> PerspectiveSeq option \<Rightarrow> 'l CompositionStore \<Rightarrow> 'l CompositionStore" where
  "publish_volatile row key seq s =
     (if length (cs_pending s) \<ge> cs_pending_max s
      then
        let s = bump_overflows s;
            s = s\<lparr>cs_storage := put_with_name row key (cs_storage s)\<rparr>
        in s\<lparr>cs_pending_names := pn_remove_by_name key (cs_pending_names s)\<rparr>
      else
        s\<lparr>cs_pending := AList.update (c_id row) row (cs_pending s),
          cs_pending_names := pn_bind key (c_id row) seq (cs_pending_names s)\<rparr>)"

definition create_with_name_volatile ::
    "nat \<Rightarrow> nat \<Rightarrow> bytes \<Rightarrow> conditional_check option \<Rightarrow> bytes list \<Rightarrow> nat \<Rightarrow> PerspectiveSeq option \<Rightarrow>
       'l CompositionStore \<Rightarrow> ('l, nat) comp_call" where
  "create_with_name_volatile fresh nid name cond chunks sz seq s =
     bind_st (s, writable_namespace nid s) (\<lambda>s snap.
       let row = new_row fresh nid snap chunks sz []; key = (nid, name);
           pending_existing = pn_owner (cs_pending_names s) key;
           storage_existing = (if cond \<noteq> None \<and> pending_existing = None
                               then name_lookup key (cs_storage s) else None);
           existing = (case pending_existing of Some c \<Rightarrow> Some c | None \<Rightarrow> storage_existing) in
       bind_st (s, run_check cond existing) (\<lambda>s _. (publish_volatile row key seq s, Ok fresh)))"

definition discard_volatile :: "nat \<Rightarrow> 'l CompositionStore \<Rightarrow> 'l CompositionStore \<times> bool" where
  "discard_volatile cid s =
     (s\<lparr>cs_pending := AList.delete cid (cs_pending s),
        cs_pending_names := pn_remove_by_id cid (cs_pending_names s)\<rparr>,
      map_of (cs_pending s) cid \<noteq> None)"

definition merge_drained_overlay_metadata ::
    "'l LruCache \<Rightarrow> Composition \<Rightarrow> 'l CompositionStore \<Rightarrow> 'l CompositionStore" where
  "merge_drained_overlay_metadata L overlay s =
     (case c_content_type overlay of
        None \<Rightarrow> s
      | Some ct \<Rightarrow>
          (case storage_get (c_id overlay) (cs_storage s) of
             Some durable \<Rightarrow>
               if c_content_type durable = Some ct then s
               else put_row L (durable\<lparr>c_content_type := Some ct\<rparr>) s
           | None \<Rightarrow> s))"

definition drain_pending :: "'l LruCache \<Rightarrow> nat \<Rightarrow> 'l CompositionStore \<Rightarrow> 'l CompositionStore" where
  "drain_pending L cid s =
     (let overlay = map_of (cs_pending s) cid;
          s = s\<lparr>cs_pending := AList.delete cid (cs_pending s),
                cs_pending_names := pn_remove_by_id cid (cs_pending_names s)\<rparr>
      in case overlay of Some row \<Rightarrow> merge_drained_overlay_metadata L row s | None \<Rightarrow> s)"

definition pending_len :: "'l CompositionStore \<Rightarrow> nat" where
  "pending_len s = length (cs_pending s)"

definition multipart_parts :: "string \<Rightarrow> 'l CompositionStore \<Rightarrow> MultipartPart list" where
  "multipart_parts upload_id s =
     (case map_of (cs_multiparts s) upload_id of Some (u, _) \<Rightarrow> mu_parts u | None \<Rightarrow> [])"

definition update_at ::
    "'l LruCache \<Rightarrow> nat \<Rightarrow> bytes list \<Rightarrow> nat \<Rightarrow> 'l CompositionStore \<Rightarrow> ('l, unit) comp_call" where
  "update_at L cid chunks sz s =
     (case storage_get cid (cs_storage s) of
        None \<Rightarrow> (s, Err (CompositionNotFound cid))
      | Some row \<Rightarrow>
          if c_chunks row = chunks \<and> c_size row = sz then (s, Ok ())
          else
            bind_st (s, add_u64 (c_version row) 1) (\<lambda>s v.
              (put_row L (row\<lparr>c_chunks := chunks, c_size := sz, c_version := v,
                              c_has_inline_data := inline_flag chunks sz\<rparr>) s, Ok ())))"

definition delete_at :: "'l LruCache \<Rightarrow> nat \<Rightarrow> 'l CompositionStore \<Rightarrow> ('l, unit) comp_call" where
  "delete_at L cid s =
     (s\<lparr>cs_storage := fst (storage_remove cid (cs_storage s)),
        cs_read_cache := lru_pop L cid (cs_read_cache s)\<rparr>, Ok ())"

definition cs_get :: "'l LruCache \<Rightarrow> nat \<Rightarrow> 'l CompositionStore \<Rightarrow> ('l, Composition) comp_call" where
  "cs_get L cid s =
     (let (l, hit) = lru_get L cid (cs_read_cache s); s = s\<lparr>cs_read_cache := l\<rparr> in
      case hit of
        Some c \<Rightarrow> (s, Ok c)
      | None \<Rightarrow>
          (case map_of (cs_pending s) cid of
             Some c \<Rightarrow> (s, Ok c)
           | None \<Rightarrow>
               (case storage_get cid (cs_storage s) of
                  Some c \<Rightarrow> (s\<lparr>cs_read_cache := lru_put L cid c (cs_read_cache s)\<rparr>, Ok c)
                | None \<Rightarrow> (s, Err (CompositionNotFound cid)))))"

definition update ::
    "'l LruCache \<Rightarrow> nat \<Rightarrow> bytes list \<Rightarrow> nat \<Rightarrow> 'l CompositionStore \<Rightarrow> ('l, nat) comp_call" where
  "update L cid chunks sz s =
     (case map_of (cs_pending s) cid of
        Some row \<Rightarrow>
          bind_st (s, add_u64 (c_version row) 1) (\<lambda>s v.
            (s\<lparr>cs_pending := AList.update cid (row\<lparr>c_version := v, c_chunks := chunks, c_size := sz\<rparr>)
                               (cs_pending s)\<rparr>, Ok v))
      | None \<Rightarrow>
          (case storage_get cid (cs_storage s) of
             None \<Rightarrow> (s, Err (CompositionNotFound cid))
           | Some row \<Rightarrow>
               bind_st (s, add_u64 (c_version row) 1) (\<lambda>s v.
                 (put_row L (row\<lparr>c_version := v, c_chunks := chunks, c_size := sz\<rparr>) s, Ok v))))"

datatype DeleteResult = Removed "bytes list" | DeleteMarker

definition versioning_enabled_for :: "'l CompositionStore \<Rightarrow> nat \<Rightarrow> bool" where
  "versioning_enabled_for s nid =
     (case map_of (cs_namespaces s) nid of Some ns \<Rightarrow> ns_versioning_enabled ns | None \<Rightarrow> False)"

definition delete :: "'l LruCache \<Rightarrow> nat \<Rightarrow> 'l CompositionStore \<Rightarrow> ('l, DeleteResult) comp_call" where
  "delete L cid s =
     (case map_of (cs_pending s) cid of
        Some row \<Rightarrow>
          if versioning_enabled_for s (c_namespace_id row)
          then
            bind_st (s, add_u64 (c_version row) 1) (\<lambda>s v.
              (s\<lparr>cs_pending := AList.update cid (row\<lparr>c_version := v\<rparr>) (cs_pending s)\<rparr>, Ok DeleteMarker))
          else
            (s\<lparr>cs_pending := AList.delete cid (cs_pending s),
               cs_pending_names := pn_remove_by_id cid (cs_pending_names s)\<rparr>, Ok (Removed (c_chunks row)))
      | None \<Rightarrow>
          (case storage_get cid (cs_storage s) of
             None \<Rightarrow> (s, Err (CompositionNotFound cid))
           | Some row \<Rightarrow>
               if versioning_enabled_for s (c_namespace_id row)
               then
                 bind_st (s, add_u64 (c_version row) 1) (\<lambda>s v.
                   (put_row L (row\<lparr>c_version := v\<rparr>) s, Ok DeleteMarker))
               else
                 (s\<lparr>cs_storage := fst (storage_remove cid (cs_storage s)),
                    cs_read_cache := lru_pop L cid (cs_read_cache s)\<rparr>, Ok (Removed (c_chunks row)))))"

definition rename :: "'l LruCache \<Rightarrow> nat \<Rightarrow> nat \<Rightarrow> 'l CompositionStore \<Rightarrow> ('l, unit) comp_call" where
  "rename L cid target s =
     (case map_of (cs_namespaces s) target of
        None \<Rightarrow> (s, Err (NamespaceNotFound target))
      | Some ns \<Rightarrow>
          (case map_of (cs_pending s) cid of
             Some row \<Rightarrow>
               if c_shard_id row \<noteq> ns_shard_id ns
               then (s, Err (CrossShardRename (c_shard_id row) (ns_shard_id ns)))
               else (s\<lparr>cs_pending := AList.update cid (row\<lparr>c_namespace_id := target\<rparr>) (cs_pending s)\<rparr>, Ok ())
           | None \<Rightarrow>
               (case storage_get cid (cs_storage s) of
                  None \<Rightarrow> (s, Err (CompositionNotFound cid))
                | Some row \<Rightarrow>
                    if c_shard_id row \<noteq> ns_shard_id ns
                    then (s, Err (CrossShardRename (c_shard_id row) (ns_shard_id ns)))
                    else (put_row L (row\<lparr>c_namespace_id := target\<rparr>) s, Ok ()))))"

section \<open>Multipart uploads\<close>

definition start_multipart :: "string \<Rightarrow> nat \<Rightarrow> 'l CompositionStore \<Rightarrow> ('l, string) comp_call" where
  "start_multipart fresh nid s =
     (if map_of (cs_namespaces s) nid = None then (s, Err (NamespaceNotFound nid))
      else (s\<lparr>cs_multiparts := AList.update fresh (multipart_new fresh, nid) (cs_multiparts s)\<rparr>, Ok fresh))"

definition upload_part ::
    "string \<Rightarrow> nat \<Rightarrow> bytes \<Rightarrow> nat \<Rightarrow> bool \<Rightarrow> 'l CompositionStore \<Rightarrow> ('l, unit) comp_call" where
  "upload_part upload_id part_number chunk_id sz was_new s =
     (case map_of (cs_multiparts s) upload_id of
        None \<Rightarrow> (s, Err (MultipartNotFound upload_id))
      | Some (u, nid) \<Rightarrow>
          let (u', added) = add_part \<lparr>mp_part_number = part_number, mp_chunk_id = chunk_id, mp_size = sz,
                                      mp_was_new = was_new\<rparr> u in
          if \<not> added then (s, Err (MultipartNotFinalized upload_id))
          else (s\<lparr>cs_multiparts := AList.update upload_id (u', nid) (cs_multiparts s)\<rparr>, Ok ()))"

definition abort_multipart :: "string \<Rightarrow> 'l CompositionStore \<Rightarrow> ('l, unit) comp_call" where
  "abort_multipart upload_id s =
     (case map_of (cs_multiparts s) upload_id of
        None \<Rightarrow> (s, Err (MultipartNotFound upload_id))
      | Some (u, nid) \<Rightarrow>
          let (u', done') = multipart_abort u in
          if \<not> done' then (s, Err (MultipartNotFinalized upload_id))
          else (s\<lparr>cs_multiparts := AList.update upload_id (u', nid) (cs_multiparts s)\<rparr>, Ok ()))"

definition finalize_multipart :: "nat \<Rightarrow> string \<Rightarrow> 'l CompositionStore \<Rightarrow> ('l, nat) comp_call" where
  "finalize_multipart fresh upload_id s =
     (case map_of (cs_multiparts s) upload_id of
        None \<Rightarrow> (s, Err (MultipartNotFound upload_id))
      | Some (u, nid) \<Rightarrow>
          let (u', done') = multipart_finalize u in
          if \<not> done' then (s, Err (MultipartNotFinalized upload_id))
          else
            let s = s\<lparr>cs_multiparts := AList.update upload_id (u', nid) (cs_multiparts s)\<rparr>;
                chunks = map mp_chunk_id (mu_parts u');
                lens = map (\<lambda>p. u32_saturate (mp_size p)) (mu_parts u') in
            bind_st (s, multipart_total_size u') (\<lambda>s total.
              create_with_lens fresh nid chunks lens total s))"

section \<open>The overlay is a two-way index\<close>

definition pn_wf :: "PendingNames \<Rightarrow> bool" where
  "pn_wf p \<longleftrightarrow> inverse_maps (pn_owner p) (map_of (pn_by_id p))"

lemma pn_wf_iff: "pn_wf p \<Longrightarrow> pn_owner p key = Some cid \<longleftrightarrow> map_of (pn_by_id p) cid = Some key"
  by (simp add: pn_wf_def inverse_maps_iff)

lemma pn_wf_default [simp]: "pn_wf pending_names_default"
  by (simp add: pn_wf_def pending_names_default_def inverse_maps_def pn_owner_def)

lemma pn_owner_update [simp]:
  "pn_owner (p\<lparr>pn_by_name := m\<rparr>) k = map_option fst (map_of m k)"
  "pn_owner (p\<lparr>pn_by_id := n\<rparr>) = pn_owner p"
  by (simp_all add: pn_owner_def fun_eq_iff)

lemma pn_bind_owner:
  assumes "pn_wf p"
  shows "pn_owner (pn_bind key cid seq p) k
    = (if k = key then Some cid else if pn_owner p k = Some cid then None else pn_owner p k)"
proof -
  note i1 = pn_wf_iff [OF assms, of k cid] and i2 = pn_wf_iff [OF assms, of key cid]
  show ?thesis
  proof (cases "map_of (pn_by_id p) cid")
    case None
    then show ?thesis using i1 i2
      by (cases "map_of (pn_by_name p) key") (auto simp: pn_bind_def Let_def pn_owner_def)
  next
    case (Some old)
    then have "pn_owner p old = Some cid" using pn_wf_iff [OF assms] by simp
    then show ?thesis using i1 i2 Some
      by (cases "map_of (pn_by_name p) key") (auto simp: pn_bind_def Let_def pn_owner_def)
  qed
qed

lemma pn_bind_by_id:
  assumes "pn_wf p"
  shows "map_of (pn_by_id (pn_bind key cid seq p)) i
    = (if i = cid then Some key else if map_of (pn_by_id p) i = Some key then None
       else map_of (pn_by_id p) i)"
proof -
  note i1 = pn_wf_iff [OF assms, of key i]
  have b: "map_of (pn_by_id (pn_bind key cid seq p)) = (map_of (pn_by_id
      (case map_of (pn_by_name p) key of
         Some (old_id, _) \<Rightarrow> if old_id \<noteq> cid then p\<lparr>pn_by_id := AList.delete old_id (pn_by_id p)\<rparr> else p
       | None \<Rightarrow> p))) (cid \<mapsto> key)"
    by (cases "map_of (pn_by_name p) key") (simp_all add: pn_bind_def Let_def split: option.split prod.split)
  show ?thesis unfolding b using i1
    by (cases "map_of (pn_by_name p) key") (auto simp: pn_owner_def)
qed

lemma pn_bind_wf: "pn_wf p \<Longrightarrow> pn_wf (pn_bind key cid seq p)"
proof -
  assume w: "pn_wf p"
  have "pn_owner (pn_bind key cid seq p)
      = (\<lambda>k. if k = key then Some cid else if pn_owner p k = Some cid then None else pn_owner p k)"
    by (rule ext) (rule pn_bind_owner [OF w])
  moreover have "map_of (pn_by_id (pn_bind key cid seq p))
      = (\<lambda>i. if i = cid then Some key else if map_of (pn_by_id p) i = Some key then None
             else map_of (pn_by_id p) i)"
    by (rule ext) (rule pn_bind_by_id [OF w])
  ultimately show ?thesis using w inverse_maps_bind [of "pn_owner p" "map_of (pn_by_id p)" key cid]
    by (simp add: pn_wf_def)
qed

lemma pn_remove_by_id_owner:
  assumes "pn_wf p"
  shows "pn_owner (pn_remove_by_id cid p) k = (if pn_owner p k = Some cid then None else pn_owner p k)"
proof (cases "map_of (pn_by_id p) cid")
  case None
  then show ?thesis using pn_wf_iff [OF assms, of k cid] by (simp add: pn_remove_by_id_def)
next
  case (Some key)
  then have "pn_owner p key = Some cid" using pn_wf_iff [OF assms] by simp
  then show ?thesis using Some pn_wf_iff [OF assms, of k cid]
    by (auto simp: pn_remove_by_id_def Let_def pn_owner_def)
qed

lemma pn_remove_by_id_wf: "pn_wf p \<Longrightarrow> pn_wf (pn_remove_by_id cid p)"
proof (cases "map_of (pn_by_id p) cid")
  case (Some key)
  assume w: "pn_wf p"
  have o: "pn_owner p key = Some cid" using pn_wf_iff [OF w] Some by simp
  have "pn_owner (pn_remove_by_id cid p) = (pn_owner p)(key := None)"
    using o Some by (simp add: fun_eq_iff pn_remove_by_id_def Let_def pn_owner_def)
  moreover have "map_of (pn_by_id (pn_remove_by_id cid p)) = (map_of (pn_by_id p))(cid := None)"
    using o Some by (simp add: pn_remove_by_id_def Let_def)
  ultimately show ?thesis using w o inverse_maps_drop [of "pn_owner p" "map_of (pn_by_id p)" key cid]
    by (simp add: pn_wf_def)
qed (simp add: pn_remove_by_id_def)

lemma pn_remove_by_name_id:
  assumes "pn_wf p"
  shows "pn_remove_by_name key p = (case pn_owner p key of Some cid \<Rightarrow> pn_remove_by_id cid p | None \<Rightarrow> p)"
proof (cases "map_of (pn_by_name p) key")
  case None
  then show ?thesis by (simp add: pn_remove_by_name_def pn_owner_def)
next
  case (Some v)
  then have o: "pn_owner p key = Some (fst v)" by (simp add: pn_owner_def)
  then have "map_of (pn_by_id p) (fst v) = Some key" using pn_wf_iff [OF assms] by simp
  then show ?thesis using Some o
    by (cases v) (simp add: pn_remove_by_name_def pn_remove_by_id_def Let_def)
qed

interpretation overlay_names: name_index
  pn_owner "\<lambda>p i. map_of (pn_by_id p) i" "\<lambda>k i. pn_bind k i seq" pn_remove_by_id pn_wf
  for seq
  by unfold_locales (rule pn_wf_iff pn_bind_owner pn_remove_by_id_owner pn_bind_wf pn_remove_by_id_wf; assumption)+

section \<open>The store invariant\<close>

text \<open>What a caller sees: the overlay row if there is one, else the stored row.\<close>

definition visible :: "'l CompositionStore \<Rightarrow> nat \<Rightarrow> Composition option" where
  "visible s cid =
     (case map_of (cs_pending s) cid of Some row \<Rightarrow> Some row | None \<Rightarrow> storage_get cid (cs_storage s))"

definition rows_keyed :: "(nat \<times> Composition) list \<Rightarrow> bool" where
  "rows_keyed m \<longleftrightarrow> (\<forall>cid row. map_of m cid = Some row \<longrightarrow> c_id row = cid)"

definition cache_ok :: "'l LruCache \<Rightarrow> 'l CompositionStore \<Rightarrow> bool" where
  "cache_ok L s \<longleftrightarrow>
     (\<forall>cid row. lru_view L (cs_read_cache s) cid = Some row \<longrightarrow>
        map_of (cs_pending s) cid = None \<and> storage_get cid (cs_storage s) = Some row)"

definition overlay_ok :: "'l CompositionStore \<Rightarrow> bool" where
  "overlay_ok s \<longleftrightarrow>
     (\<forall>key cid. pn_owner (cs_pending_names s) key = Some cid \<longrightarrow> map_of (cs_pending s) cid \<noteq> None)
     \<and> length (cs_pending s) \<le> cs_pending_max s"

definition store_inv :: "'l LruCache \<Rightarrow> 'l CompositionStore \<Rightarrow> bool" where
  "store_inv L s \<longleftrightarrow>
     names_wf (cs_storage s) \<and> pn_wf (cs_pending_names s) \<and> rows_keyed (ms_compositions (cs_storage s))
     \<and> rows_keyed (cs_pending s) \<and> cache_ok L s \<and> overlay_ok s"

lemma rows_keyed_update: "rows_keyed m \<Longrightarrow> c_id row = cid \<Longrightarrow> rows_keyed (AList.update cid row m)"
  by (auto simp: rows_keyed_def)

lemma rows_keyed_delete: "rows_keyed m \<Longrightarrow> rows_keyed (AList.delete cid m)"
  by (auto simp: rows_keyed_def)

lemma rows_keyedD: "rows_keyed m \<Longrightarrow> map_of m cid = Some row \<Longrightarrow> c_id row = cid"
  by (simp add: rows_keyed_def)

lemma store_inv_new:
  assumes "\<And>cid. lru_view L cache cid = None"
  shows "store_inv L (composition_store_new cache m)"
  using assms by (simp add: store_inv_def composition_store_new_def memory_storage_new_def rows_keyed_def
      cache_ok_def overlay_ok_def pn_owner_def pending_names_default_def pn_wf_def inverse_maps_def names_wf_def)

section \<open>Primitive changes of the store\<close>

lemma store_invD:
  assumes "store_inv L s"
  shows "names_wf (cs_storage s)" "pn_wf (cs_pending_names s)" "rows_keyed (ms_compositions (cs_storage s))"
    "rows_keyed (cs_pending s)" "cache_ok L s" "overlay_ok s"
  using assms by (simp_all add: store_inv_def)

lemma storage_get_put [simp]: "storage_get i (storage_put row st) = (if i = c_id row then Some row else storage_get i st)"
  by (simp add: storage_get_def storage_put_def)

lemma storage_put_rows [simp]: "ms_compositions (storage_put row st) = AList.update (c_id row) row (ms_compositions st)"
  by (simp add: storage_put_def)

lemma storage_get_name_insert [simp]: "storage_get i (name_insert key cid st) = storage_get i st"
  by (simp add: storage_get_def name_insert_def Let_def)

lemma name_insert_rows [simp]: "ms_compositions (name_insert key cid st) = ms_compositions st"
  by (simp add: name_insert_def Let_def)

lemma name_remove_rows [simp]: "ms_compositions (fst (name_remove key st)) = ms_compositions st"
  by (simp add: name_remove_def Let_def split: option.split)

lemma batch_row_remove_rows [simp]: "ms_compositions (batch_row_remove cid st) = AList.delete cid (ms_compositions st)"
  by (simp add: batch_row_remove_def Let_def)

lemma storage_get_keyed: "rows_keyed (ms_compositions st) \<Longrightarrow> storage_get cid st = Some row \<Longrightarrow> c_id row = cid"
  by (simp add: storage_get_def rows_keyed_def)

lemma cache_miss:
  assumes "store_inv L s" "map_of (cs_pending s) cid \<noteq> None \<or> storage_get cid (cs_storage s) = None"
  shows "lru_view L (cs_read_cache s) cid = None"
  using assms store_invD(5) [OF assms(1)]
  by (cases "lru_view L (cs_read_cache s) cid") (auto simp: cache_ok_def)

text \<open>A row written to storage, with its cache entry dropped.\<close>

lemma put_row_inv:
  assumes "lru_laws L" "store_inv L s"
  shows "store_inv L (put_row L row s)"
  using store_invD [OF assms(2)] storage_put_wf [of "cs_storage s" row]
  by (auto simp: store_inv_def put_row_def rows_keyed_update cache_ok_def overlay_ok_def lru_lawsD(4) [OF assms(1)])

lemma put_row_visible:
  "map_of (cs_pending s) (c_id row) = None \<Longrightarrow> visible (put_row L row s) = (visible s)(c_id row \<mapsto> row)"
  by (auto simp: visible_def put_row_def fun_eq_iff split: option.split)

text \<open>A new row written to storage; it cannot be in the cache.\<close>

lemma put_fresh_inv:
  assumes "store_inv L s" "storage_get (c_id row) (cs_storage s) = None"
  shows "store_inv L (s\<lparr>cs_storage := storage_put row (cs_storage s)\<rparr>)"
  using store_invD [OF assms(1)] storage_put_wf [of "cs_storage s" row] cache_miss [OF assms(1), of "c_id row"] assms(2)
  by (auto simp: store_inv_def rows_keyed_update cache_ok_def overlay_ok_def)

lemma put_named_inv:
  assumes "store_inv L s" "storage_get (c_id row) (cs_storage s) = None"
  shows "store_inv L (s\<lparr>cs_storage := put_with_name row key (cs_storage s)\<rparr>)"
  using store_invD [OF assms(1)] storage_put_wf [of "cs_storage s" row] cache_miss [OF assms(1), of "c_id row"] assms(2)
    storage_names.wf_bind [of "storage_put row (cs_storage s)" key "c_id row"]
  by (auto simp: store_inv_def put_with_name_def rows_keyed_update cache_ok_def overlay_ok_def)

lemma put_visible:
  "map_of (cs_pending s) (c_id row) = None \<Longrightarrow>
     visible (s\<lparr>cs_storage := storage_put row (cs_storage s)\<rparr>) = (visible s)(c_id row \<mapsto> row)"
  "map_of (cs_pending s) (c_id row) = None \<Longrightarrow>
     visible (s\<lparr>cs_storage := put_with_name row key (cs_storage s)\<rparr>) = (visible s)(c_id row \<mapsto> row)"
  by (auto simp: visible_def put_with_name_def fun_eq_iff split: option.split)

text \<open>A row of the overlay added or replaced.\<close>

lemma length_update: "length (AList.update k v m) = (if map_of m k = None then length m + 1 else length m)"
  by (induction m) auto

lemma length_delete_le: "length (AList.delete k m) \<le> length m"
  by (simp add: AList.delete_eq)

lemma pending_update_inv:
  assumes "store_inv L s" "c_id row = cid"
    and "map_of (cs_pending s) cid \<noteq> None \<or> storage_get cid (cs_storage s) = None \<and> length (cs_pending s) < cs_pending_max s"
  shows "store_inv L (s\<lparr>cs_pending := AList.update cid row (cs_pending s)\<rparr>)"
proof -
  have "lru_view L (cs_read_cache s) cid = None" using assms(3) cache_miss [OF assms(1), of cid] by blast
  moreover have "length (AList.update cid row (cs_pending s)) \<le> cs_pending_max s"
    using assms(3) store_invD(6) [OF assms(1)] by (auto simp: length_update overlay_ok_def)
  ultimately show ?thesis using store_invD [OF assms(1)] assms(2)
    by (auto simp: store_inv_def rows_keyed_update cache_ok_def overlay_ok_def)
qed

lemma pending_update_visible:
  "visible (s\<lparr>cs_pending := AList.update cid row (cs_pending s)\<rparr>) = (visible s)(cid \<mapsto> row)"
  by (auto simp: visible_def fun_eq_iff split: option.split)

lemma pending_bind_inv:
  assumes "store_inv L s" "map_of (cs_pending s) cid \<noteq> None"
  shows "store_inv L (s\<lparr>cs_pending_names := pn_bind key cid seq (cs_pending_names s)\<rparr>)"
  using store_invD [OF assms(1)] assms(2)
  by (auto simp: store_inv_def cache_ok_def overlay_ok_def pn_bind_wf pn_bind_owner split: if_splits)

text \<open>A row of the overlay dropped with its name.\<close>

definition drop_overlay :: "nat \<Rightarrow> 'l CompositionStore \<Rightarrow> 'l CompositionStore" where
  "drop_overlay cid s =
     s\<lparr>cs_pending := AList.delete cid (cs_pending s), cs_pending_names := pn_remove_by_id cid (cs_pending_names s)\<rparr>"

lemma drop_overlay_inv:
  assumes "store_inv L s"
  shows "store_inv L (drop_overlay cid s)"
proof -
  have "length (AList.delete cid (cs_pending s)) \<le> cs_pending_max s"
    using store_invD(6) [OF assms] length_delete_le [of cid "cs_pending s"] by (simp add: overlay_ok_def)
  then show ?thesis using store_invD [OF assms]
    by (auto simp: store_inv_def drop_overlay_def rows_keyed_delete cache_ok_def overlay_ok_def
        pn_remove_by_id_wf pn_remove_by_id_owner split: if_splits)
qed

lemma drop_overlay_visible:
  "visible (drop_overlay cid s) = (visible s)(cid := storage_get cid (cs_storage s))"
  by (auto simp: visible_def drop_overlay_def fun_eq_iff split: option.split)

text \<open>A stored row removed, with its cache entry dropped.\<close>

definition drop_stored :: "'l LruCache \<Rightarrow> nat \<Rightarrow> 'l CompositionStore \<Rightarrow> 'l CompositionStore" where
  "drop_stored L cid s =
     s\<lparr>cs_storage := fst (storage_remove cid (cs_storage s)), cs_read_cache := lru_pop L cid (cs_read_cache s)\<rparr>"

lemma drop_stored_inv:
  assumes "lru_laws L" "store_inv L s"
  shows "store_inv L (drop_stored L cid s)"
  using store_invD [OF assms(2)] batch_row_remove_wf [of "cs_storage s" cid]
  by (auto simp: store_inv_def drop_stored_def storage_remove_fst rows_keyed_delete cache_ok_def
      overlay_ok_def lru_lawsD(4) [OF assms(1)] storage_get_def split: if_splits)

lemma drop_stored_visible:
  "map_of (cs_pending s) cid = None \<Longrightarrow> visible (drop_stored L cid s) = (visible s)(cid := None)"
  by (auto simp: visible_def drop_stored_def fun_eq_iff storage_remove_fst storage_get_def split: option.split)

lemma names_only_inv:
  assumes "store_inv L s" "names_wf st" "ms_compositions st = ms_compositions (cs_storage s)"
  shows "store_inv L (s\<lparr>cs_storage := st\<rparr>)"
  using store_invD [OF assms(1)] assms(2,3)
  by (auto simp: store_inv_def cache_ok_def overlay_ok_def storage_get_def)

lemma names_only_visible:
  "ms_compositions st = ms_compositions (cs_storage s) \<Longrightarrow> visible (s\<lparr>cs_storage := st\<rparr>) = visible s"
  by (auto simp: visible_def storage_get_def fun_eq_iff split: option.split)

lemma other_fields_inv [simp]:
  "store_inv L (s\<lparr>cs_namespaces := x\<rparr>) = store_inv L s"
  "store_inv L (s\<lparr>cs_multiparts := y\<rparr>) = store_inv L s"
  "store_inv L (s\<lparr>cs_pending_overflows := z\<rparr>) = store_inv L s"
  by (simp_all add: store_inv_def cache_ok_def overlay_ok_def)

lemma other_fields_visible [simp]:
  "visible (s\<lparr>cs_namespaces := x\<rparr>) = visible s" "visible (s\<lparr>cs_multiparts := y\<rparr>) = visible s"
  "visible (s\<lparr>cs_pending_overflows := z\<rparr>) = visible s" "visible (s\<lparr>cs_read_cache := l\<rparr>) = visible s"
  "visible (s\<lparr>cs_pending_names := p\<rparr>) = visible s"
  by (simp_all add: visible_def fun_eq_iff split: option.split)

lemma shrink_cache_inv:
  assumes "store_inv L s" "\<And>i c. lru_view L l i = Some c \<Longrightarrow> lru_view L (cs_read_cache s) i = Some c"
  shows "store_inv L (s\<lparr>cs_read_cache := l\<rparr>)"
  using store_invD [OF assms(1)] assms(2) by (auto simp: store_inv_def cache_ok_def overlay_ok_def)

section \<open>Operations as a datatype\<close>

datatype StoreOp =
    OpAddNamespace Namespace
  | OpRemoveNamespace nat
  | OpClearNamespaces
  | OpClearCache
  | OpInvalidateCache nat
  | OpSetContentType nat "bytes option"
  | OpCreate nat nat "bytes list" nat
  | OpCreateWithLens nat nat "bytes list" "nat list" nat
  | OpCreateAt nat nat "bytes list" nat
  | OpBindName name_key nat
  | OpUnbindName name_key
  | OpCreateWithName nat nat bytes "conditional_check option" "bytes list" nat
  | OpCreateVolatile nat nat "bytes list" nat
  | OpCreateWithNameVolatile nat nat bytes "conditional_check option" "bytes list" nat "PerspectiveSeq option"
  | OpDiscardVolatile nat
  | OpDrainPending nat
  | OpUpdateAt nat "bytes list" nat
  | OpDeleteAt nat
  | OpGet nat
  | OpUpdate nat "bytes list" nat
  | OpDelete nat
  | OpRename nat nat
  | OpStartMultipart string nat
  | OpUploadPart string nat bytes nat bool
  | OpAbortMultipart string
  | OpFinalizeMultipart nat string

fun exec_op :: "'l LruCache \<Rightarrow> StoreOp \<Rightarrow> 'l CompositionStore \<Rightarrow> 'l CompositionStore" where
  "exec_op L (OpAddNamespace ns) s = add_namespace ns s"
| "exec_op L (OpRemoveNamespace nid) s = fst (remove_namespace nid s)"
| "exec_op L OpClearNamespaces s = clear_namespaces s"
| "exec_op L OpClearCache s = clear_cache L s"
| "exec_op L (OpInvalidateCache cid) s = invalidate_cache L cid s"
| "exec_op L (OpSetContentType cid ct) s = fst (set_content_type L cid ct s)"
| "exec_op L (OpCreate fresh nid chunks sz) s = fst (create fresh nid chunks sz s)"
| "exec_op L (OpCreateWithLens fresh nid chunks lens sz) s = fst (create_with_lens fresh nid chunks lens sz s)"
| "exec_op L (OpCreateAt cid nid chunks sz) s = fst (create_at cid nid chunks sz s)"
| "exec_op L (OpBindName key cid) s = bind_name key cid s"
| "exec_op L (OpUnbindName key) s = fst (unbind_name key s)"
| "exec_op L (OpCreateWithName fresh nid name cond chunks sz) s =
     fst (create_with_name fresh nid name cond chunks sz s)"
| "exec_op L (OpCreateVolatile fresh nid chunks sz) s = fst (create_volatile fresh nid chunks sz s)"
| "exec_op L (OpCreateWithNameVolatile fresh nid name cond chunks sz seq) s =
     fst (create_with_name_volatile fresh nid name cond chunks sz seq s)"
| "exec_op L (OpDiscardVolatile cid) s = fst (discard_volatile cid s)"
| "exec_op L (OpDrainPending cid) s = drain_pending L cid s"
| "exec_op L (OpUpdateAt cid chunks sz) s = fst (update_at L cid chunks sz s)"
| "exec_op L (OpDeleteAt cid) s = fst (delete_at L cid s)"
| "exec_op L (OpGet cid) s = fst (cs_get L cid s)"
| "exec_op L (OpUpdate cid chunks sz) s = fst (update L cid chunks sz s)"
| "exec_op L (OpDelete cid) s = fst (delete L cid s)"
| "exec_op L (OpRename cid target) s = fst (rename L cid target s)"
| "exec_op L (OpStartMultipart fresh nid) s = fst (start_multipart fresh nid s)"
| "exec_op L (OpUploadPart upload_id n chunk sz was_new) s = fst (upload_part upload_id n chunk sz was_new s)"
| "exec_op L (OpAbortMultipart upload_id) s = fst (abort_multipart upload_id s)"
| "exec_op L (OpFinalizeMultipart fresh upload_id) s = fst (finalize_multipart fresh upload_id s)"

text \<open>A freshly minted identifier is not in use.\<close>

fun op_fresh :: "StoreOp \<Rightarrow> 'l CompositionStore \<Rightarrow> bool" where
  "op_fresh (OpCreate fresh _ _ _) s = (visible s fresh = None)"
| "op_fresh (OpCreateWithLens fresh _ _ _ _) s = (visible s fresh = None)"
| "op_fresh (OpCreateWithName fresh _ _ _ _ _) s = (visible s fresh = None)"
| "op_fresh (OpCreateVolatile fresh _ _ _) s = (visible s fresh = None)"
| "op_fresh (OpCreateWithNameVolatile fresh _ _ _ _ _ _) s = (visible s fresh = None)"
| "op_fresh (OpFinalizeMultipart fresh _) s = (visible s fresh = None)"
| "op_fresh _ s = True"

lemma visible_None: "visible s cid = None \<longleftrightarrow> map_of (cs_pending s) cid = None \<and> storage_get cid (cs_storage s) = None"
  by (simp add: visible_def split: option.split)

lemma new_row_id [simp]: "c_id (new_row cid nid snap chunks sz lens) = cid"
  by (simp add: new_row_def)

lemma fst_bind_st: "fst (bind_st (s, r) f) = (case r of Ok a \<Rightarrow> fst (f s a) | _ \<Rightarrow> s)"
  by (cases r) simp_all

lemma create_inv:
  "store_inv L s \<Longrightarrow> visible s fresh = None \<Longrightarrow> store_inv L (fst (create fresh nid chunks sz s))"
  by (simp add: create_def fst_bind_st visible_None put_fresh_inv split: res.split)

lemma create_with_lens_inv:
  "store_inv L s \<Longrightarrow> visible s fresh = None \<Longrightarrow> store_inv L (fst (create_with_lens fresh nid chunks lens sz s))"
  by (simp add: create_with_lens_def fst_bind_st visible_None put_fresh_inv split: res.split)

lemma create_at_inv: "store_inv L s \<Longrightarrow> store_inv L (fst (create_at cid nid chunks sz s))"
  by (simp add: create_at_def put_fresh_inv split: option.split)

lemma create_with_name_inv:
  "store_inv L s \<Longrightarrow> visible s fresh = None \<Longrightarrow>
     store_inv L (fst (create_with_name fresh nid name cond chunks sz s))"
  by (simp add: create_with_name_def fst_bind_st visible_None put_named_inv Let_def split: res.split)

lemma create_volatile_inv:
  assumes "store_inv L s" "visible s fresh = None"
  shows "store_inv L (fst (create_volatile fresh nid chunks sz s))"
proof (cases "writable_namespace nid s")
  case (Ok snap)
  let ?row = "new_row fresh nid snap chunks sz []"
  have b: "store_inv L (bump_overflows s)" using assms(1) by (simp add: bump_overflows_def)
  show ?thesis
  proof (cases "length (cs_pending s) \<ge> cs_pending_max s")
    case True
    have "storage_get fresh (cs_storage (bump_overflows s)) = None"
      using assms(2) by (simp add: visible_None bump_overflows_def)
    with put_fresh_inv [OF b, of ?row] show ?thesis using True Ok
      by (simp add: create_volatile_def Let_def)
  next
    case False
    with pending_update_inv [OF assms(1), of ?row fresh] assms(2) Ok show ?thesis
      by (simp add: create_volatile_def Let_def visible_None)
  qed
qed (use assms in \<open>simp_all add: create_volatile_def\<close>)

lemma remove_by_name_inv:
  assumes "store_inv L s"
  shows "store_inv L (s\<lparr>cs_pending_names := pn_remove_by_name key (cs_pending_names s)\<rparr>)"
proof -
  note w = store_invD(2) [OF assms]
  have "pn_wf (pn_remove_by_name key (cs_pending_names s))"
    using w by (simp add: pn_remove_by_name_id pn_remove_by_id_wf split: option.split)
  moreover have "pn_owner (pn_remove_by_name key (cs_pending_names s)) k = Some cid \<Longrightarrow>
      pn_owner (cs_pending_names s) k = Some cid" for k cid
    using w by (auto simp: pn_remove_by_name_id pn_remove_by_id_owner split: option.splits if_splits)
  then have "overlay_ok (s\<lparr>cs_pending_names := pn_remove_by_name key (cs_pending_names s)\<rparr>)"
    using store_invD(6) [OF assms] unfolding overlay_ok_def by simp (metis option.distinct(1))
  ultimately show ?thesis using store_invD [OF assms] by (simp add: store_inv_def cache_ok_def)
qed

lemma publish_volatile_inv:
  assumes "store_inv L s" "visible s (c_id row) = None"
  shows "store_inv L (publish_volatile row key seq s)"
proof (cases "length (cs_pending s) \<ge> cs_pending_max s")
  case True
  let ?s = "(bump_overflows s)\<lparr>cs_storage := put_with_name row key (cs_storage (bump_overflows s))\<rparr>"
  have b: "store_inv L (bump_overflows s)" using assms(1) by (simp add: bump_overflows_def)
  have "storage_get (c_id row) (cs_storage (bump_overflows s)) = None"
    using assms(2) by (simp add: visible_None bump_overflows_def)
  then have "store_inv L ?s" by (rule put_named_inv [OF b])
  from remove_by_name_inv [OF this, of key] show ?thesis using True
    by (simp add: publish_volatile_def Let_def)
next
  case False
  let ?s = "s\<lparr>cs_pending := AList.update (c_id row) row (cs_pending s)\<rparr>"
  have "store_inv L ?s"
    using pending_update_inv [OF assms(1) refl] assms(2) False by (simp add: visible_None)
  from pending_bind_inv [OF this, of "c_id row" key seq] show ?thesis using False
    by (simp add: publish_volatile_def)
qed

lemma create_with_name_volatile_inv:
  "store_inv L s \<Longrightarrow> visible s fresh = None \<Longrightarrow>
     store_inv L (fst (create_with_name_volatile fresh nid name cond chunks sz seq s))"
  by (simp add: create_with_name_volatile_def fst_bind_st publish_volatile_inv Let_def split: res.split)

lemma pending_replace_inv:
  "store_inv L s \<Longrightarrow> map_of (cs_pending s) cid = Some row \<Longrightarrow> c_id row' = c_id row \<Longrightarrow>
     store_inv L (s\<lparr>cs_pending := AList.update cid row' (cs_pending s)\<rparr>)"
  by (rule pending_update_inv) (auto dest!: store_invD(4) simp: rows_keyedD)

lemma set_content_type_inv:
  "lru_laws L \<Longrightarrow> store_inv L s \<Longrightarrow> store_inv L (fst (set_content_type L cid ct s))"
  by (simp add: set_content_type_def pending_replace_inv put_row_inv split: option.split)

lemma update_at_inv: "lru_laws L \<Longrightarrow> store_inv L s \<Longrightarrow> store_inv L (fst (update_at L cid chunks sz s))"
  by (simp add: update_at_def fst_bind_st put_row_inv split: option.split res.split)

lemma update_inv: "lru_laws L \<Longrightarrow> store_inv L s \<Longrightarrow> store_inv L (fst (update L cid chunks sz s))"
  by (simp add: update_def fst_bind_st pending_replace_inv put_row_inv split: option.split res.split)

lemma rename_inv: "lru_laws L \<Longrightarrow> store_inv L s \<Longrightarrow> store_inv L (fst (rename L cid target s))"
  by (simp add: rename_def pending_replace_inv put_row_inv split: option.split)

lemma delete_inv: "lru_laws L \<Longrightarrow> store_inv L s \<Longrightarrow> store_inv L (fst (delete L cid s))"
  using drop_overlay_inv [of L s cid] drop_stored_inv [of L s cid]
  by (simp add: delete_def fst_bind_st pending_replace_inv put_row_inv drop_overlay_def drop_stored_def
      split: option.split res.split)

lemma drain_pending_inv:
  assumes "lru_laws L" "store_inv L s"
  shows "store_inv L (drain_pending L cid s)"
  using drop_overlay_inv [OF assms(2), of cid] put_row_inv [OF assms(1)]
  by (simp add: drain_pending_def merge_drained_overlay_metadata_def drop_overlay_def [symmetric] Let_def
      split: option.split)

lemma cs_get_inv:
  assumes "lru_laws L" "store_inv L s"
  shows "store_inv L (fst (cs_get L cid s))"
proof -
  let ?l = "fst (lru_get L cid (cs_read_cache s))"
  have l: "store_inv L (s\<lparr>cs_read_cache := ?l\<rparr>)"
    by (rule shrink_cache_inv [OF assms(2)]) (simp add: lru_lawsD(2) [OF assms(1)])
  have "store_inv L (s\<lparr>cs_read_cache := lru_put L cid row ?l\<rparr>)"
    if "map_of (cs_pending s) cid = None" "storage_get cid (cs_storage s) = Some row" for row
  proof -
    have "lru_view L (lru_put L cid row ?l) i = Some c \<Longrightarrow>
        map_of (cs_pending s) i = None \<and> storage_get i (cs_storage s) = Some c" for i c
    proof (cases "i = cid")
      case False
      assume "lru_view L (lru_put L cid row ?l) i = Some c"
      then have "lru_view L (cs_read_cache s) i = Some c"
        using False lru_lawsD(3) [OF assms(1), of cid row ?l i] by (simp add: lru_lawsD(2) [OF assms(1)])
      then show ?thesis using store_invD(5) [OF assms(2)] by (simp add: cache_ok_def)
    qed (use that lru_lawsD(3) [OF assms(1), of cid row ?l cid] in auto)
    then show ?thesis using store_invD [OF assms(2)]
      by (simp add: store_inv_def cache_ok_def overlay_ok_def)
  qed
  then show ?thesis using l
    by (simp add: cs_get_def case_prod_beta Let_def split: option.split)
qed

lemma multipart_ops_inv:
  "store_inv L s \<Longrightarrow> store_inv L (fst (start_multipart u nid s))"
  "store_inv L s \<Longrightarrow> store_inv L (fst (upload_part u n chunk sz was_new s))"
  "store_inv L s \<Longrightarrow> store_inv L (fst (abort_multipart u s))"
  "store_inv L s \<Longrightarrow> visible s fresh = None \<Longrightarrow> store_inv L (fst (finalize_multipart fresh u s))"
  by (simp_all add: start_multipart_def upload_part_def abort_multipart_def finalize_multipart_def case_prod_beta
      Let_def fst_bind_st create_with_lens_inv split: option.split res.split)

lemma exec_op_inv:
  assumes "lru_laws L" "store_inv L s" "op_fresh op s"
  shows "store_inv L (exec_op L op s)"
proof -
  have nw: "names_wf (cs_storage s)" by (rule store_invD(1) [OF assms(2)])
  have bn: "store_inv L (bind_name key cid s)" for key cid
    using storage_names.wf_bind [OF nw, of key cid] unfolding bind_name_def
    by (intro names_only_inv [OF assms(2)]) simp_all
  have un: "store_inv L (fst (unbind_name key s))" for key
    using name_remove_wf [OF nw, of key] names_only_inv [OF assms(2), of "fst (name_remove key (cs_storage s))"]
    by (simp add: unbind_name_def case_prod_beta)
  have cc: "store_inv L (clear_cache L s)" "store_inv L (invalidate_cache L cid s)" for cid
    using lru_lawsD(4,5) [OF assms(1)] unfolding clear_cache_def invalidate_cache_def
    by (auto intro!: shrink_cache_inv [OF assms(2)] split: if_splits)
  have da: "store_inv L (fst (delete_at L cid s))" "store_inv L (fst (discard_volatile cid s))" for cid
    using drop_stored_inv [OF assms(1,2), of cid] drop_overlay_inv [OF assms(2), of cid]
    by (simp_all add: delete_at_def drop_stored_def discard_volatile_def drop_overlay_def)
  show ?thesis
    using assms by (cases op)
      (simp_all add: add_namespace_def remove_namespace_def clear_namespaces_def cc bn un da
        set_content_type_inv create_inv create_with_lens_inv create_at_inv create_with_name_inv create_volatile_inv
        create_with_name_volatile_inv drain_pending_inv update_at_inv cs_get_inv update_inv delete_inv rename_inv
        multipart_ops_inv)
qed

section \<open>Reads and creates\<close>

lemma cs_get_visible:
  assumes "lru_laws L" "store_inv L s"
  shows "snd (cs_get L cid s)
    = (case visible s cid of Some row \<Rightarrow> Ok row | None \<Rightarrow> Err (CompositionNotFound cid))"
proof (cases "lru_view L (cs_read_cache s) cid")
  case None
  then show ?thesis
    by (simp add: cs_get_def case_prod_beta Let_def lru_lawsD(1) [OF assms(1)] visible_def split: option.split)
next
  case (Some row)
  then have "map_of (cs_pending s) cid = None" "storage_get cid (cs_storage s) = Some row"
    using store_invD(5) [OF assms(2)] by (auto simp: cache_ok_def)
  then show ?thesis using Some
    by (simp add: cs_get_def case_prod_beta Let_def lru_lawsD(1) [OF assms(1)] visible_def)
qed

lemma writable_bump [simp]: "writable_namespace nid (bump_overflows s) = writable_namespace nid s"
  by (simp add: writable_namespace_def bump_overflows_def)

lemma publish_visible:
  assumes "visible s (c_id row) = None"
  shows "visible (publish_volatile row key seq s) = (visible s)(c_id row \<mapsto> row)"
proof (cases "length (cs_pending s) \<ge> cs_pending_max s")
  case True
  have "map_of (cs_pending (bump_overflows s)) (c_id row) = None"
    using assms by (simp add: visible_None bump_overflows_def)
  then have "visible ((bump_overflows s)\<lparr>cs_storage := put_with_name row key (cs_storage (bump_overflows s))\<rparr>)
      = (visible (bump_overflows s))(c_id row \<mapsto> row)" by (rule put_visible(2))
  then show ?thesis using True by (simp add: publish_volatile_def Let_def bump_overflows_def)
next
  case False
  then show ?thesis by (simp add: publish_volatile_def pending_update_visible)
qed

lemma overlay_unbound:
  assumes "store_inv L s" "visible s cid = None"
  shows "pn_owner (cs_pending_names s) k \<noteq> Some cid"
  using assms(2) store_invD(6) [OF assms(1)] unfolding overlay_ok_def visible_None by metis

lemma name_lookup_put [simp]: "name_lookup k (storage_put row st) = name_lookup k st"
  by (simp add: name_lookup_def storage_put_def)

lemma publish_lookup:
  assumes "store_inv L s" "visible s (c_id row) = None" "name_for (c_id row) (cs_storage s) = None"
  shows "lookup_by_name k (publish_volatile row key seq s) = (if k = key then Some (c_id row) else lookup_by_name k s)"
proof -
  note nw = store_invD(1) [OF assms(1)] and pw = store_invD(2) [OF assms(1)]
  have sb: "name_lookup k (cs_storage s) \<noteq> Some (c_id row)"
    using storage_names.inverse [OF nw, of k "c_id row"] assms(3) by simp
  note ob = overlay_unbound [OF assms(1,2), of k]
  show ?thesis
  proof (cases "length (cs_pending s) \<ge> cs_pending_max s")
    case True
    have "pn_owner (pn_remove_by_name key (cs_pending_names s)) k
        = (if k = key then None else pn_owner (cs_pending_names s) k)"
    proof (cases "pn_owner (cs_pending_names s) key")
      case (Some c)
      then have "k \<noteq> key \<Longrightarrow> pn_owner (cs_pending_names s) k \<noteq> Some c"
        using overlay_names.one_name [OF pw] by blast
      then show ?thesis using Some
        by (simp add: pn_remove_by_name_id [OF pw] pn_remove_by_id_owner [OF pw])
    qed (use pw in \<open>simp add: pn_remove_by_name_id\<close>)
    moreover have "name_lookup k (put_with_name row key (cs_storage s))
        = (if k = key then Some (c_id row) else name_lookup k (cs_storage s))"
      using storage_names.fwd_bind [OF storage_put_wf [OF nw, of row], where k = key and i = "c_id row" and k' = k] sb
      by (simp add: put_with_name_def)
    ultimately show ?thesis using True
      by (cases "k = key")
        (simp_all add: lookup_by_name_def publish_volatile_def Let_def bump_overflows_def split: option.split)
  next
    case False
    then show ?thesis using ob
      by (simp add: lookup_by_name_def publish_volatile_def pn_bind_owner [OF pw] split: option.split)
  qed
qed


text \<open>A check that accepts only unused names (\<^verbatim>\<open>If-None-Match: *\<close>).\<close>

definition if_none_match :: conditional_check where
  "if_none_match existing = (case existing of None \<Rightarrow> Ok () | Some _ \<Rightarrow> Err ''exists'')"

definition demo_lru :: "(nat \<times> Composition) list LruCache" where
  "demo_lru = list_lru 4"

definition demo_comps :: "(nat \<times> Composition) list CompositionStore" where
  "demo_comps = add_namespace demo_namespace (composition_store_new [] 2)"

lemma demo_comps_inv: "store_inv demo_lru demo_comps"
proof -
  have "store_inv demo_lru (composition_store_new [] 2)"
    by (rule store_inv_new) (simp add: demo_lru_def list_lru_def)
  then show ?thesis by (simp add: demo_comps_def add_namespace_def)
qed


text \<open>A conditional create never replaces an object a reader can see. When a name already resolves to
  a composition and the check rejects existing owners, a volatile create fails with the check's reason
  and changes nothing. A durable create does the same when the owner is a durable one.\<close>

lemma conditional_create_exclusive:
  assumes "writable_namespace nid s = Ok snap" "lookup_by_name (nid, name) s = Some c" "check (Some c) = Err reason"
  shows "create_with_name_volatile fresh nid name (Some check) chunks sz seq s = (s, Err (PreconditionFailed reason))
    \<and> (pn_owner (cs_pending_names s) (nid, name) = None \<longrightarrow>
         create_with_name fresh nid name (Some check) chunks sz s = (s, Err (PreconditionFailed reason)))"
  using assms
  by (auto simp: create_with_name_volatile_def create_with_name_def lookup_by_name_def run_check_def Let_def
      split: option.splits)

definition demo_named_store :: "(nat \<times> Composition) list CompositionStore" where
  "demo_named_store = fst (create_with_name_volatile 5 7 [97] None [] 10 None demo_comps)"

lemmas demo_comps_simps =
  demo_named_store_def demo_comps_def demo_namespace_def add_namespace_def composition_store_new_def
  memory_storage_new_def pending_names_default_def create_with_name_volatile_def create_with_name_def
  writable_namespace_def publish_volatile_def run_check_def lookup_by_name_def pn_owner_def pn_bind_def
  new_row_def name_lookup_def if_none_match_def Let_def

lemma conditional_create_exclusive_example:
  "lookup_by_name (7, [97]) demo_named_store = Some 5
   \<and> create_with_name_volatile 6 7 [97] (Some if_none_match) [] 10 None demo_named_store
       = (demo_named_store, Err (PreconditionFailed ''exists''))"
proof -
  have "writable_namespace 7 demo_named_store = Ok (9, 3)" by (simp add: demo_comps_simps)
  moreover have l: "lookup_by_name (7, [97]) demo_named_store = Some 5" by (simp add: demo_comps_simps)
  moreover have "if_none_match (Some 5) = Err ''exists''" by (simp add: if_none_match_def)
  ultimately have "create_with_name_volatile 6 7 [97] (Some if_none_match) [] 10 None demo_named_store
      = (demo_named_store, Err (PreconditionFailed ''exists''))"
    using conditional_create_exclusive [of 7 demo_named_store "(9, 3)" "[97]" 5 if_none_match "''exists''" 6 "[]" 10 None]
    by blast
  then show ?thesis using l by blast
qed

text \<open>The durable conditional create does not look at unhydrated writes. On a store where a name is
  held by an acknowledged but not yet hydrated write, a durable create under \<^verbatim>\<open>If-None-Match: *\<close> succeeds,
  and readers of the name keep seeing the earlier composition.\<close>

lemma durable_conditional_bypass:
  "lookup_by_name (7, [97]) demo_named_store = Some 5
   \<and> snd (create_with_name 6 7 [97] (Some if_none_match) [] 10 demo_named_store) = Ok 6
   \<and> lookup_by_name (7, [97]) (fst (create_with_name 6 7 [97] (Some if_none_match) [] 10 demo_named_store)) = Some 5"
  by (simp add: demo_comps_simps)

section \<open>Multipart uploads\<close>

lemma create_with_lens_Ok:
  assumes "create_with_lens fresh nid chunks lens sz s = (s', Ok cid)"
  shows "cid = fresh \<and> cs_multiparts s' = cs_multiparts s
    \<and> (\<exists>snap. writable_namespace nid s = Ok snap
         \<and> s' = s\<lparr>cs_storage := storage_put (new_row fresh nid snap chunks sz lens) (cs_storage s)\<rparr>)"
  using assms by (auto simp: create_with_lens_def split: if_splits)

text \<open>An upload becomes visible exactly once. A successful finalize makes one new composition visible
  that lists the uploaded chunks in the order they arrived, one length per chunk, with the summed size,
  and disturbs no other composition. From then on the upload is closed: a further part, a second
  finalize and an abort all fail and change nothing.\<close>

lemma multipart_once:
  assumes "finalize_multipart fresh u s = (s', Ok cid)" "visible s fresh = None"
  shows "\<exists>up nid. map_of (cs_multiparts s) u = Some (up, nid) \<and> mu_state up = InProgress \<and> cid = fresh
    \<and> (\<exists>row. visible s' = (visible s)(fresh \<mapsto> row) \<and> c_chunks row = map mp_chunk_id (mu_parts up)
         \<and> c_size row = sum_list (map mp_size (mu_parts up)) \<and> c_namespace_id row = nid
         \<and> length (c_chunk_plaintext_lens row) = length (c_chunks row))
    \<and> upload_part u n chunk sz was_new s' = (s', Err (MultipartNotFinalized u))
    \<and> finalize_multipart other u s' = (s', Err (MultipartNotFinalized u))
    \<and> abort_multipart u s' = (s', Err (MultipartNotFinalized u))"
proof -
  obtain up nid where m: "map_of (cs_multiparts s) u = Some (up, nid)"
    using assms(1) by (cases "map_of (cs_multiparts s) u") (auto simp: finalize_multipart_def)
  then have st: "mu_state up = InProgress"
    using assms(1) by (auto simp: finalize_multipart_def multipart_finalize_def split: if_splits)
  let ?up = "up\<lparr>mu_state := Finalized\<rparr>" and ?lens = "map (\<lambda>p. u32_saturate (mp_size p)) (mu_parts up)"
  let ?s = "s\<lparr>cs_multiparts := AList.update u (?up, nid) (cs_multiparts s)\<rparr>"
  have c: "create_with_lens fresh nid (map mp_chunk_id (mu_parts up)) ?lens
      (sum_list (map mp_size (mu_parts up))) ?s = (s', Ok cid)"
    using assms(1) m st
    by (auto simp: finalize_multipart_def multipart_finalize_def multipart_total_size_def Let_def)
  obtain snap where cid: "cid = fresh" and ms: "cs_multiparts s' = cs_multiparts ?s"
    and s': "s' = ?s\<lparr>cs_storage := storage_put (new_row fresh nid snap (map mp_chunk_id (mu_parts up))
      (sum_list (map mp_size (mu_parts up))) ?lens) (cs_storage ?s)\<rparr>"
    using create_with_lens_Ok [OF c] by blast
  let ?row = "new_row fresh nid snap (map mp_chunk_id (mu_parts up)) (sum_list (map mp_size (mu_parts up))) ?lens"
  have "map_of (cs_pending ?s) (c_id ?row) = None" using assms(2) by (simp add: visible_None)
  from put_visible(1) [OF this] have v: "visible s' = (visible s)(fresh \<mapsto> ?row)" by (simp add: s')
  have f: "map_of (cs_multiparts s') u = Some (?up, nid)" by (simp add: ms)
  show ?thesis
  proof (intro exI conjI)
    show "visible s' = (visible s)(fresh \<mapsto> ?row)" by (rule v)
    show "upload_part u n chunk sz was_new s' = (s', Err (MultipartNotFinalized u))"
      by (simp add: upload_part_def f add_part_def)
    show "finalize_multipart other u s' = (s', Err (MultipartNotFinalized u))"
      by (simp add: finalize_multipart_def f multipart_finalize_def)
    show "abort_multipart u s' = (s', Err (MultipartNotFinalized u))"
      by (simp add: abort_multipart_def f multipart_abort_def)
  qed (simp_all add: m st cid new_row_def)
qed

definition demo_upload_store :: "(nat \<times> Composition) list CompositionStore" where
  "demo_upload_store =
     fst (upload_part ''u'' 1 [3] 20 True (fst (upload_part ''u'' 2 [2] 30 False
       (fst (start_multipart ''u'' 7 demo_comps)))))"

lemma multipart_once_example:
  "let (s', r) = finalize_multipart 11 ''u'' demo_upload_store in
     r = Ok 11 \<and> upload_part ''u'' 3 [9] 1 True s' = (s', Err (MultipartNotFinalized ''u''))
     \<and> (\<exists>row. visible s' 11 = Some row \<and> c_chunks row = [[2], [3]])"
proof -
  have m: "cs_multiparts demo_upload_store = [(''u'', (\<lparr>mu_upload_id = ''u'', mu_state = InProgress, mu_parts =
      [\<lparr>mp_part_number = 2, mp_chunk_id = [2], mp_size = 30, mp_was_new = False\<rparr>,
       \<lparr>mp_part_number = 1, mp_chunk_id = [3], mp_size = 20, mp_was_new = True\<rparr>]\<rparr>, 7))]"
    by (simp add: demo_upload_store_def upload_part_def add_part_def start_multipart_def multipart_new_def
        demo_comps_def demo_namespace_def add_namespace_def composition_store_new_def)
  have w: "writable_namespace 7 (demo_upload_store\<lparr>cs_multiparts := x\<rparr>) = Ok (9, 3)" for x
    by (simp add: demo_upload_store_def upload_part_def add_part_def start_multipart_def multipart_new_def
        demo_comps_def demo_namespace_def add_namespace_def composition_store_new_def writable_namespace_def)
  have v: "visible demo_upload_store 11 = None"
    by (simp add: demo_upload_store_def upload_part_def add_part_def start_multipart_def multipart_new_def
        demo_comps_def demo_namespace_def add_namespace_def composition_store_new_def visible_def storage_get_def
        memory_storage_new_def)
  obtain s' where f: "finalize_multipart 11 ''u'' demo_upload_store = (s', Ok 11)"
    by (simp add: finalize_multipart_def m multipart_finalize_def multipart_total_size_def sum_u64_def u64_max_val
        create_with_lens_def w)
  from multipart_once [OF f v, of 3 "[9]" 1 True 0] show ?thesis by (auto simp: f m)
qed

end
