(* ===== verification/Small_Objects.thy ===== *)
theory Small_Objects
  imports Log_Types
begin

text \<open>
  The small-object store that keeps inline payloads
  (\<^verbatim>\<open>crates/kiseki-chunk/src/small_object_store.rs\<close>). The embedded key-value engine (fjall) is a
  parameter: a record of its operations over a state \<open>'k\<close>, whose documented behaviour (an atomic
  batch applied in order, reads that see committed batches) is the hypothesis \<open>kv_laws\<close>.
\<close>

section \<open>The key-value engine\<close>

datatype PersistMode = Buffer | SyncAll

datatype BatchItem = BInsert bytes bytes | BRemove bytes

record 'k Keyspace =
  kv_get :: "'k \<Rightarrow> bytes \<Rightarrow> (unit, bytes option) res"
  kv_commit :: "'k \<Rightarrow> PersistMode \<Rightarrow> BatchItem list \<Rightarrow> 'k \<times> (unit, unit) res"
  kv_persist :: "'k \<Rightarrow> PersistMode \<Rightarrow> 'k \<times> (unit, unit) res"
  kv_iter :: "'k \<Rightarrow> (unit, bytes \<times> bytes) res list"

fun batch_apply :: "BatchItem list \<Rightarrow> (bytes \<Rightarrow> bytes option) \<Rightarrow> bytes \<Rightarrow> bytes option" where
  "batch_apply [] m = m"
| "batch_apply (BInsert k d # b) m = batch_apply b (m(k \<mapsto> d))"
| "batch_apply (BRemove k # b) m = batch_apply b (m(k := None))"

text \<open>Documented behaviour of the engine: no call panics, a successful read returns the stored value,
  a committed batch is applied as a whole, a failed one and a persist call change no stored value.\<close>

definition kv_laws :: "'k Keyspace \<Rightarrow> ('k \<Rightarrow> bytes \<Rightarrow> bytes option) \<Rightarrow> bool" where
  "kv_laws kv view \<longleftrightarrow>
     (\<forall>k x. kv_get kv k x \<noteq> Panic \<and> (\<forall>v. kv_get kv k x = Ok v \<longrightarrow> v = view k x)) \<and>
     (\<forall>k p b k' r. kv_commit kv k p b = (k', r) \<longrightarrow> r \<noteq> Panic \<and>
        view k' = (if r = Ok () then batch_apply b (view k) else view k)) \<and>
     (\<forall>k p k' r. kv_persist kv k p = (k', r) \<longrightarrow> r \<noteq> Panic \<and> view k' = view k)"

section \<open>The store\<close>

record 'k SmallObjectStore =
  so_objects :: 'k
  so_sync_per_write :: bool
  so_approx_len :: "64 word"

text \<open>\<open>opened\<close> is the outcome of opening the database and its keyspace.\<close>

definition so_open :: "'k Keyspace \<Rightarrow> (unit, 'k) res \<Rightarrow> (unit, 'k SmallObjectStore) res" where
  "so_open kv opened =
     (case opened of
        Panic \<Rightarrow> Panic
      | Err e \<Rightarrow> Err e
      | Ok objects \<Rightarrow>
          (let initial_len = of_nat (length (filter (\<lambda>e. case e of Ok _ \<Rightarrow> True | _ \<Rightarrow> False) (kv_iter kv objects)))
           in Ok \<lparr>so_objects = objects, so_sync_per_write = True, so_approx_len = initial_len\<rparr>))"

definition so_set_sync_per_write :: "bool \<Rightarrow> 'k SmallObjectStore \<Rightarrow> 'k SmallObjectStore" where
  "so_set_sync_per_write enabled s = s\<lparr>so_sync_per_write := enabled\<rparr>"

definition so_flush :: "'k Keyspace \<Rightarrow> 'k SmallObjectStore \<Rightarrow> 'k SmallObjectStore \<times> (unit, unit) res" where
  "so_flush kv s =
     (let (objects, r) = kv_persist kv (so_objects s) SyncAll in (s\<lparr>so_objects := objects\<rparr>, r))"

definition so_batch_durability :: "'k SmallObjectStore \<Rightarrow> PersistMode" where
  "so_batch_durability s = (if so_sync_per_write s then SyncAll else Buffer)"

definition so_commit :: "'k Keyspace \<Rightarrow> 'k SmallObjectStore \<Rightarrow> BatchItem list \<Rightarrow> 'k SmallObjectStore \<times> (unit, unit) res" where
  "so_commit kv s batch =
     (let (objects, r) = kv_commit kv (so_objects s) (so_batch_durability s) batch
      in (s\<lparr>so_objects := objects\<rparr>, r))"

definition so_put :: "'k Keyspace \<Rightarrow> 'k SmallObjectStore \<Rightarrow> bytes \<Rightarrow> bytes \<Rightarrow> 'k SmallObjectStore \<times> (unit, bool) res" where
  "so_put kv s chunk_id data =
     bind_st (so_commit kv s [BInsert chunk_id data]) (\<lambda>s _.
       (s\<lparr>so_approx_len := so_approx_len s + 1\<rparr>, Ok True))"

definition so_put_many :: "'k Keyspace \<Rightarrow> 'k SmallObjectStore \<Rightarrow> (bytes \<times> bytes) list \<Rightarrow> 'k SmallObjectStore \<times> (unit, nat) res" where
  "so_put_many kv s items =
     (if items = [] then (s, Ok 0)
      else
        let n = length items in
        bind_st (so_commit kv s (map (\<lambda>(key, data). BInsert key data) items)) (\<lambda>s _.
          (s\<lparr>so_approx_len := so_approx_len s + of_nat n\<rparr>, Ok n)))"

definition so_get :: "'k Keyspace \<Rightarrow> 'k SmallObjectStore \<Rightarrow> bytes \<Rightarrow> (unit, bytes option) res" where
  "so_get kv s chunk_id = kv_get kv (so_objects s) chunk_id"

definition so_delete :: "'k Keyspace \<Rightarrow> 'k SmallObjectStore \<Rightarrow> bytes \<Rightarrow> 'k SmallObjectStore \<times> (unit, bool) res" where
  "so_delete kv s chunk_id =
     (case kv_get kv (so_objects s) chunk_id of
        Panic \<Rightarrow> (s, Panic)
      | Err e \<Rightarrow> (s, Err e)
      | Ok None \<Rightarrow> (s, Ok False)
      | Ok (Some _) \<Rightarrow>
          bind_st (so_commit kv s [BRemove chunk_id]) (\<lambda>s _.
            (s\<lparr>so_approx_len := so_approx_len s - 1\<rparr>, Ok True)))"

definition so_delete_many :: "'k Keyspace \<Rightarrow> 'k SmallObjectStore \<Rightarrow> bytes list \<Rightarrow> 'k SmallObjectStore \<times> (unit, nat) res" where
  "so_delete_many kv s keys =
     (if keys = [] then (s, Ok 0)
      else
        let n = length keys in
        bind_st (so_commit kv s (map BRemove keys)) (\<lambda>s _.
          (s\<lparr>so_approx_len := (if of_nat n \<le> so_approx_len s then so_approx_len s - of_nat n else 0)\<rparr>,
           Ok n)))"

definition so_contains :: "'k Keyspace \<Rightarrow> 'k SmallObjectStore \<Rightarrow> bytes \<Rightarrow> (unit, bool) res" where
  "so_contains kv s chunk_id =
     (case kv_get kv (so_objects s) chunk_id of
        Panic \<Rightarrow> Panic | Err e \<Rightarrow> Err e | Ok v \<Rightarrow> Ok (v \<noteq> None))"

definition so_len :: "'k SmallObjectStore \<Rightarrow> 64 word" where
  "so_len s = so_approx_len s"

definition so_is_empty :: "'k SmallObjectStore \<Rightarrow> bool" where
  "so_is_empty s \<longleftrightarrow> so_approx_len s = 0"

definition so_ops :: "'k Keyspace \<Rightarrow> 'k SmallObjectStore InlineStore" where
  "so_ops kv = \<lparr>is_put = so_put kv, is_get = so_get kv, is_delete = so_delete kv\<rparr>"

section \<open>Contents\<close>

lemma so_commit_contents:
  assumes "kv_laws kv view" "so_commit kv s b = (s', r)"
  shows "r \<noteq> Panic \<and> view (so_objects s') = (if r = Ok () then batch_apply b (view (so_objects s)) else view (so_objects s))"
  using assms unfolding kv_laws_def so_commit_def by (auto split: prod.splits)

lemma batch_insert: "batch_apply (map (\<lambda>(k, d). BInsert k d) items) m = m ++ map_of (rev items)"
  by (induction items arbitrary: m) (auto simp: map_add_def fun_eq_iff split: option.splits)

lemma batch_remove: "batch_apply (map BRemove keys) m = (\<lambda>k. if k \<in> set keys then None else m k)"
  by (induction keys arbitrary: m) (auto simp: fun_eq_iff)

lemma so_put_contents:
  assumes "kv_laws kv view" "so_put kv s k d = (s', r)"
  shows "r \<noteq> Panic \<and> view (so_objects s') = (case r of Ok _ \<Rightarrow> (view (so_objects s))(k \<mapsto> d) | _ \<Rightarrow> view (so_objects s))"
proof -
  obtain s1 r1 where c: "so_commit kv s [BInsert k d] = (s1, r1)" by fastforce
  from so_commit_contents [OF assms(1) c] assms(2) c show ?thesis
    unfolding so_put_def by (cases r1) auto
qed

lemma so_put_many_contents:
  assumes "kv_laws kv view" "so_put_many kv s items = (s', r)"
  shows "r \<noteq> Panic \<and> view (so_objects s') =
           (case r of Ok _ \<Rightarrow> view (so_objects s) ++ map_of (rev items) | _ \<Rightarrow> view (so_objects s))"
proof (cases "items = []")
  case False
  obtain s1 r1 where c: "so_commit kv s (map (\<lambda>(k, d). BInsert k d) items) = (s1, r1)" by fastforce
  from so_commit_contents [OF assms(1) c] assms(2) c False show ?thesis
    unfolding so_put_many_def by (cases r1) (auto simp: batch_insert Let_def)
qed (use assms(2) in \<open>auto simp: so_put_many_def\<close>)

lemma so_delete_contents:
  assumes "kv_laws kv view" "so_delete kv s k = (s', r)"
  shows "r \<noteq> Panic \<and> view (so_objects s') = (case r of Ok _ \<Rightarrow> (view (so_objects s))(k := None) | _ \<Rightarrow> view (so_objects s))
         \<and> (r = Ok b \<longrightarrow> b = (view (so_objects s) k \<noteq> None))"
proof -
  obtain s1 r1 where c: "so_commit kv s [BRemove k] = (s1, r1)" by fastforce
  have g: "kv_get kv (so_objects s) k \<noteq> Panic"
    "\<And>v. kv_get kv (so_objects s) k = Ok v \<Longrightarrow> v = view (so_objects s) k"
    using assms(1) unfolding kv_laws_def by auto
  from so_commit_contents [OF assms(1) c] assms(2) c g show ?thesis
    unfolding so_delete_def
    by (cases "kv_get kv (so_objects s) k"; cases r1) (auto simp: fun_eq_iff split: option.splits)
qed

lemma so_delete_many_contents:
  assumes "kv_laws kv view" "so_delete_many kv s keys = (s', r)"
  shows "r \<noteq> Panic \<and> view (so_objects s') =
           (case r of Ok _ \<Rightarrow> (\<lambda>k. if k \<in> set keys then None else view (so_objects s) k) | _ \<Rightarrow> view (so_objects s))"
proof (cases "keys = []")
  case False
  obtain s1 r1 where c: "so_commit kv s (map BRemove keys) = (s1, r1)" by fastforce
  from so_commit_contents [OF assms(1) c] assms(2) c False show ?thesis
    unfolding so_delete_many_def by (cases r1) (auto simp: batch_remove Let_def)
qed (use assms(2) in \<open>auto simp: so_delete_many_def\<close>)

lemma so_inline_store:
  assumes "kv_laws kv view"
  shows "inline_store (so_ops kv) (\<lambda>s. view (so_objects s)) (\<lambda>_. True)"
proof
  fix s k d s' b e
  show "is_put (so_ops kv) s k d = (s', Ok b) \<Longrightarrow> True \<and> view (so_objects s') = (view (so_objects s))(k \<mapsto> d)"
    using so_put_contents [OF assms, of s k d s' "Ok b"] by (simp add: so_ops_def)
  show "is_put (so_ops kv) s k d = (s', Err e) \<Longrightarrow> True \<and> view (so_objects s') = view (so_objects s)"
    using so_put_contents [OF assms, of s k d s' "Err e"] by (simp add: so_ops_def)
  show "snd (is_put (so_ops kv) s k d) \<noteq> Panic"
    using so_put_contents [OF assms, of s k d] by (cases "so_put kv s k d") (auto simp: so_ops_def)
  show "is_delete (so_ops kv) s k = (s', Ok b) \<Longrightarrow> True \<and> view (so_objects s') = (view (so_objects s))(k := None)"
    using so_delete_contents [OF assms, of s k s' "Ok b"] by (simp add: so_ops_def)
  show "is_delete (so_ops kv) s k = (s', Err e) \<Longrightarrow> True \<and> view (so_objects s') = view (so_objects s)"
    using so_delete_contents [OF assms, of s k s' "Err e"] by (simp add: so_ops_def)
  show "snd (is_delete (so_ops kv) s k) \<noteq> Panic"
    using so_delete_contents [OF assms, of s k] by (cases "so_delete kv s k") (auto simp: so_ops_def)
  show "is_get (so_ops kv) s k = Ok v \<Longrightarrow> v = view (so_objects s) k" for v
    using assms by (auto simp: so_ops_def so_get_def kv_laws_def)
qed

section \<open>Runs of the store\<close>

datatype SoOp = SoPut bytes bytes | SoPutMany "(bytes \<times> bytes) list" | SoDelete bytes
  | SoDeleteMany "bytes list" | SoSetSync bool | SoFlush

fun so_step :: "'k Keyspace \<Rightarrow> 'k SmallObjectStore \<Rightarrow> SoOp \<Rightarrow> 'k SmallObjectStore \<times> bool" where
  "so_step kv s (SoPut k d) = (case so_put kv s k d of (s', r) \<Rightarrow> (s', is_ok r))"
| "so_step kv s (SoPutMany xs) = (case so_put_many kv s xs of (s', r) \<Rightarrow> (s', is_ok r))"
| "so_step kv s (SoDelete k) = (case so_delete kv s k of (s', r) \<Rightarrow> (s', is_ok r))"
| "so_step kv s (SoDeleteMany ks) = (case so_delete_many kv s ks of (s', r) \<Rightarrow> (s', is_ok r))"
| "so_step kv s (SoSetSync b) = (so_set_sync_per_write b s, True)"
| "so_step kv s SoFlush = (case so_flush kv s of (s', r) \<Rightarrow> (s', is_ok r))"

fun so_run :: "'k Keyspace \<Rightarrow> 'k SmallObjectStore \<Rightarrow> SoOp list \<Rightarrow> 'k SmallObjectStore \<times> bool list" where
  "so_run kv s [] = (s, [])"
| "so_run kv s (x # xs) =
     (case so_step kv s x of (s1, b) \<Rightarrow> (case so_run kv s1 xs of (s2, bs) \<Rightarrow> (s2, b # bs)))"

text \<open>The specification: a finite map on which the successful calls act.\<close>

fun so_spec :: "SoOp \<Rightarrow> (bytes \<Rightarrow> bytes option) \<Rightarrow> bytes \<Rightarrow> bytes option" where
  "so_spec (SoPut k d) m = m(k \<mapsto> d)"
| "so_spec (SoPutMany xs) m = m ++ map_of (rev xs)"
| "so_spec (SoDelete k) m = m(k := None)"
| "so_spec (SoDeleteMany ks) m = (\<lambda>k. if k \<in> set ks then None else m k)"
| "so_spec (SoSetSync b) m = m"
| "so_spec SoFlush m = m"

fun so_spec_run :: "(SoOp \<times> bool) list \<Rightarrow> (bytes \<Rightarrow> bytes option) \<Rightarrow> bytes \<Rightarrow> bytes option" where
  "so_spec_run [] m = m"
| "so_spec_run ((x, b) # xs) m = so_spec_run xs (if b then so_spec x m else m)"

lemma so_step_refines:
  assumes "kv_laws kv view" "so_step kv s x = (s', b)"
  shows "view (so_objects s') = (if b then so_spec x (view (so_objects s)) else view (so_objects s))"
proof (cases x)
  case (SoPut k d)
  obtain r where p: "so_put kv s k d = (s', r)" "b = is_ok r" using SoPut assms(2) by (auto split: prod.splits)
  from so_put_contents [OF assms(1) p(1)] p(2) SoPut show ?thesis by (cases r) auto
next
  case (SoPutMany xs)
  obtain r where p: "so_put_many kv s xs = (s', r)" "b = is_ok r" using SoPutMany assms(2) by (auto split: prod.splits)
  from so_put_many_contents [OF assms(1) p(1)] p(2) SoPutMany show ?thesis by (cases r) auto
next
  case (SoDelete k)
  obtain r where p: "so_delete kv s k = (s', r)" "b = is_ok r" using SoDelete assms(2) by (auto split: prod.splits)
  from so_delete_contents [OF assms(1) p(1)] p(2) SoDelete show ?thesis by (cases r) auto
next
  case (SoDeleteMany ks)
  obtain r where p: "so_delete_many kv s ks = (s', r)" "b = is_ok r" using SoDeleteMany assms(2) by (auto split: prod.splits)
  from so_delete_many_contents [OF assms(1) p(1)] p(2) SoDeleteMany show ?thesis by (cases r) auto
next
  case (SoSetSync c)
  then show ?thesis using assms(2) by (auto simp: so_set_sync_per_write_def)
next
  case SoFlush
  then show ?thesis using assms unfolding kv_laws_def by (auto simp: so_flush_def split: prod.splits)
qed

lemma so_run_refines:
  assumes "kv_laws kv view"
  shows "so_run kv s xs = (s', oks) \<Longrightarrow>
           length oks = length xs \<and> view (so_objects s') = so_spec_run (zip xs oks) (view (so_objects s))"
proof (induction xs arbitrary: s oks)
  case (Cons x xs)
  from Cons.prems obtain s1 b bs where st: "so_step kv s x = (s1, b)" "so_run kv s1 xs = (s', bs)" "oks = b # bs"
    by (auto split: prod.splits)
  from Cons.IH [OF st(2)] so_step_refines [OF assms st(1)] st(3) show ?case by simp
qed simp

text \<open>An engine that keeps its keys in memory and, from the n-th commit on, fails.\<close>

definition map_kv :: "((bytes \<Rightarrow> bytes option) \<times> nat option) Keyspace" where
  "map_kv =
     \<lparr>kv_get = (\<lambda>(m, f) k. Ok (m k)),
      kv_commit = (\<lambda>(m, f) p b. case f of
          None \<Rightarrow> ((batch_apply b m, None), Ok ())
        | Some 0 \<Rightarrow> ((m, Some 0), Err ())
        | Some (Suc n) \<Rightarrow> ((batch_apply b m, Some n), Ok ())),
      kv_persist = (\<lambda>(m, f) p. ((m, f), Ok ())),
      kv_iter = (\<lambda>(m, f). [])\<rparr>"

lemma map_kv_laws: "kv_laws map_kv fst"
  unfolding kv_laws_def map_kv_def by (auto split: prod.splits option.splits nat.splits)

interpretation objects: inline_store "so_ops map_kv" "\<lambda>s. fst (so_objects s)" "\<lambda>_. True"
  by (rule so_inline_store [OF map_kv_laws])

text \<open>The small-object store is a refinement of a finite map. Over any key-value engine with the
  documented batch behaviour, after any sequence of puts, batched puts, deletes, batched deletes,
  flushes and durability switches, some of which fail, the stored contents are those of a map on
  which exactly the successful calls have acted, one after the other; a get that succeeds returns
  that map's entry. In particular a batched put has the effect of putting its items one by one, and
  a failed call changes nothing.\<close>

lemma small_objects_refine_map:
  assumes "kv_laws kv view" "so_run kv s xs = (s', oks)"
  shows "length oks = length xs \<and>
         view (so_objects s') = so_spec_run (zip xs oks) (view (so_objects s)) \<and>
         (\<forall>k v. so_get kv s' k = Ok v \<longrightarrow> v = so_spec_run (zip xs oks) (view (so_objects s)) k)"
proof -
  have r: "length oks = length xs \<and> view (so_objects s') = so_spec_run (zip xs oks) (view (so_objects s))"
    by (rule so_run_refines [OF assms])
  moreover have "v = view (so_objects s') k" if "so_get kv s' k = Ok v" for k v
    using that assms(1) unfolding kv_laws_def so_get_def by auto
  ultimately show ?thesis by simp
qed

text \<open>Two puts and a batch succeed, the third commit fails: the delete leaves the entry in place.\<close>

definition demo_so :: "((bytes \<Rightarrow> bytes option) \<times> nat option) SmallObjectStore" where
  "demo_so = \<lparr>so_objects = (\<lambda>_. None, Some 2), so_sync_per_write = True, so_approx_len = 0\<rparr>"

definition demo_so_ops :: "SoOp list" where
  "demo_so_ops = [SoPut [1] [10], SoPutMany [([2], [20]), ([1], [11])], SoDelete [1], SoDelete [3]]"

lemma demo_so_run:
  "snd (so_run map_kv demo_so demo_so_ops) = [True, True, False, True]"
  "so_get map_kv (fst (so_run map_kv demo_so demo_so_ops)) [1] = Ok (Some [11])"
  by (simp_all add: demo_so_def demo_so_ops_def map_kv_def so_put_def so_put_many_def so_delete_def
      so_commit_def so_get_def numeral_2_eq_2)

lemma small_objects_refine_map_example:
  "so_spec_run (zip demo_so_ops [True, True, False, True]) (\<lambda>_. None) [1] = Some [11]"
  using small_objects_refine_map [OF map_kv_laws, of demo_so demo_so_ops
      "fst (so_run map_kv demo_so demo_so_ops)" "snd (so_run map_kv demo_so demo_so_ops)"] demo_so_run
  by (simp add: demo_so_def)

end
