(* ===== verification/Log_Store.thy ===== *)
theory Log_Store
  imports Small_Objects
begin

text \<open>
  The in-memory shard store, reference implementation of the log operations
  (\<^verbatim>\<open>crates/kiseki-log/src/store.rs\<close>). The mutex-guarded maps are fields of one record and each
  method, which holds the shard lock throughout, is one function on it; the attached inline store is
  given by its operations record, and its state is a field.
\<close>

section \<open>State\<close>

record MemShard =
  sh_info :: ShardInfo
  sh_deltas :: "Delta list"
  sh_watermarks :: ConsumerWatermarks
  sh_gc_floor :: nat

record 'i MemShardStore =
  ms_shards :: "nat \<Rightarrow> MemShard option"
  ms_inline_store :: "'i option"
  ms_split_targets :: "nat \<Rightarrow> nat option"
  ms_split_buffer :: "nat \<Rightarrow> AppendDeltaRequest list option"

type_synonym ('i, 'a) log_call = "'i MemShardStore \<times> (LogError, 'a) res"

definition ms_new :: "'i MemShardStore" where
  "ms_new = \<lparr>ms_shards = (\<lambda>_. None), ms_inline_store = None, ms_split_targets = (\<lambda>_. None),
     ms_split_buffer = (\<lambda>_. None)\<rparr>"

definition set_inline_store :: "'i \<Rightarrow> 'i MemShardStore \<Rightarrow> 'i MemShardStore \<times> ('i, unit) res" where
  "set_inline_store store s =
     (case ms_inline_store s of
        None \<Rightarrow> (s\<lparr>ms_inline_store := Some store\<rparr>, Ok ())
      | Some _ \<Rightarrow> (s, Err store))"

definition set_split_target :: "nat \<Rightarrow> nat \<Rightarrow> 'i MemShardStore \<Rightarrow> 'i MemShardStore" where
  "set_split_target source target s =
     s\<lparr>ms_split_targets := (ms_split_targets s)(source \<mapsto> target)\<rparr>"

definition split_buffer_len :: "nat \<Rightarrow> 'i MemShardStore \<Rightarrow> nat" where
  "split_buffer_len source s = (case ms_split_buffer s source of None \<Rightarrow> 0 | Some b \<Rightarrow> length b)"

definition put_shard :: "nat \<Rightarrow> MemShard \<Rightarrow> 'i MemShardStore \<Rightarrow> 'i MemShardStore" where
  "put_shard shard_id shard s = s\<lparr>ms_shards := (ms_shards s)(shard_id \<mapsto> shard)\<rparr>"

section \<open>Shard management\<close>

definition create_shard :: "nat \<Rightarrow> nat \<Rightarrow> nat \<Rightarrow> ShardConfig \<Rightarrow> 'i MemShardStore \<Rightarrow> 'i MemShardStore" where
  "create_shard shard_id tenant_id node config s =
     (let info = \<lparr>si_shard_id = shard_id, si_tenant_id = tenant_id, si_raft_members = [node],
            si_leader = Some node, si_tip = 0, si_delta_count = 0, si_byte_size = 0,
            si_state = Healthy, si_config = config,
            si_range_start = replicate 32 0, si_range_end = replicate 32 0xff\<rparr>
      in case ms_shards s shard_id of
           None \<Rightarrow> put_shard shard_id
             \<lparr>sh_info = info, sh_deltas = [], sh_watermarks = [], sh_gc_floor = 0\<rparr> s
         | Some _ \<Rightarrow> s)"

definition set_shard_config :: "nat \<Rightarrow> ShardConfig \<Rightarrow> 'i MemShardStore \<Rightarrow> 'i MemShardStore" where
  "set_shard_config shard_id config s =
     (case ms_shards s shard_id of
        None \<Rightarrow> s
      | Some shard \<Rightarrow> put_shard shard_id (shard\<lparr>sh_info := (sh_info shard)\<lparr>si_config := config\<rparr>\<rparr>) s)"

definition set_shard_state :: "nat \<Rightarrow> ShardState \<Rightarrow> 'i MemShardStore \<Rightarrow> 'i MemShardStore" where
  "set_shard_state shard_id state s =
     (case ms_shards s shard_id of
        None \<Rightarrow> s
      | Some shard \<Rightarrow> put_shard shard_id (shard\<lparr>sh_info := (sh_info shard)\<lparr>si_state := state\<rparr>\<rparr>) s)"

definition update_shard_range :: "nat \<Rightarrow> bytes \<Rightarrow> bytes \<Rightarrow> 'i MemShardStore \<Rightarrow> 'i MemShardStore" where
  "update_shard_range shard_id range_start range_end s =
     (case ms_shards s shard_id of
        None \<Rightarrow> s
      | Some shard \<Rightarrow> put_shard shard_id
          (shard\<lparr>sh_info := (sh_info shard)\<lparr>si_range_start := range_start, si_range_end := range_end\<rparr>\<rparr>) s)"

definition register_consumer :: "nat \<Rightarrow> string \<Rightarrow> nat \<Rightarrow> 'i MemShardStore \<Rightarrow> ('i, unit) log_call" where
  "register_consumer shard_id consumer position s =
     (case ms_shards s shard_id of
        None \<Rightarrow> (s, Err (ShardNotFound shard_id))
      | Some shard \<Rightarrow>
          (put_shard shard_id (shard\<lparr>sh_watermarks := wm_register consumer position (sh_watermarks shard)\<rparr>) s,
           Ok ()))"

definition advance_watermark :: "nat \<Rightarrow> string \<Rightarrow> nat \<Rightarrow> 'i MemShardStore \<Rightarrow> ('i, unit) log_call" where
  "advance_watermark shard_id consumer position s =
     (if is_buffered_sentinel position then (s, Err (InvalidRange shard_id))
      else case ms_shards s shard_id of
        None \<Rightarrow> (s, Err (ShardNotFound shard_id))
      | Some shard \<Rightarrow>
          (put_shard shard_id (shard\<lparr>sh_watermarks := wm_advance consumer position (sh_watermarks shard)\<rparr>) s,
           Ok ()))"

definition report_consumer_position :: "nat \<Rightarrow> string \<Rightarrow> nat \<Rightarrow> 'i MemShardStore \<Rightarrow> 'i MemShardStore" where
  "report_consumer_position shard_id consumer position s =
     (if is_buffered_sentinel position then s
      else case ms_shards s shard_id of
        None \<Rightarrow> s
      | Some shard \<Rightarrow>
          put_shard shard_id (shard\<lparr>sh_watermarks := wm_advance consumer position (sh_watermarks shard)\<rparr>) s)"

definition store_should_split :: "nat \<Rightarrow> 'i MemShardStore \<Rightarrow> bool" where
  "store_should_split shard_id s =
     (case ms_shards s shard_id of
        None \<Rightarrow> False
      | Some sh \<Rightarrow> si_delta_count (sh_info sh) \<ge> sc_max_delta_count (si_config (sh_info sh))
          \<or> si_byte_size (sh_info sh) \<ge> sc_max_byte_size (si_config (sh_info sh)))"

definition deltas_byte_size :: "Delta list \<Rightarrow> (LogError, nat) res" where
  "deltas_byte_size ds = sum_u64 (map (\<lambda>d. dh_payload_size (d_header d) + 128) ds)"

definition split_midpoint :: "bytes \<Rightarrow> bytes \<Rightarrow> bytes" where
  "split_midpoint range_start range_end = map2 (\<lambda>a b. a div 2 + b div 2) range_start range_end"

definition split_shard :: "nat \<Rightarrow> nat \<Rightarrow> nat \<Rightarrow> 'i MemShardStore \<Rightarrow> ('i, nat) log_call" where
  "split_shard shard_id new_shard_id node s =
     (case ms_shards s shard_id of
        None \<Rightarrow> (s, Err (ShardNotFound shard_id))
      | Some shard \<Rightarrow>
          (let info = sh_info shard;
               midpoint = split_midpoint (si_range_start info) (si_range_end info);
               old_end = si_range_end info;
               new_deltas = filter (\<lambda>d. d_key d \<ge> midpoint) (sh_deltas shard);
               old_deltas = filter (\<lambda>d. \<not> d_key d \<ge> midpoint) (sh_deltas shard)
           in case (deltas_byte_size old_deltas, deltas_byte_size new_deltas) of
                (Ok old_bytes, Ok new_bytes) \<Rightarrow>
                  (let shard' = shard\<lparr>sh_info := info\<lparr>si_range_end := midpoint,
                         si_delta_count := length old_deltas, si_byte_size := old_bytes\<rparr>,
                         sh_deltas := old_deltas\<rparr>;
                       new_info = \<lparr>si_shard_id = new_shard_id, si_tenant_id = si_tenant_id info,
                         si_raft_members = [node], si_leader = Some node,
                         si_tip = length new_deltas, si_delta_count = length new_deltas,
                         si_byte_size = new_bytes, si_state = Healthy, si_config = si_config info,
                         si_range_start = midpoint, si_range_end = old_end\<rparr>
                   in (put_shard new_shard_id
                         \<lparr>sh_info = new_info, sh_deltas = new_deltas, sh_watermarks = [], sh_gc_floor = 0\<rparr>
                         (put_shard shard_id shard' s),
                       Ok new_shard_id))
              | _ \<Rightarrow> (s, Panic)))"

definition merge_shards :: "nat \<Rightarrow> nat \<Rightarrow> 'i MemShardStore \<Rightarrow> ('i, unit) log_call" where
  "merge_shards target_shard_id source_shard_id s =
     (case ms_shards s source_shard_id of
        None \<Rightarrow> (s, Err (ShardNotFound source_shard_id))
      | Some src \<Rightarrow>
          (case ms_shards s target_shard_id of
             None \<Rightarrow> (s, Err (ShardNotFound target_shard_id))
           | Some target \<Rightarrow>
               (let source = sh_info src; info = sh_info target;
                    info = (if si_range_start source < si_range_start info
                            then info\<lparr>si_range_start := si_range_start source\<rparr> else info);
                    info = (if si_range_end source > si_range_end info
                            then info\<lparr>si_range_end := si_range_end source\<rparr> else info)
                in (set_shard_state source_shard_id Retiring
                      (put_shard target_shard_id (target\<lparr>sh_info := info\<rparr>) s),
                    Ok ()))))"

section \<open>Appending\<close>

fun state_refuses :: "ShardState \<Rightarrow> nat \<Rightarrow> LogError option" where
  "state_refuses Maintenance shard_id = Some (MaintenanceMode shard_id)"
| "state_refuses Retiring shard_id = Some (MaintenanceMode shard_id)"
| "state_refuses Election shard_id = Some (LeaderUnavailable shard_id)"
| "state_refuses QuorumLost shard_id = Some (LogQuorumLost shard_id)"
| "state_refuses Healthy shard_id = None"
| "state_refuses Splitting shard_id = None"
| "state_refuses Merging shard_id = None"

definition out_of_range :: "bytes \<Rightarrow> ShardInfo \<Rightarrow> bool" where
  "out_of_range hashed_key info \<longleftrightarrow> hashed_key < si_range_start info \<or> hashed_key \<ge> si_range_end info"

definition mk_delta :: "AppendDeltaRequest \<Rightarrow> nat \<Rightarrow> bytes \<Rightarrow> Delta" where
  "mk_delta req next_seq ciphertext =
     \<lparr>d_header = \<lparr>dh_sequence = next_seq, dh_shard_id = ar_shard_id req, dh_tenant_id = ar_tenant_id req,
        dh_operation = ar_operation req, dh_timestamp = ar_timestamp req,
        dh_hashed_key = ar_hashed_key req, dh_tombstone = (ar_operation req = Delete),
        dh_chunk_refs = ar_chunk_refs req, dh_payload_size = length (ar_payload req) mod 2 ^ 32,
        dh_has_inline_data = ar_has_inline_data req\<rparr>,
      d_payload = \<lparr>dp_ciphertext = ciphertext, dp_auth_tag = [], dp_nonce = [],
        dp_system_epoch = None, dp_tenant_epoch = None, dp_tenant_wrapped_material = []\<rparr>\<rparr>"

text \<open>Offloading of an inline payload: the ciphertext that stays in the log.\<close>

definition offload :: "'i InlineStore \<Rightarrow> AppendDeltaRequest \<Rightarrow> nat \<Rightarrow> 'i MemShardStore \<Rightarrow> ('i, bytes) log_call" where
  "offload ops req next_seq s =
     (if ar_has_inline_data req then
        case ms_inline_store s of
          Some inline \<Rightarrow>
            (let key = derive_inline_key (ar_hashed_key req) next_seq;
                 (inline', r) = is_put ops inline key (ar_payload req)
             in bind_st (s\<lparr>ms_inline_store := Some inline'\<rparr>, map_err (\<lambda>_. LogIo) r) (\<lambda>s _. (s, Ok [])))
        | None \<Rightarrow> (s, Ok (ar_payload req))
      else (s, Ok (ar_payload req)))"

definition append_delta :: "'i InlineStore \<Rightarrow> AppendDeltaRequest \<Rightarrow> 'i MemShardStore \<Rightarrow> ('i, nat) log_call" where
  "append_delta ops req s =
     (let sid = ar_shard_id req in
      case ms_shards s sid of
        None \<Rightarrow> (s, Err (ShardNotFound sid))
      | Some shard \<Rightarrow>
          (case state_refuses (si_state (sh_info shard)) sid of
             Some e \<Rightarrow> (s, Err e)
           | None \<Rightarrow>
               if out_of_range (ar_hashed_key req) (sh_info shard) then
                 (if si_state (sh_info shard) = Splitting \<and> ms_split_targets s sid \<noteq> None then
                    (s\<lparr>ms_split_buffer := (ms_split_buffer s)(sid \<mapsto>
                        (case ms_split_buffer s sid of None \<Rightarrow> [] | Some b \<Rightarrow> b) @ [req])\<rparr>,
                     Ok BUFFERED)
                  else (s, Err (KeyOutOfRange sid)))
               else
                 bind_st (s, add_u64 (si_tip (sh_info shard)) 1) (\<lambda>s next_seq.
                   bind_st (offload ops req next_seq s) (\<lambda>s ciphertext.
                     let delta = mk_delta req next_seq ciphertext in
                     bind_st (s, add_u64 (si_delta_count (sh_info shard)) 1) (\<lambda>s count.
                       bind_st (s, add_u64 (si_byte_size (sh_info shard))
                                    (dh_payload_size (d_header delta) + 128)) (\<lambda>s byte_size.
                         (put_shard sid
                            (shard\<lparr>sh_info := (sh_info shard)\<lparr>si_tip := next_seq,
                                 si_delta_count := count, si_byte_size := byte_size\<rparr>,
                               sh_deltas := sh_deltas shard @ [delta]\<rparr>) s,
                          Ok next_seq)))))))"

section \<open>Split cutover\<close>

fun replay :: "'i InlineStore \<Rightarrow> nat \<Rightarrow> AppendDeltaRequest list \<Rightarrow> 'i MemShardStore \<Rightarrow> ('i, unit) log_call" where
  "replay ops target [] s = (s, Ok ())"
| "replay ops target (req # reqs) s =
     bind_st (append_delta ops (req\<lparr>ar_shard_id := target\<rparr>) s) (\<lambda>s _. replay ops target reqs s)"

definition take_split_buffer :: "nat \<Rightarrow> 'i MemShardStore \<Rightarrow> 'i MemShardStore \<times> AppendDeltaRequest list" where
  "take_split_buffer source s =
     (s\<lparr>ms_split_buffer := (ms_split_buffer s)(source := None)\<rparr>,
      case ms_split_buffer s source of None \<Rightarrow> [] | Some b \<Rightarrow> b)"

definition drain_split_buffer :: "'i InlineStore \<Rightarrow> nat \<Rightarrow> 'i MemShardStore \<Rightarrow> ('i, nat) log_call" where
  "drain_split_buffer ops source s =
     (case ms_split_targets s source of
        None \<Rightarrow> (s, Err (ShardNotFound source))
      | Some target \<Rightarrow>
          (let (s, buffered) = take_split_buffer source s; count = length buffered
           in bind_st (replay ops target buffered s) (\<lambda>s _. (s, Ok count))))"

section \<open>Reading and maintenance\<close>

definition read_deltas :: "ReadDeltasRequest \<Rightarrow> 'i MemShardStore \<Rightarrow> (LogError, Delta list) res" where
  "read_deltas req s =
     (case ms_shards s (rr_shard_id req) of
        None \<Rightarrow> Err (ShardNotFound (rr_shard_id req))
      | Some shard \<Rightarrow>
          if rr_from req > rr_to req then Err (InvalidRange (rr_shard_id req))
          else Ok (filter (\<lambda>d. d_seq d \<ge> rr_from req \<and> d_seq d \<le> rr_to req) (sh_deltas shard)))"

definition shard_health :: "nat \<Rightarrow> 'i MemShardStore \<Rightarrow> (LogError, ShardInfo) res" where
  "shard_health shard_id s = ok_or (ShardNotFound shard_id) (map_option sh_info (ms_shards s shard_id))"

definition set_maintenance :: "nat \<Rightarrow> bool \<Rightarrow> 'i MemShardStore \<Rightarrow> ('i, unit) log_call" where
  "set_maintenance shard_id enabled s =
     (case ms_shards s shard_id of
        None \<Rightarrow> (s, Err (ShardNotFound shard_id))
      | Some shard \<Rightarrow>
          (put_shard shard_id (shard\<lparr>sh_info := (sh_info shard)\<lparr>si_state :=
              (if enabled then Maintenance else Healthy)\<rparr>\<rparr>) s, Ok ()))"

text \<open>Deletion of inline payloads during maintenance: errors are ignored.\<close>

fun delete_keys :: "'i InlineStore \<Rightarrow> 'i \<Rightarrow> bytes list \<Rightarrow> 'i \<times> (LogError, unit) res" where
  "delete_keys ops i [] = (i, Ok ())"
| "delete_keys ops i (k # ks) =
     (case is_delete ops i k of (i', Panic) \<Rightarrow> (i', Panic) | (i', _) \<Rightarrow> delete_keys ops i' ks)"

definition delete_payloads :: "'i InlineStore \<Rightarrow> (Delta \<Rightarrow> bool) \<Rightarrow> Delta list \<Rightarrow> 'i MemShardStore \<Rightarrow> ('i, unit) log_call" where
  "delete_payloads ops P ds s =
     (case ms_inline_store s of
        None \<Rightarrow> (s, Ok ())
      | Some i \<Rightarrow>
          (let (i', r) = delete_keys ops i (map (\<lambda>d. derive_inline_key (d_key d) (d_seq d))
                 (filter (\<lambda>d. P d \<and> dh_has_inline_data (d_header d)) ds))
           in (s\<lparr>ms_inline_store := Some i'\<rparr>, r)))"

definition shard_boundary :: "MemShard \<Rightarrow> nat" where
  "shard_boundary shard = (case wm_gc_boundary (sh_watermarks shard) of None \<Rightarrow> 0 | Some b \<Rightarrow> b)"

definition truncate_log :: "'i InlineStore \<Rightarrow> nat \<Rightarrow> 'i MemShardStore \<Rightarrow> ('i, nat) log_call" where
  "truncate_log ops shard_id s =
     (case ms_shards s shard_id of
        None \<Rightarrow> (s, Err (ShardNotFound shard_id))
      | Some shard \<Rightarrow>
          (let gc_boundary = shard_boundary shard in
           bind_st (delete_payloads ops (\<lambda>d. d_seq d < gc_boundary) (sh_deltas shard) s) (\<lambda>s _.
             (put_shard shard_id
                (shard\<lparr>sh_deltas := filter (\<lambda>d. d_seq d \<ge> gc_boundary) (sh_deltas shard),
                       sh_gc_floor := gc_boundary\<rparr>) s,
              Ok gc_boundary))))"

definition gc_boundary :: "nat \<Rightarrow> 'i MemShardStore \<Rightarrow> (LogError, nat) res" where
  "gc_boundary shard_id s = ok_or (ShardNotFound shard_id) (map_option sh_gc_floor (ms_shards s shard_id))"

fun latest_insert :: "Delta \<Rightarrow> Delta list \<Rightarrow> Delta list" where
  "latest_insert d [] = [d]"
| "latest_insert d (e # es) =
     (if d_key e = d_key d then (if d_seq d > d_seq e then d else e) # es
      else e # latest_insert d es)"

definition latest :: "Delta list \<Rightarrow> Delta list" where
  "latest ds = fold latest_insert ds []"

definition compact_surviving :: "nat \<Rightarrow> Delta list \<Rightarrow> Delta list" where
  "compact_surviving boundary ds =
     filter (\<lambda>d. \<not> (dh_tombstone (d_header d) \<and> d_seq d < boundary)) (latest ds)"

definition compact_shard :: "'i InlineStore \<Rightarrow> nat \<Rightarrow> 'i MemShardStore \<Rightarrow> ('i, nat) log_call" where
  "compact_shard ops shard_id s =
     (case ms_shards s shard_id of
        None \<Rightarrow> (s, Err (ShardNotFound shard_id))
      | Some shard \<Rightarrow>
          (let before_count = length (sh_deltas shard);
               surviving = compact_surviving (shard_boundary shard) (sh_deltas shard);
               surviving_seqs = map d_seq surviving
           in bind_st (delete_payloads ops (\<lambda>d. d_seq d \<notin> set surviving_seqs) (sh_deltas shard) s) (\<lambda>s _.
                let after_count = length surviving in
                (put_shard shard_id
                   (shard\<lparr>sh_deltas := sort_key d_seq surviving,
                          sh_info := (sh_info shard)\<lparr>si_delta_count := after_count\<rparr>\<rparr>) s,
                 Ok (before_count - after_count)))))"

section \<open>Appends, branch by branch\<close>

definition offloads :: "AppendDeltaRequest \<Rightarrow> 'i MemShardStore \<Rightarrow> bool" where
  "offloads req s \<longleftrightarrow> ar_has_inline_data req \<and> ms_inline_store s \<noteq> None"

lemma offload_eq:
  "offload ops req n s =
     (if offloads req s then
        (case is_put ops (the (ms_inline_store s)) (derive_inline_key (ar_hashed_key req) n) (ar_payload req) of
           (i, r) \<Rightarrow> (s\<lparr>ms_inline_store := Some i\<rparr>,
              case r of Ok _ \<Rightarrow> Ok [] | Err _ \<Rightarrow> Err LogIo | Panic \<Rightarrow> Panic))
      else (s, Ok (ar_payload req)))"
proof (cases "offloads req s")
  case True
  then obtain i where i: "ar_has_inline_data req" "ms_inline_store s = Some i" by (auto simp: offloads_def)
  obtain u r where u: "is_put ops i (derive_inline_key (ar_hashed_key req) n) (ar_payload req) = (u, r)" by fastforce
  show ?thesis using True i u by (cases r) (simp_all add: offload_def)
qed (auto simp: offload_def offloads_def)

lemma offload_frame:
  assumes "offload ops req n s = (s', r)"
  shows "ms_shards s' = ms_shards s \<and> ms_split_targets s' = ms_split_targets s \<and>
         ms_split_buffer s' = ms_split_buffer s \<and>
         (\<forall>ct. r = Ok ct \<longrightarrow> ct = (if offloads req s then [] else ar_payload req))"
  using assms unfolding offload_eq by (auto split: if_splits prod.splits res.splits)

lemma put_shard_fields [simp]:
  "ms_shards (put_shard sid sh s) = (ms_shards s)(sid \<mapsto> sh)"
  "ms_inline_store (put_shard sid sh s) = ms_inline_store s"
  "ms_split_targets (put_shard sid sh s) = ms_split_targets s"
  "ms_split_buffer (put_shard sid sh s) = ms_split_buffer s"
  by (simp_all add: put_shard_def)

definition logged_shard :: "AppendDeltaRequest \<Rightarrow> nat \<Rightarrow> bytes \<Rightarrow> MemShard \<Rightarrow> MemShard" where
  "logged_shard req n ct shard =
     shard\<lparr>sh_info := (sh_info shard)\<lparr>si_tip := n, si_delta_count := si_delta_count (sh_info shard) + 1,
         si_byte_size := si_byte_size (sh_info shard) + (dh_payload_size (d_header (mk_delta req n ct)) + 128)\<rparr>,
       sh_deltas := sh_deltas shard @ [mk_delta req n ct]\<rparr>"

lemma append_delta_cases:
  assumes "append_delta ops req s = (s', r)"
  obtains
    (failed) e where "r = Err e" "ms_shards s' = ms_shards s" "ms_split_buffer s' = ms_split_buffer s"
      "ms_split_targets s' = ms_split_targets s"
      "ms_inline_store s' = ms_inline_store s \<or>
        (\<exists>i k d u. ms_inline_store s = Some i \<and> is_put ops i k d = (u, Err ()) \<and> ms_inline_store s' = Some u)"
  | (buffered) shard where "r = Ok BUFFERED" "ms_shards s (ar_shard_id req) = Some shard"
      "si_state (sh_info shard) = Splitting" "out_of_range (ar_hashed_key req) (sh_info shard)"
      "s' = s\<lparr>ms_split_buffer := (ms_split_buffer s)(ar_shard_id req \<mapsto>
          (case ms_split_buffer s (ar_shard_id req) of None \<Rightarrow> [] | Some b \<Rightarrow> b) @ [req])\<rparr>"
  | (logged) shard n s1 ct where "r = Ok n" "ms_shards s (ar_shard_id req) = Some shard"
      "n = si_tip (sh_info shard) + 1" "n \<le> u64_max"
      "state_refuses (si_state (sh_info shard)) (ar_shard_id req) = None"
      "\<not> out_of_range (ar_hashed_key req) (sh_info shard)"
      "offload ops req n s = (s1, Ok ct)"
      "s' = put_shard (ar_shard_id req) (logged_shard req n ct shard) s1"
  | (panic) "r = Panic"
proof (cases "ms_shards s (ar_shard_id req)")
  case None
  then show ?thesis using assms failed by (auto simp: append_delta_def Let_def)
next
  case (Some shard)
  show ?thesis
  proof (cases "state_refuses (si_state (sh_info shard)) (ar_shard_id req)")
    case (Some e)
    then show ?thesis using assms \<open>ms_shards s _ = Some shard\<close> failed by (auto simp: append_delta_def Let_def)
  next
    case None
    show ?thesis
    proof (cases "out_of_range (ar_hashed_key req) (sh_info shard)")
      case True
      then show ?thesis using assms Some None failed buffered
        by (auto simp: append_delta_def Let_def split: if_splits)
    next
      case False
      obtain s1 r1 where o: "offload ops req (si_tip (sh_info shard) + 1) s = (s1, r1)" by fastforce
      show ?thesis
      proof (cases r1)
        case (Ok ct)
        show ?thesis
        proof (cases r)
          case (Ok n)
          with assms Some None False o \<open>r1 = Ok ct\<close> logged [of n shard s1 ct] show ?thesis
            by (auto simp: append_delta_def Let_def logged_shard_def)
        next
          case (Err e)
          with assms Some None False o \<open>r1 = Ok ct\<close> show ?thesis
            by (auto simp: append_delta_def Let_def add_u64_def split: if_splits)
        qed (rule panic)
      next
        case (Err e)
        show ?thesis
        proof (cases r)
          case (Err e')
          from o \<open>r1 = Err e\<close> obtain i u where "ms_inline_store s = Some i" "ms_inline_store s1 = Some u"
            "is_put ops i (derive_inline_key (ar_hashed_key req) (si_tip (sh_info shard) + 1)) (ar_payload req) = (u, Err ())"
            unfolding offload_eq by (auto simp: offloads_def split: if_splits prod.splits res.splits)
          moreover have "s' = s1" using assms Some None False o \<open>r1 = Err e\<close> Err
            by (auto simp: append_delta_def Let_def add_u64_def split: if_splits)
          ultimately show ?thesis using offload_frame [OF o] Err by (intro failed) auto
        next
          case (Ok n)
          with assms Some None False o \<open>r1 = Err e\<close> show ?thesis by (auto simp: append_delta_def Let_def)
        qed (rule panic)
      next
        case Panic
        with assms Some None False o show ?thesis
          by (intro panic) (auto simp: append_delta_def Let_def add_u64_def split: if_splits)
      qed
    qed
  qed
qed

lemma append_delta_logs:
  assumes "ms_shards s (ar_shard_id req) = Some sh"
    and "state_refuses (si_state (sh_info sh)) (ar_shard_id req) = None"
    and "\<not> out_of_range (ar_hashed_key req) (sh_info sh)"
    and "n = si_tip (sh_info sh) + 1" "n \<le> u64_max" "si_delta_count (sh_info sh) < u64_max"
    and "si_byte_size (sh_info sh) + (length (ar_payload req) mod 2 ^ 32 + 128) \<le> u64_max"
    and "offload ops req n s = (s1, Ok ct)"
  shows "append_delta ops req s = (put_shard (ar_shard_id req) (logged_shard req n ct sh) s1, Ok n)"
  using assms by (simp add: append_delta_def Let_def add_u64_def logged_shard_def mk_delta_def)

end
