(* ===== verification/Hydrator.thy ===== *)
theory Hydrator
  imports Composition_Store Log_Store
begin

text \<open>
  The composition hydrator (\<^verbatim>\<open>crates/kiseki-composition/src/hydrator.rs\<close>): the loop that rebuilds a
  node's composition store from the deltas of one shard. A poll reads a window of deltas, stages the
  effect of each one over the durable rows, commits the staged batch atomically together with the new
  high-water mark, and drains the volatile overlay for the rows it touched.

  The log is an argument: the results of \<^verbatim>\<open>read_deltas\<close> and \<^verbatim>\<open>earliest_visible_seq\<close>. Metrics and
  tracing are omitted; the chunks handed to the eviction sink are part of the result. The version bump
  of an update is checked, so a poll can panic there.
\<close>

section \<open>Staging\<close>

record Staging =
  sg_puts :: "(nat \<times> Composition) list"
  sg_removes :: "nat list"
  sg_name_inserts :: "(nat \<times> bytes \<times> nat \<times> PerspectiveSeq option) list"
  sg_name_removes :: "(nat \<times> bytes \<times> PerspectiveSeq option) list"
  sg_namespace_inserts :: "Namespace list"
  sg_migrated_chunk_evictions :: "bytes list"

definition staging_default :: Staging where
  "staging_default =
     \<lparr>sg_puts = [], sg_removes = [], sg_name_inserts = [], sg_name_removes = [],
      sg_namespace_inserts = [], sg_migrated_chunk_evictions = []\<rparr>"

definition staging_view :: "Staging \<Rightarrow> 'l CompositionStore \<Rightarrow> nat \<Rightarrow> Composition option" where
  "staging_view g s cid =
     (if cid \<in> set (sg_removes g) then None
      else case map_of (sg_puts g) cid of
             Some row \<Rightarrow> Some row
           | None \<Rightarrow> storage_get cid (cs_storage s))"

definition staging_put :: "Composition \<Rightarrow> Staging \<Rightarrow> Staging" where
  "staging_put row g =
     g\<lparr>sg_removes := removeAll (c_id row) (sg_removes g), sg_puts := AList.update (c_id row) row (sg_puts g)\<rparr>"

definition staging_remove :: "nat \<Rightarrow> Staging \<Rightarrow> Staging" where
  "staging_remove cid g =
     g\<lparr>sg_puts := AList.delete cid (sg_puts g), sg_removes := List.insert cid (sg_removes g)\<rparr>"

definition staging_bind_name :: "nat \<Rightarrow> bytes \<Rightarrow> nat \<Rightarrow> PerspectiveSeq option \<Rightarrow> Staging \<Rightarrow> Staging" where
  "staging_bind_name nid name cid seq g = g\<lparr>sg_name_inserts := sg_name_inserts g @ [(nid, name, cid, seq)]\<rparr>"

definition staging_unbind_name :: "nat \<Rightarrow> bytes \<Rightarrow> PerspectiveSeq option \<Rightarrow> Staging \<Rightarrow> Staging" where
  "staging_unbind_name nid name seq g = g\<lparr>sg_name_removes := sg_name_removes g @ [(nid, name, seq)]\<rparr>"

datatype DeltaOutcome = Applied | PermanentSkip string | TransientSkip string

section \<open>Staging one delta\<close>

definition bind_opt_name :: "nat \<Rightarrow> bytes option \<Rightarrow> nat \<Rightarrow> PerspectiveSeq option \<Rightarrow> Staging \<Rightarrow> Staging" where
  "bind_opt_name nid name cid seq g =
     (case name of Some n \<Rightarrow> staging_bind_name nid n cid seq g | None \<Rightarrow> g)"

definition staged_namespace :: "'l CompositionStore \<Rightarrow> Staging \<Rightarrow> nat \<Rightarrow> (nat \<times> nat) option" where
  "staged_namespace s g nid =
     (case find (\<lambda>n. ns_id n = nid) (sg_namespace_inserts g) of
        Some ns \<Rightarrow> Some (ns_tenant_id ns, ns_shard_id ns)
      | None \<Rightarrow>
          (case store_namespace s nid of
             Some ns \<Rightarrow> Some (ns_tenant_id ns, ns_shard_id ns)
           | None \<Rightarrow> None))"

definition stage_create :: "'l CompositionStore \<Rightarrow> Staging \<Rightarrow> Delta \<Rightarrow> Staging \<times> DeltaOutcome" where
  "stage_create s g d =
     (case decode_composition_create_payload (dp_ciphertext (d_payload d)) of
        None \<Rightarrow> (g, PermanentSkip ''create_payload_decode'')
      | Some (cid, nid, sz, name, lens, seq) \<Rightarrow>
          if staging_view g s cid \<noteq> None then (bind_opt_name nid name cid seq g, Applied)
          else
            (case staged_namespace s g nid of
               None \<Rightarrow> (g, TransientSkip ''namespace_not_registered'')
             | Some snap \<Rightarrow>
                 (bind_opt_name nid name cid seq
                    (staging_put (new_row cid nid snap (dh_chunk_refs (d_header d)) sz (lens_list lens)) g),
                  Applied)))"

definition stage_update :: "'l CompositionStore \<Rightarrow> Staging \<Rightarrow> Delta \<Rightarrow> (unit, Staging \<times> DeltaOutcome) res" where
  "stage_update s g d =
     (case decode_composition_update_payload (dp_ciphertext (d_payload d)) of
        None \<Rightarrow> Ok (g, PermanentSkip ''update_payload_decode'')
      | Some (cid, sz) \<Rightarrow>
          let chunks = dh_chunk_refs (d_header d) in
          (case staging_view g s cid of
             None \<Rightarrow> Ok (g, TransientSkip ''update_before_create'')
           | Some row \<Rightarrow>
               if c_chunks row = chunks \<and> c_size row = sz then Ok (g, Applied)
               else
                 bind_res (add_u64 (c_version row) 1) (\<lambda>v.
                   Ok (staging_put (row\<lparr>c_chunks := chunks, c_size := sz, c_version := v,
                                        c_has_inline_data := inline_flag chunks sz\<rparr>) g, Applied))))"

definition stage_delete :: "'l CompositionStore \<Rightarrow> Staging \<Rightarrow> Delta \<Rightarrow> Staging \<times> DeltaOutcome" where
  "stage_delete s g d =
     (case decode_composition_delete_payload (dp_ciphertext (d_payload d)) of
        None \<Rightarrow> (g, PermanentSkip ''delete_payload_decode'')
      | Some cid \<Rightarrow>
          let g = (case name_for cid (cs_storage s) of
                     Some (nid, name) \<Rightarrow> staging_unbind_name nid name None g
                   | None \<Rightarrow> g)
          in (staging_remove cid g, Applied))"

definition full_locations :: "Composition \<Rightarrow> ChunkRefLocation list" where
  "full_locations row =
     (if length (c_chunk_locations row) \<noteq> length (c_chunks row)
      then replicate (length (c_chunks row))
             (Hot (case map loc_pool_name (c_chunk_locations row) of p # _ \<Rightarrow> p | [] \<Rightarrow> []))
      else c_chunk_locations row)"

fun flip_entries ::
    "bytes \<Rightarrow> nat \<Rightarrow> bytes list \<Rightarrow> (nat \<times> nat \<times> nat) list \<Rightarrow> ChunkRefLocation list \<Rightarrow> bytes list \<Rightarrow>
       ChunkRefLocation list \<times> bytes list" where
  "flip_entries pool slab chunks [] locs evicted = (locs, evicted)"
| "flip_entries pool slab chunks ((idx, off, len) # es) locs evicted =
     (if idx \<ge> length locs then flip_entries pool slab chunks es locs evicted
      else flip_entries pool slab chunks es (locs[idx := Cold pool slab off len])
             (if idx < length chunks then evicted @ [chunks ! idx] else evicted))"

definition stage_migrate_chunk_locations ::
    "'l CompositionStore \<Rightarrow> Staging \<Rightarrow> Delta \<Rightarrow> Staging \<times> DeltaOutcome" where
  "stage_migrate_chunk_locations s g d =
     (case decode_migrate_chunk_locations_payload (dp_ciphertext (d_payload d)) of
        None \<Rightarrow> (g, PermanentSkip ''migrate_chunk_locations_payload_decode'')
      | Some m \<Rightarrow>
          (case staging_view g s (mg_composition_id m) of
             None \<Rightarrow> (g, PermanentSkip ''migrate_chunk_locations_unknown_composition'')
           | Some row \<Rightarrow>
               let (locs, evicted) = flip_entries (mg_pool_name m) (mg_slab_id m) (c_chunks row) (mg_entries m)
                                       (full_locations row) (sg_migrated_chunk_evictions g);
                   row = row\<lparr>c_chunk_locations := locs\<rparr>
               in (g\<lparr>sg_migrated_chunk_evictions := evicted,
                     sg_puts := AList.update (c_id row) row (sg_puts g)\<rparr>, Applied)))"

definition stage_namespace_create :: "Staging \<Rightarrow> Delta \<Rightarrow> Staging \<times> DeltaOutcome" where
  "stage_namespace_create g d =
     (case decode_namespace_create_payload (dp_ciphertext (d_payload d)) of
        None \<Rightarrow> (g, PermanentSkip ''namespace_create_payload_decode'')
      | Some ns \<Rightarrow> (g\<lparr>sg_namespace_inserts := sg_namespace_inserts g @ [ns]\<rparr>, Applied))"

definition stage_delta :: "'l CompositionStore \<Rightarrow> Staging \<Rightarrow> Delta \<Rightarrow> (unit, Staging \<times> DeltaOutcome) res" where
  "stage_delta s g d =
     (case dh_operation (d_header d) of
        Create \<Rightarrow> Ok (stage_create s g d)
      | Update \<Rightarrow> stage_update s g d
      | Delete \<Rightarrow> Ok (stage_delete s g d)
      | NamespaceCreate \<Rightarrow> Ok (stage_namespace_create g d)
      | MigrateChunkLocations \<Rightarrow> Ok (stage_migrate_chunk_locations s g d)
      | _ \<Rightarrow> Ok (g, Applied))"

section \<open>The poll\<close>

record CompositionHydrator =
  hy_shard_id :: nat
  hy_last_applied_cache :: nat
  hy_halted_cache :: bool
  hy_transient_retry_threshold :: nat
  hy_batch_window :: nat

definition DEFAULT_TRANSIENT_RETRY_THRESHOLD :: nat where
  "DEFAULT_TRANSIENT_RETRY_THRESHOLD = 100"

definition DEFAULT_HYDRATOR_BATCH :: nat where
  "DEFAULT_HYDRATOR_BATCH = 4000"

definition MAX_HYDRATOR_BATCH :: nat where
  "MAX_HYDRATOR_BATCH = 20000"

definition clamp_batch :: "nat \<Rightarrow> nat" where
  "clamp_batch v = max 1 (min v MAX_HYDRATOR_BATCH)"

definition hydrator_new :: "'l CompositionStore \<Rightarrow> nat \<Rightarrow> nat \<Rightarrow> nat \<Rightarrow> CompositionHydrator" where
  "hydrator_new s shard threshold window =
     \<lparr>hy_shard_id = shard, hy_last_applied_cache = last_applied_seq shard (cs_storage s),
      hy_halted_cache = storage_halted shard (cs_storage s), hy_transient_retry_threshold = threshold,
      hy_batch_window = window\<rparr>"

definition with_batch_window :: "nat \<Rightarrow> CompositionHydrator \<Rightarrow> CompositionHydrator" where
  "with_batch_window window h = h\<lparr>hy_batch_window := clamp_batch window\<rparr>"

record PollLoop =
  pl_staging :: Staging
  pl_last :: nat
  pl_applied :: nat
  pl_stuck :: "(nat \<times> nat) option"
  pl_stop :: bool

definition note_outcome :: "nat \<Rightarrow> (nat \<times> nat) option \<Rightarrow> Delta \<Rightarrow> DeltaOutcome \<Rightarrow> PollLoop \<Rightarrow> PollLoop" where
  "note_outcome threshold prior_stuck d outcome l =
     (case outcome of
        Applied \<Rightarrow> l\<lparr>pl_last := d_seq d, pl_applied := pl_applied l + 1\<rparr>
      | PermanentSkip reason \<Rightarrow> l\<lparr>pl_last := d_seq d\<rparr>
      | TransientSkip reason \<Rightarrow>
          let (current_at, current_retries) =
                (case prior_stuck of
                   Some (s, r) \<Rightarrow> if s = d_seq d then (s, r) else (d_seq d, 0)
                 | None \<Rightarrow> (d_seq d, 0));
              new_retries = min (current_retries + 1) u32_max in
          if new_retries \<ge> threshold then l\<lparr>pl_last := d_seq d, pl_stuck := None\<rparr>
          else l\<lparr>pl_stuck := Some (current_at, new_retries), pl_stop := True\<rparr>)"

fun poll_loop ::
    "'l CompositionStore \<Rightarrow> nat \<Rightarrow> (nat \<times> nat) option \<Rightarrow> Delta list \<Rightarrow> PollLoop \<Rightarrow> (unit, PollLoop) res" where
  "poll_loop s threshold prior_stuck [] l = Ok l"
| "poll_loop s threshold prior_stuck (d # ds) l =
     (if pl_stop l then Ok l
      else
        bind_res (stage_delta s (pl_staging l) d) (\<lambda>(g, outcome).
          poll_loop s threshold prior_stuck ds
            (note_outcome threshold prior_stuck d outcome (l\<lparr>pl_staging := g\<rparr>))))"

type_synonym 'l poll_result = "(unit, 'l CompositionStore \<times> CompositionHydrator \<times> nat \<times> bytes list) res"

definition enter_halt_mode ::
    "'l CompositionStore \<Rightarrow> CompositionHydrator \<Rightarrow> 'l poll_result" where
  "enter_halt_mode s h =
     (let batch = \<lparr>hb_shard_id = hy_shard_id h, hb_puts = [], hb_removes = [], hb_name_inserts = [],
                   hb_name_removes = [], hb_new_last_applied_seq = hy_last_applied_cache h,
                   hb_stuck_state = None, hb_halted = Some True, hb_migrated_chunk_evictions = []\<rparr>
      in Ok (s\<lparr>cs_storage := apply_hydration_batch batch (cs_storage s)\<rparr>, h\<lparr>hy_halted_cache := True\<rparr>, 0, []))"

definition staged_batch :: "nat \<Rightarrow> PollLoop \<Rightarrow> HydrationBatch" where
  "staged_batch shard l =
     \<lparr>hb_shard_id = shard, hb_puts = map snd (sg_puts (pl_staging l)), hb_removes = sg_removes (pl_staging l),
      hb_name_inserts = sg_name_inserts (pl_staging l), hb_name_removes = sg_name_removes (pl_staging l),
      hb_new_last_applied_seq = pl_last l, hb_stuck_state = Some (if pl_stop l then pl_stuck l else None),
      hb_halted = None, hb_migrated_chunk_evictions = sg_migrated_chunk_evictions (pl_staging l)\<rparr>"

definition touched_ids :: "HydrationBatch \<Rightarrow> nat list" where
  "touched_ids b = map c_id (hb_puts b) @ hb_removes b"

definition release_touched :: "'l LruCache \<Rightarrow> nat \<Rightarrow> 'l CompositionStore \<Rightarrow> 'l CompositionStore" where
  "release_touched L cid s = drain_pending L cid (invalidate_cache L cid s)"

definition commit_poll :: "'l LruCache \<Rightarrow> 'l CompositionStore \<Rightarrow> CompositionHydrator \<Rightarrow> PollLoop \<Rightarrow> 'l poll_result" where
  "commit_poll L s h l =
     (let s = fold add_namespace (sg_namespace_inserts (pl_staging l)) s;
          batch = staged_batch (hy_shard_id h) l;
          s = s\<lparr>cs_storage := apply_hydration_batch batch (cs_storage s)\<rparr>;
          s = fold (release_touched L) (touched_ids batch) s
      in Ok (s, h\<lparr>hy_last_applied_cache := pl_last l\<rparr>, pl_applied l, hb_migrated_chunk_evictions batch))"

definition poll_window :: "CompositionHydrator \<Rightarrow> ReadDeltasRequest" where
  "poll_window h =
     (let from = min (hy_last_applied_cache h + 1) u64_max in
      \<lparr>rr_shard_id = hy_shard_id h, rr_from = from,
       rr_to = min (from + (hy_batch_window h - 1)) u64_max\<rparr>)"

definition poll ::
    "'l LruCache \<Rightarrow> (ReadDeltasRequest \<Rightarrow> (LogError, Delta list) res) \<Rightarrow> (nat \<Rightarrow> (LogError, nat) res) \<Rightarrow>
       'l CompositionStore \<Rightarrow> CompositionHydrator \<Rightarrow> 'l poll_result" where
  "poll L read_deltas_of earliest_of s h =
     (if hy_halted_cache h then Ok (s, h, 0, [])
      else
        let req = poll_window h in
        case read_deltas_of req of
          Panic \<Rightarrow> Panic
        | Err e \<Rightarrow> Ok (s, h, 0, [])
        | Ok [] \<Rightarrow>
            (case earliest_of (hy_shard_id h) of
               Panic \<Rightarrow> Panic
             | Err e \<Rightarrow> Ok (s, h, 0, [])
             | Ok earliest \<Rightarrow>
                 if earliest > rr_from req then enter_halt_mode s h else Ok (s, h, 0, []))
        | Ok (d # ds) \<Rightarrow>
            if d_seq d > rr_from req then enter_halt_mode s h
            else
              bind_res (poll_loop s (hy_transient_retry_threshold h) (stuck_state (hy_shard_id h) (cs_storage s))
                          (d # ds)
                          \<lparr>pl_staging = staging_default, pl_last = hy_last_applied_cache h, pl_applied = 0,
                           pl_stuck = None, pl_stop = False\<rparr>)
                (commit_poll L s h))"

section \<open>Replay of the log, one delta at a time\<close>

text \<open>The specification: namespaces (tenant and shard) and rows after a delta, without batches, staging,
  retries or caches. A delta that cannot be applied leaves both unchanged.\<close>

type_synonym replica = "(nat \<Rightarrow> (nat \<times> nat) option) \<times> (nat \<Rightarrow> Composition option)"

definition updated_row :: "bytes list \<Rightarrow> nat \<Rightarrow> Composition \<Rightarrow> Composition" where
  "updated_row chunks sz row =
     (if c_chunks row = chunks \<and> c_size row = sz then row
      else row\<lparr>c_chunks := chunks, c_size := sz, c_version := c_version row + 1,
               c_has_inline_data := inline_flag chunks sz\<rparr>)"

definition migrated_row :: "DecodedMigrateChunkLocations \<Rightarrow> Composition \<Rightarrow> Composition" where
  "migrated_row m row =
     row\<lparr>c_chunk_locations :=
       fst (flip_entries (mg_pool_name m) (mg_slab_id m) (c_chunks row) (mg_entries m) (full_locations row) [])\<rparr>"

fun replay_delta :: "Delta \<Rightarrow> replica \<Rightarrow> replica" where
  "replay_delta d (nss, rows) =
     (let p = dp_ciphertext (d_payload d); refs = dh_chunk_refs (d_header d) in
      case dh_operation (d_header d) of
        Create \<Rightarrow>
          (case decode_composition_create_payload p of
             Some (cid, nid, sz, name, lens, seq) \<Rightarrow>
               (case (rows cid, nss nid) of
                  (None, Some snap) \<Rightarrow> (nss, rows(cid \<mapsto> new_row cid nid snap refs sz (lens_list lens)))
                | _ \<Rightarrow> (nss, rows))
           | None \<Rightarrow> (nss, rows))
      | Update \<Rightarrow>
          (case decode_composition_update_payload p of
             Some (cid, sz) \<Rightarrow> (nss, rows(cid := map_option (updated_row refs sz) (rows cid)))
           | None \<Rightarrow> (nss, rows))
      | Delete \<Rightarrow>
          (case decode_composition_delete_payload p of
             Some cid \<Rightarrow> (nss, rows(cid := None))
           | None \<Rightarrow> (nss, rows))
      | NamespaceCreate \<Rightarrow>
          (case decode_namespace_create_payload p of
             Some ns \<Rightarrow> (nss(ns_id ns \<mapsto> (ns_tenant_id ns, ns_shard_id ns)), rows)
           | None \<Rightarrow> (nss, rows))
      | MigrateChunkLocations \<Rightarrow>
          (case decode_migrate_chunk_locations_payload p of
             Some m \<Rightarrow> (nss, rows(mg_composition_id m := map_option (migrated_row m) (rows (mg_composition_id m))))
           | None \<Rightarrow> (nss, rows))
      | _ \<Rightarrow> (nss, rows))"

definition replica_of :: "'l CompositionStore \<Rightarrow> Staging \<Rightarrow> replica" where
  "replica_of s g = (staged_namespace s g, staging_view g s)"

text \<open>Namespace registrations are stable: every registration of an identifier names the tenant and
  shard that \<open>f\<close> gives it.\<close>

definition ns_agrees :: "(nat \<Rightarrow> nat \<times> nat) \<Rightarrow> Namespace \<Rightarrow> bool" where
  "ns_agrees f ns \<longleftrightarrow> f (ns_id ns) = (ns_tenant_id ns, ns_shard_id ns)"

definition delta_agrees :: "(nat \<Rightarrow> nat \<times> nat) \<Rightarrow> Delta \<Rightarrow> bool" where
  "delta_agrees f d \<longleftrightarrow>
     dh_operation (d_header d) = NamespaceCreate \<longrightarrow>
       (case decode_namespace_create_payload (dp_ciphertext (d_payload d)) of
          Some ns \<Rightarrow> ns_agrees f ns | None \<Rightarrow> True)"

definition staging_ok :: "(nat \<Rightarrow> nat \<times> nat) \<Rightarrow> Staging \<Rightarrow> bool" where
  "staging_ok f g \<longleftrightarrow>
     rows_keyed (sg_puts g) \<and> distinct (map fst (sg_puts g))
     \<and> (\<forall>cid \<in> set (sg_removes g). map_of (sg_puts g) cid = None)
     \<and> list_all (ns_agrees f) (sg_namespace_inserts g)"

lemma staging_ok_default [simp]: "staging_ok f staging_default"
  by (simp add: staging_ok_def staging_default_def rows_keyed_def)

lemma staging_name_frame [simp]:
  "sg_puts (bind_opt_name nid name cid seq g) = sg_puts g"
  "sg_removes (bind_opt_name nid name cid seq g) = sg_removes g"
  "sg_namespace_inserts (bind_opt_name nid name cid seq g) = sg_namespace_inserts g"
  "sg_puts (staging_unbind_name nid n seq g) = sg_puts g"
  "sg_removes (staging_unbind_name nid n seq g) = sg_removes g"
  "sg_namespace_inserts (staging_unbind_name nid n seq g) = sg_namespace_inserts g"
  by (simp_all add: bind_opt_name_def staging_bind_name_def staging_unbind_name_def split: option.split)

lemma staging_frame:
  assumes "sg_puts g' = sg_puts g" "sg_removes g' = sg_removes g" "sg_namespace_inserts g' = sg_namespace_inserts g"
  shows "replica_of s g' = replica_of s g" "staging_ok f g' = staging_ok f g"
  using assms by (simp_all add: replica_of_def staged_namespace_def staging_view_def staging_ok_def fun_eq_iff)

lemma bind_opt_frame [simp]:
  "replica_of s (bind_opt_name nid name cid seq g) = replica_of s g"
  "staging_ok f (bind_opt_name nid name cid seq g) = staging_ok f g"
  by (rule staging_frame; simp)+

lemma staging_put_view: "staging_view (staging_put row g) s = (staging_view g s)(c_id row \<mapsto> row)"
  by (auto simp: staging_view_def staging_put_def fun_eq_iff)

lemma staging_put_ok: "staging_ok f g \<Longrightarrow> staging_ok f (staging_put row g)"
  by (auto simp: staging_ok_def staging_put_def rows_keyed_update distinct_update)

lemma staging_put_ns [simp]: "staged_namespace s (staging_put row g) = staged_namespace s g"
  by (simp add: staged_namespace_def staging_put_def fun_eq_iff)

lemma staging_remove_view: "staging_view (staging_remove cid g) s = (staging_view g s)(cid := None)"
  by (auto simp: staging_view_def staging_remove_def fun_eq_iff)

lemma staging_remove_ok: "staging_ok f g \<Longrightarrow> staging_ok f (staging_remove cid g)"
  by (auto simp: staging_ok_def staging_remove_def rows_keyed_delete distinct_delete)

lemma staging_remove_ns [simp]: "staged_namespace s (staging_remove cid g) = staged_namespace s g"
  by (simp add: staged_namespace_def staging_remove_def fun_eq_iff)

lemma view_keyed:
  assumes "staging_ok f g" "rows_keyed (ms_compositions (cs_storage s))" "staging_view g s cid = Some row"
  shows "c_id row = cid"
proof -
  have "map_of (sg_puts g) cid = Some row \<or> storage_get cid (cs_storage s) = Some row"
    using assms(3) by (simp add: staging_view_def split: if_splits option.splits)
  moreover have "rows_keyed (sg_puts g)" using assms(1) by (simp add: staging_ok_def)
  ultimately show ?thesis using storage_get_keyed [OF assms(2)] rows_keyedD by blast
qed

text \<open>One staged delta is one replayed delta.\<close>

lemma stage_create_replay:
  assumes "stage_create s g d = (g', out)" "dh_operation (d_header d) = Create" "staging_ok f g"
  shows "replica_of s g' = replay_delta d (replica_of s g) \<and> staging_ok f g'"
proof (cases "decode_composition_create_payload (dp_ciphertext (d_payload d))")
  case None
  then show ?thesis using assms by (simp add: stage_create_def replica_of_def)
next
  case (Some r)
  obtain cid nid sz name lens seq where r: "r = (cid, nid, sz, name, lens, seq)" by (cases r)
  note dec = Some [unfolded r]
  show ?thesis
  proof (cases "staging_view g s cid")
    case seen: (Some row)
    then have g': "g' = bind_opt_name nid name cid seq g" using assms(1) dec by (simp add: stage_create_def)
    show ?thesis using assms(2,3) dec seen by (simp add: g' del: replay_delta.simps) (simp add: replica_of_def)
  next
    case None
    show ?thesis
    proof (cases "staged_namespace s g nid")
      case no_ns: None
      then show ?thesis using assms dec None by (simp add: stage_create_def replica_of_def)
    next
      case (Some snap)
      let ?row = "new_row cid nid snap (dh_chunk_refs (d_header d)) sz (lens_list lens)"
      have g': "g' = bind_opt_name nid name cid seq (staging_put ?row g)"
        using assms(1) dec None Some by (simp add: stage_create_def)
      show ?thesis using assms(2,3) dec None Some
        by (simp add: g' staging_put_ok del: replay_delta.simps) (simp add: replica_of_def staging_put_view)
    qed
  qed
qed

lemma stage_update_replay:
  assumes "stage_update s g d = Ok (g', out)" "dh_operation (d_header d) = Update" "staging_ok f g"
    and "rows_keyed (ms_compositions (cs_storage s))"
  shows "replica_of s g' = replay_delta d (replica_of s g) \<and> staging_ok f g'"
proof (cases "decode_composition_update_payload (dp_ciphertext (d_payload d))")
  case None
  then show ?thesis using assms by (simp add: stage_update_def replica_of_def)
next
  case (Some r)
  obtain cid sz where r: "r = (cid, sz)" by (cases r)
  note dec = Some [unfolded r]
  show ?thesis
  proof (cases "staging_view g s cid")
    case None
    then have g': "g' = g" using assms(1) dec by (simp add: stage_update_def Let_def)
    have "(staging_view g s)(cid := None) = staging_view g s" using None by (simp add: fun_eq_iff)
    then show ?thesis using assms(2,3) dec None by (simp add: g' replica_of_def)
  next
    case row: (Some row)
    let ?u = "updated_row (dh_chunk_refs (d_header d)) sz row"
    have cid: "c_id row = cid" by (rule view_keyed [OF assms(3,4) row])
    have "replica_of s g' = (staged_namespace s g, (staging_view g s)(cid \<mapsto> ?u)) \<and> staging_ok f g'"
    proof (cases "c_chunks row = dh_chunk_refs (d_header d) \<and> c_size row = sz")
      case True
      then have "g' = g" using assms(1) dec row by (simp add: stage_update_def Let_def)
      moreover have "(staging_view g s)(cid \<mapsto> row) = staging_view g s" using row by (simp add: fun_eq_iff)
      ultimately show ?thesis using True assms(3) by (simp add: updated_row_def replica_of_def)
    next
      case False
      then have "g' = staging_put ?u g"
        using assms(1) dec row by (auto simp: stage_update_def Let_def updated_row_def)
      moreover have "c_id ?u = cid" using cid by (simp add: updated_row_def)
      ultimately show ?thesis using assms(3) by (simp add: replica_of_def staging_put_view staging_put_ok)
    qed
    then show ?thesis using assms(2) dec row by (simp add: replica_of_def)
  qed
qed

lemma stage_delete_replay:
  assumes "stage_delete s g d = (g', out)" "dh_operation (d_header d) = Delete" "staging_ok f g"
  shows "replica_of s g' = replay_delta d (replica_of s g) \<and> staging_ok f g'"
proof (cases "decode_composition_delete_payload (dp_ciphertext (d_payload d))")
  case None
  then show ?thesis using assms by (simp add: stage_delete_def replica_of_def)
next
  case (Some cid)
  let ?g = "case name_for cid (cs_storage s) of Some (nid, name) \<Rightarrow> staging_unbind_name nid name None g | None \<Rightarrow> g"
  have f: "sg_puts ?g = sg_puts g" "sg_removes ?g = sg_removes g" "sg_namespace_inserts ?g = sg_namespace_inserts g"
    by (simp_all split: option.split prod.split)
  have g': "g' = staging_remove cid ?g" using assms(1) Some by (simp add: stage_delete_def Let_def)
  have "replica_of s ?g = replica_of s g" "staging_ok f ?g" using staging_frame [OF f] assms(3) by simp_all
  then show ?thesis using assms(2) Some
    by (simp add: g' staging_remove_ok) (simp add: replica_of_def staging_remove_view)
qed

lemma flip_entries_locs:
  "fst (flip_entries pool slab chunks es locs ev) = fst (flip_entries pool slab chunks es locs ev')"
  by (induction es arbitrary: locs ev ev') auto

lemma stage_migrate_replay:
  assumes "stage_migrate_chunk_locations s g d = (g', out)" "dh_operation (d_header d) = MigrateChunkLocations"
    and "staging_ok f g" "rows_keyed (ms_compositions (cs_storage s))"
  shows "replica_of s g' = replay_delta d (replica_of s g) \<and> staging_ok f g'"
proof (cases "decode_migrate_chunk_locations_payload (dp_ciphertext (d_payload d))")
  case None
  then show ?thesis using assms by (simp add: stage_migrate_chunk_locations_def replica_of_def)
next
  case (Some m)
  show ?thesis
  proof (cases "staging_view g s (mg_composition_id m)")
    case None
    then have g': "g' = g" using assms(1) Some by (simp add: stage_migrate_chunk_locations_def)
    have "(staging_view g s)(mg_composition_id m := None) = staging_view g s" using None by (simp add: fun_eq_iff)
    then show ?thesis using assms(2,3) Some None by (simp add: g' replica_of_def)
  next
    case row: (Some row)
    let ?r = "migrated_row m row"
    have cid: "c_id row = mg_composition_id m" by (rule view_keyed [OF assms(3,4) row])
    then have cid': "c_id ?r = mg_composition_id m" by (simp add: migrated_row_def)
    have nr: "mg_composition_id m \<notin> set (sg_removes g)" using row by (auto simp: staging_view_def)
    let ?ev = "snd (flip_entries (mg_pool_name m) (mg_slab_id m) (c_chunks row) (mg_entries m)
        (full_locations row) (sg_migrated_chunk_evictions g))"
    have r: "row\<lparr>c_chunk_locations := fst (flip_entries (mg_pool_name m) (mg_slab_id m) (c_chunks row) (mg_entries m)
        (full_locations row) (sg_migrated_chunk_evictions g))\<rparr> = ?r"
      unfolding migrated_row_def by (subst flip_entries_locs [where ev' = "[]"]) (rule refl)
    have g': "g' = g\<lparr>sg_migrated_chunk_evictions := ?ev, sg_puts := AList.update (mg_composition_id m) ?r (sg_puts g)\<rparr>"
      using assms(1) Some row cid by (simp add: stage_migrate_chunk_locations_def case_prod_beta Let_def r)
    have "staging_view g' s = (staging_view g s)(mg_composition_id m \<mapsto> ?r)"
      using nr by (auto simp: g' staging_view_def fun_eq_iff)
    moreover have "staged_namespace s g' = staged_namespace s g"
      by (simp add: g' staged_namespace_def fun_eq_iff)
    moreover have "staging_ok f g'"
      using assms(3) cid' nr by (auto simp: g' staging_ok_def rows_keyed_update distinct_update)
    ultimately show ?thesis using assms(2) Some row by (simp add: replica_of_def)
  qed
qed

lemma find_append: "find P (xs @ ys) = (case find P xs of Some x \<Rightarrow> Some x | None \<Rightarrow> find P ys)"
  by (induction xs) simp_all

lemma stage_namespace_replay:
  assumes "stage_namespace_create g d = (g', out)" "dh_operation (d_header d) = NamespaceCreate"
    and "staging_ok f g" "delta_agrees f d"
  shows "replica_of s g' = replay_delta d (replica_of s g) \<and> staging_ok f g'"
proof (cases "decode_namespace_create_payload (dp_ciphertext (d_payload d))")
  case None
  then show ?thesis using assms by (simp add: stage_namespace_create_def replica_of_def)
next
  case (Some ns)
  have g': "g' = g\<lparr>sg_namespace_inserts := sg_namespace_inserts g @ [ns]\<rparr>"
    using assms(1) Some by (simp add: stage_namespace_create_def)
  have a: "ns_agrees f ns" using assms(2,4) Some by (simp add: delta_agrees_def)
  have "staged_namespace s g' nid
      = (if nid = ns_id ns then Some (ns_tenant_id ns, ns_shard_id ns) else staged_namespace s g nid)" for nid
  proof (cases "find (\<lambda>n. ns_id n = nid) (sg_namespace_inserts g)")
    case None
    then have "find (\<lambda>n. ns_id n = nid) (sg_namespace_inserts g @ [ns]) = (if nid = ns_id ns then Some ns else None)"
      by (auto simp: find_append)
    with None show ?thesis by (simp add: g' staged_namespace_def)
  next
    case f: (Some n)
    then have "n \<in> set (sg_namespace_inserts g)" "ns_id n = nid" by (auto simp: find_Some_iff)
    then have "f nid = (ns_tenant_id n, ns_shard_id n)"
      using assms(3) by (auto simp: staging_ok_def list_all_iff ns_agrees_def)
    moreover have "find (\<lambda>n. ns_id n = nid) (sg_namespace_inserts g @ [ns]) = Some n"
      using f by (simp add: find_append)
    ultimately show ?thesis using f a by (auto simp: g' staged_namespace_def ns_agrees_def)
  qed
  then have "staged_namespace s g' = (staged_namespace s g)(ns_id ns \<mapsto> (ns_tenant_id ns, ns_shard_id ns))"
    by (auto simp: fun_eq_iff)
  moreover have "staging_view g' s = staging_view g s" by (simp add: g' staging_view_def fun_eq_iff)
  moreover have "staging_ok f g'" using assms(3) a by (simp add: g' staging_ok_def)
  ultimately show ?thesis using assms(2) Some by (simp add: replica_of_def)
qed

lemma stage_delta_replay:
  assumes "stage_delta s g d = Ok (g', out)" "staging_ok f g" "delta_agrees f d"
    and "rows_keyed (ms_compositions (cs_storage s))"
  shows "replica_of s g' = replay_delta d (replica_of s g) \<and> staging_ok f g'"
proof (cases "dh_operation (d_header d)")
  case Create
  then show ?thesis using assms stage_create_replay [of s g d g' out f] by (simp add: stage_delta_def del: replay_delta.simps)
next
  case Update
  then show ?thesis using assms stage_update_replay [of s g d g' out f] by (simp add: stage_delta_def del: replay_delta.simps)
next
  case Delete
  then show ?thesis using assms stage_delete_replay [of s g d g' out f] by (simp add: stage_delta_def del: replay_delta.simps)
next
  case NamespaceCreate
  then show ?thesis using assms stage_namespace_replay [of g d g' out f s] by (simp add: stage_delta_def del: replay_delta.simps)
next
  case MigrateChunkLocations
  then show ?thesis using assms stage_migrate_replay [of s g d g' out f] by (simp add: stage_delta_def del: replay_delta.simps)
qed (use assms in \<open>simp_all add: stage_delta_def replica_of_def\<close>)

end
