(* ===== verification/Hydrator_Runs.thy ===== *)
theory Hydrator_Runs
  imports Hydrator
begin

text \<open>
  Runs of the hydrator over a growing log. A follower's rows and namespaces are a function of the log
  prefix it has applied, whatever the batch windows, retries and restarts along the way; a delta that
  cannot be applied never holds up the shard for more than the retry threshold; every row a reader gets
  through the cache is the current one in all runs of a node; and the name index, unlike the rows, does
  depend on how the deltas were batched.
\<close>

section \<open>One poll\<close>

definition next_retries :: "(nat \<times> nat) option \<Rightarrow> nat \<Rightarrow> nat" where
  "next_retries prior seq =
     (case prior of Some (at, r) \<Rightarrow> if at = seq then min (r + 1) u32_max else 1 | None \<Rightarrow> 1)"

lemma stage_transient: "stage_delta s g d = Ok (g', TransientSkip reason) \<Longrightarrow> g' = g"
  by (auto simp: stage_delta_def stage_create_def stage_update_def stage_delete_def stage_namespace_create_def
      stage_migrate_chunk_locations_def Let_def split: OperationType.splits option.splits if_splits prod.splits)

lemma note_transient:
  "note_outcome thr prior d (TransientSkip reason) l =
     (if next_retries prior (d_seq d) \<ge> thr then l\<lparr>pl_last := d_seq d, pl_stuck := None\<rparr>
      else l\<lparr>pl_stuck := Some (d_seq d, next_retries prior (d_seq d)), pl_stop := True\<rparr>)"
  by (cases prior) (auto simp: note_outcome_def next_retries_def u32_max_val split: if_splits)

definition loop_result ::
    "'l CompositionStore \<Rightarrow> nat \<Rightarrow> (nat \<times> nat) option \<Rightarrow> Delta list \<Rightarrow> PollLoop \<Rightarrow> nat \<Rightarrow> PollLoop \<Rightarrow> bool" where
  "loop_result s thr prior ds l k l' \<longleftrightarrow>
     k \<le> length ds
     \<and> replica_of s (pl_staging l') = fold replay_delta (take k ds) (replica_of s (pl_staging l))
     \<and> pl_last l' = (if k = 0 then pl_last l else d_seq (ds ! (k - 1)))
     \<and> (if pl_stop l'
        then k < length ds \<and> next_retries prior (d_seq (ds ! k)) < thr
             \<and> pl_stuck l' = Some (d_seq (ds ! k), next_retries prior (d_seq (ds ! k)))
        else k = length ds)"

lemma loop_result_Cons:
  assumes "loop_result s thr prior ds l1 k l'" "\<not> pl_stop l1" "pl_last l1 = d_seq d"
    and "replica_of s (pl_staging l1) = replay_delta d (replica_of s (pl_staging l))"
  shows "loop_result s thr prior (d # ds) l (Suc k) l'"
  using assms by (cases k) (auto simp: loop_result_def)

lemma poll_loop_stopped: "pl_stop l \<Longrightarrow> poll_loop s thr prior ds l = Ok l"
  by (cases ds) simp_all

lemma poll_loop_replay:
  assumes "rows_keyed (ms_compositions (cs_storage s))"
  shows "poll_loop s thr prior ds l = Ok l' \<Longrightarrow> \<not> pl_stop l \<Longrightarrow> staging_ok f (pl_staging l) \<Longrightarrow>
    list_all (delta_agrees f) ds \<Longrightarrow>
    (\<exists>k. loop_result s thr prior ds l k l') \<and> staging_ok f (pl_staging l')"
proof (induction ds arbitrary: l)
  case Nil
  then show ?case by (auto simp: loop_result_def)
next
  case (Cons d ds)
  obtain g out where st: "stage_delta s (pl_staging l) d = Ok (g, out)"
    and rest: "poll_loop s thr prior ds (note_outcome thr prior d out (l\<lparr>pl_staging := g\<rparr>)) = Ok l'"
    using Cons.prems(1,2) by auto
  have r: "replica_of s g = replay_delta d (replica_of s (pl_staging l))" and ok: "staging_ok f g"
    using stage_delta_replay [OF st Cons.prems(3) _ assms] Cons.prems(4) by simp_all
  let ?l = "note_outcome thr prior d out (l\<lparr>pl_staging := g\<rparr>)"
  have g: "pl_staging ?l = g" by (simp add: note_outcome_def Let_def split: DeltaOutcome.split prod.split)
  show ?case
  proof (cases "pl_stop ?l")
    case False
    then have last: "pl_last ?l = d_seq d"
      by (cases out) (auto simp: note_outcome_def [of _ _ _ Applied] note_outcome_def [of _ _ _ "PermanentSkip _"]
          note_transient split: if_splits)
    from Cons.IH [OF rest False] g ok Cons.prems(4)
    obtain k where "loop_result s thr prior ds ?l k l'" "staging_ok f (pl_staging l')" by auto
    with loop_result_Cons [OF this(1) False last] g r show ?thesis by auto
  next
    case True
    then obtain reason where out: "out = TransientSkip reason"
      using Cons.prems(2) by (cases out) (simp_all add: note_outcome_def)
    have "g = pl_staging l" using stage_transient st out by blast
    moreover have "l' = ?l" using rest True by (simp add: poll_loop_stopped)
    ultimately have "loop_result s thr prior (d # ds) l 0 l'"
      using True Cons.prems(2) by (auto simp: loop_result_def out note_transient split: if_splits)
    then show ?thesis using ok g \<open>l' = ?l\<close> by auto
  qed
qed

section \<open>Committing a poll\<close>

definition ns_pair :: "Namespace \<Rightarrow> nat \<times> nat" where
  "ns_pair ns = (ns_tenant_id ns, ns_shard_id ns)"

definition store_replica :: "'l CompositionStore \<Rightarrow> replica" where
  "store_replica s = (\<lambda>nid. map_option ns_pair (store_namespace s nid), \<lambda>cid. storage_get cid (cs_storage s))"

lemma store_replica_default: "replica_of s staging_default = store_replica s"
  by (simp add: replica_of_def store_replica_def staged_namespace_def staging_view_def staging_default_def
      ns_pair_def fun_eq_iff split: option.split)

lemma fold_add_namespace:
  "cs_storage (fold add_namespace nss s) = cs_storage s"
  "cs_pending (fold add_namespace nss s) = cs_pending s"
  "store_namespace (fold add_namespace nss s) nid
     = (case find (\<lambda>n. ns_id n = nid) (rev nss) of Some ns \<Rightarrow> Some ns | None \<Rightarrow> store_namespace s nid)"
  by (induction nss arbitrary: s)
    (auto simp: add_namespace_def store_namespace_def find_append split: option.split)

lemma release_touched_follower:
  assumes "cs_pending s = []"
  shows "cs_storage (fold (release_touched L) ids s) = cs_storage s
    \<and> cs_namespaces (fold (release_touched L) ids s) = cs_namespaces s
    \<and> cs_pending (fold (release_touched L) ids s) = []"
  using assms by (induction ids arbitrary: s)
    (simp_all add: release_touched_def drain_pending_def invalidate_cache_def Let_def)

lemma find_agree:
  assumes "list_all (ns_agrees f) nss"
  shows "map_option ns_pair (find (\<lambda>n. ns_id n = nid) (rev nss))
    = map_option ns_pair (find (\<lambda>n. ns_id n = nid) nss)"
proof -
  have *: "map_option ns_pair (find (\<lambda>n. ns_id n = nid) xs)
      = (if \<exists>n \<in> set nss. ns_id n = nid then Some (f nid) else None)" if "set xs = set nss" for xs
  proof (cases "find (\<lambda>n. ns_id n = nid) xs")
    case None
    then show ?thesis using that by (auto simp: find_None_iff)
  next
    case (Some n)
    then have "n \<in> set nss" "ns_id n = nid" using that by (auto simp: find_Some_iff)
    then show ?thesis using assms Some by (auto simp: list_all_iff ns_agrees_def ns_pair_def)
  qed
  show ?thesis using * [of "rev nss"] * [of nss] by simp
qed

lemma keyed_puts:
  assumes "rows_keyed m" "distinct (map fst m)"
  shows "map_of (rev (map (\<lambda>r. (c_id r, r)) (map snd m))) = map_of m"
proof -
  have "(c_id (snd e), snd e) = e" if "e \<in> set m" for e
  proof -
    have "map_of m (fst e) = Some (snd e)" using that assms(2) by simp
    then show ?thesis using rows_keyedD [OF assms(1)] by simp
  qed
  then have "map (\<lambda>r. (c_id r, r)) (map snd m) = m" by (simp add: map_idI)
  moreover have "map_of (rev m) = map_of m"
    using assms(2) by (subst map_of_inject_set) (simp_all flip: rev_map)
  ultimately show ?thesis by simp
qed

lemma commit_poll_follower:
  assumes "commit_poll L s h l = Ok (s', h', n, ev)" "cs_pending s = []" "staging_ok f (pl_staging l)"
  shows "store_replica s' = replica_of s (pl_staging l) \<and> cs_pending s' = []
    \<and> hy_last_applied_cache h' = pl_last l \<and> hy_shard_id h' = hy_shard_id h
    \<and> hy_halted_cache h' = hy_halted_cache h
    \<and> hy_transient_retry_threshold h' = hy_transient_retry_threshold h \<and> hy_batch_window h' = hy_batch_window h
    \<and> last_applied_seq (hy_shard_id h) (cs_storage s') = pl_last l
    \<and> storage_halted (hy_shard_id h) (cs_storage s') = storage_halted (hy_shard_id h) (cs_storage s)
    \<and> stuck_state (hy_shard_id h) (cs_storage s') = (if pl_stop l then pl_stuck l else None)"
proof -
  let ?g = "pl_staging l" and ?b = "staged_batch (hy_shard_id h) l"
  let ?s1 = "fold add_namespace (sg_namespace_inserts ?g) s"
  let ?s2 = "?s1\<lparr>cs_storage := apply_hydration_batch ?b (cs_storage ?s1)\<rparr>"
  have s': "s' = fold (release_touched L) (touched_ids ?b) ?s2" and h': "h' = h\<lparr>hy_last_applied_cache := pl_last l\<rparr>"
    using assms(1) by (simp_all add: commit_poll_def Let_def)
  have p: "cs_pending ?s2 = []" using assms(2) by (simp add: fold_add_namespace)
  note r = release_touched_follower [OF p, of L "touched_ids ?b", folded s']
  have st: "cs_storage s' = apply_hydration_batch ?b (cs_storage s)"
    using r by (simp add: fold_add_namespace)
  have ok: "rows_keyed (sg_puts ?g)" "distinct (map fst (sg_puts ?g))" "list_all (ns_agrees f) (sg_namespace_inserts ?g)"
    "\<forall>cid \<in> set (sg_removes ?g). map_of (sg_puts ?g) cid = None"
    using assms(3) by (simp_all add: staging_ok_def)
  have "storage_get cid (cs_storage s') = staging_view ?g s cid" for cid
    unfolding st apply_hydration_batch_rows
    using keyed_puts [OF ok(1,2)]
    by (simp add: staged_batch_def staging_view_def storage_get_def map_add_def split: option.split)
  moreover have "map_option ns_pair (store_namespace s' nid) = staged_namespace s ?g nid" for nid
  proof -
    have "store_namespace s' nid = store_namespace ?s1 nid" using r by (simp add: store_namespace_def)
    then show ?thesis using find_agree [OF ok(3), of nid]
      by (cases "find (\<lambda>n. ns_id n = nid) (sg_namespace_inserts ?g)";
          cases "find (\<lambda>n. ns_id n = nid) (rev (sg_namespace_inserts ?g))";
          cases "store_namespace s nid")
        (simp_all add: fold_add_namespace staged_namespace_def ns_pair_def)
  qed
  ultimately have "store_replica s' = replica_of s ?g"
    by (simp add: store_replica_def replica_of_def fun_eq_iff)
  then show ?thesis using r [THEN conjunct2]
    by (simp add: h' st apply_hydration_batch_meta) (simp add: staged_batch_def)
qed

section \<open>A follower over a growing log\<close>

text \<open>The deltas of one shard, numbered from 1 without gaps, and what a read of a window returns. On the
  in-memory log this is \<open>read_deltas\<close>; its \<^verbatim>\<open>earliest_visible_seq\<close> is the trait's default.\<close>

definition window_reader :: "Delta list \<Rightarrow> ReadDeltasRequest \<Rightarrow> (LogError, Delta list) res" where
  "window_reader ds req = Ok (filter (\<lambda>d. d_seq d \<ge> rr_from req \<and> d_seq d \<le> rr_to req) ds)"

definition earliest_visible_seq_default :: "nat \<Rightarrow> (LogError, nat) res" where
  "earliest_visible_seq_default shard = Ok 0"

lemma read_deltas_window:
  "ms_shards st (rr_shard_id req) = Some sh \<Longrightarrow> rr_from req \<le> rr_to req \<Longrightarrow>
     read_deltas req st = window_reader (sh_deltas sh) req"
  by (simp add: read_deltas_def window_reader_def)

definition numbered :: "Delta list \<Rightarrow> bool" where
  "numbered ds \<longleftrightarrow> (\<forall>i < length ds. d_seq (ds ! i) = i + 1)"

lemma numbered_filter:
  assumes "numbered ds" "a \<le> b"
  shows "filter (\<lambda>d. d_seq d \<ge> a + 1 \<and> d_seq d \<le> b) ds = take (b - a) (drop a ds)"
proof -
  have ds: "ds = take a ds @ take (b - a) (drop a ds) @ drop b ds"
    using assms(2) by (metis append_take_drop_id drop_drop le_add_diff_inverse2)
  have "d_seq d \<le> a" if "d \<in> set (take a ds)" for d
    using that assms(1) by (fastforce simp: in_set_conv_nth numbered_def)
  moreover have "a + 1 \<le> d_seq d \<and> d_seq d \<le> b" if "d \<in> set (take (b - a) (drop a ds))" for d
    using that assms by (fastforce simp: in_set_conv_nth numbered_def)
  moreover have "b < d_seq d" if "d \<in> set (drop b ds)" for d
    using that assms(1) by (fastforce simp: in_set_conv_nth numbered_def)
  ultimately have "filter (\<lambda>d. d_seq d \<ge> a + 1 \<and> d_seq d \<le> b) (take a ds) = []"
    "filter (\<lambda>d. d_seq d \<ge> a + 1 \<and> d_seq d \<le> b) (drop b ds) = []"
    "filter (\<lambda>d. d_seq d \<ge> a + 1 \<and> d_seq d \<le> b) (take (b - a) (drop a ds)) = take (b - a) (drop a ds)"
    by (fastforce simp: filter_empty_conv filter_id_conv)+
  then show ?thesis by (subst ds) (simp only: filter_append append.simps append_Nil2)
qed

definition follower_inv ::
    "(nat \<Rightarrow> nat \<times> nat) \<Rightarrow> replica \<Rightarrow> Delta list \<times> 'l CompositionStore \<times> CompositionHydrator \<Rightarrow> bool" where
  "follower_inv f R st =
     (case st of (ds, s, h) \<Rightarrow>
        numbered ds \<and> length ds < u64_max \<and> list_all (delta_agrees f) ds
        \<and> cs_pending s = [] \<and> rows_keyed (ms_compositions (cs_storage s))
        \<and> hy_last_applied_cache h \<le> length ds \<and> \<not> hy_halted_cache h
        \<and> last_applied_seq (hy_shard_id h) (cs_storage s) = hy_last_applied_cache h
        \<and> \<not> storage_halted (hy_shard_id h) (cs_storage s)
        \<and> store_replica s = fold replay_delta (take (hy_last_applied_cache h) ds) R)"

text \<open>What a poll of a caught-up or lagging follower does.\<close>

definition polled :: "Delta list \<Rightarrow> CompositionHydrator \<Rightarrow> Delta list" where
  "polled ds h =
     (let last = hy_last_applied_cache h in
      take (min (last + 1 + (hy_batch_window h - 1)) u64_max - last) (drop last ds))"

lemma poll_cases:
  assumes inv: "follower_inv f R (ds, s, h)"
    and p: "poll L (window_reader ds) earliest_visible_seq_default s h = Ok (s', h', n, ev)"
  obtains (idle) "polled ds h = []" "s' = s" "h' = h"
  | (busy) l where "polled ds h \<noteq> []"
      "poll_loop s (hy_transient_retry_threshold h) (stuck_state (hy_shard_id h) (cs_storage s)) (polled ds h)
         \<lparr>pl_staging = staging_default, pl_last = hy_last_applied_cache h, pl_applied = 0, pl_stuck = None,
          pl_stop = False\<rparr> = Ok l"
      "commit_poll L s h l = Ok (s', h', n, ev)"
proof -
  let ?last = "hy_last_applied_cache h"
  have last: "?last + 1 \<le> u64_max" "numbered ds" "\<not> hy_halted_cache h"
    using inv by (auto simp: follower_inv_def)
  have req: "poll_window h = \<lparr>rr_shard_id = hy_shard_id h, rr_from = ?last + 1,
      rr_to = min (?last + 1 + (hy_batch_window h - 1)) u64_max\<rparr>"
    using last(1) by (simp add: poll_window_def min_absorb1 Let_def)
  have rd: "window_reader ds (poll_window h) = Ok (polled ds h)"
    using numbered_filter [OF last(2), of ?last "min (?last + 1 + (hy_batch_window h - 1)) u64_max"] last(1)
    by (simp add: req window_reader_def polled_def Let_def)
  show thesis
  proof (cases "polled ds h")
    case Nil
    then have "poll L (window_reader ds) earliest_visible_seq_default s h = Ok (s, h, 0, [])"
      using last(3) by (simp add: poll_def Let_def rd earliest_visible_seq_default_def)
    then show thesis using p idle Nil by simp
  next
    case (Cons d ds')
    have "ds ! ?last = d \<and> ?last < length ds"
      using Cons by (metis (no_types, lifting) hd_drop_conv_nth hd_take list.distinct(1) list.sel(1) polled_def
          take_eq_Nil drop_eq_Nil linorder_not_le bot_nat_0.not_eq_extremum)
    then have "d_seq d = ?last + 1" using last(2) by (auto simp: numbered_def)
    then have "\<not> d_seq d > rr_from (poll_window h)" by (simp add: req)
    then have "poll L (window_reader ds) earliest_visible_seq_default s h = bind_res (poll_loop s
        (hy_transient_retry_threshold h) (stuck_state (hy_shard_id h) (cs_storage s)) (polled ds h)
        \<lparr>pl_staging = staging_default, pl_last = ?last, pl_applied = 0, pl_stuck = None, pl_stop = False\<rparr>)
        (commit_poll L s h)" (is "_ = bind_res ?loop _")
      using last(3) by (simp add: poll_def Let_def rd Cons del: poll_loop.simps)
    with p obtain l where "?loop = Ok l" "commit_poll L s h l = Ok (s', h', n, ev)"
      by (cases ?loop) (simp_all del: poll_loop.simps)
    with busy show thesis by (simp add: Cons del: poll_loop.simps)
  qed
qed

lemma apply_batch_keyed:
  assumes "rows_keyed (ms_compositions st)"
  shows "rows_keyed (ms_compositions (apply_hydration_batch b st))"
proof -
  have "map_of (rev (map (\<lambda>r. (c_id r, r)) rs)) i = Some row \<Longrightarrow> c_id row = i" for rs i row
    by (auto dest: map_of_SomeD)
  then have "c_id row = i" if "storage_get i (apply_hydration_batch b st) = Some row" for i row
    using that rows_keyedD [OF assms]
    by (auto simp: apply_hydration_batch_rows map_add_Some_iff split: if_splits)
  then show ?thesis by (simp add: rows_keyed_def storage_get_def)
qed

lemma commit_poll_storage:
  assumes "commit_poll L s h l = Ok (s', h', n, ev)" "cs_pending s = []"
  shows "cs_storage s' = apply_hydration_batch (staged_batch (hy_shard_id h) l) (cs_storage s)"
proof -
  let ?b = "staged_batch (hy_shard_id h) l"
  let ?t = "(fold add_namespace (sg_namespace_inserts (pl_staging l)) s)\<lparr>cs_storage := apply_hydration_batch ?b (cs_storage s)\<rparr>"
  have "s' = fold (release_touched L) (touched_ids ?b) ?t"
    using assms(1) by (simp add: commit_poll_def Let_def fold_add_namespace)
  then show ?thesis using assms(2) release_touched_follower [of ?t L "touched_ids ?b"] by (simp add: fold_add_namespace)
qed

lemma poll_advances:
  assumes inv: "follower_inv f R (ds, s, h)"
    and p: "poll L (window_reader ds) earliest_visible_seq_default s h = Ok (s', h', n, ev)"
  shows "follower_inv f R (ds, s', h') \<and> hy_shard_id h' = hy_shard_id h
    \<and> hy_transient_retry_threshold h' = hy_transient_retry_threshold h
    \<and> (hy_last_applied_cache h' > hy_last_applied_cache h
       \<or> hy_last_applied_cache h' = hy_last_applied_cache h \<and>
         (hy_last_applied_cache h = length ds
          \<or> (let at = hy_last_applied_cache h + 1;
                 r = next_retries (stuck_state (hy_shard_id h) (cs_storage s)) at
             in stuck_state (hy_shard_id h) (cs_storage s') = Some (at, r) \<and> r < hy_transient_retry_threshold h)))"
  using inv p
proof (cases rule: poll_cases)
  case idle
  have "hy_last_applied_cache h < u64_max" "hy_last_applied_cache h \<le> length ds"
    using inv by (auto simp: follower_inv_def)
  with idle(1) have "hy_last_applied_cache h = length ds" by (auto simp: polled_def Let_def)
  then show ?thesis using idle inv by simp
next
  case (busy l)
  let ?last = "hy_last_applied_cache h" and ?xs = "polled ds h"
  let ?thr = "hy_transient_retry_threshold h" and ?prior = "stuck_state (hy_shard_id h) (cs_storage s)"
  have I: "numbered ds" "length ds < u64_max" "list_all (delta_agrees f) ds" "cs_pending s = []"
    "rows_keyed (ms_compositions (cs_storage s))" "?last \<le> length ds" "\<not> hy_halted_cache h"
    "\<not> storage_halted (hy_shard_id h) (cs_storage s)"
    "store_replica s = fold replay_delta (take ?last ds) R"
    using inv by (simp_all add: follower_inv_def)
  have agree: "list_all (delta_agrees f) ?xs"
    using I(3) by (auto simp: list_all_iff polled_def Let_def dest!: in_set_takeD in_set_dropD)
  obtain k where k: "loop_result s ?thr ?prior ?xs \<lparr>pl_staging = staging_default, pl_last = ?last, pl_applied = 0,
      pl_stuck = None, pl_stop = False\<rparr> k l" and ok: "staging_ok f (pl_staging l)"
    using poll_loop_replay [OF I(5) busy(2) _ _ agree] by auto
  note c = commit_poll_follower [OF busy(3) I(4) ok]
  have le: "k \<le> length ?xs" using k by (simp add: loop_result_def)
  have xs: "take k ?xs = take k (drop ?last ds)" "length ?xs \<le> length ds - ?last"
    using le by (simp_all add: polled_def Let_def min_absorb1)
  have nth: "d_seq (?xs ! i) = ?last + i + 1" if "i < length ?xs" for i
    using that I(1,6) by (simp add: polled_def numbered_def Let_def less_diff_conv add.commute)
  have last: "pl_last l = ?last + k"
    using k le nth [of "k - 1"] by (cases k) (simp_all add: loop_result_def)
  have "replica_of s (pl_staging l) = fold replay_delta (take k (drop ?last ds)) (store_replica s)"
    using k xs(1) by (simp add: loop_result_def store_replica_default)
  then have "store_replica s' = fold replay_delta (take (?last + k) ds) R"
    using c I(9) by (simp add: take_add)
  moreover have "rows_keyed (ms_compositions (cs_storage s'))"
    unfolding commit_poll_storage [OF busy(3) I(4)] using I(5) by (rule apply_batch_keyed)
  ultimately have inv': "follower_inv f R (ds, s', h')"
    using I c last le xs(2) by (simp add: follower_inv_def)
  show ?thesis
  proof (cases "k = 0")
    case False
    then show ?thesis using c last inv' by simp
  next
    case True
    then have "pl_stop l" "pl_stuck l = Some (?last + 1, next_retries ?prior (?last + 1))"
      "next_retries ?prior (?last + 1) < ?thr"
      using k busy(1) nth [of 0] by (auto simp: loop_result_def split: if_splits)
    then show ?thesis using True c last inv' by (simp add: Let_def)
  qed
qed

text \<open>The runs: the log grows, the follower polls with whatever window is set, reads through its cache,
  and its hydrator is restarted over the durable state.\<close>

inductive follower_step ::
    "(nat \<Rightarrow> nat \<times> nat) \<Rightarrow> 'l LruCache \<Rightarrow> Delta list \<times> 'l CompositionStore \<times> CompositionHydrator \<Rightarrow>
       Delta list \<times> 'l CompositionStore \<times> CompositionHydrator \<Rightarrow> bool"
  for f :: "nat \<Rightarrow> nat \<times> nat" and L :: "'l LruCache" where
  fs_append: "d_seq d = length ds + 1 \<Longrightarrow> length ds + 1 < u64_max \<Longrightarrow> delta_agrees f d \<Longrightarrow>
     follower_step f L (ds, s, h) (ds @ [d], s, h)"
| fs_poll: "poll L (window_reader ds) earliest_visible_seq_default s h = Ok (s', h', n, ev) \<Longrightarrow>
     follower_step f L (ds, s, h) (ds, s', h')"
| fs_window: "follower_step f L (ds, s, h) (ds, s, with_batch_window w h)"
| fs_restart: "follower_step f L (ds, s, h) (ds, s, hydrator_new s (hy_shard_id h) threshold w)"
| fs_read: "follower_step f L (ds, s, h) (ds, fst (cs_get L cid s), h)"

definition follower_init ::
    "replica \<Rightarrow> Delta list \<times> 'l CompositionStore \<times> CompositionHydrator \<Rightarrow> bool" where
  "follower_init R st =
     (case st of (ds, s, h) \<Rightarrow>
        ds = [] \<and> cs_pending s = [] \<and> cs_storage s = memory_storage_new \<and> R = store_replica s
        \<and> (\<exists>shard threshold w. h = hydrator_new s shard threshold w))"

lemma cs_get_frame:
  "cs_storage (fst (cs_get L cid s)) = cs_storage s" "cs_pending (fst (cs_get L cid s)) = cs_pending s"
  "cs_namespaces (fst (cs_get L cid s)) = cs_namespaces s"
  by (simp_all add: cs_get_def Let_def split: option.split prod.split)

lemma follower_step_inv:
  assumes "follower_step f L st st'" "follower_inv f R st"
  shows "follower_inv f R st'"
  using assms
proof (induction rule: follower_step.induct)
  case (fs_append d ds s h)
  then show ?case by (auto simp: follower_inv_def numbered_def nth_append less_Suc_eq)
next
  case (fs_poll ds s h s' h' n ev)
  then show ?case using poll_advances by blast
qed (simp_all add: follower_inv_def with_batch_window_def hydrator_new_def cs_get_frame store_replica_def
    store_namespace_def)

interpretation follower_runs: invariant_system "follower_init R" "follower_step f L" "follower_inv f R"
  for R f L
proof (unfold_locales, goal_cases)
  case (1 st)
  then obtain s shard threshold w where st: "st = ([], s, hydrator_new s shard threshold w)"
    and p: "cs_pending s = []" and m: "cs_storage s = memory_storage_new" and R: "R = store_replica s"
    by (cases st) (simp add: follower_init_def, metis)
  have "last_applied_seq shard (cs_storage s) = 0" "\<not> storage_halted shard (cs_storage s)"
    "rows_keyed (ms_compositions (cs_storage s))" "0 < u64_max"
    unfolding m by (simp_all add: memory_storage_new_def rows_keyed_def last_applied_seq_def storage_halted_def u64_max_val)
  then show ?case unfolding st R
    using p by (simp add: follower_inv_def numbered_def hydrator_new_def)
next
  case (2 st st')
  show ?case using 2(2,1) by (rule follower_step_inv)
qed


section \<open>A delta that cannot be applied does not hold up the shard\<close>

fun polls ::
    "'l LruCache \<Rightarrow> Delta list \<Rightarrow> nat \<Rightarrow> 'l CompositionStore \<times> CompositionHydrator \<Rightarrow>
       (unit, 'l CompositionStore \<times> CompositionHydrator) res" where
  "polls L ds 0 sh = Ok sh"
| "polls L ds (Suc n) sh =
     bind_res (polls L ds n sh) (\<lambda>(s, h).
       bind_res (poll L (window_reader ds) earliest_visible_seq_default s h) (\<lambda>(s, h, _). Ok (s, h)))"

lemma next_retries_ge:
  "1 \<le> next_retries prior at"
  "r < u32_max \<Longrightarrow> next_retries (Some (at, r)) at = r + 1"
  by (auto simp: next_retries_def u32_max_val split: option.split)

lemma polls_progress:
  assumes "follower_inv f R (ds, s, h)" "hy_last_applied_cache h < length ds"
    "hy_transient_retry_threshold h \<le> u32_max"
  shows "polls L ds n (s, h) = Ok (s', h') \<Longrightarrow>
    follower_inv f R (ds, s', h') \<and> hy_shard_id h' = hy_shard_id h
    \<and> hy_transient_retry_threshold h' = hy_transient_retry_threshold h
    \<and> (hy_last_applied_cache h' > hy_last_applied_cache h
       \<or> hy_last_applied_cache h' = hy_last_applied_cache h
         \<and> (n = 0 \<or> (\<exists>r. stuck_state (hy_shard_id h) (cs_storage s') = Some (hy_last_applied_cache h + 1, r)
              \<and> n \<le> r \<and> r < hy_transient_retry_threshold h)))"
proof (induction n arbitrary: s' h')
  case 0
  then show ?case using assms(1) by simp
next
  case (Suc n)
  obtain s1 h1 m ev where p1: "polls L ds n (s, h) = Ok (s1, h1)"
    and p2: "poll L (window_reader ds) earliest_visible_seq_default s1 h1 = Ok (s', h', m, ev)"
    using Suc.prems by auto
  note i1 = Suc.IH [OF p1]
  then have inv1: "follower_inv f R (ds, s1, h1)" by blast
  note a = poll_advances [OF inv1 p2]
  let ?last = "hy_last_applied_cache h" and ?thr = "hy_transient_retry_threshold h"
  consider "hy_last_applied_cache h' > ?last"
    | "hy_last_applied_cache h1 = ?last" "hy_last_applied_cache h' = ?last"
    using i1 a by linarith
  then show ?case
  proof cases
    case 1
    then show ?thesis using i1 a by simp
  next
    case 2
    let ?r = "next_retries (stuck_state (hy_shard_id h) (cs_storage s1)) (?last + 1)"
    have stuck: "stuck_state (hy_shard_id h) (cs_storage s') = Some (?last + 1, ?r)" "?r < ?thr"
      using a i1 2 assms(2) by (auto simp: Let_def)
    have "Suc n \<le> ?r"
    proof (cases n)
      case 0
      then show ?thesis using next_retries_ge(1) by simp
    next
      case (Suc n0)
      then obtain r where "stuck_state (hy_shard_id h) (cs_storage s1) = Some (?last + 1, r)" "n \<le> r" "r < ?thr"
        using i1 2 by auto
      then show ?thesis using next_retries_ge(2) [of r "?last + 1"] assms(3) by simp
    qed
    then show ?thesis using stuck i1 a 2 by auto
  qed
qed


section \<open>What the stored rows look like\<close>

definition row_typed :: "(nat \<Rightarrow> (nat \<times> nat) option) \<Rightarrow> nat \<Rightarrow> Composition \<Rightarrow> bool" where
  "row_typed nss cid row \<longleftrightarrow>
     c_id row = cid \<and> 1 \<le> c_version row \<and> c_has_inline_data row = inline_flag (c_chunks row) (c_size row)
     \<and> nss (c_namespace_id row) = Some (c_tenant_id row, c_shard_id row)"

definition replica_typed :: "(nat \<Rightarrow> nat \<times> nat) \<Rightarrow> replica \<Rightarrow> bool" where
  "replica_typed f R \<longleftrightarrow>
     (\<forall>nid p. fst R nid = Some p \<longrightarrow> p = f nid) \<and> (\<forall>cid row. snd R cid = Some row \<longrightarrow> row_typed (fst R) cid row)"

lemma replay_delta_typed:
  assumes "replica_typed f R" "delta_agrees f d"
  shows "replica_typed f (replay_delta d R)"
proof (cases R)
  case (Pair nss rows)
  note t = assms(1) [unfolded Pair]
  show ?thesis
  proof (cases "dh_operation (d_header d)")
    case Create
    then show ?thesis using t
      by (auto simp: Pair replica_typed_def row_typed_def new_row_def split: option.split prod.split)
  next
    case Update
    then show ?thesis using t
      by (auto simp: Pair replica_typed_def row_typed_def updated_row_def split: option.split prod.split)
  next
    case MigrateChunkLocations
    then show ?thesis using t
      by (auto simp: Pair replica_typed_def row_typed_def migrated_row_def split: option.split prod.split)
  next
    case NamespaceCreate
    then show ?thesis using t assms(2)
      by (auto simp: Pair replica_typed_def row_typed_def delta_agrees_def ns_agrees_def split: option.splits)
        (metis prod.inject)+
  qed (use t in \<open>auto simp: Pair replica_typed_def row_typed_def split: option.split\<close>)
qed

lemma replay_typed:
  "replica_typed f R \<Longrightarrow> list_all (delta_agrees f) ds \<Longrightarrow> replica_typed f (fold replay_delta ds R)"
  by (induction ds arbitrary: R) (simp_all add: replay_delta_typed del: replay_delta.simps)

text \<open>C29: Every row a follower has stored is well typed in every run: it is filed under its own id, has a
  version of at least 1, carries the inline flag its size and chunk list call for, and the tenant and shard of
  the namespace it belongs to, which is registered.\<close>

theorem follower_rows_typed:
  assumes "reach (follower_init R) (follower_step f L) (ds, s, h)" "replica_typed f R"
    "storage_get cid (cs_storage s) = Some row"
  shows "c_id row = cid \<and> 1 \<le> c_version row
    \<and> c_has_inline_data row = inline_flag (c_chunks row) (c_size row)
    \<and> (\<exists>ns. store_namespace s (c_namespace_id row) = Some ns
         \<and> ns_tenant_id ns = c_tenant_id row \<and> ns_shard_id ns = c_shard_id row)"
proof -
  have inv: "follower_inv f R (ds, s, h)" by (rule follower_runs.reach_inv [OF assms(1)])
  then have "list_all (delta_agrees f) (take (hy_last_applied_cache h) ds)"
    by (auto simp: follower_inv_def list_all_iff dest: in_set_takeD)
  from replay_typed [OF assms(2) this] have "replica_typed f (store_replica s)"
    using inv by (simp add: follower_inv_def)
  then have "row_typed (fst (store_replica s)) cid row"
    using assms(3) by (simp add: replica_typed_def store_replica_def)
  then show ?thesis by (auto simp: row_typed_def store_replica_def ns_pair_def)
qed

section \<open>Runs of a node: the store's operations and its hydrator\<close>

text \<open>Draining one overlay entry leaves the cache alone but for the merged row's entry.\<close>

lemma drain_pending_cache:
  "\<exists>b j. \<forall>c. drain_pending L cid (s\<lparr>cs_read_cache := c\<rparr>)
     = (drain_pending L cid s)\<lparr>cs_read_cache := if b then lru_pop L j c else c\<rparr>"
proof (cases "map_of (cs_pending s) cid")
  case None
  then have "\<forall>c. drain_pending L cid (s\<lparr>cs_read_cache := c\<rparr>)
     = (drain_pending L cid s)\<lparr>cs_read_cache := if False then lru_pop L 0 c else c\<rparr>"
    by (simp add: drain_pending_def Let_def)
  then show ?thesis by blast
next
  case (Some row)
  then have "\<forall>c. drain_pending L cid (s\<lparr>cs_read_cache := c\<rparr>)
     = (drain_pending L cid s)\<lparr>cs_read_cache :=
         if (case storage_get (c_id row) (cs_storage s) of
               Some durable \<Rightarrow> c_content_type row \<noteq> None \<and> c_content_type durable \<noteq> c_content_type row | None \<Rightarrow> False)
         then lru_pop L (case storage_get (c_id row) (cs_storage s) of Some durable \<Rightarrow> c_id durable | None \<Rightarrow> 0) c
         else c\<rparr>"
    by (auto simp: drain_pending_def merge_drained_overlay_metadata_def put_row_def Let_def split: option.split)
  then show ?thesis by blast
qed

lemma release_touched_inv:
  assumes "lru_laws L"
  shows "store_inv L (s\<lparr>cs_read_cache := fold (lru_pop L) ids (cs_read_cache s)\<rparr>) \<Longrightarrow>
    store_inv L (fold (release_touched L) ids s)"
proof (induction ids arbitrary: s)
  case Nil
  then show ?case by simp
next
  case (Cons cid ids)
  let ?c = "lru_pop L cid (cs_read_cache s)" and ?pop = "fold (lru_pop L) ids"
  obtain b j where d: "\<And>c. drain_pending L cid (s\<lparr>cs_read_cache := c\<rparr>)
     = (drain_pending L cid s)\<lparr>cs_read_cache := if b then lru_pop L j c else c\<rparr>"
    using drain_pending_cache [of L cid s] by blast
  have r: "release_touched L cid s = (drain_pending L cid s)\<lparr>cs_read_cache := if b then lru_pop L j ?c else ?c\<rparr>"
    unfolding release_touched_def invalidate_cache_def d ..
  have "store_inv L (drain_pending L cid (s\<lparr>cs_read_cache := ?pop ?c\<rparr>))"
    using drain_pending_inv [OF assms] Cons.prems by simp
  then have "store_inv L ((drain_pending L cid s)\<lparr>cs_read_cache := if b then lru_pop L j (?pop ?c) else ?pop ?c\<rparr>)"
    by (simp add: d)
  moreover have "lru_view L (?pop (if b then lru_pop L j ?c else ?c)) i
      = lru_view L (if b then lru_pop L j (?pop ?c) else ?pop ?c) i" for i
    by (simp add: fold_pop_view [OF assms] lru_lawsD(4) [OF assms])
  ultimately have "store_inv L ((drain_pending L cid s)\<lparr>cs_read_cache := ?pop (if b then lru_pop L j ?c else ?c)\<rparr>)"
    by (auto simp: store_inv_def cache_ok_def overlay_ok_def)
  then have "store_inv L ((release_touched L cid s)\<lparr>cs_read_cache := ?pop (cs_read_cache (release_touched L cid s))\<rparr>)"
    by (simp add: r)
  from Cons.IH [OF this] show ?case by simp
qed

lemma apply_batch_inv:
  assumes "lru_laws L" "store_inv L s"
  shows "store_inv L (s\<lparr>cs_storage := apply_hydration_batch b (cs_storage s),
    cs_read_cache := fold (lru_pop L) (touched_ids b) (cs_read_cache s)\<rparr>)"
proof -
  note i = store_invD [OF assms(2)]
  have "storage_get cid (apply_hydration_batch b (cs_storage s)) = storage_get cid (cs_storage s)"
    if "cid \<notin> set (touched_ids b)" for cid
  proof -
    have "map_of (rev (map (\<lambda>r. (c_id r, r)) (hb_puts b))) cid = None"
      using that by (auto simp: map_of_eq_None_iff touched_ids_def)
    then show ?thesis using that
      unfolding apply_hydration_batch_rows by (simp add: touched_ids_def storage_get_def map_add_def)
  qed
  then show ?thesis using i
    by (auto simp: store_inv_def apply_hydration_batch_wf apply_batch_keyed cache_ok_def overlay_ok_def
        fold_pop_view [OF assms(1)] split: if_splits)
qed

lemma fold_add_namespace_inv: "store_inv L s \<Longrightarrow> store_inv L (fold add_namespace nss s)"
  by (induction nss arbitrary: s) (simp_all add: add_namespace_def store_inv_def cache_ok_def overlay_ok_def)

lemma commit_poll_inv:
  assumes "lru_laws L" "store_inv L s" "commit_poll L s h l = Ok (s', h', n, ev)"
  shows "store_inv L s'"
  using assms(3) release_touched_inv [OF assms(1)]
    apply_batch_inv [OF assms(1) fold_add_namespace_inv [OF assms(2)]]
  by (auto simp: commit_poll_def Let_def)

lemma enter_halt_mode_inv:
  assumes "lru_laws L" "store_inv L s" "enter_halt_mode s h = Ok (s', h', n, ev)"
  shows "store_inv L s'"
proof -
  let ?b = "\<lparr>hb_shard_id = hy_shard_id h, hb_puts = [], hb_removes = [], hb_name_inserts = [],
    hb_name_removes = [], hb_new_last_applied_seq = hy_last_applied_cache h, hb_stuck_state = None,
    hb_halted = Some True, hb_migrated_chunk_evictions = []\<rparr>"
  have "s' = s\<lparr>cs_storage := apply_hydration_batch ?b (cs_storage s)\<rparr>"
    using assms(3) by (simp add: enter_halt_mode_def Let_def)
  then show ?thesis using apply_batch_inv [OF assms(1,2), of ?b] by (simp add: touched_ids_def)
qed

lemma poll_inv:
  assumes "lru_laws L" "store_inv L s" "poll L rd earliest s h = Ok (s', h', n, ev)"
  shows "store_inv L s'"
  using assms(3) assms(2) enter_halt_mode_inv [OF assms(1,2)] commit_poll_inv [OF assms(1,2)]
  by (auto simp: poll_def Let_def split: if_splits res.splits list.splits)

text \<open>A node interleaves the store's operations with polls of its shards' hydrators, over any log.\<close>

inductive node_step :: "'l LruCache \<Rightarrow> 'l CompositionStore \<Rightarrow> 'l CompositionStore \<Rightarrow> bool"
  for L :: "'l LruCache" where
  ns_op: "op_fresh op s \<Longrightarrow> node_step L s (exec_op L op s)"
| ns_poll: "poll L rd earliest s h = Ok (s', h', n, ev) \<Longrightarrow> node_step L s s'"

definition node_init :: "'l LruCache \<Rightarrow> 'l CompositionStore \<Rightarrow> bool" where
  "node_init L s \<longleftrightarrow>
     (\<exists>cache pending_max. s = composition_store_new cache pending_max \<and> (\<forall>cid. lru_view L cache cid = None))"

lemma node_step_inv:
  assumes "lru_laws L" "node_step L s t" "store_inv L s"
  shows "store_inv L t"
  using assms(2,3)
proof (induction rule: node_step.induct)
  case (ns_op op s)
  then show ?case using exec_op_inv [OF assms(1)] by blast
next
  case (ns_poll rd earliest s h s' h' n ev)
  then show ?case using poll_inv [OF assms(1)] by blast
qed

lemma node_reach_inv:
  assumes "lru_laws L" "reach (node_init L) (node_step L) s"
  shows "store_inv L s"
  using assms(2)
proof (induction rule: reach.induct)
  case (reach_init s)
  then obtain cache pending_max where "s = composition_store_new cache pending_max"
    "\<And>cid. lru_view L cache cid = None"
    by (auto simp: node_init_def)
  then show ?case using store_inv_new [of L cache pending_max] by simp
next
  case (reach_step s t)
  then show ?case using node_step_inv [OF assms(1)] by blast
qed


section \<open>Concrete runs\<close>

definition demo_delta :: "nat \<Rightarrow> OperationType \<Rightarrow> bytes \<Rightarrow> Delta" where
  "demo_delta seq op payload =
     \<lparr>d_header = \<lparr>dh_sequence = seq, dh_shard_id = 3, dh_tenant_id = 9, dh_operation = op,
        dh_timestamp = \<lparr>ts_hlc = hlc_zero 1, ts_wall = \<lparr>millis_since_epoch = 0, timezone = ''UTC''\<rparr>, ts_quality = Ntp\<rparr>,
        dh_hashed_key = [], dh_tombstone = False, dh_chunk_refs = [], dh_payload_size = length payload,
        dh_has_inline_data = False\<rparr>,
      d_payload = \<lparr>dp_ciphertext = payload, dp_auth_tag = [], dp_nonce = [], dp_system_epoch = None,
        dp_tenant_epoch = None, dp_tenant_wrapped_material = []\<rparr>\<rparr>"

definition demo_create :: "nat \<Rightarrow> nat \<Rightarrow> nat \<Rightarrow> Delta" where
  "demo_create seq cid nid = demo_delta seq Create (encode_composition_create_payload cid nid 10 (Some [97]) [] None)"

definition demo_delete :: "nat \<Rightarrow> nat \<Rightarrow> Delta" where
  "demo_delete seq cid = demo_delta seq Delete (encode_composition_delete_payload cid)"

definition demo_hydrator :: CompositionHydrator where
  "demo_hydrator = hydrator_new demo_comps 3 2 2"

fun poll_windows ::
    "'l LruCache \<Rightarrow> Delta list \<Rightarrow> nat list \<Rightarrow> 'l CompositionStore \<times> CompositionHydrator \<Rightarrow>
       (unit, 'l CompositionStore \<times> CompositionHydrator) res" where
  "poll_windows L ds [] sh = Ok sh"
| "poll_windows L ds (w # ws) (s, h) =
     bind_res (poll L (window_reader ds) earliest_visible_seq_default s (with_batch_window w h)) (\<lambda>(s, h, _).
       poll_windows L ds ws (s, h))"

definition names_after :: "Delta list \<Rightarrow> nat list \<Rightarrow> (unit, nat option \<times> bool \<times> bool \<times> nat) res" where
  "names_after ds ws =
     bind_res (poll_windows demo_lru ds ws (demo_comps, demo_hydrator)) (\<lambda>(s, h).
       Ok (name_lookup (7, [97]) (cs_storage s), storage_get 5 (cs_storage s) \<noteq> None,
           storage_get 6 (cs_storage s) \<noteq> None, last_applied_seq 3 (cs_storage s)))"

lemma demo_decode:
  assumes "cid < 256"
  shows "nid < 256 \<Longrightarrow>
     decode_composition_create_payload (encode_composition_create_payload cid nid 10 (Some [97]) [] None)
       = Some (cid, nid, 10, Some [97], None, None)"
    "decode_composition_delete_payload (encode_composition_delete_payload cid) = Some cid"
proof -
  assume "nid < 256"
  with assms have "create_args_ok cid nid 10 (Some [97]) []"
    by (simp add: create_args_ok_def name_ok_def lens_ok_def utf8_cont_def u64_max_val u32_max_val)
  then show "decode_composition_create_payload (encode_composition_create_payload cid nid 10 (Some [97]) [] None)
      = Some (cid, nid, 10, Some [97], None, None)"
    by (simp add: decode_create_enc)
qed (use assms in \<open>simp add: delete_payload_exact\<close>)

lemmas demo_run_simps =
  poll_def poll_window_def with_batch_window_def window_reader_def demo_hydrator_def hydrator_new_def clamp_batch_def
  MAX_HYDRATOR_BATCH_def earliest_visible_seq_default_def stage_delta_def stage_create_def stage_delete_def
  staging_default_def staging_view_def staging_put_def staging_remove_def staging_bind_name_def
  staging_unbind_name_def bind_opt_name_def staged_namespace_def note_outcome_def commit_poll_def staged_batch_def
  touched_ids_def release_touched_def drain_pending_def invalidate_cache_def apply_hydration_batch_def batch_meta_def
  batch_row_remove_def drop_binding_def name_cascade_def storage_put_def storage_get_def name_lookup_def name_for_def
  last_applied_seq_def storage_halted_def stuck_state_def lww_accepts_bind_def store_namespace_def new_row_def
  demo_comps_def demo_namespace_def add_namespace_def composition_store_new_def memory_storage_new_def
  pn_remove_by_id_def pending_names_default_def demo_lru_def list_lru_def lens_list_def inline_flag_def

lemmas demo_delta_simps = demo_create_def demo_delete_def demo_delta_def demo_decode

text \<open>The follower after the first delta, polled on its own.\<close>

definition demo_one :: "(nat \<times> Composition) list CompositionStore" where
  "demo_one = demo_comps\<lparr>cs_storage := memory_storage_new\<lparr>
     ms_compositions := [(5, new_row 5 7 (9, 3) [] 10 [])], ms_names := [((7, [97]), 5)],
     ms_names_reverse := [(5, (7, [97]))], ms_last_applied_seq := [(3, 1)], ms_stuck_state := [(3, None)]\<rparr>\<rparr>"

lemma demo_first_window:
  "poll demo_lru (window_reader [demo_create 1 5 7, demo_delete 2 5, demo_create 3 6 7]) earliest_visible_seq_default
     demo_comps (with_batch_window 1 demo_hydrator)
   = Ok (demo_one, demo_hydrator\<lparr>hy_last_applied_cache := 1, hy_batch_window := 1\<rparr>, 1, [])"
  by (simp add: demo_delta_simps demo_run_simps Let_def u64_max_val demo_one_def)

lemmas demo_run = names_after_def demo_delta_simps demo_run_simps Let_def u64_max_val demo_one_def

lemma demo_three_windows:
  "names_after [demo_create 1 5 7, demo_delete 2 5, demo_create 3 6 7] [1, 1, 1] = Ok (Some 6, False, True, 3)"
  unfolding names_after_def poll_windows.simps demo_first_window by (simp add: demo_run)

text \<open>The delete and the second create, staged together.\<close>

definition demo_staged :: Staging where
  "demo_staged = staging_default\<lparr>sg_puts := [(6, new_row 6 7 (9, 3) [] 10 [])], sg_removes := [5],
     sg_name_inserts := [(7, [97], 6, None)], sg_name_removes := [(7, [97], None)]\<rparr>"

lemma demo_stage:
  "stage_delta demo_one staging_default (demo_delete 2 5)
     = Ok (staging_default\<lparr>sg_removes := [5], sg_name_removes := [(7, [97], None)]\<rparr>, Applied)"
  "stage_delta demo_one (staging_default\<lparr>sg_removes := [5], sg_name_removes := [(7, [97], None)]\<rparr>) (demo_create 3 6 7)
     = Ok (demo_staged, Applied)"
  by (simp_all add: demo_run demo_staged_def)

lemma demo_second_window:
  "poll demo_lru (window_reader [demo_create 1 5 7, demo_delete 2 5, demo_create 3 6 7]) earliest_visible_seq_default
     demo_one (with_batch_window 2 (demo_hydrator\<lparr>hy_last_applied_cache := 1, hy_batch_window := 1\<rparr>))
   = commit_poll demo_lru demo_one (demo_hydrator\<lparr>hy_last_applied_cache := 1, hy_batch_window := 2\<rparr>)
       \<lparr>pl_staging = demo_staged, pl_last = 3, pl_applied = 2, pl_stuck = None, pl_stop = False\<rparr>"
proof -
  have h: "hy_halted_cache demo_hydrator = False" "hy_shard_id demo_hydrator = 3"
    by (simp_all add: demo_hydrator_def hydrator_new_def demo_comps_def storage_halted_def memory_storage_new_def
        composition_store_new_def add_namespace_def)
  have r: "window_reader [demo_create 1 5 7, demo_delete 2 5, demo_create 3 6 7]
      \<lparr>rr_shard_id = 3, rr_from = 2, rr_to = 3\<rparr> = Ok [demo_delete 2 5, demo_create 3 6 7]"
    "d_seq (demo_delete 2 5) = 2" "d_seq (demo_create 3 6 7) = 3"
    by (simp_all add: demo_run)
  have w: "with_batch_window 2 (demo_hydrator\<lparr>hy_last_applied_cache := 1, hy_batch_window := 1\<rparr>)
      = demo_hydrator\<lparr>hy_last_applied_cache := 1, hy_batch_window := 2\<rparr>" (is "_ = ?h")
    by (simp add: with_batch_window_def clamp_batch_def MAX_HYDRATOR_BATCH_def)
  have req: "poll_window ?h = \<lparr>rr_shard_id = 3, rr_from = 2, rr_to = 3\<rparr>"
    by (simp add: poll_window_def h Let_def u64_max_val)
  show ?thesis unfolding w poll_def req Let_def r(1)
    by (simp add: h r(2,3) demo_stage note_outcome_def) (simp add: numeral_2_eq_2)
qed

lemma demo_two_windows:
  "names_after [demo_create 1 5 7, demo_delete 2 5, demo_create 3 6 7] [1, 2] = Ok (None, False, True, 3)"
proof -
  let ?h = "demo_hydrator\<lparr>hy_last_applied_cache := 1, hy_batch_window := 2\<rparr>"
  let ?l = "\<lparr>pl_staging = demo_staged, pl_last = 3, pl_applied = 2, pl_stuck = None, pl_stop = False\<rparr>"
  obtain s h n ev where c: "commit_poll demo_lru demo_one ?h ?l = Ok (s, h, n, ev)"
    by (simp add: commit_poll_def Let_def)
  have "hy_shard_id ?h = 3" "cs_pending demo_one = []" by (simp_all add: demo_run)
  then have s: "cs_storage s = apply_hydration_batch (staged_batch 3 ?l) (cs_storage demo_one)"
    using commit_poll_storage [OF c] by simp
  have "name_lookup (7, [97]) (cs_storage s) = None" "storage_get 5 (cs_storage s) = None"
    "storage_get 6 (cs_storage s) \<noteq> None" "last_applied_seq 3 (cs_storage s) = 3"
    unfolding s by (simp_all add: demo_run demo_staged_def)
  then show ?thesis
    unfolding names_after_def poll_windows.simps demo_first_window bind_res.simps prod.case demo_second_window c
    by simp
qed

lemma demo_delete_windows:
  "names_after [demo_create 1 5 7, demo_delete 2 5] [1, 1] = Ok (None, False, False, 2)"
  by (simp add: demo_run)

lemma demo_delete_window:
  "names_after [demo_create 1 5 7, demo_delete 2 5] [2] = Ok (Some 5, False, False, 2)"
  by (simp add: demo_run)

text \<open>The name index, unlike the rows, depends on how the log was batched, because a batch applies its
  name binds before its name unbinds. A name that passes from a deleted composition to a new one is
  bound when the three deltas are polled one at a time, and lost when the delete and the second create share a
  window, although the new composition is stored. A named create and its delete in one window leave the name
  bound to a composition that does not exist.\<close>

lemma name_index_depends_on_batching:
  "names_after [demo_create 1 5 7, demo_delete 2 5, demo_create 3 6 7] [1, 1, 1] = Ok (Some 6, False, True, 3)
   \<and> names_after [demo_create 1 5 7, demo_delete 2 5, demo_create 3 6 7] [1, 2] = Ok (None, False, True, 3)
   \<and> names_after [demo_create 1 5 7, demo_delete 2 5] [1, 1] = Ok (None, False, False, 2)
   \<and> names_after [demo_create 1 5 7, demo_delete 2 5] [2] = Ok (Some 5, False, False, 2)"
  using demo_three_windows demo_two_windows demo_delete_windows demo_delete_window by blast

lemma demo_follower_init: "follower_init (store_replica demo_comps) ([], demo_comps, demo_hydrator)"
  by (simp add: follower_init_def demo_hydrator_def) (auto simp: demo_comps_def add_namespace_def composition_store_new_def)

lemma demo_agrees: "delta_agrees f (demo_create seq cid nid)" "delta_agrees f (demo_delete seq cid)"
  by (simp_all add: delta_agrees_def demo_create_def demo_delete_def demo_delta_def)

lemma demo_follower_reach:
  "reach (follower_init (store_replica demo_comps)) (follower_step f demo_lru)
     ([demo_create 1 5 7, demo_create 2 6 8], demo_comps, demo_hydrator)"
proof -
  have "reach (follower_init (store_replica demo_comps)) (follower_step f demo_lru)
     ([demo_create 1 5 7], demo_comps, demo_hydrator)"
    using reach_step [OF reach_init [of "follower_init (store_replica demo_comps)", OF demo_follower_init]]
      fs_append [of "demo_create 1 5 7" "[]" f demo_lru demo_comps demo_hydrator] demo_agrees
    by (simp add: demo_create_def demo_delta_def u64_max_val)
  from reach_step [OF this] show ?thesis
    using fs_append [of "demo_create 2 6 8" "[demo_create 1 5 7]" f demo_lru demo_comps demo_hydrator] demo_agrees
    by (simp add: demo_create_def demo_delta_def u64_max_val)
qed

definition demo_log :: "Delta list" where
  "demo_log = [demo_create 1 5 7, demo_create 2 6 8]"

definition demo_polled :: "nat \<Rightarrow> (nat \<times> Composition) list CompositionStore \<times> CompositionHydrator" where
  "demo_polled n = (case polls demo_lru demo_log n (demo_comps, demo_hydrator) of Ok sh \<Rightarrow> sh)"

lemma demo_polls:
  "polls demo_lru demo_log 1 (demo_comps, demo_hydrator) = Ok (demo_polled 1)"
  "polls demo_lru demo_log 2 (demo_comps, demo_hydrator) = Ok (demo_polled 2)"
  "hy_last_applied_cache (snd (demo_polled 1)) = 1"
  "storage_get 5 (cs_storage (fst (demo_polled 1))) = Some (new_row 5 7 (9, 3) [] 10 [])"
  by (simp_all add: demo_polled_def demo_log_def demo_delta_simps demo_run_simps Let_def u64_max_val u32_max_val
      numeral_2_eq_2)

lemma demo_polls_reach:
  "polls demo_lru demo_log n (demo_comps, demo_hydrator) = Ok (s, h) \<Longrightarrow>
     reach (follower_init (store_replica demo_comps)) (follower_step f demo_lru) (demo_log, s, h)"
proof (induction n arbitrary: s h)
  case 0
  then show ?case using demo_follower_reach [of f] by (simp add: demo_log_def)
next
  case (Suc n)
  then obtain s1 h1 m ev where "polls demo_lru demo_log n (demo_comps, demo_hydrator) = Ok (s1, h1)"
    and p: "poll demo_lru (window_reader demo_log) earliest_visible_seq_default s1 h1 = Ok (s, h, m, ev)"
    by auto
  from Suc.IH [OF this(1)] show ?case by (rule reach_step) (rule fs_poll [OF p])
qed

lemma demo_reach_1:
  "reach (follower_init (store_replica demo_comps)) (follower_step f demo_lru)
     (demo_log, fst (demo_polled 1), snd (demo_polled 1))"
  using demo_polls_reach [of 1 "fst (demo_polled 1)" "snd (demo_polled 1)" f] demo_polls(1) by simp

lemma demo_polled_frame:
  "hy_shard_id (snd (demo_polled 1)) = 3" "hy_transient_retry_threshold (snd (demo_polled 1)) = 2"
  "last_applied_seq 3 (cs_storage (fst (demo_polled 1))) = 1"
  by (simp_all add: demo_polled_def demo_log_def demo_delta_simps demo_run_simps Let_def u64_max_val u32_max_val)



theorem follower_rows_typed_witness:
  "storage_get 5 (cs_storage (fst (demo_polled 1))) = Some (new_row 5 7 (9, 3) [] 10 [])
   \<and> (\<exists>ns. store_namespace (fst (demo_polled 1)) 7 = Some ns \<and> ns_tenant_id ns = 9 \<and> ns_shard_id ns = 3)"
proof -
  have "replica_typed (\<lambda>_. (9, 3)) (store_replica demo_comps)"
    by (simp add: replica_typed_def store_replica_def ns_pair_def demo_run_simps)
  from follower_rows_typed [OF demo_reach_1 this demo_polls(4)] show ?thesis
    using demo_polls(4) by (simp add: new_row_def)
qed

lemma demo_lru_laws: "lru_laws demo_lru"
  unfolding demo_lru_def by (rule list_lru_laws)


end
