(* ===== verification/Log_Runs.thy ===== *)
theory Log_Runs
  imports Log_Store
begin

text \<open>
  Runs of the shard store: a step relation that also records, per shard, the requests logged so far,
  its invariant, and what appends, reads, garbage collection, compaction and the split cutover
  guarantee (\<^verbatim>\<open>crates/kiseki-log/src/store.rs\<close>).
\<close>

section \<open>Runs of the store\<close>

text \<open>The ghost history of a shard: every request logged there, with whether its payload was
  offloaded. Every method that changes the store is a step; a drain is its two parts, the buffer
  being taken and the appends, between which other calls may run.\<close>

type_synonym history = "nat \<Rightarrow> (AppendDeltaRequest \<times> bool) list"

fun hist_delta :: "nat \<Rightarrow> AppendDeltaRequest \<times> bool \<Rightarrow> Delta" where
  "hist_delta n (req, offloaded) = mk_delta req n (if offloaded then [] else ar_payload req)"

datatype LogOp =
    OpCreate nat nat nat ShardConfig
  | OpConfig nat ShardConfig
  | OpState nat ShardState
  | OpRange nat bytes bytes
  | OpRegister nat string nat
  | OpAdvance nat string nat
  | OpReport nat string nat
  | OpSplitTarget nat nat
  | OpMerge nat nat
  | OpMaintenance nat bool
  | OpTruncate nat
  | OpCompact nat
  | OpTakeBuffer nat

definition quiet :: "('i, 'a) log_call \<Rightarrow> ('i, unit) log_call" where
  "quiet c = bind_st c (\<lambda>s _. (s, Ok ()))"

fun log_op :: "'i InlineStore \<Rightarrow> LogOp \<Rightarrow> 'i MemShardStore \<Rightarrow> ('i, unit) log_call" where
  "log_op ops (OpCreate sid tenant node config) s = (create_shard sid tenant node config s, Ok ())"
| "log_op ops (OpConfig sid config) s = (set_shard_config sid config s, Ok ())"
| "log_op ops (OpState sid state) s = (set_shard_state sid state s, Ok ())"
| "log_op ops (OpRange sid a b) s = (update_shard_range sid a b s, Ok ())"
| "log_op ops (OpRegister sid c p) s = register_consumer sid c p s"
| "log_op ops (OpAdvance sid c p) s = advance_watermark sid c p s"
| "log_op ops (OpReport sid c p) s = (report_consumer_position sid c p s, Ok ())"
| "log_op ops (OpSplitTarget a b) s = (set_split_target a b s, Ok ())"
| "log_op ops (OpMerge a b) s = merge_shards a b s"
| "log_op ops (OpMaintenance sid b) s = set_maintenance sid b s"
| "log_op ops (OpTruncate sid) s = quiet (truncate_log ops sid s)"
| "log_op ops (OpCompact sid) s = quiet (compact_shard ops sid s)"
| "log_op ops (OpTakeBuffer sid) s = (fst (take_split_buffer sid s), Ok ())"

inductive log_step :: "'i InlineStore \<Rightarrow> 'i MemShardStore \<times> history \<Rightarrow> 'i MemShardStore \<times> history \<Rightarrow> bool"
  for ops where
  append_logged: "append_delta ops req s = (s', Ok n) \<Longrightarrow> ms_split_buffer s' = ms_split_buffer s \<Longrightarrow>
    log_step ops (s, h) (s', h(ar_shard_id req := h (ar_shard_id req) @ [(req, offloads req s)]))"
| append_buffered: "append_delta ops req s = (s', Ok n) \<Longrightarrow> ms_split_buffer s' \<noteq> ms_split_buffer s \<Longrightarrow>
    log_step ops (s, h) (s', h)"
| append_failed: "append_delta ops req s = (s', Err e) \<Longrightarrow> log_step ops (s, h) (s', h)"
| attach: "set_inline_store i s = (s', r) \<Longrightarrow> log_step ops (s, h) (s', h)"
| other: "log_op ops x s = (s', r) \<Longrightarrow> r \<noteq> Panic \<Longrightarrow> log_step ops (s, h) (s', h)"

definition log_init :: "'i MemShardStore \<times> history \<Rightarrow> bool" where
  "log_init sh \<longleftrightarrow> sh = (ms_new, \<lambda>_. [])"

section \<open>Compaction\<close>

abbreviation seq_sorted :: "Delta list \<Rightarrow> bool" where
  "seq_sorted ds \<equiv> sorted_wrt (<) (map d_seq ds)"

lemma seq_sorted_inj: "seq_sorted ds \<Longrightarrow> inj_on d_seq (set ds) \<and> distinct ds"
  by (metis distinct_map strict_sorted_iff)

lemma set_latest_insert:
  assumes "distinct (map d_key es)" "\<forall>e \<in> set es. d_seq e < d_seq d"
  shows "set (latest_insert d es) = insert d {e \<in> set es. d_key e \<noteq> d_key d}"
  using assms by (induction es) (auto simp: image_iff)

lemma keys_latest_insert:
  "d_key ` set (latest_insert d es) = insert (d_key d) (d_key ` set es) \<and>
   (distinct (map d_key es) \<longrightarrow> distinct (map d_key (latest_insert d es)))"
  by (induction es) auto

lemma latest_snoc: "latest (ds @ [d]) = latest_insert d (latest ds)"
  by (simp add: latest_def)

lemma distinct_keys_latest: "distinct (map d_key (latest ds))"
  by (induction ds rule: rev_induct) (simp_all add: latest_snoc keys_latest_insert, simp add: latest_def)

lemma set_latest:
  "seq_sorted ds \<Longrightarrow>
     set (latest ds) = {d \<in> set ds. \<forall>e \<in> set ds. d_key e = d_key d \<longrightarrow> d_seq e \<le> d_seq d}"
proof (induction ds rule: rev_induct)
  case (snoc d ds)
  then have s: "seq_sorted ds" "\<forall>e \<in> set ds. d_seq e < d_seq d" by (auto simp: sorted_wrt_append)
  then have "\<forall>e \<in> set (latest ds). d_seq e < d_seq d" using snoc.IH by auto
  from set_latest_insert [OF distinct_keys_latest this]
  have "set (latest (ds @ [d])) = insert d {e \<in> set (latest ds). d_key e \<noteq> d_key d}"
    by (simp add: latest_snoc)
  moreover have "\<not> d_seq d \<le> d_seq e" if "e \<in> set ds" for e using s(2) that by (meson not_le)
  ultimately show ?case using s(2) unfolding snoc.IH [OF s(1)] by (auto simp: less_imp_le)
qed (simp add: latest_def)

lemma set_latest_subset: "set (latest ds) \<subseteq> set ds"
proof (induction ds rule: rev_induct)
  case (snoc d ds)
  have "set (latest_insert d es) \<subseteq> insert d (set es)" for es by (induction es) auto
  then show ?case using snoc.IH by (fastforce simp: latest_snoc)
qed (simp add: latest_def)

lemma seq_sorted_survivors:
  assumes "seq_sorted ds"
  shows "seq_sorted (sort_key d_seq (compact_surviving b ds))"
proof -
  have sub: "set (compact_surviving b ds) \<subseteq> set ds"
    using set_latest_subset by (auto simp: compact_surviving_def)
  have "distinct (compact_surviving b ds)"
    using distinct_keys_latest [of ds] by (simp add: compact_surviving_def distinct_map)
  moreover have "inj_on d_seq (set (compact_surviving b ds))"
    using seq_sorted_inj [OF assms] sub by (meson inj_on_subset)
  ultimately have "distinct (map d_seq (sort_key d_seq (compact_surviving b ds)))"
    by (simp add: distinct_map)
  then show ?thesis by (simp add: strict_sorted_iff)
qed

section \<open>Invariant\<close>

definition shard_inv :: "nat \<Rightarrow> MemShard \<Rightarrow> (AppendDeltaRequest \<times> bool) list \<Rightarrow> bool" where
  "shard_inv sid sh hist \<longleftrightarrow>
     si_shard_id (sh_info sh) = sid \<and> si_tip (sh_info sh) = length hist \<and> length hist \<le> u64_max \<and>
     seq_sorted (sh_deltas sh) \<and> distinct (map fst (sh_watermarks sh)) \<and>
     (\<forall>d \<in> set (sh_deltas sh). 1 \<le> d_seq d \<and> d_seq d \<le> length hist \<and>
        d = hist_delta (d_seq d) (hist ! (d_seq d - 1)))"

definition log_inv :: "'i MemShardStore \<times> history \<Rightarrow> bool" where
  "log_inv = (\<lambda>(s, h).
     (\<forall>sid. case ms_shards s sid of None \<Rightarrow> h sid = [] | Some sh \<Rightarrow> shard_inv sid sh (h sid)) \<and>
     (\<forall>sid. \<forall>r \<in> set (h sid). ar_shard_id (fst r) = sid))"

text \<open>What a call other than an append may do to the shards: create an empty one, or keep id, tip and
  part of the deltas of an existing one.\<close>

definition shard_shrinks :: "nat \<Rightarrow> MemShard option \<Rightarrow> MemShard option \<Rightarrow> bool" where
  "shard_shrinks sid old new \<longleftrightarrow>
     (case (old, new) of
        (None, None) \<Rightarrow> True
      | (None, Some sh) \<Rightarrow> si_shard_id (sh_info sh) = sid \<and> si_tip (sh_info sh) = 0 \<and>
          sh_deltas sh = [] \<and> sh_watermarks sh = []
      | (Some sh, None) \<Rightarrow> False
      | (Some sh, Some sh') \<Rightarrow> si_shard_id (sh_info sh') = si_shard_id (sh_info sh) \<and>
          si_tip (sh_info sh') = si_tip (sh_info sh) \<and>
          (seq_sorted (sh_deltas sh) \<longrightarrow> seq_sorted (sh_deltas sh')) \<and>
          set (sh_deltas sh') \<subseteq> set (sh_deltas sh) \<and>
          (distinct (map fst (sh_watermarks sh)) \<longrightarrow> distinct (map fst (sh_watermarks sh'))))"

lemma shard_shrinks_refl [simp]: "shard_shrinks sid x x"
  by (simp add: shard_shrinks_def split: option.splits)

lemma shard_shrinks_inv:
  assumes "shard_shrinks sid old new"
    and "case old of None \<Rightarrow> h = [] | Some sh \<Rightarrow> shard_inv sid sh h"
  shows "case new of None \<Rightarrow> h = [] | Some sh \<Rightarrow> shard_inv sid sh h"
  using assms by (auto simp: shard_shrinks_def shard_inv_def split: option.splits)

lemma delete_payloads_frame:
  assumes "delete_payloads ops P ds s = (s', r)"
  shows "ms_shards s' = ms_shards s \<and> ms_split_targets s' = ms_split_targets s \<and> ms_split_buffer s' = ms_split_buffer s"
  using assms by (auto simp: delete_payloads_def Let_def split: option.splits prod.splits)

lemma delete_keys_no_err: "delete_keys ops i ks = (i', r) \<Longrightarrow> r \<noteq> Err e"
  by (induction ops i ks rule: delete_keys.induct) (auto split: prod.splits res.splits)

lemma delete_payloads_no_err: "delete_payloads ops P ds s = (s', r) \<Longrightarrow> r \<noteq> Err e"
  using delete_keys_no_err by (fastforce simp: delete_payloads_def Let_def split: option.splits prod.splits)

lemma fst_wm_advance:
  "map fst (wm_advance c p w) = (if c \<in> fst ` set w then map fst w else map fst w @ [c])"
proof -
  have m: "map fst (map (\<lambda>(c', q). (c', if c' = c \<and> p > q then p else q)) w) = map fst w"
    by (simp add: case_prod_beta comp_def)
  show ?thesis
  proof (cases "c \<in> fst ` set w")
    case True
    then have "map_of w c \<noteq> None" by (simp add: map_of_eq_None_iff)
    then show ?thesis using m True unfolding wm_advance_def by (simp only: if_True if_False)
  qed (simp add: wm_advance_def map_of_eq_None_iff)
qed

lemma distinct_wm_advance: "distinct (map fst w) \<Longrightarrow> distinct (map fst (wm_advance c p w))"
  by (simp add: fst_wm_advance)

lemma distinct_wm_register: "distinct (map fst w) \<Longrightarrow> distinct (map fst (wm_register c p w))"
  by (auto simp: wm_register_def map_of_eq_None_iff)

lemma truncate_log_eq:
  assumes "truncate_log ops sid s = (s', r)" "r \<noteq> Panic"
  shows "(ms_shards s sid = None \<and> s' = s \<and> r = Err (ShardNotFound sid)) \<or>
         (\<exists>sh s1. ms_shards s sid = Some sh \<and> r = Ok (shard_boundary sh) \<and>
            delete_payloads ops (\<lambda>d. d_seq d < shard_boundary sh) (sh_deltas sh) s = (s1, Ok ()) \<and>
            s' = put_shard sid (sh\<lparr>sh_deltas := filter (\<lambda>d. d_seq d \<ge> shard_boundary sh) (sh_deltas sh),
                                    sh_gc_floor := shard_boundary sh\<rparr>) s1)"
proof (cases "ms_shards s sid")
  case (Some sh)
  obtain s1 r1 where d: "delete_payloads ops (\<lambda>d. d_seq d < shard_boundary sh) (sh_deltas sh) s = (s1, r1)"
    by fastforce
  from delete_payloads_no_err [OF d] show ?thesis using assms Some d by (cases r1) (auto simp: truncate_log_def Let_def)
qed (use assms in \<open>auto simp: truncate_log_def\<close>)

lemma compact_shard_eq:
  assumes "compact_shard ops sid s = (s', r)" "r \<noteq> Panic"
  shows "(ms_shards s sid = None \<and> s' = s \<and> r = Err (ShardNotFound sid)) \<or>
         (\<exists>sh s1 surv. ms_shards s sid = Some sh \<and> surv = compact_surviving (shard_boundary sh) (sh_deltas sh) \<and>
            r = Ok (length (sh_deltas sh) - length surv) \<and>
            delete_payloads ops (\<lambda>d. d_seq d \<notin> d_seq ` set surv) (sh_deltas sh) s = (s1, Ok ()) \<and>
            s' = put_shard sid (sh\<lparr>sh_deltas := sort_key d_seq surv,
                   sh_info := (sh_info sh)\<lparr>si_delta_count := length surv\<rparr>\<rparr>) s1)"
proof (cases "ms_shards s sid")
  case (Some sh)
  define surv where "surv = compact_surviving (shard_boundary sh) (sh_deltas sh)"
  obtain s1 r1 where d: "delete_payloads ops (\<lambda>d. d_seq d \<notin> d_seq ` set surv) (sh_deltas sh) s = (s1, r1)"
    by fastforce
  from delete_payloads_no_err [OF d] show ?thesis using assms Some d surv_def by (cases r1) (auto simp: compact_shard_def Let_def)
qed (use assms in \<open>auto simp: compact_shard_def\<close>)

lemma shrinks_update:
  assumes "ms_shards s k = Some sh" "ms_shards s1 = ms_shards s"
    and "si_shard_id (sh_info sh') = si_shard_id (sh_info sh)" "si_tip (sh_info sh') = si_tip (sh_info sh)"
    and "seq_sorted (sh_deltas sh) \<Longrightarrow> seq_sorted (sh_deltas sh')" "set (sh_deltas sh') \<subseteq> set (sh_deltas sh)"
    and "distinct (map fst (sh_watermarks sh)) \<Longrightarrow> distinct (map fst (sh_watermarks sh'))"
  shows "shard_shrinks sid (ms_shards s sid) (ms_shards (put_shard k sh' s1) sid)"
  using assms by (cases "sid = k") (auto simp: shard_shrinks_def)

lemma seq_sorted_filter: "seq_sorted ds \<Longrightarrow> seq_sorted (filter P ds)"
  by (induction ds) auto

lemma truncate_shrinks:
  assumes "truncate_log ops k s = (s', r)" "r \<noteq> Panic"
  shows "shard_shrinks sid (ms_shards s sid) (ms_shards s' sid)"
  using truncate_log_eq [OF assms]
proof (elim disjE exE conjE)
  fix sh s1 assume a: "ms_shards s k = Some sh"
    "delete_payloads ops (\<lambda>d. d_seq d < shard_boundary sh) (sh_deltas sh) s = (s1, Ok ())"
    "s' = put_shard k (sh\<lparr>sh_deltas := filter (\<lambda>d. d_seq d \<ge> shard_boundary sh) (sh_deltas sh),
                            sh_gc_floor := shard_boundary sh\<rparr>) s1"
  from delete_payloads_frame [OF a(2)] show ?thesis
    unfolding a(3) by (intro shrinks_update [OF a(1)]) (auto intro: seq_sorted_filter)
qed simp

lemma set_compact_surviving: "set (compact_surviving b ds) \<subseteq> set ds"
  using set_latest_subset by (auto simp: compact_surviving_def)

lemma compact_shrinks:
  assumes "compact_shard ops k s = (s', r)" "r \<noteq> Panic"
  shows "shard_shrinks sid (ms_shards s sid) (ms_shards s' sid)"
  using compact_shard_eq [OF assms]
proof (elim disjE exE conjE)
  fix sh s1 surv assume a: "ms_shards s k = Some sh"
    "surv = compact_surviving (shard_boundary sh) (sh_deltas sh)"
    "delete_payloads ops (\<lambda>d. d_seq d \<notin> d_seq ` set surv) (sh_deltas sh) s = (s1, Ok ())"
    "s' = put_shard k (sh\<lparr>sh_deltas := sort_key d_seq surv,
                   sh_info := (sh_info sh)\<lparr>si_delta_count := length surv\<rparr>\<rparr>) s1"
  from delete_payloads_frame [OF a(3)] set_compact_surviving [of "shard_boundary sh" "sh_deltas sh"]
    seq_sorted_survivors [of "sh_deltas sh" "shard_boundary sh"]
  show ?thesis unfolding a(4) by (intro shrinks_update [OF a(1)]) (simp_all add: a(2))
qed simp

lemma merge_shrinks:
  assumes "merge_shards t k s = (s', r)"
  shows "shard_shrinks sid (ms_shards s sid) (ms_shards s' sid)"
  using assms
  by (auto simp: merge_shards_def set_shard_state_def Let_def shard_shrinks_def split: option.splits if_splits)

lemma quiet_cases:
  assumes "quiet c = (s', r)"
  obtains r' where "c = (s', r')" "r = Panic \<longleftrightarrow> r' = Panic"
  using assms unfolding quiet_def by (cases c; cases "snd c") auto

lemma log_op_shrinks:
  assumes "log_op ops x s = (s', r)" "r \<noteq> Panic"
  shows "shard_shrinks sid (ms_shards s sid) (ms_shards s' sid)"
proof (cases x)
  case (OpTruncate k)
  with assms(1) have "quiet (truncate_log ops k s) = (s', r)" by simp
  then show ?thesis by (rule quiet_cases) (use assms(2) truncate_shrinks in blast)
next
  case (OpCompact k)
  with assms(1) have "quiet (compact_shard ops k s) = (s', r)" by simp
  then show ?thesis by (rule quiet_cases) (use assms(2) compact_shrinks in blast)
next
  case (OpMerge a b)
  then show ?thesis using assms merge_shrinks by auto
next
  case (OpCreate k t n c)
  then show ?thesis using assms
    by (auto simp: create_shard_def Let_def shard_shrinks_def split: option.splits if_splits)
next
  case (OpRegister k c p)
  then show ?thesis using assms distinct_wm_register
    by (auto simp: register_consumer_def shard_shrinks_def split: option.splits if_splits)
next
  case (OpAdvance k c p)
  then show ?thesis using assms distinct_wm_advance
    by (auto simp: advance_watermark_def shard_shrinks_def split: option.splits if_splits)
next
  case (OpReport k c p)
  then show ?thesis using assms distinct_wm_advance
    by (auto simp: report_consumer_position_def shard_shrinks_def split: option.splits if_splits)
qed (use assms in \<open>auto simp: set_shard_config_def set_shard_state_def update_shard_range_def
      set_split_target_def set_maintenance_def take_split_buffer_def shard_shrinks_def split: option.splits if_splits\<close>)

lemma shard_inv_logged:
  assumes "shard_inv sid sh hist" "n = si_tip (sh_info sh) + 1" "n \<le> u64_max"
    and "ct = (if off then [] else ar_payload req)"
  shows "shard_inv sid (logged_shard req n ct sh) (hist @ [(req, off)])"
proof -
  have n: "n = Suc (length hist)" and d: "\<forall>d \<in> set (sh_deltas sh). d_seq d \<le> length hist"
    using assms by (auto simp: shard_inv_def)
  have m: "d_seq (mk_delta req n ct) = n" by (simp add: mk_delta_def)
  have old: "d_seq d - 1 < length hist \<and> d_seq d < n" if "d \<in> set (sh_deltas sh)" for d
    using that assms(1) n by (fastforce simp: shard_inv_def)
  have "seq_sorted (sh_deltas sh @ [mk_delta req n ct])"
    using assms(1) m old by (simp add: shard_inv_def sorted_wrt_append)
  moreover have "1 \<le> d_seq d \<and> d_seq d \<le> Suc (length hist) \<and>
      d = hist_delta (d_seq d) ((hist @ [(req, off)]) ! (d_seq d - 1))"
    if "d \<in> set (sh_deltas sh @ [mk_delta req n ct])" for d
  proof (cases "d \<in> set (sh_deltas sh)")
    case True
    with old [OF True] assms(1) show ?thesis by (auto simp: shard_inv_def nth_append)
  next
    case False
    with that have "d = mk_delta req n ct" by simp
    then show ?thesis using m n assms(4) by simp
  qed
  ultimately show ?thesis using assms(1,3) n by (simp add: shard_inv_def logged_shard_def)
qed

interpretation log: invariant_system log_init "log_step ops" log_inv for ops :: "'i InlineStore"
proof
  fix s :: "'i MemShardStore \<times> history" assume "log_init s"
  then show "log_inv s" by (simp add: log_init_def log_inv_def ms_new_def)
next
  fix st st' :: "'i MemShardStore \<times> history" assume inv: "log_inv st" and "log_step ops st st'"
  from this(2) show "log_inv st'"
  proof cases
    case (append_logged req s s' n h)
    from append_logged(3) show ?thesis
    proof (cases rule: append_delta_cases)
      case (logged shard m s1 ct)
      have f: "ms_shards s1 = ms_shards s" "ct = (if offloads req s then [] else ar_payload req)"
        using offload_frame [OF logged(7)] by auto
      have "shard_inv (ar_shard_id req) shard (h (ar_shard_id req))"
        using inv append_logged(1) logged(2) by (auto simp: log_inv_def split: option.splits)
      from shard_inv_logged [OF this logged(3,4) f(2)] show ?thesis
        using inv append_logged(1,2) f(1) logged(8) by (auto simp: log_inv_def cong: option.case_cong)
    next
      case (buffered shard)
      have "ms_split_buffer s' (ar_shard_id req) \<noteq> ms_split_buffer s (ar_shard_id req)"
        unfolding buffered by (auto split: option.splits)
      then show ?thesis using append_logged(4) by simp
    qed (use append_logged in auto)
  next
    case (append_buffered req s s' n h)
    from append_buffered(3) show ?thesis
    proof (cases rule: append_delta_cases)
      case (logged shard m s1 ct)
      then show ?thesis using append_buffered(4) offload_frame [OF logged(7)] by simp
    next
      case (buffered shard)
      then show ?thesis using inv append_buffered(1,2) by (simp add: log_inv_def)
    qed (use append_buffered in auto)
  next
    case (append_failed req s s' e h)
    from append_failed(3) show ?thesis
      by (cases rule: append_delta_cases) (use inv append_failed(1,2) in \<open>auto simp: log_inv_def\<close>)
  next
    case (attach i s s' r h)
    then have "ms_shards s' = ms_shards s" by (auto simp: set_inline_store_def split: option.splits)
    then show ?thesis using inv attach(1,2) by (simp add: log_inv_def)
  next
    case (other x s s' r h)
    have "case ms_shards s' sid of None \<Rightarrow> h sid = [] | Some sh \<Rightarrow> shard_inv sid sh (h sid)" for sid
      using shard_shrinks_inv [OF log_op_shrinks [OF other(3,4)]] inv other(1) by (auto simp: log_inv_def)
    then show ?thesis using inv other(1,2) by (simp add: log_inv_def)
  qed
qed

end
