(* ===== verification/Log_Guarantees.thy ===== *)
theory Log_Guarantees
  imports Log_Runs
begin

text \<open>
  What the shard store guarantees (\<^verbatim>\<open>crates/kiseki-log/src/store.rs\<close>): order and immutability of the log
  (I-L1, I-L3), every branch of an append, garbage collection below the slowest consumer (I-L4),
  compaction, offloaded payloads (I-SF5, I-SF6) and the split cutover (ADR-034).
\<close>

section \<open>Offloaded payloads\<close>

text \<open>Routing of keys, as the shard map of a tenant does it: a key belongs to one shard, and no two
  different keys in use share their first 24 bytes (keys are SHA-256 digests).\<close>

definition routed :: "(bytes \<Rightarrow> nat \<times> bytes) \<Rightarrow> history \<Rightarrow> bool" where
  "routed home h \<longleftrightarrow> (\<forall>sid. \<forall>r \<in> set (h sid). length (ar_hashed_key (fst r)) = 32 \<and>
     home (take 24 (ar_hashed_key (fst r))) = (sid, ar_hashed_key (fst r)))"

definition payload_inv :: "('i \<Rightarrow> bytes \<Rightarrow> bytes option) \<Rightarrow> 'i MemShardStore \<Rightarrow> history \<Rightarrow> bool" where
  "payload_inv view s h \<longleftrightarrow>
     (\<forall>sid sh d. ms_shards s sid = Some sh \<longrightarrow> d \<in> set (sh_deltas sh) \<longrightarrow> snd (h sid ! (d_seq d - 1)) \<longrightarrow>
        (\<exists>i. ms_inline_store s = Some i \<and>
             view i (derive_inline_key (d_key d) (d_seq d)) = Some (ar_payload (fst (h sid ! (d_seq d - 1))))))"

lemma hist_delta_eq: "hist_delta n r = mk_delta (fst r) n (if snd r then [] else ar_payload (fst r))"
  by (cases r) simp

lemma hist_delta_fields [simp]:
  "d_seq (hist_delta n r) = n" "d_key (hist_delta n r) = ar_hashed_key (fst r)"
  "dh_shard_id (d_header (hist_delta n r)) = ar_shard_id (fst r)"
  by (simp_all add: hist_delta_eq mk_delta_def)

lemma log_inv_delta:
  assumes "log_inv (s, h)" "ms_shards s sid = Some sh" "d \<in> set (sh_deltas sh)"
  shows "1 \<le> d_seq d \<and> d_seq d \<le> length (h sid) \<and> length (h sid) \<le> u64_max \<and>
         h sid ! (d_seq d - 1) \<in> set (h sid) \<and> d = hist_delta (d_seq d) (h sid ! (d_seq d - 1))"
proof -
  have "shard_inv sid sh (h sid)" using assms(1,2) by (auto simp: log_inv_def split: option.splits)
  with assms(3) show ?thesis by (auto simp: shard_inv_def)
qed

lemma derived_key_unique:
  assumes "routed home h" "a \<in> set (h i)" "b \<in> set (h j)" "m \<le> u64_max" "n \<le> u64_max"
    and "derive_inline_key (ar_hashed_key (fst a)) m = derive_inline_key (ar_hashed_key (fst b)) n"
  shows "i = j \<and> m = n"
proof -
  let ?a = "ar_hashed_key (fst a)" and ?b = "ar_hashed_key (fst b)"
  have l: "length ?a = 32" "length ?b = 32" "home (take 24 ?a) = (i, ?a)" "home (take 24 ?b) = (j, ?b)"
    using assms(1-3) by (auto simp: routed_def)
  have "take 24 ?a = take 24 ?b"
    using assms(6) l(1,2) derive_inline_key_prefix [of ?a m] derive_inline_key_prefix [of ?b n] by simp
  with l(3,4) have e: "i = j" "?a = ?b" by (metis prod.inject)+
  from assms(6) have "derive_inline_key ?a m = derive_inline_key ?a n" unfolding e(2) .
  with assms(4,5) l(1) e(1) show ?thesis using derive_inline_key_seq by blast
qed

lemma delete_keys_view:
  assumes "inline_store ops view (\<lambda>_. True)"
  shows "delete_keys ops i ks = (i', Ok ()) \<Longrightarrow> k \<notin> set ks \<Longrightarrow> view i' k = view i k"
proof (induction ks arbitrary: i)
  case (Cons x ks)
  obtain i1 r where d: "is_delete ops i x = (i1, r)" by fastforce
  have "view i1 k = view i k"
  proof (cases r)
    case (Ok b)
    then show ?thesis using inline_store.delete_ok [OF assms _ d [unfolded Ok]] Cons.prems by auto
  next
    case (Err e)
    then show ?thesis using inline_store.delete_err [OF assms _ d [unfolded Err]] by auto
  next
    case Panic
    then show ?thesis using d Cons.prems by simp
  qed
  moreover have "delete_keys ops i1 ks = (i', Ok ())" using Cons.prems(1) d by (cases r) auto
  ultimately show ?case using Cons by simp
qed simp

lemma delete_payloads_keep:
  assumes store: "inline_store ops view (\<lambda>_. True)" and inv: "log_inv (s, h)" "routed home h"
    and k: "ms_shards s k = Some sh"
    and del: "delete_payloads ops (\<lambda>d. Q (d_seq d)) (sh_deltas sh) s = (s1, Ok ())"
    and e: "ms_shards s a = Some y" "e \<in> set (sh_deltas y)" "a = k \<Longrightarrow> \<not> Q (d_seq e)"
    and i: "ms_inline_store s = Some i" "view i (derive_inline_key (d_key e) (d_seq e)) = Some p"
  shows "\<exists>i'. ms_inline_store s1 = Some i' \<and> view i' (derive_inline_key (d_key e) (d_seq e)) = Some p"
proof -
  let ?ks = "map (\<lambda>d. derive_inline_key (d_key d) (d_seq d))
               (filter (\<lambda>d. Q (d_seq d) \<and> dh_has_inline_data (d_header d)) (sh_deltas sh))"
  obtain i' where d: "delete_keys ops i ?ks = (i', Ok ())" "ms_inline_store s1 = Some i'"
    using del i(1) by (auto simp: delete_payloads_def Let_def split: prod.splits)
  have "derive_inline_key (d_key e) (d_seq e) \<notin> set ?ks"
  proof
    assume "derive_inline_key (d_key e) (d_seq e) \<in> set ?ks"
    then obtain d where d: "d \<in> set (sh_deltas sh)" "Q (d_seq d)"
      "derive_inline_key (d_key e) (d_seq e) = derive_inline_key (d_key d) (d_seq d)" by auto
    have he: "h a ! (d_seq e - 1) \<in> set (h a)" "d_seq e \<le> u64_max" "d_key e = ar_hashed_key (fst (h a ! (d_seq e - 1)))"
      using log_inv_delta [OF inv(1) e(1,2)] hist_delta_fields(2) by (auto, metis)
    have hd: "h k ! (d_seq d - 1) \<in> set (h k)" "d_seq d \<le> u64_max" "d_key d = ar_hashed_key (fst (h k ! (d_seq d - 1)))"
      using log_inv_delta [OF inv(1) k d(1)] hist_delta_fields(2) by (auto, metis)
    from derived_key_unique [OF inv(2) he(1) hd(1) he(2) hd(2)] d(3) he(3) hd(3)
    have "a = k" "d_seq e = d_seq d" by auto
    with e(3) d(2) show False by simp
  qed
  from delete_keys_view [OF store d(1) this] i(2) d(2) show ?thesis by auto
qed

lemma shrinks_deltas:
  assumes "shard_shrinks sid old (Some sh')" "d \<in> set (sh_deltas sh')"
  obtains sh where "old = Some sh" "d \<in> set (sh_deltas sh)"
  using assms by (cases old) (auto simp: shard_shrinks_def)

lemma payload_shrink:
  assumes "payload_inv view s h" "ms_inline_store s' = ms_inline_store s"
    and "\<And>sid. shard_shrinks sid (ms_shards s sid) (ms_shards s' sid)"
  shows "payload_inv view s' h"
  unfolding payload_inv_def
proof (intro allI impI)
  fix sid sh d assume a: "ms_shards s' sid = Some sh" "d \<in> set (sh_deltas sh)" "snd (h sid ! (d_seq d - 1))"
  from assms(3) [of sid] a(1) have "shard_shrinks sid (ms_shards s sid) (Some sh)" by simp
  then obtain sh0 where "ms_shards s sid = Some sh0" "d \<in> set (sh_deltas sh0)"
    using a(2) by (rule shrinks_deltas)
  then show "\<exists>i. ms_inline_store s' = Some i \<and>
      view i (derive_inline_key (d_key d) (d_seq d)) = Some (ar_payload (fst (h sid ! (d_seq d - 1))))"
    using assms(1,2) a(3) unfolding payload_inv_def by auto
qed

lemma payload_delete:
  assumes store: "inline_store ops view (\<lambda>_. True)" and inv: "log_inv (s, h)" "routed home h" "payload_inv view s h"
    and k: "ms_shards s k = Some sh"
    and del: "delete_payloads ops (\<lambda>d. Q (d_seq d)) (sh_deltas sh) s = (s1, Ok ())"
    and new: "set (sh_deltas sh') \<subseteq> {d \<in> set (sh_deltas sh). \<not> Q (d_seq d)}"
  shows "payload_inv view (put_shard k sh' s1) h"
  unfolding payload_inv_def
proof (intro allI impI)
  fix sid y d assume a: "ms_shards (put_shard k sh' s1) sid = Some y" "d \<in> set (sh_deltas y)" "snd (h sid ! (d_seq d - 1))"
  have fr: "ms_shards s1 = ms_shards s" using delete_payloads_frame [OF del] by simp
  obtain y0 where y0: "ms_shards s sid = Some y0" "d \<in> set (sh_deltas y0)" "sid = k \<Longrightarrow> \<not> Q (d_seq d)"
  proof (cases "sid = k")
    case True
    with a(1,2) new have "d \<in> set (sh_deltas sh)" "\<not> Q (d_seq d)" by auto
    with True k show ?thesis by (intro that) auto
  next
    case False
    with a(1,2) fr show ?thesis by (intro that) auto
  qed
  from inv(3) y0(1,2) a(3) obtain i where i: "ms_inline_store s = Some i"
    "view i (derive_inline_key (d_key d) (d_seq d)) = Some (ar_payload (fst (h sid ! (d_seq d - 1))))"
    unfolding payload_inv_def by blast
  from delete_payloads_keep [OF store inv(1,2) k del y0 i]
  show "\<exists>i. ms_inline_store (put_shard k sh' s1) = Some i \<and>
      view i (derive_inline_key (d_key d) (d_seq d)) = Some (ar_payload (fst (h sid ! (d_seq d - 1))))" by simp
qed

lemma payload_truncate:
  assumes "inline_store ops view (\<lambda>_. True)" "log_inv (s, h)" "routed home h" "payload_inv view s h"
    and "truncate_log ops k s = (s', r)" "r \<noteq> Panic"
  shows "payload_inv view s' h"
  using truncate_log_eq [OF assms(5,6)]
proof (elim disjE exE conjE)
  fix sh s1 assume a: "ms_shards s k = Some sh"
    "delete_payloads ops (\<lambda>d. d_seq d < shard_boundary sh) (sh_deltas sh) s = (s1, Ok ())"
    "s' = put_shard k (sh\<lparr>sh_deltas := filter (\<lambda>d. d_seq d \<ge> shard_boundary sh) (sh_deltas sh),
                            sh_gc_floor := shard_boundary sh\<rparr>) s1"
  show ?thesis unfolding a(3)
    by (rule payload_delete [where Q = "\<lambda>n. n < shard_boundary sh", OF assms(1-4) a(1,2)]) auto
qed (use assms(4) in simp)

lemma payload_compact:
  assumes "inline_store ops view (\<lambda>_. True)" "log_inv (s, h)" "routed home h" "payload_inv view s h"
    and "compact_shard ops k s = (s', r)" "r \<noteq> Panic"
  shows "payload_inv view s' h"
  using compact_shard_eq [OF assms(5,6)]
proof (elim disjE exE conjE)
  fix sh s1 surv assume a: "ms_shards s k = Some sh"
    "surv = compact_surviving (shard_boundary sh) (sh_deltas sh)"
    "delete_payloads ops (\<lambda>d. d_seq d \<notin> d_seq ` set surv) (sh_deltas sh) s = (s1, Ok ())"
    "s' = put_shard k (sh\<lparr>sh_deltas := sort_key d_seq surv,
                   sh_info := (sh_info sh)\<lparr>si_delta_count := length surv\<rparr>\<rparr>) s1"
  show ?thesis unfolding a(4)
    by (rule payload_delete [where Q = "\<lambda>n. n \<notin> d_seq ` set surv", OF assms(1-4) a(1,3)])
       (use set_compact_surviving [of "shard_boundary sh" "sh_deltas sh"] a(2) in auto)
qed (use assms(4) in simp)

lemma log_op_inline:
  assumes "log_op ops x s = (s', r)" "\<And>k. x \<noteq> OpTruncate k \<and> x \<noteq> OpCompact k"
  shows "ms_inline_store s' = ms_inline_store s"
  using assms by (cases x)
   (auto simp: create_shard_def set_shard_config_def set_shard_state_def update_shard_range_def
      register_consumer_def advance_watermark_def report_consumer_position_def merge_shards_def Let_def
      set_split_target_def set_maintenance_def take_split_buffer_def split: option.splits if_splits)

lemma payload_op:
  assumes "inline_store ops view (\<lambda>_. True)" "log_inv (s, h)" "routed home h" "payload_inv view s h"
    and "log_op ops x s = (s', r)" "r \<noteq> Panic"
  shows "payload_inv view s' h"
proof -
  consider (t) k where "x = OpTruncate k" | (c) k where "x = OpCompact k"
    | (o) "\<And>k. x \<noteq> OpTruncate k \<and> x \<noteq> OpCompact k" by blast
  then show ?thesis
  proof cases
    case (t k)
    with assms(5) have "quiet (truncate_log ops k s) = (s', r)" by simp
    then show ?thesis by (rule quiet_cases) (use assms(6) payload_truncate [OF assms(1-4)] in blast)
  next
    case (c k)
    with assms(5) have "quiet (compact_shard ops k s) = (s', r)" by simp
    then show ?thesis by (rule quiet_cases) (use assms(6) payload_compact [OF assms(1-4)] in blast)
  next
    case o
    from payload_shrink [OF assms(4) log_op_inline [OF assms(5) o] log_op_shrinks [OF assms(5,6)]]
    show ?thesis .
  qed
qed

lemma offload_view:
  assumes "inline_store ops view (\<lambda>_. True)" "offload ops req n s = (s1, Ok ct)"
  shows "if offloads req s
         then \<exists>i i'. ms_inline_store s = Some i \<and> ms_inline_store s1 = Some i' \<and>
                view i' = (view i)(derive_inline_key (ar_hashed_key req) n \<mapsto> ar_payload req)
         else s1 = s"
proof (cases "offloads req s")
  case True
  then obtain i where i: "ms_inline_store s = Some i" by (auto simp: offloads_def)
  obtain u r where u: "is_put ops i (derive_inline_key (ar_hashed_key req) n) (ar_payload req) = (u, r)" by fastforce
  with assms(2) True i obtain b where b: "r = Ok b" "ms_inline_store s1 = Some u"
    unfolding offload_eq by (cases r) auto
  from inline_store.put_ok [OF assms(1) _ u [unfolded b(1)]] i b True show ?thesis by simp
qed (use assms(2) in \<open>simp add: offload_eq\<close>)

lemma payload_logged:
  assumes store: "inline_store ops view (\<lambda>_. True)" and inv: "log_inv (s, h)" "payload_inv view s h"
    and rt: "routed home (h(sid := h sid @ [(req, offloads req s)]))" and sid: "sid = ar_shard_id req"
    and sh: "ms_shards s sid = Some shard" "n = si_tip (sh_info shard) + 1" "n \<le> u64_max"
    and off: "offload ops req n s = (s1, Ok ct)"
  shows "payload_inv view (put_shard sid (logged_shard req n ct shard) s1)
           (h(sid := h sid @ [(req, offloads req s)]))" (is "payload_inv view ?s ?h")
  unfolding payload_inv_def
proof (intro allI impI)
  fix a y d
  assume a: "ms_shards ?s a = Some y" "d \<in> set (sh_deltas y)" "snd (?h a ! (d_seq d - 1))"
  let ?key = "derive_inline_key (d_key d) (d_seq d)" and ?p = "ar_payload (fst (?h a ! (d_seq d - 1)))"
  have fr: "ms_shards s1 = ms_shards s" using offload_frame [OF off] by simp
  have n: "n = Suc (length (h sid))"
    using inv(1) sh(1,2) by (auto simp: log_inv_def shard_inv_def split: option.splits)
  show "\<exists>i. ms_inline_store ?s = Some i \<and> view i ?key = Some ?p"
  proof (cases "a = sid \<and> d = mk_delta req n ct")
    case True
    then have d: "d_seq d = n" "d_key d = ar_hashed_key req" by (auto simp: mk_delta_def)
    with a(3) True n have "offloads req s" by simp
    with offload_view [OF store off] d True n show ?thesis by auto
  next
    case False
    then obtain y0 where y0: "ms_shards s a = Some y0" "d \<in> set (sh_deltas y0)"
      using a(1,2) fr sh(1) by (cases "a = sid") (auto simp: logged_shard_def)
    from log_inv_delta [OF inv(1) y0] have
      l: "1 \<le> d_seq d" "d_seq d \<le> length (h a)" "length (h a) \<le> u64_max" "h a ! (d_seq d - 1) \<in> set (h a)"
      and dk: "d_key d = ar_hashed_key (fst (h a ! (d_seq d - 1)))"
      using hist_delta_fields(2) by (auto, metis)
    have e: "?h a ! (d_seq d - 1) = h a ! (d_seq d - 1)" using l(1,2) by (auto simp: nth_append)
    from inv(2) y0 a(3) obtain i where i: "ms_inline_store s = Some i" "view i ?key = Some ?p"
      unfolding payload_inv_def e by blast
    have "?key \<noteq> derive_inline_key (ar_hashed_key req) n"
    proof
      assume k: "?key = derive_inline_key (ar_hashed_key req) n"
      have m: "h a ! (d_seq d - 1) \<in> set (?h a)" "(req, offloads req s) \<in> set (?h sid)" using l(4) by auto
      from derived_key_unique [OF rt m _ sh(3), of "d_seq d"] k dk l have "a = sid" "d_seq d = n" by auto
      with n l(2) show False by simp
    qed
    with offload_view [OF store off] i show ?thesis by (auto split: if_splits)
  qed
qed

lemma routed_mono: "routed home (h(sid := h sid @ xs)) \<Longrightarrow> routed home h"
  unfolding routed_def by (auto simp: fun_upd_apply split: if_splits)

lemma payload_step:
  assumes store: "inline_store ops view (\<lambda>_. True)" and inv: "log_inv (s, h)"
    and pl: "routed home h \<Longrightarrow> payload_inv view s h"
    and st: "log_step ops (s, h) (s', h')" and rt: "routed home h'"
  shows "payload_inv view s' h'"
  using st
proof cases
  case (append_logged req n)
  let ?sid = "ar_shard_id req"
  have rt': "routed home h" using rt append_logged(1) routed_mono by blast
  from append_logged(2) show ?thesis
  proof (cases rule: append_delta_cases)
    case (logged shard m s1 ct)
    from payload_logged [OF store inv pl [OF rt'] _ refl logged(2,3,4,7)] rt
    show ?thesis unfolding append_logged(1) logged(8) by simp
  next
    case (buffered shard)
    have "ms_split_buffer s' ?sid \<noteq> ms_split_buffer s ?sid" unfolding buffered by (auto split: option.splits)
    then show ?thesis using append_logged(3) by simp
  qed (use append_logged in auto)
next
  case (append_buffered req n)
  from append_buffered(2) show ?thesis
  proof (cases rule: append_delta_cases)
    case (logged shard m s1 ct)
    then show ?thesis using append_buffered(3) offload_frame [OF logged(7)] by simp
  next
    case (buffered shard)
    then show ?thesis using pl rt append_buffered(1) by (simp add: payload_inv_def)
  qed (use append_buffered in auto)
next
  case (append_failed req e)
  have p: "payload_inv view s h" using pl rt append_failed(1) by simp
  from append_failed(2) show ?thesis
  proof (cases rule: append_delta_cases)
    case (failed e')
    from failed(5) show ?thesis
    proof (elim disjE exE conjE)
      assume "ms_inline_store s' = ms_inline_store s"
      then show ?thesis using p failed(2) append_failed(1) by (simp add: payload_inv_def)
    next
      fix i k d u assume i: "ms_inline_store s = Some i" "is_put ops i k d = (u, Err ())" "ms_inline_store s' = Some u"
      then have "view u = view i" using inline_store.put_err [OF store _ i(2)] by simp
      then show ?thesis using p i failed(2) append_failed(1) by (simp add: payload_inv_def)
    qed
  qed (use append_failed in auto)
next
  case (attach i r)
  have p: "payload_inv view s h" using pl rt attach(1) by simp
  show ?thesis
  proof (cases "ms_inline_store s")
    case None
    then have "ms_shards s' = ms_shards s" using attach(2) by (auto simp: set_inline_store_def)
    then show ?thesis using p None attach(1) by (fastforce simp: payload_inv_def)
  next
    case (Some j)
    then show ?thesis using p attach by (auto simp: set_inline_store_def)
  qed
next
  case (other x r)
  from payload_op [OF store inv _ _ other(2,3)] pl rt other(1) show ?thesis by simp
qed

lemma reach_payload:
  assumes "inline_store ops view (\<lambda>_. True)"
  shows "reach log_init (log_step ops) st \<Longrightarrow> routed home (snd st) \<Longrightarrow> payload_inv view (fst st) (snd st)"
proof (induction rule: reach.induct)
  case (reach_init st)
  then show ?case by (simp add: log_init_def payload_inv_def ms_new_def)
next
  case (reach_step st st')
  obtain s h s' h' where e: "st = (s, h)" "st' = (s', h')" by fastforce
  have "log_inv (s, h)" using log.reach_inv [OF reach_step(1)] e by simp
  from payload_step [where home = home, OF assms this _ reach_step(2) [unfolded e]] reach_step(3,4) e
  show ?case by simp
qed

section \<open>Watermarks, live deltas, replay\<close>

lemma foldr_min: "foldr min xs (x :: nat) \<le> x \<and> (\<forall>y \<in> set xs. foldr min xs x \<le> y) \<and> foldr min xs x \<in> insert x (set xs)"
  by (induction xs) (auto simp: min_def)

lemma wm_gc_boundary_min:
  assumes "wm_gc_boundary w = Some b"
  shows "(\<forall>x \<in> set w. b \<le> snd x) \<and> b \<in> snd ` set w"
  using assms foldr_min [of "map snd w" "snd (hd w)"]
  by (cases w) (auto simp: wm_gc_boundary_def split: if_splits)

text \<open>What replaying a log yields for a key: its last delta, unless that is a tombstone.\<close>

definition live :: "Delta list \<Rightarrow> bytes \<Rightarrow> Delta option" where
  "live ds k = (let xs = filter (\<lambda>d. d_key d = k) ds in
     if xs = [] \<or> dh_tombstone (d_header (last xs)) then None else Some (last xs))"

lemma seq_sorted_last: "seq_sorted xs \<Longrightarrow> e \<in> set xs \<Longrightarrow> d_seq e \<le> d_seq (last xs)"
  by (induction xs rule: rev_induct) (auto simp: sorted_wrt_append less_imp_le)

lemma filter_single:
  assumes "distinct xs" "set (filter P xs) \<subseteq> {x}"
  shows "filter P xs = (if x \<in> set xs \<and> P x then [x] else [])"
  using assms
proof (induction xs)
  case (Cons y ys)
  have "distinct ys" "set (filter P ys) \<subseteq> {x}" using Cons.prems by (auto split: if_splits)
  note ih = Cons.IH [OF this]
  show ?case
  proof (cases "P y")
    case True
    then have y: "y = x" using Cons.prems(2) by simp
    then have "filter P ys = []" using ih Cons.prems(1) by simp
    then show ?thesis using True y by simp
  next
    case False
    then show ?thesis using ih by auto
  qed
qed simp

lemma survivors_of_key:
  assumes "seq_sorted ds" and last: "filter (\<lambda>d. d_key d = k) ds = xs" "xs \<noteq> []"
  shows "set (filter (\<lambda>d. d_key d = k) (compact_surviving b ds)) =
           (if dh_tombstone (d_header (last xs)) \<and> d_seq (last xs) < b then {} else {last xs})"
proof -
  have xs: "seq_sorted xs" using seq_sorted_filter [OF assms(1)] last(1) by blast
  have m: "e \<in> set xs \<longleftrightarrow> e \<in> set ds \<and> d_key e = k" for e using last(1) by auto
  have l: "last xs \<in> set ds" "d_key (last xs) = k" using m [of "last xs"] last(2) by auto
  have uniq: "e = last xs" if "e \<in> set ds" "d_key e = k" "\<forall>f \<in> set ds. d_key f = d_key e \<longrightarrow> d_seq f \<le> d_seq e" for e
  proof -
    have "d_seq e = d_seq (last xs)" using that l seq_sorted_last [OF xs] m by (simp add: order_antisym)
    then show ?thesis using seq_sorted_inj [OF assms(1)] that(1) l(1) by (auto dest: inj_onD)
  qed
  have top: "\<forall>f \<in> set ds. d_key f = k \<longrightarrow> d_seq f \<le> d_seq (last xs)"
    using seq_sorted_last [OF xs] m by blast
  have "{d \<in> set (latest ds). d_key d = k} = {last xs}"
    unfolding set_latest [OF assms(1)] using uniq top l by blast
  moreover have "set (filter (\<lambda>d. d_key d = k) (compact_surviving b ds)) =
      {d \<in> {d \<in> set (latest ds). d_key d = k}. \<not> (dh_tombstone (d_header d) \<and> d_seq d < b)}"
    by (auto simp: compact_surviving_def)
  ultimately show ?thesis by simp blast
qed

lemma live_compact:
  assumes "seq_sorted ds"
  shows "live (sort_key d_seq (compact_surviving b ds)) k = live ds k"
proof (cases "filter (\<lambda>d. d_key d = k) ds")
  case Nil
  then have "filter (\<lambda>d. d_key d = k) (sort_key d_seq (compact_surviving b ds)) = []"
    using set_compact_surviving [of b ds] by (auto simp: filter_empty_conv)
  then show ?thesis using Nil by (simp add: live_def)
next
  case (Cons x xs)
  let ?l = "last (x # xs)" and ?c = "sort_key d_seq (compact_surviving b ds)"
  have f: "set (filter (\<lambda>d. d_key d = k) ?c) = (if dh_tombstone (d_header ?l) \<and> d_seq ?l < b then {} else {?l})"
    using survivors_of_key [OF assms Cons, of b] by (simp only: set_filter set_sort list.simps simp_thms)
  have "distinct ?c" using seq_sorted_inj [OF seq_sorted_survivors [OF assms]] by blast
  from filter_single [OF this, of "\<lambda>d. d_key d = k" ?l] f
  have "filter (\<lambda>d. d_key d = k) ?c = (if dh_tombstone (d_header ?l) \<and> d_seq ?l < b then [] else [?l])"
    by (auto split: if_splits)
  then show ?thesis unfolding live_def Cons Let_def by auto
qed

lemma offloads_cong: "ms_inline_store s' = None \<longleftrightarrow> ms_inline_store s = None \<Longrightarrow> offloads r s' = offloads r s"
  by (simp add: offloads_def)

lemma offload_attached:
  "offload ops req n s = (s', r) \<Longrightarrow> ms_inline_store s' = None \<longleftrightarrow> ms_inline_store s = None"
  unfolding offload_eq by (auto simp: offloads_def split: if_splits prod.splits)

abbreviation retarget :: "nat \<Rightarrow> AppendDeltaRequest \<Rightarrow> AppendDeltaRequest" where
  "retarget t r \<equiv> r\<lparr>ar_shard_id := t\<rparr>"

lemma replay_ok:
  "replay ops t reqs s = (s', Ok ()) \<Longrightarrow> ms_shards s t = Some sh \<Longrightarrow> si_state (sh_info sh) \<noteq> Splitting \<Longrightarrow>
     ms_split_buffer s' = ms_split_buffer s \<and>
     (\<forall>k. k \<noteq> t \<longrightarrow> ms_shards s' k = ms_shards s k) \<and>
     (\<exists>sh'. ms_shards s' t = Some sh' \<and> si_tip (sh_info sh') = si_tip (sh_info sh) + length reqs \<and>
        sh_deltas sh' = sh_deltas sh @
          map2 (\<lambda>n r. hist_delta n (retarget t r, offloads r s))
            [Suc (si_tip (sh_info sh))..<Suc (si_tip (sh_info sh) + length reqs)] reqs)"
proof (induction reqs arbitrary: s sh)
  case (Cons r reqs)
  from Cons.prems(1) obtain s1 n where a: "append_delta ops (retarget t r) s = (s1, Ok n)"
    and rest: "replay ops t reqs s1 = (s', Ok ())" by auto
  from a show ?case
  proof (cases rule: append_delta_cases)
    case (logged shard m s2 ct)
    let ?sh = "logged_shard (retarget t r) m ct sh" and ?m = "si_tip (sh_info sh)"
    have e: "shard = sh" "m = Suc ?m" using logged(2,3) Cons.prems(2) by auto
    have fr: "ms_shards s2 = ms_shards s" "ms_split_buffer s2 = ms_split_buffer s"
      "ct = (if offloads (retarget t r) s then [] else ar_payload r)"
      using offload_frame [OF logged(7)] by auto
    have s1: "ms_shards s1 t = Some ?sh" "si_state (sh_info ?sh) \<noteq> Splitting" "si_tip (sh_info ?sh) = Suc ?m"
      "sh_deltas ?sh = sh_deltas sh @ [hist_delta (Suc ?m) (retarget t r, offloads r s)]"
      "ms_split_buffer s1 = ms_split_buffer s" "\<And>k. k \<noteq> t \<Longrightarrow> ms_shards s1 k = ms_shards s k"
      "offloads x s1 = offloads x s" for x
      using logged(8) e fr Cons.prems(3) offload_attached [OF logged(7)]
      by (auto simp: logged_shard_def offloads_def)
    have u: "[Suc ?m..<Suc (?m + length (r # reqs))] = Suc ?m # [Suc (Suc ?m)..<Suc (Suc ?m + length reqs)]"
      by (subst upt_conv_Cons) simp_all
    from Cons.IH [OF rest s1(1,2)] show ?thesis unfolding s1(3,4,7) u by (simp add: s1(5,6))
  next
    case (buffered shard)
    then show ?thesis using Cons.prems(2,3) by simp
  qed auto
qed simp

lemma reach_append:
  assumes "reach log_init (log_step ops) (s, h)" "append_delta ops req s = (s', Ok n)"
    and "ms_split_buffer s' = ms_split_buffer s"
  shows "reach log_init (log_step ops) (s', h(ar_shard_id req := h (ar_shard_id req) @ [(req, offloads req s)]))"
  by (rule reach_step [OF assms(1)], rule append_logged [OF assms(2,3)])

lemma reach_op:
  assumes "reach log_init (log_step ops) (s, h)" "log_op ops x s = (s', r)" "r \<noteq> Panic"
  shows "reach log_init (log_step ops) (s', h)"
  by (rule reach_step [OF assms(1)], rule other [OF assms(2,3)])

section \<open>A run of the store\<close>

abbreviation mem_ops :: "((bytes \<Rightarrow> bytes option) \<times> nat option) SmallObjectStore InlineStore" where
  "mem_ops \<equiv> so_ops map_kv"

definition demo_key :: "u8 \<Rightarrow> bytes" where
  "demo_key b = b # replicate 31 0"

definition demo_ts :: DeltaTimestamp where
  "demo_ts = \<lparr>ts_hlc = hlc_zero 1, ts_wall = \<lparr>millis_since_epoch = 0, timezone = ''UTC''\<rparr>, ts_quality = Ntp\<rparr>"

definition demo_req :: "nat \<Rightarrow> u8 \<Rightarrow> OperationType \<Rightarrow> bytes \<Rightarrow> bool \<Rightarrow> AppendDeltaRequest" where
  "demo_req sid b op payload inline =
     \<lparr>ar_shard_id = sid, ar_tenant_id = 1, ar_operation = op, ar_timestamp = demo_ts,
      ar_hashed_key = demo_key b, ar_chunk_refs = [], ar_payload = payload, ar_has_inline_data = inline\<rparr>"

definition demo_inline :: "((bytes \<Rightarrow> bytes option) \<times> nat option) SmallObjectStore" where
  "demo_inline = \<lparr>so_objects = (\<lambda>_. None, None), so_sync_per_write = True, so_approx_len = 0\<rparr>"

definition demo_sh0 :: MemShard where
  "demo_sh0 = \<lparr>sh_info = \<lparr>si_shard_id = 1, si_tenant_id = 1, si_raft_members = [1], si_leader = Some 1,
       si_tip = 0, si_delta_count = 0, si_byte_size = 0, si_state = Healthy,
       si_config = shard_config_default, si_range_start = replicate 32 0,
       si_range_end = replicate 32 0xff\<rparr>, sh_deltas = [], sh_watermarks = [], sh_gc_floor = 0\<rparr>"

definition demo_r1 :: AppendDeltaRequest where "demo_r1 = demo_req 1 0x10 Create [1, 2] True"

definition demo_r2 :: AppendDeltaRequest where "demo_r2 = demo_req 1 0x10 Update [3] False"

definition demo_r3 :: AppendDeltaRequest where "demo_r3 = demo_req 1 0x90 Create [4] False"

definition demo_sh1 :: MemShard where "demo_sh1 = logged_shard demo_r1 1 [] demo_sh0"

definition demo_sh2 :: MemShard where "demo_sh2 = logged_shard demo_r2 2 [3] demo_sh1"

definition demo_sh3 :: MemShard where "demo_sh3 = logged_shard demo_r3 3 [4] demo_sh2"

definition demo_d :: "Delta list" where
  "demo_d = [mk_delta demo_r1 1 [], mk_delta demo_r2 2 [3], mk_delta demo_r3 3 [4]]"

type_synonym demo_store = "((bytes \<Rightarrow> bytes option) \<times> nat option) SmallObjectStore MemShardStore"

definition demo0 :: demo_store where
  "demo0 = \<lparr>ms_shards = [1 \<mapsto> demo_sh0], ms_inline_store = Some demo_inline,
     ms_split_targets = (\<lambda>_. None), ms_split_buffer = (\<lambda>_. None)\<rparr>"

definition demo1 :: demo_store where
  "demo1 = demo0\<lparr>ms_shards := [1 \<mapsto> demo_sh1],
     ms_inline_store := Some \<lparr>so_objects = ([derive_inline_key (demo_key 0x10) 1 \<mapsto> [1, 2]], None),
       so_sync_per_write = True, so_approx_len = 1\<rparr>\<rparr>"

definition demo3 :: demo_store where
  "demo3 = demo1\<lparr>ms_shards := [1 \<mapsto> demo_sh3]\<rparr>"

definition demo_hist :: history where
  "demo_hist = (\<lambda>_. [])(1 := [(demo_r1, True), (demo_r2, False), (demo_r3, False)])"

lemma demo_range:
  assumes "b < 0xff" "si_range_start info = replicate 32 0" "si_range_end info = replicate 32 0xff"
  shows "\<not> out_of_range (demo_key b) info"
proof -
  have "replicate 32 x = x # replicate 31 x" for x :: u8 by (simp add: numeral_eq_Suc)
  moreover have "\<not> (0xff :: u8) < b" "b \<noteq> 0xff" using assms(1) by auto
  ultimately show ?thesis using assms by (simp add: out_of_range_def demo_key_def not_le)
qed

lemma demo_req_fields:
  "ar_shard_id (demo_req sid b op p i) = sid" "ar_hashed_key (demo_req sid b op p i) = demo_key b"
  "ar_payload (demo_req sid b op p i) = p" "ar_has_inline_data (demo_req sid b op p i) = i"
  "ar_operation (demo_req sid b op p i) = op"
  by (simp_all add: demo_req_def)

lemma demo_shard_fields:
  assumes "sh \<in> {demo_sh0, demo_sh1, demo_sh2, demo_sh3}"
  shows "si_state (sh_info sh) = Healthy" "si_range_start (sh_info sh) = replicate 32 0"
    "si_range_end (sh_info sh) = replicate 32 0xff" "si_delta_count (sh_info sh) \<le> 3"
    "si_byte_size (sh_info sh) \<le> 1000"
  using assms by (auto simp: demo_sh0_def demo_sh1_def demo_sh2_def demo_sh3_def logged_shard_def mk_delta_def
      demo_r1_def demo_r2_def demo_r3_def demo_req_fields)

lemma demo_tips:
  "si_tip (sh_info demo_sh0) = 0" "si_tip (sh_info demo_sh1) = 1" "si_tip (sh_info demo_sh2) = 2"
  "si_tip (sh_info demo_sh3) = 3" "sh_deltas demo_sh3 = demo_d" "sh_watermarks demo_sh3 = []"
  by (simp_all add: demo_sh0_def demo_sh1_def demo_sh2_def demo_sh3_def logged_shard_def demo_d_def)

lemma demo_append:
  assumes "sh \<in> {demo_sh0, demo_sh1, demo_sh2, demo_sh3}" "ms_shards s 1 = Some sh" "b < 0xff"
    and "n = si_tip (sh_info sh) + 1" "length p \<le> 100" "offload ops (demo_req 1 b op p i) n s = (s1, Ok ct)"
  shows "append_delta ops (demo_req 1 b op p i) s =
           (put_shard 1 (logged_shard (demo_req 1 b op p i) n ct sh) s1, Ok n)"
proof -
  have "si_tip (sh_info sh) \<le> 3" using assms(1) by (auto simp: demo_tips)
  then show ?thesis using append_delta_logs [of s "demo_req 1 b op p i" sh n ops s1 ct] assms(2-6)
      demo_range [OF assms(3) demo_shard_fields(2,3) [OF assms(1)]] demo_shard_fields(1,4,5) [OF assms(1)]
    by (simp add: demo_req_fields u64_max_val)
qed

lemma demo_bytes: "(0x10 :: u8) < 0xff" "(0x90 :: u8) < 0xff"
  by (simp_all add: word_less_def)

lemma demo_append1: "append_delta mem_ops demo_r1 demo0 = (demo1, Ok 1)"
proof -
  have "offload mem_ops demo_r1 1 demo0 = (demo1\<lparr>ms_shards := ms_shards demo0\<rparr>, Ok [])"
    by (simp add: offload_eq offloads_def demo0_def demo1_def demo_r1_def demo_req_def so_ops_def so_put_def
        so_commit_def map_kv_def demo_inline_def)
  from demo_append [OF _ _ demo_bytes(1) _ _ this [unfolded demo_r1_def], of demo_sh0] show ?thesis
    by (simp add: demo0_def demo1_def demo_tips demo_r1_def put_shard_def demo_sh1_def)
qed

lemma demo_append2: "append_delta mem_ops demo_r2 demo1 = (demo1\<lparr>ms_shards := [1 \<mapsto> demo_sh2]\<rparr>, Ok 2)"
proof -
  have "offload mem_ops demo_r2 2 demo1 = (demo1, Ok [3])"
    by (simp add: offload_eq offloads_def demo_r2_def demo_req_def)
  from demo_append [OF _ _ demo_bytes(1) _ _ this [unfolded demo_r2_def], of demo_sh1] show ?thesis
    by (simp add: demo0_def demo1_def demo_tips demo_r2_def put_shard_def demo_sh2_def)
qed

lemma demo_append3: "append_delta mem_ops demo_r3 (demo1\<lparr>ms_shards := [1 \<mapsto> demo_sh2]\<rparr>) = (demo3, Ok 3)"
proof -
  let ?s = "demo1\<lparr>ms_shards := [1 \<mapsto> demo_sh2]\<rparr>"
  have "offload mem_ops demo_r3 3 ?s = (?s, Ok [4])"
    by (simp add: offload_eq offloads_def demo_r3_def demo_req_def)
  then have "append_delta mem_ops demo_r3 ?s = (put_shard 1 (logged_shard demo_r3 3 [4] demo_sh2) ?s, Ok 3)"
    unfolding demo_r3_def by (intro demo_append) (simp_all add: demo_tips demo_bytes)
  then show ?thesis by (simp add: demo3_def put_shard_def flip: demo_sh3_def)
qed

lemma demo_log_reach: "reach log_init (log_step mem_ops) (demo3, demo_hist)"
proof -
  have "reach log_init (log_step mem_ops) (ms_new, \<lambda>_. [])" by (rule reach_init) (simp add: log_init_def)
  then have "reach log_init (log_step mem_ops) (create_shard 1 1 1 shard_config_default ms_new, \<lambda>_. [])"
    by (rule reach_op [where x = "OpCreate 1 1 1 shard_config_default"]) auto
  moreover have "set_inline_store demo_inline (create_shard 1 1 1 shard_config_default ms_new) = (demo0, Ok ())"
    by (simp add: create_shard_def set_inline_store_def ms_new_def demo0_def demo_sh0_def put_shard_def Let_def)
  ultimately have "reach log_init (log_step mem_ops) (demo0, \<lambda>_. [])"
    by (meson reach_step attach)
  from reach_append [OF this demo_append1]
  have "reach log_init (log_step mem_ops) (demo1, (\<lambda>_. [])(1 := [(demo_r1, True)]))"
    by (simp add: demo0_def demo1_def offloads_def demo_r1_def demo_req_def)
  from reach_append [OF this demo_append2]
  have "reach log_init (log_step mem_ops) (demo1\<lparr>ms_shards := [1 \<mapsto> demo_sh2]\<rparr>,
      (\<lambda>_. [])(1 := [(demo_r1, True), (demo_r2, False)]))"
    by (simp add: offloads_def demo_r2_def demo_req_def)
  from reach_append [OF this demo_append3] show ?thesis
    by (simp add: offloads_def demo_r3_def demo_req_def demo_hist_def demo3_def)
qed

lemma demo3_shard: "ms_shards demo3 1 = Some demo_sh3"
  by (simp add: demo3_def)

section \<open>Guarantees\<close>



lemma state_refuses_accepts:
  "(state_refuses st sid = None) = accepts_writes st"
  "state_refuses st sid = Some e \<Longrightarrow> e \<in> {MaintenanceMode sid, LeaderUnavailable sid, LogQuorumLost sid}"
  by (cases st; simp add: accepts_writes_def)+

lemma append_branch_eqs:
  assumes "ms_shards s (ar_shard_id req) = Some sh"
  shows "state_refuses (si_state (sh_info sh)) (ar_shard_id req) = Some e \<Longrightarrow> append_delta ops req s = (s, Err e)"
    and "state_refuses (si_state (sh_info sh)) (ar_shard_id req) = None \<Longrightarrow>
      out_of_range (ar_hashed_key req) (sh_info sh) \<Longrightarrow>
      append_delta ops req s =
        (if si_state (sh_info sh) = Splitting \<and> ms_split_targets s (ar_shard_id req) \<noteq> None
         then (s\<lparr>ms_split_buffer := (ms_split_buffer s)(ar_shard_id req \<mapsto>
                 (case ms_split_buffer s (ar_shard_id req) of None \<Rightarrow> [] | Some b \<Rightarrow> b) @ [req])\<rparr>, Ok BUFFERED)
         else (s, Err (KeyOutOfRange (ar_shard_id req))))"
  using assms by (simp_all add: append_delta_def Let_def)

lemma append_in_range:
  assumes "ms_shards s (ar_shard_id req) = Some sh" "append_delta ops req s = (s', r)" "r \<noteq> Panic"
    and "state_refuses (si_state (sh_info sh)) (ar_shard_id req) = None"
    and "\<not> out_of_range (ar_hashed_key req) (sh_info sh)"
  shows "((\<exists>n. r = Ok n) \<or> r = Err LogIo \<and> offloads req s) \<and> ms_split_buffer s' = ms_split_buffer s"
proof -
  obtain s1 r1 where o: "offload ops req (si_tip (sh_info sh) + 1) s = (s1, r1)" by fastforce
  have fr: "ms_split_buffer s1 = ms_split_buffer s" using offload_frame [OF o] by simp
  have e: "r1 = Err e \<Longrightarrow> e = LogIo \<and> offloads req s" for e
    using o unfolding offload_eq by (auto split: if_splits prod.splits res.splits)
  show ?thesis using assms o fr e
    by (cases r1) (auto simp: append_delta_def Let_def add_u64_def split: if_splits)
qed

text \<open>Every branch of an append, and what a refused one leaves. A shard that is not there, one whose
  state does not accept writes, and a key outside the shard's range are refused with the error of
  that reason and only then; during a split cutover a key outside the range is put at the end of the
  buffer instead; an error of the inline store is reported as an I/O error. A refused append changes
  no shard, no buffer and no cutover target.\<close>

lemma append_branches:
  assumes "append_delta ops req s = (s', r)" "sid = ar_shard_id req" "r \<noteq> Panic"
  shows "(r = Err (ShardNotFound sid) \<longleftrightarrow> ms_shards s sid = None) \<and>
    (\<forall>sh. ms_shards s sid = Some sh \<longrightarrow>
       ((\<exists>e \<in> {MaintenanceMode sid, LeaderUnavailable sid, LogQuorumLost sid}. r = Err e)
          \<longleftrightarrow> \<not> accepts_writes (si_state (sh_info sh))) \<and>
       (r = Err (KeyOutOfRange sid) \<longleftrightarrow> accepts_writes (si_state (sh_info sh)) \<and>
          out_of_range (ar_hashed_key req) (sh_info sh) \<and>
          \<not> (si_state (sh_info sh) = Splitting \<and> ms_split_targets s sid \<noteq> None)) \<and>
       (split_buffer_len sid s' = split_buffer_len sid s + 1 \<longleftrightarrow> si_state (sh_info sh) = Splitting \<and>
          out_of_range (ar_hashed_key req) (sh_info sh) \<and> ms_split_targets s sid \<noteq> None) \<and>
       (r = Err LogIo \<longrightarrow> offloads req s)) \<and>
    ((\<exists>e. r = Err e) \<longrightarrow> ms_shards s' = ms_shards s \<and> ms_split_buffer s' = ms_split_buffer s \<and>
       ms_split_targets s' = ms_split_targets s)"
proof -
  have frame: "ms_shards s' = ms_shards s \<and> ms_split_buffer s' = ms_split_buffer s \<and>
       ms_split_targets s' = ms_split_targets s" if "r = Err e" for e
    using assms(1) that by (cases rule: append_delta_cases) auto
  show ?thesis
  proof (cases "ms_shards s sid")
    case None
    then show ?thesis using assms frame by (auto simp: append_delta_def Let_def)
  next
    case (Some sh)
    let ?st = "si_state (sh_info sh)"
    note acc = state_refuses_accepts [of ?st sid]
    show ?thesis
    proof (cases "state_refuses ?st sid")
      case (Some e)
      note m = \<open>ms_shards s sid = Some sh\<close>
      have "(s', r) = (s, Err e)" using append_branch_eqs(1) [of s req sh e ops] m Some assms(1,2) by simp
      then show ?thesis using m acc Some by (auto simp: split_buffer_len_def)
    next
      case None
      show ?thesis
      proof (cases "out_of_range (ar_hashed_key req) (sh_info sh)")
        case True
        note a = append_branch_eqs(2) [OF Some [unfolded assms(2)] None [unfolded assms(2)] True, folded assms(2)]
        show ?thesis
          using a Some None True acc(1) assms(1)
          by (cases "?st = Splitting \<and> ms_split_targets s sid \<noteq> None")
             (auto simp: split_buffer_len_def split: option.splits)
      next
        case False
        have "((\<exists>n. r = Ok n) \<or> r = Err LogIo \<and> offloads req s) \<and> ms_split_buffer s' = ms_split_buffer s"
          using append_in_range Some None False assms by simp
        then show ?thesis using Some acc(1) None False frame by (auto simp: split_buffer_len_def)
      qed
    qed
  qed
qed

lemma append_branches_example:
  "append_delta mem_ops (demo_req 2 0x10 Create [] False) demo3 = (demo3, Err (ShardNotFound 2)) \<and>
   ms_shards demo3 2 = None"
proof -
  have a: "append_delta mem_ops (demo_req 2 0x10 Create [] False) demo3 = (demo3, Err (ShardNotFound 2))"
    by (simp add: append_delta_def Let_def demo_req_fields demo3_def)
  from append_branches [OF a, of 2] a show ?thesis by (simp add: demo_req_fields)
qed

text \<open>C17: Garbage collection waits for the slowest consumer (I-L4). A truncation prunes exactly the
  deltas below the smallest registered position, which it returns and reports as the boundary: it
  lies at or below every consumer's position and is the position of one of them, so that whatever
  any consumer reads from its position onwards is the same before and after; with no consumer
  registered nothing is pruned. Other shards are untouched.\<close>

theorem gc_safety:
  assumes "truncate_log ops sid s = (s', Ok b)" "ms_shards s sid = Some sh"
  shows "(\<forall>c p to. (c, p) \<in> set (sh_watermarks sh) \<longrightarrow> b \<le> p \<and>
            read_deltas \<lparr>rr_shard_id = sid, rr_from = p, rr_to = to\<rparr> s' =
            read_deltas \<lparr>rr_shard_id = sid, rr_from = p, rr_to = to\<rparr> s) \<and>
         (if sh_watermarks sh = [] then b = 0 else b \<in> snd ` set (sh_watermarks sh)) \<and>
         gc_boundary sid s' = Ok b \<and>
         (\<exists>sh'. ms_shards s' sid = Some sh' \<and>
            sh_deltas sh' = filter (\<lambda>d. b \<le> d_seq d) (sh_deltas sh) \<and> sh_info sh' = sh_info sh) \<and>
         (\<forall>k. k \<noteq> sid \<longrightarrow> ms_shards s' k = ms_shards s k)"
proof -
  from truncate_log_eq [OF assms(1)] assms(2) obtain s1 where b: "b = shard_boundary sh"
    and d: "delete_payloads ops (\<lambda>d. d_seq d < shard_boundary sh) (sh_deltas sh) s = (s1, Ok ())"
    and s': "s' = put_shard sid (sh\<lparr>sh_deltas := filter (\<lambda>d. d_seq d \<ge> shard_boundary sh) (sh_deltas sh),
                                    sh_gc_floor := shard_boundary sh\<rparr>) s1" by auto
  have fr: "ms_shards s1 = ms_shards s" using delete_payloads_frame [OF d] by simp
  have bd: "if sh_watermarks sh = [] then b = 0 else
      (\<forall>x \<in> set (sh_watermarks sh). b \<le> snd x) \<and> b \<in> snd ` set (sh_watermarks sh)"
    using wm_gc_boundary_min [of "sh_watermarks sh" b] b
    by (auto simp: shard_boundary_def wm_gc_boundary_def split: option.splits if_splits)
  have rd: "read_deltas \<lparr>rr_shard_id = sid, rr_from = p, rr_to = to\<rparr> s' =
      read_deltas \<lparr>rr_shard_id = sid, rr_from = p, rr_to = to\<rparr> s" if "b \<le> p" for p to
  proof -
    have "filter (\<lambda>d. p \<le> d_seq d \<and> d_seq d \<le> to) (filter (\<lambda>d. shard_boundary sh \<le> d_seq d) (sh_deltas sh)) =
        filter (\<lambda>d. p \<le> d_seq d \<and> d_seq d \<le> to) (sh_deltas sh)"
      unfolding filter_filter using that b by (intro filter_cong) auto
    then show ?thesis using assms(2) by (simp add: read_deltas_def s' del: filter_filter)
  qed
  have "b \<le> p" if "(c, p) \<in> set (sh_watermarks sh)" for c p
    using bd that by (cases "sh_watermarks sh = []") (auto dest: bspec)
  with rd bd show ?thesis using fr b by (simp add: s' gc_boundary_def split: if_splits)
qed

definition demo_gc :: demo_store where
  "demo_gc = put_shard 1 (demo_sh3\<lparr>sh_watermarks := [(''view'', 3), (''backup'', 2)]\<rparr>) demo3"

lemma demo_seqs: "d_seq (mk_delta r n c) = n" "d_key (mk_delta r n c) = ar_hashed_key r"
  "dh_tombstone (d_header (mk_delta r n c)) = (ar_operation r = Delete)"
  "dh_has_inline_data (d_header (mk_delta r n c)) = ar_has_inline_data r"
  by (simp_all add: mk_delta_def)

lemma demo_truncate: "snd (truncate_log mem_ops 1 demo_gc) = Ok 2"
  by (simp add: demo_gc_def truncate_log_def shard_boundary_def wm_gc_boundary_def delete_payloads_def
      demo_tips demo_d_def demo_seqs demo_r1_def demo_r2_def demo_r3_def demo_req_fields demo3_def demo1_def
      so_ops_def so_delete_def so_commit_def map_kv_def)

theorem gc_safety_witness:
  "read_deltas \<lparr>rr_shard_id = 1, rr_from = 2, rr_to = 3\<rparr> (fst (truncate_log mem_ops 1 demo_gc)) =
   read_deltas \<lparr>rr_shard_id = 1, rr_from = 2, rr_to = 3\<rparr> demo_gc"
proof -
  have t: "truncate_log mem_ops 1 demo_gc = (fst (truncate_log mem_ops 1 demo_gc), Ok 2)"
    using demo_truncate by (simp add: prod_eq_iff)
  have "ms_shards demo_gc 1 = Some (demo_sh3\<lparr>sh_watermarks := [(''view'', 3), (''backup'', 2)]\<rparr>)"
    by (simp add: demo_gc_def)
  from gc_safety [OF t this] show ?thesis by simp
qed


lemma demo_compact: "snd (compact_shard mem_ops 1 demo3) = Ok 1"
  by (simp add: demo3_def demo1_def compact_shard_def compact_surviving_def latest_def shard_boundary_def
      wm_gc_boundary_def delete_payloads_def demo_tips demo_d_def demo_seqs demo_r1_def demo_r2_def demo_r3_def
      demo_req_fields demo_key_def so_ops_def so_delete_def so_commit_def map_kv_def)



definition demo_home :: "bytes \<Rightarrow> nat \<times> bytes" where
  "demo_home k = (1, k @ replicate 8 0)"

lemma demo_routed: "routed demo_home demo_hist"
proof -
  have "demo_home (take 24 (demo_key b)) = (1, demo_key b)" "length (demo_key b) = 32" for b
    by (simp_all add: demo_home_def demo_key_def numeral_eq_Suc)
  then show ?thesis
    by (auto simp: routed_def demo_hist_def demo_r1_def demo_r2_def demo_r3_def demo_req_fields)
qed


text \<open>The split cutover loses no buffered write (ADR-034). A drain that succeeds, to a target shard
  that is not itself splitting, empties the source's buffer and appends to the target's log exactly
  the buffered requests, in the order they were accepted, with consecutive sequence numbers after
  the target's tip; it returns their number, and no other shard changes.\<close>

lemma cutover_replays_all:
  assumes "drain_split_buffer ops source s = (s', Ok n)" "ms_split_targets s source = Some t"
    and "ms_shards s t = Some sh" "si_state (sh_info sh) \<noteq> Splitting"
    and "ms_split_buffer s source = Some reqs"
  shows "n = length reqs \<and> split_buffer_len source s' = 0 \<and>
         (\<exists>sh'. ms_shards s' t = Some sh' \<and> si_tip (sh_info sh') = si_tip (sh_info sh) + n \<and>
            sh_deltas sh' = sh_deltas sh @
              map2 (\<lambda>m r. hist_delta m (r\<lparr>ar_shard_id := t\<rparr>, offloads r s))
                [Suc (si_tip (sh_info sh))..<Suc (si_tip (sh_info sh) + n)] reqs) \<and>
         (\<forall>k. k \<noteq> t \<longrightarrow> ms_shards s' k = ms_shards s k)"
proof -
  define s1 where "s1 = s\<lparr>ms_split_buffer := (ms_split_buffer s)(source := None)\<rparr>"
  have r: "replay ops t reqs s1 = (s', Ok ())" "n = length reqs"
    using assms(1,2,5) by (auto simp: drain_split_buffer_def take_split_buffer_def s1_def Let_def)
  have s1: "ms_shards s1 = ms_shards s" "ms_split_buffer s1 source = None" "offloads x s1 = offloads x s" for x
    by (simp_all add: s1_def offloads_def)
  from replay_ok [OF r(1)] assms(3,4) show ?thesis
    by (simp add: s1 r(2) split_buffer_len_def)
qed

definition demo_cut :: demo_store where
  "demo_cut = demo3\<lparr>ms_split_targets := [5 \<mapsto> 1], ms_split_buffer := [5 \<mapsto> [demo_req 5 0x90 Create [7] False]]\<rparr>"

lemma demo_drain: "snd (drain_split_buffer mem_ops 5 demo_cut) = Ok 1"
proof -
  let ?s = "demo_cut\<lparr>ms_split_buffer := (ms_split_buffer demo_cut)(5 := None)\<rparr>"
  have q: "retarget t (demo_req a b op p i) = demo_req t b op p i" for t a b op p i
    by (simp add: demo_req_def)
  have "append_delta mem_ops (demo_req 1 0x90 Create [7] False) ?s =
      (put_shard 1 (logged_shard (demo_req 1 0x90 Create [7] False) 4 [7] demo_sh3) ?s, Ok 4)"
    by (intro demo_append) (simp_all add: demo_tips demo_bytes demo_cut_def demo3_def offload_eq offloads_def demo_req_fields)
  then show ?thesis
    by (simp add: drain_split_buffer_def take_split_buffer_def demo_cut_def q)
qed

lemma cutover_replays_all_example:
  "\<exists>sh'. ms_shards (fst (drain_split_buffer mem_ops 5 demo_cut)) 1 = Some sh' \<and> si_tip (sh_info sh') = 4 \<and>
     length (sh_deltas sh') = 4"
proof -
  have d: "drain_split_buffer mem_ops 5 demo_cut = (fst (drain_split_buffer mem_ops 5 demo_cut), Ok 1)"
    using demo_drain by (simp add: prod_eq_iff)
  have f: "ms_split_targets demo_cut 5 = Some 1" "ms_shards demo_cut 1 = Some demo_sh3"
    "ms_split_buffer demo_cut 5 = Some [demo_req 5 0x90 Create [7] False]"
    by (simp_all add: demo_cut_def demo3_def)
  have "si_state (sh_info demo_sh3) \<noteq> Splitting" using demo_shard_fields(1) [of demo_sh3] by simp
  from cutover_replays_all [OF d f(1,2) this f(3)] show ?thesis by (auto simp: demo_tips demo_d_def)
qed

text \<open>The split of the demonstration store: one delta moves, and the new shard's tip is 1.\<close>

definition demo_n0 :: MemShard where
  "demo_n0 = \<lparr>sh_info = \<lparr>si_shard_id = 2, si_tenant_id = 1, si_raft_members = [1], si_leader = Some 1,
      si_tip = 1, si_delta_count = 1, si_byte_size = 129, si_state = Healthy, si_config = shard_config_default,
      si_range_start = replicate 32 127, si_range_end = replicate 32 0xff\<rparr>,
      sh_deltas = [mk_delta demo_r3 3 [4]], sh_watermarks = [], sh_gc_floor = 0\<rparr>"

abbreviation demo_q :: AppendDeltaRequest where
  "demo_q \<equiv> demo_req 2 0x90 Create [] False"

definition demo_n1 :: MemShard where
  "demo_n1 = logged_shard demo_q 2 [] demo_n0"

definition demo_n2 :: MemShard where
  "demo_n2 = logged_shard demo_q 3 [] demo_n1"

lemma demo_split_keys:
  "\<not> demo_key 0x10 \<ge> replicate 32 127" "demo_key 0x90 \<ge> replicate 32 127" "demo_key 0x90 < replicate 32 0xff"
proof -
  have r32: "replicate 32 x = x # replicate 31 x" for x :: u8 by (simp add: numeral_eq_Suc)
  show "\<not> demo_key 0x10 \<ge> replicate 32 127" "demo_key 0x90 \<ge> replicate 32 127"
    "demo_key 0x90 < replicate 32 0xff"
    by (simp_all add: demo_key_def r32 word_less_def)
qed

lemma demo_split_deltas:
  "filter (\<lambda>d. d_key d \<ge> replicate 32 127) demo_d = [mk_delta demo_r3 3 [4]]"
  "filter (\<lambda>d. \<not> d_key d \<ge> replicate 32 127) demo_d = [mk_delta demo_r1 1 [], mk_delta demo_r2 2 [3]]"
proof -
  have ks: "d_key (mk_delta demo_r1 1 []) = demo_key 0x10" "d_key (mk_delta demo_r2 2 [3]) = demo_key 0x10"
    "d_key (mk_delta demo_r3 3 [4]) = demo_key 0x90"
    by (simp_all add: demo_seqs demo_r1_def demo_r2_def demo_r3_def demo_req_fields)
  show "filter (\<lambda>d. d_key d \<ge> replicate 32 127) demo_d = [mk_delta demo_r3 3 [4]]"
    "filter (\<lambda>d. \<not> d_key d \<ge> replicate 32 127) demo_d = [mk_delta demo_r1 1 [], mk_delta demo_r2 2 [3]]"
    unfolding demo_d_def by (simp_all only: filter.simps ks demo_split_keys if_True if_False simp_thms)
qed

lemma demo_split: "\<exists>s1. split_shard 1 2 1 demo3 = (s1, Ok 2) \<and> ms_shards s1 2 = Some demo_n0"
proof -
  have mid: "split_midpoint (replicate 32 0) (replicate 32 0xff) = replicate 32 127"
    by (simp add: split_midpoint_def zip_replicate)
  have rs: "si_range_start (sh_info demo_sh3) = replicate 32 0" "si_range_end (sh_info demo_sh3) = replicate 32 0xff"
    using demo_shard_fields(2,3) [of demo_sh3] by simp_all
  have bs: "deltas_byte_size [mk_delta demo_r3 3 [4]] = Ok 129"
    "deltas_byte_size [mk_delta demo_r1 1 [], mk_delta demo_r2 2 [3]] = Ok 259"
    by (simp_all add: deltas_byte_size_def sum_u64_def u64_max_val mk_delta_def demo_r1_def demo_r2_def demo_r3_def demo_req_fields)
  have inf: "si_tenant_id (sh_info demo_sh3) = 1" "si_config (sh_info demo_sh3) = shard_config_default"
    by (simp_all add: demo_sh0_def demo_sh1_def demo_sh2_def demo_sh3_def logged_shard_def)
  show ?thesis
    by (simp add: split_shard_def demo3_shard Let_def rs mid demo_tips demo_split_deltas bs inf demo_n0_def
        del: One_nat_def linorder_not_le not_le)
qed

lemma demo_new_appends:
  assumes "ms_shards s1 2 = Some demo_n0"
  shows "append_delta mem_ops demo_q s1 = (put_shard 2 demo_n1 s1, Ok 2)"
    and "append_delta mem_ops demo_q (put_shard 2 demo_n1 s1) = (put_shard 2 demo_n2 (put_shard 2 demo_n1 s1), Ok 3)"
proof -
  have o: "offload mem_ops demo_q n s = (s, Ok [])" for n s by (simp add: offload_eq offloads_def demo_req_fields)
  have nr: "\<not> out_of_range (demo_key 0x90) (sh_info demo_n0)"
    using demo_split_keys by (simp add: out_of_range_def demo_n0_def not_less)
  have f0: "si_state (sh_info demo_n0) = Healthy" "si_tip (sh_info demo_n0) = 1"
    "si_delta_count (sh_info demo_n0) = 1" "si_byte_size (sh_info demo_n0) = 129" by (simp_all add: demo_n0_def)
  have q: "ar_shard_id demo_q = 2" "ar_hashed_key demo_q = demo_key 0x90" "ar_payload demo_q = []"
    by (simp_all add: demo_req_fields)
  have f1: "si_state (sh_info demo_n1) = Healthy" "si_tip (sh_info demo_n1) = 2" "si_delta_count (sh_info demo_n1) = 2"
    "si_byte_size (sh_info demo_n1) = 257" "\<not> out_of_range (demo_key 0x90) (sh_info demo_n1)"
    using nr by (simp_all add: demo_n1_def logged_shard_def f0 mk_delta_def q out_of_range_def)
  have "append_delta mem_ops demo_q s1 = (put_shard (ar_shard_id demo_q) demo_n1 s1, Ok 2)"
    unfolding demo_n1_def by (rule append_delta_logs) (simp_all only: q assms nr o f0, simp_all add: u64_max_val)
  then show "append_delta mem_ops demo_q s1 = (put_shard 2 demo_n1 s1, Ok 2)" by (simp only: q)
  have "append_delta mem_ops demo_q (put_shard 2 demo_n1 s1) =
      (put_shard (ar_shard_id demo_q) demo_n2 (put_shard 2 demo_n1 s1), Ok 3)"
    unfolding demo_n2_def
    by (rule append_delta_logs) (simp_all only: q o f1 put_shard_fields fun_upd_same, simp_all add: u64_max_val)
  then show "append_delta mem_ops demo_q (put_shard 2 demo_n1 s1) =
      (put_shard 2 demo_n2 (put_shard 2 demo_n1 s1), Ok 3)" by (simp only: q)
qed

text \<open>The in-place split gives sequence numbers twice. There is a reachable store and a successful
  \<^verbatim>\<open>split_shard\<close> after which two successful appends to the new shard leave two deltas with the same
  sequence number in its log: the moved deltas keep their numbers while the new shard's tip restarts
  at their count, so that the order guaranteed by all other operations (I-L1) is lost.\<close>

lemma split_shard_repeats_sequence:
  "\<exists>(s :: demo_store) h s1 s2 s3 sh q.
     reach log_init (log_step mem_ops) (s, h) \<and> split_shard 1 2 1 s = (s1, Ok 2) \<and>
     append_delta mem_ops q s1 = (s2, Ok 2) \<and> append_delta mem_ops q s2 = (s3, Ok 3) \<and>
     ms_shards s3 2 = Some sh \<and> \<not> distinct (map d_seq (sh_deltas sh))"
proof -
  obtain s1 where s1: "split_shard 1 2 1 demo3 = (s1, Ok 2)" "ms_shards s1 2 = Some demo_n0"
    using demo_split by blast
  have "ms_shards (put_shard 2 demo_n2 (put_shard 2 demo_n1 s1)) 2 = Some demo_n2" by simp
  moreover have "\<not> distinct (map d_seq (sh_deltas demo_n2))"
    by (simp add: demo_n2_def demo_n1_def demo_n0_def logged_shard_def demo_seqs)
  ultimately show ?thesis using demo_log_reach s1(1) demo_new_appends [OF s1(2)] by blast
qed

end
