(* ===== verification/Log_Lifecycle.thy ===== *)
theory Log_Lifecycle
  imports Log_Store
begin

text \<open>
  Life cycle of log shards (\<^verbatim>\<open>crates/kiseki-log/src\<close>): when and where a shard splits
  (\<^verbatim>\<open>auto_split.rs\<close>, \<^verbatim>\<open>split.rs\<close>), the copy-then-cutover merge (\<^verbatim>\<open>merge.rs\<close>) and the dynamic inline
  threshold with its throughput guard (\<^verbatim>\<open>shard_inline_threshold.rs\<close>). The orchestrators, generic in
  the log interface, are given for the in-memory shard store; fresh shard ids are arguments, and
  instants and durations are nanoseconds.
\<close>

section \<open>Split detection and midpoint\<close>

datatype SplitCheck = SplitOk | DeltaCountExceeded nat nat | ByteSizeExceeded nat nat

definition check_split :: "ShardInfo \<Rightarrow> SplitCheck" where
  "check_split info =
     (if si_delta_count info \<ge> sc_max_delta_count (si_config info)
      then DeltaCountExceeded (si_delta_count info) (sc_max_delta_count (si_config info))
      else if si_byte_size info \<ge> sc_max_byte_size (si_config info)
      then ByteSizeExceeded (si_byte_size info) (sc_max_byte_size (si_config info))
      else SplitOk)"

text \<open>Addition from the last byte, with the carry; then halving from the first.\<close>

fun add_keys :: "bytes \<Rightarrow> bytes \<Rightarrow> nat \<times> nat list" where
  "add_keys (a # as) (b # bs) =
     (let (carry, sum) = add_keys as bs; s = unat a + unat b + carry in (s div 256, s mod 256 # sum))"
| "add_keys _ _ = (0, [])"

fun halve :: "nat \<Rightarrow> nat list \<Rightarrow> bytes" where
  "halve borrow [] = []"
| "halve borrow (x # xs) =
     (let val = borrow * 256 + x
      in (if val div 2 < 256 then word_of_nat (val div 2) else 0xFF) # halve (val mod 2) xs)"

definition compute_midpoint :: "bytes \<Rightarrow> bytes \<Rightarrow> bytes option" where
  "compute_midpoint range_start range_end =
     (let (carry, sum) = add_keys range_start range_end; mid = halve carry sum
      in if mid = range_start \<or> mid = range_end then None else Some mid)"

record AutoSplitPlan =
  as_original_shard :: nat
  as_new_shard :: nat
  as_tenant_id :: nat
  as_midpoint :: bytes
  as_range_start :: bytes
  as_range_end :: bytes
  as_initial_node :: nat

definition plan_split :: "nat \<Rightarrow> ShardInfo \<Rightarrow> AutoSplitPlan option" where
  "plan_split fresh_id info =
     (if check_split info = SplitOk then None
      else Option.bind (compute_midpoint (si_range_start info) (si_range_end info)) (\<lambda>midpoint.
        Some \<lparr>as_original_shard = si_shard_id info, as_new_shard = fresh_id, as_tenant_id = si_tenant_id info,
              as_midpoint = midpoint, as_range_start = si_range_start info, as_range_end = si_range_end info,
              as_initial_node = (case si_leader info of None \<Rightarrow> 1 | Some n \<Rightarrow> n)\<rparr>))"

definition copy_request :: "nat \<Rightarrow> nat \<Rightarrow> bool \<Rightarrow> Delta \<Rightarrow> AppendDeltaRequest" where
  "copy_request shard_id tenant_id inline d =
     \<lparr>ar_shard_id = shard_id, ar_tenant_id = tenant_id, ar_operation = dh_operation (d_header d),
      ar_timestamp = dh_timestamp (d_header d), ar_hashed_key = dh_hashed_key (d_header d),
      ar_chunk_refs = dh_chunk_refs (d_header d), ar_payload = dp_ciphertext (d_payload d), ar_has_inline_data = inline\<rparr>"

fun redistribute :: "'i InlineStore \<Rightarrow> AutoSplitPlan \<Rightarrow> Delta list \<Rightarrow> 'i MemShardStore \<Rightarrow> ('i, unit) log_call" where
  "redistribute ops plan [] s = (s, Ok ())"
| "redistribute ops plan (d # ds) s =
     (if d_key d \<ge> as_midpoint plan
      then bind_st (append_delta ops
             (copy_request (as_new_shard plan) (as_tenant_id plan) (dh_has_inline_data (d_header d)) d) s)
             (\<lambda>s _. redistribute ops plan ds s)
      else redistribute ops plan ds s)"

definition execute_split :: "'i InlineStore \<Rightarrow> AutoSplitPlan \<Rightarrow> 'i MemShardStore \<Rightarrow> ('i, unit) log_call" where
  "execute_split ops plan s =
     bind_st (s, gc_boundary (as_original_shard plan) s) (\<lambda>s boundary.
       if boundary > 1 then (s, Err (DeltaLogPruned (as_original_shard plan) boundary))
       else
         let s = create_shard (as_new_shard plan) (as_tenant_id plan) (as_initial_node plan) shard_config_default s in
         bind_st (s, read_deltas \<lparr>rr_shard_id = as_original_shard plan, rr_from = 0, rr_to = u64_max\<rparr> s) (\<lambda>s deltas.
           bind_st (redistribute ops plan deltas s) (\<lambda>s _.
             (update_shard_range (as_new_shard plan) (as_midpoint plan) (as_range_end plan)
                (update_shard_range (as_original_shard plan) (as_range_start plan) (as_midpoint plan) s), Ok ()))))"

section \<open>Split plans by sequence number\<close>

record SplitConfig =
  spc_max_delta_count :: nat
  spc_max_byte_size :: nat
  spc_min_split_size :: nat

definition split_config_default :: SplitConfig where
  "split_config_default = \<lparr>spc_max_delta_count = 1000000, spc_max_byte_size = 10 * 1024 * 1024 * 1024, spc_min_split_size = 1000\<rparr>"

definition should_split :: "SplitConfig \<Rightarrow> nat \<Rightarrow> nat \<Rightarrow> bool" where
  "should_split c delta_count byte_size \<longleftrightarrow> delta_count \<ge> spc_max_delta_count c \<or> byte_size \<ge> spc_max_byte_size c"

record SeqSplitPlan =
  sp_source_shard :: nat
  sp_new_shard :: nat
  sp_split_point :: nat
  sp_deltas_to_new :: nat
  sp_deltas_remaining :: nat

datatype SplitError = TooSmall nat nat | AlreadyInProgress nat | SplitInternal string

definition compute_split_plan :: "nat \<Rightarrow> nat \<Rightarrow> nat \<Rightarrow> nat \<Rightarrow> SplitConfig \<Rightarrow> (SplitError, SeqSplitPlan) res" where
  "compute_split_plan fresh_id shard_id delta_count byte_size config =
     (let minimum = min (spc_min_split_size config * 2) u64_max in
      if delta_count < minimum then Err (TooSmall delta_count minimum)
      else if \<not> should_split config delta_count byte_size
      then Err (SplitInternal ''split requested but no threshold breached'')
      else
        let midpoint = delta_count div 2 in
        Ok \<lparr>sp_source_shard = shard_id, sp_new_shard = fresh_id, sp_split_point = midpoint,
            sp_deltas_to_new = delta_count - midpoint, sp_deltas_remaining = midpoint\<rparr>)"

definition check_and_plan :: "nat \<Rightarrow> nat \<Rightarrow> nat \<Rightarrow> nat \<Rightarrow> SplitConfig \<Rightarrow> SeqSplitPlan option" where
  "check_and_plan fresh_id shard_id delta_count byte_size config =
     (if should_split config delta_count byte_size
      then (case compute_split_plan fresh_id shard_id delta_count byte_size config of Ok p \<Rightarrow> Some p | _ \<Rightarrow> None)
      else None)"

section \<open>Merge\<close>

datatype MergeAbortReason = ConvergenceTimeout | CutoverBudgetExceeded

record MergeState =
  mg_shard_a :: nat
  mg_shard_b :: nat
  mg_tenant_id :: nat
  mg_merged_shard :: nat
  mg_range_start :: bytes
  mg_range_end :: bytes
  mg_hwm_a :: nat
  mg_hwm_b :: nat
  mg_cutover_budget_deltas :: nat
  mg_convergence_timeout_secs :: nat

record ShardMergedEvent =
  sme_input_shards :: "nat \<times> nat"
  sme_merged_shard :: nat
  sme_range_start :: bytes
  sme_range_end :: bytes

record MergeAbortedEvent =
  mae_input_shards :: "nat \<times> nat"
  mae_reason :: MergeAbortReason

definition busy_error :: "nat \<Rightarrow> ShardState \<Rightarrow> LogError" where
  "busy_error shard_id state = ShardBusy shard_id (if state = Merging then ''merge in progress'' else ''split in progress'')"

definition prepare_merge :: "nat \<Rightarrow> nat \<Rightarrow> nat \<Rightarrow> nat \<Rightarrow> 'i MemShardStore \<Rightarrow> ('i, MergeState) log_call" where
  "prepare_merge fresh_id shard_a shard_b tenant_id s =
     bind_st (s, shard_health shard_a s) (\<lambda>s info_a.
       bind_st (s, shard_health shard_b s) (\<lambda>s info_b.
         if si_range_end info_a \<noteq> si_range_start info_b then (s, Err (ShardBusy shard_a ''shards are not adjacent''))
         else if is_busy (si_state info_a) then (s, Err (busy_error shard_a (si_state info_a)))
         else if is_busy (si_state info_b) then (s, Err (busy_error shard_b (si_state info_b)))
         else
           bind_st (set_maintenance shard_a True s) (\<lambda>s _.
             bind_st (set_maintenance shard_b True s) (\<lambda>s _.
               (s, Ok \<lparr>mg_shard_a = shard_a, mg_shard_b = shard_b, mg_tenant_id = tenant_id, mg_merged_shard = fresh_id,
                       mg_range_start = si_range_start info_a, mg_range_end = si_range_end info_b,
                       mg_hwm_a = si_tip info_a, mg_hwm_b = si_tip info_b,
                       mg_cutover_budget_deltas = 200, mg_convergence_timeout_secs = 60\<rparr>)))))"

definition merge_ordering_tiebreak :: "HybridLogicalClock \<Rightarrow> HybridLogicalClock \<Rightarrow> nat \<Rightarrow> nat \<Rightarrow> bool" where
  "merge_ordering_tiebreak hlc_a hlc_b shard_a shard_b \<longleftrightarrow> hlc_a < hlc_b \<or> hlc_a = hlc_b \<and> shard_a \<le> shard_b"

text \<open>The order of the copy: the comparator is \<open>\<le>\<close> of its sort, which is stable.\<close>

definition copy_before :: "nat \<times> Delta \<Rightarrow> nat \<times> Delta \<Rightarrow> bool" where
  "copy_before x y \<longleftrightarrow>
     d_key (snd x) < d_key (snd y) \<or>
     d_key (snd x) = d_key (snd y) \<and>
       merge_ordering_tiebreak (ts_hlc (dh_timestamp (d_header (snd x)))) (ts_hlc (dh_timestamp (d_header (snd y)))) (fst x) (fst y)"

fun insert_by :: "('a \<Rightarrow> 'a \<Rightarrow> bool) \<Rightarrow> 'a \<Rightarrow> 'a list \<Rightarrow> 'a list" where
  "insert_by le x [] = [x]"
| "insert_by le x (y # ys) = (if le x y then x # y # ys else y # insert_by le x ys)"

definition sort_by :: "('a \<Rightarrow> 'a \<Rightarrow> bool) \<Rightarrow> 'a list \<Rightarrow> 'a list" where
  "sort_by le xs = foldr (insert_by le) xs []"

fun copy_deltas :: "'i InlineStore \<Rightarrow> MergeState \<Rightarrow> (nat \<times> Delta) list \<Rightarrow> nat \<Rightarrow> 'i MemShardStore \<Rightarrow> ('i, nat) log_call" where
  "copy_deltas ops m [] count s = (s, Ok count)"
| "copy_deltas ops m ((source, d) # ds) count s =
     bind_st (append_delta ops (copy_request (mg_merged_shard m) (mg_tenant_id m) False d) s) (\<lambda>s _.
       bind_st (s, add_u64 count 1) (\<lambda>s count. copy_deltas ops m ds count s))"

fun refuse_pruned :: "nat list \<Rightarrow> 'i MemShardStore \<Rightarrow> (LogError, unit) res" where
  "refuse_pruned [] s = Ok ()"
| "refuse_pruned (shard # shards) s =
     bind_res (gc_boundary shard s) (\<lambda>boundary.
       if boundary > 1 then Err (DeltaLogPruned shard boundary) else refuse_pruned shards s)"

definition copied_from :: "nat \<Rightarrow> nat \<Rightarrow> 'i MemShardStore \<Rightarrow> (LogError, Delta list) res" where
  "copied_from shard hwm s = (if hwm > 0 then read_deltas \<lparr>rr_shard_id = shard, rr_from = 1, rr_to = hwm\<rparr> s else Ok [])"

definition copy_phase :: "'i InlineStore \<Rightarrow> MergeState \<Rightarrow> 'i MemShardStore \<Rightarrow> ('i, nat) log_call" where
  "copy_phase ops m s =
     bind_st (s, refuse_pruned [mg_shard_a m, mg_shard_b m] s) (\<lambda>s _.
       bind_st (s, copied_from (mg_shard_a m) (mg_hwm_a m) s) (\<lambda>s deltas_a.
         bind_st (s, copied_from (mg_shard_b m) (mg_hwm_b m) s) (\<lambda>s deltas_b.
           copy_deltas ops m
             (sort_by copy_before (map (Pair (mg_shard_a m)) deltas_a @ map (Pair (mg_shard_b m)) deltas_b)) 0 s)))"

definition abort_merge :: "MergeState \<Rightarrow> MergeAbortReason \<Rightarrow> MergeAbortedEvent" where
  "abort_merge m reason = \<lparr>mae_input_shards = (mg_shard_a m, mg_shard_b m), mae_reason = reason\<rparr>"

definition complete_merge :: "MergeState \<Rightarrow> ShardMergedEvent" where
  "complete_merge m = \<lparr>sme_input_shards = (mg_shard_a m, mg_shard_b m), sme_merged_shard = mg_merged_shard m,
     sme_range_start = mg_range_start m, sme_range_end = mg_range_end m\<rparr>"

section \<open>Inline threshold\<close>

definition compute_shard_inline_threshold :: "nat \<Rightarrow> nat \<Rightarrow> nat \<Rightarrow> nat \<Rightarrow> nat" where
  "compute_shard_inline_threshold available projected_files floor_bytes ceiling_bytes =
     (let raw = available div max projected_files 1 in max (min raw ceiling_bytes) floor_bytes)"

record InlineThroughputGuard =
  tg_window :: "(nat \<times> nat) list"
  tg_window_duration :: nat
  tg_mbps_limit :: nat

definition guard_with_limit :: "nat \<Rightarrow> nat \<Rightarrow> InlineThroughputGuard" where
  "guard_with_limit window_duration mbps_limit =
     \<lparr>tg_window = [], tg_window_duration = window_duration, tg_mbps_limit = mbps_limit\<rparr>"

definition guard_new :: InlineThroughputGuard where
  "guard_new = guard_with_limit (10 * 10 ^ 9) 10"

text \<open>\<^verbatim>\<open>Instant::duration_since\<close> saturates at zero.\<close>

fun evict :: "nat \<Rightarrow> nat \<Rightarrow> (nat \<times> nat) list \<Rightarrow> (nat \<times> nat) list" where
  "evict now dur [] = []"
| "evict now dur ((ts, b) # w) = (if now - ts > dur then evict now dur w else (ts, b) # w)"

definition evict_expired :: "nat \<Rightarrow> InlineThroughputGuard \<Rightarrow> InlineThroughputGuard" where
  "evict_expired now g = g\<lparr>tg_window := evict now (tg_window_duration g) (tg_window g)\<rparr>"

definition guard_record :: "nat \<Rightarrow> nat \<Rightarrow> InlineThroughputGuard \<Rightarrow> InlineThroughputGuard" where
  "guard_record now bytes g = (let g = evict_expired now g in g\<lparr>tg_window := tg_window g @ [(now, bytes)]\<rparr>)"

definition current_mbps :: "nat \<Rightarrow> InlineThroughputGuard \<Rightarrow> InlineThroughputGuard \<times> (LogError, nat) res" where
  "current_mbps now g =
     (let g = evict_expired now g in
      if tg_window g = [] then (g, Ok 0)
      else (g, bind_res (sum_u64 (map snd (tg_window g))) (\<lambda>total_bytes.
        let window_s = max (tg_window_duration g div 10 ^ 9) 1 in
        bind_res (mul_u64 1000000 window_s) (\<lambda>d. Ok (total_bytes div d)))))"

definition effective_threshold ::
    "nat \<Rightarrow> nat \<Rightarrow> nat \<Rightarrow> InlineThroughputGuard \<Rightarrow> InlineThroughputGuard \<times> (LogError, nat) res" where
  "effective_threshold now configured floor g =
     bind_st (current_mbps now g) (\<lambda>g mbps. (g, Ok (if mbps > tg_mbps_limit g then floor else configured)))"

section \<open>Lemmas on the midpoint\<close>

fun digits_val :: "nat list \<Rightarrow> nat" where
  "digits_val [] = 0"
| "digits_val (x # xs) = x * 256 ^ length xs + digits_val xs"

lemma add_keys_val:
  "length a = length b \<Longrightarrow> add_keys a b = (c, s) \<Longrightarrow>
     length s = length a \<and> c \<le> 1 \<and> (\<forall>x \<in> set s. x < 256) \<and> c * 256 ^ length a + digits_val s = be_val a + be_val b"
proof (induction a b arbitrary: c s rule: list_induct2)
  case (Cons x xs y ys)
  obtain c0 s0 where r: "add_keys xs ys = (c0, s0)" by (cases "add_keys xs ys")
  let ?t = "unat x + unat y + c0" and ?B = "256 ^ length xs :: nat"
  have ih: "length s0 = length xs" "c0 \<le> 1" "\<forall>x \<in> set s0. x < 256" "c0 * ?B + digits_val s0 = be_val xs + be_val ys"
    using Cons.IH [OF r] by blast+
  have cs: "c = ?t div 256" "s = ?t mod 256 # s0" using Cons.prems r by (simp_all add: Let_def)
  have "?t \<le> 511" using unat_u8_bound [of x] unat_u8_bound [of y] ih(2) by linarith
  then have "c \<le> 1" unfolding cs(1) by simp
  moreover have "c * 256 ^ length (x # xs) + digits_val s = (?t div 256 * 256 + ?t mod 256) * ?B + digits_val s0"
    by (simp only: cs length_Cons power_Suc digits_val.simps ih(1) add_mult_distrib mult.assoc add.assoc)
  then have "c * 256 ^ length (x # xs) + digits_val s = ?t * ?B + digits_val s0" by (simp only: div_mult_mod_eq)
  then have "c * 256 ^ length (x # xs) + digits_val s = be_val (x # xs) + be_val (y # ys)"
    using ih(4) Cons.hyps by (simp add: algebra_simps)
  ultimately show ?case using ih(1,3) by (simp add: cs(2))
qed simp

lemma halve_val:
  "b \<le> 1 \<Longrightarrow> \<forall>x \<in> set xs. x < 256 \<Longrightarrow>
     length (halve b xs) = length xs \<and> be_val (halve b xs) = (b * 256 ^ length xs + digits_val xs) div 2"
proof (induction xs arbitrary: b)
  case (Cons x xs)
  let ?v = "b * 256 + x" and ?B = "256 ^ length xs :: nat"
  have v: "?v div 2 < 256" using Cons.prems by (auto simp: le_Suc_eq)
  have ih: "length (halve (?v mod 2) xs) = length xs"
    "be_val (halve (?v mod 2) xs) = (?v mod 2 * ?B + digits_val xs) div 2"
    using Cons.IH [of "?v mod 2"] Cons.prems(2) by auto
  have h: "halve b (x # xs) = word_of_nat (?v div 2) # halve (?v mod 2) xs" using v by (simp add: Let_def)
  have "b * 256 ^ length (x # xs) + digits_val (x # xs) = (?v div 2 * 2 + ?v mod 2) * ?B + digits_val xs"
    unfolding div_mult_mod_eq by (simp add: algebra_simps)
  also have "\<dots> = 2 * (?v div 2 * ?B) + (?v mod 2 * ?B + digits_val xs)" by (simp only: algebra_simps)
  finally have "(b * 256 ^ length (x # xs) + digits_val (x # xs)) div 2 = ?v div 2 * ?B + (?v mod 2 * ?B + digits_val xs) div 2"
    by (simp only: div_mult_self4 [of 2] add.commute)
  moreover have "unat (word_of_nat (?v div 2) :: u8) = ?v div 2" using v by (simp add: unat_of_nat take_bit_eq_mod)
  ultimately show ?case unfolding h using ih by simp
qed simp

lemma midpoint_val:
  assumes "length a = length b" "add_keys a b = (c, s)"
  shows "length (halve c s) = length a" "be_val (halve c s) = (be_val a + be_val b) div 2"
  using add_keys_val [OF assms] halve_val [of c s] by auto

lemma compute_midpoint_cases:
  assumes len: "length a = length b" and le: "a \<le> b"
  shows "case compute_midpoint a b of
      None \<Rightarrow> be_val b \<le> be_val a + 1
    | Some m \<Rightarrow> length m = length a \<and> a < m \<and> m < b \<and> be_val m = (be_val a + be_val b) div 2"
proof -
  obtain c s where cs: "add_keys a b = (c, s)" by (cases "add_keys a b")
  let ?m = "halve c s"
  note m = midpoint_val [OF len cs]
  have ab: "be_val a \<le> be_val b" using le len by (simp add: be_val_le_iff)
  have eq: "?m = a \<longleftrightarrow> be_val ?m = be_val a" "?m = b \<longleftrightarrow> be_val ?m = be_val b"
    using m(1) len by (simp_all add: be_val_inj)
  have cm: "compute_midpoint a b = (if ?m = a \<or> ?m = b then None else Some ?m)"
    by (simp add: compute_midpoint_def cs Let_def)
  show ?thesis
  proof (cases "?m = a \<or> ?m = b")
    case True
    then have "be_val b \<le> be_val a + 1" using ab m(2) eq by auto
    then show ?thesis using True by (simp add: cm)
  next
    case False
    then have "be_val a < be_val ?m" "be_val ?m < be_val b" using ab m(2) eq by auto
    then have "a < ?m" "?m < b" using m(1) len by (simp_all add: be_val_less_iff)
    then show ?thesis using False m by (simp add: cm)
  qed
qed

definition split_half :: "bytes \<times> bytes \<Rightarrow> bytes \<times> bytes \<Rightarrow> bool" where
  "split_half r' r \<longleftrightarrow> length (fst r) = length (snd r) \<and> fst r \<le> snd r \<and>
     (\<exists>m. compute_midpoint (fst r) (snd r) = Some m \<and> (r' = (fst r, m) \<or> r' = (m, snd r)))"

text \<open>The split midpoint of a key range is exact and splitting ends. For keys of equal length the
  byte-wise addition with carry and halving computes the rounded-down average of the two bounds as
  big-endian numbers, strictly between them; it gives up only on ranges of at most one key. Splitting
  a range again and again into its halves always terminates.\<close>

lemma midpoint_bisects:
  assumes "length a = length b" "a \<le> b"
  shows "(case compute_midpoint a b of
      None \<Rightarrow> be_val b \<le> be_val a + 1
    | Some m \<Rightarrow> length m = length a \<and> a < m \<and> m < b \<and> be_val m = (be_val a + be_val b) div 2) \<and> wfP split_half"
proof -
  have "be_val (snd r') - be_val (fst r') < be_val (snd r) - be_val (fst r)" if h: "split_half r' r" for r' r
  proof -
    from h obtain m where r: "length (fst r) = length (snd r)" "fst r \<le> snd r" "compute_midpoint (fst r) (snd r) = Some m"
      "r' = (fst r, m) \<or> r' = (m, snd r)" by (auto simp: split_half_def)
    have m: "length m = length (fst r)" "fst r < m" "m < snd r" using compute_midpoint_cases [OF r(1,2)] r(3) by simp_all
    have "be_val (fst r) < be_val m" "be_val m < be_val (snd r)" using m r(1) by (simp_all add: be_val_less_iff)
    then show ?thesis using r(4) by auto
  qed
  then have "wfP split_half"
    unfolding wfp_def by (intro wf_subset [OF wf_measure [of "\<lambda>r. be_val (snd r) - be_val (fst r)"]]) auto
  then show ?thesis using compute_midpoint_cases [OF assms] by blast
qed

lemma midpoint_bisects_example:
  "be_val (the (compute_midpoint (replicate 32 0) (replicate 32 0xff))) = (be_val (replicate 32 0) + be_val (replicate 32 0xff)) div 2 \<and>
   compute_midpoint (replicate 32 0) (replicate 32 0xff) \<noteq> None"
proof -
  have z: "be_val (replicate n 0) = 0" for n by (induction n) simp_all
  have "be_val (replicate (Suc n) 0xff) \<ge> 255 * 256 ^ n" for n by simp
  from this [of 31] have big: "255 * 256 ^ 31 \<le> be_val (replicate 32 (0xff :: u8))" by simp
  have le: "replicate 32 (0 :: u8) \<le> replicate 32 0xff" by (simp add: be_val_le_iff z)
  have "\<not> be_val (replicate 32 (0xff :: u8)) \<le> be_val (replicate 32 0) + 1" using big by (simp add: z)
  then show ?thesis using midpoint_bisects [OF _ le] by (auto split: option.splits)
qed

section \<open>Redistribution\<close>

definition moved :: "AutoSplitPlan \<Rightarrow> Delta \<Rightarrow> MemShard \<Rightarrow> MemShard" where
  "moved plan d sh = logged_shard (copy_request (as_new_shard plan) (as_tenant_id plan) (dh_has_inline_data (d_header d)) d)
     (si_tip (sh_info sh) + 1) (dp_ciphertext (d_payload d)) sh"

definition delta_bytes :: "Delta \<Rightarrow> nat" where
  "delta_bytes d = length (dp_ciphertext (d_payload d)) mod 2 ^ 32 + 128"

definition delta_content :: "Delta \<Rightarrow> OperationType \<times> DeltaTimestamp \<times> bytes \<times> bytes list \<times> bytes" where
  "delta_content d = (dh_operation (d_header d), dh_timestamp (d_header d), dh_hashed_key (d_header d),
     dh_chunk_refs (d_header d), dp_ciphertext (d_payload d))"

lemma moved_info:
  "si_tip (sh_info (moved plan d sh)) = si_tip (sh_info sh) + 1"
  "si_delta_count (sh_info (moved plan d sh)) = si_delta_count (sh_info sh) + 1"
  "si_byte_size (sh_info (moved plan d sh)) = si_byte_size (sh_info sh) + delta_bytes d"
  "si_state (sh_info (moved plan d sh)) = si_state (sh_info sh)"
  "si_range_start (sh_info (moved plan d sh)) = si_range_start (sh_info sh)"
  "si_range_end (sh_info (moved plan d sh)) = si_range_end (sh_info sh)"
  by (simp_all add: moved_def logged_shard_def mk_delta_def copy_request_def delta_bytes_def)

lemma moved_deltas:
  "map d_seq (sh_deltas (moved plan d sh)) = map d_seq (sh_deltas sh) @ [si_tip (sh_info sh) + 1]"
  "map delta_content (sh_deltas (moved plan d sh)) = map delta_content (sh_deltas sh) @ [delta_content d]"
  by (simp_all add: moved_def logged_shard_def mk_delta_def copy_request_def delta_content_def)

lemma fold_moved:
  "map d_seq (sh_deltas (fold (moved plan) ds sh)) = map d_seq (sh_deltas sh) @ [si_tip (sh_info sh) + 1..<si_tip (sh_info sh) + 1 + length ds]"
  "map delta_content (sh_deltas (fold (moved plan) ds sh)) = map delta_content (sh_deltas sh) @ map delta_content ds"
  "si_range_start (sh_info (fold (moved plan) ds sh)) = si_range_start (sh_info sh)"
  "si_range_end (sh_info (fold (moved plan) ds sh)) = si_range_end (sh_info sh)"
  by (induction ds arbitrary: sh) (simp_all add: moved_info moved_deltas upt_conv_Cons del: upt_Suc)

lemma redistribute_ok:
  assumes "ms_shards s (as_new_shard plan) = Some sh" "ms_inline_store s = None" "si_state (sh_info sh) = Healthy"
    and "\<forall>d \<in> set ds. as_midpoint plan \<le> d_key d \<longrightarrow> \<not> out_of_range (d_key d) (sh_info sh)"
    and "si_tip (sh_info sh) + length ds \<le> u64_max" "si_delta_count (sh_info sh) + length ds \<le> u64_max"
    and "si_byte_size (sh_info sh) + sum_list (map delta_bytes ds) \<le> u64_max"
  shows "redistribute ops plan ds s =
    (put_shard (as_new_shard plan) (fold (moved plan) (filter (\<lambda>d. as_midpoint plan \<le> d_key d) ds) sh) s, Ok ())"
  using assms
proof (induction ds arbitrary: s sh)
  case Nil
  then show ?case by (simp add: put_shard_def fun_upd_idem)
next
  case (Cons d ds)
  show ?case
  proof (cases "as_midpoint plan \<le> d_key d")
    case False
    then show ?thesis using Cons.IH [OF Cons.prems(1-3)] Cons.prems(4-7) by simp
  next
    case True
    let ?req = "copy_request (as_new_shard plan) (as_tenant_id plan) (dh_has_inline_data (d_header d)) d"
    let ?n = "as_new_shard plan"
    have q: "ar_shard_id ?req = ?n" "ar_hashed_key ?req = d_key d" "ar_payload ?req = dp_ciphertext (d_payload d)"
      by (simp_all add: copy_request_def)
    have "offload ops ?req (si_tip (sh_info sh) + 1) s = (s, Ok (dp_ciphertext (d_payload d)))"
      using Cons.prems(2) by (simp add: offload_eq offloads_def q)
    moreover have "si_byte_size (sh_info sh) + (length (ar_payload ?req) mod 2 ^ 32 + 128) \<le> u64_max"
      using Cons.prems(7) by (simp add: q delta_bytes_def)
    ultimately have a: "append_delta ops ?req s = (put_shard ?n (moved plan d sh) s, Ok (si_tip (sh_info sh) + 1))"
      unfolding moved_def using append_delta_logs [where req = ?req and sh = sh and n = "si_tip (sh_info sh) + 1" and s = s]
        Cons.prems(1,3-6) True q by simp
    have oor: "out_of_range k (sh_info (moved plan d sh)) = out_of_range k (sh_info sh)" for k
      by (simp add: out_of_range_def moved_info)
    have "redistribute ops plan ds (put_shard ?n (moved plan d sh) s) =
        (put_shard ?n (fold (moved plan) (filter (\<lambda>d. as_midpoint plan \<le> d_key d) ds) (moved plan d sh))
          (put_shard ?n (moved plan d sh) s), Ok ())"
      by (rule Cons.IH) (use Cons.prems in \<open>simp_all add: moved_info oor\<close>)
    then show ?thesis using True a by (simp add: put_shard_def)
  qed
qed

lemma full_range:
  assumes "length k = 32" "k < replicate 32 0xff"
  shows "\<not> out_of_range k (info\<lparr>si_range_start := replicate 32 0, si_range_end := replicate 32 0xff\<rparr>)"
proof -
  have "be_val (replicate n 0) = 0" for n by (induction n) simp_all
  then have "replicate 32 0 \<le> k" using assms(1) by (simp add: be_val_le_iff)
  then show ?thesis using assms(2) by (simp add: out_of_range_def not_less)
qed

text \<open>Executing a split copies the upper half faithfully. For a shard whose log was never pruned, with
  payloads held in the log, splitting into a fresh shard succeeds: the new shard holds, in order and
  with sequence numbers from 1 without gaps, exactly the deltas whose keys are at or above the
  midpoint, each with its operation, timestamp, key, chunk references and payload; the key ranges of
  the two shards meet at the midpoint; no other shard changes. The original shard keeps all its
  deltas. A pruned log is refused and nothing changes.\<close>

lemma execute_split_moves:
  assumes o: "ms_shards s (as_original_shard plan) = Some sh" and n: "ms_shards s (as_new_shard plan) = None"
    and inl: "ms_inline_store s = None" and len: "length (sh_deltas sh) \<le> u64_max"
    and ds: "\<forall>d \<in> set (sh_deltas sh). d_seq d \<le> u64_max \<and> length (d_key d) = 32 \<and> d_key d < replicate 32 0xff"
    and sz: "sum_list (map delta_bytes (sh_deltas sh)) \<le> u64_max"
  shows "if sh_gc_floor sh > 1
    then execute_split ops plan s = (s, Err (DeltaLogPruned (as_original_shard plan) (sh_gc_floor sh)))
    else \<exists>s' new. execute_split ops plan s = (s', Ok ()) \<and> ms_shards s' = (ms_shards s)
        (as_original_shard plan \<mapsto> sh\<lparr>sh_info := (sh_info sh)\<lparr>si_range_start := as_range_start plan, si_range_end := as_midpoint plan\<rparr>\<rparr>,
         as_new_shard plan \<mapsto> new) \<and>
      si_range_start (sh_info new) = as_midpoint plan \<and> si_range_end (sh_info new) = as_range_end plan \<and>
      map delta_content (sh_deltas new) = map delta_content (filter (\<lambda>d. as_midpoint plan \<le> d_key d) (sh_deltas sh)) \<and>
      map d_seq (sh_deltas new) = [1..<Suc (length (sh_deltas new))]"
proof (cases "sh_gc_floor sh > 1")
  case True
  then show ?thesis using o by (simp add: execute_split_def gc_boundary_def)
next
  case False
  let ?o = "as_original_shard plan" and ?n = "as_new_shard plan" and ?mv = "filter (\<lambda>d. as_midpoint plan \<le> d_key d) (sh_deltas sh)"
  define s1 where "s1 = create_shard ?n (as_tenant_id plan) (as_initial_node plan) shard_config_default s"
  have no: "?n \<noteq> ?o" using o n by auto
  obtain sh0 where s1: "s1 = put_shard ?n sh0 s" and sh0: "si_tip (sh_info sh0) = 0" "si_delta_count (sh_info sh0) = 0"
    "si_byte_size (sh_info sh0) = 0" "si_state (sh_info sh0) = Healthy" "sh_deltas sh0 = []"
    "si_range_start (sh_info sh0) = replicate 32 0" "si_range_end (sh_info sh0) = replicate 32 0xff"
    using n by (simp add: s1_def create_shard_def Let_def)
  have rd: "read_deltas \<lparr>rr_shard_id = ?o, rr_from = 0, rr_to = u64_max\<rparr> s1 = Ok (sh_deltas sh)"
    using o no ds by (simp add: read_deltas_def s1 filter_id_conv)
  have oor: "\<not> out_of_range (d_key d) (sh_info sh0)" if "d \<in> set (sh_deltas sh)" for d
    using full_range [of "d_key d" "sh_info sh0"] ds that sh0(6,7) by (simp add: out_of_range_def)
  let ?new = "fold (moved plan) ?mv sh0"
  have re: "redistribute ops plan (sh_deltas sh) s1 = (put_shard ?n ?new s1, Ok ())"
    by (rule redistribute_ok) (use oor inl len sz sh0 in \<open>simp_all add: s1\<close>)
  have g: "gc_boundary ?o s = Ok (sh_gc_floor sh)" using o by (simp add: gc_boundary_def)
  have ex: "execute_split ops plan s = (update_shard_range ?n (as_midpoint plan) (as_range_end plan)
      (update_shard_range ?o (as_range_start plan) (as_midpoint plan) (put_shard ?n ?new s1)), Ok ())"
    using False by (simp add: execute_split_def g rd re flip: s1_def)
  let ?fin = "?new\<lparr>sh_info := (sh_info ?new)\<lparr>si_range_start := as_midpoint plan, si_range_end := as_range_end plan\<rparr>\<rparr>"
  have ms: "ms_shards (fst (execute_split ops plan s)) = (ms_shards s)
      (?o \<mapsto> sh\<lparr>sh_info := (sh_info sh)\<lparr>si_range_start := as_range_start plan, si_range_end := as_midpoint plan\<rparr>\<rparr>, ?n \<mapsto> ?fin)"
    using o no by (auto simp: ex update_shard_range_def s1 fun_eq_iff)
  have "map delta_content (sh_deltas ?fin) = map delta_content ?mv" "map d_seq (sh_deltas ?fin) = [1..<Suc (length ?mv)]"
    using fold_moved(1,2) [of plan ?mv sh0] by (simp_all add: sh0)
  moreover from this(1) have "length (sh_deltas ?fin) = length ?mv" by (metis length_map)
  ultimately show ?thesis using False ex ms
    by (auto intro!: exI [of _ "fst (execute_split ops plan s)"] exI [of _ ?fin] simp del: upt_Suc)
qed

definition demo_split_delta :: Delta where
  "demo_split_delta = mk_delta \<lparr>ar_shard_id = 1, ar_tenant_id = 9, ar_operation = Create,
     ar_timestamp = \<lparr>ts_hlc = HLC 0 0 0, ts_wall = \<lparr>millis_since_epoch = 0, timezone = []\<rparr>, ts_quality = Ntp\<rparr>,
     ar_hashed_key = 0x90 # replicate 31 0, ar_chunk_refs = [], ar_payload = [5], ar_has_inline_data = False\<rparr> 1 [5]"

definition demo_split_shard :: MemShard where
  "demo_split_shard = \<lparr>sh_info = \<lparr>si_shard_id = 1, si_tenant_id = 9, si_raft_members = [1], si_leader = Some 1, si_tip = 1,
     si_delta_count = 1, si_byte_size = 129, si_state = Healthy, si_config = shard_config_default,
     si_range_start = replicate 32 0, si_range_end = replicate 32 0xff\<rparr>,
     sh_deltas = [demo_split_delta], sh_watermarks = [], sh_gc_floor = 0\<rparr>"

definition demo_split_store :: "unit MemShardStore" where
  "demo_split_store = put_shard 1 demo_split_shard ms_new"

definition demo_split_plan :: AutoSplitPlan where
  "demo_split_plan = \<lparr>as_original_shard = 1, as_new_shard = 2, as_tenant_id = 9, as_midpoint = 0x80 # replicate 31 0,
     as_range_start = replicate 32 0, as_range_end = replicate 32 0xff, as_initial_node = 1\<rparr>"

lemma execute_split_moves_example:
  "\<forall>ops. \<exists>s' new. execute_split ops demo_split_plan demo_split_store = (s', Ok ()) \<and> ms_shards s' 2 = Some new \<and>
     map delta_content (sh_deltas new) = [delta_content demo_split_delta] \<and> map d_seq (sh_deltas new) = [1]"
proof
  fix ops
  have w: "(0x80 :: u8) < 0x90" "(0x90 :: u8) < 0xff" by (simp_all add: word_less_def)
  have f: "replicate 32 (0xff :: u8) = 0xff # replicate 31 0xff" by (simp add: numeral_eq_Suc)
  have k: "d_key demo_split_delta = 0x90 # replicate 31 0" "d_seq demo_split_delta = 1" "dp_ciphertext (d_payload demo_split_delta) = [5]"
    by (simp_all add: demo_split_delta_def mk_delta_def)
  have p: "as_original_shard demo_split_plan = 1" "as_new_shard demo_split_plan = 2" "as_midpoint demo_split_plan = 0x80 # replicate 31 0"
    by (simp_all add: demo_split_plan_def)
  have sh: "sh_deltas demo_split_shard = [demo_split_delta]" "sh_gc_floor demo_split_shard = 0" by (simp_all add: demo_split_shard_def)
  have st: "ms_shards demo_split_store = [1 \<mapsto> demo_split_shard]" "ms_inline_store demo_split_store = None"
    by (simp_all add: demo_split_store_def ms_new_def)
  have mid: "as_midpoint demo_split_plan \<le> d_key demo_split_delta" using w(1) by (simp add: k p)
  have lt: "d_key demo_split_delta < replicate 32 0xff" unfolding f k(1) using w(2) by simp
  have "if sh_gc_floor demo_split_shard > 1
    then execute_split ops demo_split_plan demo_split_store = (demo_split_store, Err (DeltaLogPruned (as_original_shard demo_split_plan) (sh_gc_floor demo_split_shard)))
    else \<exists>s' new. execute_split ops demo_split_plan demo_split_store = (s', Ok ()) \<and> ms_shards s' = (ms_shards demo_split_store)
        (as_original_shard demo_split_plan \<mapsto> demo_split_shard\<lparr>sh_info := (sh_info demo_split_shard)\<lparr>si_range_start := as_range_start demo_split_plan, si_range_end := as_midpoint demo_split_plan\<rparr>\<rparr>,
         as_new_shard demo_split_plan \<mapsto> new) \<and>
      si_range_start (sh_info new) = as_midpoint demo_split_plan \<and> si_range_end (sh_info new) = as_range_end demo_split_plan \<and>
      map delta_content (sh_deltas new) = map delta_content (filter (\<lambda>d. as_midpoint demo_split_plan \<le> d_key d) (sh_deltas demo_split_shard)) \<and>
      map d_seq (sh_deltas new) = [1..<Suc (length (sh_deltas new))]"
    by (rule execute_split_moves) (use lt in \<open>simp_all add: st p sh k delta_bytes_def u64_max_def\<close>)
  then obtain s' new where r: "execute_split ops demo_split_plan demo_split_store = (s', Ok ())" "ms_shards s' 2 = Some new"
    "map delta_content (sh_deltas new) = [delta_content demo_split_delta]" "map d_seq (sh_deltas new) = [1..<Suc (length (sh_deltas new))]"
    using mid by (auto simp: sh p(2) simp del: upt_Suc)
  from arg_cong [OF r(3), of length] have "length (sh_deltas new) = 1" by simp
  then have "map d_seq (sh_deltas new) = [1]" using r(4) by simp
  then show "\<exists>s' new. execute_split ops demo_split_plan demo_split_store = (s', Ok ()) \<and> ms_shards s' 2 = Some new \<and>
     map delta_content (sh_deltas new) = [delta_content demo_split_delta] \<and> map d_seq (sh_deltas new) = [1]"
    by (intro exI [of _ s'] exI [of _ new] conjI r(1-3))
qed

end
