(* ===== verification/Chunk_Placement.thy ===== *)
theory Chunk_Placement
  imports Kiseki_Prelude
begin

text \<open>
  Placement of chunk data (\<^verbatim>\<open>crates/kiseki-chunk/src\<close>): affinity pools and the routing of a write by
  its size (\<^verbatim>\<open>pool.rs\<close>), deterministic placement of fragments on devices (\<^verbatim>\<open>placement.rs\<close>,
  \<^verbatim>\<open>striping.rs\<close>) and erasure coding (\<^verbatim>\<open>ec.rs\<close>). Sizes are natural numbers below 2^64, hashes are
  64-bit words. The Reed-Solomon crate is a parameter whose documented behaviour (any \<open>data\<close> of the
  \<open>data + parity\<close> shards give all of them back) is the hypothesis \<open>rs_laws\<close>.
\<close>

unbundle bit_operations_syntax

section \<open>Pools\<close>

datatype DurabilityStrategy =
    ErasureCoding nat nat
  | Replication nat
  | InlineDurability

datatype PoolRole = ChunkRole | MetadataRole | InlineRole

datatype DeviceClass = NvmeSsd | Ssd | Hdd | Mixed

definition INLINE_CEILING_BYTES :: nat where
  "INLINE_CEILING_BYTES = 64 * 1024"

definition INLINE_FLOOR_BYTES :: nat where
  "INLINE_FLOOR_BYTES = 128"

definition DEFAULT_INLINE_THRESHOLD_BYTES :: nat where
  "DEFAULT_INLINE_THRESHOLD_BYTES = 16 * 1024"

definition DEFAULT_REPLICATION_CEILING_BYTES :: nat where
  "DEFAULT_REPLICATION_CEILING_BYTES = 4 * 1024 * 1024"

record PoolDevice =
  pd_id :: string
  pd_online :: bool

record AffinityPool =
  ap_name :: string
  ap_durability :: DurabilityStrategy
  ap_capacity_bytes :: nat
  ap_used_bytes :: nat
  ap_device_class :: DeviceClass
  ap_devices :: "PoolDevice list"
  ap_role :: PoolRole
  ap_inline_threshold_bytes :: nat
  ap_replication_ceiling_bytes :: nat
  ap_requires_migration :: bool

definition affinity_pool_new :: "string \<Rightarrow> DurabilityStrategy \<Rightarrow> nat \<Rightarrow> AffinityPool" where
  "affinity_pool_new name durability capacity_bytes =
     \<lparr>ap_name = name, ap_durability = durability, ap_capacity_bytes = capacity_bytes, ap_used_bytes = 0,
      ap_device_class = Mixed, ap_devices = [], ap_role = ChunkRole,
      ap_inline_threshold_bytes = DEFAULT_INLINE_THRESHOLD_BYTES,
      ap_replication_ceiling_bytes = DEFAULT_REPLICATION_CEILING_BYTES, ap_requires_migration = False\<rparr>"

definition effective_inline_threshold :: "AffinityPool \<Rightarrow> nat" where
  "effective_inline_threshold p =
     (if ap_inline_threshold_bytes p < INLINE_FLOOR_BYTES then INLINE_FLOOR_BYTES
      else if ap_inline_threshold_bytes p > INLINE_CEILING_BYTES then INLINE_CEILING_BYTES
      else ap_inline_threshold_bytes p)"

fun set_first_online :: "string \<Rightarrow> bool \<Rightarrow> PoolDevice list \<Rightarrow> PoolDevice list" where
  "set_first_online device_id online [] = []"
| "set_first_online device_id online (d # ds) =
     (if pd_id d = device_id then d\<lparr>pd_online := online\<rparr> # ds else d # set_first_online device_id online ds)"

definition set_device_online :: "string \<Rightarrow> bool \<Rightarrow> AffinityPool \<Rightarrow> AffinityPool" where
  "set_device_online device_id online p =
     p\<lparr>ap_devices := set_first_online device_id online (ap_devices p)\<rparr>"

definition available_bytes :: "AffinityPool \<Rightarrow> nat" where
  "available_bytes p = ap_capacity_bytes p - ap_used_bytes p"

definition has_capacity :: "nat \<Rightarrow> AffinityPool \<Rightarrow> bool" where
  "has_capacity sz p \<longleftrightarrow> available_bytes p \<ge> sz"

datatype WriteSizeBand = InlineBand | ReplicatedBand | ErasureBand

definition classify_write_size :: "nat \<Rightarrow> nat \<Rightarrow> nat \<Rightarrow> WriteSizeBand" where
  "classify_write_size data_size inline_threshold replication_ceiling =
     (if data_size \<le> inline_threshold then InlineBand
      else if data_size \<le> replication_ceiling then ReplicatedBand
      else ErasureBand)"

record NamespaceTierPolicy =
  tp_inline :: "string option"
  tp_replicated :: "string option"
  tp_ec :: "string option"

definition is_inline_pool :: "AffinityPool \<Rightarrow> bool" where
  "is_inline_pool p \<longleftrightarrow> ap_role p = InlineRole \<or> ap_durability p = InlineDurability"

definition is_replicated_pool :: "AffinityPool \<Rightarrow> bool" where
  "is_replicated_pool p \<longleftrightarrow>
     ap_role p = ChunkRole \<and> (case ap_durability p of Replication _ \<Rightarrow> True | _ \<Rightarrow> False)"

definition is_ec_pool :: "AffinityPool \<Rightarrow> bool" where
  "is_ec_pool p \<longleftrightarrow>
     ap_role p = ChunkRole \<and> (case ap_durability p of ErasureCoding _ _ \<Rightarrow> True | _ \<Rightarrow> False)"

definition or_else :: "'a option \<Rightarrow> 'a option \<Rightarrow> 'a option" where
  "or_else a b = (case a of None \<Rightarrow> b | Some x \<Rightarrow> Some x)"

definition named_pool :: "AffinityPool list \<Rightarrow> string option \<Rightarrow> AffinityPool option" where
  "named_pool pools name =
     Option.bind name (\<lambda>n. find (\<lambda>p. ap_name p = n) pools)"

definition band_thresholds :: "AffinityPool list \<Rightarrow> NamespaceTierPolicy option \<Rightarrow> nat \<times> nat" where
  "band_thresholds pools tier_policy =
     (let inline_pool = or_else (named_pool pools (Option.bind tier_policy tp_inline)) (find is_inline_pool pools);
          inline_threshold = (case inline_pool of None \<Rightarrow> DEFAULT_INLINE_THRESHOLD_BYTES
            | Some p \<Rightarrow> effective_inline_threshold p);
          replicated_pool = or_else (named_pool pools (Option.bind tier_policy tp_replicated))
            (find is_replicated_pool pools);
          replication_ceiling = (case replicated_pool of None \<Rightarrow> DEFAULT_REPLICATION_CEILING_BYTES
            | Some p \<Rightarrow> ap_replication_ceiling_bytes p)
      in (inline_threshold, replication_ceiling))"

fun match_band :: "WriteSizeBand \<Rightarrow> AffinityPool \<Rightarrow> bool" where
  "match_band InlineBand p \<longleftrightarrow> is_inline_pool p"
| "match_band ReplicatedBand p \<longleftrightarrow> is_replicated_pool p"
| "match_band ErasureBand p \<longleftrightarrow> is_ec_pool p"

fun policy_pool_name :: "WriteSizeBand \<Rightarrow> NamespaceTierPolicy \<Rightarrow> string option" where
  "policy_pool_name InlineBand policy = tp_inline policy"
| "policy_pool_name ReplicatedBand policy = tp_replicated policy"
| "policy_pool_name ErasureBand policy = tp_ec policy"

definition select_pool_for_write ::
    "AffinityPool list \<Rightarrow> nat \<Rightarrow> NamespaceTierPolicy option \<Rightarrow> DeviceClass option \<Rightarrow> AffinityPool option" where
  "select_pool_for_write pools data_size tier_policy preferred_class =
     (if pools = [] then None
      else
        let (inline_threshold, replication_ceiling) = band_thresholds pools tier_policy;
            band = classify_write_size data_size inline_threshold replication_ceiling;
            by_policy = (case named_pool pools (Option.bind tier_policy (policy_pool_name band)) of
              None \<Rightarrow> None | Some p \<Rightarrow> if has_capacity data_size p then Some p else None);
            by_class = Option.bind preferred_class (\<lambda>class.
              find (\<lambda>p. match_band band p \<and> ap_device_class p = class \<and> has_capacity data_size p) pools);
            by_band = find (\<lambda>p. match_band band p \<and> has_capacity data_size p) pools;
            fallback = or_else (find (has_capacity data_size) pools) (Some (hd pools))
        in or_else by_policy (or_else by_class (or_else by_band fallback)))"

section \<open>Fragment placement\<close>

record DeviceInfo =
  di_id :: string
  di_online :: bool

definition remove_at :: "nat \<Rightarrow> 'a list \<Rightarrow> 'a list" where
  "remove_at i xs = take i xs @ drop (Suc i) xs"

definition fragment_hash :: "u64 \<Rightarrow> nat \<Rightarrow> u64" where
  "fragment_hash seed frag_idx = seed * 2654435761 + of_nat frag_idx"

fun pick_fragments :: "u64 \<Rightarrow> nat list \<Rightarrow> nat list \<Rightarrow> nat list" where
  "pick_fragments seed [] available = []"
| "pick_fragments seed (frag_idx # idxs) available =
     (let idx = unat (fragment_hash seed frag_idx) mod length available
      in available ! idx # pick_fragments seed idxs (remove_at idx available))"

definition place_fragments :: "bytes \<Rightarrow> nat \<Rightarrow> DeviceInfo list \<Rightarrow> nat list option" where
  "place_fragments chunk_id n_fragments devices =
     (if n_fragments = 0 then None
      else
        let online = filter (\<lambda>i. di_online (devices ! i)) [0..<length devices] in
        if length online < n_fragments then None
        else
          let seed = of_nat (le_val (take 8 chunk_id))
          in Some (pick_fragments seed [0..<n_fragments] online))"

section \<open>Striping\<close>

record FragmentAssignment =
  fa_fragment_index :: nat
  fa_device_id :: bytes
  fa_offset :: nat
  fa_length :: nat
  fa_is_parity :: bool

datatype StripingError = InsufficientDevices nat nat | DeviceUnavailableS bytes

definition fnv_mix :: "bytes \<Rightarrow> u64 \<Rightarrow> u64" where
  "fnv_mix bs h = fold (\<lambda>b h. (h XOR ucast b) * 0x100000001b3) bs h"

definition crush_hash :: "bytes \<Rightarrow> nat \<Rightarrow> bytes \<Rightarrow> u64" where
  "crush_hash chunk_id fragment_index device_id =
     fnv_mix device_id (fnv_mix (le_bytes 4 fragment_index) (fnv_mix chunk_id 0xcbf29ce484222325))"

fun best_device :: "(nat \<Rightarrow> u64) \<Rightarrow> nat set \<Rightarrow> nat list \<Rightarrow> (u64 \<times> nat) option \<Rightarrow> (u64 \<times> nat) option" where
  "best_device score used [] best = best"
| "best_device score used (dev_idx # devs) best =
     best_device score used devs
       (if dev_idx \<in> used then best
        else case best of
          None \<Rightarrow> Some (score dev_idx, dev_idx)
        | Some (best_score, best_dev) \<Rightarrow>
            if score dev_idx > best_score then Some (score dev_idx, dev_idx) else best)"

fun assign_loop :: "bytes \<Rightarrow> nat \<Rightarrow> bytes list \<Rightarrow> nat list \<Rightarrow> nat set \<Rightarrow> (StripingError, FragmentAssignment list) res" where
  "assign_loop chunk_id data_count devices [] used = Ok []"
| "assign_loop chunk_id data_count devices (frag_idx # idxs) used =
     (case best_device (\<lambda>i. crush_hash chunk_id frag_idx (devices ! i)) used [0..<length devices] None of
        None \<Rightarrow> Panic
      | Some (_, chosen) \<Rightarrow>
          bind_res (assign_loop chunk_id data_count devices idxs (insert chosen used)) (\<lambda>rest.
            Ok (\<lparr>fa_fragment_index = frag_idx, fa_device_id = devices ! chosen, fa_offset = 0,
                 fa_length = 0, fa_is_parity = (frag_idx \<ge> data_count)\<rparr> # rest)))"

definition assign_fragments ::
    "bytes \<Rightarrow> nat \<Rightarrow> nat \<Rightarrow> bytes list \<Rightarrow> (StripingError, FragmentAssignment list) res" where
  "assign_fragments chunk_id data_count parity_count available_devices =
     (if data_count + parity_count > u32_max then Panic
      else
        let total_count = data_count + parity_count in
        if length available_devices < total_count
        then Err (InsufficientDevices total_count (length available_devices))
        else assign_loop chunk_id data_count available_devices [0..<total_count] {})"

section \<open>Erasure coding\<close>

datatype ChunkError =
    ChunkNotFound bytes
  | SlabNotFound nat
  | Corrupted bytes
  | RetentionHoldActive bytes
  | RefcountUnderflow bytes
  | PoolFull string
  | EcInvalidConfig
  | EcEncodeFailed
  | ChunkLost
  | DeviceUnavailable bytes
  | ChunkIo string
  | Fjall
  | ChunkQuorumLost nat nat

record ReedSolomon =
  rs_new :: "nat \<Rightarrow> nat \<Rightarrow> bool"
  rs_encode :: "nat \<Rightarrow> nat \<Rightarrow> bytes list \<Rightarrow> bytes list option"
  rs_reconstruct :: "nat \<Rightarrow> nat \<Rightarrow> bytes option list \<Rightarrow> bytes option list option"

record EcEncoded =
  ee_fragments :: "bytes list"
  ee_data_shards :: nat
  ee_parity_shards :: nat
  ee_original_len :: nat

definition pad_to :: "nat \<Rightarrow> bytes \<Rightarrow> bytes" where
  "pad_to n shard = take n shard @ replicate (n - length shard) 0"

definition data_shard :: "bytes \<Rightarrow> nat \<Rightarrow> nat \<Rightarrow> bytes" where
  "data_shard data shard_size i =
     (let start = i * shard_size; stop = min ((i + 1) * shard_size) (length data)
      in pad_to shard_size (if start < length data then take (stop - start) (drop start data) else []))"

definition ec_encode :: "ReedSolomon \<Rightarrow> bytes \<Rightarrow> nat \<Rightarrow> nat \<Rightarrow> (ChunkError, EcEncoded) res" where
  "ec_encode rs data data_shards parity_shards =
     (if data_shards = 0 \<or> parity_shards = 0 then Err EcInvalidConfig
      else
        let original_len = length data in
        if original_len = 0 then
          Ok \<lparr>ee_fragments = replicate (data_shards + parity_shards) [], ee_data_shards = data_shards,
              ee_parity_shards = parity_shards, ee_original_len = 0\<rparr>
        else if \<not> rs_new rs data_shards parity_shards then Err EcInvalidConfig
        else
          let shard_size = div_ceil original_len data_shards;
              shards = map (data_shard data shard_size) [0..<data_shards]
                @ replicate parity_shards (replicate shard_size 0)
          in case rs_encode rs data_shards parity_shards shards of
               None \<Rightarrow> Err EcEncodeFailed
             | Some fragments \<Rightarrow>
                 Ok \<lparr>ee_fragments = fragments, ee_data_shards = data_shards,
                     ee_parity_shards = parity_shards, ee_original_len = original_len\<rparr>)"

definition ec_decode :: "ReedSolomon \<Rightarrow> bytes option list \<Rightarrow> nat \<Rightarrow> nat \<Rightarrow> nat \<Rightarrow> (ChunkError, bytes) res" where
  "ec_decode rs fragments data_shards parity_shards original_len =
     (if length fragments \<noteq> data_shards + parity_shards then Err EcInvalidConfig
      else if original_len = 0 then Ok []
      else if length (filter (\<lambda>f. f \<noteq> None) fragments) < data_shards then Err ChunkLost
      else if \<not> rs_new rs data_shards parity_shards then Err EcInvalidConfig
      else case rs_reconstruct rs data_shards parity_shards fragments of
             None \<Rightarrow> Err ChunkLost
           | Some fragments \<Rightarrow>
               Ok (take original_len (concat (map the (filter (\<lambda>f. f \<noteq> None) (take data_shards fragments))))))"

text \<open>Documented behaviour of the Reed-Solomon coder: every configuration of at most 256 shards with
  data and parity is accepted; encoding shards of one non-zero size succeeds and leaves the data
  shards as they are; from encoded shards of which at least \<open>data\<close> are left, all are reconstructed.\<close>

definition erased :: "bytes list \<Rightarrow> bytes option list \<Rightarrow> bool" where
  "erased full part \<longleftrightarrow> list_all2 (\<lambda>f p. p = None \<or> p = Some f) full part"

definition rs_laws :: "ReedSolomon \<Rightarrow> bool" where
  "rs_laws rs \<longleftrightarrow>
     (\<forall>d p. rs_new rs d p \<longleftrightarrow> 0 < d \<and> 0 < p \<and> d + p \<le> 256) \<and>
     (\<forall>d p n shards. rs_new rs d p \<longrightarrow> 0 < n \<longrightarrow> length shards = d + p \<longrightarrow> (\<forall>s \<in> set shards. length s = n) \<longrightarrow>
        (\<exists>full. rs_encode rs d p shards = Some full \<and> length full = d + p \<and> take d full = take d shards \<and>
           (\<forall>part. erased full part \<longrightarrow> d \<le> length (filter (\<lambda>f. f \<noteq> None) part) \<longrightarrow>
              rs_reconstruct rs d p part = Some (map Some full))))"

section \<open>Lemmas on placement\<close>

lemma remove_at_props:
  assumes "i < length xs" "distinct xs"
  shows "set (remove_at i xs) = set xs - {xs ! i}" "distinct (remove_at i xs)"
    "length (remove_at i xs) = length xs - 1"
proof -
  have x: "xs = take i xs @ xs ! i # drop (Suc i) xs" using assms(1) by (rule id_take_nth_drop)
  have d: "distinct (take i xs @ xs ! i # drop (Suc i) xs)" using assms(2) x by simp
  have "set xs = insert (xs ! i) (set (take i xs) \<union> set (drop (Suc i) xs))" by (subst x) simp
  then show "set (remove_at i xs) = set xs - {xs ! i}" using d by (auto simp: remove_at_def)
  show "distinct (remove_at i xs)" using d by (simp add: remove_at_def)
  show "length (remove_at i xs) = length xs - 1" using assms(1) by (simp add: remove_at_def)
qed

lemma pick_fragments_props:
  "distinct available \<Longrightarrow> length idxs \<le> length available \<Longrightarrow>
     length (pick_fragments seed idxs available) = length idxs \<and>
     distinct (pick_fragments seed idxs available) \<and>
     set (pick_fragments seed idxs available) \<subseteq> set available"
proof (induction seed idxs available rule: pick_fragments.induct)
  case (2 seed frag_idx idxs available)
  let ?i = "unat (fragment_hash seed frag_idx) mod length available"
  have "0 < length available" using "2.prems"(2) by (cases available) auto
  then have i: "?i < length available" by (rule mod_less_divisor)
  note r = remove_at_props [OF i "2.prems"(1)]
  have "length (pick_fragments seed idxs (remove_at ?i available)) = length idxs \<and>
      distinct (pick_fragments seed idxs (remove_at ?i available)) \<and>
      set (pick_fragments seed idxs (remove_at ?i available)) \<subseteq> set (remove_at ?i available)"
    using "2.IH" [OF refl r(2)] r(3) "2.prems"(2) by simp
  then show ?case using r(1) i by (auto simp: Let_def)
qed simp

lemma place_fragments_cases:
  "(case place_fragments chunk_id n devices of
      None \<Rightarrow> n = 0 \<or> length (filter di_online devices) < n
    | Some sel \<Rightarrow> 0 < n \<and> n \<le> length (filter di_online devices) \<and> length sel = n \<and> distinct sel \<and>
        (\<forall>i \<in> set sel. i < length devices \<and> di_online (devices ! i)))"
proof -
  define online where "online = filter (\<lambda>i. di_online (devices ! i)) [0..<length devices]"
  have "filter di_online (map ((!) devices) [0..<length devices]) = map ((!) devices) online"
    by (simp add: online_def filter_map comp_def)
  then have "length online = length (filter di_online devices)" unfolding map_nth by simp
  note len = this
  have on: "distinct online" "\<forall>i \<in> set online. i < length devices \<and> di_online (devices ! i)"
    by (auto simp: online_def)
  show ?thesis
  proof (cases "n = 0 \<or> length online < n")
    case True
    then have "place_fragments chunk_id n devices = None"
      by (auto simp: place_fragments_def simp flip: online_def)
    then show ?thesis using True len by simp
  next
    case False
    let ?sel = "pick_fragments (of_nat (le_val (take 8 chunk_id))) [0..<n] online"
    have "place_fragments chunk_id n devices = Some ?sel"
      using False by (simp add: place_fragments_def Let_def flip: online_def)
    moreover have "length ?sel = n \<and> distinct ?sel \<and> set ?sel \<subseteq> set online"
      using pick_fragments_props [OF on(1), of "[0..<n]"] False by simp
    ultimately show ?thesis using False len on(2) by auto
  qed
qed

text \<open>Fragments never share a device (I-D4). Placing a positive number of fragments succeeds exactly
  when that many devices are online, and then yields one device index per fragment, all distinct and
  all of online devices, whatever the chunk.\<close>

lemma placement_distinct:
  "(case place_fragments chunk_id n devices of
      None \<Rightarrow> n = 0 \<or> length (filter di_online devices) < n
    | Some sel \<Rightarrow> 0 < n \<and> n \<le> length (filter di_online devices) \<and> length sel = n \<and> distinct sel \<and>
        (\<forall>i \<in> set sel. i < length devices \<and> di_online (devices ! i)))"
  by (rule place_fragments_cases)

lemma placement_distinct_example:
  "\<exists>sel. place_fragments (replicate 32 7) 2
       [\<lparr>di_id = ''a'', di_online = True\<rparr>, \<lparr>di_id = ''b'', di_online = False\<rparr>, \<lparr>di_id = ''c'', di_online = True\<rparr>]
     = Some sel \<and> set sel = {0, 2}"
proof -
  let ?ds = "[\<lparr>di_id = ''a'', di_online = True\<rparr>, \<lparr>di_id = ''b'', di_online = False\<rparr>, \<lparr>di_id = ''c'', di_online = True\<rparr>]"
  obtain sel where s: "place_fragments (replicate 32 7) 2 ?ds = Some sel"
    using placement_distinct [where chunk_id = "replicate 32 7" and n = 2 and devices = ?ds] by (auto split: option.splits)
  have "length sel = 2" "distinct sel" "\<forall>i \<in> set sel. i < length ?ds \<and> di_online (?ds ! i)"
    using placement_distinct [where chunk_id = "replicate 32 7" and n = 2 and devices = ?ds] s by auto
  moreover have "i \<in> {0, 2}" if "i < length ?ds \<and> di_online (?ds ! i)" for i
    using that by (auto simp: less_Suc_eq numeral_3_eq_3 nth_Cons')
  ultimately have "set sel \<subseteq> {0, 2}" "card (set sel) = 2" by (auto simp: distinct_card)
  then have "set sel = {0, 2}" by (simp add: card_subset_eq)
  with s show ?thesis by blast
qed

section \<open>Lemmas on striping\<close>

lemma best_device_props:
  "(\<forall>s b. best = Some (s, b) \<longrightarrow> b \<notin> used \<and> s = score b) \<Longrightarrow>
     (best_device score used devs best = None \<longleftrightarrow> best = None \<and> set devs \<subseteq> used) \<and>
     (\<forall>s b. best_device score used devs best = Some (s, b) \<longrightarrow>
        b \<notin> used \<and> s = score b \<and> (b \<in> set devs \<or> best = Some (s, b)) \<and>
        (\<forall>i \<in> set devs - used. score i \<le> s) \<and> (\<forall>s' b'. best = Some (s', b') \<longrightarrow> s' \<le> s))"
proof (induction score used devs best rule: best_device.induct)
  case (2 score used d devs best)
  define best' where "best' = (if d \<in> used then best
        else case best of
          None \<Rightarrow> Some (score d, d)
        | Some (best_score, best_dev) \<Rightarrow> if score d > best_score then Some (score d, d) else best)"
  have st: "best_device score used (d # devs) best = best_device score used devs best'"
    by (simp add: best'_def)
  have pre: "\<forall>s b. best' = Some (s, b) \<longrightarrow> b \<notin> used \<and> s = score b"
    using "2.prems" by (auto simp: best'_def split: if_splits option.splits)
  have none: "best' = None \<longleftrightarrow> best = None \<and> d \<in> used"
    by (auto simp: best'_def split: option.splits)
  have mono: "best = Some (s', b') \<Longrightarrow> \<exists>s b. best' = Some (s, b) \<and> s' \<le> s" for s' b'
    by (auto simp: best'_def)
  have mine: "d \<notin> used \<Longrightarrow> \<exists>s b. best' = Some (s, b) \<and> score d \<le> s"
    by (auto simp: best'_def not_less split: option.splits)
  have src: "best' = Some (s, b) \<Longrightarrow> b = d \<or> best = Some (s, b)" for s b
    by (auto simp: best'_def split: if_splits option.splits)
  note ih = "2.IH" [folded best'_def, OF pre]
  show ?case unfolding st using ih none mono mine src
    by (auto; (fastforce | (metis order.trans)))
qed auto

lemma assign_loop_ok:
  "used \<subseteq> {..<length devices} \<Longrightarrow> card used + length idxs \<le> length devices \<Longrightarrow>
     \<exists>as sel. assign_loop chunk_id dc devices idxs used = Ok as \<and> map fa_fragment_index as = idxs \<and>
       map fa_device_id as = map ((!) devices) sel \<and> length sel = length idxs \<and> distinct sel \<and>
       set sel \<subseteq> {..<length devices} - used \<and> (\<forall>a \<in> set as. fa_is_parity a \<longleftrightarrow> dc \<le> fa_fragment_index a)"
proof (induction idxs arbitrary: used)
  case (Cons k idxs)
  let ?score = "\<lambda>i. crush_hash chunk_id k (devices ! i)"
  have fin: "finite used" using Cons.prems(1) finite_subset by blast
  have "\<not> {..<length devices} \<subseteq> used"
  proof
    assume "{..<length devices} \<subseteq> used"
    from card_mono [OF fin this] have "length devices \<le> card used" by simp
    with Cons.prems(2) show False by simp
  qed
  moreover have bd: "(best_device ?score used [0..<length devices] None = None \<longleftrightarrow> {..<length devices} \<subseteq> used) \<and>
      (\<forall>s b. best_device ?score used [0..<length devices] None = Some (s, b) \<longrightarrow> b \<notin> used \<and> b < length devices)"
    using best_device_props [of None used ?score "[0..<length devices]"] by (auto simp: subset_iff)
  ultimately have "best_device ?score used [0..<length devices] None \<noteq> None" by blast
  then obtain sc ch where b: "best_device ?score used [0..<length devices] None = Some (sc, ch)" by fastforce
  with bd have ch: "ch \<notin> used" "ch < length devices" by blast+
  have "insert ch used \<subseteq> {..<length devices}" "card (insert ch used) + length idxs \<le> length devices"
    using Cons.prems ch fin by auto
  from Cons.IH [OF this] obtain as sel where ih:
    "assign_loop chunk_id dc devices idxs (insert ch used) = Ok as" "map fa_fragment_index as = idxs"
    "map fa_device_id as = map ((!) devices) sel" "length sel = length idxs" "distinct sel"
    "set sel \<subseteq> {..<length devices} - insert ch used" "\<forall>a \<in> set as. fa_is_parity a \<longleftrightarrow> dc \<le> fa_fragment_index a"
    by blast
  let ?a = "\<lparr>fa_fragment_index = k, fa_device_id = devices ! ch, fa_offset = 0,
                 fa_length = 0, fa_is_parity = (k \<ge> dc)\<rparr>"
  have "assign_loop chunk_id dc devices (k # idxs) used = Ok (?a # as)" using b ih(1) by simp
  have "map fa_device_id (?a # as) = map ((!) devices) (ch # sel)" using ih(3) by simp
  have "length (ch # sel) = length (k # idxs)" "distinct (ch # sel)"
    "set (ch # sel) \<subseteq> {..<length devices} - used" using ih(4-6) ch by auto
  have "map fa_fragment_index (?a # as) = k # idxs"
    "\<forall>a \<in> set (?a # as). fa_is_parity a \<longleftrightarrow> dc \<le> fa_fragment_index a" using ih(2,7) by auto
  show ?case by (rule exI [of _ "?a # as"], rule exI [of _ "ch # sel"]) (intro conjI; fact)
qed simp

text \<open>Striping spreads a chunk over distinct devices (I-D4). With at least as many devices as
  fragments the assignment always succeeds, gives fragment i its own device index, none used twice,
  lists the fragments in order and marks exactly those after the data fragments as parity; with fewer
  devices it reports how many are needed and how many there are.\<close>

lemma striping_distinct:
  assumes "data_count + parity_count \<le> u32_max"
  shows "if length devices < data_count + parity_count
         then assign_fragments chunk_id data_count parity_count devices =
                Err (InsufficientDevices (data_count + parity_count) (length devices))
         else \<exists>as sel. assign_fragments chunk_id data_count parity_count devices = Ok as \<and>
                map fa_fragment_index as = [0..<data_count + parity_count] \<and>
                map fa_device_id as = map ((!) devices) sel \<and> distinct sel \<and> set sel \<subseteq> {..<length devices} \<and>
                (\<forall>a \<in> set as. fa_is_parity a \<longleftrightarrow> data_count \<le> fa_fragment_index a)"
proof (cases "length devices < data_count + parity_count")
  case True
  then show ?thesis using assms by (simp add: assign_fragments_def)
next
  case False
  then obtain as sel where "assign_loop chunk_id data_count devices [0..<data_count + parity_count] {} = Ok as"
    "map fa_fragment_index as = [0..<data_count + parity_count]" "map fa_device_id as = map ((!) devices) sel"
    "distinct sel" "set sel \<subseteq> {..<length devices}"
    "\<forall>a \<in> set as. fa_is_parity a \<longleftrightarrow> data_count \<le> fa_fragment_index a"
    using assign_loop_ok [of "{}" devices "[0..<data_count + parity_count]" chunk_id data_count] by auto
  then show ?thesis using False assms by (auto simp: assign_fragments_def)
qed

lemma striping_distinct_example:
  "\<exists>as. assign_fragments (replicate 32 7) 2 1 [replicate 16 1, replicate 16 2, replicate 16 3, replicate 16 4] = Ok as \<and>
     length as = 3 \<and> (\<forall>a \<in> set as. fa_is_parity a \<longleftrightarrow> 2 \<le> fa_fragment_index a)"
proof -
  obtain as where "assign_fragments (replicate 32 7) 2 1
      [replicate 16 1, replicate 16 2, replicate 16 3, replicate 16 4] = Ok as"
    "map fa_fragment_index as = [0..<2 + 1]" "\<forall>a \<in> set as. fa_is_parity a \<longleftrightarrow> 2 \<le> fa_fragment_index a"
    using striping_distinct [of 2 1 "[replicate 16 1, replicate 16 2, replicate 16 3, replicate 16 4]" "replicate 32 7"]
    by (auto simp: u32_max_val)
  moreover have "length as = 3"
    using arg_cong [OF \<open>map fa_fragment_index as = [0..<2 + 1]\<close>, of length] by simp
  ultimately show ?thesis by blast
qed

section \<open>Erasure coding round trip\<close>

lemma length_data_shard: "length (data_shard data n i) = n"
  by (simp add: data_shard_def pad_to_def Let_def min_def)

lemma data_shard_eq: "data_shard data n i = pad_to n (take n (drop (i * n) data))"
proof (cases "i * n < length data")
  case True
  have "take (min ((i + 1) * n) (length data) - i * n) (drop (i * n) data) = take n (drop (i * n) data)"
    by (auto simp: min_def)
  then show ?thesis using True by (simp add: data_shard_def Let_def)
qed (simp add: data_shard_def)

lemma concat_data_shards:
  "concat (map (data_shard data n) [0..<d]) = take (d * n) data @ replicate (d * n - length data) 0"
proof (induction d)
  case (Suc d)
  have "take (d * n) data @ replicate (d * n - length data) 0 @ pad_to n (take n (drop (d * n) data)) =
      take (Suc d * n) data @ replicate (Suc d * n - length data) 0"
  proof (cases "length data \<le> d * n")
    case True
    then have "replicate (d * n - length data) (0::u8) @ replicate n 0 = replicate (Suc d * n - length data) 0"
      by (simp add: replicate_add [symmetric])
    then show ?thesis using True by (simp add: pad_to_def)
  next
    case False
    then have "take (d * n) data @ take n (drop (d * n) data) = take (Suc d * n) data"
      by (simp add: take_add [symmetric] add.commute)
    then show ?thesis using False by (simp add: pad_to_def min_def)
  qed
  then show ?case using Suc by (simp add: data_shard_eq)
qed simp

lemma filter_Some: "filter (\<lambda>f. f \<noteq> None) (map Some xs) = map Some xs"
  by (induction xs) auto

lemma ec_decode_encode:
  assumes "rs_laws rs" "0 < d" "0 < p" "d + p \<le> 256"
  shows "\<exists>enc. ec_encode rs data d p = Ok enc \<and> length (ee_fragments enc) = d + p \<and>
           ee_original_len enc = length data \<and>
           (\<forall>part. erased (ee_fragments enc) part \<longrightarrow>
              ec_decode rs part d p (ee_original_len enc) =
                (if length (filter (\<lambda>f. f = None) part) \<le> p \<or> data = [] then Ok data else Err ChunkLost))"
proof (cases "data = []")
  case True
  then show ?thesis using assms by (auto simp: ec_encode_def ec_decode_def erased_def dest: list_all2_lengthD)
next
  case False
  let ?n = "div_ceil (length data) d"
  let ?shards = "map (data_shard data ?n) [0..<d] @ replicate p (replicate ?n 0)"
  have new: "rs_new rs d p" using assms by (simp add: rs_laws_def)
  have n: "0 < ?n" using False assms(2) by simp
  have sh: "length ?shards = d + p" "\<forall>s \<in> set ?shards. length s = ?n"
    by (auto simp: length_data_shard)
  from assms(1) have "\<exists>full. rs_encode rs d p ?shards = Some full \<and> length full = d + p \<and> take d full = take d ?shards \<and>
           (\<forall>part. erased full part \<longrightarrow> d \<le> length (filter (\<lambda>f. f \<noteq> None) part) \<longrightarrow>
              rs_reconstruct rs d p part = Some (map Some full))"
    unfolding rs_laws_def using new n sh by presburger
  then obtain full where full: "rs_encode rs d p ?shards = Some full" "length full = d + p"
    "take d full = take d ?shards"
    "\<And>part. erased full part \<Longrightarrow> d \<le> length (filter (\<lambda>f. f \<noteq> None) part) \<Longrightarrow>
       rs_reconstruct rs d p part = Some (map Some full)"
    by blast
  have enc: "ec_encode rs data d p = Ok \<lparr>ee_fragments = full, ee_data_shards = d, ee_parity_shards = p,
      ee_original_len = length data\<rparr>"
    using assms(2,3) False new full(1) by (simp add: ec_encode_def Let_def)
  have "concat (take d full) = take (d * ?n) data @ replicate (d * ?n - length data) 0"
    unfolding full(3) by (simp add: concat_data_shards)
  moreover have "length data \<le> d * ?n" using div_ceil_ge [of d "length data"] assms(2) by (simp add: mult.commute)
  ultimately have cat: "take (length data) (concat (take d full)) = data" by simp
  have "ec_decode rs part d p (length data) =
      (if length (filter (\<lambda>f. f = None) part) \<le> p then Ok data else Err ChunkLost)" if e: "erased full part" for part
  proof -
    have l: "length part = d + p" using e full(2) by (auto simp: erased_def dest: list_all2_lengthD)
    have c: "length (filter (\<lambda>f. f \<noteq> None) part) + length (filter (\<lambda>f. f = None) part) = d + p"
      using sum_length_filter_compl [of "\<lambda>f. f \<noteq> None" part] l by simp
    show ?thesis
    proof (cases "d \<le> length (filter (\<lambda>f. f \<noteq> None) part)")
      case True
      with full(4) [OF e] have "rs_reconstruct rs d p part = Some (map Some full)" by simp
      then have "ec_decode rs part d p (length data) =
          Ok (take (length data) (concat (map the (filter (\<lambda>f. f \<noteq> None) (take d (map Some full))))))"
        using True l False new by (simp add: ec_decode_def)
      then show ?thesis using True c cat by (simp add: take_map filter_Some comp_def del: filter_map)
    next
      case no: False
      then have "ec_decode rs part d p (length data) = Err ChunkLost"
        using l False by (simp add: ec_decode_def)
      then show ?thesis using no c by simp
    qed
  qed
  then show ?thesis using enc full(2) False by auto
qed

text \<open>C25: Erasure coding survives the loss of any parity-many fragments (I-C4, I-D1). Over a coder with
  the documented Reed-Solomon behaviour, encoding with positive shard counts and at most 256 shards
  succeeds and yields one fragment per shard; decoding any collection of these fragments from which
  at most the number of parity shards is missing returns the original bytes exactly, padding removed;
  decoding with more missing reports the chunk as lost. Empty chunks round-trip too.\<close>

theorem ec_roundtrip:
  assumes "rs_laws rs" "0 < d" "0 < p" "d + p \<le> 256"
  shows "\<exists>enc. ec_encode rs data d p = Ok enc \<and> length (ee_fragments enc) = d + p \<and>
           ee_original_len enc = length data \<and>
           (\<forall>part. erased (ee_fragments enc) part \<longrightarrow>
              ec_decode rs part d p (ee_original_len enc) =
                (if length (filter (\<lambda>f. f = None) part) \<le> p \<or> data = [] then Ok data else Err ChunkLost))"
  by (rule ec_decode_encode [OF assms])

text \<open>A coder whose parity shards are copies of all the data.\<close>

definition split_every :: "nat \<Rightarrow> nat \<Rightarrow> bytes \<Rightarrow> bytes list" where
  "split_every n d c = map (\<lambda>i. take n (drop (i * n) c)) [0..<d]"

definition copy_rs :: ReedSolomon where
  "copy_rs =
     \<lparr>rs_new = (\<lambda>d p. 0 < d \<and> 0 < p \<and> d + p \<le> 256),
      rs_encode = (\<lambda>d p shards. Some (take d shards @ replicate p (concat (take d shards)))),
      rs_reconstruct = (\<lambda>d p part.
        case find (\<lambda>f. f \<noteq> None) (drop d part) of
          Some (Some c) \<Rightarrow> Some (map Some (split_every (length c div d) d c @ replicate p c))
        | _ \<Rightarrow> Some (map Some (map the (take d part) @ replicate p (concat (map the (take d part))))))\<rparr>"

lemma split_every_concat:
  assumes "\<forall>s \<in> set xs. length s = n"
  shows "split_every n (length xs) (concat xs) = xs"
proof -
  have l: "length (concat (take i xs)) = i * n" if "i \<le> length xs" for i
    using that
  proof (induction i)
    case (Suc i)
    then show ?case using assms by (simp add: take_Suc_conv_app_nth)
  qed simp
  have "take n (drop (i * n) (concat xs)) = xs ! i" if "i < length xs" for i
  proof -
    have "concat xs = concat (take i xs) @ xs ! i @ concat (drop (Suc i) xs)"
      using that by (metis concat.simps(2) concat_append id_take_nth_drop)
    then show ?thesis using l [of i] that assms by simp
  qed
  then show ?thesis unfolding split_every_def by (intro nth_equalityI) simp_all
qed

lemma erased_none: "erased xs ps \<Longrightarrow> \<forall>f \<in> set ps. f \<noteq> None \<Longrightarrow> map the ps = xs"
  unfolding erased_def by (induction rule: list_all2_induct) auto

lemma copy_rs_reconstruct:
  assumes "0 < d" "length xs = d" "\<forall>s \<in> set xs. length s = n" "0 < n"
    and "erased (xs @ replicate p (concat xs)) part" "d \<le> length (filter (\<lambda>f. f \<noteq> None) part)"
  shows "rs_reconstruct copy_rs d p part = Some (map Some (xs @ replicate p (concat xs)))"
proof -
  have tk: "erased xs (take d part)" and dr: "erased (replicate p (concat xs)) (drop d part)"
    using assms(2,5) unfolding erased_def by (auto simp: list_all2_append1)
  have len: "length (concat xs) = d * n"
    using assms(2,3) by (induction xs arbitrary: d) auto
  show ?thesis
  proof (cases "find (\<lambda>f. f \<noteq> None) (drop d part)")
    case None
    then have no: "filter (\<lambda>f. f \<noteq> None) (drop d part) = []" by (simp add: find_None_iff filter_empty_conv)
    have "length (filter (\<lambda>f. f \<noteq> None) (take d part)) = length (filter (\<lambda>f. f \<noteq> None) part)"
      using no by (metis append_take_drop_id append_Nil2 filter_append)
    then have "d \<le> length (filter (\<lambda>f. f \<noteq> None) (take d part))" using assms(6) by simp
    moreover have "length (take d part) = d" using tk assms(2) by (auto simp: erased_def dest: list_all2_lengthD)
    ultimately have "filter (\<lambda>f. f \<noteq> None) (take d part) = take d part"
      by (metis length_filter_le le_antisym length_filter_less filter_True nless_le)
    then have "\<forall>f \<in> set (take d part). f \<noteq> None" by (simp add: filter_id_conv)
    from erased_none [OF tk this] have "map the (take d part) = xs" .
    then show ?thesis using None by (simp add: copy_rs_def)
  next
    case (Some f)
    then obtain i where i: "i < length (drop d part)" "f = drop d part ! i" "f \<noteq> None"
      by (auto simp: find_Some_iff)
    then have "f = Some (concat xs)" using dr by (auto simp: erased_def list_all2_conv_all_nth)
    moreover have "length (concat xs) div d = n" using len assms(1) by simp
    ultimately show ?thesis using Some split_every_concat [OF assms(3)] assms(2) by (simp add: copy_rs_def)
  qed
qed

lemma copy_rs_laws: "rs_laws copy_rs"
  unfolding rs_laws_def
proof (intro conjI allI impI)
  fix d p n and shards :: "bytes list"
  assume a: "rs_new copy_rs d p" "0 < n" "length shards = d + p" "\<forall>s \<in> set shards. length s = n"
  let ?xs = "take d shards"
  have x: "length ?xs = d" "\<forall>s \<in> set ?xs. length s = n" "0 < d" using a by (auto simp: copy_rs_def dest: in_set_takeD)
  show "\<exists>full. rs_encode copy_rs d p shards = Some full \<and> length full = d + p \<and> take d full = take d shards \<and>
           (\<forall>part. erased full part \<longrightarrow> d \<le> length (filter (\<lambda>f. f \<noteq> None) part) \<longrightarrow>
              rs_reconstruct copy_rs d p part = Some (map Some full))"
    by (rule exI [of _ "?xs @ replicate p (concat ?xs)"])
       (use a(3) x copy_rs_reconstruct [OF x(3,1,2) a(2)] in \<open>auto simp: copy_rs_def\<close>)
qed (simp add: copy_rs_def)

theorem ec_roundtrip_witness:
  "\<exists>enc. ec_encode copy_rs [1, 2, 3] 2 1 = Ok enc \<and> length (ee_fragments enc) = 3 \<and>
     ec_decode copy_rs [None, Some [3, 0], Some [1, 2, 3, 0]] 2 1 3 = Ok [1, 2, 3]"
proof -
  have e: "ec_encode copy_rs [1, 2, 3] 2 1 = Ok \<lparr>ee_fragments = [[1, 2], [3, 0], [1, 2, 3, 0]],
      ee_data_shards = 2, ee_parity_shards = 1, ee_original_len = 3\<rparr>"
    by code_simp
  have "erased [[1, 2], [3, 0], [1, 2, 3, 0]] [None, Some [3, 0], Some [1, 2, 3, 0]]" by (simp add: erased_def)
  then show ?thesis using ec_roundtrip [OF copy_rs_laws, of 2 1 "[1, 2, 3]"] e by auto
qed

section \<open>Routing of writes\<close>

lemma or_else_Some: "or_else a b = Some x \<longleftrightarrow> a = Some x \<or> a = None \<and> b = Some x"
  by (cases a) (auto simp: or_else_def)

lemma or_else_None: "or_else a b = None \<longleftrightarrow> a = None \<and> b = None"
  by (cases a) (auto simp: or_else_def)

lemma find_SomeD: "find P xs = Some x \<Longrightarrow> x \<in> set xs \<and> P x"
  by (auto simp: find_Some_iff)

lemma named_pool_mem: "named_pool pools n = Some p \<Longrightarrow> p \<in> set pools \<and> n = Some (ap_name p)"
  by (cases n) (auto simp: named_pool_def dest: find_SomeD)

text \<open>Routing of a write by size (ADR-024). A pool is selected for every write as long as there is
  one at all, and it is one of the pools; whenever some pool has room for the write the selected one
  has room; and whenever a pool of the write's size band has room, the selected pool is of that band
  or is the one the namespace's policy names for the band. The thresholds that define the bands keep
  the inline threshold between its floor and ceiling.\<close>

lemma write_routing:
  assumes "band_thresholds pools policy = (it, rc)" "band = classify_write_size sz it rc"
  shows "(select_pool_for_write pools sz policy cls = None \<longleftrightarrow> pools = []) \<and>
     INLINE_FLOOR_BYTES \<le> it \<and> it \<le> INLINE_CEILING_BYTES \<and>
     (\<forall>p. select_pool_for_write pools sz policy cls = Some p \<longrightarrow> p \<in> set pools \<and>
        ((\<exists>q \<in> set pools. has_capacity sz q) \<longrightarrow> has_capacity sz p) \<and>
        ((\<exists>q \<in> set pools. match_band band q \<and> has_capacity sz q) \<longrightarrow>
           match_band band p \<or> Option.bind policy (policy_pool_name band) = Some (ap_name p)))"
proof -
  let ?pol = "case named_pool pools (Option.bind policy (policy_pool_name band)) of
              None \<Rightarrow> None | Some p \<Rightarrow> if has_capacity sz p then Some p else None"
  let ?cls = "Option.bind cls (\<lambda>class.
              find (\<lambda>p. match_band band p \<and> ap_device_class p = class \<and> has_capacity sz p) pools)"
  let ?band = "find (\<lambda>p. match_band band p \<and> has_capacity sz p) pools"
  let ?any = "or_else (find (has_capacity sz) pools) (Some (hd pools))"
  have sel: "select_pool_for_write pools sz policy cls =
      (if pools = [] then None else or_else ?pol (or_else ?cls (or_else ?band ?any)))"
    by (simp add: select_pool_for_write_def assms Let_def)
  have pol: "?pol = Some p \<Longrightarrow> p \<in> set pools \<and> has_capacity sz p \<and>
      Option.bind policy (policy_pool_name band) = Some (ap_name p)" for p
    using named_pool_mem [of pools "Option.bind policy (policy_pool_name band)"]
    by (auto split: option.splits if_splits)
  have cl: "?cls = Some p \<Longrightarrow> p \<in> set pools \<and> has_capacity sz p \<and> match_band band p" for p
    by (cases cls) (auto dest: find_SomeD)
  have bd: "?band = Some p \<Longrightarrow> p \<in> set pools \<and> has_capacity sz p \<and> match_band band p" for p
    by (auto dest: find_SomeD)
  have bn: "?band = None \<Longrightarrow> \<not> (\<exists>q \<in> set pools. match_band band q \<and> has_capacity sz q)"
    by (auto simp: find_None_iff)
  have an: "pools \<noteq> [] \<Longrightarrow> ?any = Some p \<Longrightarrow> p \<in> set pools \<and> ((\<exists>q \<in> set pools. has_capacity sz q) \<longrightarrow> has_capacity sz p)" for p
    by (auto simp: or_else_Some find_None_iff dest: find_SomeD)
  have "INLINE_FLOOR_BYTES \<le> it \<and> it \<le> INLINE_CEILING_BYTES"
    using assms(1) by (auto simp: band_thresholds_def Let_def effective_inline_threshold_def INLINE_FLOOR_BYTES_def
        INLINE_CEILING_BYTES_def DEFAULT_INLINE_THRESHOLD_BYTES_def split: option.splits)
  moreover have "select_pool_for_write pools sz policy cls = None \<longleftrightarrow> pools = []"
    unfolding sel by (auto simp: or_else_None or_else_def split: option.splits)
  moreover have "p \<in> set pools \<and> ((\<exists>q \<in> set pools. has_capacity sz q) \<longrightarrow> has_capacity sz p) \<and>
        ((\<exists>q \<in> set pools. match_band band q \<and> has_capacity sz q) \<longrightarrow>
           match_band band p \<or> Option.bind policy (policy_pool_name band) = Some (ap_name p))"
    if "select_pool_for_write pools sz policy cls = Some p" for p
  proof -
    from that have "pools \<noteq> []" "?pol = Some p \<or> ?cls = Some p \<or> ?band = Some p \<or> ?band = None \<and> ?any = Some p"
      unfolding sel by (auto simp: or_else_Some split: if_splits)
    then show ?thesis using pol [of p] cl [of p] bd [of p] bn an [of p] by blast
  qed
  ultimately show ?thesis by blast
qed

lemma write_routing_example:
  "select_pool_for_write
     [(affinity_pool_new ''ec'' (ErasureCoding 4 2) 1000), (affinity_pool_new ''r3'' (Replication 3) 100000000)]
     500000 None None \<noteq> None \<and>
   (let p = the (select_pool_for_write
     [(affinity_pool_new ''ec'' (ErasureCoding 4 2) 1000), (affinity_pool_new ''r3'' (Replication 3) 100000000)]
     500000 None None) in match_band ReplicatedBand p \<and> has_capacity 500000 p)"
proof -
  let ?ps = "[(affinity_pool_new ''ec'' (ErasureCoding 4 2) 1000), (affinity_pool_new ''r3'' (Replication 3) 100000000)]"
  have t: "band_thresholds ?ps None = (16384, 4194304)"
    by (simp add: band_thresholds_def named_pool_def or_else_def is_inline_pool_def is_replicated_pool_def
        affinity_pool_new_def DEFAULT_INLINE_THRESHOLD_BYTES_def DEFAULT_REPLICATION_CEILING_BYTES_def)
  have b: "ReplicatedBand = classify_write_size 500000 16384 4194304" by (simp add: classify_write_size_def)
  have c: "\<exists>q \<in> set ?ps. match_band ReplicatedBand q \<and> has_capacity 500000 q"
    by (simp add: is_replicated_pool_def affinity_pool_new_def has_capacity_def available_bytes_def)
  from write_routing [OF t b, of None] c show ?thesis by (auto simp: Let_def)
qed

end
