(* ===== verification/Crypto_Envelope.thy ===== *)
theory Crypto_Envelope
  imports Kiseki_Prelude
begin

text \<open>
  Envelope encryption (\<^verbatim>\<open>crates/kiseki-crypto/src\<close>): AEAD calls (\<^verbatim>\<open>aead.rs\<close>), key derivation
  (\<^verbatim>\<open>hkdf.rs\<close>), key types and the master-key cache (\<^verbatim>\<open>keys.rs\<close>), chunk identifiers (\<^verbatim>\<open>chunk_id.rs\<close>),
  sealing, opening, tenant wrapping (\<^verbatim>\<open>envelope.rs\<close>), compression (\<^verbatim>\<open>compress.rs\<close>) and crypto-shred
  (\<^verbatim>\<open>shred.rs\<close>). The primitives of the cryptographic library (AES-256-GCM, HKDF, hashes, deflate) are
  a parameter record; what is used of them is the hypothesis \<open>crypto_laws\<close>. Random nonces are
  arguments. Page locking of key material has no observable effect and is left out.
\<close>

section \<open>Primitives\<close>

record Primitives =
  cx_seal :: "bytes \<Rightarrow> bytes \<Rightarrow> bytes \<Rightarrow> bytes \<Rightarrow> bytes option"
  cx_open :: "bytes \<Rightarrow> bytes \<Rightarrow> bytes \<Rightarrow> bytes \<Rightarrow> bytes option"
  cx_key_ok :: "bytes \<Rightarrow> bool"
  cx_extract :: "bytes \<Rightarrow> bytes \<Rightarrow> bytes"
  cx_expand :: "bytes \<Rightarrow> string \<Rightarrow> nat \<Rightarrow> bytes option"
  cx_blake3 :: "bytes \<Rightarrow> bytes"
  cx_blake3_derive :: "string \<Rightarrow> bytes \<Rightarrow> bytes"
  cx_blake3_keyed :: "bytes \<Rightarrow> bytes \<Rightarrow> bytes"
  cx_sha256 :: "bytes \<Rightarrow> bytes"
  cx_hmac :: "bytes \<Rightarrow> bytes \<Rightarrow> bytes"
  cx_deflate :: "bytes \<Rightarrow> string + bytes"
  cx_inflate :: "bytes \<Rightarrow> nat \<Rightarrow> string + bytes"

text \<open>Documented behaviour. The AEAD, with a 256-bit key and a 96-bit nonce: sealing a message within the
  GCM length limit succeeds and appends a 16-byte tag, and a ciphertext opens to exactly the
  plaintext that seals to it. HKDF: outputs of the requested length, up to 255 blocks. Deflate: a
  stream decodes to what was encoded, bytes after its end are ignored, and a bounded reader returns
  the first bytes.\<close>

definition gcm_max :: nat where
  "gcm_max = 2 ^ 36 - 32"

definition crypto_laws :: "Primitives \<Rightarrow> bool" where
  "crypto_laws cx \<longleftrightarrow>
     (\<forall>k. cx_key_ok cx k \<longleftrightarrow> length k = 32) \<and>
     (\<forall>k n a p. length k = 32 \<longrightarrow> length n = 12 \<longrightarrow> length p \<le> gcm_max \<longrightarrow>
        (\<exists>c. cx_seal cx k n a p = Some c \<and> length c = length p + 16)) \<and>
     (\<forall>k n a c p. length k = 32 \<longrightarrow> length n = 12 \<longrightarrow>
        (cx_open cx k n a c = Some p \<longleftrightarrow> cx_seal cx k n a p = Some c)) \<and>
     (\<forall>prk info n. n \<le> 8160 \<longrightarrow> (\<exists>okm. cx_expand cx prk info n = Some okm \<and> length okm = n)) \<and>
     (\<forall>p. \<exists>c. cx_deflate cx p = Inr c \<and> (\<forall>pad limit. cx_inflate cx (c @ replicate pad 0) limit = Inr (take limit p)))"

datatype TenantScope = OrgScope nat | ProjectScope nat nat | WorkloadScope nat "nat option" nat

fun scope_org :: "TenantScope \<Rightarrow> nat" where
  "scope_org (OrgScope org) = org"
| "scope_org (ProjectScope org p) = org"
| "scope_org (WorkloadScope org p w) = org"

datatype ComplianceTag = Hipaa | Gdpr | RevFadp | SwissResidency | CustomTag string

datatype DedupPolicy = CrossTenant | TenantIsolated

datatype CryptoError =
    AuthenticationFailed
  | NonceGenerationFailed
  | HkdfFailed
  | TenantKeyFailed
  | TenantKekUnavailable TenantScope
  | InvalidEnvelope string
  | InvalidChunkIdLength nat
  | MemoryProtectionFailed string
  | CompressionFailed string

fun io_result :: "string + 'a \<Rightarrow> (CryptoError, 'a) res" where
  "io_result (Inl e) = Err (CompressionFailed e)"
| "io_result (Inr x) = Ok x"

definition GCM_NONCE_LEN :: nat where
  "GCM_NONCE_LEN = 12"

definition GCM_TAG_LEN :: nat where
  "GCM_TAG_LEN = 16"

section \<open>AEAD\<close>

definition aead_seal :: "Primitives \<Rightarrow> bytes option \<Rightarrow> bytes \<Rightarrow> bytes \<Rightarrow> bytes \<Rightarrow> (CryptoError, bytes \<times> bytes) res" where
  "aead_seal cx random key plaintext aad =
     (if \<not> cx_key_ok cx key then Err HkdfFailed
      else case random of
        None \<Rightarrow> Err NonceGenerationFailed
      | Some nonce_bytes \<Rightarrow>
          (case cx_seal cx key nonce_bytes aad plaintext of
             None \<Rightarrow> Err AuthenticationFailed
           | Some in_out \<Rightarrow> Ok (in_out, nonce_bytes)))"

definition aead_seal_with_nonce :: "Primitives \<Rightarrow> bytes \<Rightarrow> bytes \<Rightarrow> bytes \<Rightarrow> bytes \<Rightarrow> (CryptoError, bytes) res" where
  "aead_seal_with_nonce cx key nonce_bytes plaintext aad =
     (if \<not> cx_key_ok cx key then Err HkdfFailed
      else case cx_seal cx key nonce_bytes aad plaintext of
        None \<Rightarrow> Err AuthenticationFailed
      | Some in_out \<Rightarrow> Ok in_out)"

definition aead_open :: "Primitives \<Rightarrow> bytes \<Rightarrow> bytes \<Rightarrow> bytes \<Rightarrow> bytes \<Rightarrow> (CryptoError, bytes) res" where
  "aead_open cx key nonce_bytes ciphertext_with_tag aad =
     (if \<not> cx_key_ok cx key then Err HkdfFailed
      else case cx_open cx key nonce_bytes aad ciphertext_with_tag of
        None \<Rightarrow> Err AuthenticationFailed
      | Some plaintext \<Rightarrow> Ok plaintext)"

section \<open>Keys\<close>

record SystemMasterKey =
  mk_material :: bytes
  mk_epoch :: nat

record TenantKek =
  tk_material :: bytes
  tk_epoch :: nat

type_synonym MasterKeyCache = "SystemMasterKey list"

fun cache_insert :: "SystemMasterKey \<Rightarrow> MasterKeyCache \<Rightarrow> MasterKeyCache" where
  "cache_insert key [] = [key]"
| "cache_insert key (k # ks) = (if mk_epoch k = mk_epoch key then key # ks else k # cache_insert key ks)"

definition cache_get :: "nat \<Rightarrow> MasterKeyCache \<Rightarrow> SystemMasterKey option" where
  "cache_get epoch keys = find (\<lambda>k. mk_epoch k = epoch) keys"

fun max_by_epoch :: "SystemMasterKey \<Rightarrow> MasterKeyCache \<Rightarrow> SystemMasterKey" where
  "max_by_epoch best [] = best"
| "max_by_epoch best (k # ks) = max_by_epoch (if mk_epoch k \<ge> mk_epoch best then k else best) ks"

definition cache_current :: "MasterKeyCache \<Rightarrow> SystemMasterKey option" where
  "cache_current keys = (case keys of [] \<Rightarrow> None | k # ks \<Rightarrow> Some (max_by_epoch k ks))"

section \<open>Derivation\<close>

definition derive_system_dek :: "Primitives \<Rightarrow> SystemMasterKey \<Rightarrow> bytes \<Rightarrow> (CryptoError, bytes) res" where
  "derive_system_dek cx master chunk_id =
     (let prk = cx_extract cx chunk_id (mk_material master)
      in ok_or HkdfFailed (cx_expand cx prk ''kiseki-chunk-dek-v1'' 32))"

definition derive_convergent_nonce :: "Primitives \<Rightarrow> SystemMasterKey \<Rightarrow> bytes \<Rightarrow> (CryptoError, bytes) res" where
  "derive_convergent_nonce cx master chunk_id =
     (let prk = cx_extract cx chunk_id (mk_material master)
      in ok_or HkdfFailed (cx_expand cx prk ''kiseki-chunk-nonce-v1'' 12))"

definition derive_system_dek_and_nonce :: "Primitives \<Rightarrow> SystemMasterKey \<Rightarrow> bytes \<Rightarrow> (CryptoError, bytes \<times> bytes) res" where
  "derive_system_dek_and_nonce cx master chunk_id =
     (let prk = cx_extract cx chunk_id (mk_material master)
      in bind_res (ok_or HkdfFailed (cx_expand cx prk ''kiseki-chunk-dek-v1'' 32)) (\<lambda>dek.
           bind_res (ok_or HkdfFailed (cx_expand cx prk ''kiseki-chunk-nonce-v1'' 12)) (\<lambda>nonce.
             Ok (dek, nonce))))"

definition derive_tenant_dedup_key :: "Primitives \<Rightarrow> SystemMasterKey \<Rightarrow> bytes \<Rightarrow> (CryptoError, bytes) res" where
  "derive_tenant_dedup_key cx master tenant_id =
     (let prk = cx_extract cx tenant_id (mk_material master)
      in ok_or HkdfFailed (cx_expand cx prk ''kiseki-tenant-dedup-hmac-v1'' 32))"

datatype ChunkHash = Blake3 | Sha256

definition derive_blake3_tenant_key :: "Primitives \<Rightarrow> bytes \<Rightarrow> bytes" where
  "derive_blake3_tenant_key cx tenant_hmac_key =
     cx_blake3_derive cx ''kiseki 2026-06-03 tenant chunk-id v1'' tenant_hmac_key"

definition hmac_required :: CryptoError where
  "hmac_required = InvalidEnvelope ''tenant HMAC key required for TenantIsolated dedup''"

definition derive_chunk_id ::
    "Primitives \<Rightarrow> ChunkHash \<Rightarrow> bytes \<Rightarrow> DedupPolicy \<Rightarrow> bytes option \<Rightarrow> (CryptoError, bytes) res" where
  "derive_chunk_id cx algorithm plaintext policy tenant_hmac_key =
     (case (algorithm, policy) of
        (Blake3, CrossTenant) \<Rightarrow> Ok (cx_blake3 cx plaintext)
      | (Blake3, TenantIsolated) \<Rightarrow>
          bind_res (ok_or hmac_required tenant_hmac_key) (\<lambda>key_bytes.
            Ok (cx_blake3_keyed cx (derive_blake3_tenant_key cx key_bytes) plaintext))
      | (Sha256, CrossTenant) \<Rightarrow> Ok (cx_sha256 cx plaintext)
      | (Sha256, TenantIsolated) \<Rightarrow>
          bind_res (ok_or hmac_required tenant_hmac_key) (\<lambda>key_bytes. Ok (cx_hmac cx key_bytes plaintext)))"

section \<open>Envelopes\<close>

record Envelope =
  ev_ciphertext :: bytes
  ev_auth_tag :: bytes
  ev_nonce :: bytes
  ev_system_epoch :: nat
  ev_tenant_epoch :: "nat option"
  ev_tenant_wrapped_material :: "bytes option"
  ev_chunk_id :: bytes

definition seal_envelope :: "Primitives \<Rightarrow> SystemMasterKey \<Rightarrow> bytes \<Rightarrow> bytes \<Rightarrow> (CryptoError, Envelope) res" where
  "seal_envelope cx master chunk_id plaintext =
     bind_res (derive_system_dek_and_nonce cx master chunk_id) (\<lambda>(dek, nonce).
       bind_res (aead_seal_with_nonce cx dek nonce plaintext chunk_id) (\<lambda>ciphertext_with_tag.
         if length ciphertext_with_tag < GCM_TAG_LEN then Panic
         else
           let tag_start = length ciphertext_with_tag - GCM_TAG_LEN in
           Ok \<lparr>ev_ciphertext = take tag_start ciphertext_with_tag,
               ev_auth_tag = drop tag_start ciphertext_with_tag, ev_nonce = nonce,
               ev_system_epoch = mk_epoch master, ev_tenant_epoch = None,
               ev_tenant_wrapped_material = None, ev_chunk_id = chunk_id\<rparr>))"

definition open_envelope :: "Primitives \<Rightarrow> SystemMasterKey \<Rightarrow> Envelope \<Rightarrow> (CryptoError, bytes) res" where
  "open_envelope cx master envelope =
     bind_res (derive_system_dek cx master (ev_chunk_id envelope)) (\<lambda>dek.
       let ciphertext_with_tag = ev_ciphertext envelope @ ev_auth_tag envelope
       in aead_open cx dek (ev_nonce envelope) ciphertext_with_tag (ev_chunk_id envelope))"

definition wrap_for_tenant :: "Primitives \<Rightarrow> bytes option \<Rightarrow> Envelope \<Rightarrow> TenantKek \<Rightarrow> (CryptoError, Envelope) res" where
  "wrap_for_tenant cx random envelope tenant_kek =
     (let material = le_bytes 8 (ev_system_epoch envelope) @ ev_chunk_id envelope
      in bind_res (aead_seal cx random (tk_material tenant_kek) material (string_bytes ''kiseki-tenant-wrap-v1''))
           (\<lambda>(wrapped, nonce).
             Ok (envelope\<lparr>ev_tenant_wrapped_material := Some (nonce @ wrapped),
                          ev_tenant_epoch := Some (tk_epoch tenant_kek)\<rparr>)))"

definition unwrap_tenant :: "Primitives \<Rightarrow> Envelope \<Rightarrow> TenantKek \<Rightarrow> MasterKeyCache \<Rightarrow> (CryptoError, bytes) res" where
  "unwrap_tenant cx envelope tenant_kek master_cache =
     (case ev_tenant_wrapped_material envelope of
        None \<Rightarrow> Err (InvalidEnvelope ''no tenant wrapping'')
      | Some wrapped \<Rightarrow>
          if length wrapped < GCM_NONCE_LEN then Err (InvalidEnvelope ''wrapped material too short'')
          else
            let nonce = take GCM_NONCE_LEN wrapped; wrapped_ct = drop GCM_NONCE_LEN wrapped in
            bind_res (aead_open cx (tk_material tenant_kek) nonce wrapped_ct (string_bytes ''kiseki-tenant-wrap-v1''))
              (\<lambda>material.
                if length material \<noteq> 40 then Err (InvalidEnvelope (''unwrapped material length '' @ decimal (length material) @ '', expected 40''))
                else
                  let epoch = le_val (take 8 material); unwrapped_chunk_id = drop 8 material in
                  if unwrapped_chunk_id \<noteq> ev_chunk_id envelope
                  then Err (InvalidEnvelope ''unwrapped chunk_id does not match envelope'')
                  else bind_res (ok_or TenantKeyFailed (cache_get epoch master_cache)) (\<lambda>master.
                         open_envelope cx master envelope)))"

section \<open>Compression\<close>

definition checked_next_multiple_of :: "nat \<Rightarrow> nat \<Rightarrow> nat option" where
  "checked_next_multiple_of n a =
     (let m = div_ceil n a * a in if a = 0 \<or> m > u64_max then None else Some m)"

definition compress_and_encrypt ::
    "Primitives \<Rightarrow> SystemMasterKey \<Rightarrow> bytes \<Rightarrow> bytes \<Rightarrow> nat \<Rightarrow> (CryptoError, Envelope) res" where
  "compress_and_encrypt cx master chunk_id plaintext pad_alignment =
     (if pad_alignment = 0 then Err (CompressionFailed ''pad alignment must be > 0'')
      else bind_res (io_result (cx_deflate cx plaintext)) (\<lambda>compressed.
        bind_res (ok_or (CompressionFailed ''compressed size too large for padding alignment'')
                    (checked_next_multiple_of (length compressed) pad_alignment)) (\<lambda>padded_len.
          seal_envelope cx master chunk_id (compressed @ replicate (padded_len - length compressed) 0))))"

definition decrypt_and_decompress ::
    "Primitives \<Rightarrow> SystemMasterKey \<Rightarrow> Envelope \<Rightarrow> nat \<Rightarrow> (CryptoError, bytes) res" where
  "decrypt_and_decompress cx master envelope max_plaintext_size =
     bind_res (open_envelope cx master envelope) (\<lambda>compressed_padded.
       let limit = min (max_plaintext_size + 1) u64_max in
       bind_res (io_result (cx_inflate cx compressed_padded limit)) (\<lambda>plaintext.
         if length plaintext > max_plaintext_size then Err (CompressionFailed (''decompressed size '' @ decimal (length plaintext) @ '' exceeds limit '' @
                decimal max_plaintext_size))
         else Ok plaintext))"

section \<open>Crypto-shred\<close>

record ShredResult =
  sr_invalidated_count :: nat
  sr_retention_held :: bool

definition is_shredded :: "Envelope \<Rightarrow> bool" where
  "is_shredded envelope \<longleftrightarrow> ev_tenant_wrapped_material envelope = None"

definition shred_one :: "Envelope \<Rightarrow> Envelope" where
  "shred_one env = (if ev_tenant_wrapped_material env \<noteq> None
     then env\<lparr>ev_tenant_wrapped_material := None, ev_tenant_epoch := None\<rparr> else env)"

definition shred_tenant :: "TenantKek \<Rightarrow> Envelope list \<Rightarrow> bool \<Rightarrow> Envelope list \<times> ShredResult" where
  "shred_tenant kek envelopes retention_held =
     (map shred_one envelopes,
      \<lparr>sr_invalidated_count = length (filter (\<lambda>e. ev_tenant_wrapped_material e \<noteq> None) envelopes),
       sr_retention_held = retention_held\<rparr>)"

definition system_path_intact :: "Envelope \<Rightarrow> bool" where
  "system_path_intact envelope \<longleftrightarrow> ev_system_epoch envelope > 0"

definition check_shred_allowed :: "ComplianceTag list \<Rightarrow> bool \<Rightarrow> (CryptoError, unit) res" where
  "check_shred_allowed compliance_tags has_hold_released =
     (if list_ex (\<lambda>t. t = Hipaa) compliance_tags \<and> \<not> has_hold_released
      then Err (InvalidEnvelope ''crypto-shred blocked: HIPAA namespace requires explicit retention hold release'')
      else Ok ())"

section \<open>Lemmas\<close>

lemma crypto_lawsD:
  assumes "crypto_laws cx"
  shows key_ok: "cx_key_ok cx k \<longleftrightarrow> length k = 32"
    and seal_ok: "length k = 32 \<Longrightarrow> length n = 12 \<Longrightarrow> length p \<le> gcm_max \<Longrightarrow>
      \<exists>c. cx_seal cx k n a p = Some c \<and> length c = length p + 16"
    and open_seal: "length k = 32 \<Longrightarrow> length n = 12 \<Longrightarrow> cx_open cx k n a c = Some p \<longleftrightarrow> cx_seal cx k n a p = Some c"
    and expand_ok: "m \<le> 8160 \<Longrightarrow> \<exists>okm. cx_expand cx prk info m = Some okm \<and> length okm = m"
    and deflate_ok: "\<exists>c. cx_deflate cx p = Inr c \<and> (\<forall>pad limit. cx_inflate cx (c @ replicate pad 0) limit = Inr (take limit p))"
  using assms unfolding crypto_laws_def by blast+

lemma derive_ok:
  assumes "crypto_laws cx"
  obtains dek nonce where "derive_system_dek cx master cid = Ok dek" "derive_convergent_nonce cx master cid = Ok nonce"
    "derive_system_dek_and_nonce cx master cid = Ok (dek, nonce)" "length dek = 32" "length nonce = 12"
proof -
  let ?prk = "cx_extract cx cid (mk_material master)"
  obtain dek where d: "cx_expand cx ?prk ''kiseki-chunk-dek-v1'' 32 = Some dek" "length dek = 32"
    using expand_ok [OF assms, of 32] by auto
  obtain nonce where n: "cx_expand cx ?prk ''kiseki-chunk-nonce-v1'' 12 = Some nonce" "length nonce = 12"
    using expand_ok [OF assms, of 12] by auto
  show ?thesis
    by (rule that [of dek nonce])
      (simp_all add: d n derive_system_dek_def derive_convergent_nonce_def derive_system_dek_and_nonce_def)
qed

lemma cache_get_insert: "cache_get e (cache_insert k c) = (if e = mk_epoch k then Some k else cache_get e c)"
  by (induction c) (auto simp: cache_get_def)

lemma seal_envelope_ok:
  assumes laws: "crypto_laws cx" and len: "length p \<le> gcm_max"
  obtains dek nonce c where "derive_system_dek cx master cid = Ok dek" "length dek = 32" "length nonce = 12"
    "cx_seal cx dek nonce cid p = Some c" "length c = length p + 16"
    "seal_envelope cx master cid p = Ok \<lparr>ev_ciphertext = take (length p) c, ev_auth_tag = drop (length p) c,
       ev_nonce = nonce, ev_system_epoch = mk_epoch master, ev_tenant_epoch = None,
       ev_tenant_wrapped_material = None, ev_chunk_id = cid\<rparr>"
proof -
  obtain dek nonce where d: "derive_system_dek cx master cid = Ok dek"
    "derive_system_dek_and_nonce cx master cid = Ok (dek, nonce)" "length dek = 32" "length nonce = 12"
    using derive_ok [OF laws] by metis
  obtain c where c: "cx_seal cx dek nonce cid p = Some c" "length c = length p + 16"
    using seal_ok [OF laws d(3,4) len] by metis
  show ?thesis
    by (rule that [OF d(1,3,4) c])
      (simp add: seal_envelope_def d aead_seal_with_nonce_def key_ok [OF laws] c GCM_TAG_LEN_def Let_def)
qed

lemma open_envelope_cong:
  assumes "ev_ciphertext e = ev_ciphertext e'" "ev_auth_tag e = ev_auth_tag e'" "ev_nonce e = ev_nonce e'"
    "ev_chunk_id e = ev_chunk_id e'"
  shows "open_envelope cx master e = open_envelope cx master e'"
  using assms by (simp add: open_envelope_def)

lemma open_of_seal:
  assumes laws: "crypto_laws cx" and len: "length p \<le> gcm_max"
  obtains env where "seal_envelope cx master cid p = Ok env" "open_envelope cx master env = Ok p"
    "length (ev_ciphertext env) = length p" "length (ev_auth_tag env) = 16" "ev_system_epoch env = mk_epoch master"
    "ev_chunk_id env = cid" "ev_tenant_wrapped_material env = None"
proof -
  obtain dek nonce c where s: "derive_system_dek cx master cid = Ok dek" "length dek = 32" "length nonce = 12"
    "cx_seal cx dek nonce cid p = Some c" "length c = length p + 16"
    "seal_envelope cx master cid p = Ok \<lparr>ev_ciphertext = take (length p) c, ev_auth_tag = drop (length p) c,
       ev_nonce = nonce, ev_system_epoch = mk_epoch master, ev_tenant_epoch = None,
       ev_tenant_wrapped_material = None, ev_chunk_id = cid\<rparr>"
    using seal_envelope_ok [OF laws len] by metis
  have "cx_open cx dek nonce cid c = Some p" using open_seal [OF laws s(2,3)] s(4) by simp
  then show ?thesis
    by (intro that [OF s(6)]) (simp_all add: open_envelope_def s aead_open_def key_ok [OF laws])
qed

lemma unwrap_of_wrap:
  assumes laws: "crypto_laws cx" and kek: "length (tk_material kek) = 32" and nonce: "length nonce = 12"
    and cid: "length (ev_chunk_id env) = 32" and ep: "ev_system_epoch env \<le> u64_max"
  obtains w where "wrap_for_tenant cx (Some nonce) env kek = Ok (env\<lparr>ev_tenant_wrapped_material := Some w, ev_tenant_epoch := Some (tk_epoch kek)\<rparr>)"
    "\<And>cache. unwrap_tenant cx (env\<lparr>ev_tenant_wrapped_material := Some w, ev_tenant_epoch := Some (tk_epoch kek)\<rparr>) kek cache =
       bind_res (ok_or TenantKeyFailed (cache_get (ev_system_epoch env) cache)) (\<lambda>master. open_envelope cx master env)"
proof -
  let ?m = "le_bytes 8 (ev_system_epoch env) @ ev_chunk_id env" and ?aad = "string_bytes ''kiseki-tenant-wrap-v1''"
  have lm: "length ?m = 40" using cid by simp
  have "length ?m \<le> gcm_max" unfolding lm by (simp add: gcm_max_def)
  then obtain c where c: "cx_seal cx (tk_material kek) nonce ?aad ?m = Some c"
    using seal_ok [OF laws kek nonce] by blast
  have o: "cx_open cx (tk_material kek) nonce ?aad c = Some ?m" using open_seal [OF laws kek nonce] c by simp
  have e: "le_val (le_bytes 8 (ev_system_epoch env)) = ev_system_epoch env"
    using ep by (intro le_val_le_bytes) (simp add: u64_max_def)
  have ro: "open_envelope cx master (env\<lparr>ev_tenant_wrapped_material := Some w, ev_tenant_epoch := t\<rparr>) = open_envelope cx master env"
    for master w t by (rule open_envelope_cong) simp_all
  show ?thesis
    by (rule that [of "nonce @ c"])
      (simp_all add: wrap_for_tenant_def aead_seal_def unwrap_tenant_def aead_open_def key_ok [OF laws] kek c o e nonce cid
        ro GCM_NONCE_LEN_def Let_def)
qed

lemma open_envelopeD:
  assumes laws: "crypto_laws cx" and n: "length (ev_nonce env) = 12" and ok: "open_envelope cx master env = Ok p"
  shows "\<exists>dek. derive_system_dek cx master (ev_chunk_id env) = Ok dek \<and>
    cx_seal cx dek (ev_nonce env) (ev_chunk_id env) p = Some (ev_ciphertext env @ ev_auth_tag env)"
proof -
  obtain dek where d: "derive_system_dek cx master (ev_chunk_id env) = Ok dek" "length dek = 32"
    using derive_ok [OF laws] by metis
  have "cx_open cx dek (ev_nonce env) (ev_chunk_id env) (ev_ciphertext env @ ev_auth_tag env) = Some p"
    using ok by (auto simp: open_envelope_def d aead_open_def key_ok [OF laws] split: option.splits)
  then show ?thesis using open_seal [OF laws d(2) n] d(1) by simp
qed

lemma checked_next_multiple_ofD:
  assumes "checked_next_multiple_of n a = Some m"
  shows "a dvd m" "n \<le> m" "m < n + a" "m \<le> u64_max"
proof -
  from assms have a: "0 < a" and m: "m = div_ceil n a * a" and "m \<le> u64_max"
    by (auto simp: checked_next_multiple_of_def Let_def split: if_splits)
  show "a dvd m" by (simp add: m)
  show "m \<le> u64_max" by fact
  show "n \<le> m" using div_ceil_ge [OF a, of n] by (simp add: m mult.commute)
  show "m < n + a" using div_ceil_less [OF a, of n] by (simp add: m mult.commute)
qed

section \<open>An instance of the primitives\<close>

text \<open>A concrete function for each primitive, that satisfies the laws: the tag is the first half of the
  key, and compression marks every byte and ends with a zero byte.\<close>

fun mark_bytes :: "bytes \<Rightarrow> bytes" where
  "mark_bytes [] = [0]"
| "mark_bytes (b # bs) = 1 # b # mark_bytes bs"

fun unmark_bytes :: "bytes \<Rightarrow> bytes" where
  "unmark_bytes (m # b # bs) = (if m = 0 then [] else b # unmark_bytes bs)"
| "unmark_bytes bs = []"

definition demo_cx :: Primitives where
  "demo_cx = \<lparr>
     cx_seal = (\<lambda>k n a p. if length p \<le> gcm_max then Some (p @ take 16 k) else None),
     cx_open = (\<lambda>k n a c. if length c \<ge> 16 \<and> length c - 16 \<le> gcm_max \<and> drop (length c - 16) c = take 16 k
       then Some (take (length c - 16) c) else None),
     cx_key_ok = (\<lambda>k. length k = 32), cx_extract = (\<lambda>salt ikm. ikm),
     cx_expand = (\<lambda>prk info n. if n \<le> 8160 then Some (take n (prk @ replicate n 0)) else None),
     cx_blake3 = id, cx_blake3_derive = (\<lambda>c k. k), cx_blake3_keyed = (\<lambda>k p. p), cx_sha256 = id, cx_hmac = (\<lambda>k p. p),
     cx_deflate = (\<lambda>p. Inr (mark_bytes p)), cx_inflate = (\<lambda>c limit. Inr (take limit (unmark_bytes c)))\<rparr>"

lemma unmark_mark: "unmark_bytes (mark_bytes p @ replicate pad 0) = p"
proof (induction p)
  case Nil
  then show ?case by (cases pad) simp_all
qed simp

lemma demo_cx_laws: "crypto_laws demo_cx"
proof -
  have "cx_open demo_cx k n a c = Some p \<longleftrightarrow> cx_seal demo_cx k n a p = Some c" if "length k = 32" for k n a c p
  proof
    assume "cx_open demo_cx k n a c = Some p"
    then have b: "length c - 16 \<le> gcm_max" and d: "drop (length c - 16) c = take 16 k" and t: "p = take (length c - 16) c"
      by (auto simp: demo_cx_def split: if_splits)
    have "length p \<le> gcm_max" using b unfolding t by simp
    moreover have "p @ take 16 k = c" unfolding t d [symmetric] by (rule append_take_drop_id)
    ultimately show "cx_seal demo_cx k n a p = Some c" by (simp add: demo_cx_def)
  next
    assume "cx_seal demo_cx k n a p = Some c"
    then show "cx_open demo_cx k n a c = Some p" using that by (auto simp: demo_cx_def split: if_splits)
  qed
  then show ?thesis
    by (simp add: crypto_laws_def) (auto simp: demo_cx_def unmark_mark min_def)
qed

section \<open>Properties\<close>

text \<open>C14: Sealing any plaintext under any master key and 32-byte chunk id succeeds; the envelope opens to the
  plaintext on the system path, keeps the ciphertext length, and has a 16-byte tag. After wrapping it
  for a tenant, the tenant path opens it with that KEK and any cache the master key was inserted
  into, and with an empty cache fails with the tenant-key error; the system path still opens it.\<close>

theorem envelope_roundtrip:
  assumes laws: "crypto_laws cx" and len: "length p \<le> gcm_max" and cid: "length cid = 32"
    and kek: "length (tk_material kek) = 32" and nonce: "length nonce = 12" and ep: "mk_epoch master \<le> u64_max"
  shows "\<exists>env env'. seal_envelope cx master cid p = Ok env \<and> open_envelope cx master env = Ok p \<and>
    length (ev_ciphertext env) = length p \<and> length (ev_auth_tag env) = 16 \<and>
    wrap_for_tenant cx (Some nonce) env kek = Ok env' \<and>
    unwrap_tenant cx env' kek (cache_insert master cache) = Ok p \<and>
    unwrap_tenant cx env' kek [] = Err TenantKeyFailed \<and> open_envelope cx master env' = Ok p"
proof -
  obtain env where e: "seal_envelope cx master cid p = Ok env" "open_envelope cx master env = Ok p"
    "length (ev_ciphertext env) = length p" "length (ev_auth_tag env) = 16"
    "ev_system_epoch env = mk_epoch master" "ev_chunk_id env = cid"
    using open_of_seal [OF laws len] by metis
  obtain w where w: "wrap_for_tenant cx (Some nonce) env kek =
      Ok (env\<lparr>ev_tenant_wrapped_material := Some w, ev_tenant_epoch := Some (tk_epoch kek)\<rparr>)"
    "\<And>cache. unwrap_tenant cx (env\<lparr>ev_tenant_wrapped_material := Some w, ev_tenant_epoch := Some (tk_epoch kek)\<rparr>) kek cache =
       bind_res (ok_or TenantKeyFailed (cache_get (ev_system_epoch env) cache)) (\<lambda>master. open_envelope cx master env)"
    using unwrap_of_wrap [OF laws kek nonce, of env] cid ep e by metis
  let ?e = "env\<lparr>ev_tenant_wrapped_material := Some w, ev_tenant_epoch := Some (tk_epoch kek)\<rparr>"
  have "open_envelope cx master ?e = Ok p" using e(2) open_envelope_cong [of ?e env] by simp
  moreover have "unwrap_tenant cx ?e kek (cache_insert master cache) = Ok p"
    by (simp add: w(2) e cache_get_insert)
  moreover have "unwrap_tenant cx ?e kek [] = Err TenantKeyFailed" by (simp add: w(2) cache_get_def)
  ultimately show ?thesis using e w(1) by blast
qed

definition demo_master :: SystemMasterKey where
  "demo_master = \<lparr>mk_material = replicate 32 7, mk_epoch = 3\<rparr>"

definition demo_kek :: TenantKek where
  "demo_kek = \<lparr>tk_material = replicate 32 9, tk_epoch = 5\<rparr>"

theorem envelope_roundtrip_witness:
  "\<exists>env env'. seal_envelope demo_cx demo_master (replicate 32 1) [10, 20] = Ok env \<and> open_envelope demo_cx demo_master env = Ok [10, 20] \<and>
    length (ev_ciphertext env) = length ([10, 20] :: bytes) \<and> length (ev_auth_tag env) = 16 \<and>
    wrap_for_tenant demo_cx (Some (replicate 12 4)) env demo_kek = Ok env' \<and>
    unwrap_tenant demo_cx env' demo_kek (cache_insert demo_master []) = Ok [10, 20] \<and>
    unwrap_tenant demo_cx env' demo_kek [] = Err TenantKeyFailed \<and> open_envelope demo_cx demo_master env' = Ok [10, 20]"
  by (rule envelope_roundtrip [OF demo_cx_laws])
    (simp_all add: gcm_max_def demo_kek_def demo_master_def u64_max_def)

text \<open>C30: The tenant path authenticates what it returns: when it yields a plaintext, the wrapped material is
  the AEAD of an epoch together with this envelope's own chunk id under the tenant's KEK, the master
  key is the cached one of that epoch, and the stored ciphertext and tag are exactly the AEAD of the
  plaintext under the key derived from that master key and chunk id.\<close>

theorem unwrap_authentic:
  assumes laws: "crypto_laws cx" and kek: "length (tk_material kek) = 32" and n: "length (ev_nonce env) = 12"
    and ok: "unwrap_tenant cx env kek cache = Ok p"
  shows "\<exists>nonce c epoch_bytes master dek. ev_tenant_wrapped_material env = Some (nonce @ c) \<and>
    length nonce = 12 \<and> length epoch_bytes = 8 \<and>
    cx_seal cx (tk_material kek) nonce (string_bytes ''kiseki-tenant-wrap-v1'') (epoch_bytes @ ev_chunk_id env) = Some c \<and>
    cache_get (le_val epoch_bytes) cache = Some master \<and> derive_system_dek cx master (ev_chunk_id env) = Ok dek \<and>
    cx_seal cx dek (ev_nonce env) (ev_chunk_id env) p = Some (ev_ciphertext env @ ev_auth_tag env)"
proof -
  obtain w where w: "ev_tenant_wrapped_material env = Some w" "12 \<le> length w"
    using ok by (auto simp: unwrap_tenant_def GCM_NONCE_LEN_def not_less split: option.splits if_splits)
  let ?n = "take 12 w" and ?c = "drop 12 w"
  have ln: "length ?n = 12" using w(2) by simp
  obtain m where m: "cx_open cx (tk_material kek) ?n (string_bytes ''kiseki-tenant-wrap-v1'') ?c = Some m"
    "length m = 40" "drop 8 m = ev_chunk_id env"
    "bind_res (ok_or TenantKeyFailed (cache_get (le_val (take 8 m)) cache)) (\<lambda>master. open_envelope cx master env) = Ok p"
    using ok w by (auto simp: unwrap_tenant_def GCM_NONCE_LEN_def aead_open_def key_ok [OF laws] kek Let_def
        split: option.splits if_splits)
  obtain master where ms: "cache_get (le_val (take 8 m)) cache = Some master" "open_envelope cx master env = Ok p"
    using m(4) by (cases "cache_get (le_val (take 8 m)) cache") auto
  have "cx_seal cx (tk_material kek) ?n (string_bytes ''kiseki-tenant-wrap-v1'') (take 8 m @ ev_chunk_id env) = Some ?c"
    using open_seal [OF laws kek ln] m(1,3) by (metis append_take_drop_id)
  moreover have "length (take 8 m) = 8" using m(2) by simp
  moreover have "w = ?n @ ?c" by simp
  ultimately show ?thesis using w(1) ln ms(1) open_envelopeD [OF laws n ms(2)] by metis
qed

definition demo_env :: Envelope where
  "demo_env = \<lparr>ev_ciphertext = [10, 20], ev_auth_tag = replicate 16 7, ev_nonce = replicate 12 7, ev_system_epoch = 3,
     ev_tenant_epoch = Some 5,
     ev_tenant_wrapped_material = Some (replicate 12 4 @ (le_bytes 8 3 @ replicate 32 1) @ replicate 16 9),
     ev_chunk_id = replicate 32 1\<rparr>"

lemma demo_env_unwraps: "unwrap_tenant demo_cx demo_env demo_kek [demo_master] = Ok [10, 20]"
  by (simp add: unwrap_tenant_def open_envelope_def aead_open_def derive_system_dek_def cache_get_def demo_env_def
      demo_kek_def demo_master_def demo_cx_def GCM_NONCE_LEN_def gcm_max_def Let_def
      le_val_le_bytes [of 3 8, simplified])

theorem unwrap_authentic_witness:
  "\<exists>nonce c epoch_bytes master dek. ev_tenant_wrapped_material demo_env = Some (nonce @ c) \<and>
    length nonce = 12 \<and> length epoch_bytes = 8 \<and>
    cx_seal demo_cx (tk_material demo_kek) nonce (string_bytes ''kiseki-tenant-wrap-v1'') (epoch_bytes @ ev_chunk_id demo_env) = Some c \<and>
    cache_get (le_val epoch_bytes) [demo_master] = Some master \<and> derive_system_dek demo_cx master (ev_chunk_id demo_env) = Ok dek \<and>
    cx_seal demo_cx dek (ev_nonce demo_env) (ev_chunk_id demo_env) [10, 20] = Some (ev_ciphertext demo_env @ ev_auth_tag demo_env)"
  by (rule unwrap_authentic [OF demo_cx_laws _ _ demo_env_unwraps]) (simp_all add: demo_kek_def demo_env_def)

text \<open>Crypto-shred: afterwards every envelope given to it refuses the tenant path, whatever KEK and
  cache are used, and is reported as shredded; the system path of each opens exactly as before; the
  count is the number of envelopes that were wrapped, and a second shred invalidates none.\<close>

lemma shred_tenant_cuts_off:
  fixes envs :: "Envelope list"
  shows "list_all2 (\<lambda>env env'. is_shredded env' \<and> ev_tenant_epoch env' = (if is_shredded env then ev_tenant_epoch env else None) \<and>
      open_envelope cx master env' = open_envelope cx master env \<and> system_path_intact env' = system_path_intact env \<and>
      unwrap_tenant cx env' any_kek cache = Err (InvalidEnvelope ''no tenant wrapping''))
    envs (fst (shred_tenant kek envs held)) \<and>
  sr_invalidated_count (snd (shred_tenant kek envs held)) = length (filter (\<lambda>e. \<not> is_shredded e) envs) \<and>
  sr_invalidated_count (snd (shred_tenant kek' (fst (shred_tenant kek envs held)) held')) = 0"
proof -
  have "open_envelope cx master (shred_one e) = open_envelope cx master e" for e
    by (rule open_envelope_cong) (simp_all add: shred_one_def)
  then show ?thesis
    by (auto simp: shred_tenant_def list_all2_conv_all_nth shred_one_def is_shredded_def unwrap_tenant_def
        system_path_intact_def filter_empty_conv)
qed

text \<open>Compression: for a plaintext whose compressed form fits, the encrypted length is a multiple of the
  padding alignment, and decompressing with a bound returns the plaintext when it is within the bound
  and the size error otherwise. A zero alignment is refused.\<close>

lemma compress_roundtrip:
  assumes laws: "crypto_laws cx" and z: "cx_deflate cx p = Inr z" and m: "checked_next_multiple_of (length z) a = Some m"
    and mx: "m \<le> gcm_max" and bound: "bound < u64_max"
  shows "\<exists>env. compress_and_encrypt cx master cid p a = Ok env \<and> a dvd length (ev_ciphertext env) \<and>
    length (ev_ciphertext env) < length z + a \<and>
    decrypt_and_decompress cx master env bound = (if length p \<le> bound then Ok p
      else Err (CompressionFailed (''decompressed size '' @ decimal (Suc bound) @ '' exceeds limit '' @ decimal bound))) \<and>
    compress_and_encrypt cx master cid p 0 = Err (CompressionFailed ''pad alignment must be > 0'')"
proof -
  note mm = checked_next_multiple_ofD [OF m]
  let ?q = "z @ replicate (m - length z) 0"
  have lq: "length ?q = m" using mm(2) by simp
  have a: "a \<noteq> 0" using m by (auto simp: checked_next_multiple_of_def Let_def split: if_splits)
  obtain env where e: "seal_envelope cx master cid ?q = Ok env" "open_envelope cx master env = Ok ?q"
    "length (ev_ciphertext env) = length ?q"
    using open_of_seal [OF laws, of ?q] lq mx by metis
  have inf: "cx_inflate cx ?q limit = Inr (take limit p)" for limit
    using deflate_ok [OF laws, of p] z by auto
  have lim: "min (bound + 1) u64_max = Suc bound" using bound by simp
  have "decrypt_and_decompress cx master env bound = (if length p \<le> bound then Ok p
      else Err (CompressionFailed (''decompressed size '' @ decimal (Suc bound) @ '' exceeds limit '' @ decimal bound)))"
  proof (cases "length p \<le> bound")
    case False
    then have "length (take (Suc bound) p) = Suc bound" by simp
    with False show ?thesis
      unfolding decrypt_and_decompress_def e(2) bind_res.simps Let_def lim inf io_result.simps by simp
  next
    case True
    then have "take (Suc bound) p = p" by simp
    with True show ?thesis
      unfolding decrypt_and_decompress_def e(2) bind_res.simps Let_def lim inf io_result.simps by simp
  qed
  moreover have "compress_and_encrypt cx master cid p a = Ok env"
    by (simp add: compress_and_encrypt_def a z m e(1))
  moreover have "compress_and_encrypt cx master cid p 0 = Err (CompressionFailed ''pad alignment must be > 0'')"
    by (simp add: compress_and_encrypt_def)
  moreover have "a dvd length (ev_ciphertext env)" "length (ev_ciphertext env) < length z + a"
    using mm(1,3) unfolding e(3) lq by blast+
  ultimately show ?thesis by blast
qed

lemma compress_roundtrip_example:
  "\<exists>env. compress_and_encrypt demo_cx demo_master (replicate 32 1) [5, 6, 7] 4 = Ok env \<and> 4 dvd length (ev_ciphertext env) \<and>
    length (ev_ciphertext env) < length (mark_bytes [5, 6, 7]) + 4 \<and>
    decrypt_and_decompress demo_cx demo_master env 2 = (if length ([5, 6, 7] :: bytes) \<le> 2 then Ok [5, 6, 7]
      else Err (CompressionFailed (''decompressed size '' @ decimal (Suc 2) @ '' exceeds limit '' @ decimal 2))) \<and>
    compress_and_encrypt demo_cx demo_master (replicate 32 1) [5, 6, 7] 0 = Err (CompressionFailed ''pad alignment must be > 0'')"
  by (rule compress_roundtrip [OF demo_cx_laws, where m = 8])
    (simp_all add: demo_cx_def checked_next_multiple_of_def div_ceil_def u64_max_def gcm_max_def)

end
