(* ===== verification/Chunk_Store.thy ===== *)
theory Chunk_Store
  imports Chunk_Placement Crypto_Envelope "HOL-Library.AList"
begin

text \<open>
  The in-memory chunk store (\<^verbatim>\<open>crates/kiseki-chunk/src/store.rs\<close>): content-addressed chunks with
  reference counts and retention holds, pools they are charged to, erasure-coded fragments and their
  devices, garbage collection and pool administration. The hash maps are association lists, whose
  order stands for the unspecified iteration order; the hash sets are sets. Operations are atomic
  steps: all but two hold the chunk or pool mutex throughout. \<open>read_chunk\<close> releases the fault set
  before it takes the chunks, and \<open>delete_chunk_force\<close> the chunks before it takes the fragments; an
  operation that falls between those two locks is not modelled. The Reed-Solomon coder is the
  parameter \<open>rs\<close> of \<open>Chunk_Placement\<close>.
\<close>

section \<open>State\<close>

record EcMeta =
  em_data_shards :: nat
  em_parity_shards :: nat
  em_fragments :: "bytes list"
  em_device_indices :: "nat list"
  em_original_len :: nat

record ChunkEntry =
  ce_envelope :: Envelope
  ce_refcount :: nat
  ce_retention_holds :: "string set"
  ce_pool :: string
  ce_ec :: "EcMeta option"
  ce_stored_bytes :: nat

record ChunkStore =
  cs_chunks :: "(bytes \<times> ChunkEntry) list"
  cs_pools :: "(string \<times> AffinityPool) list"
  cs_unavailable :: "bytes set"
  cs_fragments :: "((bytes \<times> nat) \<times> bytes) list"

definition chunk_store_new :: ChunkStore where
  "chunk_store_new = \<lparr>cs_chunks = [], cs_pools = [], cs_unavailable = {}, cs_fragments = []\<rparr>"

section \<open>Operations\<close>

definition inject_unavailable :: "bytes \<Rightarrow> ChunkStore \<Rightarrow> ChunkStore" where
  "inject_unavailable chunk_id s = s\<lparr>cs_unavailable := insert chunk_id (cs_unavailable s)\<rparr>"

definition clear_faults :: "ChunkStore \<Rightarrow> ChunkStore" where
  "clear_faults s = s\<lparr>cs_unavailable := {}\<rparr>"

definition is_unavailable :: "bytes \<Rightarrow> ChunkStore \<Rightarrow> bool" where
  "is_unavailable chunk_id s \<longleftrightarrow> chunk_id \<in> cs_unavailable s"

definition add_pool :: "AffinityPool \<Rightarrow> ChunkStore \<Rightarrow> ChunkStore" where
  "add_pool pool s = s\<lparr>cs_pools := AList.update (ap_name pool) pool (cs_pools s)\<rparr>"

definition chunk_count :: "ChunkStore \<Rightarrow> nat" where
  "chunk_count s = length (cs_chunks s)"

definition ec_meta :: "bytes \<Rightarrow> ChunkStore \<Rightarrow> EcMeta option" where
  "ec_meta chunk_id s = Option.bind (map_of (cs_chunks s) chunk_id) ce_ec"

definition with_pool :: "string \<Rightarrow> (AffinityPool \<Rightarrow> AffinityPool) \<Rightarrow> ChunkStore \<Rightarrow> ChunkStore" where
  "with_pool name f s =
     (case map_of (cs_pools s) name of
        None \<Rightarrow> s
      | Some p \<Rightarrow> s\<lparr>cs_pools := AList.update name (f p) (cs_pools s)\<rparr>)"

fun find_device :: "string \<Rightarrow> (string \<times> AffinityPool) list \<Rightarrow> (string \<times> PoolDevice) option" where
  "find_device device_id [] = None"
| "find_device device_id ((name, pool) # pools) =
     (case find (\<lambda>d. pd_id d = device_id) (ap_devices pool) of
        Some d \<Rightarrow> Some (ap_name pool, d)
      | None \<Rightarrow> find_device device_id pools)"

definition device_online :: "PoolDevice list \<Rightarrow> nat \<Rightarrow> bool" where
  "device_online devices dev_idx \<longleftrightarrow> dev_idx < length devices \<and> pd_online (devices ! dev_idx)"

fun gather :: "PoolDevice list \<Rightarrow> EcMeta \<Rightarrow> nat list \<Rightarrow> (ChunkError, bytes option list) res" where
  "gather devices ec [] = Ok []"
| "gather devices ec (i # idxs) =
     (if length (em_device_indices ec) \<le> i then Panic
      else if device_online devices (em_device_indices ec ! i) then
        (if length (em_fragments ec) \<le> i then Panic
         else bind_res (gather devices ec idxs) (\<lambda>frags. Ok (Some (em_fragments ec ! i) # frags)))
      else bind_res (gather devices ec idxs) (\<lambda>frags. Ok (None # frags)))"

definition read_chunk_ec :: "ReedSolomon \<Rightarrow> bytes \<Rightarrow> ChunkStore \<Rightarrow> (ChunkError, bytes) res" where
  "read_chunk_ec rs chunk_id s =
     bind_res (ok_or (ChunkNotFound chunk_id) (map_of (cs_chunks s) chunk_id)) (\<lambda>entry.
       case ce_ec entry of
         None \<Rightarrow> Ok (ev_ciphertext (ce_envelope entry))
       | Some ec \<Rightarrow>
           bind_res (ok_or (ChunkNotFound chunk_id) (map_of (cs_pools s) (ce_pool entry))) (\<lambda>pool.
             bind_res (gather (ap_devices pool) ec [0..<em_data_shards ec + em_parity_shards ec]) (\<lambda>frags.
               ec_decode rs frags (em_data_shards ec) (em_parity_shards ec) (em_original_len ec))))"

definition dev_infos :: "AffinityPool \<Rightarrow> DeviceInfo list" where
  "dev_infos p = map (\<lambda>d. \<lparr>di_id = pd_id d, di_online = pd_online d\<rparr>) (ap_devices p)"

text \<open>The bytes charged for an envelope and its erasure-coding metadata, by the durability of the pool.\<close>

definition store_layout :: "ReedSolomon \<Rightarrow> Envelope \<Rightarrow> AffinityPool option \<Rightarrow> (ChunkError, nat \<times> EcMeta option) res" where
  "store_layout rs envelope pool =
     (case pool of
        None \<Rightarrow> Ok (length (ev_ciphertext envelope), None)
      | Some p \<Rightarrow>
          (case ap_durability p of
             ErasureCoding data_shards parity_shards \<Rightarrow>
               bind_res (ec_encode rs (ev_ciphertext envelope) data_shards parity_shards) (\<lambda>encoded.
                 bind_res (ok_or EcInvalidConfig
                     (place_fragments (ev_chunk_id envelope) (length (ee_fragments encoded)) (dev_infos p))) (\<lambda>device_indices.
                   bind_res (sum_u64 (map length (ee_fragments encoded))) (\<lambda>storage_size.
                     Ok (storage_size,
                       Some \<lparr>em_data_shards = ee_data_shards encoded, em_parity_shards = ee_parity_shards encoded,
                             em_fragments = ee_fragments encoded, em_device_indices = device_indices,
                             em_original_len = ee_original_len encoded\<rparr>))))
           | Replication copies \<Rightarrow>
               bind_res (mul_u64 (length (ev_ciphertext envelope)) copies) (\<lambda>storage_size. Ok (storage_size, None))
           | InlineDurability \<Rightarrow> Ok (length (ev_ciphertext envelope), None)))"

text \<open>Changes the entry of a present chunk, as \<^verbatim>\<open>chunks.get_mut(id)\<close> does.\<close>

definition set_entry :: "bytes \<Rightarrow> ChunkEntry \<Rightarrow> ChunkStore \<Rightarrow> ChunkStore" where
  "set_entry chunk_id e s = s\<lparr>cs_chunks := AList.update chunk_id e (cs_chunks s)\<rparr>"

definition bump :: "bytes \<Rightarrow> ChunkEntry \<Rightarrow> ChunkStore \<Rightarrow> ChunkStore \<times> (ChunkError, nat) res" where
  "bump chunk_id entry s =
     (case add_u64 (ce_refcount entry) 1 of
        Ok n \<Rightarrow> (set_entry chunk_id (entry\<lparr>ce_refcount := n\<rparr>) s, Ok n)
      | Err e \<Rightarrow> (s, Err e)
      | Panic \<Rightarrow> (s, Panic))"

definition charge_pool :: "string \<Rightarrow> nat \<Rightarrow> ChunkStore \<Rightarrow> ChunkStore \<times> (ChunkError, unit) res" where
  "charge_pool pool storage_size s =
     (case map_of (cs_pools s) pool of
        None \<Rightarrow> (s, Ok ())
      | Some p \<Rightarrow>
          if \<not> has_capacity storage_size p then (s, Err (PoolFull pool))
          else if ap_used_bytes p + storage_size > u64_max then (s, Panic)
          else (s\<lparr>cs_pools := AList.update pool (p\<lparr>ap_used_bytes := ap_used_bytes p + storage_size\<rparr>) (cs_pools s)\<rparr>, Ok ()))"

definition write_chunk :: "ReedSolomon \<Rightarrow> Envelope \<Rightarrow> string \<Rightarrow> ChunkStore \<Rightarrow> ChunkStore \<times> (ChunkError, bool) res" where
  "write_chunk rs envelope pool s =
     (let chunk_id = ev_chunk_id envelope in
      case map_of (cs_chunks s) chunk_id of
        Some entry \<Rightarrow> bind_st (bump chunk_id entry s) (\<lambda>s _. (s, Ok False))
      | None \<Rightarrow>
          bind_st (s, store_layout rs envelope (map_of (cs_pools s) pool)) (\<lambda>s (storage_size, ec).
            bind_st (charge_pool pool storage_size s) (\<lambda>s _.
              (s\<lparr>cs_chunks := AList.update chunk_id
                   \<lparr>ce_envelope = envelope, ce_refcount = 1, ce_retention_holds = {}, ce_pool = pool, ce_ec = ec,
                    ce_stored_bytes = storage_size\<rparr> (cs_chunks s)\<rparr>, Ok True))))"

definition read_chunk :: "ReedSolomon \<Rightarrow> bytes \<Rightarrow> ChunkStore \<Rightarrow> (ChunkError, Envelope) res" where
  "read_chunk rs chunk_id s =
     (if chunk_id \<in> cs_unavailable s then Err (DeviceUnavailable chunk_id)
      else bind_res (ok_or (ChunkNotFound chunk_id) (map_of (cs_chunks s) chunk_id)) (\<lambda>entry.
        case ce_ec entry of
          None \<Rightarrow> Ok (ce_envelope entry)
        | Some ec \<Rightarrow>
            bind_res (ok_or (ChunkNotFound chunk_id) (map_of (cs_pools s) (ce_pool entry))) (\<lambda>pool.
              bind_res (gather (ap_devices pool) ec [0..<em_data_shards ec + em_parity_shards ec]) (\<lambda>frags.
                if list_all (\<lambda>f. f \<noteq> None) frags then Ok (ce_envelope entry)
                else bind_res (ec_decode rs frags (em_data_shards ec) (em_parity_shards ec) (em_original_len ec))
                       (\<lambda>reconstructed. Ok ((ce_envelope entry)\<lparr>ev_ciphertext := reconstructed\<rparr>))))))"

definition with_entry ::
    "bytes \<Rightarrow> (ChunkEntry \<Rightarrow> ChunkStore \<times> (ChunkError, 'a) res) \<Rightarrow> ChunkStore \<Rightarrow> ChunkStore \<times> (ChunkError, 'a) res" where
  "with_entry chunk_id f s =
     (case map_of (cs_chunks s) chunk_id of None \<Rightarrow> (s, Err (ChunkNotFound chunk_id)) | Some entry \<Rightarrow> f entry)"

definition increment_refcount :: "bytes \<Rightarrow> ChunkStore \<Rightarrow> ChunkStore \<times> (ChunkError, nat) res" where
  "increment_refcount chunk_id s = with_entry chunk_id (\<lambda>entry. bump chunk_id entry s) s"

definition try_increment_if_exists :: "bytes \<Rightarrow> ChunkStore \<Rightarrow> ChunkStore \<times> (ChunkError, nat option) res" where
  "try_increment_if_exists chunk_id s =
     (case map_of (cs_chunks s) chunk_id of
        Some entry \<Rightarrow> bind_st (bump chunk_id entry s) (\<lambda>s n. (s, Ok (Some n)))
      | None \<Rightarrow> (s, Ok None))"

definition decrement_refcount :: "bytes \<Rightarrow> ChunkStore \<Rightarrow> ChunkStore \<times> (ChunkError, nat) res" where
  "decrement_refcount chunk_id s =
     with_entry chunk_id (\<lambda>entry.
       if ce_refcount entry = 0 then (s, Err (RefcountUnderflow chunk_id))
       else (set_entry chunk_id (entry\<lparr>ce_refcount := ce_refcount entry - 1\<rparr>) s, Ok (ce_refcount entry - 1))) s"

definition set_retention_hold :: "bytes \<Rightarrow> string \<Rightarrow> ChunkStore \<Rightarrow> ChunkStore \<times> (ChunkError, unit) res" where
  "set_retention_hold chunk_id hold_name s =
     with_entry chunk_id (\<lambda>entry.
       (set_entry chunk_id (entry\<lparr>ce_retention_holds := insert hold_name (ce_retention_holds entry)\<rparr>) s, Ok ())) s"

definition release_retention_hold :: "bytes \<Rightarrow> string \<Rightarrow> ChunkStore \<Rightarrow> ChunkStore \<times> (ChunkError, unit) res" where
  "release_retention_hold chunk_id hold_name s =
     with_entry chunk_id (\<lambda>entry.
       (set_entry chunk_id (entry\<lparr>ce_retention_holds := ce_retention_holds entry - {hold_name}\<rparr>) s, Ok ())) s"

definition gc_remove :: "bytes \<Rightarrow> ChunkStore \<Rightarrow> ChunkStore" where
  "gc_remove chunk_id s =
     (case map_of (cs_chunks s) chunk_id of
        None \<Rightarrow> s
      | Some entry \<Rightarrow>
          with_pool (ce_pool entry) (\<lambda>p. p\<lparr>ap_used_bytes := ap_used_bytes p - ce_stored_bytes entry\<rparr>)
            (s\<lparr>cs_chunks := AList.delete chunk_id (cs_chunks s)\<rparr>))"

definition collectable :: "ChunkEntry \<Rightarrow> bool" where
  "collectable e \<longleftrightarrow> ce_refcount e = 0 \<and> ce_retention_holds e = {}"

definition chunk_gc :: "ChunkStore \<Rightarrow> ChunkStore \<times> nat" where
  "chunk_gc s =
     (let to_remove = map fst (filter (\<lambda>(_, e). collectable e) (cs_chunks s))
      in (fold gc_remove to_remove s, length to_remove))"

definition refcount :: "bytes \<Rightarrow> ChunkStore \<Rightarrow> (ChunkError, nat) res" where
  "refcount chunk_id s = ok_or (ChunkNotFound chunk_id) (map_option ce_refcount (map_of (cs_chunks s) chunk_id))"

definition list_chunk_ids :: "ChunkStore \<Rightarrow> bytes list" where
  "list_chunk_ids s = map fst (cs_chunks s)"

definition write_fragment :: "bytes \<Rightarrow> nat \<Rightarrow> bytes \<Rightarrow> ChunkStore \<Rightarrow> ChunkStore" where
  "write_fragment chunk_id fragment_index bs s =
     s\<lparr>cs_fragments := AList.update (chunk_id, fragment_index) bs (cs_fragments s)\<rparr>"

definition read_fragment :: "bytes \<Rightarrow> nat \<Rightarrow> ChunkStore \<Rightarrow> (ChunkError, bytes) res" where
  "read_fragment chunk_id fragment_index s =
     ok_or (ChunkNotFound chunk_id) (map_of (cs_fragments s) (chunk_id, fragment_index))"

definition delete_fragment :: "bytes \<Rightarrow> nat \<Rightarrow> ChunkStore \<Rightarrow> ChunkStore \<times> bool" where
  "delete_fragment chunk_id fragment_index s =
     (s\<lparr>cs_fragments := AList.delete (chunk_id, fragment_index) (cs_fragments s)\<rparr>,
      map_of (cs_fragments s) (chunk_id, fragment_index) \<noteq> None)"

definition list_fragments :: "bytes \<Rightarrow> ChunkStore \<Rightarrow> nat list" where
  "list_fragments chunk_id s = map snd (filter (\<lambda>(cid, _). cid = chunk_id) (map fst (cs_fragments s)))"

definition delete_chunk_force :: "bytes \<Rightarrow> ChunkStore \<Rightarrow> ChunkStore \<times> bool" where
  "delete_chunk_force chunk_id s =
     (let chunk_removed = map_of (cs_chunks s) chunk_id \<noteq> None;
          frag_keys = filter (\<lambda>(c, _). c = chunk_id) (map fst (cs_fragments s))
      in (s\<lparr>cs_chunks := AList.delete chunk_id (cs_chunks s),
            cs_fragments := fold AList.delete frag_keys (cs_fragments s)\<rparr>,
          chunk_removed \<or> frag_keys \<noteq> []))"

section \<open>Pool administration\<close>

definition add_pool_checked :: "AffinityPool \<Rightarrow> ChunkStore \<Rightarrow> ChunkStore \<times> (string, unit) res" where
  "add_pool_checked pool s =
     (if map_of (cs_pools s) (ap_name pool) \<noteq> None
      then (s, Err (''pool '' @ ap_name pool @ '' already exists''))
      else (add_pool pool s, Ok ()))"

definition add_device :: "string \<Rightarrow> PoolDevice \<Rightarrow> ChunkStore \<Rightarrow> ChunkStore \<times> (string, unit) res" where
  "add_device pool_name device s =
     (case map_of (cs_pools s) pool_name of
        None \<Rightarrow> (s, Err (''pool '' @ pool_name @ '' not found''))
      | Some pool \<Rightarrow>
          if list_ex (\<lambda>d. pd_id d = pd_id device) (ap_devices pool)
          then (s, Err (''device '' @ pd_id device @ '' already in pool '' @ pool_name))
          else (with_pool pool_name (\<lambda>p. p\<lparr>ap_devices := ap_devices p @ [device]\<rparr>) s, Ok ()))"

fun remove_first_device :: "string \<Rightarrow> PoolDevice list \<Rightarrow> PoolDevice list" where
  "remove_first_device device_id [] = []"
| "remove_first_device device_id (d # ds) = (if pd_id d = device_id then ds else d # remove_first_device device_id ds)"

fun remove_from_pools :: "string \<Rightarrow> (string \<times> AffinityPool) list \<Rightarrow> (string \<times> AffinityPool) list option" where
  "remove_from_pools device_id [] = None"
| "remove_from_pools device_id ((name, pool) # pools) =
     (if list_ex (\<lambda>d. pd_id d = device_id) (ap_devices pool)
      then Some ((name, pool\<lparr>ap_devices := remove_first_device device_id (ap_devices pool)\<rparr>) # pools)
      else map_option ((#) (name, pool)) (remove_from_pools device_id pools))"

definition remove_device :: "string \<Rightarrow> ChunkStore \<Rightarrow> ChunkStore \<times> (string, unit) res" where
  "remove_device device_id s =
     (case remove_from_pools device_id (cs_pools s) of
        Some pools \<Rightarrow> (s\<lparr>cs_pools := pools\<rparr>, Ok ())
      | None \<Rightarrow> (s, Err (''device '' @ device_id @ '' not found'')))"

definition set_pool_durability :: "string \<Rightarrow> DurabilityStrategy \<Rightarrow> ChunkStore \<Rightarrow> ChunkStore \<times> (string, unit) res" where
  "set_pool_durability pool_name strategy s =
     (case map_of (cs_pools s) pool_name of
        None \<Rightarrow> (s, Err (''pool '' @ pool_name @ '' not found''))
      | Some pool \<Rightarrow>
          if ap_used_bytes pool > 0
          then (s, Err (''pool '' @ pool_name @ '' is non-empty (used_bytes='' @ decimal (ap_used_bytes pool) @
                 ''); durability change while data exists requires a separate migration plan''))
          else (with_pool pool_name (\<lambda>p. p\<lparr>ap_durability := strategy\<rparr>) s, Ok ()))"

end
