(* ===== verification/Chunk_Runs.thy ===== *)
theory Chunk_Runs
  imports Chunk_Store
begin

text \<open>
  Runs of the chunk store of \<open>Chunk_Store\<close>: the commands that change it, the invariant of every
  reachable state (bytes charged to pools, erasure-coded layouts) and the store's guarantees on
  reference counting, garbage collection, pool accounting and degraded reads.
\<close>

section \<open>Commands\<close>

datatype ChunkCmd =
    CWrite Envelope string
  | CIncrement bytes
  | CTryIncrement bytes
  | CDecrement bytes
  | CHold bytes string
  | CRelease bytes string
  | CGc
  | CForceDelete bytes
  | CWriteFragment bytes nat bytes
  | CDeleteFragment bytes nat
  | CAddPool AffinityPool
  | CAddPoolChecked AffinityPool
  | CAddDevice string PoolDevice
  | CRemoveDevice string
  | CSetDurability string DurabilityStrategy
  | CDeviceOnline string string bool
  | CInject bytes
  | CClearFaults

fun chunk_exec :: "ReedSolomon \<Rightarrow> ChunkCmd \<Rightarrow> ChunkStore \<Rightarrow> ChunkStore" where
  "chunk_exec rs (CWrite env pool) s = fst (write_chunk rs env pool s)"
| "chunk_exec rs (CIncrement c) s = fst (increment_refcount c s)"
| "chunk_exec rs (CTryIncrement c) s = fst (try_increment_if_exists c s)"
| "chunk_exec rs (CDecrement c) s = fst (decrement_refcount c s)"
| "chunk_exec rs (CHold c h) s = fst (set_retention_hold c h s)"
| "chunk_exec rs (CRelease c h) s = fst (release_retention_hold c h s)"
| "chunk_exec rs CGc s = fst (chunk_gc s)"
| "chunk_exec rs (CForceDelete c) s = fst (delete_chunk_force c s)"
| "chunk_exec rs (CWriteFragment c i b) s = write_fragment c i b s"
| "chunk_exec rs (CDeleteFragment c i) s = fst (delete_fragment c i s)"
| "chunk_exec rs (CAddPool p) s = add_pool p s"
| "chunk_exec rs (CAddPoolChecked p) s = fst (add_pool_checked p s)"
| "chunk_exec rs (CAddDevice n d) s = fst (add_device n d s)"
| "chunk_exec rs (CRemoveDevice d) s = fst (remove_device d s)"
| "chunk_exec rs (CSetDurability n d) s = fst (set_pool_durability n d s)"
| "chunk_exec rs (CDeviceOnline n d b) s = with_pool n (set_device_online d b) s"
| "chunk_exec rs (CInject c) s = inject_unavailable c s"
| "chunk_exec rs CClearFaults s = clear_faults s"

text \<open>The bytes an entry charges to a pool, and all entries together.\<close>

definition weight :: "string \<Rightarrow> ChunkEntry \<Rightarrow> nat" where
  "weight n e = (if ce_pool e = n then ce_stored_bytes e else 0)"

definition charged :: "string \<Rightarrow> (bytes \<times> ChunkEntry) list \<Rightarrow> nat" where
  "charged n xs = sum_list (map (weight n \<circ> snd) xs)"

text \<open>Pools are added empty, under a name no stored chunk is charged to.\<close>

fun pool_fresh :: "AffinityPool \<Rightarrow> ChunkStore \<Rightarrow> bool" where
  "pool_fresh p s \<longleftrightarrow> ap_used_bytes p = 0 \<and> ap_capacity_bytes p \<le> u64_max \<and>
     list_all (\<lambda>(_, e). ce_pool e \<noteq> ap_name p) (cs_chunks s)"

fun admissible :: "ChunkCmd \<Rightarrow> ChunkStore \<Rightarrow> bool" where
  "admissible (CAddPool p) s = pool_fresh p s"
| "admissible (CAddPoolChecked p) s = pool_fresh p s"
| "admissible _ s = True"

text \<open>Forced deletion drops a chunk without releasing its pool bytes: the ghost function counts them.\<close>

fun leak_after :: "ChunkCmd \<Rightarrow> ChunkStore \<Rightarrow> (string \<Rightarrow> nat) \<Rightarrow> string \<Rightarrow> nat" where
  "leak_after (CForceDelete c) s l = (\<lambda>n. l n + (case map_of (cs_chunks s) c of None \<Rightarrow> 0 | Some e \<Rightarrow> weight n e))"
| "leak_after (CAddPool p) s l = l(ap_name p := 0)"
| "leak_after (CAddPoolChecked p) s l = (if map_of (cs_pools s) (ap_name p) = None then l(ap_name p := 0) else l)"
| "leak_after _ s l = l"

definition chunk_init :: "ChunkStore \<times> (string \<Rightarrow> nat) \<Rightarrow> bool" where
  "chunk_init x \<longleftrightarrow> x = (chunk_store_new, \<lambda>_. 0)"

inductive chunk_step :: "ReedSolomon \<Rightarrow> ChunkStore \<times> (string \<Rightarrow> nat) \<Rightarrow> ChunkStore \<times> (string \<Rightarrow> nat) \<Rightarrow> bool" for rs where
  "admissible cmd s \<Longrightarrow> chunk_step rs (s, l) (chunk_exec rs cmd s, leak_after cmd s l)"

inductive_cases chunk_stepE: "chunk_step rs (s, l) (s', l')"

section \<open>Association lists\<close>

lemma charged_Nil [simp]: "charged n [] = 0"
  by (simp add: charged_def)

lemma charged_Cons [simp]: "charged n ((c, e) # xs) = weight n e + charged n xs"
  by (simp add: charged_def)

lemma charged_update_new: "map_of xs c = None \<Longrightarrow> charged n (AList.update c e xs) = charged n xs + weight n e"
  by (induction xs) (auto split: if_splits)

lemma charged_update_same:
  "map_of xs c = Some e \<Longrightarrow> weight n e' = weight n e \<Longrightarrow> charged n (AList.update c e' xs) = charged n xs"
  by (induction xs) (auto split: if_splits)

lemma delete_absent: "map_of xs c = None \<Longrightarrow> AList.delete c xs = xs"
  by (induction xs) (auto split: if_splits)

lemma charged_delete:
  "distinct (map fst xs) \<Longrightarrow> map_of xs c = Some e \<Longrightarrow> charged n (AList.delete c xs) + weight n e = charged n xs"
proof (induction xs)
  case (Cons x xs)
  obtain k v where x: "x = (k, v)" by (cases x)
  show ?case
  proof (cases "k = c")
    case True
    then have "map_of xs c = None" using Cons.prems(1) by (auto simp: x map_of_eq_None_iff)
    then show ?thesis using True Cons.prems(2) by (simp add: x delete_absent)
  next
    case False
    then show ?thesis using Cons by (simp add: x)
  qed
qed simp

lemma charged_none: "list_all (\<lambda>(_, e). ce_pool e \<noteq> n) xs \<Longrightarrow> charged n xs = 0"
  by (induction xs) (auto simp: weight_def)

lemma map_of_update: "map_of (AList.update k v xs) = (map_of xs)(k \<mapsto> v)"
  by (rule update_conv')

lemma map_of_delete: "map_of (AList.delete k xs) = (map_of xs)(k := None)"
  by (rule delete_conv')

section \<open>The invariant\<close>

definition pool_sizes :: "(string \<times> AffinityPool) list \<Rightarrow> string \<Rightarrow> (nat \<times> nat) option" where
  "pool_sizes ps n = map_option (\<lambda>p. (ap_used_bytes p, ap_capacity_bytes p)) (map_of ps n)"

definition ec_ok :: "ReedSolomon \<Rightarrow> Envelope \<Rightarrow> EcMeta \<Rightarrow> bool" where
  "ec_ok rs env m \<longleftrightarrow>
     ec_encode rs (ev_ciphertext env) (em_data_shards m) (em_parity_shards m) =
       Ok \<lparr>ee_fragments = em_fragments m, ee_data_shards = em_data_shards m, ee_parity_shards = em_parity_shards m,
           ee_original_len = em_original_len m\<rparr> \<and>
     length (em_device_indices m) = length (em_fragments m) \<and> distinct (em_device_indices m)"

definition entry_ok :: "ReedSolomon \<Rightarrow> bytes \<Rightarrow> ChunkEntry \<Rightarrow> bool" where
  "entry_ok rs c e \<longleftrightarrow> ev_chunk_id (ce_envelope e) = c \<and> (\<forall>m. ce_ec e = Some m \<longrightarrow> ec_ok rs (ce_envelope e) m)"

fun chunk_inv :: "ReedSolomon \<Rightarrow> ChunkStore \<times> (string \<Rightarrow> nat) \<Rightarrow> bool" where
  "chunk_inv rs (s, l) \<longleftrightarrow> distinct (map fst (cs_chunks s)) \<and>
     (\<forall>c e. map_of (cs_chunks s) c = Some e \<longrightarrow> entry_ok rs c e) \<and>
     (\<forall>n u k. pool_sizes (cs_pools s) n = Some (u, k) \<longrightarrow> u = charged n (cs_chunks s) + l n \<and> u \<le> k \<and> k \<le> u64_max)"

lemma chunk_inv_frame:
  assumes "chunk_inv rs (s, l)" "cs_chunks s' = cs_chunks s" "pool_sizes (cs_pools s') = pool_sizes (cs_pools s)"
  shows "chunk_inv rs (s', l)"
  using assms by simp

lemma pool_sizes_with_pool:
  assumes "\<And>p. ap_used_bytes (f p) = ap_used_bytes p" "\<And>p. ap_capacity_bytes (f p) = ap_capacity_bytes p"
  shows "pool_sizes (cs_pools (with_pool n f s)) = pool_sizes (cs_pools s)"
  using assms by (auto simp: with_pool_def pool_sizes_def map_of_update fun_eq_iff split: option.splits)

lemma cs_chunks_with_pool [simp]: "cs_chunks (with_pool n f s) = cs_chunks s"
  by (simp add: with_pool_def split: option.splits)

lemma pool_sizes_remove:
  "remove_from_pools d ps = Some qs \<Longrightarrow> pool_sizes qs = pool_sizes ps"
proof (induction d ps arbitrary: qs rule: remove_from_pools.induct)
  case (2 d name pool pools)
  show ?case
  proof (cases "list_ex (\<lambda>x. pd_id x = d) (ap_devices pool)")
    case True
    with "2.prems" show ?thesis by (auto simp: pool_sizes_def fun_eq_iff)
  next
    case False
    with "2.prems" obtain rs where r: "remove_from_pools d pools = Some rs" "qs = (name, pool) # rs" by auto
    from "2.IH" [OF False r(1)] show ?thesis by (auto simp: r(2) pool_sizes_def fun_eq_iff)
  qed
qed simp

lemma chunk_inv_entry:
  assumes inv: "chunk_inv rs (s, l)" and c: "map_of (cs_chunks s) c = Some e"
    and st: "ce_envelope e' = ce_envelope e" "ce_pool e' = ce_pool e" "ce_ec e' = ce_ec e" "ce_stored_bytes e' = ce_stored_bytes e"
  shows "chunk_inv rs (set_entry c e' s, l)"
proof -
  have "weight n e' = weight n e" for n by (simp add: weight_def st)
  then have "charged n (AList.update c e' (cs_chunks s)) = charged n (cs_chunks s)" for n
    by (rule charged_update_same [OF c])
  moreover have "entry_ok rs c e'" using inv c st by (auto simp: entry_ok_def)
  ultimately show ?thesis using inv by (auto simp: set_entry_def map_of_update distinct_update)
qed

lemma bump_cases: "bump c e s = (if ce_refcount e < u64_max
    then (set_entry c (e\<lparr>ce_refcount := ce_refcount e + 1\<rparr>) s, Ok (ce_refcount e + 1)) else (s, Panic))"
  by (auto simp: bump_def add_u64_def)

lemma chunk_inv_bump:
  assumes "chunk_inv rs (s, l)" "map_of (cs_chunks s) c = Some e"
  shows "chunk_inv rs (fst (bump c e s), l)"
  using assms by (auto simp: bump_cases intro: chunk_inv_entry simp del: chunk_inv.simps)

lemma store_layout_ok:
  assumes "store_layout rs env po = Ok (sz, Some m)"
  shows "ec_ok rs env m"
proof -
  from assms obtain p d q enc idx where p: "po = Some p" and
    e: "ec_encode rs (ev_ciphertext env) d q = Ok enc" and
    i: "place_fragments (ev_chunk_id env) (length (ee_fragments enc)) (dev_infos p) = Some idx" and
    m: "m = \<lparr>em_data_shards = ee_data_shards enc, em_parity_shards = ee_parity_shards enc,
          em_fragments = ee_fragments enc, em_device_indices = idx, em_original_len = ee_original_len enc\<rparr>"
    by (auto simp: store_layout_def split: option.splits DurabilityStrategy.splits)
  have "ee_data_shards enc = d" "ee_parity_shards enc = q"
    using e by (auto simp: ec_encode_def Let_def split: if_splits option.splits)
  moreover have "length idx = length (ee_fragments enc)" "distinct idx"
    using place_fragments_cases [where chunk_id = "ev_chunk_id env" and n = "length (ee_fragments enc)" and devices = "dev_infos p"] i
    by auto
  ultimately show ?thesis using e by (simp add: ec_ok_def m)
qed

lemma write_chunk_new:
  assumes "map_of (cs_chunks s) (ev_chunk_id env) = None"
  obtains (fail) "fst (write_chunk rs env pool s) = s" "\<not> is_ok (snd (write_chunk rs env pool s))"
  | (ok) sz ec s1 where "store_layout rs env (map_of (cs_pools s) pool) = Ok (sz, ec)" "charge_pool pool sz s = (s1, Ok ())"
    "write_chunk rs env pool s = (s1\<lparr>cs_chunks := AList.update (ev_chunk_id env)
       \<lparr>ce_envelope = env, ce_refcount = 1, ce_retention_holds = {}, ce_pool = pool, ce_ec = ec,
        ce_stored_bytes = sz\<rparr> (cs_chunks s1)\<rparr>, Ok True)"
proof (cases "store_layout rs env (map_of (cs_pools s) pool)")
  case (Ok lay)
  obtain sz ec where lay: "lay = (sz, ec)" by (cases lay)
  obtain s1 r where c: "charge_pool pool sz s = (s1, r)" by (cases "charge_pool pool sz s")
  show ?thesis
  proof (cases r)
    case (Ok u)
    then show ?thesis using that(2) [of sz ec s1] c assms lay \<open>store_layout _ _ _ = Ok lay\<close> by (simp add: write_chunk_def)
  next
    case (Err e)
    have "s1 = s" using c Err by (auto simp: charge_pool_def split: option.splits if_splits)
    then show ?thesis using that(1) c Err assms lay \<open>store_layout _ _ _ = Ok lay\<close> by (simp add: write_chunk_def)
  next
    case Panic
    have "s1 = s" using c Panic by (auto simp: charge_pool_def split: option.splits if_splits)
    then show ?thesis using that(1) c Panic assms lay \<open>store_layout _ _ _ = Ok lay\<close> by (simp add: write_chunk_def)
  qed
qed (use that(1) assms in \<open>simp_all add: write_chunk_def\<close>)

lemma charge_pool_ok:
  assumes "charge_pool pool sz s = (s1, Ok ())"
  shows "cs_chunks s1 = cs_chunks s"
    and "pool_sizes (cs_pools s) pool = None \<Longrightarrow> s1 = s"
    and "pool_sizes (cs_pools s) pool = Some (u, k) \<Longrightarrow> u \<le> k \<Longrightarrow>
      pool_sizes (cs_pools s1) = (pool_sizes (cs_pools s))(pool \<mapsto> (u + sz, k)) \<and> u + sz \<le> k"
  using assms by (auto simp: charge_pool_def pool_sizes_def map_of_update has_capacity_def available_bytes_def fun_eq_iff
      split: option.splits if_splits)

lemma chunk_inv_new:
  assumes inv: "chunk_inv rs (s, l)" and c: "map_of (cs_chunks s) c = None" and e: "entry_ok rs c e"
    and ch: "charge_pool (ce_pool e) (ce_stored_bytes e) s = (s1, Ok ())"
  shows "chunk_inv rs (s1\<lparr>cs_chunks := AList.update c e (cs_chunks s1)\<rparr>, l)"
proof -
  let ?xs = "AList.update c e (cs_chunks s)"
  have cs: "cs_chunks s1 = cs_chunks s" by (rule charge_pool_ok(1) [OF ch])
  have pools: "u = charged n (cs_chunks s) + l n" "u \<le> k" "k \<le> u64_max"
    if "pool_sizes (cs_pools s) n = Some (u, k)" for n u k
    using inv that by auto
  have w: "charged n ?xs = charged n (cs_chunks s) + weight n e" for n by (rule charged_update_new [OF c])
  have "u = charged n ?xs + l n \<and> u \<le> k \<and> k \<le> u64_max" if n: "pool_sizes (cs_pools s1) n = Some (u, k)" for n u k
  proof (cases "pool_sizes (cs_pools s) (ce_pool e)")
    case None
    then have "s1 = s" by (rule charge_pool_ok(2) [OF ch])
    moreover from this None n have "n \<noteq> ce_pool e" by auto
    ultimately show ?thesis using pools [of n u k] n by (simp add: w weight_def)
  next
    case (Some uk)
    obtain u0 k0 where uk: "uk = (u0, k0)" by (cases uk)
    note p0 = pools [OF Some [unfolded uk]]
    have ps: "pool_sizes (cs_pools s1) = (pool_sizes (cs_pools s))(ce_pool e \<mapsto> (u0 + ce_stored_bytes e, k0))" "u0 + ce_stored_bytes e \<le> k0"
      using charge_pool_ok(3) [OF ch Some [unfolded uk] p0(2)] by blast+
    show ?thesis
    proof (cases "n = ce_pool e")
      case True
      then have "u = u0 + ce_stored_bytes e" "k = k0" using n ps(1) by simp_all
      then show ?thesis using True p0 ps(2) by (simp add: w weight_def)
    next
      case False
      then have "pool_sizes (cs_pools s) n = Some (u, k)" using n ps(1) by simp
      from pools [OF this] show ?thesis using False by (simp add: w weight_def)
    qed
  qed
  moreover have "\<forall>c' e'. map_of ?xs c' = Some e' \<longrightarrow> entry_ok rs c' e'" using inv e by (auto simp: map_of_update)
  moreover have "distinct (map fst ?xs)" using inv by (simp add: distinct_update)
  ultimately show ?thesis by (simp add: cs)
qed

lemma chunk_inv_write:
  assumes inv: "chunk_inv rs (s, l)"
  shows "chunk_inv rs (fst (write_chunk rs env pool s), l)"
proof (cases "map_of (cs_chunks s) (ev_chunk_id env)")
  case (Some e)
  have "fst (write_chunk rs env pool s) = fst (bump (ev_chunk_id env) e s)"
    by (simp add: write_chunk_def Some bump_cases)
  then show ?thesis using chunk_inv_bump [OF inv Some] by simp
next
  case None
  then show ?thesis
  proof (cases rule: write_chunk_new [where rs = rs and pool = pool])
    case (ok sz ec s1)
    let ?e = "\<lparr>ce_envelope = env, ce_refcount = 1, ce_retention_holds = {}, ce_pool = pool, ce_ec = ec, ce_stored_bytes = sz\<rparr>"
    have "entry_ok rs (ev_chunk_id env) ?e"
      using store_layout_ok [of rs env "map_of (cs_pools s) pool" sz] ok(1) by (simp add: entry_ok_def)
    from chunk_inv_new [OF inv None this] ok(2) show ?thesis unfolding ok(3) fst_conv by simp
  qed (use inv in simp)
qed

lemma gc_remove_inv:
  assumes inv: "chunk_inv rs (s, l)"
  shows "chunk_inv rs (gc_remove c s, l)"
proof (cases "map_of (cs_chunks s) c")
  case None
  then show ?thesis using inv by (simp add: gc_remove_def)
next
  case (Some e)
  let ?n = "ce_pool e"
  have d: "distinct (map fst (cs_chunks s))" using inv by simp
  have ch: "charged n (AList.delete c (cs_chunks s)) + weight n e = charged n (cs_chunks s)" for n
    by (rule charged_delete [OF d Some])
  have ps: "pool_sizes (cs_pools (gc_remove c s)) = (\<lambda>n. map_option (\<lambda>(u, k). (u - weight n e, k)) (pool_sizes (cs_pools s) n))"
    by (auto simp: gc_remove_def Some with_pool_def pool_sizes_def map_of_update weight_def fun_eq_iff
        option.map_comp comp_def option.map_ident split: option.splits)
  have cs: "cs_chunks (gc_remove c s) = AList.delete c (cs_chunks s)" by (simp add: gc_remove_def Some)
  have "u = charged n (cs_chunks (gc_remove c s)) + l n \<and> u \<le> k \<and> k \<le> u64_max"
    if "pool_sizes (cs_pools (gc_remove c s)) n = Some (u, k)" for n u k
  proof -
    from that obtain u0 where u0: "pool_sizes (cs_pools s) n = Some (u0, k)" "u = u0 - weight n e" by (auto simp: ps)
    then have "u0 = charged n (cs_chunks s) + l n" "u0 \<le> k" "k \<le> u64_max" using inv by auto
    then show ?thesis using u0(2) ch [of n] unfolding cs by linarith
  qed
  moreover have "\<forall>c' e'. map_of (cs_chunks (gc_remove c s)) c' = Some e' \<longrightarrow> entry_ok rs c' e'"
    using inv by (auto simp: cs map_of_delete)
  moreover have "distinct (map fst (cs_chunks (gc_remove c s)))" unfolding cs by (rule distinct_delete [OF d])
  ultimately show ?thesis by simp
qed

lemma gc_fold_inv: "chunk_inv rs (s, l) \<Longrightarrow> chunk_inv rs (fold gc_remove ids s, l)"
  by (induction ids arbitrary: s) (auto intro: gc_remove_inv simp del: chunk_inv.simps)

lemma force_inv:
  assumes inv: "chunk_inv rs (s, l)"
  shows "chunk_inv rs (fst (delete_chunk_force c s), leak_after (CForceDelete c) s l)"
proof (cases "map_of (cs_chunks s) c")
  case None
  then show ?thesis using inv by (simp add: delete_chunk_force_def Let_def delete_absent)
next
  case (Some e)
  have d: "distinct (map fst (cs_chunks s))" using inv by simp
  have ch: "charged n (cs_chunks s) = charged n (AList.delete c (cs_chunks s)) + weight n e" for n
    using charged_delete [OF d Some, of n] by simp
  show ?thesis using inv distinct_delete [OF d, of c]
    by (auto simp: delete_chunk_force_def Let_def Some map_of_delete ch add.assoc add.commute [of "weight _ _"])
qed

lemma add_pool_inv:
  assumes inv: "chunk_inv rs (s, l)" and fresh: "pool_fresh p s"
  shows "chunk_inv rs (add_pool p s, l(ap_name p := 0))"
proof -
  have "charged (ap_name p) (cs_chunks s) = 0" using fresh by (intro charged_none) simp
  moreover have "pool_sizes (cs_pools (add_pool p s)) = (pool_sizes (cs_pools s))(ap_name p \<mapsto> (0, ap_capacity_bytes p))"
    using fresh by (auto simp: add_pool_def pool_sizes_def map_of_update fun_eq_iff)
  ultimately show ?thesis using inv fresh by (auto simp: add_pool_def)
qed

lemma with_entry_inv:
  assumes "chunk_inv rs (s, l)" "\<And>e. map_of (cs_chunks s) c = Some e \<Longrightarrow> chunk_inv rs (fst (f e), l)"
  shows "chunk_inv rs (fst (with_entry c f s), l)"
  using assms by (auto simp: with_entry_def simp del: chunk_inv.simps split: option.splits)

lemma chunk_exec_inv:
  assumes inv: "chunk_inv rs (s, l)" and adm: "admissible cmd s"
  shows "chunk_inv rs (chunk_exec rs cmd s, leak_after cmd s l)"
proof (cases cmd)
  case (CWrite env pool)
  then show ?thesis using chunk_inv_write [OF inv] by simp
next
  case (CIncrement c)
  have "chunk_inv rs (fst (increment_refcount c s), l)"
    unfolding increment_refcount_def by (rule with_entry_inv [OF inv chunk_inv_bump [OF inv]])
  then show ?thesis by (simp add: CIncrement)
next
  case (CTryIncrement c)
  have "chunk_inv rs (fst (try_increment_if_exists c s), l)"
  proof (cases "map_of (cs_chunks s) c")
    case (Some e)
    have "fst (try_increment_if_exists c s) = fst (bump c e s)" by (simp add: try_increment_if_exists_def Some bump_cases)
    then show ?thesis using chunk_inv_bump [OF inv Some] by simp
  qed (use inv in \<open>simp add: try_increment_if_exists_def\<close>)
  then show ?thesis by (simp add: CTryIncrement)
next
  case (CDecrement c)
  have "chunk_inv rs (fst (decrement_refcount c s), l)"
    unfolding decrement_refcount_def
    by (rule with_entry_inv [OF inv]) (use inv in \<open>auto intro: chunk_inv_entry simp del: chunk_inv.simps\<close>)
  then show ?thesis by (simp add: CDecrement)
next
  case (CHold c h)
  have "chunk_inv rs (fst (set_retention_hold c h s), l)"
    unfolding set_retention_hold_def
    by (rule with_entry_inv [OF inv]) (use inv in \<open>auto intro: chunk_inv_entry simp del: chunk_inv.simps\<close>)
  then show ?thesis by (simp add: CHold)
next
  case (CRelease c h)
  have "chunk_inv rs (fst (release_retention_hold c h s), l)"
    unfolding release_retention_hold_def
    by (rule with_entry_inv [OF inv]) (use inv in \<open>auto intro: chunk_inv_entry simp del: chunk_inv.simps\<close>)
  then show ?thesis by (simp add: CRelease)
next
  case CGc
  then show ?thesis using gc_fold_inv [OF inv] by (simp add: chunk_gc_def Let_def del: chunk_inv.simps)
next
  case (CForceDelete c)
  then show ?thesis using force_inv [OF inv, of c] by (simp del: chunk_inv.simps)
next
  case (CAddPool p)
  then show ?thesis using add_pool_inv [OF inv, of p] adm by (simp del: chunk_inv.simps)
next
  case (CAddPoolChecked p)
  then show ?thesis using add_pool_inv [OF inv, of p] inv adm by (simp add: add_pool_checked_def del: chunk_inv.simps)
next
  case (CAddDevice n d)
  have "chunk_inv rs (fst (add_device n d s), l)"
    using inv chunk_inv_frame [OF inv _ pool_sizes_with_pool] by (auto simp: add_device_def simp del: chunk_inv.simps split: option.splits)
  then show ?thesis by (simp add: CAddDevice)
next
  case (CRemoveDevice d)
  have "chunk_inv rs (fst (remove_device d s), l)"
    using inv chunk_inv_frame [OF inv] pool_sizes_remove by (auto simp: remove_device_def simp del: chunk_inv.simps split: option.splits)
  then show ?thesis by (simp add: CRemoveDevice)
next
  case (CSetDurability n d)
  have "chunk_inv rs (fst (set_pool_durability n d s), l)"
    using inv chunk_inv_frame [OF inv _ pool_sizes_with_pool]
    by (auto simp: set_pool_durability_def simp del: chunk_inv.simps split: option.splits)
  then show ?thesis by (simp add: CSetDurability)
next
  case (CDeviceOnline n d b)
  have "chunk_inv rs (with_pool n (set_device_online d b) s, l)"
    by (rule chunk_inv_frame [OF inv _ pool_sizes_with_pool]) (simp_all add: set_device_online_def)
  then show ?thesis by (simp add: CDeviceOnline)
qed (use inv in \<open>simp_all add: write_fragment_def delete_fragment_def inject_unavailable_def clear_faults_def\<close>)

interpretation chunks: invariant_system chunk_init "chunk_step rs" "chunk_inv rs" for rs
proof
  fix x assume "chunk_init x"
  then show "chunk_inv rs x" by (simp add: chunk_init_def chunk_store_new_def pool_sizes_def)
next
  fix x y assume "chunk_inv rs x" "chunk_step rs x y"
  then show "chunk_inv rs y" using chunk_exec_inv by (auto elim!: chunk_step.cases simp del: chunk_inv.simps)
qed

section \<open>Life of a chunk\<close>

text \<open>What clients see of a chunk: its envelope, reference count and holds; and what a command does to a
  chunk that is stored. Reference counts stop at the largest 64-bit value, where the program aborts.\<close>

type_synonym ChunkView = "Envelope \<times> nat \<times> string set"

definition chunk_view :: "ChunkStore \<Rightarrow> bytes \<Rightarrow> ChunkView option" where
  "chunk_view s c = map_option (\<lambda>e. (ce_envelope e, ce_refcount e, ce_retention_holds e)) (map_of (cs_chunks s) c)"

definition more :: "nat \<Rightarrow> nat" where
  "more n = (if n < u64_max then n + 1 else n)"

fun life :: "bytes \<Rightarrow> ChunkCmd \<Rightarrow> ChunkView \<Rightarrow> ChunkView option" where
  "life c (CWrite env pool) (e, n, h) = Some (e, if ev_chunk_id env = c then more n else n, h)"
| "life c (CIncrement c') (e, n, h) = Some (e, if c' = c then more n else n, h)"
| "life c (CTryIncrement c') (e, n, h) = Some (e, if c' = c then more n else n, h)"
| "life c (CDecrement c') (e, n, h) = Some (e, if c' = c then n - 1 else n, h)"
| "life c (CHold c' x) (e, n, h) = Some (e, n, if c' = c then insert x h else h)"
| "life c (CRelease c' x) (e, n, h) = Some (e, n, if c' = c then h - {x} else h)"
| "life c CGc (e, n, h) = (if n = 0 \<and> h = {} then None else Some (e, n, h))"
| "life c (CForceDelete c') (e, n, h) = (if c' = c then None else Some (e, n, h))"
| "life c _ (e, n, h) = Some (e, n, h)"

lemma chunk_view_frame: "cs_chunks s' = cs_chunks s \<Longrightarrow> chunk_view s' c = chunk_view s c"
  by (simp add: chunk_view_def)

lemma chunk_view_set_entry:
  "chunk_view (set_entry c' e s) c = (if c = c' then Some (ce_envelope e, ce_refcount e, ce_retention_holds e) else chunk_view s c)"
  by (simp add: chunk_view_def set_entry_def map_of_update)

lemma chunk_view_bump:
  "map_of (cs_chunks s) c' = Some e \<Longrightarrow> chunk_view (fst (bump c' e s)) c =
     (if c = c' then Some (ce_envelope e, more (ce_refcount e), ce_retention_holds e) else chunk_view s c)"
  by (cases "ce_refcount e < u64_max") (simp_all add: bump_cases chunk_view_set_entry more_def, simp add: chunk_view_def)

lemma chunk_view_write:
  "chunk_view (fst (write_chunk rs env pool s)) c =
     (if ev_chunk_id env \<noteq> c then chunk_view s c
      else case chunk_view s c of
        Some (e, n, h) \<Rightarrow> Some (e, more n, h)
      | None \<Rightarrow> if snd (write_chunk rs env pool s) = Ok True then Some (env, 1, {}) else None)"
proof (cases "map_of (cs_chunks s) (ev_chunk_id env)")
  case (Some e)
  have w: "fst (write_chunk rs env pool s) = fst (bump (ev_chunk_id env) e s)"
    by (simp add: write_chunk_def Some bump_cases)
  have "chunk_view s (ev_chunk_id env) = Some (ce_envelope e, ce_refcount e, ce_retention_holds e)"
    by (simp add: chunk_view_def Some)
  then show ?thesis by (auto simp: w chunk_view_bump [OF Some])
next
  case None
  then have v: "chunk_view s (ev_chunk_id env) = None" by (simp add: chunk_view_def)
  from None show ?thesis
  proof (cases rule: write_chunk_new [where rs = rs and pool = pool])
    case fail
    then show ?thesis using v by auto
  next
    case (ok sz ec s1)
    show ?thesis unfolding ok(3) using v by (auto simp: chunk_view_def map_of_update charge_pool_ok(1) [OF ok(2)])
  qed
qed

lemma gc_chunks: "map_of (cs_chunks (fold gc_remove ids s)) c = (if c \<in> set ids then None else map_of (cs_chunks s) c)"
proof (induction ids arbitrary: s)
  case (Cons i ids)
  have "map_of (cs_chunks (gc_remove i s)) c = (if c = i then None else map_of (cs_chunks s) c)"
    by (auto simp: gc_remove_def map_of_delete split: option.splits)
  then show ?case by (auto simp: Cons.IH)
qed simp

lemma gc_ids:
  assumes "distinct (map fst xs)"
  shows "c \<in> set (map fst (filter (\<lambda>(_, e). collectable e) xs)) \<longleftrightarrow> (\<exists>e. map_of xs c = Some e \<and> collectable e)"
  using assms by force

lemma chunk_view_gc:
  assumes "distinct (map fst (cs_chunks s))"
  shows "chunk_view (fst (chunk_gc s)) c = Option.bind (chunk_view s c) (life c CGc)"
  using gc_ids [OF assms, of c]
  by (cases "map_of (cs_chunks s) c") (auto simp: chunk_gc_def Let_def chunk_view_def gc_chunks collectable_def)

lemma chunk_view_with_entry:
  "chunk_view (fst (with_entry c' f s)) c =
     (case map_of (cs_chunks s) c' of None \<Rightarrow> chunk_view s c | Some e \<Rightarrow> chunk_view (fst (f e)) c)"
  by (simp add: with_entry_def split: option.splits)

lemma life_step:
  assumes d: "distinct (map fst (cs_chunks s))"
  shows "chunk_view (chunk_exec rs cmd s) c =
    (case chunk_view s c of
       Some v \<Rightarrow> life c cmd v
     | None \<Rightarrow> (case cmd of
         CWrite env pool \<Rightarrow> if ev_chunk_id env = c \<and> snd (write_chunk rs env pool s) = Ok True then Some (env, 1, {}) else None
       | _ \<Rightarrow> None))"
proof -
  have v: "chunk_view s c' = map_option (\<lambda>e. (ce_envelope e, ce_refcount e, ce_retention_holds e)) (map_of (cs_chunks s) c')" for c'
    by (simp add: chunk_view_def)
  have idle: "life c cmd x = Some x" if "\<And>e n h. life c cmd (e, n, h) = Some (e, n, h)" for x
    using that by (cases x) auto
  show ?thesis
  proof (cases cmd)
    case (CWrite env pool)
    then show ?thesis by (auto simp: chunk_view_write split: option.splits)
  next
    case (CIncrement c')
    then show ?thesis
      by (cases "map_of (cs_chunks s) c'") (auto simp: increment_refcount_def chunk_view_with_entry chunk_view_bump v split: option.splits)
  next
    case (CTryIncrement c')
    show ?thesis
    proof (cases "map_of (cs_chunks s) c'")
      case None
      then show ?thesis by (auto simp: CTryIncrement try_increment_if_exists_def v split: option.splits)
    next
      case (Some e)
      then have "fst (try_increment_if_exists c' s) = fst (bump c' e s)" by (simp add: try_increment_if_exists_def bump_cases)
      then show ?thesis using Some by (auto simp: CTryIncrement chunk_view_bump v split: option.splits)
    qed
  next
    case (CDecrement c')
    then show ?thesis
      by (cases "map_of (cs_chunks s) c'")
        (auto simp: decrement_refcount_def chunk_view_with_entry chunk_view_set_entry v split: option.splits)
  next
    case (CHold c' h)
    then show ?thesis
      by (cases "map_of (cs_chunks s) c'")
        (auto simp: set_retention_hold_def chunk_view_with_entry chunk_view_set_entry v split: option.splits)
  next
    case (CRelease c' h)
    then show ?thesis
      by (cases "map_of (cs_chunks s) c'")
        (auto simp: release_retention_hold_def chunk_view_with_entry chunk_view_set_entry v split: option.splits)
  next
    case CGc
    then show ?thesis using chunk_view_gc [OF d, of c] by (cases "chunk_view s c") auto
  next
    case (CForceDelete c')
    then show ?thesis by (auto simp: delete_chunk_force_def Let_def chunk_view_def map_of_delete split: option.splits)
  qed (auto simp: idle chunk_view_def write_fragment_def delete_fragment_def add_pool_def add_pool_checked_def add_device_def
      remove_device_def set_pool_durability_def inject_unavailable_def clear_faults_def split: option.splits)
qed

section \<open>Degraded reads\<close>

lemma ec_ok_decode:
  assumes laws: "rs_laws rs" and ok: "ec_ok rs env m"
  shows "length (em_fragments m) = em_data_shards m + em_parity_shards m"
    and "erased (em_fragments m) part \<Longrightarrow>
      ec_decode rs part (em_data_shards m) (em_parity_shards m) (em_original_len m) =
        (if length (filter (\<lambda>f. f = None) part) \<le> em_parity_shards m \<or> ev_ciphertext env = [] then Ok (ev_ciphertext env) else Err ChunkLost)"
proof -
  let ?ct = "ev_ciphertext env" and ?d = "em_data_shards m" and ?q = "em_parity_shards m"
  have enc: "ec_encode rs ?ct ?d ?q = Ok \<lparr>ee_fragments = em_fragments m, ee_data_shards = ?d, ee_parity_shards = ?q,
      ee_original_len = em_original_len m\<rparr>" using ok by (simp add: ec_ok_def)
  then have pos: "0 < ?d" "0 < ?q" by (auto simp: ec_encode_def split: if_splits)
  have "length (em_fragments m) = ?d + ?q \<and> (erased (em_fragments m) part \<longrightarrow> ec_decode rs part ?d ?q (em_original_len m) =
      (if length (filter (\<lambda>f. f = None) part) \<le> ?q \<or> ?ct = [] then Ok ?ct else Err ChunkLost))"
  proof (cases "?ct = []")
    case True
    then have "em_fragments m = replicate (?d + ?q) []" "em_original_len m = 0" using enc pos by (auto simp: ec_encode_def)
    then show ?thesis using True by (auto simp: ec_decode_def erased_def dest: list_all2_lengthD)
  next
    case False
    then have "rs_new rs ?d ?q" using enc pos by (auto simp: ec_encode_def Let_def split: if_splits)
    then have "?d + ?q \<le> 256" using laws by (simp add: rs_laws_def)
    from ec_decode_encode [OF laws pos this, of ?ct] enc show ?thesis by auto
  qed
  then show "length (em_fragments m) = ?d + ?q"
    and "erased (em_fragments m) part \<Longrightarrow> ec_decode rs part ?d ?q (em_original_len m) =
      (if length (filter (\<lambda>f. f = None) part) \<le> ?q \<or> ?ct = [] then Ok ?ct else Err ChunkLost)" by blast+
qed

definition lost_fragments :: "AffinityPool \<Rightarrow> EcMeta \<Rightarrow> nat" where
  "lost_fragments p m = length (filter (\<lambda>i. \<not> device_online (ap_devices p) i) (em_device_indices m))"

definition survivors :: "AffinityPool \<Rightarrow> EcMeta \<Rightarrow> bytes option list" where
  "survivors p m = map (\<lambda>i. if device_online (ap_devices p) (em_device_indices m ! i) then Some (em_fragments m ! i) else None)
     [0..<length (em_fragments m)]"

lemma gather_survivors:
  assumes "length (em_device_indices m) = length (em_fragments m)"
  shows "gather (ap_devices p) m [0..<length (em_fragments m)] = Ok (survivors p m)"
proof -
  have "set idxs \<subseteq> {..<length (em_fragments m)} \<Longrightarrow> gather (ap_devices p) m idxs =
      Ok (map (\<lambda>i. if device_online (ap_devices p) (em_device_indices m ! i) then Some (em_fragments m ! i) else None) idxs)" for idxs
    using assms by (induction idxs) auto
  from this [of "[0..<length (em_fragments m)]"] show ?thesis unfolding survivors_def by fastforce
qed

lemma survivors_erased: "erased (em_fragments m) (survivors p m)"
  by (auto simp: erased_def survivors_def list_all2_conv_all_nth)

lemma survivors_lost:
  assumes "length (em_device_indices m) = length (em_fragments m)"
  shows "length (filter (\<lambda>f. f = None) (survivors p m)) = lost_fragments p m"
proof -
  have "length (filter (\<lambda>f. f = None) (survivors p m)) =
      length (filter (\<lambda>i. \<not> device_online (ap_devices p) i) (map ((!) (em_device_indices m)) [0..<length (em_device_indices m)]))"
    by (simp add: survivors_def filter_map comp_def assms if_distrib cong: if_cong)
  then show ?thesis unfolding map_nth lost_fragments_def .
qed

lemma degraded_reads:
  assumes laws: "rs_laws rs" and e: "map_of (cs_chunks s) c = Some e" "entry_ok rs c e" and m: "ce_ec e = Some m"
    and p: "map_of (cs_pools s) (ce_pool e) = Some p"
  shows "read_chunk_ec rs c s = (if lost_fragments p m \<le> em_parity_shards m \<or> ev_ciphertext (ce_envelope e) = []
      then Ok (ev_ciphertext (ce_envelope e)) else Err ChunkLost)"
    and "c \<notin> cs_unavailable s \<Longrightarrow> read_chunk rs c s = (if lost_fragments p m \<le> em_parity_shards m \<or> ev_ciphertext (ce_envelope e) = []
      then Ok (ce_envelope e) else Err ChunkLost)"
proof -
  have ok: "ec_ok rs (ce_envelope e) m" using e(2) m by (simp add: entry_ok_def)
  then have di: "length (em_device_indices m) = length (em_fragments m)" by (simp add: ec_ok_def)
  note len = ec_ok_decode(1) [OF laws ok] and dec = ec_ok_decode(2) [OF laws ok survivors_erased]
  have g: "gather (ap_devices p) m [0..<em_data_shards m + em_parity_shards m] = Ok (survivors p m)"
    using gather_survivors [OF di] by (simp add: len)
  note lost = survivors_lost [OF di, of p]
  show "read_chunk_ec rs c s = (if lost_fragments p m \<le> em_parity_shards m \<or> ev_ciphertext (ce_envelope e) = []
      then Ok (ev_ciphertext (ce_envelope e)) else Err ChunkLost)"
    by (simp add: read_chunk_ec_def e m p g dec lost)
  have all: "list_all (\<lambda>f. f \<noteq> None) (survivors p m) \<Longrightarrow> lost_fragments p m = 0"
    unfolding lost [symmetric] by (auto simp: list_all_iff filter_empty_conv)
  assume "c \<notin> cs_unavailable s"
  then show "read_chunk rs c s = (if lost_fragments p m \<le> em_parity_shards m \<or> ev_ciphertext (ce_envelope e) = []
      then Ok (ce_envelope e) else Err ChunkLost)"
    using all by (simp add: read_chunk_def e m p g dec lost)
qed

section \<open>Guarantees\<close>

lemma chunk_invD:
  assumes "reach chunk_init (chunk_step rs) (s, l)"
  shows "distinct (map fst (cs_chunks s))" and "map_of (cs_chunks s) c = Some e \<Longrightarrow> entry_ok rs c e"
    and "map_of (cs_pools s) n = Some p \<Longrightarrow> ap_used_bytes p = charged n (cs_chunks s) + l n \<and>
      ap_used_bytes p \<le> ap_capacity_bytes p \<and> ap_capacity_bytes p \<le> u64_max"
proof -
  note inv = chunks.reach_inv [OF assms, unfolded chunk_inv.simps]
  show "distinct (map fst (cs_chunks s))" "map_of (cs_chunks s) c = Some e \<Longrightarrow> entry_ok rs c e" using inv by blast+
  assume "map_of (cs_pools s) n = Some p"
  then have "pool_sizes (cs_pools s) n = Some (ap_used_bytes p, ap_capacity_bytes p)" by (simp add: pool_sizes_def)
  then show "ap_used_bytes p = charged n (cs_chunks s) + l n \<and> ap_used_bytes p \<le> ap_capacity_bytes p \<and>
      ap_capacity_bytes p \<le> u64_max" using inv by blast
qed

lemma reach_exec:
  assumes "reach chunk_init (chunk_step rs) (s, l)" "admissible cmd s"
  shows "reach chunk_init (chunk_step rs) (chunk_exec rs cmd s, leak_after cmd s l)"
  using assms by (blast intro: reach_step chunk_step.intros)

lemma gc_charged:
  assumes "distinct (map fst xs)"
  shows "charged n (filter (\<lambda>(_, e). \<not> collectable e) xs) + charged n (filter (\<lambda>(_, e). collectable e) xs) = charged n xs"
  by (induction xs) auto

lemma gc_chunks_eq:
  assumes "distinct (map fst (cs_chunks s))"
  shows "cs_chunks (fst (chunk_gc s)) = filter (\<lambda>(_, e). \<not> collectable e) (cs_chunks s)"
proof -
  have f: "cs_chunks (fold gc_remove ids s) = filter (\<lambda>(c, _). c \<notin> set ids) (cs_chunks s)" for ids
  proof (induction ids arbitrary: s)
    case (Cons i ids)
    have "cs_chunks (gc_remove i s) = filter (\<lambda>(c, _). c \<noteq> i) (cs_chunks s)"
    proof (cases "map_of (cs_chunks s) i")
      case None
      then have "filter (\<lambda>(c, _). c \<noteq> i) (cs_chunks s) = cs_chunks s"
        by (auto simp: filter_id_conv map_of_eq_None_iff image_iff)
      then show ?thesis using None by (simp add: gc_remove_def)
    qed (auto simp: gc_remove_def AList.delete_eq case_prod_beta intro!: filter_cong)
    then show ?case unfolding fold_simps comp_apply Cons.IH by (auto simp: case_prod_beta intro!: filter_cong)
  qed simp
  show ?thesis unfolding chunk_gc_def Let_def fst_conv f
  proof (rule filter_cong [OF refl])
    fix x assume x: "x \<in> set (cs_chunks s)"
    obtain c e where ce: "x = (c, e)" by (cases x)
    have "map_of (cs_chunks s) c = Some e" using assms x by (simp add: ce)
    then show "(case x of (c, _) \<Rightarrow> c \<notin> set (map fst (filter (\<lambda>(_, e). collectable e) (cs_chunks s)))) =
        (case x of (_, e) \<Rightarrow> \<not> collectable e)"
      unfolding ce prod.case gc_ids [OF assms] by simp
  qed
qed

lemma gc_count:
  assumes "distinct (map fst (cs_chunks s))"
  shows "snd (chunk_gc s) = card {c. \<exists>env. chunk_view s c = Some (env, 0, {})}"
proof -
  let ?ids = "map fst (filter (\<lambda>(_, e). collectable e) (cs_chunks s))"
  have "{c. \<exists>env. chunk_view s c = Some (env, 0, {})} = set ?ids"
    using gc_ids [OF assms] by (auto simp: chunk_view_def collectable_def)
  moreover have "distinct ?ids" using assms by (simp add: distinct_map_filter)
  ultimately have "card {c. \<exists>env. chunk_view s c = Some (env, 0, {})} = length ?ids" by (simp only: distinct_card)
  then show ?thesis by (simp add: chunk_gc_def Let_def)
qed

text \<open>Sequences of commands, and when a chunk can be read: it has no injected fault and no more of its
  fragments than the parity are on devices that are not online.\<close>

fun admissible_run :: "ReedSolomon \<Rightarrow> ChunkCmd list \<Rightarrow> ChunkStore \<Rightarrow> bool" where
  "admissible_run rs [] s \<longleftrightarrow> True"
| "admissible_run rs (cmd # cmds) s \<longleftrightarrow> admissible cmd s \<and> admissible_run rs cmds (chunk_exec rs cmd s)"

definition recoverable :: "ChunkStore \<Rightarrow> bytes \<Rightarrow> bool" where
  "recoverable s c \<longleftrightarrow> c \<notin> cs_unavailable s \<and>
     (case map_of (cs_chunks s) c of
        None \<Rightarrow> False
      | Some e \<Rightarrow> (case ce_ec e of
          None \<Rightarrow> True
        | Some m \<Rightarrow> (case map_of (cs_pools s) (ce_pool e) of None \<Rightarrow> False | Some p \<Rightarrow> lost_fragments p m \<le> em_parity_shards m)))"

lemma life_referenced:
  assumes "1 \<le> n" "cmd \<noteq> CDecrement c" "cmd \<noteq> CForceDelete c"
  shows "\<exists>n' h'. 1 \<le> n' \<and> life c cmd (env, n, h) = Some (env, n', h')"
  using assms by (cases cmd) (auto simp: more_def)

lemma run_keeps_chunk:
  assumes "reach chunk_init (chunk_step rs) (s, l)" "admissible_run rs cmds s" "chunk_view s c = Some (env, n, h)" "1 \<le> n"
    and "CDecrement c \<notin> set cmds" "CForceDelete c \<notin> set cmds"
  shows "\<exists>l' n' h'. reach chunk_init (chunk_step rs) (fold (chunk_exec rs) cmds s, l') \<and>
    chunk_view (fold (chunk_exec rs) cmds s) c = Some (env, n', h')"
  using assms
proof (induction cmds arbitrary: s l n h)
  case (Cons cmd cmds)
  have r: "reach chunk_init (chunk_step rs) (chunk_exec rs cmd s, leak_after cmd s l)"
    using reach_exec [OF Cons.prems(1)] Cons.prems(2) by simp
  obtain n' h' where v: "1 \<le> n'" "life c cmd (env, n, h) = Some (env, n', h')"
    using life_referenced [OF Cons.prems(4), of cmd c env h] Cons.prems(5,6) by auto
  have "chunk_view (chunk_exec rs cmd s) c = Some (env, n', h')"
    using life_step [OF chunk_invD(1) [OF Cons.prems(1)], of rs cmd c] Cons.prems(3) v(2) by simp
  from Cons.IH [OF r _ this v(1)] show ?case using Cons.prems(2,5,6) by simp
qed auto

lemma recoverable_read:
  assumes "rs_laws rs" "reach chunk_init (chunk_step rs) (s, l)" "chunk_view s c = Some (env, n, h)" "recoverable s c"
  shows "read_chunk rs c s = Ok env"
proof -
  obtain e where e: "map_of (cs_chunks s) c = Some e" "ce_envelope e = env" using assms(3) by (auto simp: chunk_view_def)
  have u: "c \<notin> cs_unavailable s" using assms(4) by (simp add: recoverable_def)
  show ?thesis
  proof (cases "ce_ec e")
    case None
    then show ?thesis using e u by (simp add: read_chunk_def)
  next
    case (Some m)
    then obtain p where p: "map_of (cs_pools s) (ce_pool e) = Some p" "lost_fragments p m \<le> em_parity_shards m"
      using assms(4) e(1) by (auto simp: recoverable_def split: option.splits)
    then show ?thesis using degraded_reads(2) [OF assms(1) e(1) chunk_invD(2) [OF assms(2) e(1)] Some p(1) u] e(2) by simp
  qed
qed

text \<open>A store with one erasure-coded pool of three devices and one chunk in it, for the examples.\<close>

definition demo_pool :: AffinityPool where
  "demo_pool = (affinity_pool_new ''ec'' (ErasureCoding 2 1) 1000)
     \<lparr>ap_devices := map (\<lambda>n. \<lparr>pd_id = n, pd_online = True\<rparr>) [''a'', ''b'', ''c'']\<rparr>"

definition demo_chunk :: Envelope where
  "demo_chunk = \<lparr>ev_ciphertext = [10, 20], ev_auth_tag = replicate 16 7, ev_nonce = replicate 12 7, ev_system_epoch = 3,
     ev_tenant_epoch = None, ev_tenant_wrapped_material = None, ev_chunk_id = replicate 32 0\<rparr>"

definition demo_meta :: EcMeta where
  "demo_meta = \<lparr>em_data_shards = 2, em_parity_shards = 1, em_fragments = [[10], [20], [10, 20]],
     em_device_indices = [0, 2, 1], em_original_len = 2\<rparr>"

definition demo_entry :: ChunkEntry where
  "demo_entry = \<lparr>ce_envelope = demo_chunk, ce_refcount = 1, ce_retention_holds = {}, ce_pool = ''ec'',
     ce_ec = Some demo_meta, ce_stored_bytes = 4\<rparr>"

definition demo_chunks0 :: ChunkStore where
  "demo_chunks0 = add_pool demo_pool chunk_store_new"

definition demo_chunks1 :: ChunkStore where
  "demo_chunks1 = demo_chunks0\<lparr>cs_chunks := [(replicate 32 0, demo_entry)],
     cs_pools := [(''ec'', demo_pool\<lparr>ap_used_bytes := 4\<rparr>)]\<rparr>"

lemma demo_encode: "ec_encode copy_rs [10, 20] 2 1 = Ok \<lparr>ee_fragments = [[10], [20], [10, 20]],
    ee_data_shards = 2, ee_parity_shards = 1, ee_original_len = 2\<rparr>"
  by code_simp

lemma demo_place: "place_fragments (replicate 32 0) 3 (dev_infos demo_pool) = Some [0, 2, 1]"
proof -
  have on: "filter (\<lambda>i. di_online (dev_infos demo_pool ! i)) [0..<length (dev_infos demo_pool)] = [0, 1, 2]"
    by (simp add: dev_infos_def demo_pool_def upt_rec)
  have seed: "le_val (replicate 8 0) = 0" by (simp add: numeral_eq_Suc)
  have idx: "[0..<3] = [0, 1, 2]" by (simp add: upt_rec)
  show ?thesis
    by (simp add: place_fragments_def on seed idx fragment_hash_def remove_at_def Let_def)
qed

lemma demo_write: "write_chunk copy_rs demo_chunk ''ec'' demo_chunks0 = (demo_chunks1, Ok True)"
proof -
  have p: "cs_pools demo_chunks0 = [(''ec'', demo_pool)]" "cs_chunks demo_chunks0 = []"
    by (simp_all add: demo_chunks0_def add_pool_def chunk_store_new_def demo_pool_def affinity_pool_new_def)
  have d: "ap_durability demo_pool = ErasureCoding 2 1" "ap_used_bytes demo_pool = 0" "ap_capacity_bytes demo_pool = 1000"
    by (simp_all add: demo_pool_def affinity_pool_new_def)
  have c: "ev_ciphertext demo_chunk = [10, 20]" "ev_chunk_id demo_chunk = replicate 32 0" by (simp_all add: demo_chunk_def)
  have pl: "place_fragments (replicate 32 0) (Suc (Suc (Suc 0))) (dev_infos demo_pool) = Some [0, 2, 1]"
    using demo_place by (simp only: numeral_3_eq_3)
  have lay: "store_layout copy_rs demo_chunk (Some demo_pool) = Ok (4, Some demo_meta)"
    unfolding store_layout_def option.case d DurabilityStrategy.case c demo_encode bind_res.simps
    by (simp add: pl sum_u64_def u64_max_def demo_meta_def)
  show ?thesis
    by (simp add: write_chunk_def p lay c charge_pool_def d has_capacity_def available_bytes_def u64_max_def demo_chunks1_def
        demo_entry_def)
qed

lemma demo_chunks_reach:
  "reach chunk_init (chunk_step copy_rs) (demo_chunks0, \<lambda>_. 0)"
  "reach chunk_init (chunk_step copy_rs) (demo_chunks1, \<lambda>_. 0)"
proof -
  have "reach chunk_init (chunk_step copy_rs) (chunk_store_new, \<lambda>_. 0)" by (rule reach_init) (simp add: chunk_init_def)
  from reach_exec [OF this, of "CAddPool demo_pool"]
  show r: "reach chunk_init (chunk_step copy_rs) (demo_chunks0, \<lambda>_. 0)"
    by (simp add: demo_chunks0_def chunk_store_new_def demo_pool_def affinity_pool_new_def u64_max_def fun_upd_idem)
  from reach_exec [OF r, of "CWrite demo_chunk ''ec''"] show "reach chunk_init (chunk_step copy_rs) (demo_chunks1, \<lambda>_. 0)"
    by (simp add: demo_write)
qed

text \<open>C5: Reference counting and collection (I-C2). In every reachable store each command acts on a stored
  chunk exactly as the abstract life cycle says: a duplicate write and an increment add one reference,
  a decrement takes one, holds are added and released, collection removes a chunk only when it has
  neither references nor holds, and nothing else changes or removes it; the stored envelope never
  changes. A chunk that is not stored appears only by a write that reports a new chunk, with one
  reference and no holds. The collector reports exactly the number of unreferenced chunks without holds.\<close>

theorem chunk_lifecycle:
  assumes "reach chunk_init (chunk_step rs) (s, l)"
  shows "chunk_view (chunk_exec rs cmd s) c =
      (case chunk_view s c of
         Some v \<Rightarrow> life c cmd v
       | None \<Rightarrow> (case cmd of
           CWrite env pool \<Rightarrow> if ev_chunk_id env = c \<and> snd (write_chunk rs env pool s) = Ok True then Some (env, 1, {}) else None
         | _ \<Rightarrow> None)) \<and>
    snd (chunk_gc s) = card {c. \<exists>env. chunk_view s c = Some (env, 0, {})}"
  using life_step [OF chunk_invD(1) [OF assms]] gc_count [OF chunk_invD(1) [OF assms]] by simp

theorem chunk_lifecycle_witness:
  "chunk_view (chunk_exec copy_rs (CDecrement (replicate 32 0)) demo_chunks1) (replicate 32 0) = Some (demo_chunk, 0, {}) \<and>
   chunk_view (chunk_exec copy_rs CGc demo_chunks1) (replicate 32 0) = Some (demo_chunk, 1, {}) \<and> snd (chunk_gc demo_chunks1) = 0"
proof -
  have v: "chunk_view demo_chunks1 (replicate 32 0) = Some (demo_chunk, 1, {})"
    by (simp add: chunk_view_def demo_chunks1_def demo_entry_def)
  have none: "{c. \<exists>env. chunk_view demo_chunks1 c = Some (env, 0, {})} = {}"
    by (auto simp: chunk_view_def demo_chunks1_def demo_entry_def split: if_splits)
  show ?thesis
    using chunk_lifecycle [OF demo_chunks_reach(2), of "CDecrement (replicate 32 0)" "replicate 32 0"]
      chunk_lifecycle [OF demo_chunks_reach(2), of CGc "replicate 32 0"]
    unfolding v none by simp
qed

text \<open>Pool accounting. In every reachable store the bytes in use of a pool are the bytes of the chunks
  charged to it plus those of chunks that were deleted by force, and never exceed its capacity.
  Collection returns exactly the bytes of the chunks it removes.\<close>

lemma pool_accounting:
  assumes r: "reach chunk_init (chunk_step rs) (s, l)" and p: "map_of (cs_pools s) n = Some p"
  shows "ap_used_bytes p = charged n (cs_chunks s) + l n \<and> ap_used_bytes p \<le> ap_capacity_bytes p \<and>
    (\<exists>p'. map_of (cs_pools (fst (chunk_gc s))) n = Some p' \<and>
       ap_used_bytes p' + charged n (filter (\<lambda>(_, e). collectable e) (cs_chunks s)) = ap_used_bytes p)"
proof -
  note now = chunk_invD(3) [OF r p] and d = chunk_invD(1) [OF r]
  have r': "reach chunk_init (chunk_step rs) (fst (chunk_gc s), l)" using reach_exec [OF r, of CGc] by simp
  have keep: "map_of (cs_pools (gc_remove c t)) n = None \<longleftrightarrow> map_of (cs_pools t) n = None" for c t
    by (auto simp: gc_remove_def with_pool_def map_of_update split: option.splits)
  have "map_of (cs_pools (fold gc_remove ids t)) n = None \<longleftrightarrow> map_of (cs_pools t) n = None" for ids t
    by (induction ids arbitrary: t) (simp_all add: keep)
  then obtain p' where p': "map_of (cs_pools (fst (chunk_gc s))) n = Some p'"
    using p by (cases "map_of (cs_pools (fst (chunk_gc s))) n") (auto simp: chunk_gc_def Let_def)
  have "ap_used_bytes p' = charged n (filter (\<lambda>(_, e). \<not> collectable e) (cs_chunks s)) + l n"
    using chunk_invD(3) [OF r' p'] by (simp add: gc_chunks_eq [OF d])
  then show ?thesis using now p' gc_charged [OF d, of n] by auto
qed

lemma pool_accounting_example:
  "4 = charged ''ec'' (cs_chunks demo_chunks1) \<and>
   (\<exists>p'. map_of (cs_pools (fst (chunk_gc demo_chunks1))) ''ec'' = Some p' \<and> ap_used_bytes p' = 4)"
proof -
  have p: "map_of (cs_pools demo_chunks1) ''ec'' = Some (demo_pool\<lparr>ap_used_bytes := 4\<rparr>)" by (simp add: demo_chunks1_def)
  have n: "filter (\<lambda>(_, e). collectable e) (cs_chunks demo_chunks1) = []"
    by (simp add: demo_chunks1_def demo_entry_def collectable_def)
  from pool_accounting [OF demo_chunks_reach(2) p] show ?thesis unfolding n by simp
qed

text \<open>Degraded reads (I-C4). In every reachable store, whatever devices were taken offline, added or
  removed, an erasure-coded chunk whose pool is there and that has no injected fault reads back as
  exactly the envelope that was written when at most the number of parity fragments are on devices
  that are not online, and otherwise is reported lost; the same holds for the raw ciphertext.\<close>

lemma degraded_read:
  assumes "rs_laws rs" "reach chunk_init (chunk_step rs) (s, l)" "map_of (cs_chunks s) c = Some e" "ce_ec e = Some m"
    "map_of (cs_pools s) (ce_pool e) = Some p" "c \<notin> cs_unavailable s"
  shows "read_chunk rs c s = (if lost_fragments p m \<le> em_parity_shards m \<or> ev_ciphertext (ce_envelope e) = []
      then Ok (ce_envelope e) else Err ChunkLost) \<and>
    read_chunk_ec rs c s = (if lost_fragments p m \<le> em_parity_shards m \<or> ev_ciphertext (ce_envelope e) = []
      then Ok (ev_ciphertext (ce_envelope e)) else Err ChunkLost)"
  using degraded_reads [OF assms(1,3) chunk_invD(2) [OF assms(2,3)] assms(4,5)] assms(6) by blast

lemma degraded_read_example:
  "\<exists>s. s = with_pool ''ec'' (set_device_online ''a'' False) demo_chunks1 \<and> read_chunk copy_rs (replicate 32 0) s = Ok demo_chunk"
proof -
  let ?s = "with_pool ''ec'' (set_device_online ''a'' False) demo_chunks1"
  let ?p = "set_device_online ''a'' False (demo_pool\<lparr>ap_used_bytes := 4\<rparr>)"
  have r: "reach chunk_init (chunk_step copy_rs) (?s, \<lambda>_. 0)"
    using reach_exec [OF demo_chunks_reach(2), of "CDeviceOnline ''ec'' ''a'' False"] by simp
  have c: "map_of (cs_chunks ?s) (replicate 32 0) = Some demo_entry" by (simp add: demo_chunks1_def)
  have m: "ce_ec demo_entry = Some demo_meta" "ce_pool demo_entry = ''ec''" "ce_envelope demo_entry = demo_chunk"
    by (simp_all add: demo_entry_def)
  have p: "map_of (cs_pools ?s) (ce_pool demo_entry) = Some ?p" by (simp add: with_pool_def demo_chunks1_def m)
  have u: "replicate 32 0 \<notin> cs_unavailable ?s"
    by (simp add: with_pool_def demo_chunks1_def demo_chunks0_def add_pool_def chunk_store_new_def split: option.splits)
  have "lost_fragments ?p demo_meta = 1"
    by (simp add: lost_fragments_def demo_meta_def device_online_def set_device_online_def demo_pool_def numeral_2_eq_2)
  moreover have "em_parity_shards demo_meta = 1" by (simp add: demo_meta_def)
  ultimately show ?thesis using degraded_read [OF copy_rs_laws r c m(1) p u] m(3) by simp
qed

end
