(* ===== verification/Raft_Log.thy ===== *)
theory Raft_Log
  imports Small_Objects "HOL-Library.AList"
begin

text \<open>
  The durable log under every Raft group (\<^verbatim>\<open>crates/kiseki-raft/src/fjall_log_store.rs\<close>) and the in-memory one
  (\<^verbatim>\<open>log_store.rs\<close>), and the validation of membership changes (\<^verbatim>\<open>membership.rs\<close>). The
  database engine (fjall) is a record of operations over a state \<open>'d\<close>; its documented behaviour (ordered
  iteration, atomic batches, what a synchronous commit or persist makes crash-proof) is the
  hypothesis \<open>db_laws\<close>. The record codec (postcard) is a parameter with a round-trip law. The
  log store is shown to be a finite map from indices to entries on which each call that succeeds acts as a whole.
\<close>

section \<open>The database engine\<close>

datatype Ks = KsLog | KsMeta

datatype RangeEnd = Through bytes | Before bytes | Unbounded

record 'd Database =
  db_get :: "'d \<Rightarrow> Ks \<Rightarrow> bytes \<Rightarrow> (unit, bytes option) res"
  db_range :: "'d \<Rightarrow> Ks \<Rightarrow> bytes \<Rightarrow> RangeEnd \<Rightarrow> (unit, bytes \<times> bytes) res list"
  db_last :: "'d \<Rightarrow> Ks \<Rightarrow> (unit, bytes \<times> bytes) res option"
  db_len :: "'d \<Rightarrow> Ks \<Rightarrow> (unit, nat) res"
  db_commit :: "'d \<Rightarrow> PersistMode \<Rightarrow> (Ks \<times> BatchItem) list \<Rightarrow> 'd \<times> (unit, unit) res"
  db_persist :: "'d \<Rightarrow> PersistMode \<Rightarrow> 'd \<times> (unit, unit) res"

type_synonym contents = "Ks \<Rightarrow> bytes \<Rightarrow> bytes option"

fun items_apply :: "(Ks \<times> BatchItem) list \<Rightarrow> contents \<Rightarrow> contents" where
  "items_apply [] m = m"
| "items_apply ((ks, i) # b) m = items_apply b (m(ks := batch_apply [i] (m ks)))"

fun in_end :: "RangeEnd \<Rightarrow> bytes \<Rightarrow> bool" where
  "in_end (Through b) k \<longleftrightarrow> k \<le> b"
| "in_end (Before b) k \<longleftrightarrow> k < b"
| "in_end Unbounded k \<longleftrightarrow> True"

definition listing :: "(bytes \<Rightarrow> bytes option) \<Rightarrow> bytes \<Rightarrow> RangeEnd \<Rightarrow> (bytes \<times> bytes) list \<Rightarrow> bool" where
  "listing m lo hi es \<longleftrightarrow>
     sorted_wrt (<) (map fst es) \<and> (\<forall>k v. (k, v) \<in> set es \<longleftrightarrow> m k = Some v \<and> lo \<le> k \<and> in_end hi k)"

text \<open>Documented behaviour: a successful read returns the stored value; an iteration yields the keys of
  the range in order, or breaks off with an error; a batch is applied as a whole or not at all; after a
  successful synchronous commit or persist a crash loses nothing (\<open>crash d d'\<close>: a process that dies in state
  \<open>d\<close> may find \<open>d'\<close> when it opens the database again).\<close>

definition db_laws :: "'d Database \<Rightarrow> ('d \<Rightarrow> contents) \<Rightarrow> ('d \<Rightarrow> 'd \<Rightarrow> bool) \<Rightarrow> bool" where
  "db_laws db view crash \<longleftrightarrow>
     (\<forall>d ks k. db_get db d ks k \<noteq> Panic \<and> (\<forall>v. db_get db d ks k = Ok v \<longrightarrow> v = view d ks k)) \<and>
     (\<forall>d ks lo hi. \<exists>es. listing (view d ks) lo hi es \<and>
        (db_range db d ks lo hi = map Ok es \<or>
         (\<exists>n \<le> length es. db_range db d ks lo hi = map Ok (take n es) @ [Err ()]))) \<and>
     (\<forall>d ks. \<exists>es. listing (view d ks) [] Unbounded es \<and>
        (db_last db d ks = (if es = [] then None else Some (Ok (last es))) \<or> es \<noteq> [] \<and> db_last db d ks = Some (Err ()))) \<and>
     (\<forall>d ks. db_len db d ks \<noteq> Panic \<and> (\<forall>n. db_len db d ks = Ok n \<longrightarrow> n = card (dom (view d ks)))) \<and>
     (\<forall>d p b d' r. db_commit db d p b = (d', r) \<longrightarrow> r \<noteq> Panic \<and>
        view d' = (if r = Ok () then items_apply b (view d) else view d) \<and>
        (r = Ok () \<and> p = SyncAll \<longrightarrow> (\<forall>d''. crash d' d'' \<longrightarrow> view d'' = view d'))) \<and>
     (\<forall>d p d' r. db_persist db d p = (d', r) \<longrightarrow> r \<noteq> Panic \<and> view d' = view d \<and>
        (r = Ok () \<and> p = SyncAll \<longrightarrow> (\<forall>d''. crash d' d'' \<longrightarrow> view d'' = view d')))"

section \<open>Records\<close>

datatype IoError = IoOther | InvalidData

record 'e Codec =
  cd_to_stdvec :: "'e \<Rightarrow> bytes option"
  cd_from_bytes :: "bytes \<Rightarrow> 'e option"

definition codec_laws :: "'e Codec \<Rightarrow> bool" where
  "codec_laws c \<longleftrightarrow> (\<forall>e b. cd_to_stdvec c e = Some b \<longrightarrow> cd_from_bytes c b = Some e)"

definition RECORD_SCHEMA_VERSION :: u8 where
  "RECORD_SCHEMA_VERSION = 1"

definition rec_encode :: "'e Codec \<Rightarrow> 'e \<Rightarrow> (IoError, bytes) res" where
  "rec_encode c value =
     bind_res (ok_or IoOther (cd_to_stdvec c value)) (\<lambda>payload. Ok (RECORD_SCHEMA_VERSION # payload))"

definition rec_decode :: "'e Codec \<Rightarrow> bytes \<Rightarrow> (IoError, 'e) res" where
  "rec_decode c bs =
     (case bs of
        [] \<Rightarrow> Err InvalidData
      | version # payload \<Rightarrow>
          if version > RECORD_SCHEMA_VERSION then Err InvalidData
          else ok_or InvalidData (cd_from_bytes c payload))"

text \<open>\<^verbatim>\<open>u64::to_be_bytes\<close>; its inverse is \<open>be_val\<close>.\<close>

definition be64_bytes :: "nat \<Rightarrow> bytes" where
  "be64_bytes n = rev (le_bytes 8 n)"

section \<open>The log store\<close>

record 'd FjallLogStore =
  fl_db :: 'd
  fl_sync_per_write :: bool
  fl_coalescer :: bool

definition fjall_log_open :: "(unit, 'd) res \<Rightarrow> (IoError, 'd FjallLogStore) res" where
  "fjall_log_open opened =
     bind_res (map_err (\<lambda>_. IoOther) opened) (\<lambda>db. Ok \<lparr>fl_db = db, fl_sync_per_write = True, fl_coalescer = False\<rparr>)"

definition with_eventual_durability :: "bool \<Rightarrow> 'd FjallLogStore \<Rightarrow> 'd FjallLogStore" where
  "with_eventual_durability eventual s = s\<lparr>fl_sync_per_write := \<not> eventual\<rparr>"

definition with_fsync_coalescing :: "'d FjallLogStore \<Rightarrow> 'd FjallLogStore" where
  "with_fsync_coalescing s = s\<lparr>fl_coalescer := True\<rparr>"

definition commit_mode :: "'d FjallLogStore \<Rightarrow> PersistMode" where
  "commit_mode s = (if fl_coalescer s \<or> \<not> fl_sync_per_write s then Buffer else SyncAll)"

definition commit_items ::
    "'d Database \<Rightarrow> (Ks \<times> BatchItem) list \<Rightarrow> 'd FjallLogStore \<Rightarrow> 'd FjallLogStore \<times> (IoError, unit) res" where
  "commit_items db b s =
     (let (d, r) = db_commit db (fl_db s) (commit_mode s) b in (s\<lparr>fl_db := d\<rparr>, map_err (\<lambda>_. IoOther) r))"

definition log_flush :: "'d Database \<Rightarrow> 'd FjallLogStore \<Rightarrow> 'd FjallLogStore \<times> (IoError, unit) res" where
  "log_flush db s =
     (let (d, r) = db_persist db (fl_db s) SyncAll in (s\<lparr>fl_db := d\<rparr>, map_err (\<lambda>_. IoOther) r))"

text \<open>The coalescer's merged fsync is one synchronous persist that begins after the caller has joined
  (theory \<open>Fsync_Coalescer\<close>).\<close>

definition fsync_barrier :: "'d Database \<Rightarrow> 'd FjallLogStore \<Rightarrow> 'd FjallLogStore \<times> (IoError, unit) res" where
  "fsync_barrier db s =
     (if fl_coalescer s then log_flush db s
      else if fl_sync_per_write s then (s, Ok ())
      else log_flush db s)"

definition log_append ::
    "'e Codec \<Rightarrow> 'd Database \<Rightarrow> nat \<Rightarrow> 'e \<Rightarrow> 'd FjallLogStore \<Rightarrow> 'd FjallLogStore \<times> (IoError, unit) res" where
  "log_append c db index entry s =
     bind_st (s, rec_encode c entry) (\<lambda>s bytes. commit_items db [(KsLog, BInsert (be64_bytes index) bytes)] s)"

fun encode_all :: "'e Codec \<Rightarrow> (nat \<times> 'e) list \<Rightarrow> (IoError, (nat \<times> bytes) list) res" where
  "encode_all c [] = Ok []"
| "encode_all c ((index, entry) # es) =
     bind_res (rec_encode c entry) (\<lambda>bytes. bind_res (encode_all c es) (\<lambda>r. Ok ((index, bytes) # r)))"

definition append_batch ::
    "'e Codec \<Rightarrow> 'd Database \<Rightarrow> (nat \<times> 'e) list \<Rightarrow> 'd FjallLogStore \<Rightarrow>
       'd FjallLogStore \<times> (IoError, (nat \<times> nat) list) res" where
  "append_batch c db entries s =
     bind_st (s, encode_all c entries) (\<lambda>s recs.
       let sizes = map (\<lambda>(index, bytes). (index, length bytes)) recs in
       if sizes = [] then (s, Ok sizes)
       else bind_st (commit_items db (map (\<lambda>(index, bytes). (KsLog, BInsert (be64_bytes index) bytes)) recs) s) (\<lambda>s _.
              (s, Ok sizes)))"

definition log_get :: "'e Codec \<Rightarrow> 'd Database \<Rightarrow> nat \<Rightarrow> 'd FjallLogStore \<Rightarrow> (IoError, 'e option) res" where
  "log_get c db index s =
     bind_res (map_err (\<lambda>_. IoOther) (db_get db (fl_db s) KsLog (be64_bytes index))) (\<lambda>v.
       case v of
         Some bs \<Rightarrow> bind_res (rec_decode c bs) (\<lambda>e. Ok (Some e))
       | None \<Rightarrow> Ok None)"

fun collect_range :: "'e Codec \<Rightarrow> (unit, bytes \<times> bytes) res list \<Rightarrow> (IoError, (nat \<times> 'e) list) res" where
  "collect_range c [] = Ok []"
| "collect_range c (Panic # es) = Panic"
| "collect_range c (Err e # es) = Err IoOther"
| "collect_range c (Ok (k, v) # es) =
     (if length k \<noteq> 8 then collect_range c es
      else bind_res (rec_decode c v) (\<lambda>e. bind_res (collect_range c es) (\<lambda>r. Ok ((be_val k, e) # r))))"

definition log_range ::
    "'e Codec \<Rightarrow> 'd Database \<Rightarrow> nat \<Rightarrow> nat \<Rightarrow> 'd FjallLogStore \<Rightarrow> (IoError, (nat \<times> 'e) list) res" where
  "log_range c db from to s = collect_range c (db_range db (fl_db s) KsLog (be64_bytes from) (Through (be64_bytes to)))"

fun collect_budgeted ::
    "'e Codec \<Rightarrow> nat \<Rightarrow> nat \<Rightarrow> bool \<Rightarrow> (unit, bytes \<times> bytes) res list \<Rightarrow> (IoError, (nat \<times> 'e \<times> nat) list) res" where
  "collect_budgeted c budget used first [] = Ok []"
| "collect_budgeted c budget used first (Panic # es) = Panic"
| "collect_budgeted c budget used first (Err e # es) = Err IoOther"
| "collect_budgeted c budget used first (Ok (k, v) # es) =
     (if length k \<noteq> 8 then collect_budgeted c budget used first es
      else
        let size = length v in
        if \<not> first \<and> min (used + size) u64_max > budget then Ok []
        else bind_res (rec_decode c v) (\<lambda>e.
          let used = min (used + size) u64_max in
          if used > budget then Ok [(be_val k, e, size)]
          else bind_res (collect_budgeted c budget used False es) (\<lambda>r. Ok ((be_val k, e, size) # r))))"

definition range_budgeted ::
    "'e Codec \<Rightarrow> 'd Database \<Rightarrow> nat \<Rightarrow> nat \<Rightarrow> nat \<Rightarrow> 'd FjallLogStore \<Rightarrow> (IoError, (nat \<times> 'e \<times> nat) list) res" where
  "range_budgeted c db from to byte_budget s =
     collect_budgeted c byte_budget 0 True (db_range db (fl_db s) KsLog (be64_bytes from) (Through (be64_bytes to)))"

fun collect_keys :: "(unit, bytes \<times> bytes) res list \<Rightarrow> (IoError, bytes list) res" where
  "collect_keys [] = Ok []"
| "collect_keys (Panic # es) = Panic"
| "collect_keys (Err e # es) = Err IoOther"
| "collect_keys (Ok (k, v) # es) = bind_res (collect_keys es) (\<lambda>ks. Ok (k # ks))"

definition remove_keys ::
    "'d Database \<Rightarrow> (unit, bytes \<times> bytes) res list \<Rightarrow> 'd FjallLogStore \<Rightarrow> 'd FjallLogStore \<times> (IoError, nat) res" where
  "remove_keys db es s =
     bind_st (s, collect_keys es) (\<lambda>s keys.
       if keys = [] then (s, Ok 0)
       else bind_st (commit_items db (map (\<lambda>k. (KsLog, BRemove k)) keys) s) (\<lambda>s _. (s, Ok (length keys))))"

definition truncate_before ::
    "'d Database \<Rightarrow> nat \<Rightarrow> 'd FjallLogStore \<Rightarrow> 'd FjallLogStore \<times> (IoError, nat) res" where
  "truncate_before db before s = remove_keys db (db_range db (fl_db s) KsLog [] (Before (be64_bytes before))) s"

definition truncate_after ::
    "'d Database \<Rightarrow> nat \<Rightarrow> 'd FjallLogStore \<Rightarrow> 'd FjallLogStore \<times> (IoError, nat) res" where
  "truncate_after db after s =
     remove_keys db (db_range db (fl_db s) KsLog (be64_bytes (min (after + 1) u64_max)) Unbounded) s"

definition set_meta ::
    "'e Codec \<Rightarrow> 'd Database \<Rightarrow> bytes \<Rightarrow> 'e \<Rightarrow> 'd FjallLogStore \<Rightarrow> 'd FjallLogStore \<times> (IoError, unit) res" where
  "set_meta c db key value s =
     bind_st (s, rec_encode c value) (\<lambda>s bytes. commit_items db [(KsMeta, BInsert key bytes)] s)"

definition get_meta :: "'e Codec \<Rightarrow> 'd Database \<Rightarrow> bytes \<Rightarrow> 'd FjallLogStore \<Rightarrow> (IoError, 'e option) res" where
  "get_meta c db key s =
     bind_res (map_err (\<lambda>_. IoOther) (db_get db (fl_db s) KsMeta key)) (\<lambda>v.
       case v of
         Some bs \<Rightarrow> bind_res (rec_decode c bs) (\<lambda>e. Ok (Some e))
       | None \<Rightarrow> Ok None)"

definition meta_exists :: "'d Database \<Rightarrow> bytes \<Rightarrow> 'd FjallLogStore \<Rightarrow> (IoError, bool) res" where
  "meta_exists db key s =
     bind_res (map_err (\<lambda>_. IoOther) (db_get db (fl_db s) KsMeta key)) (\<lambda>v. Ok (v \<noteq> None))"

definition last_index :: "'d Database \<Rightarrow> 'd FjallLogStore \<Rightarrow> (IoError, nat option) res" where
  "last_index db s =
     (case db_last db (fl_db s) KsLog of
        None \<Rightarrow> Ok None
      | Some guard \<Rightarrow>
          bind_res (map_err (\<lambda>_. IoOther) guard) (\<lambda>(k, v). Ok (if length k \<noteq> 8 then None else Some (be_val k))))"

definition log_len :: "'d Database \<Rightarrow> 'd FjallLogStore \<Rightarrow> (IoError, nat) res" where
  "log_len db s = map_err (\<lambda>_. IoOther) (db_len db (fl_db s) KsLog)"

definition log_is_empty :: "'d Database \<Rightarrow> 'd FjallLogStore \<Rightarrow> (IoError, bool) res" where
  "log_is_empty db s = bind_res (map_err (\<lambda>_. IoOther) (db_len db (fl_db s) KsLog)) (\<lambda>n. Ok (n = 0))"

section \<open>Big-endian keys are ordered like the indices\<close>

lemma length_be64 [simp]: "length (be64_bytes n) = 8"
  by (simp add: be64_bytes_def)

lemma be_val_be64 [simp]: "n \<le> u64_max \<Longrightarrow> be_val (be64_bytes n) = n"
  by (simp add: be64_bytes_def be_val_rev le_val_le_bytes u64_max_val)

lemma be64_bound: "length k = 8 \<Longrightarrow> be_val k \<le> u64_max"
  using be_val_bound [of k] by (simp add: u64_max_val)

lemma be64_be_val: "length k = 8 \<Longrightarrow> be64_bytes (be_val k) = k"
  by (metis be_val_be64 be64_bound be_val_inj length_be64)

lemma be64_inj: "m \<le> u64_max \<Longrightarrow> n \<le> u64_max \<Longrightarrow> be64_bytes m = be64_bytes n \<longleftrightarrow> m = n"
  by (metis be_val_be64)

section \<open>The log as a map from indices to entries\<close>

lemma rec_roundtrip: "codec_laws c \<Longrightarrow> rec_encode c e = Ok b \<Longrightarrow> rec_decode c b = Ok e"
  by (auto simp: rec_encode_def rec_decode_def codec_laws_def RECORD_SCHEMA_VERSION_def)

text \<open>Keys are eight bytes long and records decode. An entry carries the length of its record.\<close>

definition log_wf :: "'e Codec \<Rightarrow> contents \<Rightarrow> bool" where
  "log_wf c m \<longleftrightarrow> (\<forall>k v. m KsLog k = Some v \<longrightarrow> length k = 8 \<and> (\<exists>e. rec_decode c v = Ok e))"

definition sized :: "'e Codec \<Rightarrow> bytes \<Rightarrow> ('e \<times> nat) option" where
  "sized c v = (case rec_decode c v of Ok e \<Rightarrow> Some (e, length v) | _ \<Rightarrow> None)"

definition log_map :: "'e Codec \<Rightarrow> contents \<Rightarrow> nat \<Rightarrow> ('e \<times> nat) option" where
  "log_map c m i = (if i \<le> u64_max then Option.bind (m KsLog (be64_bytes i)) (sized c) else None)"

lemma log_map_val: "length k = 8 \<Longrightarrow> log_map c m (be_val k) = Option.bind (m KsLog k) (sized c)"
  by (simp add: log_map_def be64_bound be64_be_val)

lemma db_commitD:
  assumes "db_laws db view crash" "commit_items db b s = (s', r)"
  shows "r \<noteq> Panic" "r = Ok () \<Longrightarrow> view (fl_db s') = items_apply b (view (fl_db s))"
    "r \<noteq> Ok () \<Longrightarrow> view (fl_db s') = view (fl_db s)"
    "r = Ok () \<Longrightarrow> commit_mode s = SyncAll \<Longrightarrow> crash (fl_db s') d \<Longrightarrow> view d = view (fl_db s')"
    "fl_sync_per_write s' = fl_sync_per_write s" "fl_coalescer s' = fl_coalescer s"
proof -
  obtain d1 r1 where c: "db_commit db (fl_db s) (commit_mode s) b = (d1, r1)" by fastforce
  note s' = assms(2) [unfolded commit_items_def c Let_def prod.case]
  have l: "r1 \<noteq> Panic" "view d1 = (if r1 = Ok () then items_apply b (view (fl_db s)) else view (fl_db s))"
    "r1 = Ok () \<Longrightarrow> commit_mode s = SyncAll \<Longrightarrow> crash d1 d \<Longrightarrow> view d = view d1"
    using assms(1) c unfolding db_laws_def by blast+
  show "r \<noteq> Panic" "r = Ok () \<Longrightarrow> view (fl_db s') = items_apply b (view (fl_db s))"
    "r \<noteq> Ok () \<Longrightarrow> view (fl_db s') = view (fl_db s)"
    "r = Ok () \<Longrightarrow> commit_mode s = SyncAll \<Longrightarrow> crash (fl_db s') d \<Longrightarrow> view d = view (fl_db s')"
    "fl_sync_per_write s' = fl_sync_per_write s" "fl_coalescer s' = fl_coalescer s"
    using s' l by (cases r1; auto)+
qed

definition write_rec :: "nat \<Rightarrow> bytes \<Rightarrow> contents \<Rightarrow> contents" where
  "write_rec i b m = m(KsLog := (m KsLog)(be64_bytes i \<mapsto> b))"

fun write_recs :: "(nat \<times> bytes) list \<Rightarrow> contents \<Rightarrow> contents" where
  "write_recs [] m = m"
| "write_recs ((i, b) # recs) m = write_recs recs (write_rec i b m)"

lemma items_insert: "items_apply (map (\<lambda>(i, b). (KsLog, BInsert (be64_bytes i) b)) recs) m = write_recs recs m"
proof (induction recs arbitrary: m)
  case Nil
  then show ?case by simp
next
  case (Cons p recs)
  obtain i b where p: "p = (i, b)" by fastforce
  have "items_apply ((KsLog, BInsert (be64_bytes i) b) # r) m = items_apply r (write_rec i b m)" for r
    by (simp add: write_rec_def)
  then show ?case by (simp add: p Cons.IH del: items_apply.simps)
qed

lemma items_remove:
  "items_apply (map (\<lambda>k. (KsLog, BRemove k)) ks) m = m(KsLog := (\<lambda>k. if k \<in> set ks then None else m KsLog k))"
  by (induction ks arbitrary: m) (auto simp: fun_eq_iff)

text \<open>Writing a record at an index.\<close>

definition put_entry :: "nat \<times> 'e \<times> nat \<Rightarrow> (nat \<Rightarrow> ('e \<times> nat) option) \<Rightarrow> nat \<Rightarrow> ('e \<times> nat) option" where
  "put_entry p m = m(fst p \<mapsto> snd p)"

lemma log_map_insert:
  assumes "i \<le> u64_max" "rec_decode c b = Ok e"
  shows "log_map c (write_rec i b m) = put_entry (i, e, length b) (log_map c m)"
  using assms by (auto simp: log_map_def put_entry_def write_rec_def fun_eq_iff be64_inj sized_def)

lemma log_wf_insert: "log_wf c m \<Longrightarrow> rec_decode c b = Ok e \<Longrightarrow> log_wf c (write_rec i b m)"
  by (auto simp: log_wf_def write_rec_def)

lemma write_recs_map:
  assumes "codec_laws c"
  shows "encode_all c es = Ok recs \<Longrightarrow> list_all (\<lambda>(i, e). i \<le> u64_max) es \<Longrightarrow> log_wf c m \<Longrightarrow>
    map fst recs = map fst es \<and> log_wf c (write_recs recs m) \<and>
    log_map c (write_recs recs m)
      = fold put_entry (map2 (\<lambda>(i, e) (j, b). (i, e, length b)) es recs) (log_map c m)"
proof (induction es arbitrary: recs m)
  case Nil
  then show ?case by simp
next
  case (Cons p es)
  obtain i e where p: "p = (i, e)" by fastforce
  obtain b recs' where b: "rec_encode c e = Ok b" and recs': "encode_all c es = Ok recs'" and recs: "recs = (i, b) # recs'"
    using Cons.prems(1) by (auto simp: p)
  have d: "rec_decode c b = Ok e" by (rule rec_roundtrip [OF assms b])
  from Cons.IH [OF recs' _ log_wf_insert [OF Cons.prems(3) d, of i]] Cons.prems(2)
  show ?case by (simp add: recs p log_map_insert [OF _ d])
qed

lemma append_batch_cases:
  assumes "db_laws db view crash" "append_batch c db es s = (s', r)"
  shows "r \<noteq> Panic" "\<not> is_ok r \<Longrightarrow> view (fl_db s') = view (fl_db s)"
    "r = Ok sizes \<Longrightarrow> \<exists>recs. encode_all c es = Ok recs \<and> sizes = map (\<lambda>(i, b). (i, length b)) recs \<and>
       view (fl_db s') = write_recs recs (view (fl_db s))"
    "fl_sync_per_write s' = fl_sync_per_write s" "fl_coalescer s' = fl_coalescer s"
proof -
  have e: "encode_all c es \<noteq> Panic"
  proof (induction es)
    case (Cons p es)
    then show ?case by (cases p; cases "cd_to_stdvec c (snd p)"; cases "encode_all c es") (simp_all add: rec_encode_def)
  qed simp
  have "r \<noteq> Panic \<and> (\<not> is_ok r \<longrightarrow> view (fl_db s') = view (fl_db s)) \<and>
    (r = Ok sizes \<longrightarrow> (\<exists>recs. encode_all c es = Ok recs \<and> sizes = map (\<lambda>(i, b). (i, length b)) recs \<and>
       view (fl_db s') = write_recs recs (view (fl_db s)))) \<and>
    fl_sync_per_write s' = fl_sync_per_write s \<and> fl_coalescer s' = fl_coalescer s"
  proof (cases "encode_all c es")
    case (Ok recs)
    show ?thesis
    proof (cases "recs = []")
      case True
      then show ?thesis using assms(2) Ok by (auto simp: append_batch_def)
    next
      case False
      obtain s1 r1 where k: "commit_items db (map (\<lambda>(i, b). (KsLog, BInsert (be64_bytes i) b)) recs) s = (s1, r1)"
        by fastforce
      note cd = db_commitD [OF assms(1) k, unfolded items_insert]
      show ?thesis using assms(2) Ok False k cd(1-3,5,6) by (cases r1) (auto simp: append_batch_def)
    qed
  qed (use assms(2) e in \<open>auto simp: append_batch_def\<close>)
  then show "r \<noteq> Panic" "\<not> is_ok r \<Longrightarrow> view (fl_db s') = view (fl_db s)"
    "r = Ok sizes \<Longrightarrow> \<exists>recs. encode_all c es = Ok recs \<and> sizes = map (\<lambda>(i, b). (i, length b)) recs \<and>
       view (fl_db s') = write_recs recs (view (fl_db s))"
    "fl_sync_per_write s' = fl_sync_per_write s" "fl_coalescer s' = fl_coalescer s"
    by simp_all
qed

text \<open>Iterations of the log keyspace.\<close>

definition entry_of :: "'e Codec \<Rightarrow> bytes \<times> bytes \<Rightarrow> nat \<times> 'e \<times> nat" where
  "entry_of c kv = (be_val (fst kv), the (sized c (snd kv)))"

definition rows_ok :: "'e Codec \<Rightarrow> (bytes \<times> bytes) list \<Rightarrow> bool" where
  "rows_ok c es \<longleftrightarrow> list_all (\<lambda>(k, v). length k = 8 \<and> (\<exists>e. rec_decode c v = Ok e)) es"

lemma listing_ok: "log_wf c m \<Longrightarrow> listing (m KsLog) lo hi es \<Longrightarrow> rows_ok c es"
  by (auto simp: rows_ok_def list_all_iff log_wf_def listing_def)

lemma entry_of_simp: "rec_decode c v = Ok e \<Longrightarrow> entry_of c (k, v) = (be_val k, e, length v)"
  by (simp add: entry_of_def sized_def)

lemma collect_range_ok:
  assumes "rows_ok c es"
  shows "collect_range c (map Ok es) = Ok (map (\<lambda>kv. let (i, e, n) = entry_of c kv in (i, e)) es)"
    "collect_range c (map Ok es @ [Err ()]) = Err IoOther"
  using assms by (induction es) (auto simp: rows_ok_def entry_of_simp Let_def)

lemma collect_keys_ok:
  "collect_keys (map Ok es) = Ok (map fst es)" "collect_keys (map Ok es @ [Err ()]) = Err IoOther"
  by (induction es) auto

text \<open>The budget: the longest prefix that fits, and never nothing.\<close>

fun budget_prefix :: "nat \<Rightarrow> nat \<Rightarrow> bool \<Rightarrow> (nat \<times> 'e \<times> nat) list \<Rightarrow> (nat \<times> 'e \<times> nat) list" where
  "budget_prefix budget used first [] = []"
| "budget_prefix budget used first ((i, e, n) # es) =
     (if \<not> first \<and> min (used + n) u64_max > budget then []
      else if min (used + n) u64_max > budget then [(i, e, n)]
      else (i, e, n) # budget_prefix budget (min (used + n) u64_max) False es)"

lemma collect_budgeted_step:
  assumes "length k = 8" "rec_decode c v = Ok e"
  shows "collect_budgeted c budget used first (Ok (k, v) # es) =
    (let u = min (used + length v) u64_max in
     if \<not> first \<and> u > budget then Ok []
     else if u > budget then Ok [entry_of c (k, v)]
     else bind_res (collect_budgeted c budget u False es) (\<lambda>r. Ok (entry_of c (k, v) # r)))"
  using assms by (simp add: entry_of_simp Let_def del: min_less_iff_conj)

lemma budget_prefix_step:
  "budget_prefix budget used first (x # es) =
    (let u = min (used + snd (snd x)) u64_max in
     if \<not> first \<and> u > budget then []
     else if u > budget then [x]
     else x # budget_prefix budget u False es)"
  by (cases x) (simp add: Let_def)

lemma collect_budgeted_ok:
  assumes "rows_ok c es"
  shows "collect_budgeted c budget used first (map Ok es) = Ok (budget_prefix budget used first (map (entry_of c) es))
    \<and> collect_budgeted c budget used first (map Ok es @ [Err ()])
       \<in> {Err IoOther, Ok (budget_prefix budget used first (map (entry_of c) es))}"
  using assms
proof (induction es arbitrary: used first)
  case (Cons kv es)
  obtain k v where kv: "kv = (k, v)" by fastforce
  obtain e where e: "length k = 8" "rec_decode c v = Ok e" using Cons.prems by (auto simp: rows_ok_def kv)
  have "rows_ok c es" using Cons.prems by (simp add: rows_ok_def)
  note IH = Cons.IH [OF this, of "min (used + length v) u64_max" False]
  show ?case using IH
    by (auto simp: kv collect_budgeted_step [OF e] budget_prefix_step entry_of_simp [OF e(2)] Let_def
        simp del: min_less_iff_conj collect_budgeted.simps budget_prefix.simps)
qed simp

text \<open>A range read that breaks off may still fill the budget; then the unread rest does not matter.\<close>

lemma collect_budgeted_cut:
  assumes "rows_ok c es" "collect_budgeted c budget used first (map Ok es @ [Err ()]) = Ok xs"
  shows "xs = budget_prefix budget used first (map (entry_of c) es @ ys)"
  using assms
proof (induction es arbitrary: used first xs)
  case (Cons kv es)
  obtain k v where kv: "kv = (k, v)" by fastforce
  obtain e where e: "length k = 8" "rec_decode c v = Ok e" using Cons.prems by (auto simp: rows_ok_def kv)
  have r: "rows_ok c es" using Cons.prems by (simp add: rows_ok_def)
  show ?case using Cons.prems(2) Cons.IH [OF r, of "min (used + length v) u64_max" False]
    by (auto simp: kv collect_budgeted_step [OF e] budget_prefix_step entry_of_simp [OF e(2)] Let_def
        simp del: min_less_iff_conj collect_budgeted.simps budget_prefix.simps split: if_splits)
qed simp

lemma budget_prefix_prefix: "\<exists>k. budget_prefix budget used first es = take k es"
proof (induction es arbitrary: used first)
  case (Cons x es)
  obtain i e n where x: "x = (i, e, n)" by (cases x)
  obtain k where k: "budget_prefix budget (min (used + n) u64_max) False es = take k es" using Cons by blast
  consider "\<not> first \<and> min (used + n) u64_max > budget" | "first \<and> min (used + n) u64_max > budget"
    | "\<not> min (used + n) u64_max > budget" by blast
  then show ?case
  proof cases
    case 1
    then have "budget_prefix budget used first (x # es) = take 0 (x # es)" by (simp add: x)
    then show ?thesis by blast
  next
    case 2
    then have "budget_prefix budget used first (x # es) = take 1 (x # es)" by (simp add: x)
    then show ?thesis by blast
  next
    case 3
    then have "budget_prefix budget used first (x # es) = take (Suc k) (x # es)" by (simp add: x k del: min_less_iff_conj)
    then show ?thesis by blast
  qed
qed simp

lemma budget_prefix_nonempty: "es \<noteq> [] \<Longrightarrow> budget_prefix budget used True es \<noteq> []"
  by (cases es) (auto split: if_splits)

lemma budget_prefix_rest:
  "budget < u64_max \<Longrightarrow> used \<le> budget \<Longrightarrow>
     used + sum_list (map (\<lambda>(i, e, n). n) (budget_prefix budget used False es)) \<le> budget"
proof (induction es arbitrary: used)
  case (Cons x es)
  obtain i e n where x: "x = (i, e, n)" by (cases x)
  show ?case
  proof (cases "min (used + n) u64_max > budget")
    case False
    then have "min (used + n) u64_max = used + n" "used + n \<le> budget" using Cons.prems(1) by (auto simp: min_def split: if_splits)
    then show ?thesis using Cons.IH [OF Cons.prems(1), of "used + n"] False by (simp add: x)
  qed (use Cons.prems in \<open>simp add: x\<close>)
qed simp

lemma budget_prefix_fits:
  assumes "budget < u64_max"
  shows "sum_list (map (\<lambda>(i, e, n). n) (budget_prefix budget 0 True es)) \<le> budget
    \<or> length (budget_prefix budget 0 True es) = 1"
proof (cases es)
  case (Cons x xs)
  obtain i e n where x: "x = (i, e, n)" by (cases x)
  show ?thesis
  proof (cases "min n u64_max > budget")
    case False
    then have "min n u64_max = n" "n \<le> budget" using assms by (auto simp: min_def split: if_splits)
    then show ?thesis using budget_prefix_rest [OF assms, of n xs] False by (simp add: Cons x)
  qed (simp add: Cons x)
qed simp

text \<open>Everything stored between two indices, in order.\<close>

definition log_slice :: "'e Codec \<Rightarrow> contents \<Rightarrow> nat \<Rightarrow> nat \<Rightarrow> (nat \<times> 'e \<times> nat) list \<Rightarrow> bool" where
  "log_slice c m from to xs \<longleftrightarrow>
     sorted_wrt (<) (map fst xs) \<and> (\<forall>i p. (i, p) \<in> set xs \<longleftrightarrow> log_map c m i = Some p \<and> from \<le> i \<and> i \<le> to)"

lemma listing_slice:
  assumes "log_wf c m" "from \<le> u64_max" "to \<le> u64_max"
    and "listing (m KsLog) (be64_bytes from) (Through (be64_bytes to)) es"
  shows "log_slice c m from to (map (entry_of c) es)"
proof -
  note ok = listing_ok [OF assms(1,4)]
  have le: "a \<le> b \<longleftrightarrow> be_val a \<le> be_val b" if "length a = 8" "length b = 8" for a b :: bytes
    using that by (simp add: be_val_le_iff)
  have mem: "(i, p) \<in> set (map (entry_of c) es) \<longleftrightarrow> log_map c m i = Some p \<and> from \<le> i \<and> i \<le> to" for i p
  proof
    assume "(i, p) \<in> set (map (entry_of c) es)"
    then obtain k v where kv: "(k, v) \<in> set es" "i = be_val k" "p = the (sized c v)" by (auto simp: entry_of_def)
    then have m: "m KsLog k = Some v" "be64_bytes from \<le> k" "k \<le> be64_bytes to" using assms(4) by (auto simp: listing_def)
    then obtain e where "length k = 8" "rec_decode c v = Ok e" using assms(1) by (auto simp: log_wf_def)
    then show "log_map c m i = Some p \<and> from \<le> i \<and> i \<le> to"
      using kv m assms(2,3) by (simp add: log_map_val sized_def le)
  next
    assume r: "log_map c m i = Some p \<and> from \<le> i \<and> i \<le> to"
    then obtain v where v: "m KsLog (be64_bytes i) = Some v" "sized c v = Some p" "i \<le> u64_max"
      by (auto simp: log_map_def Option.bind_eq_Some_conv split: if_splits)
    then have "(be64_bytes i, v) \<in> set es" using assms r by (simp add: listing_def le)
    then have "entry_of c (be64_bytes i, v) \<in> set (map (entry_of c) es)" by simp
    then show "(i, p) \<in> set (map (entry_of c) es)" using v by (simp add: entry_of_def)
  qed
  have "sorted_wrt (<) (map be_val (map fst es))"
  proof -
    have "sorted_wrt (\<lambda>a b. be_val a < be_val b) (map fst es)"
    proof (rule sorted_wrt_mono_rel)
      show "sorted_wrt (<) (map fst es)" using assms(4) by (simp add: listing_def)
      show "be_val a < be_val b" if "a \<in> set (map fst es)" "b \<in> set (map fst es)" "a < b" for a b
      proof -
        have "length a = 8" "length b = 8" using that(1,2) ok by (auto simp: rows_ok_def list_all_iff)
        then show ?thesis using that(3) by (simp add: be_val_less_iff)
      qed
    qed
    then show ?thesis by (simp add: sorted_wrt_map)
  qed
  then have "sorted_wrt (<) (map fst (map (entry_of c) es))" by (simp add: entry_of_def o_def)
  then show ?thesis using mem by (simp add: log_slice_def)
qed

section \<open>What each operation does\<close>

lemma db_rangeD:
  assumes "db_laws db view crash"
  obtains es where "listing (view d ks) lo hi es" "db_range db d ks lo hi = map Ok es"
  | es fs where "listing (view d ks) lo hi (es @ fs)" "db_range db d ks lo hi = map Ok es @ [Err ()]"
proof -
  obtain es where es: "listing (view d ks) lo hi es"
    "db_range db d ks lo hi = map Ok es \<or> (\<exists>n \<le> length es. db_range db d ks lo hi = map Ok (take n es) @ [Err ()])"
    using assms unfolding db_laws_def by meson
  from es(2) show thesis
  proof
    assume "db_range db d ks lo hi = map Ok es"
    then show thesis using es that(1) by blast
  next
    assume "\<exists>n \<le> length es. db_range db d ks lo hi = map Ok (take n es) @ [Err ()]"
    then show thesis using that(2) es(1) by (metis append_take_drop_id)
  qed
qed

lemma log_range_slice:
  assumes "db_laws db view crash" "log_wf c (view (fl_db s))" "from \<le> u64_max" "to \<le> u64_max"
    and "log_range c db from to s = Ok xs"
  shows "\<exists>ys. log_slice c (view (fl_db s)) from to ys \<and> xs = map (\<lambda>(i, e, n). (i, e)) ys"
proof (cases rule: db_rangeD [OF assms(1), where d = "fl_db s" and ks = KsLog and lo = "be64_bytes from"
      and hi = "Through (be64_bytes to)"])
  case (1 es)
  note ok = listing_ok [OF assms(2) 1(1)]
  have "xs = map (\<lambda>(i, e, n). (i, e)) (map (entry_of c) es)"
    using assms(5) collect_range_ok(1) [OF ok] by (simp add: log_range_def 1(2) Let_def o_def)
  then show ?thesis using listing_slice [OF assms(2-4) 1(1)] by blast
next
  case (2 es fs)
  have "rows_ok c es" using listing_ok [OF assms(2) 2(1)] by (simp add: rows_ok_def)
  then show ?thesis using assms(5) collect_range_ok(2) [of c es] by (simp add: log_range_def 2(2))
qed

lemma range_budgeted_prefix:
  assumes "db_laws db view crash" "log_wf c (view (fl_db s))" "from \<le> u64_max" "to \<le> u64_max"
    and "range_budgeted c db from to budget s = Ok xs"
  shows "\<exists>ys. log_slice c (view (fl_db s)) from to ys \<and> xs = budget_prefix budget 0 True ys"
proof (cases rule: db_rangeD [OF assms(1), where d = "fl_db s" and ks = KsLog and lo = "be64_bytes from"
      and hi = "Through (be64_bytes to)"])
  case (1 es)
  have "xs = budget_prefix budget 0 True (map (entry_of c) es)"
    using assms(5) collect_budgeted_ok [OF listing_ok [OF assms(2) 1(1)]] by (simp add: range_budgeted_def 1(2))
  then show ?thesis using listing_slice [OF assms(2-4) 1(1)] by blast
next
  case (2 es fs)
  note sl = listing_slice [OF assms(2-4) 2(1)]
  have x: "collect_budgeted c budget 0 True (map Ok es @ [Err ()]) = Ok xs"
    using assms(5) by (simp add: range_budgeted_def 2(2))
  have "rows_ok c es" using listing_ok [OF assms(2) 2(1)] by (simp add: rows_ok_def)
  from collect_budgeted_cut [OF this x] have "xs = budget_prefix budget 0 True (map (entry_of c) (es @ fs))" by simp
  then show ?thesis using sl by blast
qed

lemma remove_keys_cases:
  assumes "db_laws db view crash" "remove_keys db (db_range db (fl_db s) KsLog lo hi) s = (s', r)"
  shows "r \<noteq> Panic" "\<not> is_ok r \<Longrightarrow> view (fl_db s') = view (fl_db s)"
    "is_ok r \<Longrightarrow> view (fl_db s') = (view (fl_db s))(KsLog := (\<lambda>k. if lo \<le> k \<and> in_end hi k then None else view (fl_db s) KsLog k))"
    "fl_sync_per_write s' = fl_sync_per_write s" "fl_coalescer s' = fl_coalescer s"
proof -
  let ?m = "view (fl_db s)"
  let ?P = "r \<noteq> Panic \<and> (\<not> is_ok r \<longrightarrow> view (fl_db s') = ?m) \<and>
    (is_ok r \<longrightarrow> view (fl_db s') = ?m(KsLog := (\<lambda>k. if lo \<le> k \<and> in_end hi k then None else ?m KsLog k))) \<and>
    fl_sync_per_write s' = fl_sync_per_write s \<and> fl_coalescer s' = fl_coalescer s"
  have ?P
  proof (cases rule: db_rangeD [OF assms(1), where d = "fl_db s" and ks = KsLog and lo = lo and hi = hi])
    case (1 es)
    have range: "(if k \<in> fst ` set es then None else ?m KsLog k) = (if lo \<le> k \<and> in_end hi k then None else ?m KsLog k)" for k
      using 1(1) by (cases "?m KsLog k") (force simp: listing_def image_iff)+
    show ?thesis
    proof (cases "es = []")
      case True
      have "?m(KsLog := (\<lambda>k. if lo \<le> k \<and> in_end hi k then None else ?m KsLog k)) = ?m"
        using range True by (auto simp: fun_eq_iff)
      then show ?thesis using assms(2) True by (auto simp: remove_keys_def 1(2) collect_keys_ok)
    next
      case False
      obtain s1 r1 where k: "commit_items db (map (\<lambda>k. (KsLog, BRemove k)) (map fst es)) s = (s1, r1)" by fastforce
      note cd = db_commitD [OF assms(1) k, unfolded items_remove]
      have "?m(KsLog := (\<lambda>k. if k \<in> set (map fst es) then None else ?m KsLog k))
          = ?m(KsLog := (\<lambda>k. if lo \<le> k \<and> in_end hi k then None else ?m KsLog k))"
        using range by simp
      then show ?thesis using assms(2) False k cd(1-3,5,6)
        by (cases r1) (auto simp: remove_keys_def 1(2) collect_keys_ok simp del: map_map)
    qed
  next
    case (2 es fs)
    then show ?thesis using assms(2) by (auto simp: remove_keys_def collect_keys_ok)
  qed
  then show "r \<noteq> Panic" "\<not> is_ok r \<Longrightarrow> view (fl_db s') = ?m"
    "is_ok r \<Longrightarrow> view (fl_db s') = ?m(KsLog := (\<lambda>k. if lo \<le> k \<and> in_end hi k then None else ?m KsLog k))"
    "fl_sync_per_write s' = fl_sync_per_write s" "fl_coalescer s' = fl_coalescer s"
    by blast+
qed

definition keep_entries :: "(nat \<Rightarrow> bool) \<Rightarrow> (nat \<Rightarrow> 'v option) \<Rightarrow> nat \<Rightarrow> 'v option" where
  "keep_entries P m i = (if P i then m i else None)"

lemma cut_log_map:
  assumes "\<And>i. i \<le> u64_max \<Longrightarrow> Q (be64_bytes i) \<longleftrightarrow> \<not> P i"
  shows "log_map c (m(KsLog := (\<lambda>k. if Q k then None else m KsLog k))) = keep_entries P (log_map c m)"
  using assms by (auto simp: fun_eq_iff log_map_def keep_entries_def)

lemma cut_log_wf: "log_wf c m \<Longrightarrow> log_wf c (m(KsLog := (\<lambda>k. if Q k then None else m KsLog k)))"
  by (auto simp: log_wf_def)

lemma truncate_before_map:
  assumes "db_laws db view crash" "before \<le> u64_max" "truncate_before db before s = (s', Ok n)"
  shows "log_map c (view (fl_db s')) = keep_entries (\<lambda>i. before \<le> i) (log_map c (view (fl_db s)))"
    "log_wf c (view (fl_db s)) \<Longrightarrow> log_wf c (view (fl_db s'))"
proof -
  note r = remove_keys_cases(3) [OF assms(1) assms(3) [unfolded truncate_before_def], simplified]
  show "log_map c (view (fl_db s')) = keep_entries (\<lambda>i. before \<le> i) (log_map c (view (fl_db s)))"
    unfolding r by (rule cut_log_map) (use assms(2) in \<open>auto simp: be_val_less_iff\<close>)
  show "log_wf c (view (fl_db s)) \<Longrightarrow> log_wf c (view (fl_db s'))" unfolding r by (rule cut_log_wf)
qed

lemma truncate_after_map:
  assumes "db_laws db view crash" "after < u64_max" "truncate_after db after s = (s', Ok n)"
  shows "log_map c (view (fl_db s')) = keep_entries (\<lambda>i. i \<le> after) (log_map c (view (fl_db s)))"
    "log_wf c (view (fl_db s)) \<Longrightarrow> log_wf c (view (fl_db s'))"
proof -
  note r = remove_keys_cases(3) [OF assms(1) assms(3) [unfolded truncate_after_def], simplified]
  have "min (after + 1) u64_max = after + 1" using assms(2) by simp
  then show "log_map c (view (fl_db s')) = keep_entries (\<lambda>i. i \<le> after) (log_map c (view (fl_db s)))"
    unfolding r by (intro cut_log_map) (use assms(2) in \<open>auto simp: be_val_le_iff\<close>)
  show "log_wf c (view (fl_db s)) \<Longrightarrow> log_wf c (view (fl_db s'))" unfolding r by (rule cut_log_wf)
qed

lemma log_get_map:
  assumes "db_laws db view crash" "i \<le> u64_max" "log_get c db i s = Ok r"
  shows "r = map_option fst (log_map c (view (fl_db s)) i)"
proof -
  have g: "db_get db (fl_db s) KsLog (be64_bytes i) = Ok v \<Longrightarrow> v = view (fl_db s) KsLog (be64_bytes i)" for v
    using assms(1) by (simp add: db_laws_def)
  obtain v where v: "db_get db (fl_db s) KsLog (be64_bytes i) = Ok v"
    using assms(3) by (cases "db_get db (fl_db s) KsLog (be64_bytes i)") (simp_all add: log_get_def)
  show ?thesis using assms(2,3) v g [OF v, symmetric]
    by (cases v) (auto simp: log_get_def log_map_def sized_def)
qed

section \<open>The contract of a Raft log\<close>

text \<open>What openraft asks of a log store, over the entries by index: an append writes its entries, a truncation
  removes what lies after an index, a purge what lies up to one. A call that reports an error has had its whole effect or
  none.\<close>

definition effect :: "bool \<Rightarrow> 'm \<Rightarrow> 'm \<Rightarrow> 'm \<Rightarrow> bool" where
  "effect fully before after m \<longleftrightarrow> m = after \<or> \<not> fully \<and> m = before"

definition after_kept :: "nat option \<Rightarrow> nat \<Rightarrow> bool" where
  "after_kept lim i \<longleftrightarrow> (case lim of Some a \<Rightarrow> i \<le> a | None \<Rightarrow> False)"

locale raft_log_storage =
  fixes entries :: "'s \<Rightarrow> nat \<Rightarrow> 'e option"
    and wf :: "'s \<Rightarrow> bool"
    and idx :: "'e \<Rightarrow> nat"
    and app :: "'e list \<Rightarrow> 's \<Rightarrow> 's \<times> bool"
    and trunc :: "nat option \<Rightarrow> 's \<Rightarrow> 's \<times> bool"
    and drop_prefix :: "nat \<Rightarrow> 's \<Rightarrow> 's \<times> bool"
  assumes append_law: "wf s \<Longrightarrow> list_all (\<lambda>e. idx e < u64_max) es \<Longrightarrow> app es s = (s', b) \<Longrightarrow>
      wf s' \<and> effect b (entries s) (fold (\<lambda>e m. m(idx e \<mapsto> e)) es (entries s)) (entries s')"
    and truncate_law: "wf s \<Longrightarrow> (\<forall>a. lim = Some a \<longrightarrow> a < u64_max) \<Longrightarrow> trunc lim s = (s', b) \<Longrightarrow>
      wf s' \<and> effect b (entries s) (keep_entries (after_kept lim) (entries s)) (entries s')"
    and purge_law: "wf s \<Longrightarrow> i < u64_max \<Longrightarrow> drop_prefix i s = (s', b) \<Longrightarrow>
      wf s' \<and> effect b (entries s) (keep_entries (\<lambda>j. i < j) (entries s)) (entries s')"
begin

text \<open>A log without holes stays one: Raft appends at the end, truncates inside and purges a prefix.\<close>

definition holds :: "nat \<Rightarrow> nat \<Rightarrow> 's \<Rightarrow> bool" where
  "holds lo hi s \<longleftrightarrow> wf s \<and> (\<forall>i. entries s i \<noteq> None \<longleftrightarrow> lo < i \<and> i \<le> hi)"

lemma dom_fold: "dom (fold (\<lambda>e m. m(idx e \<mapsto> e)) es m) = dom m \<union> idx ` set es"
  by (induction es arbitrary: m) auto

lemma append_contiguous:
  assumes "holds lo hi s" "lo \<le> hi" "map idx es = [hi + 1..<hi + 1 + n]" "hi + n < u64_max" "app es s = (s', True)"
  shows "holds lo (hi + n) s'"
proof -
  have ids: "idx ` set es = {hi + 1..<hi + 1 + n}" using assms(3) by (metis set_map set_upt)
  have "idx e < u64_max" if "e \<in> set es" for e
    using assms(4) ids imageI [OF that, of idx] by simp
  then have "list_all (\<lambda>e. idx e < u64_max) es" by (simp add: list_all_iff)
  with append_law [of s es s' True] assms
  have "wf s'" and e: "entries s' = fold (\<lambda>e m. m(idx e \<mapsto> e)) es (entries s)" by (simp_all add: holds_def effect_def)
  moreover have "entries s' i \<noteq> None \<longleftrightarrow> lo < i \<and> i \<le> hi + n" for i
  proof -
    have "entries s' i \<noteq> None \<longleftrightarrow> i \<in> dom (entries s) \<union> {hi + 1..<hi + 1 + n}"
      using dom_fold [of es "entries s"] ids by (auto simp: e dom_def)
    also have "\<dots> \<longleftrightarrow> lo < i \<and> i \<le> hi + n" using assms(1,2) by (auto simp: holds_def dom_def)
    finally show ?thesis .
  qed
  ultimately show ?thesis by (simp add: holds_def)
qed

lemma truncate_contiguous:
  assumes "holds lo hi s" "lo \<le> a" "a \<le> hi" "hi < u64_max" "trunc (Some a) s = (s', True)"
  shows "holds lo a s'"
  using truncate_law [of s "Some a" s' True] assms
  by (auto simp: holds_def effect_def keep_entries_def after_kept_def)

lemma purge_contiguous:
  assumes "holds lo hi s" "lo \<le> a" "a \<le> hi" "hi < u64_max" "drop_prefix a s = (s', True)"
  shows "holds a hi s'"
  using purge_law [of s a s' True] assms
  by (auto simp: holds_def effect_def keep_entries_def)

end

section \<open>The in-memory log store\<close>

text \<open>\<open>id_of\<close> is the entry's log id and \<open>ix\<close> the index of a log id.\<close>

record ('i, 'e, 'v) MemLogStore =
  ml_last_purged_log_id :: "'i option"
  ml_log :: "(nat \<times> 'e) list"
  ml_committed :: "'i option"
  ml_vote :: "'v option"

definition mem_log_new :: "('i, 'e, 'v) MemLogStore" where
  "mem_log_new = \<lparr>ml_last_purged_log_id = None, ml_log = [], ml_committed = None, ml_vote = None\<rparr>"

definition mem_try_get_log_entries :: "nat \<Rightarrow> nat \<Rightarrow> ('i, 'e, 'v) MemLogStore \<Rightarrow> 'e list" where
  "mem_try_get_log_entries start stop s = map snd (filter (\<lambda>(k, e). start \<le> k \<and> k < stop) (ml_log s))"

definition mem_limited_get_log_entries :: "nat \<Rightarrow> nat \<Rightarrow> ('i, 'e, 'v) MemLogStore \<Rightarrow> 'e list" where
  "mem_limited_get_log_entries start stop s =
     mem_try_get_log_entries start (min stop (min (start + 64) u64_max)) s"

definition mem_get_log_state :: "('e \<Rightarrow> 'i) \<Rightarrow> ('i, 'e, 'v) MemLogStore \<Rightarrow> 'i option \<times> 'i option" where
  "mem_get_log_state id_of s =
     (ml_last_purged_log_id s,
      if ml_log s = [] then ml_last_purged_log_id s else Some (id_of (snd (last (ml_log s)))))"

definition mem_save_committed :: "'i option \<Rightarrow> ('i, 'e, 'v) MemLogStore \<Rightarrow> ('i, 'e, 'v) MemLogStore" where
  "mem_save_committed committed s = s\<lparr>ml_committed := committed\<rparr>"

definition mem_save_vote :: "'v \<Rightarrow> ('i, 'e, 'v) MemLogStore \<Rightarrow> ('i, 'e, 'v) MemLogStore" where
  "mem_save_vote vote s = s\<lparr>ml_vote := Some vote\<rparr>"

definition mem_append :: "('e \<Rightarrow> nat) \<Rightarrow> 'e list \<Rightarrow> ('i, 'e, 'v) MemLogStore \<Rightarrow> ('i, 'e, 'v) MemLogStore" where
  "mem_append idx es s = s\<lparr>ml_log := fold (\<lambda>e m. bt_insert (idx e) e m) es (ml_log s)\<rparr>"

definition mem_truncate_after :: "nat option \<Rightarrow> ('i, 'e, 'v) MemLogStore \<Rightarrow> (unit, ('i, 'e, 'v) MemLogStore) res" where
  "mem_truncate_after lim s =
     bind_res (case lim of Some i \<Rightarrow> add_u64 i 1 | None \<Rightarrow> Ok 0) (\<lambda>start_index.
       let keys = map fst (filter (\<lambda>(k, e). start_index \<le> k) (ml_log s)) in
       Ok (s\<lparr>ml_log := fold bt_remove keys (ml_log s)\<rparr>))"

definition mem_purge :: "('i \<Rightarrow> nat) \<Rightarrow> 'i \<Rightarrow> ('i, 'e, 'v) MemLogStore \<Rightarrow> ('i, 'e, 'v) MemLogStore" where
  "mem_purge ix log_id s =
     (let keys = map fst (filter (\<lambda>(k, e). k \<le> ix log_id) (ml_log s)) in
      s\<lparr>ml_log := fold bt_remove keys (ml_log s), ml_last_purged_log_id := Some log_id\<rparr>)"

lemma fold_bt_insert:
  "bt_sorted m \<Longrightarrow> bt_sorted (fold (\<lambda>e m. bt_insert (idx e) e m) es m)
     \<and> map_of (fold (\<lambda>e m. bt_insert (idx e) e m) es m) = fold (\<lambda>e m. m(idx e \<mapsto> e)) es (map_of m)"
proof (induction es arbitrary: m)
  case (Cons e es)
  have "map_of (bt_insert (idx e) e m) = (map_of m)(idx e \<mapsto> e)"
    using Cons.prems by (auto simp: fun_eq_iff map_of_bt_insert)
  then show ?case using Cons.IH [OF bt_sorted_insert [OF Cons.prems, of "idx e" e]] by simp
qed simp

lemma fold_bt_remove:
  "bt_sorted m \<Longrightarrow> bt_sorted (fold bt_remove ks m)
     \<and> map_of (fold bt_remove ks m) = (\<lambda>k. if k \<in> set ks then None else map_of m k)"
  by (induction ks arbitrary: m) (auto simp: bt_sorted_remove map_of_bt_remove fun_eq_iff)

definition mem_append_call :: "('e \<Rightarrow> nat) \<Rightarrow> 'e list \<Rightarrow> ('i, 'e, 'v) MemLogStore \<Rightarrow> ('i, 'e, 'v) MemLogStore \<times> bool" where
  "mem_append_call idx es s = (mem_append idx es s, True)"

definition mem_truncate_call :: "nat option \<Rightarrow> ('i, 'e, 'v) MemLogStore \<Rightarrow> ('i, 'e, 'v) MemLogStore \<times> bool" where
  "mem_truncate_call lim s = (case mem_truncate_after lim s of Ok s' \<Rightarrow> (s', True) | _ \<Rightarrow> (s, False))"

definition mem_purge_call :: "nat \<Rightarrow> (nat, 'e, 'v) MemLogStore \<Rightarrow> (nat, 'e, 'v) MemLogStore \<times> bool" where
  "mem_purge_call i s = (mem_purge (\<lambda>i. i) i s, True)"

lemma cut_keys:
  "(\<lambda>k. if k \<in> set (map fst (filter (\<lambda>(k, e). Q k) m)) then None else map_of m k) = keep_entries (\<lambda>k. \<not> Q k) (map_of m)"
proof
  fix k
  show "(if k \<in> set (map fst (filter (\<lambda>(k, e). Q k) m)) then None else map_of m k) = keep_entries (\<lambda>k. \<not> Q k) (map_of m) k"
    by (cases "map_of m k") (force simp: keep_entries_def map_of_eq_None_iff dest: map_of_SomeD)+
qed

interpretation mem_log: raft_log_storage "\<lambda>s. map_of (ml_log s)" "\<lambda>s. bt_sorted (ml_log s)" idx
  "mem_append_call idx" mem_truncate_call mem_purge_call for idx
proof (unfold_locales, goal_cases)
  case (1 s es s' b)
  then show ?case using fold_bt_insert [of "ml_log s" idx es]
    by (auto simp: mem_append_call_def mem_append_def effect_def)
next
  case (2 s lim s' b)
  let ?lo = "case lim of Some i \<Rightarrow> i + 1 | None \<Rightarrow> 0"
  have "after_kept lim = (\<lambda>k. \<not> ?lo \<le> k)" by (auto simp: after_kept_def fun_eq_iff split: option.split)
  then show ?case using 2 fold_bt_remove [of "ml_log s" "map fst (filter (\<lambda>(k, e). ?lo \<le> k) (ml_log s))"]
    unfolding cut_keys
    by (cases lim) (auto simp: mem_truncate_call_def mem_truncate_after_def effect_def add_u64_def Let_def)
next
  case (3 s i s' b)
  have "(\<lambda>j. i < j) = (\<lambda>k. \<not> k \<le> i)" by (auto simp: fun_eq_iff)
  then show ?case using 3 fold_bt_remove [of "ml_log s" "map fst (filter (\<lambda>(k, e). k \<le> i) (ml_log s))"]
    unfolding cut_keys by (auto simp: mem_purge_call_def mem_purge_def effect_def Let_def)
qed

section \<open>Membership changes\<close>

datatype MembershipAction = AddLearner | PromoteVoter | RemoveVoter

record MembershipChange =
  mc_node_id :: nat
  mc_addr :: string
  mc_action :: MembershipAction

datatype MembershipError =
    AlreadyMember nat
  | NotALearner nat
  | WouldLoseQuorum nat nat
  | NodeNotFound nat

definition quorum_size :: "nat \<Rightarrow> nat" where
  "quorum_size voter_count = voter_count div 2 + 1"

definition can_remove_safely :: "nat \<Rightarrow> bool" where
  "can_remove_safely voter_count =
     (if voter_count \<le> 1 then False
      else let remaining = voter_count - 1 in remaining \<ge> quorum_size remaining)"

definition validate_membership_change ::
    "nat list \<Rightarrow> nat list \<Rightarrow> MembershipChange \<Rightarrow> (MembershipError, unit) res" where
  "validate_membership_change current_voters current_learners change =
     (let n = mc_node_id change in
      case mc_action change of
        AddLearner \<Rightarrow>
          if n \<in> set current_voters \<or> n \<in> set current_learners then Err (AlreadyMember n) else Ok ()
      | PromoteVoter \<Rightarrow> if n \<notin> set current_learners then Err (NotALearner n) else Ok ()
      | RemoveVoter \<Rightarrow>
          if n \<notin> set current_voters then Err (NodeNotFound n)
          else if \<not> can_remove_safely (length current_voters)
          then Err (WouldLoseQuorum n (length current_voters))
          else Ok ())"

text \<open>The guard refuses the removal of the last voter, and nothing else.\<close>

lemma can_remove_safely_iff: "can_remove_safely n \<longleftrightarrow> 2 \<le> n"
proof (cases "n \<le> 1")
  case False
  then have "(n - 1) div 2 + 1 \<le> n - 1" by (cases "n - 1") (auto simp: div_le_dividend)
  then show ?thesis using False by (simp add: can_remove_safely_def quorum_size_def Let_def)
qed (simp add: can_remove_safely_def)

text \<open>Two majorities of the same voters meet, and a majority of \<open>n\<close> voters still meets a majority of
  \<open>n - 1\<close> of them.\<close>

lemma quorums_meet:
  assumes "finite V" "A \<subseteq> V" "B \<subseteq> V - {v}" "quorum_size (card V) \<le> card A" "quorum_size (card (V - {v})) \<le> card B" "v \<in> V"
  shows "A \<inter> B \<noteq> {}"
proof
  assume "A \<inter> B = {}"
  then have "card (A \<union> B) = card A + card B"
    using assms by (intro card_Un_disjoint) (auto intro: finite_subset)
  moreover have "card (A \<union> B) \<le> card V" using assms by (intro card_mono) auto
  moreover have "card (V - {v}) = card V - 1" using assms by simp
  ultimately show False using assms(4,5) unfolding quorum_size_def by linarith
qed

section \<open>An engine\<close>

text \<open>An instance of the engine: association lists with what the last synchronous write saved, and a
  schedule of commits that fail.\<close>

record DemoDb =
  dd_log :: "(bytes \<times> bytes) list"
  dd_meta :: "(bytes \<times> bytes) list"
  dd_saved :: "(bytes \<times> bytes) list \<times> (bytes \<times> bytes) list"
  dd_faults :: "bool list"

definition dd_items :: "Ks \<Rightarrow> DemoDb \<Rightarrow> (bytes \<times> bytes) list" where
  "dd_items ks d = (case ks of KsLog \<Rightarrow> dd_log d | KsMeta \<Rightarrow> dd_meta d)"

fun dd_write :: "Ks \<times> BatchItem \<Rightarrow> DemoDb \<Rightarrow> DemoDb" where
  "dd_write (KsLog, BInsert k v) d = d\<lparr>dd_log := AList.update k v (dd_log d)\<rparr>"
| "dd_write (KsMeta, BInsert k v) d = d\<lparr>dd_meta := AList.update k v (dd_meta d)\<rparr>"
| "dd_write (KsLog, BRemove k) d = d\<lparr>dd_log := AList.delete k (dd_log d)\<rparr>"
| "dd_write (KsMeta, BRemove k) d = d\<lparr>dd_meta := AList.delete k (dd_meta d)\<rparr>"

definition dd_save :: "PersistMode \<Rightarrow> DemoDb \<Rightarrow> DemoDb" where
  "dd_save p d = (if p = SyncAll then d\<lparr>dd_saved := (dd_log d, dd_meta d)\<rparr> else d)"

definition dd_list :: "Ks \<Rightarrow> DemoDb \<Rightarrow> (bytes \<times> bytes) list" where
  "dd_list ks d = map (\<lambda>k. (k, the (map_of (dd_items ks d) k))) (sort (remdups (map fst (dd_items ks d))))"

definition demo_db :: "DemoDb Database" where
  "demo_db =
     \<lparr>db_get = (\<lambda>d ks k. Ok (map_of (dd_items ks d) k)),
      db_range = (\<lambda>d ks lo hi. map Ok (filter (\<lambda>(k, v). lo \<le> k \<and> in_end hi k) (dd_list ks d))),
      db_last = (\<lambda>d ks. if dd_list ks d = [] then None else Some (Ok (last (dd_list ks d)))),
      db_len = (\<lambda>d ks. Ok (length (dd_list ks d))),
      db_commit = (\<lambda>d p b. case dd_faults d of
          True # fs \<Rightarrow> (d\<lparr>dd_faults := fs\<rparr>, Err ())
        | fs \<Rightarrow> (dd_save p (fold dd_write b (d\<lparr>dd_faults := tl fs\<rparr>)), Ok ())),
      db_persist = (\<lambda>d p. (dd_save p d, Ok ()))\<rparr>"

definition dd_view :: "DemoDb \<Rightarrow> contents" where
  "dd_view d ks = map_of (dd_items ks d)"

definition dd_crash :: "DemoDb \<Rightarrow> DemoDb \<Rightarrow> bool" where
  "dd_crash d d' \<longleftrightarrow>
     d' = d \<or> d' = d\<lparr>dd_log := fst (dd_saved d), dd_meta := snd (dd_saved d)\<rparr>"

lemma dd_list_listing: "listing (dd_view d ks) lo hi (filter (\<lambda>(k, v). lo \<le> k \<and> in_end hi k) (dd_list ks d))"
proof -
  let ?ks = "sort (remdups (map fst (dd_items ks d)))"
  have "sorted_wrt (<) (map fst (dd_list ks d))"
    by (simp add: dd_list_def o_def strict_sorted_iff)
  then have "sorted_wrt (<) (map fst (filter P (dd_list ks d)))" for P
    by (simp add: sorted_wrt_map sorted_wrt_filter)
  moreover have "(k, v) \<in> set (dd_list ks d) \<longleftrightarrow> dd_view d ks k = Some v" for k v
  proof -
    have "k \<in> fst ` set (dd_items ks d) \<longleftrightarrow> map_of (dd_items ks d) k \<noteq> None"
      by (simp add: map_of_eq_None_iff)
    then show ?thesis by (auto simp: dd_list_def dd_view_def)
  qed
  ultimately show ?thesis by (simp add: listing_def)
qed

lemma dd_write_view: "dd_view (dd_write i d) = items_apply [i] (dd_view d)"
proof -
  obtain ks b where i: "i = (ks, b)" by fastforce
  show ?thesis
    by (cases ks; cases b) (auto simp: i fun_eq_iff dd_view_def dd_items_def update_conv' delete_conv' split: Ks.split)
qed

lemma fold_dd_write: "dd_view (fold dd_write b d) = items_apply b (dd_view d)"
proof (induction b arbitrary: d)
  case (Cons i b)
  have "items_apply (i # b) m = items_apply b (items_apply [i] m)" for m by (cases i) simp
  then show ?case by (simp add: Cons.IH dd_write_view del: items_apply.simps)
qed simp

lemma dd_save_view [simp]: "dd_view (dd_save p d) = dd_view d"
  by (auto simp: dd_save_def dd_view_def dd_items_def fun_eq_iff split: Ks.split)

lemma dd_save_crash: "dd_crash (dd_save SyncAll d) d' \<Longrightarrow> dd_view d' = dd_view d"
  by (auto simp: dd_crash_def dd_save_def dd_view_def dd_items_def fun_eq_iff split: Ks.split)

lemma dd_faults_view [simp]: "dd_view (d\<lparr>dd_faults := fs\<rparr>) = dd_view d"
  by (auto simp: dd_view_def dd_items_def fun_eq_iff split: Ks.split)

lemma dd_list_card: "length (dd_list ks d) = card (dom (dd_view d ks))"
  by (simp add: dd_list_def dd_view_def dom_map_of_conv_image_fst length_remdups_card_conv)

lemma demo_db_laws: "db_laws demo_db dd_view dd_crash"
  unfolding db_laws_def
proof (intro conjI allI)
  show "\<exists>es. listing (dd_view d ks) lo hi es \<and> (db_range demo_db d ks lo hi = map Ok es \<or>
      (\<exists>n \<le> length es. db_range demo_db d ks lo hi = map Ok (take n es) @ [Err ()]))" for d ks lo hi
    using dd_list_listing [of d ks lo hi] by (auto simp: demo_db_def)
  show "\<exists>es. listing (dd_view d ks) [] Unbounded es \<and> (db_last demo_db d ks = (if es = [] then None else Some (Ok (last es)))
      \<or> es \<noteq> [] \<and> db_last demo_db d ks = Some (Err ()))" for d ks
    using dd_list_listing [of d ks "[]" Unbounded] by (auto simp: demo_db_def case_prod_unfold intro!: exI [of _ "dd_list ks d"])
qed (auto simp: demo_db_def dd_view_def [symmetric] dd_list_card fold_dd_write dd_save_crash
    split: list.splits bool.splits if_splits)

definition demo_codec :: "bytes Codec" where
  "demo_codec = \<lparr>cd_to_stdvec = Some, cd_from_bytes = Some\<rparr>"

lemma demo_codec_laws: "codec_laws demo_codec"
  by (simp add: codec_laws_def demo_codec_def)

definition demo_log_store :: "DemoDb FjallLogStore" where
  "demo_log_store = \<lparr>fl_db = \<lparr>dd_log = [(be64_bytes 1, [1, 7]), (be64_bytes 2, [1, 8, 9])], dd_meta = [],
     dd_saved = ([], []), dd_faults = []\<rparr>, fl_sync_per_write = True, fl_coalescer = False\<rparr>"

lemma be64_small: "be64_bytes (Suc 0) = [0, 0, 0, 0, 0, 0, 0, 1]" "be64_bytes 2 = [0, 0, 0, 0, 0, 0, 0, 2]"
proof -
  have "(8 :: nat) = Suc (Suc (Suc (Suc (Suc (Suc (Suc (Suc 0)))))))" by simp
  then have "be64_bytes n = rev (le_bytes (Suc (Suc (Suc (Suc (Suc (Suc (Suc (Suc 0)))))))) n)" for n
    unfolding be64_bytes_def by metis
  then show "be64_bytes (Suc 0) = [0, 0, 0, 0, 0, 0, 0, 1]" "be64_bytes 2 = [0, 0, 0, 0, 0, 0, 0, 2]" by simp_all
qed

lemma demo_log_wf: "log_wf demo_codec (dd_view (fl_db demo_log_store))"
  by (auto simp: log_wf_def dd_view_def dd_items_def demo_log_store_def rec_decode_def demo_codec_def
      RECORD_SCHEMA_VERSION_def split: if_splits)

end
