(* ===== verification/Raft_Log_Cache.thy ===== *)
theory Raft_Log_Cache
  imports Raft_Log Lru_Cache
begin

text \<open>
  The Raft log store with its cache of decoded entries (\<^verbatim>\<open>crates/kiseki-raft/src/fjall_raft_log_store.rs\<close>). Reads
  look in the cache first; appends fill it, truncations clear it, purges drop what they removed. The theorems show
  that the cache is invisible: reads return what the log stores, in every run with failing commits
  and evictions, and an acknowledged append survives a crash in every durability mode.
\<close>

section \<open>The store\<close>

definition DEFAULT_ENTRY_CACHE_CAP :: nat where
  "DEFAULT_ENTRY_CACHE_CAP = 4096"

record ('d, 'l) FjallRaftLogStore =
  rl_inner :: "'d FjallLogStore"
  rl_entry_cache :: 'l

definition raft_log_open :: "(unit, 'd) res \<Rightarrow> 'l \<Rightarrow> (IoError, ('d, 'l) FjallRaftLogStore) res" where
  "raft_log_open opened cache =
     bind_res (fjall_log_open opened) (\<lambda>inner. Ok \<lparr>rl_inner = inner, rl_entry_cache = cache\<rparr>)"

definition raft_log_open_with_fsync_coalescing :: "(unit, 'd) res \<Rightarrow> 'l \<Rightarrow> (IoError, ('d, 'l) FjallRaftLogStore) res" where
  "raft_log_open_with_fsync_coalescing opened cache =
     bind_res (fjall_log_open opened) (\<lambda>inner. Ok \<lparr>rl_inner = with_fsync_coalescing inner, rl_entry_cache = cache\<rparr>)"

definition has_state :: "'d Database \<Rightarrow> ('d, 'l) FjallRaftLogStore \<Rightarrow> bool" where
  "has_state db s \<longleftrightarrow>
     \<not> (case log_is_empty db (rl_inner s) of Ok b \<Rightarrow> b | _ \<Rightarrow> True)
     \<or> (case meta_exists db (string_bytes ''vote'') (rl_inner s) of Ok b \<Rightarrow> b | _ \<Rightarrow> False)"

text \<open>Walking the cache over consecutive indices: all of them, or nothing.\<close>

fun cache_walk :: "('l, 'e \<times> nat) Lru \<Rightarrow> nat list \<Rightarrow> 'l \<Rightarrow> 'l \<times> 'e list option" where
  "cache_walk L [] l = (l, Some [])"
| "cache_walk L (i # is) l =
     (case lru_get L i l of
        (l, Some (e, n)) \<Rightarrow>
          (case cache_walk L is l of
             (l, Some es) \<Rightarrow> (l, Some (e # es))
           | (l, None) \<Rightarrow> (l, None))
      | (l, None) \<Rightarrow> (l, None))"

datatype IndexBound = Included nat | Excluded nat | NoBound

definition range_start :: "IndexBound \<Rightarrow> (IoError, nat) res" where
  "range_start b = (case b of Included s \<Rightarrow> Ok s | Excluded s \<Rightarrow> add_u64 s 1 | NoBound \<Rightarrow> Ok 0)"

definition range_end :: "IndexBound \<Rightarrow> nat" where
  "range_end b = (case b of Included e \<Rightarrow> e | Excluded e \<Rightarrow> e - 1 | NoBound \<Rightarrow> u64_max)"

definition cache_put_all :: "('l, 'e \<times> nat) Lru \<Rightarrow> (nat \<times> 'e \<times> nat) list \<Rightarrow> 'l \<Rightarrow> 'l" where
  "cache_put_all L es l = fold (\<lambda>(i, p). lru_put L i p) es l"

definition try_get_log_entries ::
    "'e Codec \<Rightarrow> 'd Database \<Rightarrow> ('l, 'e \<times> nat) Lru \<Rightarrow> IndexBound \<Rightarrow> IndexBound \<Rightarrow> ('d, 'l) FjallRaftLogStore \<Rightarrow>
       ('d, 'l) FjallRaftLogStore \<times> (IoError, 'e list) res" where
  "try_get_log_entries c db L start_bound end_bound s =
     bind_st (s, range_start start_bound) (\<lambda>s start.
       let stop = range_end end_bound;
           want = min (stop + 1) u64_max - start;
           (l, arcs) = (if want > 0 \<and> want \<le> DEFAULT_ENTRY_CACHE_CAP
                        then cache_walk L [start..<stop + 1] (rl_entry_cache s)
                        else (rl_entry_cache s, None));
           s = s\<lparr>rl_entry_cache := l\<rparr>
       in case arcs of
            Some es \<Rightarrow> (s, Ok es)
          | None \<Rightarrow>
              bind_st (s, range_budgeted c db start stop u64_max (rl_inner s)) (\<lambda>s entries.
                (s\<lparr>rl_entry_cache := cache_put_all L entries (rl_entry_cache s)\<rparr>, Ok (map (\<lambda>(i, e, n). e) entries))))"

text \<open>The budgeted walk: stops at a miss, before a record that does not fit, and after a first one that
  does not fit.\<close>

fun budget_walk ::
    "('l, 'e \<times> nat) Lru \<Rightarrow> nat \<Rightarrow> nat \<Rightarrow> bool \<Rightarrow> nat list \<Rightarrow> 'l \<Rightarrow> 'l \<times> 'e list \<times> bool" where
  "budget_walk L budget used first [] l = (l, [], False)"
| "budget_walk L budget used first (i # is) l =
     (case lru_get L i l of
        (l, None) \<Rightarrow> (l, [], first)
      | (l, Some (e, n)) \<Rightarrow>
          if \<not> first \<and> min (used + n) u64_max > budget then (l, [], False)
          else if first \<and> n > budget then (l, [e], False)
          else
            let (l, es, missed) = budget_walk L budget (min (used + n) u64_max) False is l in (l, e # es, missed))"

definition limited_get_with_budget ::
    "'e Codec \<Rightarrow> 'd Database \<Rightarrow> ('l, 'e \<times> nat) Lru \<Rightarrow> nat \<Rightarrow> nat \<Rightarrow> nat \<Rightarrow> ('d, 'l) FjallRaftLogStore \<Rightarrow>
       ('d, 'l) FjallRaftLogStore \<times> (IoError, 'e list) res" where
  "limited_get_with_budget c db L start stop budget s =
     (if start \<ge> stop then (s, Ok [])
      else
        let (l, arcs, first_missed) = budget_walk L budget 0 True [start..<stop] (rl_entry_cache s);
            s = s\<lparr>rl_entry_cache := l\<rparr>
        in if arcs \<noteq> [] \<and> \<not> first_missed then (s, Ok arcs)
           else bind_st (s, range_budgeted c db start (stop - 1) budget (rl_inner s)) (\<lambda>s entries.
                  (s, Ok (map (\<lambda>(i, e, n). e) entries))))"

definition read_vote :: "'v Codec \<Rightarrow> 'd Database \<Rightarrow> ('d, 'l) FjallRaftLogStore \<Rightarrow> (IoError, 'v option) res" where
  "read_vote vc db s = get_meta vc db (string_bytes ''vote'') (rl_inner s)"

definition get_log_state ::
    "'e Codec \<Rightarrow> 'i Codec \<Rightarrow> ('e \<Rightarrow> 'i) \<Rightarrow> 'd Database \<Rightarrow> ('d, 'l) FjallRaftLogStore \<Rightarrow>
       (IoError, 'i option \<times> 'i option) res" where
  "get_log_state c ic id_of db s =
     bind_res (get_meta ic db (string_bytes ''last_purged'') (rl_inner s)) (\<lambda>last_purged.
       bind_res (last_index db (rl_inner s)) (\<lambda>li.
         case li of
           Some i \<Rightarrow> bind_res (log_get c db i (rl_inner s)) (\<lambda>entry. Ok (last_purged, map_option id_of entry))
         | None \<Rightarrow> Ok (last_purged, last_purged)))"

definition lift_inner ::
    "('d FjallLogStore \<Rightarrow> 'd FjallLogStore \<times> (IoError, 'a) res) \<Rightarrow> ('d, 'l) FjallRaftLogStore \<Rightarrow>
       ('d, 'l) FjallRaftLogStore \<times> (IoError, 'a) res" where
  "lift_inner f s = (let (inner, r) = f (rl_inner s) in (s\<lparr>rl_inner := inner\<rparr>, r))"

definition save_committed ::
    "'i option Codec \<Rightarrow> 'd Database \<Rightarrow> 'i option \<Rightarrow> ('d, 'l) FjallRaftLogStore \<Rightarrow>
       ('d, 'l) FjallRaftLogStore \<times> (IoError, unit) res" where
  "save_committed cc db committed = lift_inner (set_meta cc db (string_bytes ''committed'') committed)"

definition read_committed :: "'i option Codec \<Rightarrow> 'd Database \<Rightarrow> ('d, 'l) FjallRaftLogStore \<Rightarrow> (IoError, 'i option) res" where
  "read_committed cc db s =
     bind_res (get_meta cc db (string_bytes ''committed'') (rl_inner s)) (\<lambda>v. Ok (Option.bind v (\<lambda>x. x)))"

definition save_vote ::
    "'v Codec \<Rightarrow> 'd Database \<Rightarrow> 'v \<Rightarrow> ('d, 'l) FjallRaftLogStore \<Rightarrow> ('d, 'l) FjallRaftLogStore \<times> (IoError, unit) res" where
  "save_vote vc db vote = lift_inner (set_meta vc db (string_bytes ''vote'') vote)"

definition raft_append ::
    "'e Codec \<Rightarrow> 'd Database \<Rightarrow> ('l, 'e \<times> nat) Lru \<Rightarrow> ('e \<Rightarrow> nat) \<Rightarrow> 'e list \<Rightarrow> ('d, 'l) FjallRaftLogStore \<Rightarrow>
       ('d, 'l) FjallRaftLogStore \<times> (IoError, unit) res" where
  "raft_append c db L idx entries s =
     bind_st (lift_inner (append_batch c db (map (\<lambda>e. (idx e, e)) entries)) s) (\<lambda>s sizes.
       lift_inner (fsync_barrier db)
         (s\<lparr>rl_entry_cache :=
              cache_put_all L (map2 (\<lambda>e (i, n). (i, e, n)) entries sizes) (rl_entry_cache s)\<rparr>))"

definition raft_truncate_after ::
    "'d Database \<Rightarrow> ('l, 'e \<times> nat) Lru \<Rightarrow> nat option \<Rightarrow> ('d, 'l) FjallRaftLogStore \<Rightarrow>
       ('d, 'l) FjallRaftLogStore \<times> (IoError, unit) res" where
  "raft_truncate_after db L lim s =
     bind_st (lift_inner (case lim of Some i \<Rightarrow> truncate_after db i | None \<Rightarrow> truncate_before db u64_max) s) (\<lambda>s _.
       (s\<lparr>rl_entry_cache := lru_clear L (rl_entry_cache s)\<rparr>, Ok ()))"

definition raft_purge ::
    "'i Codec \<Rightarrow> 'd Database \<Rightarrow> ('l, 'e \<times> nat) Lru \<Rightarrow> ('i \<Rightarrow> nat) \<Rightarrow> 'i \<Rightarrow> ('d, 'l) FjallRaftLogStore \<Rightarrow>
       ('d, 'l) FjallRaftLogStore \<times> (IoError, unit) res" where
  "raft_purge ic db L ix log_id s =
     bind_st (s, add_u64 (ix log_id) 1) (\<lambda>s before.
       bind_st (lift_inner (truncate_before db before) s) (\<lambda>s _.
         bind_st (lift_inner (set_meta ic db (string_bytes ''last_purged'') log_id) s) (\<lambda>s _.
           let to_drop = filter (\<lambda>i. i \<le> ix log_id) (lru_keys L (rl_entry_cache s)) in
           (s\<lparr>rl_entry_cache := fold (lru_pop L) to_drop (rl_entry_cache s)\<rparr>, Ok ()))))"

section \<open>The cache holds what the log holds\<close>

abbreviation rl_contents :: "('d \<Rightarrow> contents) \<Rightarrow> ('d, 'l) FjallRaftLogStore \<Rightarrow> contents" where
  "rl_contents view s \<equiv> view (fl_db (rl_inner s))"

definition cached_in :: "('l, 'p) Lru \<Rightarrow> 'l \<Rightarrow> (nat \<Rightarrow> 'p option) \<Rightarrow> bool" where
  "cached_in L l m \<longleftrightarrow> (\<forall>i p. lru_view L l i = Some p \<longrightarrow> m i = Some p)"

definition raft_log_inv ::
    "'e Codec \<Rightarrow> ('d \<Rightarrow> contents) \<Rightarrow> ('l, 'e \<times> nat) Lru \<Rightarrow> ('d, 'l) FjallRaftLogStore \<Rightarrow> bool" where
  "raft_log_inv c view L s \<longleftrightarrow>
     log_wf c (rl_contents view s) \<and> cached_in L (rl_entry_cache s) (log_map c (rl_contents view s))"

lemma cached_put:
  assumes "lru_laws L" "cached_in L l m"
  shows "cached_in L (lru_put L i p l) (m(i \<mapsto> p))"
  unfolding cached_in_def
proof (intro allI impI)
  fix j q
  assume "lru_view L (lru_put L i p l) j = Some q"
  then show "(m(i \<mapsto> p)) j = Some q"
    using lru_lawsD(3) [OF assms(1), of i p l j] assms(2) unfolding cached_in_def
    by (metis fun_upd_apply option.distinct(1))
qed

lemma cached_put_all:
  assumes "lru_laws L"
  shows "cached_in L l m \<Longrightarrow> cached_in L (cache_put_all L es l) (fold put_entry es m)"
proof (induction es arbitrary: l m)
  case (Cons x es)
  have "cached_in L (lru_put L (fst x) (snd x) l) (put_entry x m)"
    unfolding put_entry_def by (rule cached_put [OF assms Cons.prems])
  from Cons.IH [OF this] show ?case by (simp add: cache_put_all_def split_beta)
qed (simp add: cache_put_all_def)

lemma fold_put_same:
  "(\<And>x. x \<in> set es \<Longrightarrow> m (fst x) = Some (snd x)) \<Longrightarrow> fold put_entry es m = m"
proof (induction es)
  case (Cons x es)
  then have "put_entry x m = m" by (auto simp: put_entry_def fun_eq_iff)
  then show ?case using Cons by simp
qed simp

lemma cache_walk_ok:
  assumes "lru_laws L"
  shows "lru_view L (fst (cache_walk L is l)) = lru_view L l
    \<and> (\<forall>es. snd (cache_walk L is l) = Some es \<longrightarrow>
        length es = length is \<and> (\<forall>k < length is. map_option fst (lru_view L l (is ! k)) = Some (es ! k)))"
proof (induction "is" arbitrary: l)
  case (Cons i "is")
  note g = lru_lawsD(1,2) [OF assms, of i l]
  obtain l1 r where l1: "lru_get L i l = (l1, r)" by fastforce
  show ?case
  proof (cases r)
    case None
    then show ?thesis using g by (simp add: l1)
  next
    case (Some p)
    obtain e n where p: "p = (e, n)" by fastforce
    have v: "lru_view L l i = Some (e, n)" "lru_view L l1 = lru_view L l" using g Some by (simp_all add: l1 p)
    obtain l2 r2 where l2: "cache_walk L is l1 = (l2, r2)" by fastforce
    note IH = Cons.IH [of l1, unfolded l2 v(2)]
    show ?thesis
    proof (cases r2)
      case None
      then show ?thesis using IH by (simp add: l1 l2 Some p)
    next
      case (Some es)
      then show ?thesis using IH v(1) \<open>r = Some p\<close> by (auto simp: l1 l2 p nth_Cons split: nat.split)
    qed
  qed
qed simp

section \<open>Reads\<close>

lemma slice_of_hits:
  assumes "\<And>i. a \<le> i \<Longrightarrow> i < b \<Longrightarrow> log_map c m i = Some (f i)" "0 < b"
  shows "log_slice c m a (b - 1) (map (\<lambda>i. (i, f i)) [a..<b])"
proof -
  have "map fst (map (\<lambda>i. (i, f i)) [a..<b]) = [a..<b]" by (simp add: o_def)
  moreover have "i \<le> b - 1 \<longleftrightarrow> i < b" for i using assms(2) by auto
  ultimately show ?thesis using assms(1) by (auto simp: log_slice_def image_iff)
qed

lemma slice_append:
  assumes "log_slice c m a (k - 1) xs" "log_slice c m k b ys" "a \<le> k" "0 < k" "k \<le> b + 1"
  shows "log_slice c m a b (xs @ ys)"
proof -
  have fst: "i < k" if "i \<in> set (map fst xs)" for i
    using that assms(1,4) by (fastforce simp: log_slice_def)
  have snd: "k \<le> i" if "i \<in> set (map fst ys)" for i
    using that assms(2) by (fastforce simp: log_slice_def)
  have "sorted_wrt (<) (map fst xs)" "sorted_wrt (<) (map fst ys)"
    using assms(1,2) by (simp_all add: log_slice_def)
  moreover have "i < j" if "i \<in> set (map fst xs)" "j \<in> set (map fst ys)" for i j
    using fst [OF that(1)] snd [OF that(2)] by simp
  ultimately have "sorted_wrt (<) (map fst (xs @ ys))"
    unfolding map_append sorted_wrt_append by blast
  moreover have "(i, p) \<in> set (xs @ ys) \<longleftrightarrow> log_map c m i = Some p \<and> a \<le> i \<and> i \<le> b" for i p
  proof -
    have "(i, p) \<in> set xs \<longleftrightarrow> log_map c m i = Some p \<and> a \<le> i \<and> i \<le> k - 1"
      "(i, p) \<in> set ys \<longleftrightarrow> log_map c m i = Some p \<and> k \<le> i \<and> i \<le> b"
      using assms(1,2) unfolding log_slice_def by blast+
    then show ?thesis using assms(3-5) by auto
  qed
  ultimately show ?thesis by (simp add: log_slice_def)
qed

lemma slice_exists:
  assumes "db_laws db view crash" "log_wf c (view d)" "a \<le> u64_max" "b \<le> u64_max"
  obtains ys where "log_slice c (view d) a b ys"
proof -
  obtain es where "listing (view d KsLog) (be64_bytes a) (Through (be64_bytes b)) es"
    using assms(1) unfolding db_laws_def by meson
  from listing_slice [OF assms(2-4) this] show thesis by (rule that)
qed

lemma budget_prefix_all: "budget_prefix u64_max used first es = es"
  by (induction es arbitrary: used first) auto

definition read_ok ::
    "'e Codec \<Rightarrow> contents \<Rightarrow> nat \<Rightarrow> nat \<Rightarrow> 'e list \<Rightarrow> bool" where
  "read_ok c m start stop es \<longleftrightarrow> (\<exists>ys. log_slice c m start stop ys \<and> es = map (\<lambda>(i, e, n). e) ys)"

lemma cached_in_view: "lru_view L l' = lru_view L l \<Longrightarrow> cached_in L l' m = cached_in L l m"
  by (simp add: cached_in_def)

lemma walk_read:
  assumes "lru_laws L" "cached_in L l (log_map c m)" "cache_walk L [start..<stop + 1] l = (l', Some es)"
  shows "read_ok c m start stop es"
proof -
  note w = cache_walk_ok [OF assms(1), of "[start..<stop + 1]" l, unfolded assms(3)]
  then have len: "length es = stop + 1 - start"
    and hit: "\<And>k. k < stop + 1 - start \<Longrightarrow> map_option fst (lru_view L l (start + k)) = Some (es ! k)"
    by (auto simp del: upt_Suc)
  let ?f = "\<lambda>i. the (lru_view L l i)"
  have "log_map c m i = Some (?f i)" if "start \<le> i" "i < stop + 1" for i
  proof -
    have "i - start < stop + 1 - start" using that by arith
    from hit [OF this] have "lru_view L l i \<noteq> None" using that(1) by auto
    then show ?thesis using assms(2) unfolding cached_in_def by auto
  qed
  then have "log_slice c m start stop (map (\<lambda>i. (i, ?f i)) [start..<stop + 1])"
    using slice_of_hits [of start "stop + 1" c m ?f] by simp
  moreover have "es = map (\<lambda>(i, e, n). e) (map (\<lambda>i. (i, ?f i)) [start..<stop + 1])"
  proof (rule nth_equalityI)
    fix k
    assume "k < length es"
    then show "es ! k = map (\<lambda>(i, e, n). e) (map (\<lambda>i. (i, ?f i)) [start..<stop + 1]) ! k"
      using hit [of k] len by (auto simp: split_beta simp del: upt_Suc)
  qed (simp add: len del: upt_Suc)
  ultimately show ?thesis unfolding read_ok_def by blast
qed

lemma try_get_correct:
  assumes laws: "db_laws db view crash" "lru_laws L" and inv: "raft_log_inv c view L s"
    and start: "range_start sb = Ok start" "start \<le> u64_max" and stop: "range_end eb \<le> u64_max"
    and t: "try_get_log_entries c db L sb eb s = (s', r)"
  shows "raft_log_inv c view L s' \<and> rl_contents view s' = rl_contents view s
    \<and> (\<forall>es. r = Ok es \<longrightarrow> read_ok c (rl_contents view s) start (range_end eb) es)"
proof -
  let ?stop = "range_end eb" and ?m = "rl_contents view s"
  let ?want = "min (?stop + 1) u64_max - start"
  obtain l arcs where w: "(if ?want > 0 \<and> ?want \<le> DEFAULT_ENTRY_CACHE_CAP
      then cache_walk L [start..<?stop + 1] (rl_entry_cache s) else (rl_entry_cache s, None)) = (l, arcs)" by fastforce
  have cin: "cached_in L (rl_entry_cache s) (log_map c ?m)" "log_wf c ?m" using inv by (simp_all add: raft_log_inv_def)
  have l: "lru_view L l = lru_view L (rl_entry_cache s)"
    using w cache_walk_ok [OF laws(2), of "[start..<?stop + 1]" "rl_entry_cache s"] by (auto split: if_splits)
  then have cl: "cached_in L l (log_map c ?m)" using cin(1) by (simp add: cached_in_def)
  show ?thesis
  proof (cases arcs)
    case (Some es)
    then have "cache_walk L [start..<?stop + 1] (rl_entry_cache s) = (l, Some es)" using w by (simp split: if_splits)
    from walk_read [OF laws(2) cin(1) this] show ?thesis
      using t start(1) w Some cl cin(2) by (auto simp: try_get_log_entries_def raft_log_inv_def Let_def)
  next
    case None
    let ?rb = "range_budgeted c db start ?stop u64_max (rl_inner s)"
    show ?thesis
    proof (cases ?rb)
      case (Ok es)
      from range_budgeted_prefix [OF laws(1) cin(2) start(2) stop this]
      have sl: "log_slice c ?m start ?stop es" by (auto simp: budget_prefix_all)
      then have "fold put_entry es (log_map c ?m) = log_map c ?m"
        by (intro fold_put_same) (auto simp: log_slice_def)
      with cached_put_all [OF laws(2) cl, of es]
      have "cached_in L (cache_put_all L es l) (log_map c ?m)" by simp
      then show ?thesis using t start(1) w None Ok sl cin(2)
        by (auto simp: try_get_log_entries_def raft_log_inv_def Let_def read_ok_def)
    qed (use t start(1) w None cl cin(2) in \<open>auto simp: try_get_log_entries_def raft_log_inv_def Let_def\<close>)
  qed
qed

text \<open>The budgeted walk returns a run of cached entries from the start.\<close>

definition cached_entry :: "('l, 'e \<times> nat) Lru \<Rightarrow> 'l \<Rightarrow> nat \<Rightarrow> nat \<times> 'e \<times> nat" where
  "cached_entry L l i = (i, the (lru_view L l i))"

lemma budget_walk_ok:
  assumes "lru_laws L"
  shows "budget_walk L budget used first is l = (l', es, missed) \<Longrightarrow>
    lru_view L l' = lru_view L l \<and> length es \<le> length is
    \<and> (\<forall>i \<in> set (take (length es) is). lru_view L l i \<noteq> None)
    \<and> es = map (\<lambda>(i, e, n). e) (map (cached_entry L l) (take (length es) is))
    \<and> (missed \<longrightarrow> first)"
proof (induction "is" arbitrary: used first l l' es missed)
  case (Cons i "is")
  note g = lru_lawsD(1,2) [OF assms, of i l]
  obtain l1 r where l1: "lru_get L i l = (l1, r)" by fastforce
  show ?case
  proof (cases r)
    case None
    then show ?thesis using Cons.prems g by (auto simp: l1)
  next
    case (Some p)
    obtain e n where p: "p = (e, n)" by fastforce
    have v: "lru_view L l i = Some (e, n)" "lru_view L l1 = lru_view L l" using g Some by (simp_all add: l1 p)
    have ce: "cached_entry L l1 = cached_entry L l" using v(2) by (simp add: cached_entry_def fun_eq_iff)
    obtain l2 es2 m2 where w: "budget_walk L budget (min (used + n) u64_max) False is l1 = (l2, es2, m2)"
      by (metis prod_cases3)
    note IH = Cons.IH [OF w, unfolded v(2) ce]
    consider "\<not> first \<and> min (used + n) u64_max > budget" | "first \<and> n > budget"
      | "\<not> (\<not> first \<and> min (used + n) u64_max > budget)" "\<not> (first \<and> n > budget)" by blast
    then show ?thesis
    proof cases
      case 1
      then show ?thesis using Cons.prems v by (auto simp: l1 Some p)
    next
      case 2
      then show ?thesis using Cons.prems v by (auto simp: l1 Some p cached_entry_def)
    next
      case 3
      then have "l' = l2" "es = e # es2" "missed = m2" using Cons.prems w by (auto simp: l1 Some p simp del: min_less_iff_conj)
      then show ?thesis using IH v(1) by (simp add: cached_entry_def)
    qed
  qed
qed auto

lemma budget_walk_rest:
  assumes "lru_laws L" "budget < u64_max"
  shows "budget_walk L budget used False is l = (l', es, missed) \<Longrightarrow> used \<le> budget \<Longrightarrow>
    used + sum_list (map (\<lambda>i. snd (the (lru_view L l i))) (take (length es) is)) \<le> budget"
proof (induction "is" arbitrary: used l l' es missed)
  case (Cons i "is")
  note g = lru_lawsD(1,2) [OF assms(1), of i l]
  obtain l1 r where l1: "lru_get L i l = (l1, r)" by fastforce
  show ?case
  proof (cases r)
    case None
    then show ?thesis using Cons.prems by (auto simp: l1)
  next
    case (Some p)
    obtain e n where p: "p = (e, n)" by fastforce
    have v: "lru_view L l i = Some (e, n)" "lru_view L l1 = lru_view L l" using g Some by (simp_all add: l1 p)
    show ?thesis
    proof (cases "min (used + n) u64_max > budget")
      case True
      then show ?thesis using Cons.prems by (simp add: l1 Some p)
    next
      case False
      then have u: "min (used + n) u64_max = used + n" "used + n \<le> budget"
        using assms(2) by (auto simp: min_def split: if_splits)
      obtain l2 es2 m2 where w: "budget_walk L budget (used + n) False is l1 = (l2, es2, m2)" by (metis prod_cases3)
      then have "es = e # es2" using Cons.prems(1) False by (simp add: l1 Some p u(1))
      then show ?thesis using Cons.IH [OF w u(2)] v by simp
    qed
  qed
qed auto

lemma budget_walk_fits:
  assumes "lru_laws L" "budget < u64_max" "budget_walk L budget 0 True is l = (l', es, missed)"
  shows "sum_list (map (\<lambda>i. snd (the (lru_view L l i))) (take (length es) is)) \<le> budget \<or> length es = 1"
proof (cases "is")
  case (Cons i is')
  note g = lru_lawsD(1,2) [OF assms(1), of i l]
  obtain l1 r where l1: "lru_get L i l = (l1, r)" by fastforce
  show ?thesis
  proof (cases r)
    case (Some p)
    obtain e n where p: "p = (e, n)" by fastforce
    have v: "lru_view L l i = Some (e, n)" "lru_view L l1 = lru_view L l" using g Some by (simp_all add: l1 p)
    show ?thesis
    proof (cases "n > budget")
      case False
      then have u: "min n u64_max = n" "n \<le> budget" using assms(2) by auto
      obtain l2 es2 m2 where w: "budget_walk L budget n False is' l1 = (l2, es2, m2)" by (metis prod_cases3)
      then have "es = e # es2" using assms(3) False by (simp add: Cons l1 Some p u(1))
      then show ?thesis using budget_walk_rest [OF assms(1,2) w u(2)] v by (simp add: Cons)
    qed (use assms(3) in \<open>auto simp: Cons l1 Some p\<close>)
  qed (use assms(3) in \<open>auto simp: Cons l1\<close>)
qed (use assms(3) in auto)

definition batch_ok ::
    "'e Codec \<Rightarrow> contents \<Rightarrow> nat \<Rightarrow> nat \<Rightarrow> nat \<Rightarrow> 'e list \<Rightarrow> bool" where
  "batch_ok c m start stop budget es \<longleftrightarrow>
     (\<exists>ys k. log_slice c m start stop ys \<and> es = map (\<lambda>(i, e, n). e) (take k ys) \<and> (ys \<noteq> [] \<longrightarrow> es \<noteq> [])
        \<and> (sum_list (map (\<lambda>(i, e, n). n) (take k ys)) \<le> budget \<or> length (take k ys) = 1))"

lemma walk_batch:
  assumes laws: "db_laws db view crash" "lru_laws L" and inv: "raft_log_inv c view L s"
    and b: "start < stop" "stop \<le> u64_max" "budget < u64_max"
    and w: "budget_walk L budget 0 True [start..<stop] (rl_entry_cache s) = (l, es, missed)" "es \<noteq> []"
  shows "batch_ok c (rl_contents view s) start (stop - 1) budget es"
proof -
  let ?m = "rl_contents view s" and ?l = "rl_entry_cache s"
  note ok = budget_walk_ok [OF laws(2) w(1)]
  define k where "k = length es"
  have k: "0 < k" "k \<le> stop - start" using ok w(2) by (auto simp: k_def)
  have tk: "take k [start..<stop] = [start..<start + k]" using k by simp
  have hit: "log_map c ?m i = Some (the (lru_view L ?l i))" if "start \<le> i" "i < start + k" for i
  proof -
    have "lru_view L ?l i \<noteq> None" using ok that tk unfolding k_def by (metis atLeastLessThan_iff set_upt)
    then show ?thesis using inv unfolding raft_log_inv_def cached_in_def by auto
  qed
  let ?hits = "map (cached_entry L ?l) [start..<start + k]"
  have h: "log_slice c ?m start (start + k - 1) ?hits"
    unfolding cached_entry_def by (rule slice_of_hits) (use hit k in auto)
  have bounds: "start + k \<le> u64_max" "stop - 1 \<le> u64_max" using b k by auto
  obtain ys where ys: "log_slice c ?m (start + k) (stop - 1) ys"
    using slice_exists [OF laws(1) _ bounds] inv unfolding raft_log_inv_def by blast
  have "log_slice c ?m start (stop - 1) (?hits @ ys)"
    by (rule slice_append [OF h ys]) (use b k in auto)
  moreover have "es = map (\<lambda>(i, e, n). e) (take k (?hits @ ys))" using ok tk by (simp add: k_def [symmetric])
  moreover have "sum_list (map (\<lambda>(i, e, n). n) (take k (?hits @ ys))) \<le> budget \<or> length (take k (?hits @ ys)) = 1"
    using budget_walk_fits [OF laws(2) b(3) w(1)] tk by (simp add: k_def [symmetric] cached_entry_def o_def split_beta)
  ultimately show ?thesis unfolding batch_ok_def using w(2) by blast
qed

lemma limited_get_correct:
  assumes laws: "db_laws db view crash" "lru_laws L" and inv: "raft_log_inv c view L s"
    and b: "stop \<le> u64_max" "budget < u64_max"
    and t: "limited_get_with_budget c db L start stop budget s = (s', r)"
  shows "raft_log_inv c view L s' \<and> rl_contents view s' = rl_contents view s
    \<and> (\<forall>es. r = Ok es \<and> start < stop \<longrightarrow> batch_ok c (rl_contents view s) start (stop - 1) budget es)"
proof (cases "start < stop")
  case True
  let ?m = "rl_contents view s"
  obtain l arcs missed where w: "budget_walk L budget 0 True [start..<stop] (rl_entry_cache s) = (l, arcs, missed)"
    by (metis prod_cases3)
  have cl: "raft_log_inv c view L (s\<lparr>rl_entry_cache := l\<rparr>)"
    using inv budget_walk_ok [OF laws(2) w] by (simp add: raft_log_inv_def cached_in_def)
  show ?thesis
  proof (cases "arcs \<noteq> [] \<and> \<not> missed")
    case hit: True
    then show ?thesis using t True w cl walk_batch [OF laws inv True b w]
      by (auto simp: limited_get_with_budget_def)
  next
    case False
    then have t': "(s', r) = bind_st (s\<lparr>rl_entry_cache := l\<rparr>, range_budgeted c db start (stop - 1) budget (rl_inner s))
        (\<lambda>s entries. (s, Ok (map (\<lambda>(i, e, n). e) entries)))"
      using t True w by (auto simp: limited_get_with_budget_def Let_def)
    have "batch_ok c ?m start (stop - 1) budget (map (\<lambda>(i, e, n). e) xs)"
      if x: "range_budgeted c db start (stop - 1) budget (rl_inner s) = Ok xs" for xs
    proof -
      have "log_wf c ?m" "start \<le> u64_max" "stop - 1 \<le> u64_max" using inv b True by (auto simp: raft_log_inv_def)
      from range_budgeted_prefix [OF laws(1) this x]
      obtain ys where ys: "log_slice c ?m start (stop - 1) ys" "xs = budget_prefix budget 0 True ys" by blast
      moreover obtain k where "xs = take k ys" using budget_prefix_prefix ys(2) by metis
      ultimately show ?thesis unfolding batch_ok_def
        using budget_prefix_nonempty [of ys budget 0] budget_prefix_fits [OF b(2), of ys] by (metis map_is_Nil_conv)
    qed
    then show ?thesis using t' cl
      by (cases "range_budgeted c db start (stop - 1) budget (rl_inner s)") auto
  qed
qed (use t inv in \<open>auto simp: limited_get_with_budget_def\<close>)

section \<open>Writes\<close>

lemma log_flushD:
  assumes "db_laws db view crash" "log_flush db s = (s', r)"
  shows "r \<noteq> Panic" "view (fl_db s') = view (fl_db s)"
    "r = Ok () \<Longrightarrow> crash (fl_db s') d \<Longrightarrow> view d = view (fl_db s')"
proof -
  obtain d1 r1 where p: "db_persist db (fl_db s) SyncAll = (d1, r1)" by fastforce
  have l: "r1 \<noteq> Panic" "view d1 = view (fl_db s)" "r1 = Ok () \<Longrightarrow> crash d1 d \<Longrightarrow> view d = view d1"
    using assms(1) p unfolding db_laws_def by blast+
  show "r \<noteq> Panic" "view (fl_db s') = view (fl_db s)"
    "r = Ok () \<Longrightarrow> crash (fl_db s') d \<Longrightarrow> view d = view (fl_db s')"
    using assms(2) l by (cases r1; auto simp: log_flush_def p)+
qed

lemma fsync_barrierD:
  assumes "db_laws db view crash" "fsync_barrier db s = (s', r)"
  shows "r \<noteq> Panic" "view (fl_db s') = view (fl_db s)"
    "r = Ok () \<Longrightarrow> commit_mode s = Buffer \<Longrightarrow> crash (fl_db s') d \<Longrightarrow> view d = view (fl_db s')"
    "commit_mode s = SyncAll \<Longrightarrow> s' = s"
proof -
  have f: "log_flush db s = (s', r)" if "commit_mode s = Buffer"
    using assms(2) that by (auto simp: fsync_barrier_def commit_mode_def split: if_splits)
  have n: "s' = s \<and> r = Ok ()" if "commit_mode s = SyncAll"
    using assms(2) that by (auto simp: fsync_barrier_def commit_mode_def split: if_splits)
  show "r \<noteq> Panic" "view (fl_db s') = view (fl_db s)"
    using log_flushD(1,2) [OF assms(1) f] n by (cases "commit_mode s"; simp)+
  show "r = Ok () \<Longrightarrow> commit_mode s = Buffer \<Longrightarrow> crash (fl_db s') d \<Longrightarrow> view d = view (fl_db s')"
    using log_flushD(3) [OF assms(1) f] by blast
  show "commit_mode s = SyncAll \<Longrightarrow> s' = s" using n by blast
qed

lemma set_meta_cases:
  assumes "db_laws db view crash" "set_meta c db key v s = (s', r)"
  shows "r \<noteq> Panic" "view (fl_db s') KsLog = view (fl_db s) KsLog"
    "r = Ok () \<Longrightarrow> \<exists>b. rec_encode c v = Ok b \<and> view (fl_db s') KsMeta = (view (fl_db s) KsMeta)(key \<mapsto> b)"
    "r = Ok () \<Longrightarrow> commit_mode s = SyncAll \<Longrightarrow> crash (fl_db s') d \<Longrightarrow> view d = view (fl_db s')"
proof -
  have "r \<noteq> Panic \<and> view (fl_db s') KsLog = view (fl_db s) KsLog \<and>
    (r = Ok () \<longrightarrow> (\<exists>b. rec_encode c v = Ok b \<and> view (fl_db s') KsMeta = (view (fl_db s) KsMeta)(key \<mapsto> b))) \<and>
    (r = Ok () \<longrightarrow> commit_mode s = SyncAll \<longrightarrow> crash (fl_db s') d \<longrightarrow> view d = view (fl_db s'))"
  proof (cases "rec_encode c v")
    case (Ok b)
    have k: "commit_items db [(KsMeta, BInsert key b)] s = (s', r)" using assms(2) Ok by (simp add: set_meta_def)
    note cd = db_commitD [OF assms(1) k]
    have "view (fl_db s') KsLog = view (fl_db s) KsLog" using cd(2,3) by (cases "r = Ok ()") simp_all
    moreover have "view (fl_db s') KsMeta = (view (fl_db s) KsMeta)(key \<mapsto> b)" if "r = Ok ()"
      using cd(2) [OF that] by simp
    ultimately show ?thesis using cd(1) cd(4) [of d] Ok by blast
  next
    case Panic
    then show ?thesis by (cases "cd_to_stdvec c v") (simp_all add: rec_encode_def)
  qed (use assms(2) in \<open>auto simp: set_meta_def\<close>)
  then show "r \<noteq> Panic" "view (fl_db s') KsLog = view (fl_db s) KsLog"
    "r = Ok () \<Longrightarrow> \<exists>b. rec_encode c v = Ok b \<and> view (fl_db s') KsMeta = (view (fl_db s) KsMeta)(key \<mapsto> b)"
    "r = Ok () \<Longrightarrow> commit_mode s = SyncAll \<Longrightarrow> crash (fl_db s') d \<Longrightarrow> view d = view (fl_db s')"
    by blast+
qed

lemma log_wf_cong: "m KsLog = m' KsLog \<Longrightarrow> log_wf c m = log_wf c m'"
  by (simp add: log_wf_def)

lemma log_map_cong: "m KsLog = m' KsLog \<Longrightarrow> log_map c m = log_map c m'"
  by (simp add: log_map_def fun_eq_iff)

lemma cached_triples:
  "map fst recs = map idx es \<Longrightarrow>
     map2 (\<lambda>e (i, n). (i, e, n)) es (map (\<lambda>(i, b). (i, length b)) recs) = map2 (\<lambda>e n. (idx e, e, n)) es (map (length \<circ> snd) recs)
     \<and> map2 (\<lambda>(i, e) (j, b). (i, e, length b)) (map (\<lambda>e. (idx e, e)) es) recs
        = map2 (\<lambda>e n. (idx e, e, n)) es (map (length \<circ> snd) recs)"
proof (induction es arbitrary: recs)
  case (Cons e es)
  then obtain b recs' where "recs = (idx e, b) # recs'" "map fst recs' = map idx es" by (cases recs) auto
  then show ?case using Cons.IH [of recs'] by simp
qed simp

definition appended :: "('e \<Rightarrow> nat) \<Rightarrow> 'e list \<Rightarrow> (nat \<Rightarrow> ('e \<times> nat) option) \<Rightarrow> (nat \<Rightarrow> ('e \<times> nat) option) \<Rightarrow> bool" where
  "appended idx es m m' \<longleftrightarrow> (\<exists>ns. length ns = length es \<and> m' = fold put_entry (map2 (\<lambda>e n. (idx e, e, n)) es ns) m)"

lemma append_synced:
  assumes "db_laws db view crash" "append_batch c db es s = (s', Ok ns)" "es \<noteq> []" "commit_mode s = SyncAll"
    "crash (fl_db s') d"
  shows "view d = view (fl_db s')"
proof (cases "encode_all c es")
  case (Ok recs)
  have "recs \<noteq> []"
  proof
    assume "recs = []"
    then show False using Ok assms(3) by (cases es) (auto split: prod.splits)
  qed
  obtain s1 r1 where k: "commit_items db (map (\<lambda>(i, b). (KsLog, BInsert (be64_bytes i) b)) recs) s = (s1, r1)"
    by fastforce
  have "r1 = Ok ()" "s1 = s'" using assms(2) Ok k \<open>recs \<noteq> []\<close> by (cases r1; auto simp: append_batch_def)+
  then show ?thesis using db_commitD(4) [OF assms(1) k] assms(4,5) by blast
qed (use assms(2) in \<open>auto simp: append_batch_def\<close>)

lemma raft_append_cases:
  assumes laws: "db_laws db view crash" "codec_laws c" "lru_laws L" and inv: "raft_log_inv c view L s"
    and idx: "list_all (\<lambda>e. idx e \<le> u64_max) es" and t: "raft_append c db L idx es s = (s', r)"
  shows "raft_log_inv c view L s'" "r \<noteq> Panic"
    "appended idx es (log_map c (rl_contents view s)) (log_map c (rl_contents view s')) \<or>
      r \<noteq> Ok () \<and> log_map c (rl_contents view s') = log_map c (rl_contents view s)"
    "r = Ok () \<Longrightarrow> es \<noteq> [] \<Longrightarrow> crash (fl_db (rl_inner s')) d \<Longrightarrow> view d = rl_contents view s'"
proof -
  let ?m = "rl_contents view s" and ?es = "map (\<lambda>e. (idx e, e)) es"
  obtain s1 r1 where a: "append_batch c db ?es (rl_inner s) = (s1, r1)" by fastforce
  note ab = append_batch_cases [OF laws(1) a]
  have wf: "log_wf c ?m" and cin: "cached_in L (rl_entry_cache s) (log_map c ?m)" using inv by (simp_all add: raft_log_inv_def)
  have "raft_log_inv c view L s' \<and> r \<noteq> Panic \<and> (appended idx es (log_map c ?m) (log_map c (rl_contents view s')) \<or>
      r \<noteq> Ok () \<and> log_map c (rl_contents view s') = log_map c ?m) \<and>
      (r = Ok () \<and> es \<noteq> [] \<and> crash (fl_db (rl_inner s')) d \<longrightarrow> view d = rl_contents view s')"
  proof (cases "is_ok r1")
    case False
    then have "s' = s\<lparr>rl_inner := s1\<rparr>" "r \<noteq> Ok ()" "r \<noteq> Panic"
      using t ab(1) by (cases r1; auto simp: raft_append_def lift_inner_def a)+
    then show ?thesis using ab(2) [OF False] wf cin by (simp add: raft_log_inv_def)
  next
    case True
    then obtain sizes where r1: "r1 = Ok sizes" by (cases r1) auto
    then obtain recs where recs: "encode_all c ?es = Ok recs" "sizes = map (\<lambda>(i, b). (i, length b)) recs"
      "view (fl_db s1) = write_recs recs ?m" using ab(3) by blast
    have "list_all (\<lambda>(i, e). i \<le> u64_max) ?es" using idx by (simp add: list_all_iff)
    note wr = write_recs_map [OF laws(2) recs(1) this wf]
    have "map fst recs = map idx es" using wr by (simp add: o_def)
    note tr = cached_triples [OF this]
    let ?tr = "map2 (\<lambda>e n. (idx e, e, n)) es (map (length \<circ> snd) recs)"
    define l where "l = cache_put_all L ?tr (rl_entry_cache s)"
    have lm: "log_map c (view (fl_db s1)) = fold put_entry ?tr (log_map c ?m)" "log_wf c (view (fl_db s1))"
      using wr tr recs(3) by simp_all
    have l: "cached_in L l (log_map c (view (fl_db s1)))"
      unfolding lm l_def by (rule cached_put_all [OF laws(3) cin])
    have "length recs = length es" using \<open>map fst recs = map idx es\<close> map_eq_imp_length_eq by blast
    then have app: "appended idx es (log_map c ?m) (log_map c (view (fl_db s1)))"
      unfolding appended_def lm by (intro exI [of _ "map (length \<circ> snd) recs"]) simp
    obtain s2 r2 where b: "fsync_barrier db s1 = (s2, r2)" by fastforce
    note fb = fsync_barrierD [OF laws(1) b]
    have s': "s' = \<lparr>rl_inner = s2, rl_entry_cache = l\<rparr>" "r = r2"
      using t tr recs(2) b by (auto simp: raft_append_def lift_inner_def a r1 l_def Let_def)
    have "view d = view (fl_db s2)" if "r2 = Ok ()" "es \<noteq> []" "crash (fl_db s2) d"
    proof (cases "commit_mode s1")
      case Buffer
      then show ?thesis using fb(3) that by blast
    next
      case SyncAll
      then have "commit_mode (rl_inner s) = SyncAll" "s2 = s1" using ab(4,5) fb(4) by (auto simp: commit_mode_def)
      then show ?thesis using append_synced [OF laws(1) a [unfolded r1]] that by simp
    qed
    then show ?thesis using fb(1,2) lm(2) l app by (simp add: s' raft_log_inv_def)
  qed
  then show "raft_log_inv c view L s'" "r \<noteq> Panic"
    "appended idx es (log_map c ?m) (log_map c (rl_contents view s')) \<or>
      r \<noteq> Ok () \<and> log_map c (rl_contents view s') = log_map c ?m"
    "r = Ok () \<Longrightarrow> es \<noteq> [] \<Longrightarrow> crash (fl_db (rl_inner s')) d \<Longrightarrow> view d = rl_contents view s'"
    by blast+
qed

lemma truncate_cases:
  assumes "db_laws db view crash" "lru_laws L" "log_wf c (rl_contents view s)" "raft_truncate_after db L lim s = (s', r)"
  shows "log_wf c (rl_contents view s')" "r \<noteq> Panic"
    "raft_log_inv c view L s \<Longrightarrow> raft_log_inv c view L s'"
    "r \<noteq> Ok () \<Longrightarrow> rl_contents view s' = rl_contents view s"
proof -
  define f where "f = (case lim of Some i \<Rightarrow> truncate_after db i | None \<Rightarrow> truncate_before db u64_max)"
  obtain s1 r1 where t: "f (rl_inner s) = (s1, r1)" by fastforce
  have "\<exists>lo hi. remove_keys db (db_range db (fl_db (rl_inner s)) KsLog lo hi) (rl_inner s) = (s1, r1)"
    using t by (cases lim) (auto simp: f_def truncate_after_def truncate_before_def)
  then obtain lo hi where k: "remove_keys db (db_range db (fl_db (rl_inner s)) KsLog lo hi) (rl_inner s) = (s1, r1)" by blast
  note rk = remove_keys_cases [OF assms(1) k]
  have wf: "log_wf c (view (fl_db s1))"
    using rk(2,3) assms(3) cut_log_wf [OF assms(3)] by (cases "is_ok r1") simp_all
  have s': "s' = (if is_ok r1 then \<lparr>rl_inner = s1, rl_entry_cache = lru_clear L (rl_entry_cache s)\<rparr> else s\<lparr>rl_inner := s1\<rparr>)"
    "r = (if is_ok r1 then Ok () else map_err (\<lambda>e. e) (bind_res r1 (\<lambda>_. Ok ())))"
    using assms(4) t unfolding raft_truncate_after_def f_def [symmetric]
    by (cases r1; auto simp: lift_inner_def)+
  show "log_wf c (rl_contents view s')" using wf by (simp add: s')
  show "r \<noteq> Panic" using rk(1) by (cases r1) (simp_all add: s')
  show "r \<noteq> Ok () \<Longrightarrow> rl_contents view s' = rl_contents view s" using rk(2) by (simp add: s' split: if_splits)
  show "raft_log_inv c view L s \<Longrightarrow> raft_log_inv c view L s'"
    using wf rk(2) by (auto simp: s' raft_log_inv_def cached_in_def lru_lawsD(5) [OF assms(2)])
qed

lemma truncate_map:
  assumes "db_laws db view crash" "raft_truncate_after db L lim s = (s', Ok ())"
    "\<And>a. lim = Some a \<Longrightarrow> a < u64_max" "log_map c (rl_contents view s) u64_max = None"
  shows "log_map c (rl_contents view s') = keep_entries (after_kept lim) (log_map c (rl_contents view s))"
proof (cases lim)
  case None
  obtain s1 r1 where t: "truncate_before db u64_max (rl_inner s) = (s1, r1)" by fastforce
  then obtain n where r1: "r1 = Ok n" and s': "rl_inner s' = s1"
    using assms(2) None by (cases r1) (auto simp: raft_truncate_after_def lift_inner_def)
  have "log_map c (rl_contents view s) i = None" if "u64_max \<le> i" for i
    using assms(4) that by (cases "i = u64_max") (simp_all add: log_map_def)
  then show ?thesis unfolding s' truncate_before_map(1) [OF assms(1) order_refl t [unfolded r1]]
    by (auto simp: None keep_entries_def after_kept_def fun_eq_iff)
next
  case (Some a)
  obtain s1 r1 where t: "truncate_after db a (rl_inner s) = (s1, r1)" by fastforce
  then obtain n where r1: "r1 = Ok n" and s': "rl_inner s' = s1"
    using assms(2) Some by (cases r1) (auto simp: raft_truncate_after_def lift_inner_def)
  show ?thesis unfolding s' truncate_after_map(1) [OF assms(1) assms(3) [OF Some] t [unfolded r1]]
    by (auto simp: Some keep_entries_def after_kept_def fun_eq_iff)
qed

lemma purge_cases:
  assumes laws: "db_laws db view crash" "lru_laws L" and wf: "log_wf c (rl_contents view s)" and i: "ix lid < u64_max"
    and t: "raft_purge ic db L ix lid s = (s', r)"
  shows "log_wf c (rl_contents view s')" "r \<noteq> Panic"
    "log_map c (rl_contents view s') = keep_entries (\<lambda>j. ix lid < j) (log_map c (rl_contents view s)) \<or>
      r \<noteq> Ok () \<and> rl_contents view s' = rl_contents view s"
    "r = Ok () \<Longrightarrow> raft_log_inv c view L s \<Longrightarrow> raft_log_inv c view L s'"
proof -
  let ?m = "log_map c (rl_contents view s)"
  obtain before where before: "add_u64 (ix lid) 1 = (Ok before :: (IoError, nat) res)" "before \<le> u64_max"
    and kept: "(\<lambda>j. before \<le> j) = (\<lambda>j. ix lid < j)"
    using i by (auto simp: add_u64_def Suc_le_eq fun_eq_iff)
  define save where "save = set_meta ic db (string_bytes ''last_purged'') lid"
  note t' = t [unfolded raft_purge_def save_def [symmetric] before(1)]
  obtain s1 r1 where tb: "truncate_before db before (rl_inner s) = (s1, r1)" by fastforce
  note rk = remove_keys_cases [OF laws(1) tb [unfolded truncate_before_def]]
  have "log_wf c (rl_contents view s') \<and> r \<noteq> Panic \<and>
    (log_map c (rl_contents view s') = keep_entries (\<lambda>j. ix lid < j) ?m \<or> r \<noteq> Ok () \<and> rl_contents view s' = rl_contents view s) \<and>
    (r = Ok () \<and> raft_log_inv c view L s \<longrightarrow> raft_log_inv c view L s')"
  proof (cases "is_ok r1")
    case False
    have "lift_inner (truncate_before db before) s = (s\<lparr>rl_inner := s1\<rparr>, r1)" by (simp add: lift_inner_def tb)
    note t'' = t' [unfolded bind_st.simps this]
    obtain e where "r1 = Err e" using False rk(1) by (cases r1) simp_all
    then have "s' = s\<lparr>rl_inner := s1\<rparr>" "r \<noteq> Ok ()" "r \<noteq> Panic" using t'' by auto
    then show ?thesis using rk(2) [OF False] wf by simp
  next
    case True
    then obtain n where n: "r1 = Ok n" by (cases r1) auto
    note tm = truncate_before_map [OF laws(1) before(2) tb [unfolded n], of c]
    obtain s2 r2 where sm: "save s1 = (s2, r2)" by fastforce
    note sc = set_meta_cases [OF laws(1) sm [unfolded save_def]]
    have lm: "log_map c (view (fl_db s2)) = keep_entries (\<lambda>j. ix lid < j) ?m" "log_wf c (view (fl_db s2))"
      using tm wf log_map_cong [of "view (fl_db s2)" "view (fl_db s1)" c]
        log_wf_cong [of "view (fl_db s2)" "view (fl_db s1)" c] sc(2) by (simp_all add: kept)
    let ?ks = "filter (\<lambda>i. i \<le> ix lid) (lru_keys L (rl_entry_cache s))"
    have li: "lift_inner (truncate_before db before) s = (s\<lparr>rl_inner := s1\<rparr>, Ok n)"
      "lift_inner save (s\<lparr>rl_inner := s1\<rparr>) = (s\<lparr>rl_inner := s2\<rparr>, r2)" by (simp_all add: lift_inner_def tb n sm)
    note t'' = t' [unfolded bind_st.simps li Let_def]
    have s': "rl_inner s' = s2" "r = r2" "r2 = Ok () \<Longrightarrow> rl_entry_cache s' = fold (lru_pop L) ?ks (rl_entry_cache s)"
      using t'' by (cases r2; auto)+
    have "cached_in L (fold (lru_pop L) ?ks (rl_entry_cache s)) (keep_entries (\<lambda>j. ix lid < j) ?m)"
      if "cached_in L (rl_entry_cache s) ?m"
      unfolding cached_in_def
    proof (intro allI impI)
      fix j p
      assume "lru_view L (fold (lru_pop L) ?ks (rl_entry_cache s)) j = Some p"
      then have j: "j \<notin> set ?ks" "lru_view L (rl_entry_cache s) j = Some p"
        by (simp_all only: fold_pop_view [OF laws(2)] split: if_splits) blast+
      then have "ix lid < j" using lru_lawsD(6) [OF laws(2), of "rl_entry_cache s"] by (fastforce simp: dom_def)
      then show "keep_entries (\<lambda>j. ix lid < j) ?m j = Some p"
        using that j(2) unfolding cached_in_def keep_entries_def by metis
    qed
    then show ?thesis using lm sc(1) s' by (auto simp: raft_log_inv_def)
  qed
  then show "log_wf c (rl_contents view s')" "r \<noteq> Panic"
    "log_map c (rl_contents view s') = keep_entries (\<lambda>j. ix lid < j) ?m \<or> r \<noteq> Ok () \<and> rl_contents view s' = rl_contents view s"
    "r = Ok () \<Longrightarrow> raft_log_inv c view L s \<Longrightarrow> raft_log_inv c view L s'"
    by blast+
qed

section \<open>The contract of a Raft log\<close>

definition fjall_append_call ::
    "'e Codec \<Rightarrow> 'd Database \<Rightarrow> ('l, 'e \<times> nat) Lru \<Rightarrow> ('e \<Rightarrow> nat) \<Rightarrow> 'e list \<Rightarrow> ('d, 'l) FjallRaftLogStore \<Rightarrow>
       ('d, 'l) FjallRaftLogStore \<times> bool" where
  "fjall_append_call c db L idx es s = map_prod (\<lambda>x. x) is_ok (raft_append c db L idx es s)"

definition fjall_truncate_call ::
    "'d Database \<Rightarrow> ('l, 'e \<times> nat) Lru \<Rightarrow> nat option \<Rightarrow> ('d, 'l) FjallRaftLogStore \<Rightarrow> ('d, 'l) FjallRaftLogStore \<times> bool" where
  "fjall_truncate_call db L lim s = map_prod (\<lambda>x. x) is_ok (raft_truncate_after db L lim s)"

definition fjall_purge_call ::
    "nat Codec \<Rightarrow> 'd Database \<Rightarrow> ('l, 'e \<times> nat) Lru \<Rightarrow> nat \<Rightarrow> ('d, 'l) FjallRaftLogStore \<Rightarrow> ('d, 'l) FjallRaftLogStore \<times> bool" where
  "fjall_purge_call ic db L i s = map_prod (\<lambda>x. x) is_ok (raft_purge ic db L (\<lambda>i. i) i s)"

definition log_entries :: "'e Codec \<Rightarrow> ('d \<Rightarrow> contents) \<Rightarrow> ('d, 'l) FjallRaftLogStore \<Rightarrow> nat \<Rightarrow> 'e option" where
  "log_entries c view s i = map_option fst (log_map c (rl_contents view s) i)"

definition log_indexed :: "'e Codec \<Rightarrow> ('d \<Rightarrow> contents) \<Rightarrow> ('l, 'e \<times> nat) Lru \<Rightarrow> ('d, 'l) FjallRaftLogStore \<Rightarrow> bool" where
  "log_indexed c view L s \<longleftrightarrow> log_wf c (rl_contents view s) \<and> log_map c (rl_contents view s) u64_max = None"

lemma appended_entries:
  assumes "appended idx es m m'"
  shows "(\<lambda>i. map_option fst (m' i)) = fold (\<lambda>e m. m(idx e \<mapsto> e)) es (\<lambda>i. map_option fst (m i))"
proof -
  have "length ns = length es \<Longrightarrow>
    (\<lambda>i. map_option fst (fold put_entry (map2 (\<lambda>e n. (idx e, e, n)) es ns) m i))
      = fold (\<lambda>e m. m(idx e \<mapsto> e)) es (\<lambda>i. map_option fst (m i))" for ns
  proof (induction es arbitrary: ns m)
    case (Cons e es)
    then obtain n ns' where ns: "ns = n # ns'" by (cases ns) auto
    have "(\<lambda>i. map_option fst (put_entry (idx e, e, n) m i)) = (\<lambda>i. map_option fst (m i))(idx e \<mapsto> e)"
      by (auto simp: put_entry_def fun_eq_iff)
    then show ?case using Cons ns by (simp add: fun_upd_def)
  qed simp
  then show ?thesis using assms unfolding appended_def by blast
qed

lemma raft_log_inv_nocache: "lru_laws L \<Longrightarrow> log_wf c (rl_contents view s) \<Longrightarrow>
    raft_log_inv c view L (s\<lparr>rl_entry_cache := lru_clear L (rl_entry_cache s)\<rparr>)"
  by (simp add: raft_log_inv_def cached_in_def lru_lawsD(5))

lemma keep_entries_fst:
  "(\<lambda>i. map_option fst (keep_entries P m i)) = keep_entries P (\<lambda>i. map_option fst (m i))"
  by (auto simp: keep_entries_def fun_eq_iff)

lemma put_entry_other: "fst p \<noteq> i \<Longrightarrow> put_entry p m i = m i"
  by (simp add: put_entry_def)

lemma appended_other: "appended idx es m m' \<Longrightarrow> i \<notin> idx ` set es \<Longrightarrow> m' i = m i"
proof -
  assume "appended idx es m m'" "i \<notin> idx ` set es"
  moreover have "length ns = length es \<Longrightarrow> i \<notin> idx ` set es \<Longrightarrow>
    fold put_entry (map2 (\<lambda>e n. (idx e, e, n)) es ns) m i = m i" for ns
  proof (induction es arbitrary: ns m)
    case (Cons e es)
    then obtain n ns' where "ns = n # ns'" by (cases ns) auto
    then show ?case using Cons by (simp add: put_entry_other)
  qed simp
  ultimately show "m' i = m i" by (auto simp: appended_def)
qed

text \<open>What the append writes does not depend on the cache, so that no coherence is needed.\<close>

lemma append_no_cache:
  assumes "raft_append c db L idx es s = (s', r)"
  shows "\<exists>l. raft_append c db L idx es (s\<lparr>rl_entry_cache := k\<rparr>) = (s'\<lparr>rl_entry_cache := l\<rparr>, r)"
proof -
  obtain inner l where s: "s = \<lparr>rl_inner = inner, rl_entry_cache = l\<rparr>" by (cases s)
  obtain s1 r1 where a: "append_batch c db (map (\<lambda>e. (idx e, e)) es) inner = (s1, r1)" by fastforce
  obtain s2 r2 where b: "fsync_barrier db s1 = (s2, r2)" by fastforce
  show ?thesis using assms by (cases r1) (auto simp: raft_append_def lift_inner_def s a b)
qed

lemma fjall_raft_log_storage:
  assumes laws: "db_laws db view crash" "codec_laws c" "lru_laws L"
  shows "raft_log_storage (log_entries c view) (log_indexed c view L) idx (fjall_append_call c db L idx)
    (fjall_truncate_call db L) (fjall_purge_call ic db L)"
proof (unfold_locales, goal_cases)
  case (1 s es s' b)
  obtain r where t: "raft_append c db L idx es s = (s', r)" and b: "b = is_ok r"
    using 1(3) by (cases "raft_append c db L idx es s") (auto simp: fjall_append_call_def)
  from append_no_cache [OF t, of "lru_clear L (rl_entry_cache s)"] obtain l where
    t': "raft_append c db L idx es (s\<lparr>rl_entry_cache := lru_clear L (rl_entry_cache s)\<rparr>) = (s'\<lparr>rl_entry_cache := l\<rparr>, r)" by blast
  have idx: "list_all (\<lambda>e. idx e \<le> u64_max) es" using 1(2) by (auto simp: list_all_iff)
  have wf: "log_wf c (rl_contents view s)" using 1(1) by (simp add: log_indexed_def)
  note ac = raft_append_cases [OF laws raft_log_inv_nocache [where s = s and view = view, OF laws(3) wf] idx t', simplified]
  have top: "log_map c (rl_contents view s') u64_max = None"
  proof -
    have "u64_max \<notin> idx ` set es" using 1(2) by (auto simp: list_all_iff)
    then show ?thesis using ac(3) appended_other [of idx es "log_map c (rl_contents view s)" _ u64_max] 1(1)
      unfolding log_indexed_def by metis
  qed
  have wf': "log_wf c (rl_contents view s')" using ac(1) by (simp add: raft_log_inv_def)
  have "is_ok r \<longleftrightarrow> r = Ok ()" by (cases r) auto
  then show ?case
    using ac(3) top wf' appended_entries [of idx es "log_map c (rl_contents view s)" "log_map c (rl_contents view s')"]
    by (auto simp: b log_indexed_def effect_def log_entries_def [abs_def])
next
  case (2 s lim s' b)
  obtain r where t: "raft_truncate_after db L lim s = (s', r)" and b: "b = is_ok r"
    using 2(3) by (cases "raft_truncate_after db L lim s") (auto simp: fjall_truncate_call_def)
  have wf: "log_wf c (rl_contents view s)" and top: "log_map c (rl_contents view s) u64_max = None"
    using 2(1) by (simp_all add: log_indexed_def)
  note tc = truncate_cases [OF laws(1,3) wf t]
  show ?case
  proof (cases "r = Ok ()")
    case True
    have "log_map c (rl_contents view s') = keep_entries (after_kept lim) (log_map c (rl_contents view s))"
      by (rule truncate_map [OF laws(1) t [unfolded True] _ top]) (use 2(2) in blast)
    then show ?thesis using tc(1) top
      by (simp add: True b log_indexed_def effect_def log_entries_def [abs_def] keep_entries_fst) (simp add: keep_entries_def)
  next
    case False
    then have "\<not> is_ok r" by (cases r) auto
    then show ?thesis using tc(1,4) top False by (simp add: b log_indexed_def effect_def log_entries_def [abs_def])
  qed
next
  case (3 s i s' b)
  obtain r where t: "raft_purge ic db L (\<lambda>i. i) i s = (s', r)" and b: "b = is_ok r"
    using 3(3) by (cases "raft_purge ic db L (\<lambda>i. i) i s") (auto simp: fjall_purge_call_def)
  have wf: "log_wf c (rl_contents view s)" and top: "log_map c (rl_contents view s) u64_max = None"
    using 3(1) by (simp_all add: log_indexed_def)
  note pc = purge_cases [OF laws(1,3) wf _ t, simplified, OF 3(2)]
  have ok: "is_ok r \<longleftrightarrow> r = Ok ()" by (cases r) auto
  from pc(3) show ?case
  proof
    assume m: "log_map c (rl_contents view s') = keep_entries ((<) i) (log_map c (rl_contents view s))"
    then show ?thesis using pc(1) top
      by (simp add: b log_indexed_def effect_def log_entries_def [abs_def] keep_entries_fst) (simp add: keep_entries_def)
  next
    assume "r \<noteq> Ok () \<and> rl_contents view s' = rl_contents view s"
    then show ?thesis using pc(1) top by (simp add: b ok log_indexed_def effect_def log_entries_def [abs_def])
  qed
qed

section \<open>Runs\<close>

text \<open>Calls in any order, each of them with any outcome; a purge that removed its entries but could not record the purge point
  is excluded, since it leaves the cache behind (\<open>failed_purge_stale\<close> below).\<close>

inductive raft_log_step ::
    "'e Codec \<Rightarrow> 'i Codec \<Rightarrow> 'i option Codec \<Rightarrow> 'v Codec \<Rightarrow> 'd Database \<Rightarrow> ('l, 'e \<times> nat) Lru \<Rightarrow> ('e \<Rightarrow> nat) \<Rightarrow>
       ('i \<Rightarrow> nat) \<Rightarrow> ('d, 'l) FjallRaftLogStore \<Rightarrow> ('d, 'l) FjallRaftLogStore \<Rightarrow> bool"
  for c ic cc vc db L idx ix where
  rl_append: "list_all (\<lambda>e. idx e \<le> u64_max) es \<Longrightarrow> raft_append c db L idx es s = (s', r) \<Longrightarrow>
    raft_log_step c ic cc vc db L idx ix s s'"
| rl_truncate: "raft_truncate_after db L lim s = (s', r) \<Longrightarrow> raft_log_step c ic cc vc db L idx ix s s'"
| rl_purge: "ix lid < u64_max \<Longrightarrow> raft_purge ic db L ix lid s = (s', Ok ()) \<Longrightarrow> raft_log_step c ic cc vc db L idx ix s s'"
| rl_read: "range_start sb = Ok start \<Longrightarrow> start \<le> u64_max \<Longrightarrow> range_end eb \<le> u64_max \<Longrightarrow>
    try_get_log_entries c db L sb eb s = (s', r1) \<Longrightarrow> raft_log_step c ic cc vc db L idx ix s s'"
| rl_replicate: "stop \<le> u64_max \<Longrightarrow> budget < u64_max \<Longrightarrow> limited_get_with_budget c db L start stop budget s = (s', r1) \<Longrightarrow>
    raft_log_step c ic cc vc db L idx ix s s'"
| rl_vote: "save_vote vc db vote s = (s', r) \<Longrightarrow> raft_log_step c ic cc vc db L idx ix s s'"
| rl_committed: "save_committed cc db committed s = (s', r) \<Longrightarrow> raft_log_step c ic cc vc db L idx ix s s'"

definition raft_log_init ::
    "'e Codec \<Rightarrow> ('d \<Rightarrow> contents) \<Rightarrow> ('l, 'e \<times> nat) Lru \<Rightarrow> ('d, 'l) FjallRaftLogStore \<Rightarrow> bool" where
  "raft_log_init c view L s \<longleftrightarrow> log_wf c (rl_contents view s) \<and> lru_view L (rl_entry_cache s) = Map.empty"

lemma meta_inv:
  assumes "db_laws db view crash" "raft_log_inv c view L s" "lift_inner (set_meta mc db key v) s = (s', r)"
  shows "raft_log_inv c view L s'"
proof -
  obtain s1 r1 where m: "set_meta mc db key v (rl_inner s) = (s1, r1)" by fastforce
  have "s' = s\<lparr>rl_inner := s1\<rparr>" using assms(3) by (simp add: lift_inner_def m)
  moreover have "log_wf c (view (fl_db s1)) = log_wf c (rl_contents view s)"
    "log_map c (view (fl_db s1)) = log_map c (rl_contents view s)"
    using log_wf_cong [of "view (fl_db s1)" "rl_contents view s"] log_map_cong [of "view (fl_db s1)" "rl_contents view s"]
      set_meta_cases(2) [OF assms(1) m] by blast+
  ultimately show ?thesis using assms(2) by (simp add: raft_log_inv_def)
qed

interpretation raft_log: invariant_system "raft_log_init c view L" "raft_log_step c ic cc vc db L idx ix"
  "\<lambda>s. db_laws db view crash \<and> codec_laws c \<and> lru_laws L \<longrightarrow> raft_log_inv c view L s"
  for c view L ic cc vc db idx ix crash
proof (unfold_locales, goal_cases)
  case (1 s)
  then show ?case by (simp add: raft_log_init_def raft_log_inv_def cached_in_def)
next
  case (2 s t)
  show ?case
  proof
    assume laws: "db_laws db view crash \<and> codec_laws c \<and> lru_laws L"
    with 2(1) have inv: "raft_log_inv c view L s" by blast
    then have wf: "log_wf c (rl_contents view s)" by (simp add: raft_log_inv_def)
    from 2(2) show "raft_log_inv c view L t"
    proof cases
      case rl_append
      then show ?thesis using raft_append_cases(1) laws inv by blast
    next
      case rl_truncate
      then show ?thesis using truncate_cases(3) [where s = s and view = view] wf laws inv by blast
    next
      case (rl_purge lid)
      show ?thesis
        by (rule purge_cases(4) [where s = s and view = view, OF _ _ wf rl_purge(1,2) refl inv]) (use laws in blast)+
    next
      case rl_read
      then show ?thesis using try_get_correct laws inv by blast
    next
      case rl_replicate
      then show ?thesis using limited_get_correct laws inv by blast
    next
      case (rl_vote v r)
      show ?thesis by (rule meta_inv [OF _ inv rl_vote(1) [unfolded save_vote_def]]) (use laws in blast)
    next
      case (rl_committed v r)
      show ?thesis by (rule meta_inv [OF _ inv rl_committed(1) [unfolded save_committed_def]]) (use laws in blast)
    qed
  qed
qed


text \<open>C31: In every such run a replication batch, served from the cache or from the database, is a prefix of what the log
  stores in the requested range. It is not empty when something is stored there, however small the budget, so that a
  follower always advances; and its records fit the byte budget unless it is a single record.\<close>

theorem replication_batch_bounded:
  assumes "db_laws db view crash" "codec_laws c" "lru_laws L"
    and "reach (raft_log_init c view L) (raft_log_step c ic cc vc db L idx ix) s"
    and "start < stop" "stop \<le> u64_max" "budget < u64_max"
    and "limited_get_with_budget c db L start stop budget s = (s', Ok es)"
  shows "\<exists>ys k. log_slice c (rl_contents view s) start (stop - 1) ys \<and> es = map (\<lambda>(i, e, n). e) (take k ys)
    \<and> (ys \<noteq> [] \<longrightarrow> es \<noteq> [])
    \<and> (sum_list (map (\<lambda>(i, e, n). n) (take k ys)) \<le> budget \<or> length (take k ys) = 1)"
  using limited_get_correct [OF assms(1,3) _ assms(6-8)] raft_log.reach_inv [OF assms(4)] assms(1-3,5)
  unfolding batch_ok_def by blast

section \<open>Crashes\<close>

lemma fold_upd_in:
  "distinct (map idx es) \<Longrightarrow> e \<in> set es \<Longrightarrow> fold (\<lambda>e m. m(idx e \<mapsto> e)) es m (idx e) = Some e"
proof (induction es arbitrary: m)
  case (Cons x es)
  have other: "i \<notin> idx ` set es \<Longrightarrow> fold (\<lambda>e m. m(idx e \<mapsto> e)) es m i = m i" for i m
    by (induction es arbitrary: m) auto
  show ?case using Cons other [of "idx x" "m(idx x \<mapsto> x)"] by (auto simp: fun_upd_def)
qed simp

text \<open>C13: An append that was acknowledged survives a crash, with every durability setting: what the next process finds holds
  the appended entries, nothing of the log before them is lost, and a log without holes has none after it.\<close>

theorem append_survives_crash:
  assumes laws: "db_laws db view crash" "codec_laws c" "lru_laws L"
    and run: "reach (raft_log_init c view L) (raft_log_step c ic cc vc db L idx ix) s"
    and log: "\<And>i. log_map c (rl_contents view s) i \<noteq> None \<longleftrightarrow> lo < i \<and> i \<le> hi" "lo \<le> hi"
    and es: "map idx es = [hi + 1..<hi + 1 + n]" "0 < n" "hi + n < u64_max"
    and app: "raft_append c db L idx es s = (s', Ok ())" and crash: "crash (fl_db (rl_inner s')) d"
  shows "(\<forall>i. log_map c (view d) i \<noteq> None \<longleftrightarrow> lo < i \<and> i \<le> hi + n)
    \<and> (\<forall>i \<le> hi. log_map c (view d) i = log_map c (rl_contents view s) i)
    \<and> (\<forall>e \<in> set es. map_option fst (log_map c (view d) (idx e)) = Some e)"
proof -
  let ?m = "log_map c (rl_contents view s)" and ?m' = "log_map c (rl_contents view s')"
  have inv: "raft_log_inv c view L s" using raft_log.reach_inv [OF run] laws by blast
  have ids: "idx ` set es = {hi + 1..<hi + 1 + n}" using es(1) by (metis set_map set_upt)
  have le: "idx e \<le> u64_max" if "e \<in> set es" for e using es(3) imageI [OF that, of idx] unfolding ids by simp
  then have "list_all (\<lambda>e. idx e \<le> u64_max) es" by (simp add: list_all_iff)
  note ac = raft_append_cases [OF laws inv this app]
  have "es \<noteq> []" using es(1,2) by auto
  then have d: "view d = rl_contents view s'" using ac(4) crash by blast
  have app': "appended idx es ?m ?m'" using ac(3) by blast
  note store = raft_log_storage.append_contiguous [OF fjall_raft_log_storage [OF laws, of idx],
      unfolded raft_log_storage.holds_def [OF fjall_raft_log_storage [OF laws, of idx]]]
  have "log_indexed c view L s" using inv log(1) [of u64_max] es(3) by (auto simp: log_indexed_def raft_log_inv_def simp del: not_None_eq)
  moreover have "fjall_append_call c db L idx es s = (s', True)" by (simp add: fjall_append_call_def app)
  ultimately have "\<forall>i. log_entries c view s' i \<noteq> None \<longleftrightarrow> lo < i \<and> i \<le> hi + n"
    using store [of s lo hi es n s'] log es by (simp add: log_entries_def del: upt_Suc)
  moreover have "?m' i = ?m i" if "i \<le> hi" for i
    by (rule appended_other [OF app']) (use that ids in auto)
  moreover have "map_option fst (?m' (idx e)) = Some e" if "e \<in> set es" for e
  proof -
    have "distinct (map idx es)" unfolding es(1) by simp
    from trans [OF fun_cong [OF appended_entries [OF app'], of "idx e"] fold_upd_in [OF this that]] show ?thesis .
  qed
  ultimately show ?thesis by (auto simp: d log_entries_def)
qed

text \<open>With a synchronous commit per write (the default) a vote that was saved is the vote a process reads after
  a crash, so that a node never votes twice in a term.\<close>

lemma vote_survives_crash:
  assumes "db_laws db view crash" "codec_laws vc" "commit_mode (rl_inner s) = SyncAll"
    and "save_vote vc db vote s = (s', Ok ())" "crash (fl_db (rl_inner s')) d"
    and "read_vote vc db (s'\<lparr>rl_inner := (rl_inner s')\<lparr>fl_db := d\<rparr>\<rparr>) = Ok v"
  shows "v = Some vote"
proof -
  define key where "key = string_bytes ''vote''"
  obtain s1 r1 where m: "set_meta vc db key vote (rl_inner s) = (s1, r1)" by fastforce
  have s': "s' = s\<lparr>rl_inner := s1\<rparr>" "r1 = Ok ()"
    using assms(4) unfolding save_vote_def key_def [symmetric] by (simp_all add: lift_inner_def m)
  note sc = set_meta_cases [OF assms(1) m]
  obtain b where b: "rec_encode vc vote = Ok b" "view (fl_db s1) KsMeta = (view (fl_db (rl_inner s)) KsMeta)(key \<mapsto> b)"
    using sc(3) s'(2) by blast
  have d: "view d KsMeta key = Some b" using sc(4) [OF s'(2) assms(3)] assms(5) b(2) by (simp add: s')
  obtain w where w: "db_get db d KsMeta key = Ok w"
    using assms(6) unfolding read_vote_def key_def [symmetric]
    by (cases "db_get db d KsMeta key") (simp_all add: get_meta_def)
  then have "w = Some b" using assms(1) d by (simp add: db_laws_def)
  then show ?thesis using assms(6) w rec_roundtrip [OF assms(2) b(1)]
    unfolding read_vote_def key_def [symmetric] by (simp add: get_meta_def)
qed

section \<open>Examples\<close>

definition demo_cache :: "((nat \<times> bytes \<times> nat) list, bytes \<times> nat) Lru" where
  "demo_cache = list_lru 2"

definition demo_raft_log :: "(DemoDb, (nat \<times> bytes \<times> nat) list) FjallRaftLogStore" where
  "demo_raft_log = \<lparr>rl_inner = with_fsync_coalescing demo_log_store, rl_entry_cache = []\<rparr>"

definition first_byte :: "bytes \<Rightarrow> nat" where
  "first_byte e = unat (hd e)"

lemma demo_cache_laws: "lru_laws demo_cache"
  unfolding demo_cache_def by (rule list_lru_laws)

lemma be64_three: "be64_bytes 3 = [0, 0, 0, 0, 0, 0, 0, 3]"
proof -
  have "(8 :: nat) = Suc (Suc (Suc (Suc (Suc (Suc (Suc (Suc 0)))))))" by simp
  then have "be64_bytes 3 = rev (le_bytes (Suc (Suc (Suc (Suc (Suc (Suc (Suc (Suc 0)))))))) 3)"
    unfolding be64_bytes_def by metis
  then show ?thesis by simp
qed

definition demo_appended :: "(DemoDb, (nat \<times> bytes \<times> nat) list) FjallRaftLogStore" where
  "demo_appended =
     \<lparr>rl_inner = \<lparr>fl_db = \<lparr>dd_log = [(be64_bytes 1, [1, 7]), (be64_bytes 2, [1, 8, 9]), (be64_bytes 3, [1, 3])], dd_meta = [],
        dd_saved = ([(be64_bytes 1, [1, 7]), (be64_bytes 2, [1, 8, 9]), (be64_bytes 3, [1, 3])], []), dd_faults = []\<rparr>,
        fl_sync_per_write = True, fl_coalescer = True\<rparr>, rl_entry_cache = [(3, [3], 2)]\<rparr>"

lemma demo_append_run: "raft_append demo_codec demo_db demo_cache first_byte [[3]] demo_raft_log = (demo_appended, Ok ())"
  by (simp add: raft_append_def lift_inner_def append_batch_def rec_encode_def demo_codec_def demo_raft_log_def
      demo_log_store_def with_fsync_coalescing_def commit_items_def commit_mode_def demo_db_def dd_save_def fsync_barrier_def
      log_flush_def demo_appended_def cache_put_all_def demo_cache_def list_lru_def RECORD_SCHEMA_VERSION_def first_byte_def
      be64_small be64_three)

lemma demo_raft_init: "raft_log_init demo_codec dd_view demo_cache demo_raft_log"
proof -
  have "rl_contents dd_view demo_raft_log = dd_view (fl_db demo_log_store)"
    by (simp add: demo_raft_log_def with_fsync_coalescing_def)
  then show ?thesis using demo_log_wf by (simp add: raft_log_init_def demo_raft_log_def demo_cache_def list_lru_def)
qed

lemma demo_raft_reach: "reach (raft_log_init demo_codec dd_view demo_cache)
    (raft_log_step demo_codec ic cc vc demo_db demo_cache first_byte ix) demo_appended"
proof -
  have "raft_log_step demo_codec ic cc vc demo_db demo_cache first_byte ix demo_raft_log demo_appended"
    by (rule rl_append [OF _ demo_append_run]) (simp add: first_byte_def u64_max_val)
  with reach_init [of "raft_log_init demo_codec dd_view demo_cache", OF demo_raft_init] show ?thesis by (rule reach_step)
qed


theorem replication_batch_bounded_witness:
  "\<exists>s'. limited_get_with_budget demo_codec demo_db demo_cache 1 4 2 demo_appended = (s', Ok [[7]])
    \<and> (\<exists>ys k. log_slice demo_codec (rl_contents dd_view demo_appended) 1 3 ys \<and> [[7]] = map (\<lambda>(i, e, n). e) (take k ys))"
proof -
  have w: "budget_walk demo_cache 2 0 True [1..<4] (rl_entry_cache demo_appended) = (rl_entry_cache demo_appended, [], True)"
    by (simp add: upt_conv_Cons [of 1 4, simplified] demo_appended_def demo_cache_def list_lru_def)
  have "range_budgeted demo_codec demo_db 1 3 2 (rl_inner demo_appended) = Ok [(1, [7], 2)]"
    by (simp add: range_budgeted_def demo_db_def dd_list_def dd_items_def demo_appended_def be64_small be64_three rec_decode_def
        demo_codec_def RECORD_SCHEMA_VERSION_def u64_max_val)
  then have t: "limited_get_with_budget demo_codec demo_db demo_cache 1 4 2 demo_appended = (demo_appended, Ok [[7]])"
    using w by (simp add: limited_get_with_budget_def)
  have "(1 :: nat) < 4" "4 \<le> u64_max" "2 < u64_max" by (simp_all add: u64_max_val)
  from replication_batch_bounded [OF demo_db_laws demo_codec_laws demo_cache_laws demo_raft_reach this t]
  obtain ys k where "log_slice demo_codec (rl_contents dd_view demo_appended) 1 (4 - 1) ys"
    "[[7]] = map (\<lambda>(i, e, n). e) (take k ys)" by (elim exE conjE) (rule that)
  moreover have "(4 :: nat) - 1 = 3" by simp
  ultimately show ?thesis using t by metis
qed

lemma demo_log_map: "log_map demo_codec (rl_contents dd_view demo_raft_log) i \<noteq> None \<longleftrightarrow> 0 < i \<and> i \<le> 2"
proof -
  have "i = 1 \<or> i = 2 \<longleftrightarrow> 0 < i \<and> i \<le> 2" by auto
  moreover have "1 \<le> u64_max" "2 \<le> u64_max" by (simp_all add: u64_max_val)
  ultimately show ?thesis using be64_inj [of i 1] be64_inj [of i 2]
    by (auto simp: log_map_def demo_raft_log_def with_fsync_coalescing_def demo_log_store_def dd_view_def dd_items_def sized_def
        rec_decode_def demo_codec_def RECORD_SCHEMA_VERSION_def)
qed

theorem append_survives_crash_witness:
  "raft_append demo_codec demo_db demo_cache first_byte [[3]] demo_raft_log = (demo_appended, Ok ())
   \<and> dd_crash (fl_db (rl_inner demo_appended)) (fl_db (rl_inner demo_appended))
   \<and> (\<forall>i. log_map demo_codec (rl_contents dd_view demo_appended) i \<noteq> None \<longleftrightarrow> 0 < i \<and> i \<le> 2 + 1)"
proof -
  have r: "reach (raft_log_init demo_codec dd_view demo_cache)
      (raft_log_step demo_codec demo_codec undefined undefined demo_db demo_cache first_byte undefined) demo_raft_log"
    by (rule reach_init) (rule demo_raft_init)
  have c: "dd_crash (fl_db (rl_inner demo_appended)) (fl_db (rl_inner demo_appended))" by (simp add: dd_crash_def)
  have "map first_byte [[3]] = [2 + 1..<2 + 1 + 1]" by (simp add: first_byte_def)
  from append_survives_crash [OF demo_db_laws demo_codec_laws demo_cache_laws r demo_log_map _ this _ _ demo_append_run c]
  show ?thesis using demo_append_run c by (simp add: u64_max_val)
qed

lemma demo_set_meta:
  assumes "dd_faults (fl_db s) = []"
  shows "set_meta demo_codec demo_db key v s
    = (s\<lparr>fl_db := dd_save (commit_mode s) ((fl_db s)\<lparr>dd_meta := AList.update key (1 # v) (dd_meta (fl_db s))\<rparr>)\<rparr>, Ok ())"
proof -
  obtain l m sv y co where s: "s = \<lparr>fl_db = \<lparr>dd_log = l, dd_meta = m, dd_saved = sv, dd_faults = []\<rparr>,
      fl_sync_per_write = y, fl_coalescer = co\<rparr>"
    using assms by (cases s; cases "fl_db s") simp
  show ?thesis
    by (simp add: s set_meta_def rec_encode_def demo_codec_def commit_items_def demo_db_def RECORD_SCHEMA_VERSION_def)
qed

lemma demo_get_meta:
  "map_of (dd_meta (fl_db s)) key = Some (1 # v) \<Longrightarrow> get_meta demo_codec demo_db key s = Ok (Some v)"
  "map_of (dd_meta (fl_db s)) key = None \<Longrightarrow> get_meta demo_codec demo_db key s = Ok None"
  by (simp_all add: get_meta_def demo_db_def dd_items_def rec_decode_def demo_codec_def RECORD_SCHEMA_VERSION_def)

definition demo_synced :: "(DemoDb, (nat \<times> bytes \<times> nat) list) FjallRaftLogStore" where
  "demo_synced = \<lparr>rl_inner = demo_log_store, rl_entry_cache = []\<rparr>"

lemma vote_survives_crash_example:
  "\<exists>s'. save_vote demo_codec demo_db [5] demo_synced = (s', Ok ()) \<and>
     read_vote demo_codec demo_db (s'\<lparr>rl_inner := (rl_inner s')\<lparr>fl_db := fl_db (rl_inner s')\<rparr>\<rparr>) = Ok (Some [5])"
proof -
  define key where "key = string_bytes ''vote''"
  have faults: "dd_faults (fl_db demo_log_store) = []" by (simp add: demo_log_store_def)
  obtain s' where s: "save_vote demo_codec demo_db [5] demo_synced = (s', Ok ())"
    and meta: "map_of (dd_meta (fl_db (rl_inner s'))) key = Some [1, 5]"
    unfolding save_vote_def key_def [symmetric] lift_inner_def
    by (simp add: demo_synced_def demo_set_meta [OF faults] update_conv' dd_save_def)
  have "commit_mode (rl_inner demo_synced) = SyncAll" by (simp add: commit_mode_def demo_synced_def demo_log_store_def)
  moreover have "dd_crash (fl_db (rl_inner s')) (fl_db (rl_inner s'))" by (simp add: dd_crash_def)
  moreover have "\<exists>v. read_vote demo_codec demo_db (s'\<lparr>rl_inner := (rl_inner s')\<lparr>fl_db := fl_db (rl_inner s')\<rparr>\<rparr>) = Ok v"
    unfolding read_vote_def key_def [symmetric] using demo_get_meta(1) [of _ key "[5]"] meta by auto
  ultimately show ?thesis
    using s vote_survives_crash [OF demo_db_laws demo_codec_laws _ s] by metis
qed


text \<open>A purge whose second write fails leaves the purged entries in the cache, and reads go on returning them.\<close>

lemma failed_purge_stale:
  fixes s defines "s \<equiv> demo_appended\<lparr>rl_inner := (rl_inner demo_appended)\<lparr>fl_db := (fl_db (rl_inner demo_appended))\<lparr>dd_faults := [False, True]\<rparr>\<rparr>\<rparr>"
  shows "\<exists>s'. raft_purge demo_codec demo_db demo_cache first_byte [3] s = (s', Err IoOther)
    \<and> log_map demo_codec (rl_contents dd_view s') 3 = None
    \<and> snd (try_get_log_entries demo_codec demo_db demo_cache (Included 3) (Excluded 4) s') = Ok [[3]]"
proof -
  define key where "key = string_bytes ''last_purged''"
  have four: "be64_bytes 4 = [0, 0, 0, 0, 0, 0, 0, 4]"
  proof -
    have "(8 :: nat) = Suc (Suc (Suc (Suc (Suc (Suc (Suc (Suc 0)))))))" by simp
    then have "be64_bytes 4 = rev (le_bytes (Suc (Suc (Suc (Suc (Suc (Suc (Suc (Suc 0)))))))) 4)"
      unfolding be64_bytes_def by metis
    then show ?thesis by simp
  qed
  let ?s = "\<lparr>rl_inner = \<lparr>fl_db = \<lparr>dd_log = [], dd_meta = [],
        dd_saved = ([(be64_bytes 1, [1, 7]), (be64_bytes 2, [1, 8, 9]), (be64_bytes 3, [1, 3])], []), dd_faults = []\<rparr>,
        fl_sync_per_write = True, fl_coalescer = True\<rparr>, rl_entry_cache = [(3, [3], 2)]\<rparr>"
  have "truncate_before demo_db 4 (rl_inner s) = ((rl_inner ?s)\<lparr>fl_db := (fl_db (rl_inner ?s))\<lparr>dd_faults := [True]\<rparr>\<rparr>, Ok 3)"
    by (simp add: s_def demo_appended_def truncate_before_def remove_keys_def demo_db_def dd_list_def dd_items_def be64_small
        be64_three four commit_items_def commit_mode_def dd_save_def)
  moreover have "set_meta demo_codec demo_db key [3] ((rl_inner ?s)\<lparr>fl_db := (fl_db (rl_inner ?s))\<lparr>dd_faults := [True]\<rparr>\<rparr>)
      = (rl_inner ?s, Err IoOther)"
    by (simp add: set_meta_def rec_encode_def demo_codec_def commit_items_def demo_db_def)
  ultimately have "raft_purge demo_codec demo_db demo_cache first_byte [3] s = (?s, Err IoOther)"
    unfolding raft_purge_def key_def [symmetric]
    by (simp add: lift_inner_def first_byte_def add_u64_def u64_max_val s_def demo_appended_def)
  moreover have "log_map demo_codec (rl_contents dd_view ?s) 3 = None"
    by (simp add: log_map_def dd_view_def dd_items_def)
  moreover have "snd (try_get_log_entries demo_codec demo_db demo_cache (Included 3) (Excluded 4) ?s) = Ok [[3]]"
    by (simp add: try_get_log_entries_def range_start_def range_end_def demo_cache_def list_lru_def
        DEFAULT_ENTRY_CACHE_CAP_def u64_max_val)
  ultimately show ?thesis by blast
qed

end
