(* ===== verification/Fsync_Coalescer.thy ===== *)
theory Fsync_Coalescer
  imports Kiseki_Prelude "HOL-Library.Multiset"
begin

text \<open>
  Group commit (\<^verbatim>\<open>crates/kiseki-raft/src/fsync_coalescer.rs\<close>). Callers that have written to the journal park in a
  waiter list; one synchronous persist answers all of them. The callers, the window timers and the
  persists in progress run concurrently, so the model is a step relation whose steps are the critical
  sections of the code (each holds the state mutex) and the persist calls between them. The state
  carries two ghosts: how many journal writes have been made and how many are on stable storage, and each waiter
  remembers the number of writes at the time it joined.
\<close>

section \<open>State\<close>

type_synonym waiter = "nat \<times> nat"

record FsyncCoalescer =
  fc_waiters :: "waiter list"
  fc_drain_scheduled :: bool
  fc_max_batch :: nat
  fc_timers :: nat
  fc_draining :: "waiter list list"
  fc_answers :: "(waiter \<times> bool) list"
  fc_written :: nat
  fc_synced :: nat

definition fsync_coalescer_new :: "nat \<Rightarrow> FsyncCoalescer" where
  "fsync_coalescer_new max_batch =
     \<lparr>fc_waiters = [], fc_drain_scheduled = False, fc_max_batch = max max_batch 1, fc_timers = 0,
      fc_draining = [], fc_answers = [], fc_written = 0, fc_synced = 0\<rparr>"

section \<open>Steps\<close>

text \<open>The critical section of \<^verbatim>\<open>flush\<close>: join the waiters, and either take them all for an inline persist or
  make sure a window timer is running.\<close>

definition flush_join :: "nat \<Rightarrow> FsyncCoalescer \<Rightarrow> FsyncCoalescer" where
  "flush_join caller s =
     (let waiters = fc_waiters s @ [(caller, fc_written s)] in
      if length waiters \<ge> fc_max_batch s
      then s\<lparr>fc_drain_scheduled := False, fc_waiters := [], fc_draining := fc_draining s @ [waiters]\<rparr>
      else if \<not> fc_drain_scheduled s
      then s\<lparr>fc_waiters := waiters, fc_drain_scheduled := True, fc_timers := fc_timers s + 1\<rparr>
      else s\<lparr>fc_waiters := waiters\<rparr>)"

text \<open>A window timer that fires.\<close>

definition timer_drain :: "FsyncCoalescer \<Rightarrow> FsyncCoalescer" where
  "timer_drain s =
     (let waiters = fc_waiters s;
          s = s\<lparr>fc_timers := fc_timers s - 1, fc_drain_scheduled := False, fc_waiters := []\<rparr>
      in if waiters = [] then s else s\<lparr>fc_draining := fc_draining s @ [waiters]\<rparr>)"

text \<open>One physical persist and the answers to its group. A persist that succeeds covers everything written
  before it began.\<close>

definition do_persist_and_notify :: "waiter list \<Rightarrow> bool \<Rightarrow> FsyncCoalescer \<Rightarrow> FsyncCoalescer" where
  "do_persist_and_notify waiters result s =
     s\<lparr>fc_draining := remove1 waiters (fc_draining s),
       fc_synced := (if result then fc_written s else fc_synced s),
       fc_answers := fc_answers s @ map (\<lambda>w. (w, result)) waiters\<rparr>"

inductive internal_step :: "FsyncCoalescer \<Rightarrow> FsyncCoalescer \<Rightarrow> bool" where
  cs_timer: "0 < fc_timers s \<Longrightarrow> internal_step s (timer_drain s)"
| cs_persist: "waiters \<in> set (fc_draining s) \<Longrightarrow> internal_step s (do_persist_and_notify waiters result s)"

inductive coalescer_step :: "FsyncCoalescer \<Rightarrow> FsyncCoalescer \<Rightarrow> bool" where
  cs_internal: "internal_step s t \<Longrightarrow> coalescer_step s t"
| cs_write: "coalescer_step s (s\<lparr>fc_written := fc_written s + 1\<rparr>)"
| cs_flush: "coalescer_step s (flush_join caller s)"

definition coalescer_init :: "FsyncCoalescer \<Rightarrow> bool" where
  "coalescer_init s \<longleftrightarrow> (\<exists>max_batch. s = fsync_coalescer_new max_batch)"

section \<open>Invariant\<close>

definition unanswered :: "FsyncCoalescer \<Rightarrow> waiter multiset" where
  "unanswered s = mset (fc_waiters s) + mset (concat (fc_draining s))"

definition coalescer_inv :: "FsyncCoalescer \<Rightarrow> bool" where
  "coalescer_inv s \<longleftrightarrow>
     (fc_waiters s \<noteq> [] \<longrightarrow> fc_drain_scheduled s) \<and> (fc_drain_scheduled s \<longrightarrow> 0 < fc_timers s)
     \<and> length (fc_waiters s) < fc_max_batch s \<and> fc_synced s \<le> fc_written s
     \<and> (\<forall>w \<in># unanswered s. snd w \<le> fc_written s)
     \<and> (\<forall>w. (w, True) \<in> set (fc_answers s) \<longrightarrow> snd w \<le> fc_synced s)"

lemma concat_remove1: "xs \<in> set xss \<Longrightarrow> mset xs + mset (concat (remove1 xs xss)) = mset (concat xss)"
  by (induction xss) auto

lemma unanswered_flush: "unanswered (flush_join caller s) = unanswered s + {#(caller, fc_written s)#}"
  by (simp add: unanswered_def flush_join_def Let_def)

lemma unanswered_timer: "unanswered (timer_drain s) = unanswered s"
  by (simp add: unanswered_def timer_drain_def Let_def)

lemma unanswered_persist:
  "ws \<in> set (fc_draining s) \<Longrightarrow> mset ws + unanswered (do_persist_and_notify ws r s) = unanswered s"
  using concat_remove1 [of ws "fc_draining s"] by (simp add: unanswered_def do_persist_and_notify_def)

lemma internal_step_inv:
  assumes "internal_step s t" "coalescer_inv s"
  shows "coalescer_inv t"
  using assms
proof (induction rule: internal_step.induct)
  case (cs_timer s)
  have "\<forall>w \<in># unanswered (timer_drain s). snd w \<le> fc_written s"
    using cs_timer(2) by (simp add: unanswered_timer coalescer_inv_def)
  moreover have "0 < fc_max_batch s" using cs_timer(2) by (simp add: coalescer_inv_def)
  ultimately show ?case using cs_timer(2) by (simp add: coalescer_inv_def timer_drain_def Let_def)
next
  case (cs_persist ws s r)
  note u = unanswered_persist [OF cs_persist(1), of r]
  have "w \<in># unanswered s" if "w \<in> set ws \<or> w \<in># unanswered (do_persist_and_notify ws r s)" for w
    using that u by (metis set_mset_mset union_iff)
  moreover have "\<forall>w \<in># unanswered s. snd w \<le> fc_written s" using cs_persist(2) by (simp add: coalescer_inv_def)
  ultimately have "\<forall>w \<in># unanswered (do_persist_and_notify ws r s). snd w \<le> fc_written s" "\<forall>w \<in> set ws. snd w \<le> fc_written s"
    by blast+
  moreover have "snd w \<le> fc_written s" if "(w, True) \<in> set (fc_answers s)" for w
    using that cs_persist(2) unfolding coalescer_inv_def by (meson le_trans)
  ultimately show ?case using cs_persist(2) by (auto simp: coalescer_inv_def do_persist_and_notify_def)
qed

lemma flush_join_inv:
  assumes "coalescer_inv s"
  shows "coalescer_inv (flush_join caller s)"
proof -
  have "fc_written (flush_join caller s) = fc_written s" by (simp add: flush_join_def Let_def)
  then have "\<forall>w \<in># unanswered (flush_join caller s). snd w \<le> fc_written (flush_join caller s)"
    using assms by (auto simp: unanswered_flush coalescer_inv_def)
  then show ?thesis using assms by (auto simp: coalescer_inv_def flush_join_def Let_def)
qed

interpretation coalescer: invariant_system coalescer_init coalescer_step coalescer_inv
proof (unfold_locales, goal_cases)
  case (1 s)
  then show ?case by (auto simp: coalescer_init_def fsync_coalescer_new_def coalescer_inv_def unanswered_def)
next
  case (2 s t)
  from 2(2,1) show ?case
  proof (induction rule: coalescer_step.induct)
    case (cs_internal s t)
    then show ?case using internal_step_inv by blast
  next
    case (cs_write s)
    then show ?case by (auto simp: coalescer_inv_def unanswered_def le_Suc_eq)
  next
    case (cs_flush s caller)
    then show ?case by (rule flush_join_inv)
  qed
qed

section \<open>Everyone is answered\<close>

definition settled :: "FsyncCoalescer \<Rightarrow> bool" where
  "settled s \<longleftrightarrow> fc_waiters s = [] \<and> fc_draining s = []"

lemma drain_groups:
  "fc_waiters s = [] \<Longrightarrow> length (fc_draining s) = n \<Longrightarrow>
     \<exists>t. (internal_step ^^ n) s t \<and> settled t
       \<and> mset (map fst (fc_answers t)) = mset (map fst (fc_answers s)) + unanswered s"
proof (induction n arbitrary: s)
  case 0
  then show ?case by (auto simp: settled_def unanswered_def)
next
  case (Suc n)
  then obtain ws rest where d: "fc_draining s = ws # rest" by (cases "fc_draining s") auto
  let ?s = "do_persist_and_notify ws True s"
  have "internal_step s ?s" by (rule cs_persist) (simp add: d)
  moreover have "fc_waiters ?s = []" "length (fc_draining ?s) = n"
    using Suc.prems d by (simp_all add: do_persist_and_notify_def)
  then obtain t where "(internal_step ^^ n) ?s t" "settled t"
    "mset (map fst (fc_answers t)) = mset (map fst (fc_answers ?s)) + unanswered ?s"
    using Suc.IH by blast
  moreover have "mset (map fst (fc_answers ?s)) + unanswered ?s = mset (map fst (fc_answers s)) + unanswered s"
    using Suc.prems(1) d by (simp add: do_persist_and_notify_def unanswered_def o_def)
  ultimately show ?case by (metis relpowp_Suc_I2)
qed

lemma all_answered:
  assumes "coalescer_inv s"
  shows "\<exists>n t. n \<le> length (fc_draining s) + 2 \<and> (internal_step ^^ n) s t \<and> settled t
    \<and> mset (map fst (fc_answers t)) = mset (map fst (fc_answers s)) + unanswered s"
proof (cases "fc_waiters s = []")
  case True
  then show ?thesis using drain_groups [of s] by (metis le_add1)
next
  case False
  then have "0 < fc_timers s" using assms by (simp add: coalescer_inv_def)
  then have i: "internal_step s (timer_drain s)" by (rule cs_timer)
  have t: "fc_waiters (timer_drain s) = []" "length (fc_draining (timer_drain s)) = Suc (length (fc_draining s))"
    "fc_answers (timer_drain s) = fc_answers s"
    using False by (simp_all add: timer_drain_def Let_def)
  obtain u where "(internal_step ^^ Suc (length (fc_draining s))) (timer_drain s) u" "settled u"
    "mset (map fst (fc_answers u)) = mset (map fst (fc_answers s)) + unanswered s"
    using drain_groups [OF t(1,2)] by (auto simp: t(3) unanswered_timer)
  moreover have "Suc (Suc (length (fc_draining s))) \<le> length (fc_draining s) + 2" by simp
  ultimately show ?thesis using relpowp_Suc_I2 [of internal_step, OF i] by blast
qed


definition demo_coalescer :: FsyncCoalescer where
  "demo_coalescer = flush_join 1 ((fsync_coalescer_new 4)\<lparr>fc_written := 1\<rparr>)"


end
