(* ===== verification/Command_Journal.thy ===== *)
theory Command_Journal
  imports Raft_Log
begin

text \<open>
  Stores that keep a numbered command log in a durable log: command \<open>i\<close> of the list is the record at index \<open>i\<close>,
  counted from 1. The audit store and the key store of later theories are such stores
  (\<^verbatim>\<open>crates/kiseki-audit/src/persistent_store.rs\<close>, \<^verbatim>\<open>crates/kiseki-keymanager/src/persistent_store.rs\<close>).
\<close>

definition journal_holds :: "'e Codec \<Rightarrow> contents \<Rightarrow> 'e list \<Rightarrow> bool" where
  "journal_holds c m cmds \<longleftrightarrow>
     log_wf c m \<and> (\<forall>i. map_option fst (log_map c m i) = (if 1 \<le> i \<and> i \<le> length cmds then Some (cmds ! (i - 1)) else None))"

lemma journal_empty: "(\<And>k. m KsLog k = None) \<Longrightarrow> journal_holds c m []"
  by (simp add: journal_holds_def log_wf_def log_map_def)

lemma log_append_cases:
  assumes "db_laws db view crash" "log_append c db i e s = (s', r)"
  shows "r \<noteq> Panic" "r \<noteq> Ok () \<Longrightarrow> view (fl_db s') = view (fl_db s)"
    "r = Ok () \<Longrightarrow> \<exists>b. rec_encode c e = Ok b \<and> view (fl_db s') = write_rec i b (view (fl_db s))"
    "r = Ok () \<Longrightarrow> commit_mode s = SyncAll \<Longrightarrow> crash (fl_db s') d \<Longrightarrow> view d = view (fl_db s')"
    "commit_mode s' = commit_mode s"
proof -
  have "r \<noteq> Panic \<and> (r \<noteq> Ok () \<longrightarrow> view (fl_db s') = view (fl_db s)) \<and>
    (r = Ok () \<longrightarrow> (\<exists>b. rec_encode c e = Ok b \<and> view (fl_db s') = write_rec i b (view (fl_db s)))) \<and>
    (r = Ok () \<longrightarrow> commit_mode s = SyncAll \<longrightarrow> crash (fl_db s') d \<longrightarrow> view d = view (fl_db s')) \<and>
    commit_mode s' = commit_mode s"
  proof (cases "rec_encode c e")
    case (Ok b)
    have k: "commit_items db [(KsLog, BInsert (be64_bytes i) b)] s = (s', r)" using assms(2) Ok by (simp add: log_append_def)
    note cd = db_commitD [OF assms(1) k]
    have "view (fl_db s') = write_rec i b (view (fl_db s))" if "r = Ok ()"
      using cd(2) [OF that] by (simp add: write_rec_def)
    moreover have "commit_mode s' = commit_mode s" using cd(5,6) by (simp add: commit_mode_def)
    ultimately show ?thesis using cd(1,3) cd(4) [of d] Ok by blast
  next
    case Panic
    then show ?thesis by (cases "cd_to_stdvec c e") (simp_all add: rec_encode_def)
  qed (use assms(2) in \<open>auto simp: log_append_def\<close>)
  then show "r \<noteq> Panic" "r \<noteq> Ok () \<Longrightarrow> view (fl_db s') = view (fl_db s)"
    "r = Ok () \<Longrightarrow> \<exists>b. rec_encode c e = Ok b \<and> view (fl_db s') = write_rec i b (view (fl_db s))"
    "r = Ok () \<Longrightarrow> commit_mode s = SyncAll \<Longrightarrow> crash (fl_db s') d \<Longrightarrow> view d = view (fl_db s')"
    "commit_mode s' = commit_mode s"
    by blast+
qed

lemma journal_append:
  assumes "db_laws db view crash" "codec_laws c" "journal_holds c (view (fl_db s)) cmds"
    and "length cmds < u64_max" "log_append c db (length cmds + 1) e s = (s', Ok ())"
  shows "journal_holds c (view (fl_db s')) (cmds @ [e])"
proof -
  obtain b where b: "rec_encode c e = Ok b" "view (fl_db s') = write_rec (length cmds + 1) b (view (fl_db s))"
    using log_append_cases(3) [OF assms(1,5)] by blast
  have d: "rec_decode c b = Ok e" by (rule rec_roundtrip [OF assms(2) b(1)])
  have "length cmds + 1 \<le> u64_max" using assms(4) by simp
  note m = log_map_insert [OF this d, of "view (fl_db s)"]
  have wf: "log_wf c (view (fl_db s'))" unfolding b(2)
    by (rule log_wf_insert [OF _ d]) (use assms(3) in \<open>simp add: journal_holds_def\<close>)
  have old: "map_option fst (log_map c (view (fl_db s)) i) = (if 1 \<le> i \<and> i \<le> length cmds then Some (cmds ! (i - 1)) else None)" for i
    using assms(3) by (simp add: journal_holds_def)
  have "map_option fst (log_map c (view (fl_db s')) i)
      = (if 1 \<le> i \<and> i \<le> length (cmds @ [e]) then Some ((cmds @ [e]) ! (i - 1)) else None)" for i
  proof (cases "i = length cmds + 1")
    case True
    then show ?thesis by (simp add: b(2) m [simplified] put_entry_def)
  next
    case False
    then have "map_option fst (log_map c (view (fl_db s')) i) = map_option fst (log_map c (view (fl_db s)) i)"
      unfolding b(2) m put_entry_def by simp
    also have "\<dots> = (if 1 \<le> i \<and> i \<le> length cmds then Some (cmds ! (i - 1)) else None)" by (rule old)
    finally show ?thesis using False by (auto simp: nth_append)
  qed
  with wf show ?thesis by (simp add: journal_holds_def)
qed

lemma journal_range:
  assumes "db_laws db view crash" "journal_holds c (view (fl_db s)) cmds" "length cmds \<le> u64_max"
    and "log_range c db 1 u64_max s = Ok xs"
  shows "xs = zip [1..<length cmds + 1] cmds"
proof -
  have wf: "log_wf c (view (fl_db s))" and one: "1 \<le> u64_max"
    and lm: "\<And>i. map_option fst (log_map c (view (fl_db s)) i) = (if 1 \<le> i \<and> i \<le> length cmds then Some (cmds ! (i - 1)) else None)"
    using assms(2) by (simp_all add: journal_holds_def u64_max_val)
  obtain ys where ys: "log_slice c (view (fl_db s)) 1 u64_max ys" "xs = map (\<lambda>(i, e, n). (i, e)) ys"
    using log_range_slice [OF assms(1) wf one order_refl assms(4)] by blast
  have mem: "(i, p) \<in> set ys \<longleftrightarrow> log_map c (view (fl_db s)) i = Some p \<and> 1 \<le> i \<and> i \<le> u64_max" for i p
    using ys(1) unfolding log_slice_def by blast
  have "set (map fst ys) = {1..<length cmds + 1}"
  proof (rule set_eqI)
    fix i
    have "i \<in> set (map fst ys) \<longleftrightarrow> (\<exists>p. (i, p) \<in> set ys)" by force
    also have "\<dots> \<longleftrightarrow> log_map c (view (fl_db s)) i \<noteq> None \<and> 1 \<le> i \<and> i \<le> u64_max" unfolding mem by blast
    also have "\<dots> \<longleftrightarrow> i \<in> {1..<length cmds + 1}"
      using lm [of i] assms(3) by (auto split: if_splits)
    finally show "i \<in> set (map fst ys) \<longleftrightarrow> i \<in> {1..<length cmds + 1}" .
  qed
  moreover have "sorted_wrt (<) (map fst ys)" using ys(1) by (simp add: log_slice_def)
  ultimately have "map fst ys = [1..<length cmds + 1]"
    using strict_sorted_equal [of "map fst ys" "[1..<length cmds + 1]"] by (simp del: upt_Suc)
  then have f: "map fst xs = [1..<length cmds + 1]" by (simp add: ys(2) o_def split_beta del: upt_Suc)
  have "map snd xs = cmds"
  proof (rule nth_equalityI)
    show len: "length (map snd xs) = length cmds" using arg_cong [OF f, of length] by (simp del: upt_Suc)
    fix k
    assume k: "k < length (map snd xs)"
    obtain i e n where y: "ys ! k = (i, e, n)" by (metis prod_cases3)
    have "k < length ys" using k ys(2) by simp
    then have "(i, e, n) \<in> set ys" using y by (metis nth_mem)
    then have "map_option fst (log_map c (view (fl_db s)) i) = Some e" using mem by auto
    moreover have "i = k + 1" using arg_cong [OF f, of "\<lambda>l. l ! k"] k len y by (simp add: ys(2) del: upt_Suc)
    ultimately show "map snd xs ! k = cmds ! k" using lm [of i] k y by (simp add: ys(2) split: if_splits)
  qed
  then show ?thesis using f by (metis zip_map_fst_snd)
qed

section \<open>Examples\<close>

text \<open>A codec for the commands of an example.\<close>

definition table_codec :: "('e \<times> bytes) list \<Rightarrow> 'e Codec" where
  "table_codec t = \<lparr>cd_to_stdvec = map_of t, cd_from_bytes = map_of (map (\<lambda>(e, b). (b, e)) t)\<rparr>"

lemma table_codec_laws:
  assumes "distinct (map snd t)"
  shows "codec_laws (table_codec t)"
proof -
  have "map_of (map (\<lambda>(e, b). (b, e)) t) b = Some e" if "map_of t e = Some b" for e b
    using map_of_SomeD [OF that] assms by (intro map_of_is_SomeI) (auto simp: o_def split_beta image_iff intro: bexI [of _ "(e, b)"])
  then show ?thesis by (simp add: codec_laws_def table_codec_def)
qed

definition demo_fresh :: DemoDb where
  "demo_fresh = \<lparr>dd_log = [], dd_meta = [], dd_saved = ([], []), dd_faults = []\<rparr>"

definition demo_journal :: "bytes list \<Rightarrow> DemoDb" where
  "demo_journal recs =
     (let es = zip (map be64_bytes [1..<length recs + 1]) recs in \<lparr>dd_log = es, dd_meta = [], dd_saved = (es, []), dd_faults = []\<rparr>)"

lemma be64_le_max: "n \<le> u64_max \<Longrightarrow> be64_bytes n \<le> be64_bytes u64_max"
  "m \<le> n \<Longrightarrow> n \<le> u64_max \<Longrightarrow> be64_bytes m \<le> be64_bytes n"
  by (simp_all add: be_val_le_iff)

lemma be64_two_one: "be64_bytes 2 \<noteq> be64_bytes (Suc 0)" "\<not> be64_bytes 2 \<le> be64_bytes (Suc 0)"
  by (simp_all add: be64_small)

lemma demo_append_first:
  "cd_to_stdvec c e = Some b \<Longrightarrow> log_append c demo_db (Suc 0) e \<lparr>fl_db = demo_fresh, fl_sync_per_write = True, fl_coalescer = False\<rparr>
     = (\<lparr>fl_db = demo_journal [1 # b], fl_sync_per_write = True, fl_coalescer = False\<rparr>, Ok ())"
  by (simp add: log_append_def rec_encode_def demo_fresh_def demo_journal_def commit_items_def demo_db_def commit_mode_def dd_save_def
      RECORD_SCHEMA_VERSION_def Let_def)

lemma demo_append_second:
  "cd_to_stdvec c e = Some b \<Longrightarrow> log_append c demo_db 2 e \<lparr>fl_db = demo_journal [r], fl_sync_per_write = True, fl_coalescer = False\<rparr>
     = (\<lparr>fl_db = demo_journal [r, 1 # b], fl_sync_per_write = True, fl_coalescer = False\<rparr>, Ok ())"
  using be64_two_one by (simp add: log_append_def rec_encode_def demo_journal_def commit_items_def demo_db_def commit_mode_def dd_save_def
      RECORD_SCHEMA_VERSION_def Let_def upt_rec numeral_2_eq_2)

lemma demo_log_range:
  "log_range c demo_db 1 u64_max \<lparr>fl_db = demo_fresh, fl_sync_per_write = y, fl_coalescer = q\<rparr> = Ok []"
  "cd_from_bytes c b = Some e \<Longrightarrow>
     log_range c demo_db 1 u64_max \<lparr>fl_db = demo_journal [1 # b], fl_sync_per_write = y, fl_coalescer = q\<rparr> = Ok [(1, e)]"
  "cd_from_bytes c b = Some e \<Longrightarrow> cd_from_bytes c b' = Some e' \<Longrightarrow>
     log_range c demo_db 1 u64_max \<lparr>fl_db = demo_journal [1 # b, 1 # b'], fl_sync_per_write = y, fl_coalescer = q\<rparr>
       = Ok [(1, e), (2, e')]"
proof -
  have u: "Suc 0 \<le> u64_max" "2 \<le> u64_max" by (simp_all add: u64_max_val)
  note k = be64_two_one be64_le_max(1) [OF u(1)] be64_le_max(1) [OF u(2)] be64_le_max(2) [of "Suc 0" 2, OF _ u(2)]
    be_val_be64 [OF u(1)] be_val_be64 [OF u(2)]
  note d = log_range_def demo_db_def dd_list_def dd_items_def rec_decode_def RECORD_SCHEMA_VERSION_def Let_def
  show "log_range c demo_db 1 u64_max \<lparr>fl_db = demo_fresh, fl_sync_per_write = y, fl_coalescer = q\<rparr> = Ok []"
    by (simp add: d demo_fresh_def)
  show "cd_from_bytes c b = Some e \<Longrightarrow>
     log_range c demo_db 1 u64_max \<lparr>fl_db = demo_journal [1 # b], fl_sync_per_write = y, fl_coalescer = q\<rparr> = Ok [(1, e)]"
    by (simp add: d demo_journal_def k)
  show "cd_from_bytes c b = Some e \<Longrightarrow> cd_from_bytes c b' = Some e' \<Longrightarrow>
     log_range c demo_db 1 u64_max \<lparr>fl_db = demo_journal [1 # b, 1 # b'], fl_sync_per_write = y, fl_coalescer = q\<rparr>
       = Ok [(1, e), (2, e')]"
    using k by (simp add: d demo_journal_def upt_rec numeral_2_eq_2 [symmetric])
qed

end
