(* ===== verification/Raft_Machine.thy ===== *)
theory Raft_Machine
  imports Kiseki_Prelude
begin

text \<open>
  What the Raft library asks of a replicated state machine, as a locale. A replica applies committed entries in
  order, each with whatever its own clock reads, or is given a snapshot that another replica built; it may be
  restarted and start again from the beginning. \<open>abs\<close> is what the replicas have to agree on. Applying an entry is
  \<open>None\<close> when the process aborts. The interpretations on the key manager and the audit log are in their
  theories.
\<close>

datatype ('c, 'm) Payload = Blank | Normal 'c | Membership 'm

definition ok_option :: "('e, 'a) res \<Rightarrow> 'a option" where
  "ok_option r = (case r of Ok a \<Rightarrow> Some a | _ \<Rightarrow> None)"

fun run_all :: "('a \<Rightarrow> 's \<Rightarrow> ('e, 's) res) \<Rightarrow> 'a list \<Rightarrow> 's \<Rightarrow> ('e, 's) res" where
  "run_all f [] s = Ok s"
| "run_all f (x # xs) s = bind_res (f x s) (run_all f xs)"

lemma run_all_snoc: "run_all f (xs @ [x]) s = bind_res (run_all f xs s) (f x)"
proof (induction xs arbitrary: s)
  case Nil
  then show ?case by (cases "f x s") simp_all
next
  case (Cons y xs)
  then show ?case by (cases "f y s") simp_all
qed

inductive applies :: "'s \<Rightarrow> ('k \<Rightarrow> 'c \<Rightarrow> 's \<Rightarrow> 's option) \<Rightarrow> 'c list \<Rightarrow> 's \<Rightarrow> bool" for init app where
  applies_init: "applies init app [] init"
| applies_app: "applies init app cs s \<Longrightarrow> app k c s = Some s' \<Longrightarrow> applies init app (cs @ [c]) s'"

inductive replica ::
    "'s \<Rightarrow> ('k \<Rightarrow> 'c \<Rightarrow> 's \<Rightarrow> 's option) \<Rightarrow> ('s \<Rightarrow> 'b option) \<Rightarrow> ('b \<Rightarrow> 's \<Rightarrow> 's) \<Rightarrow> 'c list \<Rightarrow> 's \<Rightarrow> bool"
  for init app snap install where
  replica_init: "replica init app snap install [] init"
| replica_app: "replica init app snap install cs s \<Longrightarrow> app k c s = Some s' \<Longrightarrow> replica init app snap install (cs @ [c]) s'"
| replica_install: "replica init app snap install cs s \<Longrightarrow> replica init app snap install cs' t \<Longrightarrow> snap s = Some b
    \<Longrightarrow> replica init app snap install cs (install b t)"

inductive_cases applies_nilE: "applies init app [] s"

lemma applies_snocE:
  assumes "applies init app (cs @ [c]) s"
  obtains k s0 where "applies init app cs s0" "app k c s0 = Some s"
  using assms by (cases rule: applies.cases) auto

locale replicated_machine =
  fixes abs :: "'s \<Rightarrow> 'v"
    and inv :: "'s \<Rightarrow> bool"
    and init :: 's
    and app :: "'k \<Rightarrow> 'c \<Rightarrow> 's \<Rightarrow> 's option"
    and snap :: "'s \<Rightarrow> 'b option"
    and install :: "'b \<Rightarrow> 's \<Rightarrow> 's"
  assumes init_inv: "inv init"
    and app_inv: "inv s \<Longrightarrow> app k c s = Some s' \<Longrightarrow> inv s'"
    and app_abs: "inv s \<Longrightarrow> inv t \<Longrightarrow> abs s = abs t \<Longrightarrow> map_option abs (app k c s) = map_option abs (app k' c t)"
    and snap_abs: "inv s \<Longrightarrow> inv t \<Longrightarrow> snap s = Some b \<Longrightarrow> inv (install b t) \<and> abs (install b t) = abs s"
begin

lemma applies_inv: "applies init app cs s \<Longrightarrow> inv s"
  by (induction rule: applies.induct) (auto intro: init_inv app_inv)

lemma applies_agree: "applies init app cs s \<Longrightarrow> applies init app cs t \<Longrightarrow> abs s = abs t"
proof (induction cs arbitrary: s t rule: rev_induct)
  case Nil
  then show ?case by (auto elim!: applies_nilE)
next
  case (snoc c cs)
  obtain k s0 where s: "applies init app cs s0" "app k c s0 = Some s" by (rule applies_snocE [OF snoc.prems(1)])
  obtain k' t0 where t: "applies init app cs t0" "app k' c t0 = Some t" by (rule applies_snocE [OF snoc.prems(2)])
  have "map_option abs (app k c s0) = map_option abs (app k' c t0)"
    by (rule app_abs [OF applies_inv [OF s(1)] applies_inv [OF t(1)] snoc.IH [OF s(1) t(1)]])
  then show ?case using s(2) t(2) by simp
qed

lemma replica_applies: "replica init app snap install cs s \<Longrightarrow> inv s \<and> (\<exists>u. applies init app cs u \<and> abs u = abs s)"
proof (induction rule: replica.induct)
  case replica_init
  then show ?case using init_inv applies_init [of init app] by blast
next
  case (replica_app cs s k c s')
  then obtain u where u: "applies init app cs u" "abs u = abs s" and s: "inv s" by blast
  have "map_option abs (app k c u) = map_option abs (app k c s)"
    by (rule app_abs [OF applies_inv [OF u(1)] s u(2)])
  then obtain u' where "app k c u = Some u'" "abs u' = abs s'" using replica_app.hyps(2) by auto
  then show ?case using applies_app [OF u(1)] app_inv [OF s replica_app.hyps(2)] by blast
next
  case (replica_install cs s cs' t b)
  then show ?case using snap_abs by metis
qed

text \<open>Replicas that have the same entries agree.\<close>

lemma replicas_agree: "replica init app snap install cs s \<Longrightarrow> replica init app snap install cs t \<Longrightarrow> abs s = abs t"
  using replica_applies applies_agree by metis

end

end
