(* ===== verification/Audit_Log.thy ===== *)
theory Audit_Log
  imports Kiseki_Time Command_Journal Raft_Machine "HOL-Library.AList"
begin

text \<open>
  The audit context (\<^verbatim>\<open>crates/kiseki-audit/src\<close>): events and policies (\<^verbatim>\<open>event.rs\<close>), the sharded in-memory log
  (\<^verbatim>\<open>store.rs\<close>), the command-log store (\<^verbatim>\<open>raft_store.rs\<close>), the replicated state machine
  (\<^verbatim>\<open>raft/state_machine.rs\<close>) and the store that persists the command log (\<^verbatim>\<open>persistent_store.rs\<close>, over the
  durable log of \<open>Raft_Log\<close>). A hash map is an association list. The JSON serialiser of the snapshot refuses a map
  whose keys are not strings, which is documented of it.
\<close>

section \<open>Events\<close>

datatype AuditEventType =
    KeyGeneration | KeyRotation | KeyDestruction | KeyAccess | ReEncryption
  | DataRead | DataWrite | DataDelete
  | AuthSuccess | AuthFailure
  | TenantLifecycle | AdminAction | PolicyChange | MaintenanceMode
  | AdvisoryWorkflow | AdvisoryHint | AdvisoryBudgetExceeded
  | SecurityDowngradeEnabled

record AuditEvent =
  ae_sequence :: nat
  ae_timestamp :: DeltaTimestamp
  ae_event_type :: AuditEventType
  ae_tenant_id :: "nat option"
  ae_actor :: string
  ae_description :: string

datatype SafetyValveAction = ProceedWithGap nat | Defer

definition evaluate_safety_valve :: "nat \<Rightarrow> nat \<Rightarrow> SafetyValveAction" where
  "evaluate_safety_valve stall_hours threshold_hours =
     (if stall_hours > threshold_hours then ProceedWithGap stall_hours else Defer)"

datatype BackpressureAction = Throttle | NormalRate

definition evaluate_backpressure :: "bool \<Rightarrow> bool \<Rightarrow> BackpressureAction" where
  "evaluate_backpressure backpressure_enabled export_falling_behind =
     (if backpressure_enabled \<and> export_falling_behind then Throttle else NormalRate)"

definition crypto_shred_force_override_event :: "nat \<Rightarrow> string \<Rightarrow> AuditEvent" where
  "crypto_shred_force_override_event tenant_id reason =
     \<lparr>ae_sequence = 0,
      ae_timestamp = \<lparr>ts_hlc = hlc_zero 0, ts_wall = \<lparr>millis_since_epoch = 0, timezone = ''''\<rparr>, ts_quality = Unsync\<rparr>,
      ae_event_type = KeyDestruction, ae_tenant_id = Some tenant_id, ae_actor = ''system'',
      ae_description = ''crypto-shred force override: '' @ reason\<rparr>"

section \<open>The sharded log\<close>

record AuditQuery =
  aq_tenant_id :: "nat option"
  aq_from :: nat
  aq_limit :: nat
  aq_event_type :: "AuditEventType option"

datatype ShardKey = TenantShard nat | SystemShard

record AuditShard =
  sh_events :: "AuditEvent list"
  sh_tip :: nat

type_synonym AuditShards = "(ShardKey \<times> AuditShard) list"

definition shard_key :: "nat option \<Rightarrow> ShardKey" where
  "shard_key tenant_id = (case tenant_id of None \<Rightarrow> SystemShard | Some t \<Rightarrow> TenantShard t)"

definition shard_or_new :: "ShardKey \<Rightarrow> AuditShards \<Rightarrow> AuditShard" where
  "shard_or_new key shards = (case map_of shards key of Some s \<Rightarrow> s | None \<Rightarrow> \<lparr>sh_events = [], sh_tip = 0\<rparr>)"

definition audit_append :: "AuditEvent \<Rightarrow> AuditShards \<Rightarrow> (unit, AuditShards) res" where
  "audit_append event shards =
     (let key = shard_key (ae_tenant_id event); shard = shard_or_new key shards in
      bind_res (add_u64 (sh_tip shard) 1) (\<lambda>next_seq.
        Ok (AList.update key \<lparr>sh_events = sh_events shard @ [event\<lparr>ae_sequence := next_seq\<rparr>], sh_tip = next_seq\<rparr> shards)))"

definition audit_query :: "AuditQuery \<Rightarrow> AuditShards \<Rightarrow> AuditEvent list" where
  "audit_query q shards =
     (case map_of shards (shard_key (aq_tenant_id q)) of
        None \<Rightarrow> []
      | Some shard \<Rightarrow>
          take (aq_limit q)
            (filter (\<lambda>e. case aq_event_type q of None \<Rightarrow> True | Some t \<Rightarrow> ae_event_type e = t)
              (filter (\<lambda>e. ae_sequence e \<ge> aq_from q) (sh_events shard))))"

definition audit_tip :: "nat option \<Rightarrow> AuditShards \<Rightarrow> nat" where
  "audit_tip tenant_id shards =
     (case map_of shards (shard_key tenant_id) of None \<Rightarrow> 0 | Some s \<Rightarrow> sh_tip s)"

definition total_events :: "AuditShards \<Rightarrow> nat" where
  "total_events shards = sum_list (map (\<lambda>(k, s). length (sh_events s)) shards)"

definition tenant_export :: "nat \<Rightarrow> AuditShards \<Rightarrow> AuditEvent list" where
  "tenant_export tenant_id shards =
     sort_key ae_sequence (case map_of shards (TenantShard tenant_id) of None \<Rightarrow> [] | Some s \<Rightarrow> sh_events s)"

section \<open>The command-log store\<close>

datatype AuditCommand = AppendEvent (ac_tenant: "nat option") (ac_type: string) (ac_actor: string) (ac_description: string)

fun event_type_to_str :: "AuditEventType \<Rightarrow> string" where
  "event_type_to_str KeyGeneration = ''KeyGeneration''"
| "event_type_to_str KeyRotation = ''KeyRotation''"
| "event_type_to_str KeyDestruction = ''KeyDestruction''"
| "event_type_to_str KeyAccess = ''KeyAccess''"
| "event_type_to_str ReEncryption = ''ReEncryption''"
| "event_type_to_str DataRead = ''DataRead''"
| "event_type_to_str DataWrite = ''DataWrite''"
| "event_type_to_str DataDelete = ''DataDelete''"
| "event_type_to_str AuthSuccess = ''AuthSuccess''"
| "event_type_to_str AuthFailure = ''AuthFailure''"
| "event_type_to_str TenantLifecycle = ''TenantLifecycle''"
| "event_type_to_str AdminAction = ''AdminAction''"
| "event_type_to_str PolicyChange = ''PolicyChange''"
| "event_type_to_str MaintenanceMode = ''MaintenanceMode''"
| "event_type_to_str AdvisoryWorkflow = ''AdvisoryWorkflow''"
| "event_type_to_str AdvisoryHint = ''AdvisoryHint''"
| "event_type_to_str AdvisoryBudgetExceeded = ''AdvisoryBudgetExceeded''"
| "event_type_to_str SecurityDowngradeEnabled = ''SecurityDowngradeEnabled''"

definition event_type_from_str :: "string \<Rightarrow> AuditEventType" where
  "event_type_from_str s =
     (if s = ''KeyGeneration'' then KeyGeneration
      else if s = ''KeyRotation'' then KeyRotation
      else if s = ''KeyDestruction'' then KeyDestruction
      else if s = ''KeyAccess'' then KeyAccess
      else if s = ''ReEncryption'' then ReEncryption
      else if s = ''DataRead'' then DataRead
      else if s = ''DataWrite'' then DataWrite
      else if s = ''DataDelete'' then DataDelete
      else if s = ''AuthSuccess'' then AuthSuccess
      else if s = ''AuthFailure'' then AuthFailure
      else if s = ''TenantLifecycle'' then TenantLifecycle
      else if s = ''PolicyChange'' then PolicyChange
      else if s = ''MaintenanceMode'' then MaintenanceMode
      else if s = ''AdvisoryWorkflow'' then AdvisoryWorkflow
      else if s = ''AdvisoryHint'' then AdvisoryHint
      else if s = ''AdvisoryBudgetExceeded'' then AdvisoryBudgetExceeded
      else AdminAction)"

text \<open>Replayed events are stamped with their index in the log.\<close>

definition index_timestamp :: "nat \<Rightarrow> DeltaTimestamp" where
  "index_timestamp i =
     \<lparr>ts_hlc = HLC (of_nat i) 0 0, ts_wall = \<lparr>millis_since_epoch = i, timezone = ''UTC''\<rparr>, ts_quality = Ntp\<rparr>"

definition command_event :: "nat \<Rightarrow> AuditCommand \<Rightarrow> AuditEvent" where
  "command_event i cmd =
     \<lparr>ae_sequence = 0, ae_timestamp = index_timestamp i, ae_event_type = event_type_from_str (ac_type cmd),
      ae_tenant_id = ac_tenant cmd, ae_actor = ac_actor cmd, ae_description = ac_description cmd\<rparr>"

definition event_command :: "AuditEvent \<Rightarrow> AuditCommand" where
  "event_command e = AppendEvent (ae_tenant_id e) (event_type_to_str (ae_event_type e)) (ae_actor e) (ae_description e)"

record RaftAuditStore =
  ra_shards :: AuditShards
  ra_log :: "(nat \<times> AuditCommand) list"
  ra_last_applied :: nat

definition raft_audit_new :: RaftAuditStore where
  "raft_audit_new = \<lparr>ra_shards = [], ra_log = [], ra_last_applied = 0\<rparr>"

definition raft_audit_append :: "AuditEvent \<Rightarrow> RaftAuditStore \<Rightarrow> (unit, RaftAuditStore) res" where
  "raft_audit_append event s =
     bind_res (add_u64 (length (ra_log s)) 1) (\<lambda>index.
       bind_res (audit_append event (ra_shards s)) (\<lambda>shards.
         Ok \<lparr>ra_shards = shards, ra_log = ra_log s @ [(index, event_command event)], ra_last_applied = index\<rparr>))"

fun replay_commands :: "(nat \<times> AuditCommand) list \<Rightarrow> AuditShards \<times> nat \<Rightarrow> (unit, AuditShards \<times> nat) res" where
  "replay_commands [] st = Ok st"
| "replay_commands ((index, cmd) # log) (shards, last_applied) =
     (if index \<le> last_applied then replay_commands log (shards, last_applied)
      else bind_res (audit_append (command_event index cmd) shards) (\<lambda>shards. replay_commands log (shards, index)))"

definition raft_audit_replay :: "RaftAuditStore \<Rightarrow> (unit, RaftAuditStore) res" where
  "raft_audit_replay s =
     bind_res (replay_commands (ra_log s) ([], 0)) (\<lambda>(shards, last_applied).
       Ok (s\<lparr>ra_shards := shards, ra_last_applied := last_applied\<rparr>))"

definition raft_audit_from_commands :: "(nat \<times> AuditCommand) list \<Rightarrow> (unit, RaftAuditStore) res" where
  "raft_audit_from_commands commands = raft_audit_replay (raft_audit_new\<lparr>ra_log := commands\<rparr>)"

section \<open>The persistent store\<close>

record 'd PersistentAuditStore =
  pa_inner :: RaftAuditStore
  pa_store :: "'d FjallLogStore"

text \<open>\<^verbatim>\<open>unwrap_or_default\<close>: a log that cannot be read counts as empty.\<close>

definition persistent_audit_open ::
    "AuditCommand Codec \<Rightarrow> 'd Database \<Rightarrow> (unit, 'd) res \<Rightarrow> (unit, 'd PersistentAuditStore) res" where
  "persistent_audit_open c db opened =
     bind_res (map_err (\<lambda>_. ()) (fjall_log_open opened)) (\<lambda>store.
       let entries = (case log_range c db 1 u64_max store of Ok es \<Rightarrow> es | _ \<Rightarrow> []) in
       if entries = [] then Ok \<lparr>pa_inner = raft_audit_new, pa_store = store\<rparr>
       else bind_res (raft_audit_from_commands entries) (\<lambda>inner. Ok \<lparr>pa_inner = inner, pa_store = store\<rparr>))"

definition persistent_audit_append ::
    "AuditCommand Codec \<Rightarrow> 'd Database \<Rightarrow> AuditEvent \<Rightarrow> 'd PersistentAuditStore \<Rightarrow> (unit, 'd PersistentAuditStore) res" where
  "persistent_audit_append c db event s =
     bind_res (raft_audit_append event (pa_inner s)) (\<lambda>inner.
       let (store, _) = log_append c db (length (ra_log inner)) (event_command event) (pa_store s) in
       Ok \<lparr>pa_inner = inner, pa_store = store\<rparr>)"

section \<open>The replicated state machine\<close>

text \<open>Log identifiers belong to the Raft library; \<open>ix\<close> reads the index of one, \<open>m0\<close> is the default membership.\<close>

record ('l, 'm) AuditSmInner =
  as_event_count :: nat
  as_shards :: AuditShards
  as_last_applied_log :: "'l option"
  as_last_membership :: "'l option \<times> 'm"

record AuditSnapshot =
  an_event_count :: nat
  an_shards :: AuditShards

definition audit_sm_new :: "'m \<Rightarrow> ('l, 'm) AuditSmInner" where
  "audit_sm_new m0 = \<lparr>as_event_count = 0, as_shards = [], as_last_applied_log = None, as_last_membership = (None, m0)\<rparr>"

definition audit_sm_apply_command ::
    "('l \<Rightarrow> nat) \<Rightarrow> AuditCommand \<Rightarrow> ('l, 'm) AuditSmInner \<Rightarrow> (unit, ('l, 'm) AuditSmInner) res" where
  "audit_sm_apply_command ix cmd s =
     (let log_index = (case as_last_applied_log s of None \<Rightarrow> 0 | Some l \<Rightarrow> ix l) in
      bind_res (audit_append (command_event log_index cmd) (as_shards s)) (\<lambda>shards.
        bind_res (add_u64 (as_event_count s) 1) (\<lambda>n. Ok (s\<lparr>as_shards := shards, as_event_count := n\<rparr>))))"

definition audit_sm_apply ::
    "('l \<Rightarrow> nat) \<Rightarrow> 'l \<times> (AuditCommand, 'm) Payload \<Rightarrow> ('l, 'm) AuditSmInner \<Rightarrow> (unit, ('l, 'm) AuditSmInner) res" where
  "audit_sm_apply ix entry s =
     (let s = s\<lparr>as_last_applied_log := Some (fst entry)\<rparr> in
      case snd entry of
        Blank \<Rightarrow> Ok s
      | Normal cmd \<Rightarrow> audit_sm_apply_command ix cmd s
      | Membership m \<Rightarrow> Ok (s\<lparr>as_last_membership := (Some (fst entry), m)\<rparr>))"

text \<open>\<^verbatim>\<open>serde_json::to_vec\<close> on the snapshot: map keys must serialise as strings. The unit variant \<open>System\<close> does,
  \<open>Tenant\<close> carries data and does not.\<close>

definition json_string_key :: "ShardKey \<Rightarrow> bool" where
  "json_string_key k \<longleftrightarrow> (case k of SystemShard \<Rightarrow> True | TenantShard _ \<Rightarrow> False)"

definition audit_snapshot_json :: "AuditSnapshot \<Rightarrow> (unit, AuditSnapshot) res" where
  "audit_snapshot_json n = (if list_all (\<lambda>(k, s). json_string_key k) (an_shards n) then Ok n else Err ())"

definition audit_build_snapshot ::
    "('l, 'm) AuditSmInner \<Rightarrow> (unit, AuditSnapshot \<times> 'l option \<times> ('l option \<times> 'm)) res" where
  "audit_build_snapshot s =
     bind_res (audit_snapshot_json \<lparr>an_event_count = as_event_count s, an_shards = as_shards s\<rparr>) (\<lambda>data.
       Ok (data, as_last_applied_log s, as_last_membership s))"

definition audit_install_snapshot ::
    "AuditSnapshot \<times> 'l option \<times> ('l option \<times> 'm) \<Rightarrow> ('l, 'm) AuditSmInner \<Rightarrow> ('l, 'm) AuditSmInner" where
  "audit_install_snapshot snap s =
     (let (data, last_log_id, last_membership) = snap in
      s\<lparr>as_event_count := an_event_count data, as_shards := an_shards data, as_last_applied_log := last_log_id,
        as_last_membership := last_membership\<rparr>)"

definition audit_get_current_snapshot ::
    "('l, 'm) AuditSmInner \<Rightarrow> (unit, (AuditSnapshot \<times> 'l option \<times> ('l option \<times> 'm)) option) res" where
  "audit_get_current_snapshot s =
     (case as_last_applied_log s of
        None \<Rightarrow> Ok None
      | Some l \<Rightarrow>
          bind_res (audit_snapshot_json \<lparr>an_event_count = as_event_count s, an_shards = as_shards s\<rparr>) (\<lambda>data.
            Ok (Some (data, Some l, as_last_membership s))))"

section \<open>The contract of an audit sink\<close>

definition renumber :: "AuditEvent list \<Rightarrow> AuditEvent list" where
  "renumber es = map2 (\<lambda>i e. e\<lparr>ae_sequence := i\<rparr>) [1..<length es + 1] es"

definition audit_of :: "nat option \<Rightarrow> AuditEvent list \<Rightarrow> AuditEvent list" where
  "audit_of t es = renumber (filter (\<lambda>e. ae_tenant_id e = t) es)"

lemma renumber_snoc: "renumber (es @ [e]) = renumber es @ [e\<lparr>ae_sequence := length es + 1\<rparr>]"
proof -
  have "[1..<length (es @ [e]) + 1] = [1..<length es + 1] @ [length es + 1]" by (simp add: upt_Suc_append)
  then show ?thesis unfolding renumber_def by (simp add: zip_append del: upt_Suc)
qed

lemma length_renumber [simp]: "length (renumber es) = length es"
  by (simp add: renumber_def del: upt_Suc)

lemma renumber_nth: "i < length es \<Longrightarrow> renumber es ! i = (es ! i)\<lparr>ae_sequence := i + 1\<rparr>"
  by (simp add: renumber_def del: upt_Suc)

locale audit_sink =
  fixes events_of :: "nat option \<Rightarrow> 's \<Rightarrow> AuditEvent list"
    and app :: "AuditEvent \<Rightarrow> 's \<Rightarrow> (unit, 's) res"
    and wf :: "'s \<Rightarrow> bool"
    and fresh :: 's
  assumes fresh_law: "wf fresh" "events_of t fresh = []"
    and append_law: "wf s \<Longrightarrow> app e s = Ok s' \<Longrightarrow> wf s' \<and> events_of t s' = (if t = ae_tenant_id e
      then events_of t s @ [e\<lparr>ae_sequence := length (events_of t s) + 1\<rparr>] else events_of t s)"
begin

lemma events_after: "run_all app es fresh = Ok s \<Longrightarrow> wf s \<and> (\<forall>t. events_of t s = audit_of t es)"
proof (induction es arbitrary: s rule: rev_induct)
  case Nil
  then show ?case using fresh_law by (auto simp: audit_of_def renumber_def)
next
  case (snoc e es)
  then obtain s0 where s0: "run_all app es fresh = Ok s0" "app e s0 = Ok s"
    unfolding run_all_snoc by (cases "run_all app es fresh") auto
  with snoc.IH have IH: "wf s0" "\<And>t. events_of t s0 = audit_of t es" by blast+
  have "wf s \<and> events_of t s = audit_of t (es @ [e])" for t
    using append_law [OF IH(1) s0(2), of t] IH(2) [of t]
    by (cases "t = ae_tenant_id e") (simp_all add: audit_of_def renumber_snoc)
  then show ?case by blast
qed

end

definition shard_events :: "nat option \<Rightarrow> AuditShards \<Rightarrow> AuditEvent list" where
  "shard_events t shards = sh_events (shard_or_new (shard_key t) shards)"

definition shards_wf :: "AuditShards \<Rightarrow> bool" where
  "shards_wf shards \<longleftrightarrow> (\<forall>k. sh_tip (shard_or_new k shards) = length (sh_events (shard_or_new k shards)))"

lemma shard_key_inj [simp]: "shard_key t = shard_key t' \<longleftrightarrow> t = t'"
  by (cases t; cases t') (simp_all add: shard_key_def)

lemma shard_or_new_update: "shard_or_new k (AList.update k' x shards) = (if k = k' then x else shard_or_new k shards)"
  by (simp add: shard_or_new_def update_conv')

lemma audit_append_ok:
  assumes "audit_append e shards = Ok shards'" "shards_wf shards"
  shows "shards_wf shards'" "shard_events t shards' = (if t = ae_tenant_id e
    then shard_events t shards @ [e\<lparr>ae_sequence := length (shard_events t shards) + 1\<rparr>] else shard_events t shards)"
proof -
  let ?k = "shard_key (ae_tenant_id e)"
  let ?x = "\<lambda>n. \<lparr>sh_events = sh_events (shard_or_new ?k shards) @ [e\<lparr>ae_sequence := n\<rparr>], sh_tip = n\<rparr>"
  have tip: "sh_tip (shard_or_new ?k shards) = length (sh_events (shard_or_new ?k shards))"
    using assms(2) by (simp add: shards_wf_def)
  have s': "shards' = AList.update ?k (?x (sh_tip (shard_or_new ?k shards) + 1)) shards"
    using assms(1) by (auto simp: audit_append_def Let_def add_u64_def split: if_splits)
  show "shards_wf shards'" using assms(2) tip by (simp add: s' shards_wf_def shard_or_new_update)
  show "shard_events t shards' = (if t = ae_tenant_id e
    then shard_events t shards @ [e\<lparr>ae_sequence := length (shard_events t shards) + 1\<rparr>] else shard_events t shards)"
    using tip by (auto simp: s' shard_events_def shard_or_new_update)
qed

lemma shards_wf_empty [simp]: "shards_wf []"
  by (simp add: shards_wf_def shard_or_new_def)

lemma shard_events_empty [simp]: "shard_events t [] = []"
  by (simp add: shard_events_def shard_or_new_def)

interpretation mem_audit: audit_sink shard_events audit_append shards_wf "[]"
  by unfold_locales (use audit_append_ok in auto)

lemma raft_audit_append_shards:
  "raft_audit_append e s = Ok s' \<Longrightarrow> audit_append e (ra_shards s) = Ok (ra_shards s')
     \<and> ra_log s' = ra_log s @ [(length (ra_log s) + 1, event_command e)]"
  by (cases "audit_append e (ra_shards s)") (auto simp: raft_audit_append_def add_u64_def split: if_splits)

interpretation raft_audit: audit_sink "\<lambda>t s. shard_events t (ra_shards s)" raft_audit_append
  "\<lambda>s. shards_wf (ra_shards s)" raft_audit_new
proof (unfold_locales, goal_cases)
  case (3 s e s' t)
  then show ?case using audit_append_ok raft_audit_append_shards by blast
qed (simp_all add: raft_audit_new_def)

lemma sort_renumber: "sort_key ae_sequence (renumber es) = renumber es"
proof -
  have "map ae_sequence (renumber es) = [1..<length es + 1]"
    by (rule nth_equalityI) (simp_all add: renumber_nth del: upt_Suc)
  then have "sorted (map ae_sequence (renumber es))" by (metis sorted_upt)
  then show ?thesis by (rule sort_key_id_if_sorted)
qed

text \<open>C15: The audit log keeps one exact trail per tenant. After any sequence of appends the trail of a tenant (and of the
  system) is the appended events of that tenant, in order, numbered from 1 without gaps, and nothing of
  anyone else; queries, exports and tips are computed from exactly that.\<close>

theorem audit_trail_exact:
  assumes "run_all raft_audit_append es raft_audit_new = Ok s"
  shows "audit_tip t (ra_shards s) = length (filter (\<lambda>e. ae_tenant_id e = t) es)
    \<and> tenant_export org (ra_shards s) = audit_of (Some org) es
    \<and> audit_query q (ra_shards s) = take (aq_limit q)
        (filter (\<lambda>e. aq_event_type q \<in> {None, Some (ae_event_type e)})
          (filter (\<lambda>e. aq_from q \<le> ae_sequence e) (audit_of (aq_tenant_id q) es)))"
proof -
  note ev = raft_audit.events_after [OF assms]
  have q: "shard_events t (ra_shards s) = audit_of t es" for t using ev by blast
  have tip: "audit_tip t (ra_shards s) = length (shard_events t (ra_shards s))"
    using ev unfolding shards_wf_def audit_tip_def shard_events_def shard_or_new_def
    by (cases "map_of (ra_shards s) (shard_key t)") (auto split: option.splits)
  have exp: "tenant_export org (ra_shards s) = sort_key ae_sequence (shard_events (Some org) (ra_shards s))"
    by (simp add: tenant_export_def shard_events_def shard_or_new_def shard_key_def split: option.split)
  have "audit_query q (ra_shards s) = take (aq_limit q)
        (filter (\<lambda>e. aq_event_type q \<in> {None, Some (ae_event_type e)})
          (filter (\<lambda>e. aq_from q \<le> ae_sequence e) (shard_events (aq_tenant_id q) (ra_shards s))))"
    by (cases "aq_event_type q"; cases "map_of (ra_shards s) (shard_key (aq_tenant_id q))")
      (auto simp: audit_query_def shard_events_def shard_or_new_def intro!: arg_cong [where f = "take (aq_limit q)"] filter_cong)
  then show ?thesis using tip exp by (simp add: q audit_of_def sort_renumber)
qed

section \<open>Restarting on the persisted command log\<close>

definition restamp :: "nat \<Rightarrow> AuditEvent \<Rightarrow> AuditEvent" where
  "restamp i e = e\<lparr>ae_sequence := 0, ae_timestamp := index_timestamp i,
     ae_event_type := (if ae_event_type e = SecurityDowngradeEnabled then AdminAction else ae_event_type e)\<rparr>"

lemma event_type_roundtrip:
  "event_type_from_str (event_type_to_str t) = (if t = SecurityDowngradeEnabled then AdminAction else t)"
  by (cases t) (simp_all add: event_type_from_str_def)

lemma command_roundtrip: "command_event i (event_command e) = restamp i e"
  by (cases e) (simp add: command_event_def event_command_def restamp_def event_type_roundtrip)

lemma replay_commands_run:
  "replay_commands (zip [n + 1..<n + length cmds + 1] cmds) (shards, n) =
     bind_res (run_all audit_append (map2 command_event [n + 1..<n + length cmds + 1] cmds) shards)
       (\<lambda>shards. Ok (shards, n + length cmds))"
proof (induction cmds arbitrary: n shards)
  case (Cons c cs)
  have u: "[n + 1..<n + length (c # cs) + 1] = (n + 1) # [n + 1 + 1..<n + 1 + length cs + 1]"
    by (simp add: upt_conv_Cons del: upt_Suc)
  show ?case unfolding u
    by (cases "audit_append (command_event (n + 1) c) shards") (use Cons.IH [of "n + 1"] in \<open>simp_all del: upt_Suc\<close>)
qed simp

lemma from_commands_events:
  assumes "raft_audit_from_commands (zip [1..<length es + 1] (map event_command es)) = Ok s"
  shows "shard_events t (ra_shards s) = audit_of t (map2 restamp [1..<length es + 1] es)"
    "ra_log s = zip [1..<length es + 1] (map event_command es)"
proof -
  have m: "map2 command_event [1..<length es + 1] (map event_command es) = map2 restamp [1..<length es + 1] es"
    by (simp add: zip_map2 command_roundtrip split_beta del: upt_Suc)
  have "run_all audit_append (map2 restamp [1..<length es + 1] es) [] = Ok (ra_shards s)
      \<and> ra_log s = zip [1..<length es + 1] (map event_command es)"
    using assms replay_commands_run [of 0 "map event_command es" "[]", unfolded length_map add_0 m]
    by (cases "run_all audit_append (map2 restamp [1..<length es + 1] es) []")
      (auto simp: raft_audit_from_commands_def raft_audit_replay_def raft_audit_new_def simp del: upt_Suc)
  then show "shard_events t (ra_shards s) = audit_of t (map2 restamp [1..<length es + 1] es)"
    "ra_log s = zip [1..<length es + 1] (map event_command es)"
    using mem_audit.events_after by blast+
qed

text \<open>An append whose write to the log succeeded; the code does not look at the result of that write.\<close>

definition logged_append ::
    "AuditCommand Codec \<Rightarrow> 'd Database \<Rightarrow> AuditEvent \<Rightarrow> 'd PersistentAuditStore \<Rightarrow> (unit, 'd PersistentAuditStore) res" where
  "logged_append c db e s =
     bind_res (persistent_audit_append c db e s) (\<lambda>s'.
       if snd (log_append c db (length (ra_log (pa_inner s'))) (event_command e) (pa_store s)) = Ok () then Ok s' else Err ())"

lemma logged_appendD:
  assumes "logged_append c db e s = Ok s'"
  shows "raft_audit_append e (pa_inner s) = Ok (pa_inner s')"
    "log_append c db (length (ra_log (pa_inner s'))) (event_command e) (pa_store s) = (pa_store s', Ok ())"
  using assms by (cases "raft_audit_append e (pa_inner s)";
    auto simp: logged_append_def persistent_audit_append_def Let_def split: prod.splits if_splits)+

definition logged :: "AuditCommand Codec \<Rightarrow> ('d \<Rightarrow> contents) \<Rightarrow> AuditEvent list \<Rightarrow> 'd PersistentAuditStore \<Rightarrow> bool" where
  "logged c view es s \<longleftrightarrow> journal_holds c (view (fl_db (pa_store s))) (map event_command es)
     \<and> ra_log (pa_inner s) = zip [1..<length es + 1] (map event_command es)
     \<and> commit_mode (pa_store s) = SyncAll \<and> length es \<le> u64_max"

lemma logged_step:
  assumes "db_laws db view crash" "codec_laws c" "logged c view es s" "logged_append c db e s = Ok s'"
  shows "logged c view (es @ [e]) s'" "crash (fl_db (pa_store s')) d \<Longrightarrow> view d = view (fl_db (pa_store s'))"
proof -
  note ld = logged_appendD [OF assms(4)]
  note l = assms(3) [unfolded logged_def]
  have len: "length (ra_log (pa_inner s)) = length es" using l by (simp del: upt_Suc)
  have log: "ra_log (pa_inner s') = ra_log (pa_inner s) @ [(length es + 1, event_command e)]"
    using raft_audit_append_shards [OF ld(1)] len by simp
  have lt: "length es < u64_max"
    using ld(1) len by (auto simp: raft_audit_append_def add_u64_def split: if_splits)
  have ap: "log_append c db (length (map event_command es) + 1) (event_command e) (pa_store s) = (pa_store s', Ok ())"
    using ld(2) log len by simp
  have "journal_holds c (view (fl_db (pa_store s'))) (map event_command (es @ [e]))"
    using journal_append [OF assms(1,2) _ _ ap] l lt by simp
  moreover have "ra_log (pa_inner s') = zip [1..<length (es @ [e]) + 1] (map event_command (es @ [e]))"
  proof -
    have "[1..<length (es @ [e]) + 1] = [1..<length es + 1] @ [length es + 1]" by (simp add: upt_Suc_append)
    then show ?thesis using log l by (simp del: upt_Suc)
  qed
  ultimately show "logged c view (es @ [e]) s'"
    using log_append_cases(5) [OF assms(1) ap] l lt by (simp add: logged_def del: upt_Suc)
  show "view d = view (fl_db (pa_store s'))" if "crash (fl_db (pa_store s')) d"
    by (rule log_append_cases(4) [OF assms(1) ap refl _ that]) (use l in simp)
qed

lemma logged_run:
  assumes "db_laws db view crash" "codec_laws c" "logged c view [] s0"
  shows "run_all (logged_append c db) es s0 = Ok s \<Longrightarrow> logged c view es s
     \<and> (es \<noteq> [] \<longrightarrow> crash (fl_db (pa_store s)) d \<longrightarrow> view d = view (fl_db (pa_store s)))"
proof (induction es arbitrary: s rule: rev_induct)
  case (snoc e es)
  then obtain s1 where "run_all (logged_append c db) es s0 = Ok s1" "logged_append c db e s1 = Ok s"
    by (cases "run_all (logged_append c db) es s0") (simp_all add: run_all_snoc)
  then show ?case using logged_step [OF assms(1,2)] snoc.IH by blast
qed (use assms(3) in simp)

lemma persistent_open_fresh:
  assumes "db_laws db view crash" "\<And>k. view d0 KsLog k = None" "persistent_audit_open c db (Ok d0) = Ok s0"
  shows "logged c view [] s0"
proof -
  have j: "journal_holds c (view d0) []" by (rule journal_empty) (rule assms(2))
  let ?st = "\<lparr>fl_db = d0, fl_sync_per_write = True, fl_coalescer = False\<rparr>"
  have "(case log_range c db 1 u64_max ?st of Ok es \<Rightarrow> es | _ \<Rightarrow> []) = []"
    using journal_range [OF assms(1), where s = ?st and cmds = "[]"] j by (auto split: res.split)
  then have "s0 = \<lparr>pa_inner = raft_audit_new, pa_store = ?st\<rparr>"
    using assms(3) by (simp add: persistent_audit_open_def fjall_log_open_def)
  then show ?thesis using j by (simp add: logged_def raft_audit_new_def commit_mode_def)
qed


section \<open>Replicas\<close>

interpretation audit_replica: replicated_machine "\<lambda>s. s" "\<lambda>_. True" "audit_sm_new m0"
  "\<lambda>_ :: unit. \<lambda>entry s. ok_option (audit_sm_apply ix entry s)" "\<lambda>s. ok_option (audit_build_snapshot s)" audit_install_snapshot
  for m0 ix
proof (unfold_locales, goal_cases)
  case (4 s t b)
  then have "b = (\<lparr>an_event_count = as_event_count s, an_shards = as_shards s\<rparr>, as_last_applied_log s, as_last_membership s)"
    by (auto simp: ok_option_def audit_build_snapshot_def audit_snapshot_json_def split: if_splits)
  then show ?case by (cases t) (simp add: audit_install_snapshot_def)
qed simp_all

lemma audit_append_keys:
  "audit_append e shards = Ok shards' \<Longrightarrow> fst ` set shards' = insert (shard_key (ae_tenant_id e)) (fst ` set shards)"
  by (auto simp: audit_append_def Let_def update_conv' simp flip: dom_map_of_conv_image_fst)

lemma audit_sm_keys:
  assumes "run_all (audit_sm_apply ix) entries (audit_sm_new m0) = Ok s"
  shows "fst ` set (as_shards s) = (\<lambda>c. shard_key (ac_tenant c)) ` {c. \<exists>l. (l, Normal c) \<in> set entries}
    \<and> (entries \<noteq> [] \<longrightarrow> as_last_applied_log s \<noteq> None)"
  using assms
proof (induction entries arbitrary: s rule: rev_induct)
  case Nil
  then show ?case by (auto simp: audit_sm_new_def)
next
  case (snoc x entries)
  obtain s1 where s1: "run_all (audit_sm_apply ix) entries (audit_sm_new m0) = Ok s1" "audit_sm_apply ix x s1 = Ok s"
    using snoc.prems by (cases "run_all (audit_sm_apply ix) entries (audit_sm_new m0)") (simp_all add: run_all_snoc)
  obtain l p where x: "x = (l, p)" by fastforce
  have "fst ` set (as_shards s) = (case p of Normal c \<Rightarrow> insert (shard_key (ac_tenant c)) (fst ` set (as_shards s1)) | _ \<Rightarrow> fst ` set (as_shards s1))
    \<and> as_last_applied_log s = Some l"
    using s1(2) by (cases p) (clarsimp simp: x audit_sm_apply_def audit_sm_apply_command_def Let_def command_event_def
        dest!: audit_append_keys)+
  then show ?case using snoc.IH [OF s1(1)] by (cases p) (auto simp: x)
qed

text \<open>A replica of the audit log that has applied an event of any tenant can never build a snapshot again: the serialiser
  refuses the tenant key, so the log cannot be compacted and a new replica cannot be caught up from a snapshot.\<close>

lemma tenant_event_blocks_snapshot:
  assumes "run_all (audit_sm_apply ix) entries (audit_sm_new m0) = Ok s"
    and "(l, Normal (AppendEvent (Some org) ty actor descr)) \<in> set entries"
  shows "audit_build_snapshot s = Err () \<and> audit_get_current_snapshot s = Err ()"
proof -
  note k = audit_sm_keys [OF assms(1)]
  have "TenantShard org \<in> fst ` set (as_shards s)"
    using k assms(2) by (force simp: shard_key_def)
  then have "\<not> list_all (\<lambda>(k, s). json_string_key k) (as_shards s)"
    by (force simp: list_all_iff json_string_key_def)
  moreover obtain l' where "as_last_applied_log s = Some l'" using k assms(2) by force
  ultimately show ?thesis
    by (simp add: audit_build_snapshot_def audit_get_current_snapshot_def audit_snapshot_json_def)
qed

section \<open>Examples\<close>

definition demo_event :: AuditEvent where
  "demo_event = crypto_shred_force_override_event 7 ''lost''"

lemma demo_event_tenant: "ae_tenant_id demo_event = Some 7" "ae_event_type demo_event = KeyDestruction"
  by (simp_all add: demo_event_def crypto_shred_force_override_event_def)

lemma demo_raft_append: "raft_audit_append demo_event raft_audit_new =
    Ok \<lparr>ra_shards = [(TenantShard 7, \<lparr>sh_events = [demo_event\<lparr>ae_sequence := 1\<rparr>], sh_tip = 1\<rparr>)],
       ra_log = [(1, event_command demo_event)], ra_last_applied = 1\<rparr>"
  by (simp add: raft_audit_append_def raft_audit_new_def audit_append_def add_u64_def u64_max_val Let_def shard_or_new_def
      shard_key_def demo_event_tenant)

theorem audit_trail_exact_witness:
  "\<exists>s. run_all raft_audit_append [demo_event] raft_audit_new = Ok s
     \<and> audit_tip (Some 7) (ra_shards s) = 1 \<and> tenant_export 8 (ra_shards s) = []"
proof -
  obtain s where s: "run_all raft_audit_append [demo_event] raft_audit_new = Ok s" by (simp add: demo_raft_append)
  from audit_trail_exact [OF s] s show ?thesis
    by (simp add: audit_of_def demo_event_tenant renumber_def)
qed


lemma tenant_event_blocks_snapshot_example:
  "\<exists>s. run_all (audit_sm_apply (\<lambda>l. l)) [(1, Normal (AppendEvent (Some 7) ''DataRead'' ''a'' ''b''))] (audit_sm_new ()) = Ok s
     \<and> audit_build_snapshot s = Err ()"
proof -
  let ?e = "(1, Normal (AppendEvent (Some 7) ''DataRead'' ''a'' ''b''))"
  obtain s :: "(nat, unit) AuditSmInner" where s: "run_all (audit_sm_apply (\<lambda>l. l)) [?e] (audit_sm_new ()) = Ok s"
    by (simp add: audit_sm_apply_def audit_sm_apply_command_def audit_sm_new_def audit_append_def add_u64_def u64_max_val
        shard_or_new_def Let_def)
  from tenant_event_blocks_snapshot [OF s] s show ?thesis by auto
qed

end
