(* ===== verification/Key_Manager.thy ===== *)
theory Key_Manager
  imports Audit_Log Crypto_Envelope
begin

text \<open>
  The key manager (\<^verbatim>\<open>crates/kiseki-keymanager/src\<close>): the in-memory store (\<^verbatim>\<open>store.rs\<close>), the command-log store
  (\<^verbatim>\<open>raft_store.rs\<close>), the replicated state machine with its snapshots (\<^verbatim>\<open>raft/state_machine.rs\<close>), and the
  background re-wrapping of envelopes after a rotation (\<^verbatim>\<open>rewrap_worker.rs\<close>). Random key material is an argument, absent
  when the generator fails. What clients rely on, that a key once handed out stays available under its epoch, is
  the locale \<open>key_manager\<close>.
\<close>

section \<open>Epochs\<close>

datatype KeyManagerError = EpochNotFound nat | KeyGenerationFailed | Unavailable | RotationInProgress

datatype KeyManagerStatus = Healthy | Initializing | Degraded | StatusUnavailable

record KeyManagerHealth =
  kh_status :: KeyManagerStatus
  kh_epoch_count :: nat
  kh_current_epoch :: "nat option"

record EpochInfo =
  ei_epoch :: nat
  ei_is_current :: bool
  ei_migration_complete :: bool

record EpochEntry =
  ep_key :: SystemMasterKey
  ep_is_current :: bool
  ep_migration_complete :: bool

definition find_epoch :: "nat \<Rightarrow> EpochEntry list \<Rightarrow> EpochEntry option" where
  "find_epoch epoch es = find (\<lambda>e. mk_epoch (ep_key e) = epoch) es"

definition max_epoch :: "EpochEntry list \<Rightarrow> nat" where
  "max_epoch es = fold max (map (\<lambda>e. mk_epoch (ep_key e)) es) 0"

definition current_of :: "EpochEntry list \<Rightarrow> nat option" where
  "current_of es = map_option (\<lambda>e. mk_epoch (ep_key e)) (find ep_is_current es)"

definition demote_all :: "EpochEntry list \<Rightarrow> EpochEntry list" where
  "demote_all es = map (\<lambda>e. e\<lparr>ep_is_current := False\<rparr>) es"

fun mark_first :: "nat \<Rightarrow> EpochEntry list \<Rightarrow> EpochEntry list" where
  "mark_first epoch [] = []"
| "mark_first epoch (e # es) =
     (if mk_epoch (ep_key e) = epoch then e\<lparr>ep_migration_complete := True\<rparr> # es else e # mark_first epoch es)"

definition epoch_infos :: "EpochEntry list \<Rightarrow> EpochInfo list" where
  "epoch_infos es = map (\<lambda>e. \<lparr>ei_epoch = mk_epoch (ep_key e), ei_is_current = ep_is_current e,
     ei_migration_complete = ep_migration_complete e\<rparr>) es"

definition fetch_in :: "nat \<Rightarrow> KeyManagerStatus \<Rightarrow> EpochEntry list \<Rightarrow> (KeyManagerError, SystemMasterKey) res" where
  "fetch_in epoch status es =
     (if status = StatusUnavailable then Err Unavailable
      else ok_or (EpochNotFound epoch) (map_option ep_key (find_epoch epoch es)))"

definition current_in :: "KeyManagerStatus \<Rightarrow> EpochEntry list \<Rightarrow> (KeyManagerError, nat) res" where
  "current_in status es = (if status = StatusUnavailable then Err Unavailable else ok_or Unavailable (current_of es))"

definition health_in :: "KeyManagerStatus \<Rightarrow> EpochEntry list \<Rightarrow> KeyManagerHealth" where
  "health_in status es = \<lparr>kh_status = status, kh_epoch_count = length es, kh_current_epoch = current_of es\<rparr>"

section \<open>The in-memory store\<close>

text \<open>The audit sink is the sharded audit log of \<open>Audit_Log\<close>.\<close>

record MemKeyStore =
  ms_epochs :: "EpochEntry list"
  ms_status :: KeyManagerStatus
  ms_audit :: "AuditShards option"

definition mem_key_new :: "bytes option \<Rightarrow> (KeyManagerError, MemKeyStore) res" where
  "mem_key_new random =
     bind_res (ok_or KeyGenerationFailed random) (\<lambda>key_material.
       Ok \<lparr>ms_epochs = [\<lparr>ep_key = \<lparr>mk_material = key_material, mk_epoch = 1\<rparr>, ep_is_current = True, ep_migration_complete = True\<rparr>],
           ms_status = Healthy, ms_audit = None\<rparr>)"

definition set_audit_log :: "AuditShards \<Rightarrow> MemKeyStore \<Rightarrow> MemKeyStore \<times> (AuditShards, unit) res" where
  "set_audit_log audit s = (case ms_audit s of None \<Rightarrow> (s\<lparr>ms_audit := Some audit\<rparr>, Ok ()) | Some _ \<Rightarrow> (s, Err audit))"

definition key_audit_event :: "AuditEventType \<Rightarrow> string \<Rightarrow> AuditEvent" where
  "key_audit_event event_type description =
     \<lparr>ae_sequence = 0,
      ae_timestamp = \<lparr>ts_hlc = HLC 0 0 0, ts_wall = \<lparr>millis_since_epoch = 0, timezone = ''UTC''\<rparr>, ts_quality = Ntp\<rparr>,
      ae_event_type = event_type, ae_tenant_id = None, ae_actor = ''kiseki-keymanager'', ae_description = description\<rparr>"

definition mem_health :: "MemKeyStore \<Rightarrow> KeyManagerHealth" where
  "mem_health s = health_in (ms_status s) (ms_epochs s)"

definition set_status :: "KeyManagerStatus \<Rightarrow> MemKeyStore \<Rightarrow> MemKeyStore" where
  "set_status status s = s\<lparr>ms_status := status\<rparr>"

definition mem_fetch_master_key :: "nat \<Rightarrow> MemKeyStore \<Rightarrow> (KeyManagerError, SystemMasterKey) res" where
  "mem_fetch_master_key epoch s = fetch_in epoch (ms_status s) (ms_epochs s)"

definition mem_current_epoch :: "MemKeyStore \<Rightarrow> (KeyManagerError, nat) res" where
  "mem_current_epoch s = current_in (ms_status s) (ms_epochs s)"

definition mem_rotate :: "bytes option \<Rightarrow> MemKeyStore \<Rightarrow> MemKeyStore \<times> (KeyManagerError, nat) res" where
  "mem_rotate random s =
     (if ms_status s = StatusUnavailable then (s, Err Unavailable)
      else bind_st (s, add_u64 (max_epoch (ms_epochs s)) 1) (\<lambda>s next_epoch.
        bind_st (s, ok_or KeyGenerationFailed random) (\<lambda>s key_material.
          let s = s\<lparr>ms_epochs := demote_all (ms_epochs s) @
                [\<lparr>ep_key = \<lparr>mk_material = key_material, mk_epoch = next_epoch\<rparr>, ep_is_current = True, ep_migration_complete = False\<rparr>]\<rparr> in
          case ms_audit s of
            None \<Rightarrow> (s, Ok next_epoch)
          | Some audit \<Rightarrow>
              (case audit_append (key_audit_event KeyRotation (''system master key rotated to epoch '' @ decimal next_epoch)) audit of
                 Ok audit \<Rightarrow> (s\<lparr>ms_audit := Some audit\<rparr>, Ok next_epoch)
               | _ \<Rightarrow> (s, Panic)))))"

definition mem_mark_migration_complete :: "nat \<Rightarrow> MemKeyStore \<Rightarrow> MemKeyStore \<times> (KeyManagerError, unit) res" where
  "mem_mark_migration_complete epoch s =
     (if find_epoch epoch (ms_epochs s) = None then (s, Err (EpochNotFound epoch))
      else (s\<lparr>ms_epochs := mark_first epoch (ms_epochs s)\<rparr>, Ok ()))"

definition mem_list_epochs :: "MemKeyStore \<Rightarrow> EpochInfo list" where
  "mem_list_epochs s = epoch_infos (ms_epochs s)"

section \<open>The command-log store\<close>

datatype KeyCommand =
    CreateEpoch (kc_epoch: nat) (kc_key_material: bytes)
  | RotateToEpoch (kc_epoch: nat)
  | MarkMigrationComplete (kc_epoch: nat)

text \<open>The key is copied into a zeroed 32-byte array.\<close>

definition pad_material :: "bytes \<Rightarrow> bytes" where
  "pad_material m = take 32 m @ replicate (32 - length m) 0"

fun apply_key_command :: "KeyCommand \<Rightarrow> EpochEntry list \<Rightarrow> EpochEntry list" where
  "apply_key_command (CreateEpoch epoch key_material) es =
     (if find_epoch epoch es \<noteq> None then es
      else demote_all es @ [\<lparr>ep_key = \<lparr>mk_material = pad_material key_material, mk_epoch = epoch\<rparr>,
             ep_is_current = True, ep_migration_complete = False\<rparr>])"
| "apply_key_command (RotateToEpoch epoch) es = map (\<lambda>e. e\<lparr>ep_is_current := (mk_epoch (ep_key e) = epoch)\<rparr>) es"
| "apply_key_command (MarkMigrationComplete epoch) es = mark_first epoch es"

record KeyStateMachine =
  ks_epochs :: "EpochEntry list"
  ks_status :: KeyManagerStatus
  ks_last_applied :: nat

definition key_machine_new :: KeyStateMachine where
  "key_machine_new = \<lparr>ks_epochs = [], ks_status = Healthy, ks_last_applied = 0\<rparr>"

definition key_machine_apply :: "nat \<Rightarrow> KeyCommand \<Rightarrow> KeyStateMachine \<Rightarrow> KeyStateMachine" where
  "key_machine_apply index cmd m =
     (if index \<le> ks_last_applied m then m
      else m\<lparr>ks_last_applied := index, ks_epochs := apply_key_command cmd (ks_epochs m)\<rparr>)"

record RaftKeyStore =
  rk_state :: KeyStateMachine
  rk_log :: "(nat \<times> KeyCommand) list"

text \<open>\<^verbatim>\<open>apply_command\<close> holds the log's lock for the first half and the machine's for the second.\<close>

definition push_command :: "KeyCommand \<Rightarrow> RaftKeyStore \<Rightarrow> RaftKeyStore \<times> nat" where
  "push_command cmd s = (let index = length (rk_log s) + 1 in (s\<lparr>rk_log := rk_log s @ [(index, cmd)]\<rparr>, index))"

definition apply_pushed :: "nat \<Rightarrow> KeyCommand \<Rightarrow> RaftKeyStore \<Rightarrow> RaftKeyStore" where
  "apply_pushed index cmd s = s\<lparr>rk_state := key_machine_apply index cmd (rk_state s)\<rparr>"

definition raft_apply_command :: "KeyCommand \<Rightarrow> RaftKeyStore \<Rightarrow> RaftKeyStore \<times> nat" where
  "raft_apply_command cmd s = (let (s, index) = push_command cmd s in (apply_pushed index cmd s, index))"

definition raft_key_empty :: RaftKeyStore where
  "raft_key_empty = \<lparr>rk_state = key_machine_new, rk_log = []\<rparr>"

definition raft_key_new :: "bytes option \<Rightarrow> (KeyManagerError, RaftKeyStore) res" where
  "raft_key_new random =
     bind_res (ok_or KeyGenerationFailed random) (\<lambda>key_material.
       let (s, _) = raft_apply_command (CreateEpoch 1 key_material) raft_key_empty;
           (s, _) = raft_apply_command (MarkMigrationComplete 1) s in
       Ok s)"

definition replay_key_commands :: "(nat \<times> KeyCommand) list \<Rightarrow> KeyStateMachine \<Rightarrow> KeyStateMachine" where
  "replay_key_commands commands m = fold (\<lambda>(index, cmd). key_machine_apply index cmd) commands m"

definition raft_key_from_commands :: "(nat \<times> KeyCommand) list \<Rightarrow> RaftKeyStore" where
  "raft_key_from_commands commands =
     fold (\<lambda>(index, cmd) s. apply_pushed index cmd (s\<lparr>rk_log := rk_log s @ [(index, cmd)]\<rparr>)) commands raft_key_empty"

definition raft_key_replay :: "RaftKeyStore \<Rightarrow> RaftKeyStore" where
  "raft_key_replay s = s\<lparr>rk_state := replay_key_commands (rk_log s) key_machine_new\<rparr>"

definition raft_key_health :: "RaftKeyStore \<Rightarrow> KeyManagerHealth" where
  "raft_key_health s = health_in (ks_status (rk_state s)) (ks_epochs (rk_state s))"

definition raft_fetch_master_key :: "nat \<Rightarrow> RaftKeyStore \<Rightarrow> (KeyManagerError, SystemMasterKey) res" where
  "raft_fetch_master_key epoch s = fetch_in epoch (ks_status (rk_state s)) (ks_epochs (rk_state s))"

definition raft_current_epoch :: "RaftKeyStore \<Rightarrow> (KeyManagerError, nat) res" where
  "raft_current_epoch s = current_in (ks_status (rk_state s)) (ks_epochs (rk_state s))"

definition raft_rotate :: "bytes option \<Rightarrow> RaftKeyStore \<Rightarrow> RaftKeyStore \<times> (KeyManagerError, nat) res" where
  "raft_rotate random s =
     bind_st (s, ok_or KeyGenerationFailed random) (\<lambda>s key_material.
       if ks_status (rk_state s) = StatusUnavailable then (s, Err Unavailable)
       else bind_st (s, add_u64 (max_epoch (ks_epochs (rk_state s))) 1) (\<lambda>s next_epoch.
         (fst (raft_apply_command (CreateEpoch next_epoch key_material) s), Ok next_epoch)))"

definition raft_mark_migration_complete :: "nat \<Rightarrow> RaftKeyStore \<Rightarrow> RaftKeyStore \<times> (KeyManagerError, unit) res" where
  "raft_mark_migration_complete epoch s =
     (if find_epoch epoch (ks_epochs (rk_state s)) = None then (s, Err (EpochNotFound epoch))
      else (fst (raft_apply_command (MarkMigrationComplete epoch) s), Ok ()))"

definition raft_list_epochs :: "RaftKeyStore \<Rightarrow> EpochInfo list" where
  "raft_list_epochs s = epoch_infos (ks_epochs (rk_state s))"

section \<open>The replicated state machine\<close>

datatype KeyResponse = KeyOk | KeyEpoch nat

record ('l, 'm) KeySmInner =
  ki_epochs :: "EpochEntry list"
  ki_last_applied_log :: "'l option"
  ki_last_membership :: "'l option \<times> 'm"

record SnapshotEpoch =
  se_epoch :: nat
  se_key_material :: bytes
  se_is_current :: bool
  se_migration_complete :: bool

definition key_sm_new :: "'m \<Rightarrow> ('l, 'm) KeySmInner" where
  "key_sm_new m0 = \<lparr>ki_epochs = [], ki_last_applied_log = None, ki_last_membership = (None, m0)\<rparr>"

definition key_sm_apply_command :: "KeyCommand \<Rightarrow> ('l, 'm) KeySmInner \<Rightarrow> ('l, 'm) KeySmInner \<times> KeyResponse" where
  "key_sm_apply_command cmd s =
     (s\<lparr>ki_epochs := apply_key_command cmd (ki_epochs s)\<rparr>,
      case cmd of MarkMigrationComplete _ \<Rightarrow> KeyOk | _ \<Rightarrow> KeyEpoch (kc_epoch cmd))"

definition key_sm_apply ::
    "'l \<times> (KeyCommand, 'm) Payload \<Rightarrow> ('l, 'm) KeySmInner \<Rightarrow> ('l, 'm) KeySmInner \<times> KeyResponse" where
  "key_sm_apply entry s =
     (let s = s\<lparr>ki_last_applied_log := Some (fst entry)\<rparr> in
      case snd entry of
        Blank \<Rightarrow> (s, KeyOk)
      | Normal cmd \<Rightarrow> key_sm_apply_command cmd s
      | Membership m \<Rightarrow> (s\<lparr>ki_last_membership := (Some (fst entry), m)\<rparr>, KeyOk))"

definition key_build_snapshot :: "('l, 'm) KeySmInner \<Rightarrow> SnapshotEpoch list \<times> 'l option \<times> ('l option \<times> 'm)" where
  "key_build_snapshot s =
     (map (\<lambda>e. \<lparr>se_epoch = mk_epoch (ep_key e), se_key_material = mk_material (ep_key e), se_is_current = ep_is_current e,
        se_migration_complete = ep_migration_complete e\<rparr>) (ki_epochs s), ki_last_applied_log s, ki_last_membership s)"

definition key_install_snapshot ::
    "SnapshotEpoch list \<times> 'l option \<times> ('l option \<times> 'm) \<Rightarrow> ('l, 'm) KeySmInner \<Rightarrow> ('l, 'm) KeySmInner" where
  "key_install_snapshot snap s =
     (let (epochs, last_log_id, last_membership) = snap in
      s\<lparr>ki_epochs := map (\<lambda>se. \<lparr>ep_key = \<lparr>mk_material = pad_material (se_key_material se), mk_epoch = se_epoch se\<rparr>,
           ep_is_current = se_is_current se, ep_migration_complete = se_migration_complete se\<rparr>) epochs,
        ki_last_applied_log := last_log_id, ki_last_membership := last_membership\<rparr>)"

definition key_get_current_snapshot :: "('l, 'm) KeySmInner \<Rightarrow> (SnapshotEpoch list \<times> 'l option \<times> ('l option \<times> 'm)) option" where
  "key_get_current_snapshot s = (case ki_last_applied_log s of None \<Rightarrow> None | Some l \<Rightarrow> Some (key_build_snapshot s))"

section \<open>Re-wrapping\<close>

record RewrapProgress =
  rp_total :: nat
  rp_completed :: nat
  rp_failed :: nat
  rp_cancelled :: bool

datatype RewrapError = SameEpoch | EpochMismatch nat nat | DecryptFailed | EncryptFailed

definition rewrap_progress_new :: "nat \<Rightarrow> RewrapProgress" where
  "rewrap_progress_new n = \<lparr>rp_total = n, rp_completed = 0, rp_failed = 0, rp_cancelled = False\<rparr>"

definition rewrap_is_done :: "RewrapProgress \<Rightarrow> (unit, bool) res" where
  "rewrap_is_done p =
     (if rp_cancelled p then Ok True
      else bind_res (add_u64 (rp_completed p) (rp_failed p)) (\<lambda>n. Ok (n \<ge> rp_total p)))"

definition rewrap_cancel :: "RewrapProgress \<Rightarrow> RewrapProgress" where
  "rewrap_cancel p = p\<lparr>rp_cancelled := True\<rparr>"

definition rewrap_envelope ::
    "Primitives \<Rightarrow> SystemMasterKey \<Rightarrow> SystemMasterKey \<Rightarrow> Envelope \<Rightarrow> (RewrapError, Envelope) res" where
  "rewrap_envelope cx old_master new_master env =
     (if mk_epoch old_master = mk_epoch new_master then Err SameEpoch
      else if ev_system_epoch env \<noteq> mk_epoch old_master then Err (EpochMismatch (ev_system_epoch env) (mk_epoch old_master))
      else bind_res (map_err (\<lambda>_. DecryptFailed) (open_envelope cx old_master env)) (\<lambda>plaintext.
        map_err (\<lambda>_. EncryptFailed) (seal_envelope cx new_master (ev_chunk_id env) plaintext)))"

text \<open>The counters are atomics, whose addition wraps. \<open>cancels\<close> says before which envelopes another thread has
  cancelled the run.\<close>

fun run_rewrap_batch ::
    "Primitives \<Rightarrow> SystemMasterKey \<Rightarrow> SystemMasterKey \<Rightarrow> (Envelope \<times> bool) list \<Rightarrow> RewrapProgress \<Rightarrow>
       (unit, Envelope list \<times> RewrapProgress) res" where
  "run_rewrap_batch cx old_master new_master [] p = Ok ([], p)"
| "run_rewrap_batch cx old_master new_master ((env, cancels) # envs) p =
     (let p = (if cancels then rewrap_cancel p else p) in
      if rp_cancelled p then Ok ([], p)
      else case rewrap_envelope cx old_master new_master env of
        Panic \<Rightarrow> Panic
      | Ok new_env \<Rightarrow>
          bind_res (run_rewrap_batch cx old_master new_master envs (p\<lparr>rp_completed := (rp_completed p + 1) mod 2 ^ 64\<rparr>))
            (\<lambda>(results, p). Ok (new_env # results, p))
      | Err _ \<Rightarrow> run_rewrap_batch cx old_master new_master envs (p\<lparr>rp_failed := (rp_failed p + 1) mod 2 ^ 64\<rparr>))"

section \<open>The key ring\<close>

definition ring :: "EpochEntry list \<Rightarrow> nat \<Rightarrow> SystemMasterKey option" where
  "ring es epoch = map_option ep_key (find_epoch epoch es)"

lemma ring_Nil [simp]: "ring [] = Map.empty"
  by (simp add: ring_def find_epoch_def fun_eq_iff)

lemma ring_Cons [simp]: "ring (x # es) epoch = (if mk_epoch (ep_key x) = epoch then Some (ep_key x) else ring es epoch)"
  by (simp add: ring_def find_epoch_def)

lemma find_epoch_ring: "find_epoch epoch es = None \<longleftrightarrow> ring es epoch = None"
  by (simp add: ring_def)

lemma ring_snoc: "ring es (mk_epoch (ep_key x)) = None \<Longrightarrow> ring (es @ [x]) = (ring es)(mk_epoch (ep_key x) \<mapsto> ep_key x)"
  by (induction es) (auto simp: fun_eq_iff split: if_splits)

lemma ring_demote [simp]: "ring (demote_all es) = ring es"
  by (induction es) (auto simp: demote_all_def fun_eq_iff)

lemma ring_mark [simp]: "ring (mark_first epoch es) = ring es"
  by (induction es) (auto simp: fun_eq_iff)

lemma ring_retarget [simp]: "ring (map (\<lambda>e. e\<lparr>ep_is_current := f e\<rparr>) es) = ring es"
  by (induction es) (auto simp: fun_eq_iff)

lemma ring_epoch: "ring es epoch = Some k \<Longrightarrow> mk_epoch k = epoch"
  by (induction es) (auto split: if_splits)

lemma fold_max_ge: "(a :: nat) \<le> fold max xs a" "x \<in> set xs \<Longrightarrow> x \<le> fold max xs a"
  by (induction xs arbitrary: a) (auto intro: order_trans [OF max.cobounded1] order_trans [OF max.cobounded2])

lemma ring_dom: "ring es epoch \<noteq> None \<Longrightarrow> epoch \<in> set (map (\<lambda>e. mk_epoch (ep_key e)) es)"
  by (induction es) (auto split: if_splits)

lemma ring_max: "max_epoch es < epoch \<Longrightarrow> ring es epoch = None"
proof (rule ccontr)
  assume m: "max_epoch es < epoch" and "ring es epoch \<noteq> None"
  then have "epoch \<in> set (map (\<lambda>e. mk_epoch (ep_key e)) es)" by (intro ring_dom)
  from fold_max_ge(2) [OF this, of 0] m show False by (simp add: max_epoch_def)
qed

lemma current_of_snoc_demoted: "current_of (demote_all es @ [x\<lparr>ep_is_current := True\<rparr>]) = Some (mk_epoch (ep_key x))"
  by (induction es) (simp_all add: current_of_def demote_all_def)

lemma fetch_in_ring:
  "fetch_in epoch status es = (if status = StatusUnavailable then Err Unavailable else ok_or (EpochNotFound epoch) (ring es epoch))"
  by (simp add: fetch_in_def ring_def)

section \<open>The contract of a key manager\<close>

text \<open>\<open>'r\<close> is what a call draws from the random generator. A rotation that succeeds adds one key under a new epoch
  and makes it current; nothing ever removes or changes a key.\<close>

locale key_manager =
  fixes wf :: "'s \<Rightarrow> bool"
    and keys :: "'s \<Rightarrow> nat \<Rightarrow> SystemMasterKey option"
    and available :: "'s \<Rightarrow> bool"
    and fetch :: "nat \<Rightarrow> 's \<Rightarrow> (KeyManagerError, SystemMasterKey) res"
    and current :: "'s \<Rightarrow> (KeyManagerError, nat) res"
    and rotate :: "'r \<Rightarrow> 's \<Rightarrow> 's \<times> (KeyManagerError, nat) res"
    and mark :: "'r \<Rightarrow> nat \<Rightarrow> 's \<Rightarrow> 's \<times> (KeyManagerError, unit) res"
  assumes fetch_law: "wf s \<Longrightarrow> fetch epoch s = (if available s then ok_or (EpochNotFound epoch) (keys s epoch) else Err Unavailable)"
    and keys_epoch: "wf s \<Longrightarrow> keys s epoch = Some k \<Longrightarrow> mk_epoch k = epoch"
    and rotate_ok: "wf s \<Longrightarrow> rotate r s = (s', Ok epoch) \<Longrightarrow>
      wf s' \<and> available s' = available s \<and> keys s epoch = None \<and> (\<exists>k. keys s' = (keys s)(epoch \<mapsto> k)) \<and> current s' = Ok epoch"
    and rotate_err: "wf s \<Longrightarrow> rotate r s = (s', Err e) \<Longrightarrow> s' = s"
    and mark_ok: "wf s \<Longrightarrow> mark r epoch s = (s', Ok ()) \<Longrightarrow> wf s' \<and> available s' = available s \<and> keys s' = keys s"
    and mark_err: "wf s \<Longrightarrow> mark r epoch s = (s', Err e) \<Longrightarrow> s' = s"
begin

definition key_step :: "'s \<Rightarrow> 's \<Rightarrow> bool" where
  "key_step s s' \<longleftrightarrow> (\<exists>r res. rotate r s = (s', res) \<and> res \<noteq> Panic) \<or> (\<exists>r epoch res. mark r epoch s = (s', res) \<and> res \<noteq> Panic)"

lemma key_step_keeps:
  assumes "wf s" "key_step s s'"
  shows "wf s' \<and> available s' = available s \<and> keys s \<subseteq>\<^sub>m keys s'"
  using assms(2) unfolding key_step_def
proof (elim disjE exE conjE)
  fix r res
  assume r: "rotate r s = (s', res)" "res \<noteq> Panic"
  show ?thesis
  proof (cases res)
    case (Ok epoch)
    then show ?thesis using rotate_ok [OF assms(1)] r(1) by (fastforce simp: map_le_def)
  next
    case (Err e)
    then have "s' = s" using rotate_err [OF assms(1)] r(1) by blast
    then show ?thesis using assms(1) by simp
  qed (use r(2) in simp)
next
  fix r epoch res
  assume r: "mark r epoch s = (s', res)" "res \<noteq> Panic"
  then show ?thesis using mark_ok [OF assms(1)] mark_err [OF assms(1)] assms(1) by (cases res) fastforce+
qed

lemma keys_kept: "key_step\<^sup>*\<^sup>* s s' \<Longrightarrow> wf s \<Longrightarrow> wf s' \<and> available s' = available s \<and> keys s \<subseteq>\<^sub>m keys s'"
  by (induction rule: rtranclp_induct) (simp, metis key_step_keeps map_le_trans)

text \<open>An envelope sealed under a key of the manager can be opened after any further rotations.\<close>

lemma sealed_stays_open:
  assumes "crypto_laws cx" "length p \<le> gcm_max" "wf s" "fetch epoch s = Ok k" "seal_envelope cx k cid p = Ok env"
    and "key_step\<^sup>*\<^sup>* s s'"
  shows "ev_system_epoch env = epoch \<and> fetch (ev_system_epoch env) s' = Ok k \<and> open_envelope cx k env = Ok p"
proof -
  note kept = keys_kept [OF assms(6,3)]
  have av: "available s" and k: "keys s epoch = Some k"
    using assms(4) fetch_law [OF assms(3), of epoch] by (auto split: if_splits)
  obtain e where "seal_envelope cx k cid p = Ok e" "open_envelope cx k e = Ok p" "ev_system_epoch e = mk_epoch k"
    by (rule open_of_seal [OF assms(1,2)])
  then have e: "open_envelope cx k env = Ok p" "ev_system_epoch env = epoch"
    using assms(5) keys_epoch [OF assms(3) k] by simp_all
  have "keys s' epoch = Some k" using kept k by (metis domI map_le_def)
  then show ?thesis using e kept av fetch_law [of s' epoch] by simp
qed

end

interpretation mem_keys: key_manager "\<lambda>_. True" "\<lambda>s. ring (ms_epochs s)" "\<lambda>s. ms_status s \<noteq> StatusUnavailable"
  mem_fetch_master_key mem_current_epoch mem_rotate "\<lambda>_. mem_mark_migration_complete"
proof (unfold_locales, goal_cases)
  case (3 s r s' epoch)
  let ?e = "\<lambda>m. \<lparr>ep_key = \<lparr>mk_material = m, mk_epoch = epoch\<rparr>, ep_is_current = True, ep_migration_complete = False\<rparr>"
  obtain m where st: "ms_status s \<noteq> StatusUnavailable" "epoch = max_epoch (ms_epochs s) + 1"
    and es: "ms_epochs s' = demote_all (ms_epochs s) @ [?e m]" "ms_status s' = ms_status s"
    using 3 by (cases r) (auto simp: mem_rotate_def add_u64_def Let_def split: if_splits option.splits res.splits)
  have n: "ring (ms_epochs s) epoch = None" by (rule ring_max) (simp add: st)
  show ?case using n st(1) ring_snoc [of "demote_all (ms_epochs s)" "?e m"] current_of_snoc_demoted [of "ms_epochs s" "?e m"]
    by (auto simp: es mem_current_epoch_def current_in_def)
next
  case (4 s r s' e)
  then show ?case
    by (cases r) (auto simp: mem_rotate_def add_u64_def Let_def split: if_splits option.splits res.splits)
qed (auto simp: mem_fetch_master_key_def fetch_in_ring mem_mark_migration_complete_def ring_epoch split: if_splits)

text \<open>The command-log store is well-formed when everything logged has been applied.\<close>

definition raft_key_wf :: "RaftKeyStore \<Rightarrow> bool" where
  "raft_key_wf s \<longleftrightarrow> rk_log s = zip [1..<length (rk_log s) + 1] (map snd (rk_log s))
     \<and> ks_last_applied (rk_state s) = length (rk_log s)
     \<and> ks_epochs (rk_state s) = fold apply_key_command (map snd (rk_log s)) []"

lemma raft_apply_command_wf:
  assumes "raft_key_wf s"
  shows "raft_key_wf (fst (raft_apply_command cmd s))"
    "ks_epochs (rk_state (fst (raft_apply_command cmd s))) = apply_key_command cmd (ks_epochs (rk_state s))"
    "ks_status (rk_state (fst (raft_apply_command cmd s))) = ks_status (rk_state s)"
    "rk_log (fst (raft_apply_command cmd s)) = rk_log s @ [(length (rk_log s) + 1, cmd)]"
    "snd (raft_apply_command cmd s) = length (rk_log s) + 1"
proof -
  note d = raft_apply_command_def push_command_def apply_pushed_def key_machine_apply_def
  have u: "[1..<length (rk_log s) + 1 + 1] = [1..<length (rk_log s) + 1] @ [length (rk_log s) + 1]" by (simp add: upt_Suc_append)
  show "raft_key_wf (fst (raft_apply_command cmd s))"
    using assms u by (simp add: d raft_key_wf_def Let_def del: upt_Suc)
  show "ks_epochs (rk_state (fst (raft_apply_command cmd s))) = apply_key_command cmd (ks_epochs (rk_state s))"
    "ks_status (rk_state (fst (raft_apply_command cmd s))) = ks_status (rk_state s)"
    "rk_log (fst (raft_apply_command cmd s)) = rk_log s @ [(length (rk_log s) + 1, cmd)]"
    "snd (raft_apply_command cmd s) = length (rk_log s) + 1"
    using assms by (simp_all add: d raft_key_wf_def Let_def)
qed

lemma ring_create:
  "ring es epoch = None \<Longrightarrow>
     ring (apply_key_command (CreateEpoch epoch m) es) = (ring es)(epoch \<mapsto> \<lparr>mk_material = pad_material m, mk_epoch = epoch\<rparr>)
     \<and> current_of (apply_key_command (CreateEpoch epoch m) es) = Some epoch"
  using ring_snoc [of "demote_all es" "\<lparr>ep_key = \<lparr>mk_material = pad_material m, mk_epoch = epoch\<rparr>,
             ep_is_current = True, ep_migration_complete = False\<rparr>"]
    current_of_snoc_demoted [of es "\<lparr>ep_key = \<lparr>mk_material = pad_material m, mk_epoch = epoch\<rparr>,
             ep_is_current = True, ep_migration_complete = False\<rparr>"]
  by (simp add: find_epoch_ring)

interpretation raft_keys: key_manager raft_key_wf "\<lambda>s. ring (ks_epochs (rk_state s))" "\<lambda>s. ks_status (rk_state s) \<noteq> StatusUnavailable"
  raft_fetch_master_key raft_current_epoch raft_rotate "\<lambda>_. raft_mark_migration_complete"
proof (unfold_locales, goal_cases)
  case (3 s r s' epoch)
  then obtain m where st: "ks_status (rk_state s) \<noteq> StatusUnavailable" "epoch = max_epoch (ks_epochs (rk_state s)) + 1"
    and s': "s' = fst (raft_apply_command (CreateEpoch epoch m) s)"
    by (cases r) (auto simp: raft_rotate_def add_u64_def split: if_splits)
  have "ring (ks_epochs (rk_state s)) epoch = None" by (rule ring_max) (simp add: st)
  from ring_create [OF this, of m] this show ?case
    using st(1) raft_apply_command_wf [OF 3(1)]
    by (auto simp: s' raft_current_epoch_def current_in_def simp del: apply_key_command.simps)
next
  case (4 s r s' e)
  then show ?case by (cases r) (auto simp: raft_rotate_def add_u64_def split: if_splits)
next
  case (5 s r epoch s')
  then show ?case
    using raft_apply_command_wf [OF 5(1)] by (auto simp: raft_mark_migration_complete_def split: if_splits)
qed (auto simp: raft_fetch_master_key_def fetch_in_ring raft_mark_migration_complete_def ring_epoch split: if_splits)

section \<open>Keys are kept\<close>

inductive raft_key_step :: "RaftKeyStore \<Rightarrow> RaftKeyStore \<Rightarrow> bool" where
  key_rotate: "raft_rotate random s = (s', res) \<Longrightarrow> res \<noteq> Panic \<Longrightarrow> raft_key_step s s'"
| key_mark: "raft_mark_migration_complete epoch s = (s', res) \<Longrightarrow> res \<noteq> Panic \<Longrightarrow> raft_key_step s s'"

lemma raft_key_step_eq: "raft_key_step = raft_keys.key_step"
  by (auto simp: fun_eq_iff raft_keys.key_step_def raft_key_step.simps)

lemma raft_key_empty_wf: "raft_key_wf raft_key_empty"
  by (simp add: raft_key_wf_def raft_key_empty_def key_machine_new_def)

lemma raft_key_new_wf:
  assumes "raft_key_new random = Ok s"
  shows "raft_key_wf s" "ks_status (rk_state s) = Healthy"
proof -
  obtain m where s: "s = fst (raft_apply_command (MarkMigrationComplete 1) (fst (raft_apply_command (CreateEpoch 1 m) raft_key_empty)))"
    using assms by (cases random) (auto simp: raft_key_new_def Let_def split_beta)
  note w = raft_apply_command_wf [OF raft_key_empty_wf]
  show "raft_key_wf s" "ks_status (rk_state s) = Healthy"
    using raft_apply_command_wf [OF w(1)] w(3) by (simp_all add: s raft_key_empty_def key_machine_new_def)
qed

text \<open>C12: No rotation makes data unreadable. Whatever is sealed under a key the store hands out carries that key's epoch, and
  after any further rotations and migration marks the store still hands out the same key for that epoch, which
  opens the envelope to the plaintext.\<close>

theorem old_envelopes_stay_readable:
  assumes "crypto_laws cx" "length p \<le> gcm_max" "raft_key_new random = Ok s0" "raft_key_step\<^sup>*\<^sup>* s0 s"
    and "raft_fetch_master_key epoch s = Ok k" "seal_envelope cx k cid p = Ok env" "raft_key_step\<^sup>*\<^sup>* s s'"
  shows "ev_system_epoch env = epoch \<and> raft_fetch_master_key (ev_system_epoch env) s' = Ok k \<and> open_envelope cx k env = Ok p"
proof -
  have "raft_key_wf s"
    using raft_keys.keys_kept [OF assms(4) [unfolded raft_key_step_eq] raft_key_new_wf(1) [OF assms(3)]] by blast
  from raft_keys.sealed_stays_open [OF assms(1,2) this assms(5,6) assms(7) [unfolded raft_key_step_eq]] show ?thesis .
qed

section \<open>A lost rotation\<close>

lemma replay_from:
  "replay_key_commands (zip [n + 1..<n + length cmds + 1] cmds) \<lparr>ks_epochs = es, ks_status = st, ks_last_applied = n\<rparr>
     = \<lparr>ks_epochs = fold apply_key_command cmds es, ks_status = st, ks_last_applied = n + length cmds\<rparr>"
proof (induction cmds arbitrary: n es)
  case (Cons c cs)
  have u: "[n + 1..<n + length (c # cs) + 1] = (n + 1) # [n + 1 + 1..<n + 1 + length cs + 1]"
    by (simp add: upt_conv_Cons del: upt_Suc)
  show ?case unfolding u using Cons.IH [of "n + 1"] by (simp add: replay_key_commands_def key_machine_apply_def del: upt_Suc)
qed (simp add: replay_key_commands_def)

lemma raft_replay_wf:
  assumes "raft_key_wf s"
  shows "replay_key_commands (rk_log s) key_machine_new
      = \<lparr>ks_epochs = ks_epochs (rk_state s), ks_status = Healthy, ks_last_applied = length (rk_log s)\<rparr>"
  using assms replay_from [of 0 "map snd (rk_log s)" "[]" Healthy]
  unfolding raft_key_wf_def key_machine_new_def by (metis add_0 length_map)

text \<open>The store gives up the lock of the log before it takes the lock of the state. When a rotation is logged first
  and a migration mark second, but the mark is applied first, the rotation is discarded as already applied: the
  caller is told of an epoch that the store does not have, until a replay of the same log makes it appear.\<close>

lemma rotation_lost_in_race:
  assumes "raft_key_wf s" "ks_status (rk_state s) \<noteq> StatusUnavailable" "epoch = max_epoch (ks_epochs (rk_state s)) + 1"
    and "push_command (CreateEpoch epoch m) s = (s1, i)" "push_command (MarkMigrationComplete old) s1 = (s2, j)"
    and "s3 = apply_pushed i (CreateEpoch epoch m) (apply_pushed j (MarkMigrationComplete old) s2)"
  shows "(i, CreateEpoch epoch m) \<in> set (rk_log s3) \<and> raft_fetch_master_key epoch s3 = Err (EpochNotFound epoch)
    \<and> raft_fetch_master_key epoch (raft_key_replay s3) = Ok \<lparr>mk_material = pad_material m, mk_epoch = epoch\<rparr>"
proof -
  note d = push_command_def apply_pushed_def key_machine_apply_def Let_def
  have new: "ring (ks_epochs (rk_state s)) epoch = None" by (rule ring_max) (simp add: assms(3))
  have s3: "ks_epochs (rk_state s3) = mark_first old (ks_epochs (rk_state s))" "ks_status (rk_state s3) = ks_status (rk_state s)"
    "rk_log s3 = rk_log s @ [(i, CreateEpoch epoch m), (j, MarkMigrationComplete old)]"
    "i = length (rk_log s) + 1" "j = length (rk_log s) + 2"
    using assms(1,4-6) by (auto simp: d raft_key_wf_def)
  have replay: "replay_key_commands (rk_log s) key_machine_new
      = \<lparr>ks_epochs = ks_epochs (rk_state s), ks_status = Healthy, ks_last_applied = length (rk_log s)\<rparr>"
    by (rule raft_replay_wf [OF assms(1)])
  have "raft_fetch_master_key epoch (raft_key_replay s3) = Ok \<lparr>mk_material = pad_material m, mk_epoch = epoch\<rparr>"
    using ring_create [OF new, of m] replay
    by (simp add: raft_fetch_master_key_def fetch_in_ring raft_key_replay_def replay_key_commands_def s3 key_machine_apply_def
        del: apply_key_command.simps(1))
  then show ?thesis using new assms(2) s3 by (simp add: raft_fetch_master_key_def fetch_in_ring)
qed

section \<open>Replicas\<close>

definition key_sm_step :: "unit \<Rightarrow> 'l \<times> (KeyCommand, 'm) Payload \<Rightarrow> ('l, 'm) KeySmInner \<Rightarrow> ('l, 'm) KeySmInner option" where
  "key_sm_step clock entry s = Some (fst (key_sm_apply entry s))"

definition full_keys :: "EpochEntry list \<Rightarrow> bool" where
  "full_keys es \<longleftrightarrow> list_all (\<lambda>e. length (mk_material (ep_key e)) = 32) es"

lemma length_pad_material [simp]: "length (pad_material m) = 32"
  by (simp add: pad_material_def)

lemma pad_material_id: "length m = 32 \<Longrightarrow> pad_material m = m"
  by (simp add: pad_material_def)

lemma full_keys_apply: "full_keys es \<Longrightarrow> full_keys (apply_key_command cmd es)"
proof (cases cmd)
  case (MarkMigrationComplete e)
  assume "full_keys es"
  then show ?thesis unfolding MarkMigrationComplete by (induction es) (auto simp: full_keys_def)
qed (auto simp: full_keys_def demote_all_def list_all_iff)

lemma key_snapshot_roundtrip:
  assumes "full_keys (ki_epochs s)"
  shows "key_install_snapshot (key_build_snapshot s) t = s"
proof -
  have "map (\<lambda>e. \<lparr>ep_key = \<lparr>mk_material = pad_material (mk_material (ep_key e)), mk_epoch = mk_epoch (ep_key e)\<rparr>,
      ep_is_current = ep_is_current e, ep_migration_complete = ep_migration_complete e\<rparr>) (ki_epochs s) = ki_epochs s"
    using assms by (intro map_idI) (auto simp: full_keys_def list_all_iff pad_material_id)
  then show ?thesis by (cases s; cases t) (simp add: key_install_snapshot_def key_build_snapshot_def o_def)
qed

interpretation key_replica: replicated_machine "\<lambda>s. s" "\<lambda>s. full_keys (ki_epochs s)" "key_sm_new m0" key_sm_step
  "\<lambda>s. Some (key_build_snapshot s)" key_install_snapshot for m0
proof (unfold_locales, goal_cases)
  case (2 s k c s')
  then show ?case
    using full_keys_apply by (cases "snd c") (auto simp: key_sm_step_def key_sm_apply_def key_sm_apply_command_def Let_def)
next
  case (4 s t b)
  then show ?case using key_snapshot_roundtrip by auto
qed (auto simp: key_sm_new_def full_keys_def key_sm_step_def)

text \<open>C16: Replicas of the key group agree: two replicas that have the same entries, whether applied one by one or
  received in snapshots of other replicas, have the same keys, current epoch, migration marks and membership.\<close>

theorem key_replicas_agree:
  assumes "replica (key_sm_new m0) key_sm_step (\<lambda>s. Some (key_build_snapshot s)) key_install_snapshot entries s"
    and "replica (key_sm_new m0) key_sm_step (\<lambda>s. Some (key_build_snapshot s)) key_install_snapshot entries t"
  shows "s = t"
  by (rule key_replica.replicas_agree [OF assms])

section \<open>Re-wrapping\<close>

text \<open>Re-wrapping an envelope after a rotation keeps its plaintext and moves it to the new epoch, but the new envelope
  has no tenant wrapping: a tenant that could read the old one through its KEK cannot read the new one.\<close>

lemma rewrap_keeps_plaintext:
  assumes "crypto_laws cx" "length p \<le> gcm_max" "mk_epoch old \<noteq> mk_epoch new" "ev_system_epoch env = mk_epoch old"
    and "open_envelope cx old env = Ok p"
  shows "\<exists>env'. rewrap_envelope cx old new env = Ok env' \<and> open_envelope cx new env' = Ok p \<and> ev_system_epoch env' = mk_epoch new
    \<and> ev_chunk_id env' = ev_chunk_id env \<and> unwrap_tenant cx env' kek cache = Err (InvalidEnvelope ''no tenant wrapping'')"
proof -
  obtain e where "seal_envelope cx new (ev_chunk_id env) p = Ok e" "open_envelope cx new e = Ok p" "ev_system_epoch e = mk_epoch new"
    "ev_chunk_id e = ev_chunk_id env" "ev_tenant_wrapped_material e = None"
    by (rule open_of_seal [OF assms(1,2)])
  then show ?thesis using assms(3-5) by (simp add: rewrap_envelope_def unwrap_tenant_def)
qed

text \<open>Every envelope of an undisturbed batch is counted once, as completed or as failed.\<close>

lemma rewrap_batch_accounts:
  assumes "run_rewrap_batch cx old new (map (\<lambda>e. (e, False)) envs) p = Ok (results, p')" "\<not> rp_cancelled p"
    and "rp_completed p + rp_failed p + length envs < 2 ^ 64"
  shows "rp_completed p' + rp_failed p' = rp_completed p + rp_failed p + length envs
    \<and> length results = rp_completed p' - rp_completed p \<and> rp_completed p \<le> rp_completed p' \<and> rp_total p' = rp_total p"
  using assms
proof (induction envs arbitrary: p results)
  case (Cons e envs)
  show ?case
  proof (cases "rewrap_envelope cx old new e")
    case (Ok e')
    then obtain r where "run_rewrap_batch cx old new (map (\<lambda>e. (e, False)) envs) (p\<lparr>rp_completed := rp_completed p + 1\<rparr>) = Ok (r, p')"
      "results = e' # r" using Cons.prems by (auto simp: Let_def)
    then show ?thesis using Cons.IH [of "p\<lparr>rp_completed := rp_completed p + 1\<rparr>" r] Cons.prems by auto
  next
    case (Err x)
    then have "run_rewrap_batch cx old new (map (\<lambda>e. (e, False)) envs) (p\<lparr>rp_failed := rp_failed p + 1\<rparr>) = Ok (results, p')"
      using Cons.prems by (auto simp: Let_def)
    then show ?thesis using Cons.IH [of "p\<lparr>rp_failed := rp_failed p + 1\<rparr>" results] Cons.prems by auto
  qed (use Cons.prems in \<open>simp add: Let_def\<close>)
qed simp

section \<open>Examples\<close>

definition demo_keys :: RaftKeyStore where
  "demo_keys =
     \<lparr>rk_state = \<lparr>ks_epochs = [\<lparr>ep_key = \<lparr>mk_material = replicate 32 7, mk_epoch = 1\<rparr>, ep_is_current = True, ep_migration_complete = True\<rparr>],
        ks_status = Healthy, ks_last_applied = 2\<rparr>,
      rk_log = [(1, CreateEpoch 1 (replicate 32 7)), (2, MarkMigrationComplete 1)]\<rparr>"

lemma demo_keys_new: "raft_key_new (Some (replicate 32 7)) = Ok demo_keys"
  by (simp add: raft_key_new_def raft_apply_command_def push_command_def apply_pushed_def raft_key_empty_def key_machine_new_def
      key_machine_apply_def demo_keys_def find_epoch_def demote_all_def pad_material_def Let_def)

theorem old_envelopes_stay_readable_witness:
  "\<exists>s' env k. raft_rotate (Some (replicate 32 8)) demo_keys = (s', Ok 2) \<and> raft_fetch_master_key 1 demo_keys = Ok k
     \<and> seal_envelope demo_cx k (replicate 32 1) [10, 20] = Ok env
     \<and> raft_fetch_master_key (ev_system_epoch env) s' = Ok k \<and> open_envelope demo_cx k env = Ok [10, 20]"
proof -
  have len: "length ([10, 20] :: bytes) \<le> gcm_max" by (simp add: gcm_max_def)
  obtain k where k: "raft_fetch_master_key 1 demo_keys = Ok k" by (simp add: raft_fetch_master_key_def fetch_in_def find_epoch_def demo_keys_def)
  obtain s' where r: "raft_rotate (Some (replicate 32 8)) demo_keys = (s', Ok 2)"
    by (simp add: raft_rotate_def max_epoch_def demo_keys_def add_u64_def u64_max_val)
  obtain env where e: "seal_envelope demo_cx k (replicate 32 1) [10, 20] = Ok env" by (rule open_of_seal [OF demo_cx_laws len])
  have "raft_key_step\<^sup>*\<^sup>* demo_keys s'" using key_rotate [OF r] by blast
  from old_envelopes_stay_readable [OF demo_cx_laws len demo_keys_new _ k e this] show ?thesis using k r e by blast
qed

lemma rotation_lost_in_race_example:
  "\<exists>s1 i s2 j. push_command (CreateEpoch 2 (replicate 32 8)) demo_keys = (s1, i) \<and> push_command (MarkMigrationComplete 1) s1 = (s2, j)
     \<and> raft_fetch_master_key 2 (apply_pushed i (CreateEpoch 2 (replicate 32 8)) (apply_pushed j (MarkMigrationComplete 1) s2))
         = Err (EpochNotFound 2)"
proof -
  obtain s1 i where p1: "push_command (CreateEpoch 2 (replicate 32 8)) demo_keys = (s1, i)" by fastforce
  obtain s2 j where p2: "push_command (MarkMigrationComplete 1) s1 = (s2, j)" by fastforce
  have "ks_status (rk_state demo_keys) \<noteq> StatusUnavailable" "2 = max_epoch (ks_epochs (rk_state demo_keys)) + 1"
    by (simp_all add: demo_keys_def max_epoch_def)
  from rotation_lost_in_race [OF raft_key_new_wf(1) [OF demo_keys_new] this p1 p2 refl] show ?thesis using p1 p2 by blast
qed

theorem key_replicas_agree_witness:
  "\<exists>s t. replica (key_sm_new ()) key_sm_step (\<lambda>s. Some (key_build_snapshot s)) key_install_snapshot
       [(1 :: nat, Normal (CreateEpoch 1 (replicate 32 7)))] s
    \<and> key_install_snapshot (key_build_snapshot s) (key_sm_new ()) = t \<and> s = t"
proof -
  let ?R = "replica (key_sm_new ()) key_sm_step (\<lambda>s. Some (key_build_snapshot s)) key_install_snapshot"
  let ?e = "(1 :: nat, Normal (CreateEpoch 1 (replicate 32 7)))"
  obtain s where "key_sm_step () ?e (key_sm_new ()) = Some s" by (simp add: key_sm_step_def)
  then have s: "?R ([] @ [?e]) s" by (rule replica_app [OF replica_init])
  have t: "?R ([] @ [?e]) (key_install_snapshot (key_build_snapshot s) (key_sm_new ()))"
    by (rule replica_install [OF s replica_init refl])
  from key_replicas_agree [OF s t] s show ?thesis by (metis append_Nil)
qed

lemma rewrap_keeps_plaintext_example:
  "\<exists>env env'. seal_envelope demo_cx demo_master (replicate 32 1) [10, 20] = Ok env
     \<and> rewrap_envelope demo_cx demo_master (demo_master\<lparr>mk_epoch := 4\<rparr>) env = Ok env'
     \<and> open_envelope demo_cx (demo_master\<lparr>mk_epoch := 4\<rparr>) env' = Ok [10, 20]"
proof -
  have len: "length ([10, 20] :: bytes) \<le> gcm_max" by (simp add: gcm_max_def)
  obtain env where e: "seal_envelope demo_cx demo_master (replicate 32 1) [10, 20] = Ok env"
    "open_envelope demo_cx demo_master env = Ok [10, 20]" "ev_system_epoch env = mk_epoch demo_master"
    by (rule open_of_seal [OF demo_cx_laws len])
  have "mk_epoch demo_master \<noteq> mk_epoch (demo_master\<lparr>mk_epoch := 4\<rparr>)" by (simp add: demo_master_def)
  from rewrap_keeps_plaintext [OF demo_cx_laws len this e(3,2)] show ?thesis using e(1) by blast
qed

end
