(* ===== verification/Key_Persistence.thy ===== *)
theory Key_Persistence
  imports Key_Manager Command_Journal
begin

text \<open>
  The key store on disk (\<^verbatim>\<open>crates/kiseki-keymanager/src/persistent_store.rs\<close>): every command of the command-log store is
  encrypted under a key derived from the node's identity (\<^verbatim>\<open>node_identity.rs\<close>) and appended to a durable log.
  The theory composes the durable log (\<open>Raft_Log\<close>), the AEAD (\<open>Crypto_Envelope\<close>) and the command-log
  store (\<open>Key_Manager\<close>). Where the node's secret comes from, and the serialisers of log records (postcard) and
  commands (JSON), are parameters.
\<close>

section \<open>The store\<close>

record EncryptedEntry =
  ee_nonce :: bytes
  ee_ciphertext :: bytes

record 'd KeyEnv =
  ke_db :: "'d Database"
  ke_cx :: Primitives
  ke_entry :: "EncryptedEntry Codec"
  ke_json :: "KeyCommand Codec"

definition derive_at_rest_key :: "Primitives \<Rightarrow> (unit, bytes) res \<Rightarrow> bytes \<Rightarrow> (unit, bytes) res" where
  "derive_at_rest_key cx source_secret salt =
     bind_res source_secret (\<lambda>secret. ok_or () (cx_expand cx (cx_extract cx salt secret) ''kiseki/at-rest/v1'' 32))"

definition aad_for :: "nat \<Rightarrow> bytes" where
  "aad_for index = string_bytes ''kiseki/raft-key-store/v1'' @ string_bytes '':'' @ be64_bytes index"

record 'd PersistentKeyStore =
  pk_inner :: RaftKeyStore
  pk_store :: "'d FjallLogStore"
  pk_at_rest_key :: bytes

definition persist_encrypted ::
    "'d KeyEnv \<Rightarrow> nat \<Rightarrow> bytes option \<Rightarrow> KeyCommand \<Rightarrow> 'd PersistentKeyStore \<Rightarrow> 'd PersistentKeyStore \<times> (KeyManagerError, unit) res" where
  "persist_encrypted E index random cmd s =
     bind_st (s, ok_or Unavailable (cd_to_stdvec (ke_json E) cmd)) (\<lambda>s bytes.
       bind_st (s, map_err (\<lambda>_. Unavailable) (aead_seal (ke_cx E) random (pk_at_rest_key s) bytes (aad_for index)))
         (\<lambda>s (ciphertext, nonce).
           let (store, r) = log_append (ke_entry E) (ke_db E) index \<lparr>ee_nonce = nonce, ee_ciphertext = ciphertext\<rparr> (pk_store s) in
           (s\<lparr>pk_store := store\<rparr>, map_err (\<lambda>_. Unavailable) r)))"

fun decrypt_entries ::
    "'d KeyEnv \<Rightarrow> bytes \<Rightarrow> (nat \<times> EncryptedEntry) list \<Rightarrow> (KeyManagerError, (nat \<times> KeyCommand) list) res" where
  "decrypt_entries E at_rest_key [] = Ok []"
| "decrypt_entries E at_rest_key ((idx, env) # raw) =
     bind_res (map_err (\<lambda>_. Unavailable) (aead_open (ke_cx E) at_rest_key (ee_nonce env) (ee_ciphertext env) (aad_for idx))) (\<lambda>bytes.
       bind_res (ok_or Unavailable (cd_from_bytes (ke_json E) bytes)) (\<lambda>cmd.
         bind_res (decrypt_entries E at_rest_key raw) (\<lambda>commands. Ok ((idx, cmd) # commands))))"

fun persist_all ::
    "'d KeyEnv \<Rightarrow> (nat \<Rightarrow> bytes option) \<Rightarrow> (nat \<times> KeyCommand) list \<Rightarrow> 'd PersistentKeyStore \<Rightarrow>
       'd PersistentKeyStore \<times> (KeyManagerError, unit) res" where
  "persist_all E nonces [] s = (s, Ok ())"
| "persist_all E nonces ((idx, cmd) # log) s =
     bind_st (persist_encrypted E idx (nonces idx) cmd s) (\<lambda>s _. persist_all E nonces log s)"

text \<open>Opening returns the database as it leaves it. \<^verbatim>\<open>unwrap_or_default\<close>: a log that cannot be read counts as empty.\<close>

definition persistent_key_open ::
    "'d KeyEnv \<Rightarrow> (unit, bytes) res \<Rightarrow> bytes \<Rightarrow> (unit, unit) res \<Rightarrow> bytes option \<Rightarrow> (nat \<Rightarrow> bytes option) \<Rightarrow> 'd \<Rightarrow>
       'd \<times> (KeyManagerError, 'd PersistentKeyStore) res" where
  "persistent_key_open E source_secret salt opens random nonces d =
     bind_st (d, map_err (\<lambda>_. Unavailable) (derive_at_rest_key (ke_cx E) source_secret salt)) (\<lambda>d at_rest_key.
       bind_st (d, map_err (\<lambda>_. Unavailable) (fjall_log_open (bind_res opens (\<lambda>_. Ok d)))) (\<lambda>d store.
         let raw = (case log_range (ke_entry E) (ke_db E) 1 u64_max store of Ok es \<Rightarrow> es | _ \<Rightarrow> []) in
         bind_st (d, decrypt_entries E at_rest_key raw) (\<lambda>d commands.
           if commands = [] then
             bind_st (d, raft_key_new random) (\<lambda>d inner.
               let (s, r) = persist_all E nonces (rk_log inner)
                     \<lparr>pk_inner = inner, pk_store = store, pk_at_rest_key = at_rest_key\<rparr> in
               (fl_db (pk_store s), bind_res r (\<lambda>_. Ok s)))
           else (d, Ok \<lparr>pk_inner = raft_key_from_commands commands, pk_store = store, pk_at_rest_key = at_rest_key\<rparr>))))"

definition persist_and_apply ::
    "'d KeyEnv \<Rightarrow> bytes option \<Rightarrow> KeyCommand \<Rightarrow> 'd PersistentKeyStore \<Rightarrow> 'd PersistentKeyStore \<times> (KeyManagerError, unit) res" where
  "persist_and_apply E random cmd s =
     (let (inner, idx) = raft_apply_command cmd (pk_inner s);
          (s, r) = persist_encrypted E idx random cmd (s\<lparr>pk_inner := inner\<rparr>) in
      (s, case r of Panic \<Rightarrow> Panic | _ \<Rightarrow> Ok ()))"

definition persistent_fetch_master_key :: "nat \<Rightarrow> 'd PersistentKeyStore \<Rightarrow> (KeyManagerError, SystemMasterKey) res" where
  "persistent_fetch_master_key epoch s = raft_fetch_master_key epoch (pk_inner s)"

definition persistent_current_epoch :: "'d PersistentKeyStore \<Rightarrow> (KeyManagerError, nat) res" where
  "persistent_current_epoch s = raft_current_epoch (pk_inner s)"

definition persistent_rotate ::
    "'d KeyEnv \<Rightarrow> bytes option \<times> bytes option \<Rightarrow> 'd PersistentKeyStore \<Rightarrow> 'd PersistentKeyStore \<times> (KeyManagerError, nat) res" where
  "persistent_rotate E random s =
     bind_st (s, ok_or KeyGenerationFailed (fst random)) (\<lambda>s key_material.
       bind_st (s, add_u64 (fold max (map ei_epoch (raft_list_epochs (pk_inner s))) 0) 1) (\<lambda>s next_epoch.
         bind_st (persist_and_apply E (snd random) (CreateEpoch next_epoch key_material) s) (\<lambda>s _. (s, Ok next_epoch))))"

definition persistent_mark_migration_complete ::
    "'d KeyEnv \<Rightarrow> bytes option \<Rightarrow> nat \<Rightarrow> 'd PersistentKeyStore \<Rightarrow> 'd PersistentKeyStore \<times> (KeyManagerError, unit) res" where
  "persistent_mark_migration_complete E random epoch s =
     bind_st (s, raft_fetch_master_key epoch (pk_inner s)) (\<lambda>s _. persist_and_apply E random (MarkMigrationComplete epoch) s)"

section \<open>It is a key manager\<close>

definition persistent_wf :: "'d PersistentKeyStore \<Rightarrow> bool" where
  "persistent_wf s \<longleftrightarrow> raft_key_wf (pk_inner s) \<and> ks_status (rk_state (pk_inner s)) = Healthy"

lemma persist_encrypted_inner:
  "persist_encrypted E index random cmd s = (s', r) \<Longrightarrow> pk_inner s' = pk_inner s \<and> pk_at_rest_key s' = pk_at_rest_key s"
  by (auto simp: persist_encrypted_def Let_def elim!: bind_st_cases split: prod.splits)

lemma persist_and_apply_inner:
  assumes "persist_and_apply E random cmd s = (s', r)"
  shows "pk_inner s' = fst (raft_apply_command cmd (pk_inner s))" "pk_at_rest_key s' = pk_at_rest_key s" "r = Ok () \<or> r = Panic"
proof -
  obtain inner idx where i: "raft_apply_command cmd (pk_inner s) = (inner, idx)" by fastforce
  obtain t q where t: "persist_encrypted E idx random cmd (s\<lparr>pk_inner := inner\<rparr>) = (t, q)" by fastforce
  show "pk_inner s' = fst (raft_apply_command cmd (pk_inner s))" "pk_at_rest_key s' = pk_at_rest_key s" "r = Ok () \<or> r = Panic"
    using assms persist_encrypted_inner [OF t] by (auto simp: persist_and_apply_def i t split: res.splits)
qed

lemma list_epochs_max: "fold max (map ei_epoch (raft_list_epochs s)) 0 = max_epoch (ks_epochs (rk_state s))"
  by (simp add: raft_list_epochs_def epoch_infos_def max_epoch_def o_def)

lemma persistent_rotateD:
  assumes "persistent_rotate E random s = (s', Ok epoch)"
  obtains m where "fst random = Some m" "epoch = max_epoch (ks_epochs (rk_state (pk_inner s))) + 1"
    "persist_and_apply E (snd random) (CreateEpoch epoch m) s = (s', Ok ())"
  using assms by (cases "fst random") (auto simp: persistent_rotate_def list_epochs_max add_u64_def split: if_splits)

lemma persistent_markD:
  assumes "persistent_mark_migration_complete E random epoch s = (s', Ok ())"
  shows "persist_and_apply E random (MarkMigrationComplete epoch) s = (s', Ok ())"
  using assms by (auto simp: persistent_mark_migration_complete_def)

interpretation persistent_keys: key_manager persistent_wf "\<lambda>s. ring (ks_epochs (rk_state (pk_inner s)))"
  "\<lambda>s. ks_status (rk_state (pk_inner s)) \<noteq> StatusUnavailable" persistent_fetch_master_key persistent_current_epoch
  "persistent_rotate E" "\<lambda>random. persistent_mark_migration_complete E (snd random)" for E
proof (unfold_locales, goal_cases)
  case (3 s r s' epoch)
  then obtain m where e: "epoch = max_epoch (ks_epochs (rk_state (pk_inner s))) + 1"
    and p: "persist_and_apply E (snd r) (CreateEpoch epoch m) s = (s', Ok ())" by (elim persistent_rotateD)
  have wf: "raft_key_wf (pk_inner s)" "ks_status (rk_state (pk_inner s)) = Healthy" using 3(1) by (simp_all add: persistent_wf_def)
  have "ring (ks_epochs (rk_state (pk_inner s))) epoch = None" by (rule ring_max) (simp add: e)
  from ring_create [OF this, of m] this show ?case
    using wf(2) raft_apply_command_wf [OF wf(1)] persist_and_apply_inner(1) [OF p]
    by (auto simp: persistent_wf_def persistent_current_epoch_def raft_current_epoch_def current_in_def simp del: apply_key_command.simps)
next
  case (4 s r s' e)
  then show ?case
    by (cases "fst r") (auto simp: persistent_rotate_def add_u64_def elim!: bind_st_cases split: if_splits dest: persist_and_apply_inner(3))
next
  case (5 s r epoch s')
  have wf: "raft_key_wf (pk_inner s)" "ks_status (rk_state (pk_inner s)) = Healthy" using 5(1) by (simp_all add: persistent_wf_def)
  show ?case using wf raft_apply_command_wf [OF wf(1)] persist_and_apply_inner(1) [OF persistent_markD [OF 5(2)]]
    by (simp add: persistent_wf_def)
next
  case (6 s r epoch s' e)
  then show ?case
    by (auto simp: persistent_mark_migration_complete_def elim!: bind_st_cases dest: persist_and_apply_inner(3))
qed (auto simp: persistent_fetch_master_key_def raft_fetch_master_key_def fetch_in_ring ring_epoch)

section \<open>What the log holds\<close>

definition ke_laws :: "'d KeyEnv \<Rightarrow> ('d \<Rightarrow> contents) \<Rightarrow> ('d \<Rightarrow> 'd \<Rightarrow> bool) \<Rightarrow> bool" where
  "ke_laws E view crash \<longleftrightarrow>
     db_laws (ke_db E) view crash \<and> crypto_laws (ke_cx E) \<and> codec_laws (ke_entry E) \<and> codec_laws (ke_json E)"

definition decrypts_to :: "'d KeyEnv \<Rightarrow> bytes \<Rightarrow> nat \<Rightarrow> EncryptedEntry \<Rightarrow> KeyCommand \<Rightarrow> bool" where
  "decrypts_to E key index ent cmd \<longleftrightarrow>
     (\<exists>b. aead_open (ke_cx E) key (ee_nonce ent) (ee_ciphertext ent) (aad_for index) = Ok b \<and> cd_from_bytes (ke_json E) b = Some cmd)"

lemma persist_encryptedD:
  assumes "crypto_laws (ke_cx E)" "codec_laws (ke_json E)" "persist_encrypted E index random cmd s = (s', Ok ())"
    and "length (pk_at_rest_key s) = 32" "\<And>n. random = Some n \<Longrightarrow> length n = 12"
  obtains ent where "decrypts_to E (pk_at_rest_key s) index ent cmd"
    "log_append (ke_entry E) (ke_db E) index ent (pk_store s) = (pk_store s', Ok ())"
proof -
  obtain b where b: "cd_to_stdvec (ke_json E) cmd = Some b" using assms(3) by (cases "cd_to_stdvec (ke_json E) cmd") (auto simp: persist_encrypted_def)
  obtain c n where cn: "aead_seal (ke_cx E) random (pk_at_rest_key s) b (aad_for index) = Ok (c, n)"
    "log_append (ke_entry E) (ke_db E) index \<lparr>ee_nonce = n, ee_ciphertext = c\<rparr> (pk_store s) = (pk_store s', Ok ())"
    using assms(3) by (cases "aead_seal (ke_cx E) random (pk_at_rest_key s) b (aad_for index)")
      (auto simp: persist_encrypted_def b Let_def split: prod.splits elim: map_err.elims)
  have "random = Some n" "cx_seal (ke_cx E) (pk_at_rest_key s) n (aad_for index) b = Some c"
    using cn(1) by (auto simp: aead_seal_def split: if_splits option.splits)
  then have "cx_open (ke_cx E) (pk_at_rest_key s) n (aad_for index) c = Some b"
    using open_seal [OF assms(1,4)] assms(5) by blast
  then have "decrypts_to E (pk_at_rest_key s) index \<lparr>ee_nonce = n, ee_ciphertext = c\<rparr> cmd"
    using b assms(2,4) by (simp add: decrypts_to_def aead_open_def key_ok [OF assms(1)] codec_laws_def)
  then show thesis using cn(2) that by blast
qed

text \<open>The log on disk, decrypted, is the command log in memory, and it would survive a crash.\<close>

definition key_logged ::
    "'d KeyEnv \<Rightarrow> ('d \<Rightarrow> contents) \<Rightarrow> bytes \<Rightarrow> KeyCommand list \<Rightarrow> 'd FjallLogStore \<Rightarrow> bool" where
  "key_logged E view key cmds store \<longleftrightarrow> commit_mode store = SyncAll \<and> length key = 32 \<and> length cmds \<le> u64_max \<and>
     (\<exists>ents. journal_holds (ke_entry E) (view (fl_db store)) ents \<and> length ents = length cmds \<and>
        (\<forall>i < length cmds. decrypts_to E key (i + 1) (ents ! i) (cmds ! i)))"

lemma key_logged_append:
  assumes "ke_laws E view crash" "key_logged E view (pk_at_rest_key s) cmds (pk_store s)" "length cmds < u64_max"
    and "persist_encrypted E (length cmds + 1) random cmd s = (s', Ok ())" "\<And>n. random = Some n \<Longrightarrow> length n = 12"
  shows "key_logged E view (pk_at_rest_key s') (cmds @ [cmd]) (pk_store s')"
    "crash (fl_db (pk_store s')) d \<Longrightarrow> view d = view (fl_db (pk_store s'))"
proof -
  have laws: "db_laws (ke_db E) view crash" "crypto_laws (ke_cx E)" "codec_laws (ke_entry E)" "codec_laws (ke_json E)"
    using assms(1) by (simp_all add: ke_laws_def)
  obtain ents where ents: "journal_holds (ke_entry E) (view (fl_db (pk_store s))) ents" "length ents = length cmds"
    "\<forall>i < length cmds. decrypts_to E (pk_at_rest_key s) (i + 1) (ents ! i) (cmds ! i)"
    and st: "commit_mode (pk_store s) = SyncAll" "length (pk_at_rest_key s) = 32"
    using assms(2) unfolding key_logged_def by blast
  obtain ent where ent: "decrypts_to E (pk_at_rest_key s) (length cmds + 1) ent cmd"
    "log_append (ke_entry E) (ke_db E) (length ents + 1) ent (pk_store s) = (pk_store s', Ok ())"
    using persist_encryptedD [OF laws(2,4) assms(4) st(2) assms(5)] ents(2) by metis
  have j: "journal_holds (ke_entry E) (view (fl_db (pk_store s'))) (ents @ [ent])"
    by (rule journal_append [OF laws(1,3) ents(1) _ ent(2)]) (simp add: ents(2) assms(3))
  have "decrypts_to E (pk_at_rest_key s) (i + 1) ((ents @ [ent]) ! i) ((cmds @ [cmd]) ! i)" if "i < length (cmds @ [cmd])" for i
    using that ent(1) ents(2,3) by (cases "i < length cmds") (auto simp: nth_append less_Suc_eq)
  moreover have "commit_mode (pk_store s') = SyncAll" using log_append_cases(5) [OF laws(1) ent(2)] st(1) by simp
  moreover have "length (cmds @ [cmd]) \<le> u64_max" "length (ents @ [ent]) = length (cmds @ [cmd])" using assms(3) ents(2) by simp_all
  ultimately show "key_logged E view (pk_at_rest_key s') (cmds @ [cmd]) (pk_store s')"
    using j st(2) persist_encrypted_inner [OF assms(4)] unfolding key_logged_def by metis
  show "view d = view (fl_db (pk_store s'))" if "crash (fl_db (pk_store s')) d"
    by (rule log_append_cases(4) [OF laws(1) ent(2) refl st(1) that])
qed

lemma decrypt_entries_zip:
  assumes "length ents = length cmds" "\<forall>i < length cmds. decrypts_to E key (n + i + 1) (ents ! i) (cmds ! i)"
  shows "decrypt_entries E key (zip [n + 1..<n + length cmds + 1] ents) = Ok (zip [n + 1..<n + length cmds + 1] cmds)"
  using assms
proof (induction cmds arbitrary: ents n)
  case (Cons c cs)
  obtain x xs where ents: "ents = x # xs" "length xs = length cs" using Cons.prems(1) by (cases ents) auto
  have u: "[n + 1..<n + length (c # cs) + 1] = (n + 1) # [n + 1 + 1..<n + 1 + length cs + 1]"
    by (simp add: upt_conv_Cons del: upt_Suc)
  have x: "decrypts_to E key (n + 1) x c" using Cons.prems(2) ents(1) by force
  have "\<forall>i < length cs. decrypts_to E key (n + 1 + i + 1) (xs ! i) (cs ! i)"
    using Cons.prems(2) ents(1) by (metis Suc_eq_plus1 Suc_less_eq add.assoc add.commute length_Cons nth_Cons_Suc)
  from Cons.IH [OF ents(2) this] x show ?case unfolding u ents(1) by (auto simp: decrypts_to_def simp del: upt_Suc)
qed simp

lemma from_commands_snoc:
  "raft_key_from_commands (cs @ [(i, c)]) =
     (let s = raft_key_from_commands cs in apply_pushed i c (s\<lparr>rk_log := rk_log s @ [(i, c)]\<rparr>))"
  by (simp add: raft_key_from_commands_def Let_def)

lemma from_commands_wf:
  assumes "raft_key_wf s" "ks_status (rk_state s) = Healthy"
  shows "raft_key_from_commands (rk_log s) = s"
proof -
  have "rk_log (raft_key_from_commands cs) = cs \<and> rk_state (raft_key_from_commands cs) = replay_key_commands cs key_machine_new" for cs
    by (induction cs rule: rev_induct)
      (auto simp: from_commands_snoc Let_def apply_pushed_def replay_key_commands_def, simp_all add: raft_key_from_commands_def raft_key_empty_def)
  then show ?thesis using raft_replay_wf [OF assms(1)] assms by (cases s; cases "rk_state s") (auto simp: raft_key_wf_def RaftKeyStore.equality)
qed

section \<open>Restarting\<close>

definition key_synced :: "'d KeyEnv \<Rightarrow> ('d \<Rightarrow> contents) \<Rightarrow> ('d \<Rightarrow> 'd \<Rightarrow> bool) \<Rightarrow> 'd PersistentKeyStore \<Rightarrow> bool" where
  "key_synced E view crash s \<longleftrightarrow> persistent_wf s \<and> rk_log (pk_inner s) \<noteq> [] \<and>
     key_logged E view (pk_at_rest_key s) (map snd (rk_log (pk_inner s))) (pk_store s) \<and>
     (\<forall>d. crash (fl_db (pk_store s)) d \<longrightarrow> view d = view (fl_db (pk_store s)))"

text \<open>The code ignores whether the command it has just applied reached the log; \<open>persisted\<close> says that it did.\<close>

definition persisted :: "'d KeyEnv \<Rightarrow> bytes option \<Rightarrow> 'd PersistentKeyStore \<Rightarrow> 'd PersistentKeyStore \<Rightarrow> bool" where
  "persisted E random s s' \<longleftrightarrow>
     (\<forall>n. random = Some n \<longrightarrow> length n = 12) \<and> length (rk_log (pk_inner s')) \<le> u64_max \<and>
     snd (persist_encrypted E (length (rk_log (pk_inner s'))) random (snd (last (rk_log (pk_inner s'))))
       (s\<lparr>pk_inner := pk_inner s'\<rparr>)) = Ok ()"

inductive acked :: "'d KeyEnv \<Rightarrow> 'd PersistentKeyStore \<Rightarrow> 'd PersistentKeyStore \<Rightarrow> bool" for E s0 where
  acked_refl: "acked E s0 s0"
| acked_rotate: "acked E s0 s \<Longrightarrow> persistent_rotate E random s = (s', Ok epoch) \<Longrightarrow> persisted E (snd random) s s' \<Longrightarrow> acked E s0 s'"
| acked_mark: "acked E s0 s \<Longrightarrow> persistent_mark_migration_complete E random epoch s = (s', Ok ()) \<Longrightarrow> persisted E random s s'
    \<Longrightarrow> acked E s0 s'"

lemma persist_and_apply_synced:
  assumes "ke_laws E view crash" "key_synced E view crash s" "persist_and_apply E random cmd s = (s', Ok ())" "persisted E random s s'"
  shows "key_synced E view crash s'"
proof -
  have wf: "raft_key_wf (pk_inner s)" "ks_status (rk_state (pk_inner s)) = Healthy"
    and log: "key_logged E view (pk_at_rest_key s) (map snd (rk_log (pk_inner s))) (pk_store s)"
    using assms(2) by (simp_all add: key_synced_def persistent_wf_def)
  note ap = raft_apply_command_wf [OF wf(1), of cmd]
  note inner = persist_and_apply_inner [OF assms(3)]
  let ?s = "s\<lparr>pk_inner := pk_inner s'\<rparr>" and ?cmds = "map snd (rk_log (pk_inner s))"
  have l: "rk_log (pk_inner s') = rk_log (pk_inner s) @ [(length (rk_log (pk_inner s)) + 1, cmd)]" using inner(1) ap(4) by simp
  have pe: "persist_encrypted E (length ?cmds + 1) random cmd ?s = (s', Ok ())"
    using assms(3,4) inner(1) ap(5) l by (auto simp: persist_and_apply_def persisted_def split_beta prod_eq_iff)
  have "length ?cmds < u64_max" and n: "\<And>n. random = Some n \<Longrightarrow> length n = 12" using assms(4) l by (auto simp: persisted_def)
  note kl = key_logged_append [OF assms(1) _ this(1) pe n]
  have "key_logged E view (pk_at_rest_key ?s) ?cmds (pk_store ?s)" using log by simp
  note kl = kl [OF this]
  show ?thesis using kl ap(1,3) wf inner(1) l by (auto simp: key_synced_def persistent_wf_def)
qed

lemma acked_synced: "acked E s0 s \<Longrightarrow> ke_laws E view crash \<Longrightarrow> key_synced E view crash s0 \<Longrightarrow> key_synced E view crash s"
proof (induction rule: acked.induct)
  case (acked_rotate s random s' epoch)
  then show ?case using persist_and_apply_synced by (metis persistent_rotateD)
next
  case (acked_mark s random epoch s')
  then show ?case using persist_and_apply_synced persistent_markD by metis
qed

abbreviation opened_store :: "'d \<Rightarrow> 'd FjallLogStore" where
  "opened_store d \<equiv> \<lparr>fl_db = d, fl_sync_per_write = True, fl_coalescer = False\<rparr>"

lemma raft_key_new_log:
  assumes "raft_key_new random = Ok s"
  obtains m where "random = Some m" "rk_log s = [(1, CreateEpoch 1 m), (2, MarkMigrationComplete 1)]"
    "raft_fetch_master_key 1 s = Ok \<lparr>mk_material = pad_material m, mk_epoch = 1\<rparr>"
  using assms by (cases random)
    (auto simp: raft_key_new_def raft_apply_command_def push_command_def apply_pushed_def raft_key_empty_def key_machine_new_def
      key_machine_apply_def find_epoch_def demote_all_def raft_fetch_master_key_def fetch_in_def Let_def)

lemma derive_at_rest_key_length: "crypto_laws cx \<Longrightarrow> derive_at_rest_key cx secret salt = Ok key \<Longrightarrow> length key = 32"
proof -
  assume cx: "crypto_laws cx" and k: "derive_at_rest_key cx secret salt = Ok key"
  obtain sec where sec: "secret = Ok sec" using k by (cases secret) (simp_all add: derive_at_rest_key_def)
  obtain okm where "cx_expand cx (cx_extract cx salt sec) ''kiseki/at-rest/v1'' 32 = Some okm" "length okm = 32"
    using expand_ok [OF cx, of 32] by auto
  then show ?thesis using k by (simp add: derive_at_rest_key_def sec)
qed

text \<open>Opening on a log that is empty, or that cannot be read, makes a first key and writes it at the first two indices.\<close>

lemma open_bootstrap:
  assumes "case log_range (ke_entry E) (ke_db E) 1 u64_max (opened_store d) of Ok es \<Rightarrow> es = [] | _ \<Rightarrow> True"
    and "persistent_key_open E secret salt opens random nonces d = (d', Ok s)"
  obtains key m s0 s1 where "derive_at_rest_key (ke_cx E) secret salt = Ok key" "random = Some m" "raft_key_new random = Ok (pk_inner s)"
    "s0 = \<lparr>pk_inner = pk_inner s, pk_store = opened_store d, pk_at_rest_key = key\<rparr>"
    "persist_encrypted E 1 (nonces 1) (CreateEpoch 1 m) s0 = (s1, Ok ())"
    "persist_encrypted E 2 (nonces 2) (MarkMigrationComplete 1) s1 = (s, Ok ())" "d' = fl_db (pk_store s)"
proof -
  have raw: "(case log_range (ke_entry E) (ke_db E) 1 u64_max (opened_store d) of Ok es \<Rightarrow> es | _ \<Rightarrow> []) = []"
    using assms(1) by (auto split: res.splits)
  obtain key inner where k: "derive_at_rest_key (ke_cx E) secret salt = Ok key" and i: "raft_key_new random = Ok inner"
    and p: "persist_all E nonces (rk_log inner) \<lparr>pk_inner = inner, pk_store = opened_store d, pk_at_rest_key = key\<rparr> = (s, Ok ())"
    and d': "d' = fl_db (pk_store s)"
    using assms(2) raw by (cases "derive_at_rest_key (ke_cx E) secret salt"; cases opens; cases "raft_key_new random")
      (auto simp: persistent_key_open_def fjall_log_open_def Let_def split: prod.splits)
  obtain m where m: "random = Some m" "rk_log inner = [(1, CreateEpoch 1 m), (2, MarkMigrationComplete 1)]"
    by (rule raft_key_new_log [OF i])
  let ?s0 = "\<lparr>pk_inner = inner, pk_store = opened_store d, pk_at_rest_key = key\<rparr>"
  obtain s1 where s1: "persist_encrypted E 1 (nonces 1) (CreateEpoch 1 m) ?s0 = (s1, Ok ())"
    "persist_encrypted E 2 (nonces 2) (MarkMigrationComplete 1) s1 = (s, Ok ())"
    using p by (auto simp: m(2))
  have "pk_inner s = inner" using persist_encrypted_inner [OF s1(1)] persist_encrypted_inner [OF s1(2)] by simp
  then show thesis using that [OF k m(1) _ _ _ s1(2) d'] i s1(1) by simp
qed

lemma open_fresh_synced:
  assumes "ke_laws E view crash" "\<And>k. view d0 KsLog k = None" "\<And>i n. nonces i = Some n \<Longrightarrow> length n = 12"
    and "persistent_key_open E secret salt opens random nonces d0 = (d1, Ok s)"
  shows "key_synced E view crash s" "derive_at_rest_key (ke_cx E) secret salt = Ok (pk_at_rest_key s)"
proof -
  have laws: "db_laws (ke_db E) view crash" "crypto_laws (ke_cx E)" using assms(1) by (simp_all add: ke_laws_def)
  have j: "journal_holds (ke_entry E) (view d0) []" by (rule journal_empty) (rule assms(2))
  have "case log_range (ke_entry E) (ke_db E) 1 u64_max (opened_store d0) of Ok es \<Rightarrow> es = [] | _ \<Rightarrow> True"
    using journal_range [OF laws(1), where s = "opened_store d0" and cmds = "[]" and c = "ke_entry E"] j by (simp split: res.split)
  from open_bootstrap [OF this assms(4)] obtain key m s0 s1 where o: "derive_at_rest_key (ke_cx E) secret salt = Ok key"
    "random = Some m" "raft_key_new random = Ok (pk_inner s)" "s0 = \<lparr>pk_inner = pk_inner s, pk_store = opened_store d0, pk_at_rest_key = key\<rparr>"
    "persist_encrypted E 1 (nonces 1) (CreateEpoch 1 m) s0 = (s1, Ok ())"
    "persist_encrypted E 2 (nonces 2) (MarkMigrationComplete 1) s1 = (s, Ok ())" by metis
  have "key_logged E view (pk_at_rest_key s0) [] (pk_store s0)"
    using j derive_at_rest_key_length [OF laws(2) o(1)] by (auto simp: o(4) key_logged_def commit_mode_def)
  from key_logged_append(1) [OF assms(1) this, of "nonces 1" "CreateEpoch 1 m" s1] o(5) assms(3)
  have "key_logged E view (pk_at_rest_key s1) [CreateEpoch 1 m] (pk_store s1)" by (simp add: u64_max_val)
  note l2 = key_logged_append [OF assms(1) this, of "nonces 2" "MarkMigrationComplete 1" s]
  have "rk_log (pk_inner s) = [(1, CreateEpoch 1 m), (2, MarkMigrationComplete 1)]"
    using raft_key_new_log [OF o(3)] o(2) by (metis option.inject)
  then show "key_synced E view crash s"
    using l2 o(6) assms(3) raft_key_new_wf [OF o(3)] by (simp add: key_synced_def persistent_wf_def u64_max_val numeral_2_eq_2)
  show "derive_at_rest_key (ke_cx E) secret salt = Ok (pk_at_rest_key s)"
    using o(1) persist_encrypted_inner [OF o(5)] persist_encrypted_inner [OF o(6)] by (simp add: o(4))
qed

lemma acked_key: "acked E s0 s \<Longrightarrow> pk_at_rest_key s = pk_at_rest_key s0"
proof (induction rule: acked.induct)
  case (acked_rotate s random s' epoch)
  then show ?case using persist_and_apply_inner(2) by (metis persistent_rotateD)
next
  case (acked_mark s random epoch s')
  then show ?case using persist_and_apply_inner(2) persistent_markD by metis
qed simp



section \<open>Examples\<close>

definition entry_codec :: "EncryptedEntry Codec" where
  "entry_codec = \<lparr>cd_to_stdvec = (\<lambda>e. if length (ee_nonce e) = 12 then Some (ee_nonce e @ ee_ciphertext e) else None),
     cd_from_bytes = (\<lambda>b. Some \<lparr>ee_nonce = take 12 b, ee_ciphertext = drop 12 b\<rparr>)\<rparr>"

definition demo_material :: bytes where
  "demo_material = replicate 32 7"

definition demo_key_env :: "DemoDb KeyEnv" where
  "demo_key_env = \<lparr>ke_db = demo_db, ke_cx = demo_cx, ke_entry = entry_codec,
     ke_json = table_codec [(CreateEpoch 1 demo_material, [1]), (MarkMigrationComplete 1, [2])]\<rparr>"

lemma demo_key_laws: "ke_laws demo_key_env dd_view dd_crash"
proof -
  have "codec_laws entry_codec" by (auto simp: codec_laws_def entry_codec_def)
  moreover have "codec_laws (ke_json demo_key_env)" unfolding demo_key_env_def by simp (rule table_codec_laws, simp)
  ultimately show ?thesis using demo_db_laws demo_cx_laws by (simp add: ke_laws_def demo_key_env_def)
qed

definition demo_nonce :: bytes where
  "demo_nonce = replicate 12 4"

lemma demo_nonce_length: "length demo_nonce = 12"
  by (simp add: demo_nonce_def)

lemma demo_persist:
  assumes "length (pk_at_rest_key s) = 32" "cd_to_stdvec (ke_json demo_key_env) cmd = Some b" "length b = 1"
  obtains e x where "cd_to_stdvec entry_codec e = Some x" "cd_from_bytes entry_codec x = Some e"
    "persist_encrypted demo_key_env index (Some demo_nonce) cmd s =
       (let (store, r) = log_append entry_codec demo_db index e (pk_store s) in (s\<lparr>pk_store := store\<rparr>, map_err (\<lambda>_. Unavailable) r))"
proof -
  have "length b \<le> gcm_max" using assms(3) by (simp add: gcm_max_def)
  from seal_ok [OF demo_cx_laws assms(1) demo_nonce_length this, of "aad_for index"]
  obtain c where c: "cx_seal demo_cx (pk_at_rest_key s) demo_nonce (aad_for index) b = Some c" by blast
  have "aead_seal demo_cx (Some demo_nonce) (pk_at_rest_key s) b (aad_for index) = Ok (c, demo_nonce)"
    using assms(1) by (simp add: aead_seal_def key_ok [OF demo_cx_laws] c)
  then show thesis
    using assms(2) by (intro that [of "\<lparr>ee_nonce = demo_nonce, ee_ciphertext = c\<rparr>" "demo_nonce @ c"])
      (simp_all add: persist_encrypted_def demo_key_env_def entry_codec_def demo_nonce_length Let_def)
qed

lemma demo_json: "cd_to_stdvec (ke_json demo_key_env) (CreateEpoch 1 demo_material) = Some [1]"
  "cd_to_stdvec (ke_json demo_key_env) (MarkMigrationComplete 1) = Some [2]"
  by (simp_all add: demo_key_env_def table_codec_def)

lemma demo_derive: obtains key where "derive_at_rest_key demo_cx (Ok [1]) [] = Ok key" "length key = 32"
proof -
  obtain okm where "cx_expand demo_cx (cx_extract demo_cx [] [1]) ''kiseki/at-rest/v1'' 32 = Some okm" "length okm = 32"
    using expand_ok [OF demo_cx_laws, of 32] by auto
  then show thesis using that [of okm] by (simp add: derive_at_rest_key_def)
qed

lemma demo_append_over:
  "cd_to_stdvec c e = Some b \<Longrightarrow> log_append c demo_db (Suc 0) e (opened_store (demo_journal [r])) = (opened_store (demo_journal [1 # b]), Ok ())"
  by (simp add: log_append_def rec_encode_def demo_journal_def commit_items_def demo_db_def commit_mode_def dd_save_def
      RECORD_SCHEMA_VERSION_def Let_def)

lemma demo_open:
  assumes "(case log_range entry_codec demo_db 1 u64_max (opened_store d) of Ok es \<Rightarrow> es | _ \<Rightarrow> []) = []"
    and "d = demo_fresh \<or> d = demo_journal [r]"
  obtains s x y ex ey where "persistent_key_open demo_key_env (Ok [1]) [] (Ok ()) (Some demo_material) (\<lambda>_. Some demo_nonce) d
      = (fl_db (pk_store s), Ok s)" "pk_store s = opened_store (demo_journal [1 # x, 1 # y])"
    "cd_from_bytes entry_codec x = Some ex" "cd_from_bytes entry_codec y = Some ey"
proof -
  obtain key where key: "derive_at_rest_key demo_cx (Ok [1]) [] = Ok key" "length key = 32" by (rule demo_derive)
  obtain inner where i: "raft_key_new (Some demo_material) = Ok inner" by (simp add: raft_key_new_def split_beta Let_def)
  then have log: "rk_log inner = [(1, CreateEpoch 1 demo_material), (2, MarkMigrationComplete 1)]"
    by (rule raft_key_new_log) simp
  let ?ini = "\<lparr>pk_inner = inner, pk_store = opened_store d, pk_at_rest_key = key\<rparr>"
  obtain ex x where x: "cd_to_stdvec entry_codec ex = Some x" "cd_from_bytes entry_codec x = Some ex"
    "persist_encrypted demo_key_env 1 (Some demo_nonce) (CreateEpoch 1 demo_material) ?ini =
       (let (store, r) = log_append entry_codec demo_db 1 ex (pk_store ?ini) in (?ini\<lparr>pk_store := store\<rparr>, map_err (\<lambda>_. Unavailable) r))"
    by (rule demo_persist [OF _ demo_json(1), of ?ini 1]) (use key(2) in simp_all)
  let ?mid = "?ini\<lparr>pk_store := opened_store (demo_journal [1 # x])\<rparr>"
  have p1: "persist_encrypted demo_key_env 1 (Some demo_nonce) (CreateEpoch 1 demo_material) ?ini = (?mid, Ok ())"
    using assms(2) demo_append_first [OF x(1)] demo_append_over [OF x(1)] x(3) by auto
  obtain ey y where y: "cd_to_stdvec entry_codec ey = Some y" "cd_from_bytes entry_codec y = Some ey"
    "persist_encrypted demo_key_env 2 (Some demo_nonce) (MarkMigrationComplete 1) ?mid =
       (let (store, r) = log_append entry_codec demo_db 2 ey (pk_store ?mid) in (?mid\<lparr>pk_store := store\<rparr>, map_err (\<lambda>_. Unavailable) r))"
    by (rule demo_persist [OF _ demo_json(2), of ?mid 2]) (use key(2) in simp_all)
  let ?fin = "?mid\<lparr>pk_store := opened_store (demo_journal [1 # x, 1 # y])\<rparr>"
  have p2: "persist_encrypted demo_key_env 2 (Some demo_nonce) (MarkMigrationComplete 1) ?mid = (?fin, Ok ())"
    using demo_append_second [OF y(1)] y(3) by simp
  have E: "ke_cx demo_key_env = demo_cx" "ke_db demo_key_env = demo_db" "ke_entry demo_key_env = entry_codec"
    by (simp_all add: demo_key_env_def)
  have "persist_all demo_key_env (\<lambda>_. Some demo_nonce) (rk_log inner) ?ini = (?fin, Ok ())"
    unfolding log using p1 p2 by simp
  then have "persistent_key_open demo_key_env (Ok [1]) [] (Ok ()) (Some demo_material) (\<lambda>_. Some demo_nonce) d = (fl_db (pk_store ?fin), Ok ?fin)"
    unfolding persistent_key_open_def fjall_log_open_def
    by (simp only: E key(1) map_err.simps bind_st.simps bind_res.simps assms(1) Let_def decrypt_entries.simps i) simp
  then show thesis using that [of ?fin x y ex ey] x(2) y(2) by simp
qed



end
