(* ===== verification/Shard_Machine.thy ===== *)
theory Shard_Machine
  imports Raft_Log Raft_Machine "HOL-Library.AList"
begin

text \<open>
  The state machine of a log shard that Raft replicates (\<^verbatim>\<open>crates/kiseki-log/src/raft/state_machine.rs\<close>, with the
  commands of \<^verbatim>\<open>raft_store.rs\<close>): deltas with offloaded payloads, chunk reference counts with parked
  decrements, the window that keeps an intent from being incorporated twice, watermarks with pruning, and snapshots. The
  inline store is the small-object store. The wall clock is read once per applied entry and is an argument.
  The debug assertion of \<^verbatim>\<open>build_snapshot\<close>, metrics and log messages are left out; the size cap of a snapshot
  only produces an alarm.
\<close>

section \<open>Commands\<close>

record NewChunkMeta =
  nc_chunk_id :: bytes
  nc_placement :: "nat list"
  nc_original_len :: nat

record IncorporateItem =
  ii_tenant_id :: nat
  ii_operation :: u8
  ii_hashed_key :: bytes
  ii_chunk_refs :: "bytes list"
  ii_payload :: bytes
  ii_has_inline_data :: bool
  ii_new_chunks :: "NewChunkMeta list"
  ii_perspective_seq :: HybridLogicalClock
  ii_inline_payloads :: "(bytes \<times> bytes) list"

datatype LogCommand =
    AppendDelta nat u8 bytes "bytes list" bytes bool
  | ChunkAndDelta nat u8 bytes "bytes list" bytes bool "NewChunkMeta list" "(bytes \<times> bytes) list"
  | IncrementChunkRefcount nat bytes
  | DecrementChunkRefcount nat bytes
  | SetMaintenance bool
  | AdvanceWatermark string nat
  | SetShardState u8
  | UpdateShardRange bytes bytes
  | SetShardConfig nat nat nat nat nat
  | IncorporateIntent IncorporateItem
  | IncorporateIntents "IncorporateItem list"

datatype LogResponse = LogOk | Appended nat | DecrementOutcome bool

section \<open>The state\<close>

record ClusterChunkStateEntry =
  cc_refcount :: nat
  cc_placement :: "nat list"
  cc_tombstoned :: bool
  cc_created_ms :: nat
  cc_original_len :: nat

record RecentIncorporatedEntry =
  ri_log_index :: nat
  ri_perspective_seq :: HybridLogicalClock
  ri_apply_ms :: nat

record ('k, 'l, 'm) ShardSmInner =
  sm_delta_count :: nat
  sm_tip :: nat
  sm_maintenance :: bool
  sm_deltas :: "Delta list"
  sm_watermarks :: ConsumerWatermarks
  sm_shard_id :: nat
  sm_tenant_id :: nat
  sm_last_applied_log :: "'l option"
  sm_last_membership :: "'l option \<times> 'm"
  sm_inline_store :: "'k SmallObjectStore option"
  sm_cluster_chunk_state :: "((nat \<times> bytes) \<times> ClusterChunkStateEntry) list"
  sm_range_start :: bytes
  sm_range_end :: bytes
  sm_state :: ShardState
  sm_config :: ShardConfig
  sm_ancient_cutoff :: nat
  sm_recent :: "RecentIncorporatedEntry list"
  sm_recent_seqs :: "HybridLogicalClock set"
  sm_dedup_window_entries :: nat
  sm_dedup_window_ms :: nat
  sm_pending :: "((nat \<times> bytes) \<times> nat) list"

definition PENDING_CHUNK_DECREMENTS_CAP :: nat where
  "PENDING_CHUNK_DECREMENTS_CAP = 65536"

text \<open>The window's bounds come from the environment; both are positive.\<close>

definition shard_sm_new :: "'m \<Rightarrow> nat \<Rightarrow> nat \<Rightarrow> nat \<Rightarrow> nat \<Rightarrow> ('k, 'l, 'm) ShardSmInner" where
  "shard_sm_new m0 window_entries window_ms shard_id tenant_id =
     \<lparr>sm_delta_count = 0, sm_tip = 0, sm_maintenance = False, sm_deltas = [], sm_watermarks = [], sm_shard_id = shard_id,
      sm_tenant_id = tenant_id, sm_last_applied_log = None, sm_last_membership = (None, m0), sm_inline_store = None,
      sm_cluster_chunk_state = [], sm_range_start = replicate 32 0, sm_range_end = replicate 32 0xff, sm_state = Healthy,
      sm_config = shard_config_default, sm_ancient_cutoff = 0, sm_recent = [], sm_recent_seqs = {},
      sm_dedup_window_entries = window_entries, sm_dedup_window_ms = window_ms, sm_pending = []\<rparr>"

definition with_inline_store :: "'k SmallObjectStore \<Rightarrow> ('k, 'l, 'm) ShardSmInner \<Rightarrow> ('k, 'l, 'm) ShardSmInner" where
  "with_inline_store store s = s\<lparr>sm_inline_store := Some store\<rparr>"

section \<open>The window of incorporated intents\<close>

text \<open>The loop that evicts from the front, as it is written.\<close>

definition must_evict :: "nat \<Rightarrow> nat \<Rightarrow> nat \<Rightarrow> RecentIncorporatedEntry list \<Rightarrow> bool" where
  "must_evict window_entries window_ms now_ms recent =
     (if length recent > window_entries then True
      else case recent of [] \<Rightarrow> False | front # _ \<Rightarrow> now_ms - ri_apply_ms front > window_ms)"

partial_function (option) evict_loop ::
    "nat \<Rightarrow> nat \<Rightarrow> nat \<Rightarrow> RecentIncorporatedEntry list \<Rightarrow> HybridLogicalClock set \<Rightarrow> nat \<Rightarrow>
       (RecentIncorporatedEntry list \<times> HybridLogicalClock set \<times> nat) option" where
  "evict_loop window_entries window_ms now_ms recent seqs cutoff =
     (if \<not> must_evict window_entries window_ms now_ms recent then Some (recent, seqs, cutoff)
      else if recent = [] then Some (recent, seqs, cutoff)
      else evict_loop window_entries window_ms now_ms (tl recent) (seqs - {ri_perspective_seq (hd recent)})
             (max cutoff (min (ri_log_index (hd recent) + 1) u64_max)))"

text \<open>The same by recursion on the window.\<close>

fun evict_recent :: "nat \<Rightarrow> nat \<Rightarrow> nat \<Rightarrow> RecentIncorporatedEntry list \<Rightarrow> HybridLogicalClock set \<Rightarrow> nat \<Rightarrow>
    RecentIncorporatedEntry list \<times> HybridLogicalClock set \<times> nat" where
  "evict_recent window_entries window_ms now_ms [] seqs cutoff = ([], seqs, cutoff)"
| "evict_recent window_entries window_ms now_ms (front # rest) seqs cutoff =
     (if length (front # rest) > window_entries \<or> now_ms - ri_apply_ms front > window_ms
      then evict_recent window_entries window_ms now_ms rest (seqs - {ri_perspective_seq front})
             (max cutoff (min (ri_log_index front + 1) u64_max))
      else (front # rest, seqs, cutoff))"

definition push_recent_and_evict ::
    "nat \<Rightarrow> HybridLogicalClock \<Rightarrow> nat \<Rightarrow> ('k, 'l, 'm) ShardSmInner \<Rightarrow> ('k, 'l, 'm) ShardSmInner" where
  "push_recent_and_evict log_index perspective_seq now_ms s =
     (let (recent, seqs, cutoff) = evict_recent (sm_dedup_window_entries s) (sm_dedup_window_ms s) now_ms
            (sm_recent s @ [\<lparr>ri_log_index = log_index, ri_perspective_seq = perspective_seq, ri_apply_ms = now_ms\<rparr>])
            (insert perspective_seq (sm_recent_seqs s)) (sm_ancient_cutoff s) in
      s\<lparr>sm_recent := recent, sm_recent_seqs := seqs, sm_ancient_cutoff := cutoff\<rparr>)"

section \<open>Deltas\<close>

fun op_to_u8 :: "OperationType \<Rightarrow> u8" where
  "op_to_u8 Create = 0"
| "op_to_u8 Update = 1"
| "op_to_u8 Delete = 2"
| "op_to_u8 Rename = 3"
| "op_to_u8 SetAttribute = 4"
| "op_to_u8 Finalize = 5"
| "op_to_u8 NamespaceCreate = 6"
| "op_to_u8 MigrateChunkLocations = 7"

definition u8_to_op :: "u8 \<Rightarrow> OperationType" where
  "u8_to_op v =
     (if v = 0 then Create else if v = 1 then Update else if v = 2 then Delete else if v = 3 then Rename
      else if v = 4 then SetAttribute else if v = 5 then Finalize else if v = 6 then NamespaceCreate
      else MigrateChunkLocations)"

type_synonym InlineBatch = "(bytes \<times> bytes) list"

definition append_delta_inner ::
    "nat \<Rightarrow> u8 \<Rightarrow> bytes \<Rightarrow> bytes list \<Rightarrow> bytes \<Rightarrow> bool \<Rightarrow> nat \<Rightarrow> InlineBatch \<Rightarrow> ('k, 'l, 'm) ShardSmInner \<Rightarrow>
       (unit, ('k, 'l, 'm) ShardSmInner \<times> InlineBatch) res" where
  "append_delta_inner tenant_id operation hashed_key chunk_refs payload has_inline_data log_index inline_batch s =
     bind_res (add_u64 (sm_tip s) 1) (\<lambda>tip.
       bind_res (add_u64 (sm_delta_count s) 1) (\<lambda>count.
         let offloads = has_inline_data \<and> sm_inline_store s \<noteq> None;
             header = \<lparr>dh_sequence = tip, dh_shard_id = sm_shard_id s, dh_tenant_id = tenant_id, dh_operation = u8_to_op operation,
               dh_timestamp = \<lparr>ts_hlc = HLC (of_nat log_index) 0 0,
                 ts_wall = \<lparr>millis_since_epoch = log_index, timezone = ''UTC''\<rparr>, ts_quality = Ntp\<rparr>,
               dh_hashed_key = hashed_key, dh_tombstone = (operation = 2), dh_chunk_refs = chunk_refs,
               dh_payload_size = length payload mod 2 ^ 32, dh_has_inline_data = has_inline_data\<rparr>;
             body = \<lparr>dp_ciphertext = (if offloads then [] else payload), dp_auth_tag = [], dp_nonce = [],
               dp_system_epoch = None, dp_tenant_epoch = None, dp_tenant_wrapped_material = []\<rparr> in
         Ok (s\<lparr>sm_tip := tip, sm_delta_count := count, sm_deltas := sm_deltas s @ [\<lparr>d_header = header, d_payload = body\<rparr>]\<rparr>,
             if offloads then inline_batch @ [(derive_inline_key hashed_key tip, payload)] else inline_batch)))"

section \<open>Chunk reference counts\<close>

definition apply_new_chunk :: "nat \<Rightarrow> nat \<Rightarrow> NewChunkMeta \<Rightarrow> ('k, 'l, 'm) ShardSmInner \<Rightarrow> ('k, 'l, 'm) ShardSmInner" where
  "apply_new_chunk tenant log_index nc s =
     (let key = (tenant, nc_chunk_id nc) in
      if map_of (sm_cluster_chunk_state s) key \<noteq> None then s
      else
        let parked = (case map_of (sm_pending s) key of None \<Rightarrow> 0 | Some n \<Rightarrow> n) in
        s\<lparr>sm_pending := AList.delete key (sm_pending s),
          sm_cluster_chunk_state := AList.update key
            \<lparr>cc_refcount = 1 - parked, cc_placement = nc_placement nc, cc_tombstoned = (parked > 0), cc_created_ms = log_index,
             cc_original_len = nc_original_len nc\<rparr> (sm_cluster_chunk_state s)\<rparr>)"

definition apply_new_chunks ::
    "nat \<Rightarrow> NewChunkMeta list \<Rightarrow> nat \<Rightarrow> ('k, 'l, 'm) ShardSmInner \<Rightarrow> ('k, 'l, 'm) ShardSmInner" where
  "apply_new_chunks tenant new_chunks log_index s = fold (apply_new_chunk tenant log_index) new_chunks s"

definition increment_chunk :: "nat \<Rightarrow> bytes \<Rightarrow> ('k, 'l, 'm) ShardSmInner \<Rightarrow> ('k, 'l, 'm) ShardSmInner" where
  "increment_chunk tenant chunk_id s =
     (case map_of (sm_cluster_chunk_state s) (tenant, chunk_id) of
        None \<Rightarrow> s
      | Some e \<Rightarrow> s\<lparr>sm_cluster_chunk_state := AList.update (tenant, chunk_id)
          (e\<lparr>cc_refcount := min (cc_refcount e + 1) u64_max, cc_tombstoned := False\<rparr>) (sm_cluster_chunk_state s)\<rparr>)"

definition decrement_chunk ::
    "nat \<Rightarrow> bytes \<Rightarrow> ('k, 'l, 'm) ShardSmInner \<Rightarrow> (unit, ('k, 'l, 'm) ShardSmInner \<times> bool) res" where
  "decrement_chunk tenant chunk_id s =
     (let key = (tenant, chunk_id) in
      case map_of (sm_cluster_chunk_state s) key of
        Some e \<Rightarrow>
          let n = cc_refcount e - 1; now_dead = (n = 0 \<and> \<not> cc_tombstoned e) in
          Ok (s\<lparr>sm_cluster_chunk_state := AList.update key
                (e\<lparr>cc_refcount := n, cc_tombstoned := cc_tombstoned e \<or> now_dead\<rparr>) (sm_cluster_chunk_state s)\<rparr>, now_dead)
      | None \<Rightarrow>
          if length (sm_pending s) \<ge> PENDING_CHUNK_DECREMENTS_CAP \<and> map_of (sm_pending s) key = None then Ok (s, False)
          else bind_res (add_u64 (case map_of (sm_pending s) key of None \<Rightarrow> 0 | Some n \<Rightarrow> n) 1) (\<lambda>n.
                 Ok (s\<lparr>sm_pending := AList.update key n (sm_pending s)\<rparr>, False)))"

section \<open>Applying an intent\<close>

definition apply_one_incorporate ::
    "IncorporateItem \<Rightarrow> nat \<Rightarrow> nat \<Rightarrow> InlineBatch \<Rightarrow> ('k, 'l, 'm) ShardSmInner \<Rightarrow>
       (unit, ('k, 'l, 'm) ShardSmInner \<times> InlineBatch) res" where
  "apply_one_incorporate item log_index now_ms inline_batch s =
     (if ii_perspective_seq item \<in> sm_recent_seqs s then Ok (s, inline_batch)
      else if log_index < sm_ancient_cutoff s then Ok (s, inline_batch)
      else
        let s = apply_new_chunks (ii_tenant_id item) (ii_new_chunks item) log_index s;
            inline_batch = (if ii_inline_payloads item \<noteq> [] \<and> sm_inline_store s \<noteq> None
              then inline_batch @ ii_inline_payloads item else inline_batch) in
        bind_res (append_delta_inner (ii_tenant_id item) (ii_operation item) (ii_hashed_key item) (ii_chunk_refs item)
            (ii_payload item) (ii_has_inline_data item) log_index inline_batch s) (\<lambda>(s, inline_batch).
          Ok (push_recent_and_evict log_index (ii_perspective_seq item) now_ms s, inline_batch)))"

fun apply_incorporates ::
    "IncorporateItem list \<Rightarrow> nat \<Rightarrow> nat \<Rightarrow> InlineBatch \<Rightarrow> ('k, 'l, 'm) ShardSmInner \<Rightarrow>
       (unit, ('k, 'l, 'm) ShardSmInner \<times> InlineBatch) res" where
  "apply_incorporates [] log_index now_ms inline_batch s = Ok (s, inline_batch)"
| "apply_incorporates (item # items) log_index now_ms inline_batch s =
     bind_res (apply_one_incorporate item log_index now_ms inline_batch s) (\<lambda>(s, inline_batch).
       apply_incorporates items log_index now_ms inline_batch s)"

section \<open>The inline store\<close>

fun put_each :: "'k Keyspace \<Rightarrow> InlineBatch \<Rightarrow> 'k SmallObjectStore \<Rightarrow> (unit, 'k SmallObjectStore) res" where
  "put_each kv [] store = Ok store"
| "put_each kv ((key, payload) # batch) store =
     (case so_put kv store key payload of (store, Panic) \<Rightarrow> Panic | (store, _) \<Rightarrow> put_each kv batch store)"

definition flush_inline_batch ::
    "'k Keyspace \<Rightarrow> InlineBatch \<Rightarrow> ('k, 'l, 'm) ShardSmInner \<Rightarrow> (unit, ('k, 'l, 'm) ShardSmInner) res" where
  "flush_inline_batch kv batch s =
     (if batch = [] then Ok s
      else case sm_inline_store s of
        None \<Rightarrow> Ok s
      | Some store \<Rightarrow>
          bind_res (case so_put_many kv store batch of
                      (store, Ok _) \<Rightarrow> Ok store
                    | (store, Err _) \<Rightarrow> put_each kv batch store
                    | (store, Panic) \<Rightarrow> Panic) (\<lambda>store.
            Ok (s\<lparr>sm_inline_store := Some store\<rparr>)))"

text \<open>\<^verbatim>\<open>partition_point\<close> on deltas that are sorted by sequence number.\<close>

definition prune_deltas_below_gc_boundary ::
    "'k Keyspace \<Rightarrow> ('k, 'l, 'm) ShardSmInner \<Rightarrow> (unit, ('k, 'l, 'm) ShardSmInner) res" where
  "prune_deltas_below_gc_boundary kv s =
     (case wm_gc_boundary (sm_watermarks s) of
        None \<Rightarrow> Ok s
      | Some boundary \<Rightarrow>
          let cut = length (takeWhile (\<lambda>d. d_seq d < boundary) (sm_deltas s)) in
          if cut = 0 then Ok s
          else
            let keys = map (\<lambda>d. derive_inline_key (d_key d) (d_seq d))
                  (filter (\<lambda>d. dh_has_inline_data (d_header d)) (take cut (sm_deltas s))) in
            bind_res (case sm_inline_store s of
                        None \<Rightarrow> Ok s
                      | Some store \<Rightarrow>
                          if keys = [] then Ok s
                          else case so_delete_many kv store keys of
                            (store, Panic) \<Rightarrow> Panic
                          | (store, _) \<Rightarrow> Ok (s\<lparr>sm_inline_store := Some store\<rparr>)) (\<lambda>s.
              Ok (s\<lparr>sm_deltas := drop cut (sm_deltas s)\<rparr>)))"

section \<open>Applying a command\<close>

definition append_response ::
    "'k Keyspace \<Rightarrow> (unit, ('k, 'l, 'm) ShardSmInner \<times> InlineBatch) res \<Rightarrow> (unit, ('k, 'l, 'm) ShardSmInner \<times> LogResponse) res" where
  "append_response kv r =
     bind_res r (\<lambda>(s, inline_batch). bind_res (flush_inline_batch kv inline_batch s) (\<lambda>s. Ok (s, Appended (sm_tip s))))"

fun apply_command_at ::
    "'k Keyspace \<Rightarrow> LogCommand \<Rightarrow> nat \<Rightarrow> nat \<Rightarrow> ('k, 'l, 'm) ShardSmInner \<Rightarrow>
       (unit, ('k, 'l, 'm) ShardSmInner \<times> LogResponse) res" where
  "apply_command_at kv (AppendDelta tenant_id operation hashed_key chunk_refs payload has_inline_data) log_index now_ms s =
     append_response kv (append_delta_inner tenant_id operation hashed_key chunk_refs payload has_inline_data log_index [] s)"
| "apply_command_at kv (ChunkAndDelta tenant_id operation hashed_key chunk_refs payload has_inline_data new_chunks inline_payloads)
     log_index now_ms s =
     (let s = apply_new_chunks tenant_id new_chunks log_index s;
          inline_batch = (if inline_payloads \<noteq> [] \<and> sm_inline_store s \<noteq> None then inline_payloads else []) in
      append_response kv (append_delta_inner tenant_id operation hashed_key chunk_refs payload has_inline_data log_index inline_batch s))"
| "apply_command_at kv (IncorporateIntent item) log_index now_ms s = append_response kv (apply_one_incorporate item log_index now_ms [] s)"
| "apply_command_at kv (IncorporateIntents items) log_index now_ms s = append_response kv (apply_incorporates items log_index now_ms [] s)"
| "apply_command_at kv (IncrementChunkRefcount tenant chunk_id) log_index now_ms s = Ok (increment_chunk tenant chunk_id s, LogOk)"
| "apply_command_at kv (DecrementChunkRefcount tenant chunk_id) log_index now_ms s =
     bind_res (decrement_chunk tenant chunk_id s) (\<lambda>(s, dead). Ok (s, DecrementOutcome dead))"
| "apply_command_at kv (SetMaintenance enabled) log_index now_ms s = Ok (s\<lparr>sm_maintenance := enabled\<rparr>, LogOk)"
| "apply_command_at kv (AdvanceWatermark consumer position) log_index now_ms s =
     bind_res (prune_deltas_below_gc_boundary kv (s\<lparr>sm_watermarks := wm_advance consumer position (sm_watermarks s)\<rparr>)) (\<lambda>s.
       Ok (s, LogOk))"
| "apply_command_at kv (SetShardState st) log_index now_ms s =
     Ok (case from_u8 st of Some st \<Rightarrow> s\<lparr>sm_state := st\<rparr> | None \<Rightarrow> s, LogOk)"
| "apply_command_at kv (UpdateShardRange range_start range_end) log_index now_ms s =
     Ok (s\<lparr>sm_range_start := range_start, sm_range_end := range_end\<rparr>, LogOk)"
| "apply_command_at kv (SetShardConfig max_delta_count max_byte_size threshold floor ceiling) log_index now_ms s =
     Ok (s\<lparr>sm_config := \<lparr>sc_max_delta_count = max_delta_count, sc_max_byte_size = max_byte_size,
       sc_inline_threshold_bytes = threshold, sc_inline_floor_bytes = floor, sc_inline_ceiling_bytes = ceiling\<rparr>\<rparr>, LogOk)"

definition shard_sm_apply ::
    "'k Keyspace \<Rightarrow> ('l \<Rightarrow> nat) \<Rightarrow> nat \<Rightarrow> 'l \<times> (LogCommand, 'm) Payload \<Rightarrow> ('k, 'l, 'm) ShardSmInner \<Rightarrow>
       (unit, ('k, 'l, 'm) ShardSmInner \<times> LogResponse) res" where
  "shard_sm_apply kv ix now_ms entry s =
     (let s = s\<lparr>sm_last_applied_log := Some (fst entry)\<rparr> in
      case snd entry of
        Blank \<Rightarrow> Ok (s, LogOk)
      | Normal cmd \<Rightarrow> apply_command_at kv cmd (ix (fst entry)) now_ms s
      | Membership m \<Rightarrow> Ok (s\<lparr>sm_last_membership := (Some (fst entry), m)\<rparr>, LogOk))"

section \<open>Snapshots\<close>

record SerializableDelta =
  sd_sequence :: nat
  sd_shard_id :: nat
  sd_tenant_id :: nat
  sd_operation :: u8
  sd_hashed_key :: bytes
  sd_tombstone :: bool
  sd_chunk_refs :: "bytes list"
  sd_payload_size :: nat
  sd_has_inline_data :: bool
  sd_ciphertext :: bytes

record ShardSnapshot =
  ss_delta_count :: nat
  ss_tip :: nat
  ss_maintenance :: bool
  ss_deltas :: "SerializableDelta list"
  ss_watermarks :: "(string \<times> nat) list"
  ss_shard_id :: "nat option"
  ss_tenant_id :: "nat option"
  ss_ancient_cutoff :: nat
  ss_recent :: "RecentIncorporatedEntry list"

definition from_delta :: "Delta \<Rightarrow> SerializableDelta" where
  "from_delta d =
     \<lparr>sd_sequence = d_seq d, sd_shard_id = dh_shard_id (d_header d), sd_tenant_id = dh_tenant_id (d_header d),
      sd_operation = op_to_u8 (dh_operation (d_header d)), sd_hashed_key = d_key d, sd_tombstone = dh_tombstone (d_header d),
      sd_chunk_refs = dh_chunk_refs (d_header d), sd_payload_size = dh_payload_size (d_header d),
      sd_has_inline_data = dh_has_inline_data (d_header d), sd_ciphertext = dp_ciphertext (d_payload d)\<rparr>"

definition to_delta :: "SerializableDelta \<Rightarrow> Delta" where
  "to_delta sd =
     \<lparr>d_header = \<lparr>dh_sequence = sd_sequence sd, dh_shard_id = sd_shard_id sd, dh_tenant_id = sd_tenant_id sd,
        dh_operation = u8_to_op (sd_operation sd),
        dh_timestamp = \<lparr>ts_hlc = HLC 0 0 0, ts_wall = \<lparr>millis_since_epoch = 0, timezone = ''UTC''\<rparr>, ts_quality = Ntp\<rparr>,
        dh_hashed_key = sd_hashed_key sd, dh_tombstone = sd_tombstone sd, dh_chunk_refs = sd_chunk_refs sd,
        dh_payload_size = sd_payload_size sd, dh_has_inline_data = sd_has_inline_data sd\<rparr>,
      d_payload = \<lparr>dp_ciphertext = sd_ciphertext sd, dp_auth_tag = [], dp_nonce = [], dp_system_epoch = None,
        dp_tenant_epoch = None, dp_tenant_wrapped_material = []\<rparr>\<rparr>"

text \<open>A payload that was offloaded is read back.\<close>

definition snapshot_delta :: "'k Keyspace \<Rightarrow> 'k SmallObjectStore option \<Rightarrow> Delta \<Rightarrow> SerializableDelta" where
  "snapshot_delta kv store d =
     (let sd = from_delta d in
      if dh_has_inline_data (d_header d) \<and> sd_ciphertext sd = [] then
        (case store of
           None \<Rightarrow> sd
         | Some store \<Rightarrow>
             (case so_get kv store (derive_inline_key (d_key d) (d_seq d)) of
                Ok (Some data) \<Rightarrow> sd\<lparr>sd_ciphertext := data\<rparr>
              | _ \<Rightarrow> sd))
      else sd)"

definition snapshot_bytes :: "'k Keyspace \<Rightarrow> ShardSnapshot Codec \<Rightarrow> ('k, 'l, 'm) ShardSmInner \<Rightarrow> (unit, bytes) res" where
  "snapshot_bytes kv c s =
     ok_or () (cd_to_stdvec c
       \<lparr>ss_delta_count = sm_delta_count s, ss_tip = sm_tip s, ss_maintenance = sm_maintenance s,
        ss_deltas = map (snapshot_delta kv (sm_inline_store s)) (sm_deltas s), ss_watermarks = wm_as_vec (sm_watermarks s),
        ss_shard_id = Some (sm_shard_id s), ss_tenant_id = Some (sm_tenant_id s), ss_ancient_cutoff = sm_ancient_cutoff s,
        ss_recent = sm_recent s\<rparr>)"

definition shard_build_snapshot ::
    "'k Keyspace \<Rightarrow> ShardSnapshot Codec \<Rightarrow> ('k, 'l, 'm) ShardSmInner \<Rightarrow>
       ('k, 'l, 'm) ShardSmInner \<times> (unit, bytes \<times> 'l option \<times> ('l option \<times> 'm)) res" where
  "shard_build_snapshot kv c s =
     bind_st (s, snapshot_bytes kv c s) (\<lambda>s data.
       bind_st (case sm_inline_store s of
                  None \<Rightarrow> (s, Ok ())
                | Some store \<Rightarrow> (let (store, r) = so_flush kv store in (s\<lparr>sm_inline_store := Some store\<rparr>, r))) (\<lambda>s _.
         (s, Ok (data, sm_last_applied_log s, sm_last_membership s))))"

fun install_deltas ::
    "'k Keyspace \<Rightarrow> SerializableDelta list \<Rightarrow> 'k SmallObjectStore option \<Rightarrow> (unit, 'k SmallObjectStore option \<times> Delta list) res" where
  "install_deltas kv [] store = Ok (store, [])"
| "install_deltas kv (sd # sds) store =
     (let delta = to_delta sd in
      bind_res (if sd_has_inline_data sd \<and> sd_ciphertext sd \<noteq> [] then
                  (case store of
                     None \<Rightarrow> Ok store
                   | Some st \<Rightarrow>
                       (case so_put kv st (derive_inline_key (sd_hashed_key sd) (sd_sequence sd)) (sd_ciphertext sd) of
                          (st, Panic) \<Rightarrow> Panic
                        | (st, _) \<Rightarrow> Ok (Some st)))
                else Ok store) (\<lambda>store.
        let delta = (if sd_has_inline_data sd \<and> store \<noteq> None
              then delta\<lparr>d_payload := (d_payload delta)\<lparr>dp_ciphertext := []\<rparr>\<rparr> else delta) in
        bind_res (install_deltas kv sds store) (\<lambda>(store, deltas). Ok (store, delta # deltas))))"

definition shard_install_snapshot ::
    "'k Keyspace \<Rightarrow> ShardSnapshot Codec \<Rightarrow> nat \<Rightarrow> nat \<Rightarrow> bytes \<times> 'l option \<times> ('l option \<times> 'm) \<Rightarrow> ('k, 'l, 'm) ShardSmInner \<Rightarrow>
       (unit, ('k, 'l, 'm) ShardSmInner) res" where
  "shard_install_snapshot kv c window_entries window_ms snapshot s =
     (let (data, last_log_id, last_membership) = snapshot in
      bind_res (ok_or () (cd_from_bytes c data)) (\<lambda>snap.
        bind_res (install_deltas kv (ss_deltas snap) (sm_inline_store s)) (\<lambda>(store, deltas).
          Ok (s\<lparr>sm_delta_count := ss_delta_count snap, sm_tip := ss_tip snap, sm_maintenance := ss_maintenance snap,
            sm_ancient_cutoff := ss_ancient_cutoff snap, sm_recent := ss_recent snap,
            sm_recent_seqs := set (map ri_perspective_seq (ss_recent snap)),
            sm_dedup_window_entries := window_entries, sm_dedup_window_ms := window_ms,
            sm_deltas := deltas, sm_inline_store := store,
            sm_watermarks := fold (\<lambda>(consumer, pos). wm_advance consumer pos) (ss_watermarks snap) [],
            sm_shard_id := (case ss_shard_id snap of Some i \<Rightarrow> i | None \<Rightarrow> sm_shard_id s),
            sm_tenant_id := (case ss_tenant_id snap of Some i \<Rightarrow> i | None \<Rightarrow> sm_tenant_id s),
            sm_last_applied_log := last_log_id, sm_last_membership := last_membership\<rparr>))))"

definition shard_get_current_snapshot ::
    "'k Keyspace \<Rightarrow> ShardSnapshot Codec \<Rightarrow> ('k, 'l, 'm) ShardSmInner \<Rightarrow>
       (unit, (bytes \<times> 'l option \<times> ('l option \<times> 'm)) option) res" where
  "shard_get_current_snapshot kv c s =
     (case sm_last_applied_log s of
        None \<Rightarrow> Ok None
      | Some last_log \<Rightarrow> bind_res (snapshot_bytes kv c s) (\<lambda>data. Ok (Some (data, Some last_log, sm_last_membership s))))"

end
