(* ===== verification/Shard_Machine_Runs.thy ===== *)
theory Shard_Machine_Runs
  imports Shard_Machine
begin

text \<open>
  What the replicated shard machine of \<open>Shard_Machine\<close> guarantees in every run, and where replicas can differ.
\<close>

section \<open>The eviction loop\<close>

lemma must_evict_Cons [simp]:
  "must_evict window_entries window_ms now_ms (x # xs) \<longleftrightarrow>
     length (x # xs) > window_entries \<or> now_ms - ri_apply_ms x > window_ms"
  by (simp add: must_evict_def)

lemma must_evict_Nil [simp]: "\<not> must_evict window_entries window_ms now_ms []"
  by (simp add: must_evict_def)

lemma evict_loop_evict:
  "evict_loop window_entries window_ms now_ms recent seqs cutoff = Some (evict_recent window_entries window_ms now_ms recent seqs cutoff)"
proof (induction recent arbitrary: seqs cutoff)
  case Nil
  then show ?case by (subst evict_loop.simps) simp
next
  case (Cons x xs)
  show ?case by (subst evict_loop.simps) (simp add: Cons.IH del: evict_loop.simps)
qed

lemma evict_suffix:
  assumes "evict_recent window_entries window_ms now_ms recent seqs cutoff = (recent', seqs', cutoff')"
  shows "\<exists>gone. recent = gone @ recent' \<and> seqs' = seqs - set (map ri_perspective_seq gone)
     \<and> cutoff' = fold (\<lambda>r a. max a (min (ri_log_index r + 1) u64_max)) gone cutoff \<and> length recent' \<le> window_entries
     \<and> (\<forall>x xs. recent' = x # xs \<longrightarrow> now_ms - ri_apply_ms x \<le> window_ms)"
  using assms
proof (induction recent arbitrary: seqs cutoff)
  case (Cons x xs)
  show ?case
  proof (cases "length (x # xs) > window_entries \<or> now_ms - ri_apply_ms x > window_ms")
    case True
    then have e: "evict_recent window_entries window_ms now_ms xs (seqs - {ri_perspective_seq x}) (max cutoff (min (ri_log_index x + 1) u64_max))
        = (recent', seqs', cutoff')" using Cons.prems by (simp split: if_splits)
    from Cons.IH [OF this] obtain gone where "xs = gone @ recent'"
      "seqs' = seqs - {ri_perspective_seq x} - set (map ri_perspective_seq gone)"
      "cutoff' = fold (\<lambda>r a. max a (min (ri_log_index r + 1) u64_max)) gone (max cutoff (min (ri_log_index x + 1) u64_max))"
      "length recent' \<le> window_entries" "\<forall>x xs. recent' = x # xs \<longrightarrow> now_ms - ri_apply_ms x \<le> window_ms" by blast
    then show ?thesis by (intro exI [of _ "x # gone"]) auto
  next
    case False
    then show ?thesis using Cons.prems by (intro exI [of _ "[]"]) auto
  qed
qed simp


lemma evict_keeps:
  "length post + 1 \<le> window_entries \<Longrightarrow> now_ms - ri_apply_ms r \<le> window_ms \<Longrightarrow>
   \<exists>pre'. fst (evict_recent window_entries window_ms now_ms (pre @ r # post) seqs cutoff) = pre' @ r # post"
proof (induction pre arbitrary: seqs cutoff)
  case Nil
  then show ?case by auto
next
  case (Cons x pre)
  show ?case
  proof (cases "length (x # pre @ r # post) > window_entries \<or> now_ms - ri_apply_ms x > window_ms")
    case True
    then show ?thesis using Cons by simp
  next
    case False
    then show ?thesis by (intro exI [of _ "x # pre"]) simp
  qed
qed

section \<open>What each operation changes\<close>

lemma apply_new_chunks_frame:
  "\<exists>cs p. apply_new_chunks tenant ncs log_index s = s\<lparr>sm_pending := p, sm_cluster_chunk_state := cs\<rparr>"
proof (induction ncs arbitrary: s)
  case Nil
  then show ?case
    by (intro exI [of _ "sm_cluster_chunk_state s"] exI [of _ "sm_pending s"]) (simp add: apply_new_chunks_def)
next
  case (Cons nc ncs)
  have "\<exists>cs p. apply_new_chunk tenant log_index nc s = s\<lparr>sm_pending := p, sm_cluster_chunk_state := cs\<rparr>"
  proof (cases "map_of (sm_cluster_chunk_state s) (tenant, nc_chunk_id nc)")
    case (Some e)
    then show ?thesis
      by (intro exI [of _ "sm_cluster_chunk_state s"] exI [of _ "sm_pending s"]) (simp add: apply_new_chunk_def)
  next
    case None
    then show ?thesis by (auto simp: apply_new_chunk_def Let_def)
  qed
  then obtain cs p where "apply_new_chunk tenant log_index nc s = s\<lparr>sm_pending := p, sm_cluster_chunk_state := cs\<rparr>" by blast
  with Cons.IH [of "apply_new_chunk tenant log_index nc s"] show ?case by (auto simp: apply_new_chunks_def)
qed

lemma append_delta_innerD:
  assumes "append_delta_inner tenant op key refs payload inline log_index batch s = Ok (s', batch')"
  obtains d where "s' = s\<lparr>sm_tip := sm_tip s + 1, sm_delta_count := sm_delta_count s + 1, sm_deltas := sm_deltas s @ [d]\<rparr>"
    "d_seq d = sm_tip s + 1" "sm_tip s < u64_max"
  using assms by (auto simp: append_delta_inner_def Let_def add_u64_def split: if_splits)

lemma push_recentD:
  obtains gone recent where "push_recent_and_evict log_index q now_ms s = s\<lparr>sm_recent := recent,
      sm_recent_seqs := insert q (sm_recent_seqs s) - set (map ri_perspective_seq gone),
      sm_ancient_cutoff := fold (\<lambda>r a. max a (min (ri_log_index r + 1) u64_max)) gone (sm_ancient_cutoff s)\<rparr>"
    "sm_recent s @ [\<lparr>ri_log_index = log_index, ri_perspective_seq = q, ri_apply_ms = now_ms\<rparr>] = gone @ recent"
    "length recent \<le> sm_dedup_window_entries s"
proof -
  let ?l = "sm_recent s @ [\<lparr>ri_log_index = log_index, ri_perspective_seq = q, ri_apply_ms = now_ms\<rparr>]"
  obtain recent seqs cutoff where e: "evict_recent (sm_dedup_window_entries s) (sm_dedup_window_ms s) now_ms ?l
      (insert q (sm_recent_seqs s)) (sm_ancient_cutoff s) = (recent, seqs, cutoff)" by (metis prod_cases3)
  from evict_suffix [OF e] obtain gone where "?l = gone @ recent" "seqs = insert q (sm_recent_seqs s) - set (map ri_perspective_seq gone)"
    "cutoff = fold (\<lambda>r a. max a (min (ri_log_index r + 1) u64_max)) gone (sm_ancient_cutoff s)"
    "length recent \<le> sm_dedup_window_entries s" by blast
  then show thesis using that [of gone recent] e by (simp add: push_recent_and_evict_def)
qed

lemma flush_inline_batchD:
  assumes "flush_inline_batch kv batch s = Ok s'"
  obtains store where "s' = s\<lparr>sm_inline_store := store\<rparr>"
  using assms that [of "sm_inline_store s"] by (auto simp: flush_inline_batch_def split: if_splits option.splits)

lemma pruneD:
  assumes "prune_deltas_below_gc_boundary kv s = Ok s'"
  obtains store cut where "s' = s\<lparr>sm_inline_store := store, sm_deltas := drop cut (sm_deltas s)\<rparr>"
proof -
  have "\<exists>store cut. s' = s\<lparr>sm_inline_store := store, sm_deltas := drop cut (sm_deltas s)\<rparr>"
  proof (cases "wm_gc_boundary (sm_watermarks s)")
    case None
    then show ?thesis using assms
      by (intro exI [of _ "sm_inline_store s"] exI [of _ 0]) (simp add: prune_deltas_below_gc_boundary_def)
  next
    case (Some b)
    let ?cut = "length (takeWhile (\<lambda>d. d_seq d < b) (sm_deltas s))"
    show ?thesis
    proof (cases "?cut = 0")
      case True
      then show ?thesis using assms Some
        by (intro exI [of _ "sm_inline_store s"] exI [of _ 0]) (simp add: prune_deltas_below_gc_boundary_def)
    next
      case False
      then have "s' = s\<lparr>sm_inline_store := sm_inline_store s', sm_deltas := drop ?cut (sm_deltas s)\<rparr>"
        using assms Some
        by (auto simp: prune_deltas_below_gc_boundary_def Let_def split: option.splits if_splits prod.splits res.splits)
      then show ?thesis by blast
    qed
  qed
  then show thesis using that by blast
qed

section \<open>The invariant\<close>

text \<open>Deltas are numbered without gaps up to the tip; the set that finds duplicates mirrors the window, which has no
  intent twice and respects its bound; a chunk row is tombstoned exactly when nothing refers to it; decrements are
  parked only for chunks without a row.\<close>

definition delta_inv :: "('k, 'l, 'm) ShardSmInner \<Rightarrow> bool" where
  "delta_inv s \<longleftrightarrow> length (sm_deltas s) \<le> sm_tip s
     \<and> map d_seq (sm_deltas s) = [sm_tip s + 1 - length (sm_deltas s)..<sm_tip s + 1]"

definition window_inv :: "('k, 'l, 'm) ShardSmInner \<Rightarrow> bool" where
  "window_inv s \<longleftrightarrow> sm_recent_seqs s = set (map ri_perspective_seq (sm_recent s))
     \<and> distinct (map ri_perspective_seq (sm_recent s)) \<and> length (sm_recent s) \<le> sm_dedup_window_entries s"

definition refs_inv :: "('k, 'l, 'm) ShardSmInner \<Rightarrow> bool" where
  "refs_inv s \<longleftrightarrow>
     (\<forall>k e. map_of (sm_cluster_chunk_state s) k = Some e \<longrightarrow> (cc_refcount e = 0 \<longleftrightarrow> cc_tombstoned e) \<and> map_of (sm_pending s) k = None)
     \<and> (\<forall>k n. map_of (sm_pending s) k = Some n \<longrightarrow> 0 < n)"

definition shard_sm_inv :: "('k, 'l, 'm) ShardSmInner \<Rightarrow> bool" where
  "shard_sm_inv s \<longleftrightarrow> delta_inv s \<and> window_inv s \<and> refs_inv s"

lemma refs_inv_new_chunks: "refs_inv s \<Longrightarrow> refs_inv (apply_new_chunks tenant ncs log_index s)"
proof (induction ncs arbitrary: s)
  case (Cons nc ncs)
  have "refs_inv (apply_new_chunk tenant log_index nc s)"
  proof (cases "map_of (sm_cluster_chunk_state s) (tenant, nc_chunk_id nc)")
    case (Some e)
    then show ?thesis using Cons.prems by (simp add: apply_new_chunk_def)
  next
    case None
    let ?k = "(tenant, nc_chunk_id nc)"
    define parked where "parked = (case map_of (sm_pending s) ?k of None \<Rightarrow> 0 | Some n \<Rightarrow> n)"
    have "1 - parked = 0 \<longleftrightarrow> 0 < parked" by auto
    then show ?thesis using Cons.prems None
      by (auto simp: apply_new_chunk_def Let_def refs_inv_def update_conv' delete_conv' restrict_map_def parked_def [symmetric]
          split: if_splits)
  qed
  from Cons.IH [OF this] show ?case by (simp add: apply_new_chunks_def)
qed (simp add: apply_new_chunks_def)

lemma delta_inv_snoc:
  assumes "delta_inv s" "d_seq d = sm_tip s + 1"
  shows "delta_inv (s\<lparr>sm_tip := sm_tip s + 1, sm_delta_count := n, sm_deltas := sm_deltas s @ [d]\<rparr>)"
proof -
  have l: "length (sm_deltas s) \<le> sm_tip s" using assms(1) by (simp add: delta_inv_def)
  then have "[sm_tip s + 1 - length (sm_deltas s)..<sm_tip s + 1 + 1] = [sm_tip s + 1 - length (sm_deltas s)..<sm_tip s + 1] @ [sm_tip s + 1]"
    by (simp add: upt_Suc_append)
  moreover have "sm_tip s + 1 + 1 - length (sm_deltas s @ [d]) = sm_tip s + 1 - length (sm_deltas s)" by simp
  ultimately show ?thesis using assms l by (simp add: delta_inv_def del: upt_Suc)
qed

lemma delta_inv_drop:
  assumes "delta_inv s"
  shows "delta_inv (s\<lparr>sm_inline_store := store, sm_deltas := drop k (sm_deltas s)\<rparr>)"
proof -
  have "sm_tip s + 1 - length (sm_deltas s) + k = sm_tip s + 1 - (length (sm_deltas s) - k)" if "k \<le> length (sm_deltas s)"
    using that assms by (simp add: delta_inv_def)
  then show ?thesis using assms
    by (cases "k \<le> length (sm_deltas s)") (auto simp: delta_inv_def drop_map [symmetric] drop_upt simp del: upt_Suc)
qed

lemma inv_append:
  assumes "append_delta_inner tenant op key refs payload inline log_index batch s = Ok (s', batch')" "shard_sm_inv s"
  shows "shard_sm_inv s'"
proof -
  obtain d where s': "s' = s\<lparr>sm_tip := sm_tip s + 1, sm_delta_count := sm_delta_count s + 1, sm_deltas := sm_deltas s @ [d]\<rparr>"
    and d: "d_seq d = sm_tip s + 1" by (rule append_delta_innerD [OF assms(1)])
  have "delta_inv s'" unfolding s' by (rule delta_inv_snoc [OF _ d]) (use assms(2) in \<open>simp add: shard_sm_inv_def\<close>)
  then show ?thesis using assms(2) by (simp add: shard_sm_inv_def window_inv_def refs_inv_def s')
qed

lemma inv_push:
  assumes "shard_sm_inv s" "q \<notin> sm_recent_seqs s"
  shows "shard_sm_inv (push_recent_and_evict log_index q now_ms s)"
proof -
  obtain gone recent where p: "push_recent_and_evict log_index q now_ms s = s\<lparr>sm_recent := recent,
      sm_recent_seqs := insert q (sm_recent_seqs s) - set (map ri_perspective_seq gone),
      sm_ancient_cutoff := fold (\<lambda>r a. max a (min (ri_log_index r + 1) u64_max)) gone (sm_ancient_cutoff s)\<rparr>"
    "sm_recent s @ [\<lparr>ri_log_index = log_index, ri_perspective_seq = q, ri_apply_ms = now_ms\<rparr>] = gone @ recent"
    "length recent \<le> sm_dedup_window_entries s" by (rule push_recentD)
  have m: "map ri_perspective_seq (sm_recent s) @ [q] = map ri_perspective_seq gone @ map ri_perspective_seq recent"
    using arg_cong [OF p(2), of "map ri_perspective_seq"] by simp
  moreover have "distinct (map ri_perspective_seq (sm_recent s) @ [q])" "insert q (sm_recent_seqs s) = set (map ri_perspective_seq (sm_recent s) @ [q])"
    using assms by (auto simp: shard_sm_inv_def window_inv_def)
  ultimately have "distinct (map ri_perspective_seq gone @ map ri_perspective_seq recent)"
    "insert q (sm_recent_seqs s) = set (map ri_perspective_seq gone @ map ri_perspective_seq recent)" by metis+
  then show ?thesis using assms p(3) by (auto simp: p(1) shard_sm_inv_def window_inv_def delta_inv_def refs_inv_def)
qed

lemma inv_new_chunks:
  assumes "shard_sm_inv s"
  shows "shard_sm_inv (apply_new_chunks tenant ncs log_index s)"
  using assms refs_inv_new_chunks [of s tenant ncs log_index] apply_new_chunks_frame [of tenant ncs log_index s]
  by (auto simp: shard_sm_inv_def window_inv_def delta_inv_def)

lemma new_chunks_seqs: "sm_recent_seqs (apply_new_chunks tenant ncs log_index s) = sm_recent_seqs s"
  using apply_new_chunks_frame [of tenant ncs log_index s] by auto

lemma inv_incorporate:
  assumes "apply_one_incorporate item log_index now_ms batch s = Ok (s', batch')" "shard_sm_inv s"
  shows "shard_sm_inv s'"
proof (cases "ii_perspective_seq item \<in> sm_recent_seqs s \<or> log_index < sm_ancient_cutoff s")
  case True
  then show ?thesis using assms by (auto simp: apply_one_incorporate_def split: if_splits)
next
  case False
  let ?s = "apply_new_chunks (ii_tenant_id item) (ii_new_chunks item) log_index s"
  obtain b t c where a: "append_delta_inner (ii_tenant_id item) (ii_operation item) (ii_hashed_key item) (ii_chunk_refs item)
      (ii_payload item) (ii_has_inline_data item) log_index b ?s = Ok (t, c)"
    and s': "s' = push_recent_and_evict log_index (ii_perspective_seq item) now_ms t"
    using assms(1) False by (auto simp: apply_one_incorporate_def Let_def)
  have "shard_sm_inv t" by (rule inv_append [OF a inv_new_chunks [OF assms(2)]])
  moreover have "sm_recent_seqs t = sm_recent_seqs s"
    by (rule append_delta_innerD [OF a]) (simp add: new_chunks_seqs)
  ultimately show ?thesis using False by (simp add: s' inv_push)
qed

lemma inv_incorporates:
  "apply_incorporates items log_index now_ms batch s = Ok (s', batch') \<Longrightarrow> shard_sm_inv s \<Longrightarrow> shard_sm_inv s'"
proof (induction items arbitrary: batch s)
  case (Cons item items)
  then obtain t b where "apply_one_incorporate item log_index now_ms batch s = Ok (t, b)"
    "apply_incorporates items log_index now_ms b t = Ok (s', batch')" by auto
  then show ?case using Cons.IH Cons.prems(2) inv_incorporate by blast
qed simp

lemma inv_frame:
  "shard_sm_inv (s\<lparr>sm_inline_store := store\<rparr>) = shard_sm_inv s" "shard_sm_inv (s\<lparr>sm_maintenance := b\<rparr>) = shard_sm_inv s"
  "shard_sm_inv (s\<lparr>sm_watermarks := w\<rparr>) = shard_sm_inv s" "shard_sm_inv (s\<lparr>sm_state := st\<rparr>) = shard_sm_inv s"
  "shard_sm_inv (s\<lparr>sm_range_start := x, sm_range_end := y\<rparr>) = shard_sm_inv s" "shard_sm_inv (s\<lparr>sm_config := c\<rparr>) = shard_sm_inv s"
  "shard_sm_inv (s\<lparr>sm_last_applied_log := l\<rparr>) = shard_sm_inv s" "shard_sm_inv (s\<lparr>sm_last_membership := m\<rparr>) = shard_sm_inv s"
  by (simp_all add: shard_sm_inv_def delta_inv_def window_inv_def refs_inv_def)

lemma inv_chunks:
  "delta_inv (s\<lparr>sm_cluster_chunk_state := cs\<rparr>) = delta_inv s" "window_inv (s\<lparr>sm_cluster_chunk_state := cs\<rparr>) = window_inv s"
  "delta_inv (s\<lparr>sm_pending := p\<rparr>) = delta_inv s" "window_inv (s\<lparr>sm_pending := p\<rparr>) = window_inv s"
  by (simp_all add: delta_inv_def window_inv_def)

lemma inv_append_response:
  assumes "append_response kv r = Ok (s', resp)" "\<And>s b. r = Ok (s, b) \<Longrightarrow> shard_sm_inv s"
  shows "shard_sm_inv s'"
proof -
  obtain s b where r: "r = Ok (s, b)" "flush_inline_batch kv b s = Ok s'" using assms(1) by (auto simp: append_response_def)
  obtain store where "s' = s\<lparr>sm_inline_store := store\<rparr>" by (rule flush_inline_batchD [OF r(2)])
  then show ?thesis using assms(2) [OF r(1)] by (simp add: inv_frame)
qed

lemma inv_increment:
  assumes "shard_sm_inv s"
  shows "shard_sm_inv (increment_chunk tenant cid s)"
proof (cases "map_of (sm_cluster_chunk_state s) (tenant, cid)")
  case (Some e)
  have "0 < min (cc_refcount e + 1) u64_max" by (simp add: u64_max_val)
  then have "refs_inv (increment_chunk tenant cid s)" using assms Some
    by (auto simp: increment_chunk_def shard_sm_inv_def refs_inv_def update_conv')
  then show ?thesis using assms Some by (simp add: increment_chunk_def inv_chunks shard_sm_inv_def)
qed (use assms in \<open>simp add: increment_chunk_def\<close>)

lemma inv_decrement:
  assumes "decrement_chunk tenant cid s = Ok (s', dead)" "shard_sm_inv s"
  shows "shard_sm_inv s'"
proof (cases "map_of (sm_cluster_chunk_state s) (tenant, cid)")
  case (Some e)
  let ?e = "e\<lparr>cc_refcount := cc_refcount e - 1, cc_tombstoned := cc_tombstoned e \<or> cc_refcount e - 1 = 0 \<and> \<not> cc_tombstoned e\<rparr>"
  have s': "s' = s\<lparr>sm_cluster_chunk_state := AList.update (tenant, cid) ?e (sm_cluster_chunk_state s)\<rparr>"
    using assms(1) Some by (auto simp: decrement_chunk_def Let_def)
  have c: "refs_inv s" and e: "cc_refcount e = 0 \<longleftrightarrow> cc_tombstoned e" using assms(2) Some by (simp_all add: shard_sm_inv_def refs_inv_def)
  have "cc_refcount ?e = 0 \<longleftrightarrow> cc_tombstoned ?e" using e by auto
  then have "refs_inv s'" using c Some unfolding refs_inv_def s' by (simp add: update_conv' del: One_nat_def)
  then show ?thesis using assms(2) by (simp add: s' inv_chunks shard_sm_inv_def)
next
  case None
  show ?thesis
  proof (cases "s' = s")
    case False
    then obtain n where s': "s' = s\<lparr>sm_pending := AList.update (tenant, cid) n (sm_pending s)\<rparr>" "0 < n"
      using assms(1) None by (auto simp: decrement_chunk_def Let_def add_u64_def split: if_splits)
    have "refs_inv s'" using assms(2) None s'(2) by (auto simp: shard_sm_inv_def refs_inv_def s'(1) update_conv')
    then show ?thesis using assms(2) by (simp add: s'(1) inv_chunks shard_sm_inv_def)
  qed (use assms(2) in simp)
qed

lemma inv_prune:
  assumes "prune_deltas_below_gc_boundary kv s = Ok s'" "shard_sm_inv s"
  shows "shard_sm_inv s'"
proof -
  obtain store k where s': "s' = s\<lparr>sm_inline_store := store, sm_deltas := drop k (sm_deltas s)\<rparr>" by (rule pruneD [OF assms(1)])
  then show ?thesis using assms(2) delta_inv_drop [of s k store]
    by (simp add: shard_sm_inv_def window_inv_def refs_inv_def)
qed

lemma inv_command:
  assumes "apply_command_at kv cmd log_index now_ms s = Ok (s', resp)" "shard_sm_inv s"
  shows "shard_sm_inv s'"
proof (cases cmd)
  case (AppendDelta t o1 k r p i)
  show ?thesis by (rule inv_append_response [OF assms(1) [unfolded AppendDelta apply_command_at.simps]]) (rule inv_append [OF _ assms(2)])
next
  case (ChunkAndDelta t o1 k r p i ncs ips)
  show ?thesis
    by (rule inv_append_response [OF assms(1) [unfolded ChunkAndDelta apply_command_at.simps Let_def]])
      (rule inv_append [OF _ inv_new_chunks [OF assms(2)]])
next
  case (IncorporateIntent item)
  show ?thesis
    by (rule inv_append_response [OF assms(1) [unfolded IncorporateIntent apply_command_at.simps]]) (rule inv_incorporate [OF _ assms(2)])
next
  case (IncorporateIntents items)
  show ?thesis
    by (rule inv_append_response [OF assms(1) [unfolded IncorporateIntents apply_command_at.simps]]) (rule inv_incorporates [OF _ assms(2)])
next
  case (IncrementChunkRefcount t c)
  then show ?thesis using assms inv_increment by auto
next
  case (DecrementChunkRefcount t c)
  then show ?thesis using assms inv_decrement by auto
next
  case (AdvanceWatermark c p)
  have "shard_sm_inv (s\<lparr>sm_watermarks := wm_advance c p (sm_watermarks s)\<rparr>)" using assms(2) by (simp add: inv_frame)
  then show ?thesis using assms(1) inv_prune by (auto simp: AdvanceWatermark)
qed (use assms in \<open>auto simp: inv_frame split: option.splits\<close>)

definition shard_sm_init :: "('k, 'l, 'm) ShardSmInner \<Rightarrow> bool" where
  "shard_sm_init s \<longleftrightarrow> (\<exists>m0 n ms i t. s = shard_sm_new m0 n ms i t \<or> (\<exists>store. s = with_inline_store store (shard_sm_new m0 n ms i t)))"

definition shard_sm_step :: "'k Keyspace \<Rightarrow> ('l \<Rightarrow> nat) \<Rightarrow> ('k, 'l, 'm) ShardSmInner \<Rightarrow> ('k, 'l, 'm) ShardSmInner \<Rightarrow> bool" where
  "shard_sm_step kv ix s s' \<longleftrightarrow> (\<exists>now_ms entry resp. shard_sm_apply kv ix now_ms entry s = Ok (s', resp))"

lemma inv_step: "shard_sm_inv s \<Longrightarrow> shard_sm_step kv ix s s' \<Longrightarrow> shard_sm_inv s'"
proof -
  assume inv: "shard_sm_inv s" and "shard_sm_step kv ix s s'"
  then obtain now_ms entry resp where a: "shard_sm_apply kv ix now_ms entry s = Ok (s', resp)" by (auto simp: shard_sm_step_def)
  have i: "shard_sm_inv (s\<lparr>sm_last_applied_log := l\<rparr>)" for l using inv by (simp add: inv_frame)
  show "shard_sm_inv s'"
  proof (cases "snd entry")
    case (Normal cmd)
    then show ?thesis using a inv_command [OF _ i] by (simp add: shard_sm_apply_def Let_def)
  qed (use a i in \<open>auto simp: shard_sm_apply_def Let_def inv_frame\<close>)
qed

interpretation shard_sm: invariant_system shard_sm_init "shard_sm_step kv ix" shard_sm_inv for kv ix
proof unfold_locales
  show "shard_sm_init s \<Longrightarrow> shard_sm_inv s" for s
    by (auto simp: shard_sm_init_def shard_sm_new_def with_inline_store_def shard_sm_inv_def delta_inv_def window_inv_def refs_inv_def)
qed (rule inv_step)



section \<open>An intent is incorporated once\<close>

fun run_commands ::
    "'k Keyspace \<Rightarrow> (LogCommand \<times> nat \<times> nat) list \<Rightarrow> ('k, 'l, 'm) ShardSmInner \<Rightarrow> (unit, ('k, 'l, 'm) ShardSmInner) res" where
  "run_commands kv [] s = Ok s"
| "run_commands kv ((cmd, log_index, now_ms) # es) s =
     bind_res (apply_command_at kv cmd log_index now_ms s) (\<lambda>(s, _). run_commands kv es s)"

fun intents_in :: "LogCommand \<Rightarrow> nat" where
  "intents_in (IncorporateIntent item) = 1"
| "intents_in (IncorporateIntents items) = length items"
| "intents_in _ = 0"

text \<open>The window holds the intent \<open>q\<close>, applied at time \<open>t\<close>, with at most \<open>n\<close> later ones.\<close>

definition remembers :: "HybridLogicalClock \<Rightarrow> nat \<Rightarrow> nat \<Rightarrow> ('k, 'l, 'm) ShardSmInner \<Rightarrow> bool" where
  "remembers q t n s \<longleftrightarrow> (\<exists>pre r post. sm_recent s = pre @ r # post \<and> ri_perspective_seq r = q \<and> ri_apply_ms r = t \<and> length post \<le> n)"

definition same_window :: "('k, 'l, 'm) ShardSmInner \<Rightarrow> ('k, 'l, 'm) ShardSmInner \<Rightarrow> bool" where
  "same_window s s' \<longleftrightarrow> sm_dedup_window_entries s' = sm_dedup_window_entries s \<and> sm_dedup_window_ms s' = sm_dedup_window_ms s"

lemma remembers_mono: "remembers q t n s \<Longrightarrow> n \<le> m \<Longrightarrow> remembers q t m s"
  unfolding remembers_def by (metis order_trans)

lemma remembers_cong: "sm_recent s' = sm_recent s \<Longrightarrow> remembers q t n s' = remembers q t n s"
  by (simp add: remembers_def)

lemma push_recent_recent:
  "sm_recent (push_recent_and_evict log_index q now_ms s) = fst (evict_recent (sm_dedup_window_entries s) (sm_dedup_window_ms s) now_ms
     (sm_recent s @ [\<lparr>ri_log_index = log_index, ri_perspective_seq = q, ri_apply_ms = now_ms\<rparr>])
     (insert q (sm_recent_seqs s)) (sm_ancient_cutoff s))"
  by (simp add: push_recent_and_evict_def split_beta)

lemma remembers_push:
  assumes "remembers q t n s" "n + 2 \<le> sm_dedup_window_entries s" "now_ms \<le> t + sm_dedup_window_ms s"
  shows "remembers q t (n + 1) (push_recent_and_evict log_index q' now_ms s)"
proof -
  obtain pre r post where r: "sm_recent s = pre @ r # post" "ri_perspective_seq r = q" "ri_apply_ms r = t" "length post \<le> n"
    using assms(1) unfolding remembers_def by blast
  let ?x = "\<lparr>ri_log_index = log_index, ri_perspective_seq = q', ri_apply_ms = now_ms\<rparr>"
  have "length (post @ [?x]) + 1 \<le> sm_dedup_window_entries s" "now_ms - ri_apply_ms r \<le> sm_dedup_window_ms s"
    using assms(2,3) r(3,4) by auto
  from evict_keeps [OF this, of pre "insert q' (sm_recent_seqs s)" "sm_ancient_cutoff s"] obtain pre' where
    "sm_recent (push_recent_and_evict log_index q' now_ms s) = pre' @ r # (post @ [?x])"
    by (auto simp: push_recent_recent r(1))
  moreover have "length (post @ [?x]) \<le> n + 1" using r(4) by simp
  ultimately show ?thesis unfolding remembers_def using r(2,3) by blast
qed

lemma push_window [simp]:
  "sm_dedup_window_entries (push_recent_and_evict log_index q now_ms s) = sm_dedup_window_entries s"
  "sm_dedup_window_ms (push_recent_and_evict log_index q now_ms s) = sm_dedup_window_ms s"
  by (simp_all add: push_recent_and_evict_def split_beta)

lemma incorporate_remembers:
  assumes "apply_one_incorporate item log_index now_ms batch s = Ok (s', batch')"
  shows "same_window s s'" "remembers q t n s \<Longrightarrow> n + 2 \<le> sm_dedup_window_entries s \<Longrightarrow> now_ms \<le> t + sm_dedup_window_ms s \<Longrightarrow> remembers q t (n + 1) s'"
    "ii_perspective_seq item \<notin> sm_recent_seqs s \<Longrightarrow> \<not> log_index < sm_ancient_cutoff s \<Longrightarrow> 0 < sm_dedup_window_entries s
      \<Longrightarrow> remembers (ii_perspective_seq item) now_ms 0 s'"
proof -
  let ?skip = "ii_perspective_seq item \<in> sm_recent_seqs s \<or> log_index < sm_ancient_cutoff s"
  have skip: "s' = s" if "?skip" using assms that by (auto simp: apply_one_incorporate_def split: if_splits)
  have go: "\<exists>u. sm_recent u = sm_recent s \<and> same_window s u \<and> s' = push_recent_and_evict log_index (ii_perspective_seq item) now_ms u" if ns: "\<not> ?skip"
  proof -
    let ?s = "apply_new_chunks (ii_tenant_id item) (ii_new_chunks item) log_index s"
    obtain b u c where a: "append_delta_inner (ii_tenant_id item) (ii_operation item) (ii_hashed_key item) (ii_chunk_refs item)
        (ii_payload item) (ii_has_inline_data item) log_index b ?s = Ok (u, c)"
      and s': "s' = push_recent_and_evict log_index (ii_perspective_seq item) now_ms u"
      using assms ns by (auto simp: apply_one_incorporate_def Let_def)
    obtain cs p where f: "?s = s\<lparr>sm_pending := p, sm_cluster_chunk_state := cs\<rparr>" using apply_new_chunks_frame by blast
    obtain d where "u = ?s\<lparr>sm_tip := sm_tip ?s + 1, sm_delta_count := sm_delta_count ?s + 1, sm_deltas := sm_deltas ?s @ [d]\<rparr>"
      by (rule append_delta_innerD [OF a])
    then show ?thesis using s' f by (intro exI [of _ u]) (simp add: same_window_def)
  qed
  show "same_window s s'" using skip go by (cases ?skip) (auto simp: same_window_def)
  show "remembers q t (n + 1) s'" if "remembers q t n s" "n + 2 \<le> sm_dedup_window_entries s" "now_ms \<le> t + sm_dedup_window_ms s"
  proof (cases ?skip)
    case True
    then show ?thesis using skip remembers_mono [OF that(1)] by simp
  next
    case False
    then obtain u where u: "sm_recent u = sm_recent s" "same_window s u"
      "s' = push_recent_and_evict log_index (ii_perspective_seq item) now_ms u" using go by blast
    have "remembers q t n u" using that(1) remembers_cong [OF u(1)] by blast
    then show ?thesis unfolding u(3) by (rule remembers_push) (use that(2,3) u(2) in \<open>simp_all add: same_window_def\<close>)
  qed
  show "remembers (ii_perspective_seq item) now_ms 0 s'"
    if f: "ii_perspective_seq item \<notin> sm_recent_seqs s" "\<not> log_index < sm_ancient_cutoff s" "0 < sm_dedup_window_entries s"
  proof -
    obtain u where u: "sm_recent u = sm_recent s" "same_window s u"
      "s' = push_recent_and_evict log_index (ii_perspective_seq item) now_ms u" using go f(1,2) by blast
    let ?x = "\<lparr>ri_log_index = log_index, ri_perspective_seq = ii_perspective_seq item, ri_apply_ms = now_ms\<rparr>"
    have "length [] + 1 \<le> sm_dedup_window_entries u" "now_ms - ri_apply_ms ?x \<le> sm_dedup_window_ms u"
      using f(3) u(2) by (simp_all add: same_window_def)
    from evict_keeps [OF this, of "sm_recent u" "insert (ii_perspective_seq item) (sm_recent_seqs u)" "sm_ancient_cutoff u"]
    obtain pre' where "sm_recent s' = pre' @ ?x # []" by (auto simp: u(3) push_recent_recent)
    then show ?thesis unfolding remembers_def by fastforce
  qed
qed

lemma incorporates_remember:
  "apply_incorporates items log_index now_ms batch s = Ok (s', batch') \<Longrightarrow> same_window s s' \<and>
     (remembers q t n s \<longrightarrow> n + length items + 1 \<le> sm_dedup_window_entries s \<longrightarrow> now_ms \<le> t + sm_dedup_window_ms s
        \<longrightarrow> remembers q t (n + length items) s')"
proof (induction items arbitrary: batch s n)
  case Nil
  then show ?case by (auto simp: same_window_def)
next
  case (Cons item items)
  then obtain u b where u: "apply_one_incorporate item log_index now_ms batch s = Ok (u, b)"
    "apply_incorporates items log_index now_ms b u = Ok (s', batch')" by auto
  note i = incorporate_remembers(1,2) [OF u(1)]
  from Cons.IH [OF u(2), of "n + 1"] i(1) i(2) [of q t n] show ?case by (auto simp: same_window_def)
qed

lemma append_response_recent:
  assumes "append_response kv r = Ok (s', resp)"
  obtains s b where "r = Ok (s, b)" "sm_recent s' = sm_recent s" "same_window s s'" "resp = Appended (sm_tip s')"
proof -
  obtain s b where r: "r = Ok (s, b)" "flush_inline_batch kv b s = Ok s'" "resp = Appended (sm_tip s')"
    using assms by (auto simp: append_response_def)
  obtain store where "s' = s\<lparr>sm_inline_store := store\<rparr>" by (rule flush_inline_batchD [OF r(2)])
  then show thesis using that [OF r(1) _ _ r(3)] by (simp add: same_window_def)
qed

lemma append_recent:
  assumes "append_delta_inner tenant op key refs payload inline log_index batch s = Ok (s', batch')"
  shows "sm_recent s' = sm_recent s \<and> same_window s s'"
  by (rule append_delta_innerD [OF assms]) (simp add: same_window_def)

lemma new_chunks_recent:
  "sm_recent (apply_new_chunks tenant ncs log_index s) = sm_recent s \<and> same_window s (apply_new_chunks tenant ncs log_index s)"
  using apply_new_chunks_frame [of tenant ncs log_index s] by (auto simp: same_window_def)

lemma command_recent:
  assumes "apply_command_at kv cmd log_index now_ms s = Ok (s', resp)" "intents_in cmd = 0" "\<And>is. cmd \<noteq> IncorporateIntents is"
  shows "sm_recent s' = sm_recent s \<and> same_window s s'"
proof (cases cmd)
  case (AppendDelta t o1 k r p i)
  show ?thesis
    by (rule append_response_recent [OF assms(1) [unfolded AppendDelta apply_command_at.simps]])
      (auto dest!: append_recent simp: same_window_def)
next
  case (ChunkAndDelta t o1 k r p i ncs ips)
  note n = new_chunks_recent [of t ncs log_index s]
  show ?thesis
    by (rule append_response_recent [OF assms(1) [unfolded ChunkAndDelta apply_command_at.simps Let_def]])
      (use n in \<open>auto dest!: append_recent simp: same_window_def\<close>)
next
  case (AdvanceWatermark c p)
  then obtain u where "prune_deltas_below_gc_boundary kv (s\<lparr>sm_watermarks := wm_advance c p (sm_watermarks s)\<rparr>) = Ok u" "s' = u"
    using assms(1) by auto
  then show ?thesis by (elim pruneD) (simp add: same_window_def)
next
  case (DecrementChunkRefcount t c)
  then show ?thesis using assms(1)
    by (auto simp: decrement_chunk_def Let_def same_window_def add_u64_def split: option.splits if_splits)
qed (use assms in \<open>auto simp: same_window_def increment_chunk_def split: option.splits\<close>)

lemma command_remembers:
  assumes "apply_command_at kv cmd log_index now_ms s = Ok (s', resp)"
  shows "same_window s s'" "remembers q t n s \<Longrightarrow> n + intents_in cmd + 1 \<le> sm_dedup_window_entries s
    \<Longrightarrow> now_ms \<le> t + sm_dedup_window_ms s \<Longrightarrow> remembers q t (n + intents_in cmd) s'"
proof -
  have "same_window s s' \<and> (remembers q t n s \<longrightarrow> n + intents_in cmd + 1 \<le> sm_dedup_window_entries s
    \<longrightarrow> now_ms \<le> t + sm_dedup_window_ms s \<longrightarrow> remembers q t (n + intents_in cmd) s')"
  proof (cases cmd)
    case (IncorporateIntent item)
    obtain u b where u: "apply_one_incorporate item log_index now_ms [] s = Ok (u, b)" "sm_recent s' = sm_recent u" "same_window u s'"
      by (rule append_response_recent [OF assms [unfolded IncorporateIntent apply_command_at.simps]])
    then show ?thesis using incorporate_remembers(1) [OF u(1)] incorporate_remembers(2) [OF u(1), of q t n] remembers_cong [OF u(2)]
      by (simp add: IncorporateIntent same_window_def)
  next
    case (IncorporateIntents items)
    obtain u b where u: "apply_incorporates items log_index now_ms [] s = Ok (u, b)" "sm_recent s' = sm_recent u" "same_window u s'"
      by (rule append_response_recent [OF assms [unfolded IncorporateIntents apply_command_at.simps]])
    then show ?thesis using incorporates_remember [OF u(1), of q t n] remembers_cong [OF u(2)]
      by (simp add: IncorporateIntents same_window_def)
  qed (use command_recent [OF assms] in \<open>auto simp: remembers_def\<close>)
  then show "same_window s s'" "remembers q t n s \<Longrightarrow> n + intents_in cmd + 1 \<le> sm_dedup_window_entries s
    \<Longrightarrow> now_ms \<le> t + sm_dedup_window_ms s \<Longrightarrow> remembers q t (n + intents_in cmd) s'" by blast+
qed

lemma run_remembers:
  "run_commands kv es s = Ok s' \<Longrightarrow> remembers q t n s \<Longrightarrow> n + sum_list (map (\<lambda>(cmd, _, _). intents_in cmd) es) + 1 \<le> sm_dedup_window_entries s
   \<Longrightarrow> \<forall>(cmd, i, now_ms) \<in> set es. now_ms \<le> t + sm_dedup_window_ms s \<Longrightarrow> remembers q t (n + sum_list (map (\<lambda>(cmd, _, _). intents_in cmd) es)) s'"
proof (induction es arbitrary: s n)
  case (Cons e es)
  obtain cmd i now_ms where e: "e = (cmd, i, now_ms)" by (metis prod_cases3)
  obtain u r where u: "apply_command_at kv cmd i now_ms s = Ok (u, r)" "run_commands kv es u = Ok s'"
    using Cons.prems(1) by (auto simp: e)
  note c = command_remembers [OF u(1)]
  have "remembers q t (n + intents_in cmd) u" using c(2) [OF Cons.prems(2)] Cons.prems(3,4) by (simp add: e)
  from Cons.IH [OF u(2) this] c(1) Cons.prems(3,4) show ?case by (auto simp: e same_window_def add.assoc)
qed simp

lemma run_commands_inv: "run_commands kv es s = Ok s' \<Longrightarrow> shard_sm_inv s \<Longrightarrow> shard_sm_inv s'"
proof (induction es arbitrary: s)
  case (Cons e es)
  then show ?case using inv_command by (cases e) fastforce
qed simp

text \<open>C9: An intent is incorporated once within the window. After an intent has been applied, and as long as fewer further
  intents than the window holds have been applied and no clock reading is later than the window's age allows,
  delivering the intent again changes nothing and answers with the current tip.\<close>

theorem redelivered_intent_ignored:
  assumes "reach shard_sm_init (shard_sm_step kv ix) s" "0 < sm_dedup_window_entries s"
    and "ii_perspective_seq item \<notin> sm_recent_seqs s" "sm_ancient_cutoff s \<le> i"
    and "apply_command_at kv (IncorporateIntent item) i now_ms s = Ok (s1, r)" "run_commands kv es s1 = Ok s2"
    and "sum_list (map (\<lambda>(cmd, _, _). intents_in cmd) es) < sm_dedup_window_entries s"
    and "\<forall>(cmd, j, now') \<in> set es. now' \<le> now_ms + sm_dedup_window_ms s"
  shows "apply_command_at kv (IncorporateIntent item) j now' s2 = Ok (s2, Appended (sm_tip s2))"
proof -
  obtain u b where u: "apply_one_incorporate item i now_ms [] s = Ok (u, b)" "sm_recent s1 = sm_recent u" "same_window u s1"
    by (rule append_response_recent [OF assms(5) [unfolded apply_command_at.simps]])
  have w: "sm_dedup_window_entries s1 = sm_dedup_window_entries s" "sm_dedup_window_ms s1 = sm_dedup_window_ms s"
    using u(3) incorporate_remembers(1) [OF u(1)] by (simp_all add: same_window_def)
  have "remembers (ii_perspective_seq item) now_ms 0 s1"
    using incorporate_remembers(3) [OF u(1) assms(3) _ assms(2)] assms(4) remembers_cong [OF u(2)] by simp
  from run_remembers [OF assms(6) this] assms(7,8) w
  have "remembers (ii_perspective_seq item) now_ms (sum_list (map (\<lambda>(cmd, _, _). intents_in cmd) es)) s2" by simp
  then have "ii_perspective_seq item \<in> set (map ri_perspective_seq (sm_recent s2))" by (auto simp: remembers_def)
  moreover have "window_inv s2"
    using run_commands_inv [OF assms(6) inv_command [OF assms(5) shard_sm.reach_inv [OF assms(1)]]] by (simp add: shard_sm_inv_def)
  ultimately show ?thesis
    by (simp add: window_inv_def apply_one_incorporate_def append_response_def flush_inline_batch_def)
qed

definition demo_intent :: "u64 \<Rightarrow> IncorporateItem" where
  "demo_intent n = \<lparr>ii_tenant_id = 1, ii_operation = 0, ii_hashed_key = [2], ii_chunk_refs = [], ii_payload = [3], ii_has_inline_data = False,
     ii_new_chunks = [], ii_perspective_seq = HLC n 0 1, ii_inline_payloads = []\<rparr>"

lemmas demo_intent_run = demo_intent_def shard_sm_new_def append_delta_inner_def append_response_def flush_inline_batch_def apply_one_incorporate_def
  apply_new_chunks_def push_recent_and_evict_def add_u64_def u64_max_val Let_def

theorem redelivered_intent_ignored_witness:
  "\<exists>s1 s2 r. apply_command_at map_kv (IncorporateIntent (demo_intent 5)) 1 0
      (shard_sm_new () 4 60000 1 1 :: ((bytes \<Rightarrow> bytes option) \<times> nat option, nat, unit) ShardSmInner) = Ok (s1, r)
    \<and> run_commands map_kv [(IncorporateIntent (demo_intent 6), 2, 10)] s1 = Ok s2 \<and> sm_tip s2 = 2
    \<and> apply_command_at map_kv (IncorporateIntent (demo_intent 5)) 3 20 s2 = Ok (s2, Appended (sm_tip s2))"
proof -
  let ?new = "(shard_sm_new () 4 60000 1 1 :: ((bytes \<Rightarrow> bytes option) \<times> nat option, nat, unit) ShardSmInner)"
  have "\<exists>s1 r s2. apply_command_at map_kv (IncorporateIntent (demo_intent 5)) 1 0 ?new = Ok (s1, r)
    \<and> run_commands map_kv [(IncorporateIntent (demo_intent 6), 2, 10)] s1 = Ok s2 \<and> sm_tip s2 = 2"
    by (simp add: demo_intent_run del: bind_res_eq_Ok)
  then obtain s1 r s2 where s1: "apply_command_at map_kv (IncorporateIntent (demo_intent 5)) 1 0 ?new = Ok (s1, r)"
    and s2: "run_commands map_kv [(IncorporateIntent (demo_intent 6), 2, 10)] s1 = Ok s2" "sm_tip s2 = 2" by blast
  have "reach shard_sm_init (shard_sm_step map_kv id) ?new" by (intro reach_init) (auto simp: shard_sm_init_def)
  from redelivered_intent_ignored [OF this _ _ _ s1 s2(1), of 3 20] s1 s2
  show ?thesis by (auto simp: shard_sm_new_def)
qed

section \<open>Deletes that overtake creates\<close>

lemma create_row:
  assumes "apply_command_at kv (ChunkAndDelta tenant op key refs payload inline [nc] ips) i now_ms s = Ok (s', r)"
    and "map_of (sm_cluster_chunk_state s) (tenant, nc_chunk_id nc) = None"
  shows "map_of (sm_cluster_chunk_state s') (tenant, nc_chunk_id nc) =
      (let parked = (case map_of (sm_pending s) (tenant, nc_chunk_id nc) of None \<Rightarrow> 0 | Some n \<Rightarrow> n) in
       Some \<lparr>cc_refcount = 1 - parked, cc_placement = nc_placement nc, cc_tombstoned = (parked > 0), cc_created_ms = i,
         cc_original_len = nc_original_len nc\<rparr>)"
    "map_of (sm_pending s') (tenant, nc_chunk_id nc) = None"
proof -
  let ?s = "apply_new_chunks tenant [nc] i s"
  obtain b u c where u: "append_delta_inner tenant op key refs payload inline i b ?s = Ok (u, c)" "flush_inline_batch kv c u = Ok s'"
    using assms(1) by (auto simp: append_response_def Let_def)
  obtain d where d: "u = ?s\<lparr>sm_tip := sm_tip ?s + 1, sm_delta_count := sm_delta_count ?s + 1, sm_deltas := sm_deltas ?s @ [d]\<rparr>"
    by (rule append_delta_innerD [OF u(1)])
  obtain store where "s' = u\<lparr>sm_inline_store := store\<rparr>" by (rule flush_inline_batchD [OF u(2)])
  then have "sm_cluster_chunk_state s' = sm_cluster_chunk_state ?s" "sm_pending s' = sm_pending ?s" by (simp_all add: d)
  then show "map_of (sm_cluster_chunk_state s') (tenant, nc_chunk_id nc) =
      (let parked = (case map_of (sm_pending s) (tenant, nc_chunk_id nc) of None \<Rightarrow> 0 | Some n \<Rightarrow> n) in
       Some \<lparr>cc_refcount = 1 - parked, cc_placement = nc_placement nc, cc_tombstoned = (parked > 0), cc_created_ms = i,
         cc_original_len = nc_original_len nc\<rparr>)"
    "map_of (sm_pending s') (tenant, nc_chunk_id nc) = None"
    using assms(2) by (simp_all add: apply_new_chunks_def apply_new_chunk_def Let_def update_conv' delete_conv')
qed

lemma decrements_park:
  "run_commands kv es s = Ok s' \<Longrightarrow> \<forall>(cmd, _, _) \<in> set es. cmd = DecrementChunkRefcount tenant cid \<Longrightarrow>
   map_of (sm_cluster_chunk_state s) (tenant, cid) = None \<Longrightarrow>
   length (sm_pending s) < PENDING_CHUNK_DECREMENTS_CAP \<or> map_of (sm_pending s) (tenant, cid) \<noteq> None \<Longrightarrow>
   map_of (sm_cluster_chunk_state s') (tenant, cid) = None \<and>
   (case map_of (sm_pending s') (tenant, cid) of None \<Rightarrow> 0 | Some n \<Rightarrow> n)
     = (case map_of (sm_pending s) (tenant, cid) of None \<Rightarrow> 0 | Some n \<Rightarrow> n) + length es"
proof (induction es arbitrary: s)
  case (Cons e es)
  obtain i now_ms where e: "e = (DecrementChunkRefcount tenant cid, i, now_ms)" using Cons.prems(2) by (cases e) auto
  let ?n = "case map_of (sm_pending s) (tenant, cid) of None \<Rightarrow> 0 | Some n \<Rightarrow> n"
  obtain u where u: "run_commands kv es u = Ok s'" "u = s\<lparr>sm_pending := AList.update (tenant, cid) (?n + 1) (sm_pending s)\<rparr>"
    using Cons.prems(1,3,4) by (auto simp: e decrement_chunk_def Let_def add_u64_def split: if_splits)
  from Cons.IH [OF u(1)] Cons.prems(2,3) show ?case by (simp add: u(2) update_conv')
qed simp

lemma decrements_count:
  "run_commands kv es s = Ok s' \<Longrightarrow> \<forall>(cmd, _, _) \<in> set es. cmd = DecrementChunkRefcount tenant cid \<Longrightarrow>
   map_of (sm_cluster_chunk_state s) (tenant, cid) = Some e \<Longrightarrow> (cc_refcount e = 0 \<longleftrightarrow> cc_tombstoned e) \<Longrightarrow>
   map_of (sm_pending s) (tenant, cid) = None \<Longrightarrow>
   map_of (sm_pending s') (tenant, cid) = None \<and>
   map_of (sm_cluster_chunk_state s') (tenant, cid) = Some (e\<lparr>cc_refcount := cc_refcount e - length es, cc_tombstoned := (cc_refcount e - length es = 0)\<rparr>)"
proof (induction es arbitrary: s e)
  case (Cons x es)
  obtain i now_ms where x: "x = (DecrementChunkRefcount tenant cid, i, now_ms)" using Cons.prems(2) by (cases x) auto
  let ?e = "e\<lparr>cc_refcount := cc_refcount e - 1, cc_tombstoned := (cc_refcount e - 1 = 0)\<rparr>"
  have "(cc_tombstoned e \<or> cc_refcount e - 1 = 0 \<and> \<not> cc_tombstoned e) = (cc_refcount e - 1 = 0)" using Cons.prems(4) by auto
  then obtain u where u: "run_commands kv es u = Ok s'"
    "u = s\<lparr>sm_cluster_chunk_state := AList.update (tenant, cid) ?e (sm_cluster_chunk_state s)\<rparr>"
    using Cons.prems(1,3) by (auto simp: x decrement_chunk_def Let_def simp del: One_nat_def)
  have "map_of (sm_cluster_chunk_state u) (tenant, cid) = Some ?e" by (simp add: u(2) update_conv')
  from Cons.IH [OF u(1) _ this] Cons.prems(2,5) show ?case by (simp add: u(2))
next
  case Nil
  then show ?case by (cases e) simp
qed

lemma run_append: "run_commands kv (es @ fs) s = bind_res (run_commands kv es s) (run_commands kv fs)"
proof (induction es arbitrary: s)
  case (Cons e es)
  obtain cmd i now_ms where "e = (cmd, i, now_ms)" by (metis prod_cases3)
  then show ?case using Cons by (cases "apply_command_at kv cmd i now_ms s") auto
qed simp

text \<open>C22: Deletes may overtake the create of a chunk. For a chunk without a row and without parked decrements, any number of
  decrements before the create and any number after it, at least one in all, leave the same row: no references,
  tombstoned, with the placement and length of the create, and nothing parked.\<close>

theorem delete_order_irrelevant:
  assumes "run_commands kv (before @ (ChunkAndDelta tenant op key refs payload inline [nc] ips, i, now_ms) # after) s = Ok s'"
    and "\<forall>(cmd, _, _) \<in> set (before @ after). cmd = DecrementChunkRefcount tenant (nc_chunk_id nc)" "before @ after \<noteq> []"
    and "map_of (sm_cluster_chunk_state s) (tenant, nc_chunk_id nc) = None" "map_of (sm_pending s) (tenant, nc_chunk_id nc) = None"
    and "length (sm_pending s) < PENDING_CHUNK_DECREMENTS_CAP"
  shows "map_of (sm_cluster_chunk_state s') (tenant, nc_chunk_id nc) =
      Some \<lparr>cc_refcount = 0, cc_placement = nc_placement nc, cc_tombstoned = True, cc_created_ms = i, cc_original_len = nc_original_len nc\<rparr>
    \<and> map_of (sm_pending s') (tenant, nc_chunk_id nc) = None"
proof -
  let ?k = "(tenant, nc_chunk_id nc)"
  obtain s1 where s1: "run_commands kv before s = Ok s1"
    "run_commands kv ((ChunkAndDelta tenant op key refs payload inline [nc] ips, i, now_ms) # after) s1 = Ok s'"
    using assms(1) by (auto simp: run_append simp del: run_commands.simps)
  obtain s2 r where s2: "apply_command_at kv (ChunkAndDelta tenant op key refs payload inline [nc] ips) i now_ms s1 = Ok (s2, r)"
    "run_commands kv after s2 = Ok s'" using s1(2) by (auto simp del: apply_command_at.simps)
  have p: "map_of (sm_cluster_chunk_state s1) ?k = None" "(case map_of (sm_pending s1) ?k of None \<Rightarrow> 0 | Some n \<Rightarrow> n) = length before"
    using decrements_park [OF s1(1) _ assms(4)] assms(2,5,6) by auto
  let ?e = "\<lparr>cc_refcount = 1 - length before, cc_placement = nc_placement nc, cc_tombstoned = (length before > 0), cc_created_ms = i,
         cc_original_len = nc_original_len nc\<rparr>"
  have row: "map_of (sm_cluster_chunk_state s2) ?k = Some ?e" "map_of (sm_pending s2) ?k = None"
    using create_row [OF s2(1) p(1)] p(2) by (simp_all add: Let_def)
  have "1 - length before - length after = 0" "(cc_refcount ?e = 0) = cc_tombstoned ?e"
    using assms(3) by (cases before; cases after; auto)+
  then show ?thesis using decrements_count [OF s2(2) _ row(1) _ row(2)] assms(2) by auto
qed

definition demo_new_chunk :: NewChunkMeta where
  "demo_new_chunk = \<lparr>nc_chunk_id = [9], nc_placement = [1, 2], nc_original_len = 4096\<rparr>"

lemmas demo_new_chunk_run = demo_new_chunk_def shard_sm_new_def append_delta_inner_def append_response_def flush_inline_batch_def apply_new_chunks_def
  apply_new_chunk_def increment_chunk_def decrement_chunk_def PENDING_CHUNK_DECREMENTS_CAP_def add_u64_def u64_max_val Let_def

theorem delete_order_irrelevant_witness:
  "\<exists>s'. run_commands map_kv [(DecrementChunkRefcount 1 [9], 1, 0), (ChunkAndDelta 1 0 [2] [[9]] [3] False [demo_new_chunk] [], 2, 0)]
      (shard_sm_new () 4 60000 1 1 :: ((bytes \<Rightarrow> bytes option) \<times> nat option, nat, unit) ShardSmInner) = Ok s'
    \<and> map_of (sm_cluster_chunk_state s') (1, [9]) =
        Some \<lparr>cc_refcount = 0, cc_placement = [1, 2], cc_tombstoned = True, cc_created_ms = 2, cc_original_len = 4096\<rparr>"
proof -
  let ?new = "(shard_sm_new () 4 60000 1 1 :: ((bytes \<Rightarrow> bytes option) \<times> nat option, nat, unit) ShardSmInner)"
  obtain s' where s': "run_commands map_kv ([(DecrementChunkRefcount 1 [9], 1, 0)] @ (ChunkAndDelta 1 0 [2] [[9]] [3] False [demo_new_chunk] [], 2, 0) # []) ?new = Ok s'"
    by (simp add: demo_new_chunk_run)
  from delete_order_irrelevant [OF this] s' show ?thesis
    by (auto simp: demo_new_chunk_def shard_sm_new_def PENDING_CHUNK_DECREMENTS_CAP_def simp del: run_commands.simps)
qed

text \<open>An increment that overtakes the create is lost. The increment is not parked, so create, increment and decrement leave
  the chunk alive with one reference, but with the increment first the same commands leave it tombstoned
  although one reference is left.\<close>

lemma early_increment_lost:
  assumes "map_of (sm_cluster_chunk_state s) (tenant, nc_chunk_id nc) = None" "map_of (sm_pending s) (tenant, nc_chunk_id nc) = None"
    and "create = ChunkAndDelta tenant op key refs payload inline [nc] ips"
    and "run_commands kv [(create, i1, t1), (IncrementChunkRefcount tenant (nc_chunk_id nc), i2, t2),
          (DecrementChunkRefcount tenant (nc_chunk_id nc), i3, t3)] s = Ok s1"
    and "run_commands kv [(IncrementChunkRefcount tenant (nc_chunk_id nc), j1, u1), (create, j2, u2),
          (DecrementChunkRefcount tenant (nc_chunk_id nc), j3, u3)] s = Ok s2"
  shows "\<exists>e1 e2. map_of (sm_cluster_chunk_state s1) (tenant, nc_chunk_id nc) = Some e1 \<and> cc_refcount e1 = 1 \<and> \<not> cc_tombstoned e1
    \<and> map_of (sm_cluster_chunk_state s2) (tenant, nc_chunk_id nc) = Some e2 \<and> cc_refcount e2 = 0 \<and> cc_tombstoned e2"
proof -
  obtain v r where v: "apply_command_at kv create i1 t1 s = Ok (v, r)"
    "run_commands kv [(DecrementChunkRefcount tenant (nc_chunk_id nc), i3, t3)] (increment_chunk tenant (nc_chunk_id nc) v) = Ok s1"
    using assms(4) by (auto simp: assms(3) simp del: apply_command_at.simps(2))
  have inc: "increment_chunk tenant (nc_chunk_id nc) s = s" using assms(1) by (simp add: increment_chunk_def)
  obtain w r' where w: "apply_command_at kv create j2 u2 s = Ok (w, r')"
    "run_commands kv [(DecrementChunkRefcount tenant (nc_chunk_id nc), j3, u3)] w = Ok s2"
    using assms(5) inc by (auto simp: assms(3) simp del: apply_command_at.simps(2))
  note rv = create_row [OF v(1) [unfolded assms(3)] assms(1)] and rw = create_row [OF w(1) [unfolded assms(3)] assms(1)]
  have "\<exists>e1. map_of (sm_cluster_chunk_state s1) (tenant, nc_chunk_id nc) = Some e1 \<and> cc_refcount e1 = 1 \<and> \<not> cc_tombstoned e1"
    using v(2) rv assms(2) by (auto simp: increment_chunk_def decrement_chunk_def Let_def update_conv' u64_max_val)
  moreover have "\<exists>e2. map_of (sm_cluster_chunk_state s2) (tenant, nc_chunk_id nc) = Some e2 \<and> cc_refcount e2 = 0 \<and> cc_tombstoned e2"
    using w(2) rw assms(2) by (auto simp: decrement_chunk_def Let_def update_conv')
  ultimately show ?thesis by blast
qed

lemma early_increment_lost_example:
  "\<exists>s1 s2 e1 e2. run_commands map_kv [(ChunkAndDelta 1 0 [2] [[9]] [3] False [demo_new_chunk] [], 1, 0), (IncrementChunkRefcount 1 [9], 2, 0),
        (DecrementChunkRefcount 1 [9], 3, 0)] (shard_sm_new () 4 60000 1 1 :: ((bytes \<Rightarrow> bytes option) \<times> nat option, nat, unit) ShardSmInner) = Ok s1
    \<and> run_commands map_kv [(IncrementChunkRefcount 1 [9], 1, 0), (ChunkAndDelta 1 0 [2] [[9]] [3] False [demo_new_chunk] [], 2, 0),
        (DecrementChunkRefcount 1 [9], 3, 0)] (shard_sm_new () 4 60000 1 1 :: ((bytes \<Rightarrow> bytes option) \<times> nat option, nat, unit) ShardSmInner) = Ok s2
    \<and> map_of (sm_cluster_chunk_state s1) (1, [9]) = Some e1 \<and> \<not> cc_tombstoned e1
    \<and> map_of (sm_cluster_chunk_state s2) (1, [9]) = Some e2 \<and> cc_tombstoned e2"
proof -
  let ?new = "(shard_sm_new () 4 60000 1 1 :: ((bytes \<Rightarrow> bytes option) \<times> nat option, nat, unit) ShardSmInner)" and ?c = "ChunkAndDelta 1 0 [2] [[9]] [3] False [demo_new_chunk] []"
  have n: "nc_chunk_id demo_new_chunk = [9]" by (simp add: demo_new_chunk_def)
  obtain s1 where s1: "run_commands map_kv [(?c, 1, 0), (IncrementChunkRefcount 1 (nc_chunk_id demo_new_chunk), 2, 0),
      (DecrementChunkRefcount 1 (nc_chunk_id demo_new_chunk), 3, 0)] ?new = Ok s1" by (simp add: demo_new_chunk_run)
  obtain s2 where s2: "run_commands map_kv [(IncrementChunkRefcount 1 (nc_chunk_id demo_new_chunk), 1, 0), (?c, 2, 0),
      (DecrementChunkRefcount 1 (nc_chunk_id demo_new_chunk), 3, 0)] ?new = Ok s2" by (simp add: demo_new_chunk_run)
  from early_increment_lost [OF _ _ refl s1 s2] obtain e1 e2 where
    "map_of (sm_cluster_chunk_state s1) (1, [9]) = Some e1" "\<not> cc_tombstoned e1"
    "map_of (sm_cluster_chunk_state s2) (1, [9]) = Some e2" "cc_tombstoned e2"
    unfolding n by (auto simp: shard_sm_new_def)
  then show ?thesis using s1 s2 unfolding n by blast
qed

section \<open>Where replicas differ\<close>

lemma incorporate_fresh:
  assumes "ii_perspective_seq item \<notin> sm_recent_seqs s" "sm_ancient_cutoff s \<le> i" "sm_tip s < u64_max" "sm_delta_count s < u64_max"
  obtains s' b' where "apply_one_incorporate item i now_ms b s = Ok (s', b')" "sm_tip s' = sm_tip s + 1"
    "sm_delta_count s' = sm_delta_count s + 1" "sm_inline_store s' = sm_inline_store s" "same_window s s'"
    "(sm_recent s', sm_recent_seqs s', sm_ancient_cutoff s') = evict_recent (sm_dedup_window_entries s) (sm_dedup_window_ms s) now_ms
       (sm_recent s @ [\<lparr>ri_log_index = i, ri_perspective_seq = ii_perspective_seq item, ri_apply_ms = now_ms\<rparr>])
       (insert (ii_perspective_seq item) (sm_recent_seqs s)) (sm_ancient_cutoff s)"
proof -
  obtain cs p where f: "apply_new_chunks (ii_tenant_id item) (ii_new_chunks item) i s = s\<lparr>sm_pending := p, sm_cluster_chunk_state := cs\<rparr>"
    using apply_new_chunks_frame by blast
  define b1 where "b1 = (if ii_inline_payloads item \<noteq> [] \<and> sm_inline_store s \<noteq> None then b @ ii_inline_payloads item else b)"
  let ?s = "s\<lparr>sm_pending := p, sm_cluster_chunk_state := cs\<rparr>"
  obtain u b' where a: "append_delta_inner (ii_tenant_id item) (ii_operation item) (ii_hashed_key item) (ii_chunk_refs item)
      (ii_payload item) (ii_has_inline_data item) i b1 ?s = Ok (u, b')"
    using assms(3,4) by (auto simp: append_delta_inner_def add_u64_def Let_def)
  obtain d where u: "u = ?s\<lparr>sm_tip := sm_tip ?s + 1, sm_delta_count := sm_delta_count ?s + 1, sm_deltas := sm_deltas ?s @ [d]\<rparr>"
    by (rule append_delta_innerD [OF a])
  have r: "apply_one_incorporate item i now_ms b s = Ok (push_recent_and_evict i (ii_perspective_seq item) now_ms u, b')"
  proof (cases "ii_inline_payloads item \<noteq> [] \<and> sm_inline_store s \<noteq> None")
    case True
    then show ?thesis using assms(1,2) a f by (auto simp: apply_one_incorporate_def b1_def)
  next
    case False
    then show ?thesis using assms(1,2) a f by (auto simp: apply_one_incorporate_def b1_def)
  qed
  show thesis
    by (rule that [OF r]) (simp_all add: push_recent_and_evict_def u same_window_def split_beta)
qed

lemma incorporate_command:
  assumes "apply_one_incorporate item i now_ms [] s = Ok (s', b)" "sm_inline_store s' = None"
  shows "apply_command_at kv (IncorporateIntent item) i now_ms s = Ok (s', Appended (sm_tip s'))"
  using assms by (simp add: append_response_def flush_inline_batch_def)

text \<open>C37: Replicas of a shard can diverge. Eviction from the window follows each replica's own clock, so with the same three
  entries, an intent, another one and the first one again, a replica whose clock stands still ignores the
  repetition, and one whose clock has moved past the window appends it a second time.\<close>

theorem clocks_split_replicas:
  assumes "ii_perspective_seq a \<noteq> ii_perspective_seq b" "2 \<le> n"
  shows "\<exists>(s :: ('k, 'l, 'm) ShardSmInner) (s' :: ('k, 'l, 'm) ShardSmInner).
    run_commands kv [(IncorporateIntent a, 1, t), (IncorporateIntent b, 2, t), (IncorporateIntent a, 3, t)] (shard_sm_new m0 n w sid tid) = Ok s
    \<and> run_commands kv [(IncorporateIntent a, 1, t), (IncorporateIntent b, 2, t + w + 1), (IncorporateIntent a, 3, t + w + 1)]
        (shard_sm_new m0 n w sid tid) = Ok s'
    \<and> sm_tip s = 2 \<and> sm_tip s' = 3"
proof -
  let ?q = "ii_perspective_seq" and ?new = "shard_sm_new m0 n w sid tid :: ('k, 'l, 'm) ShardSmInner"
  let ?r = "\<lambda>i x t. \<lparr>ri_log_index = i, ri_perspective_seq = ?q x, ri_apply_ms = t\<rparr>"
  note new = shard_sm_new_def same_window_def u64_max_val
  obtain s1 c where s1: "apply_one_incorporate a 1 t [] ?new = Ok (s1, c)" "sm_tip s1 = 1" "sm_delta_count s1 = 1" "sm_inline_store s1 = None"
    "sm_dedup_window_entries s1 = n" "sm_dedup_window_ms s1 = w" "sm_recent s1 = [?r 1 a t]" "sm_recent_seqs s1 = {?q a}" "sm_ancient_cutoff s1 = 0"
    by (rule incorporate_fresh [of a ?new 1 t "[]"]) (use assms(2) in \<open>auto simp: new\<close>)
  have "\<exists>s2 c. apply_one_incorporate b 2 t' [] s1 = Ok (s2, c) \<and> sm_tip s2 = 2 \<and> sm_delta_count s2 = 2 \<and> sm_inline_store s2 = None
      \<and> same_window s1 s2 \<and> (sm_recent s2, sm_recent_seqs s2, sm_ancient_cutoff s2) = evict_recent n w t' [?r 1 a t, ?r 2 b t'] {?q a, ?q b} 0" for t'
    by (rule incorporate_fresh [of b s1 2 t' "[]"]) (use assms(1) s1 in \<open>auto simp: u64_max_val insert_commute\<close>)
  note b = this
  obtain s2 c2 where s2: "apply_one_incorporate b 2 t [] s1 = Ok (s2, c2)" "sm_tip s2 = 2" "sm_inline_store s2 = None" "sm_recent_seqs s2 = {?q a, ?q b}"
    using b [of t] assms(2) by auto
  obtain s3 c3 where s3: "apply_one_incorporate b 2 (t + w + 1) [] s1 = Ok (s3, c3)" "sm_tip s3 = 2" "sm_delta_count s3 = 2"
    "sm_inline_store s3 = None" "sm_recent_seqs s3 = {?q b}" "sm_ancient_cutoff s3 = 2"
    using b [of "t + w + 1"] assms by (auto simp: u64_max_val insert_Diff_if)
  obtain s4 c4 where s4: "apply_one_incorporate a 3 (t + w + 1) [] s3 = Ok (s4, c4)" "sm_tip s4 = 3" "sm_inline_store s4 = None"
    by (rule incorporate_fresh [of a s3 3 "t + w + 1" "[]"]) (use assms(1) s3 in \<open>auto simp: u64_max_val\<close>)
  have dup: "apply_one_incorporate a 3 t [] s2 = Ok (s2, [])" by (simp add: apply_one_incorporate_def s2(4))
  note cmd = incorporate_command [of _ _ _ _ _ _ kv]
  have "run_commands kv [(IncorporateIntent a, 1, t), (IncorporateIntent b, 2, t), (IncorporateIntent a, 3, t)] ?new = Ok s2"
    using cmd [OF s1(1,4)] cmd [OF s2(1,3)] cmd [OF dup s2(3)] by (simp del: apply_command_at.simps bind_res_eq_Ok)
  moreover have "run_commands kv [(IncorporateIntent a, 1, t), (IncorporateIntent b, 2, t + w + 1), (IncorporateIntent a, 3, t + w + 1)] ?new = Ok s4"
    using cmd [OF s1(1,4)] cmd [OF s3(1,4)] cmd [OF s4(1,3)] by (simp del: apply_command_at.simps bind_res_eq_Ok)
  ultimately show ?thesis using s2(2) s4(2) by blast
qed

theorem clocks_split_replicas_witness:
  "\<exists>s s'. run_commands map_kv [(IncorporateIntent (demo_intent 5), 1, 0), (IncorporateIntent (demo_intent 6), 2, 0), (IncorporateIntent (demo_intent 5), 3, 0)]
      (shard_sm_new () 4 60000 1 1 :: ((bytes \<Rightarrow> bytes option) \<times> nat option, nat, unit) ShardSmInner) = Ok s
    \<and> run_commands map_kv [(IncorporateIntent (demo_intent 5), 1, 0), (IncorporateIntent (demo_intent 6), 2, 60001), (IncorporateIntent (demo_intent 5), 3, 60001)]
      (shard_sm_new () 4 60000 1 1 :: ((bytes \<Rightarrow> bytes option) \<times> nat option, nat, unit) ShardSmInner) = Ok s'
    \<and> sm_tip s = 2 \<and> sm_tip s' = 3"
proof -
  have "ii_perspective_seq (demo_intent 5) \<noteq> ii_perspective_seq (demo_intent 6)" by (simp add: demo_intent_def)
  from clocks_split_replicas [OF this, of 4 map_kv 0 "()" 60000 1 1] show ?thesis
    by (simp del: run_commands.simps)
qed

section \<open>Batches larger than the window\<close>

lemma incorporates_ancient:
  "i < sm_ancient_cutoff s \<Longrightarrow> apply_incorporates items i now_ms b s = Ok (s, b)"
  by (induction items) (simp_all add: apply_one_incorporate_def)

lemma incorporates_fill:
  assumes "distinct (map ii_perspective_seq items)" "set (map ii_perspective_seq items) \<inter> sm_recent_seqs s = {}"
    and "length (sm_recent s) + length items \<le> sm_dedup_window_entries s" "sm_ancient_cutoff s = 0"
    and "\<forall>r \<in> set (sm_recent s). ri_apply_ms r = now_ms \<and> ri_log_index r = i" "sm_tip s + length items \<le> u64_max" "sm_delta_count s + length items \<le> u64_max"
  shows "\<exists>s' b'. apply_incorporates items i now_ms b s = Ok (s', b') \<and> sm_tip s' = sm_tip s + length items \<and> sm_delta_count s' = sm_delta_count s + length items
    \<and> same_window s s' \<and> sm_inline_store s' = sm_inline_store s \<and> sm_ancient_cutoff s' = 0 \<and> length (sm_recent s') = length (sm_recent s) + length items
    \<and> sm_recent_seqs s' = sm_recent_seqs s \<union> set (map ii_perspective_seq items)
    \<and> (\<forall>r \<in> set (sm_recent s'). ri_apply_ms r = now_ms \<and> ri_log_index r = i)"
  using assms
proof (induction items arbitrary: b s)
  case Nil
  then show ?case by (simp add: same_window_def)
next
  case (Cons x xs)
  let ?r = "\<lparr>ri_log_index = i, ri_perspective_seq = ii_perspective_seq x, ri_apply_ms = now_ms\<rparr>"
  have keep: "evict_recent (sm_dedup_window_entries s) (sm_dedup_window_ms s) now_ms (sm_recent s @ [?r]) q 0 = (sm_recent s @ [?r], q, 0)" for q
    using Cons.prems(3,5) by (cases "sm_recent s") auto
  obtain u c where u: "apply_one_incorporate x i now_ms b s = Ok (u, c)" "sm_tip u = sm_tip s + 1" "sm_delta_count u = sm_delta_count s + 1"
    "sm_inline_store u = sm_inline_store s" "same_window s u" "sm_recent u = sm_recent s @ [?r]" "sm_recent_seqs u = insert (ii_perspective_seq x) (sm_recent_seqs s)" "sm_ancient_cutoff u = 0"
    by (rule incorporate_fresh [of x s i now_ms b]) (use Cons.prems keep in auto)
  have "\<exists>s' b'. apply_incorporates xs i now_ms c u = Ok (s', b') \<and> sm_tip s' = sm_tip u + length xs \<and> sm_delta_count s' = sm_delta_count u + length xs
    \<and> same_window u s' \<and> sm_inline_store s' = sm_inline_store u \<and> sm_ancient_cutoff s' = 0 \<and> length (sm_recent s') = length (sm_recent u) + length xs
    \<and> sm_recent_seqs s' = sm_recent_seqs u \<union> set (map ii_perspective_seq xs)
    \<and> (\<forall>r \<in> set (sm_recent s'). ri_apply_ms r = now_ms \<and> ri_log_index r = i)"
    by (rule Cons.IH) (use Cons.prems u in \<open>auto simp: same_window_def\<close>)
  then show ?case using u by (auto simp: same_window_def)
qed

lemma evict_oldest:
  assumes "length rs = window_entries" "\<forall>x \<in> set rs. ri_apply_ms x = now_ms"
  shows "evict_recent window_entries window_ms now_ms (r # rs) seqs cutoff =
    (rs, seqs - {ri_perspective_seq r}, max cutoff (min (ri_log_index r + 1) u64_max))"
  using assms by (cases rs) simp_all

lemma incorporates_append:
  "apply_incorporates (xs @ ys) i now_ms b s = bind_res (apply_incorporates xs i now_ms b s) (\<lambda>(s, b). apply_incorporates ys i now_ms b s)"
proof (induction xs arbitrary: b s)
  case (Cons x xs)
  then show ?case by (cases "apply_one_incorporate x i now_ms b s") auto
qed simp

text \<open>A batch of intents larger than the configured window loses intents. Evicting the first intent of the batch moves the
  cutoff past the batch's own log index, so a fresh shard with a window of \<open>n\<close> incorporates exactly the first \<open>n + 1\<close>
  of the batch and refuses the rest as ancient.\<close>

lemma oversized_batch_loses_intents:
  assumes "distinct (map ii_perspective_seq items)" "n + 1 < length items" "0 < n" "length items \<le> u64_max" "i < u64_max"
  shows "\<exists>s' :: ('k, 'l, 'm) ShardSmInner. apply_command_at kv (IncorporateIntents items) i now_ms (shard_sm_new m0 n w sid tid) = Ok (s', Appended (n + 1))
    \<and> sm_tip s' = n + 1"
proof -
  let ?new = "shard_sm_new m0 n w sid tid :: ('k, 'l, 'm) ShardSmInner"
  define xs x ys where "xs = take n items" and "x = items ! n" and "ys = drop (n + 1) items"
  have split: "items = xs @ x # ys" using assms(2) by (simp add: xs_def x_def ys_def id_take_nth_drop)
  have d: "distinct (map ii_perspective_seq xs)" "ii_perspective_seq x \<notin> set (map ii_perspective_seq xs)"
    using assms(1) by (simp_all add: split)
  have len: "length xs = n" using assms(2) by (simp add: xs_def)
  have "\<exists>u b. apply_incorporates xs i now_ms [] ?new = Ok (u, b) \<and> sm_tip u = sm_tip ?new + length xs \<and> sm_delta_count u = sm_delta_count ?new + length xs
    \<and> same_window ?new u \<and> sm_inline_store u = sm_inline_store ?new \<and> sm_ancient_cutoff u = 0 \<and> length (sm_recent u) = length (sm_recent ?new) + length xs
    \<and> sm_recent_seqs u = sm_recent_seqs ?new \<union> set (map ii_perspective_seq xs)
    \<and> (\<forall>r \<in> set (sm_recent u). ri_apply_ms r = now_ms \<and> ri_log_index r = i)"
    by (rule incorporates_fill) (use d len assms(2,4) in \<open>auto simp: shard_sm_new_def\<close>)
  then obtain u b where u: "apply_incorporates xs i now_ms [] ?new = Ok (u, b)" "sm_tip u = n" "sm_delta_count u = n" "sm_ancient_cutoff u = 0"
    "length (sm_recent u) = n" "sm_recent_seqs u = set (map ii_perspective_seq xs)" "\<forall>r \<in> set (sm_recent u). ri_apply_ms r = now_ms \<and> ri_log_index r = i"
    "sm_dedup_window_entries u = n" "sm_dedup_window_ms u = w" "sm_inline_store u = None"
    using len by (auto simp: shard_sm_new_def same_window_def)
  obtain r rs where rs: "sm_recent u = r # rs" "ri_log_index r = i" using u(5,7) assms(3) by (cases "sm_recent u") auto
  obtain v c where v: "apply_one_incorporate x i now_ms b u = Ok (v, c)" "sm_tip v = n + 1" "sm_ancient_cutoff v = i + 1" "sm_inline_store v = None"
  proof (rule incorporate_fresh [of x u i now_ms b])
    fix v c
    assume v: "apply_one_incorporate x i now_ms b u = Ok (v, c)" "sm_tip v = sm_tip u + 1" "sm_inline_store v = sm_inline_store u"
      "(sm_recent v, sm_recent_seqs v, sm_ancient_cutoff v) = evict_recent (sm_dedup_window_entries u) (sm_dedup_window_ms u) now_ms
       (sm_recent u @ [\<lparr>ri_log_index = i, ri_perspective_seq = ii_perspective_seq x, ri_apply_ms = now_ms\<rparr>])
       (insert (ii_perspective_seq x) (sm_recent_seqs u)) (sm_ancient_cutoff u)"
    have "length (rs @ [y]) = n" "\<forall>x \<in> set rs. ri_apply_ms x = now_ms" for y using u(5,7) by (simp_all add: rs(1))
    then have "sm_ancient_cutoff v = i + 1"
      using v(4) assms(5) by (simp add: rs u(4,8) evict_oldest del: evict_recent.simps)
    then show thesis using that v(1-3) u(2,10) by simp
  qed (use d(2) u assms(2,4) in auto)
  have "apply_incorporates items i now_ms [] ?new = Ok (v, c)"
    using u(1) v(1) incorporates_ancient [of i v ys now_ms c] v(3) by (simp add: split incorporates_append)
  then show ?thesis using v(2,4) by (intro exI [of _ v]) (simp add: append_response_def flush_inline_batch_def)
qed

lemma oversized_batch_loses_intents_example:
  "\<exists>s'. apply_command_at map_kv (IncorporateIntents (map demo_intent [1, 2, 3, 4, 5, 6, 7])) 1 0
      (shard_sm_new () 4 60000 1 1 :: ((bytes \<Rightarrow> bytes option) \<times> nat option, nat, unit) ShardSmInner) = Ok (s', Appended 5) \<and> sm_tip s' = 5"
  using oversized_batch_loses_intents [of "map demo_intent [1, 2, 3, 4, 5, 6, 7]" 4 1 map_kv 0 "()" 60000 1 1]
  by (simp add: demo_intent_def u64_max_val)

section \<open>Snapshots\<close>

lemma op_u8_roundtrip: "u8_to_op (op_to_u8 x) = x"
  by (cases x) (simp_all add: u8_to_op_def)

lemma wm_replay:
  "distinct (map fst (acc @ w)) \<Longrightarrow> fold (\<lambda>(consumer, pos). wm_advance consumer pos) w acc = acc @ w"
proof (induction w arbitrary: acc)
  case (Cons x w)
  obtain c p where x: "x = (c, p)" by (cases x)
  have "map_of acc c = None" using Cons.prems by (auto simp: x map_of_eq_None_iff)
  then show ?case using Cons.IH [of "acc @ [x]"] Cons.prems by (simp add: x wm_advance_def)
qed simp

lemma wm_advance_keys: "map fst (wm_advance consumer pos w) = (if consumer \<in> set (map fst w) then map fst w else map fst w @ [consumer])"
  by (simp add: wm_advance_def map_of_eq_None_iff split_def comp_def)

lemma append_watermarks:
  "append_delta_inner tenant op key refs payload inline i b s = Ok (s', b') \<Longrightarrow> sm_watermarks s' = sm_watermarks s"
  by (auto simp: append_delta_inner_def Let_def)

lemma new_chunks_watermarks: "sm_watermarks (apply_new_chunks tenant ncs i s) = sm_watermarks s"
  using apply_new_chunks_frame [of tenant ncs i s] by auto

lemma push_watermarks: "sm_watermarks (push_recent_and_evict i q now_ms s) = sm_watermarks s"
  by (simp add: push_recent_and_evict_def Let_def split: prod.splits)

lemma incorporate_watermarks:
  "apply_one_incorporate item i now_ms b s = Ok (s', b') \<Longrightarrow> sm_watermarks s' = sm_watermarks s"
  by (auto simp: apply_one_incorporate_def Let_def new_chunks_watermarks push_watermarks dest!: append_watermarks split: if_splits)

lemma incorporates_watermarks:
  "apply_incorporates items i now_ms b s = Ok (s', b') \<Longrightarrow> sm_watermarks s' = sm_watermarks s"
proof (induction items arbitrary: b s)
  case (Cons x xs)
  then show ?case using incorporate_watermarks by fastforce
qed simp

lemma response_watermarks:
  assumes "append_response kv r = Ok (s', resp)" "\<And>u b. r = Ok (u, b) \<Longrightarrow> sm_watermarks u = w"
  shows "sm_watermarks s' = w"
proof -
  obtain u b where "r = Ok (u, b)" "flush_inline_batch kv b u = Ok s'" using assms(1) by (auto simp: append_response_def)
  then show ?thesis using assms(2) by (auto elim!: flush_inline_batchD)
qed

lemma command_watermarks:
  assumes "apply_command_at kv cmd i now_ms s = Ok (s', resp)" "distinct (map fst (sm_watermarks s))"
  shows "distinct (map fst (sm_watermarks s'))"
proof (cases cmd)
  case (AppendDelta a b c d e f)
  then show ?thesis using assms by (auto dest!: response_watermarks [where w = "sm_watermarks s"] append_watermarks)
next
  case (ChunkAndDelta a b c d e f g h)
  have "sm_watermarks s' = sm_watermarks s" using assms(1) unfolding ChunkAndDelta apply_command_at.simps Let_def
    by (rule response_watermarks) (auto simp: new_chunks_watermarks dest!: append_watermarks)
  then show ?thesis using assms(2) by simp
next
  case (IncorporateIntent item)
  then show ?thesis using assms by (auto dest!: response_watermarks [where w = "sm_watermarks s"] incorporate_watermarks)
next
  case (IncorporateIntents items)
  then show ?thesis using assms by (auto dest!: response_watermarks [where w = "sm_watermarks s"] incorporates_watermarks)
next
  case (AdvanceWatermark c p)
  obtain u where "prune_deltas_below_gc_boundary kv (s\<lparr>sm_watermarks := wm_advance c p (sm_watermarks s)\<rparr>) = Ok u" "s' = u"
    using assms(1) by (auto simp: AdvanceWatermark)
  then have "sm_watermarks s' = wm_advance c p (sm_watermarks s)" by (auto elim!: pruneD)
  then show ?thesis using assms(2) by (simp add: wm_advance_keys)
qed (use assms in \<open>auto simp: increment_chunk_def decrement_chunk_def Let_def split: option.splits if_splits\<close>)

interpretation shard_watermarks: invariant_system shard_sm_init "shard_sm_step kv ix" "\<lambda>s. distinct (map fst (sm_watermarks s))" for kv ix
proof unfold_locales
  show "shard_sm_init s \<Longrightarrow> distinct (map fst (sm_watermarks s))" for s :: "('a, 'b, 'c) ShardSmInner"
    by (auto simp: shard_sm_init_def shard_sm_new_def with_inline_store_def)
  fix s s' :: "('a, 'b, 'c) ShardSmInner"
  assume d: "distinct (map fst (sm_watermarks s))" and "shard_sm_step kv ix s s'"
  then obtain now_ms entry resp where a: "shard_sm_apply kv ix now_ms entry s = Ok (s', resp)" by (auto simp: shard_sm_step_def)
  show "distinct (map fst (sm_watermarks s'))"
  proof (cases "snd entry")
    case (Normal cmd)
    then show ?thesis using a d command_watermarks [of kv cmd _ now_ms "s\<lparr>sm_last_applied_log := Some (fst entry)\<rparr>" s' resp]
      by (simp add: shard_sm_apply_def Let_def)
  qed (use a d in \<open>auto simp: shard_sm_apply_def Let_def\<close>)
qed

lemma install_without_store: "install_deltas kv sds None = Ok (None, map to_delta sds)"
  by (induction sds) (simp_all add: Let_def)

lemma header_transfer:
  "d_header (to_delta (snapshot_delta kv store d)) = (d_header d)
     \<lparr>dh_timestamp := \<lparr>ts_hlc = HLC 0 0 0, ts_wall = \<lparr>millis_since_epoch = 0, timezone = ''UTC''\<rparr>, ts_quality = Ntp\<rparr>\<rparr>"
  by (simp add: to_delta_def snapshot_delta_def from_delta_def Let_def op_u8_roundtrip split: option.splits res.splits)


definition demo_image :: ShardSnapshot where
  "demo_image = \<lparr>ss_delta_count = 0, ss_tip = 0, ss_maintenance = False, ss_deltas = [], ss_watermarks = [], ss_shard_id = Some 1,
     ss_tenant_id = Some 1, ss_ancient_cutoff = 0, ss_recent = []\<rparr>"

definition demo_image_codec :: "ShardSnapshot Codec" where
  "demo_image_codec = \<lparr>cd_to_stdvec = (\<lambda>x. if x = demo_image then Some [1] else None), cd_from_bytes = (\<lambda>b. Some demo_image)\<rparr>"


end
