(* ===== verification/Command_Store.thy ===== *)
theory Command_Store
  imports Log_Store Shard_Machine_Runs
begin

text \<open>
  The single-node log store that keeps a command log per shard (\<^verbatim>\<open>crates/kiseki-log/src/raft_store.rs\<close>). Its shards are
  small state machines for the commands of \<open>Shard_Machine\<close>. A method that takes the lock once is one function;
  \<open>append_delta\<close> takes it three times, and its three parts are functions of their own.
\<close>

section \<open>State\<close>

record CommandShard =
  co_info :: ShardInfo
  co_deltas :: "Delta list"
  co_watermarks :: ConsumerWatermarks
  co_last_applied :: nat

record RaftLogStore =
  rl_shards :: "nat \<Rightarrow> CommandShard option"
  rl_logs :: "nat \<Rightarrow> (nat \<times> LogCommand) list option"

type_synonym 'a command_call = "RaftLogStore \<times> (LogError, 'a) res"

definition raft_log_store_new :: RaftLogStore where
  "raft_log_store_new = \<lparr>rl_shards = (\<lambda>_. None), rl_logs = (\<lambda>_. None)\<rparr>"

definition fresh_command_shard :: "nat \<Rightarrow> nat \<Rightarrow> nat \<Rightarrow> ShardConfig \<Rightarrow> CommandShard" where
  "fresh_command_shard shard_id tenant_id node config =
     \<lparr>co_info = \<lparr>si_shard_id = shard_id, si_tenant_id = tenant_id, si_raft_members = [node], si_leader = Some node,
        si_tip = 0, si_delta_count = 0, si_byte_size = 0, si_state = Healthy, si_config = config,
        si_range_start = replicate 32 0, si_range_end = replicate 32 0xff\<rparr>,
      co_deltas = [], co_watermarks = [], co_last_applied = 0\<rparr>"

definition rl_create_shard :: "nat \<Rightarrow> nat \<Rightarrow> nat \<Rightarrow> ShardConfig \<Rightarrow> RaftLogStore \<Rightarrow> RaftLogStore" where
  "rl_create_shard shard_id tenant_id node config s =
     s\<lparr>rl_shards := (rl_shards s)(shard_id \<mapsto> fresh_command_shard shard_id tenant_id node config),
       rl_logs := (rl_logs s)(shard_id \<mapsto> [])\<rparr>"

definition with_shard :: "nat \<Rightarrow> (CommandShard \<Rightarrow> CommandShard) \<Rightarrow> RaftLogStore \<Rightarrow> unit command_call" where
  "with_shard shard_id f s =
     (case rl_shards s shard_id of
        None \<Rightarrow> (s, Err (ShardNotFound shard_id))
      | Some sm \<Rightarrow> (s\<lparr>rl_shards := (rl_shards s)(shard_id \<mapsto> f sm)\<rparr>, Ok ()))"

definition rl_register_consumer :: "nat \<Rightarrow> string \<Rightarrow> nat \<Rightarrow> RaftLogStore \<Rightarrow> unit command_call" where
  "rl_register_consumer shard_id consumer position =
     with_shard shard_id (\<lambda>sm. sm\<lparr>co_watermarks := wm_register consumer position (co_watermarks sm)\<rparr>)"

definition rl_log_length :: "nat \<Rightarrow> RaftLogStore \<Rightarrow> nat" where
  "rl_log_length shard_id s = (case rl_logs s shard_id of None \<Rightarrow> 0 | Some log \<Rightarrow> length log)"

section \<open>Commands\<close>

definition command_delta :: "nat \<Rightarrow> nat \<Rightarrow> nat \<Rightarrow> nat \<Rightarrow> u8 \<Rightarrow> bytes \<Rightarrow> bytes list \<Rightarrow> bytes \<Rightarrow> bool \<Rightarrow> Delta" where
  "command_delta shard_id index next_seq tenant_id operation hashed_key chunk_refs payload has_inline_data =
     \<lparr>d_header = \<lparr>dh_sequence = next_seq, dh_shard_id = shard_id, dh_tenant_id = tenant_id, dh_operation = u8_to_op operation,
        dh_timestamp = \<lparr>ts_hlc = HLC (of_nat index) 0 0,
          ts_wall = \<lparr>millis_since_epoch = index, timezone = ''UTC''\<rparr>, ts_quality = Ntp\<rparr>,
        dh_hashed_key = hashed_key, dh_tombstone = (operation = 2), dh_chunk_refs = chunk_refs,
        dh_payload_size = length payload mod 2 ^ 32, dh_has_inline_data = has_inline_data\<rparr>,
      d_payload = \<lparr>dp_ciphertext = payload, dp_auth_tag = [], dp_nonce = [],
        dp_system_epoch = None, dp_tenant_epoch = None, dp_tenant_wrapped_material = []\<rparr>\<rparr>"

text \<open>The body that three branches of \<open>apply_to_sm\<close> repeat.\<close>

definition push_delta ::
    "nat \<Rightarrow> nat \<Rightarrow> nat \<Rightarrow> u8 \<Rightarrow> bytes \<Rightarrow> bytes list \<Rightarrow> bytes \<Rightarrow> bool \<Rightarrow> CommandShard \<Rightarrow> (LogError, CommandShard) res" where
  "push_delta shard_id index tenant_id operation hashed_key chunk_refs payload has_inline_data sm =
     bind_res (add_u64 (si_tip (co_info sm)) 1) (\<lambda>next_seq.
       let delta = command_delta shard_id index next_seq tenant_id operation hashed_key chunk_refs payload has_inline_data in
       bind_res (add_u64 (si_delta_count (co_info sm)) 1) (\<lambda>count.
         bind_res (add_u64 (si_byte_size (co_info sm)) (length payload mod 2 ^ 32 + 128)) (\<lambda>byte_size.
           Ok (sm\<lparr>co_info := (co_info sm)\<lparr>si_tip := next_seq, si_delta_count := count, si_byte_size := byte_size\<rparr>,
                  co_deltas := co_deltas sm @ [delta]\<rparr>))))"

fun push_items :: "nat \<Rightarrow> nat \<Rightarrow> IncorporateItem list \<Rightarrow> CommandShard \<Rightarrow> (LogError, CommandShard) res" where
  "push_items shard_id index [] sm = Ok sm"
| "push_items shard_id index (item # items) sm =
     bind_res (push_delta shard_id index (ii_tenant_id item) (ii_operation item) (ii_hashed_key item) (ii_chunk_refs item)
       (ii_payload item) (ii_has_inline_data item) sm) (push_items shard_id index items)"

fun command_effect :: "nat \<Rightarrow> nat \<Rightarrow> LogCommand \<Rightarrow> CommandShard \<Rightarrow> (LogError, CommandShard) res" where
  "command_effect shard_id index (AppendDelta tenant_id operation hashed_key chunk_refs payload has_inline_data) sm =
     push_delta shard_id index tenant_id operation hashed_key chunk_refs payload has_inline_data sm"
| "command_effect shard_id index (ChunkAndDelta tenant_id operation hashed_key chunk_refs payload has_inline_data new_chunks inline_payloads) sm =
     push_delta shard_id index tenant_id operation hashed_key chunk_refs payload has_inline_data sm"
| "command_effect shard_id index (IncorporateIntent item) sm =
     push_delta shard_id index (ii_tenant_id item) (ii_operation item) (ii_hashed_key item) (ii_chunk_refs item)
       (ii_payload item) (ii_has_inline_data item) sm"
| "command_effect shard_id index (IncorporateIntents items) sm = push_items shard_id index items sm"
| "command_effect shard_id index (IncrementChunkRefcount tenant chunk_id) sm = Ok sm"
| "command_effect shard_id index (DecrementChunkRefcount tenant chunk_id) sm = Ok sm"
| "command_effect shard_id index (SetMaintenance enabled) sm =
     Ok (sm\<lparr>co_info := (co_info sm)\<lparr>si_state := (if enabled then Maintenance else Healthy)\<rparr>\<rparr>)"
| "command_effect shard_id index (AdvanceWatermark consumer position) sm =
     Ok (sm\<lparr>co_watermarks := wm_advance consumer position (co_watermarks sm)\<rparr>)"
| "command_effect shard_id index (SetShardState st) sm =
     Ok (case from_u8 st of Some st \<Rightarrow> sm\<lparr>co_info := (co_info sm)\<lparr>si_state := st\<rparr>\<rparr> | None \<Rightarrow> sm)"
| "command_effect shard_id index (UpdateShardRange range_start range_end) sm =
     Ok (sm\<lparr>co_info := (co_info sm)\<lparr>si_range_start := range_start, si_range_end := range_end\<rparr>\<rparr>)"
| "command_effect shard_id index (SetShardConfig max_delta_count max_byte_size threshold floor ceiling) sm =
     Ok (sm\<lparr>co_info := (co_info sm)\<lparr>si_config := \<lparr>sc_max_delta_count = max_delta_count, sc_max_byte_size = max_byte_size,
       sc_inline_threshold_bytes = threshold, sc_inline_floor_bytes = floor, sc_inline_ceiling_bytes = ceiling\<rparr>\<rparr>\<rparr>)"

definition apply_to_sm :: "nat \<Rightarrow> nat \<Rightarrow> LogCommand \<Rightarrow> CommandShard \<Rightarrow> (LogError, CommandShard) res" where
  "apply_to_sm shard_id index cmd sm =
     (if index \<le> co_last_applied sm then Ok sm
      else command_effect shard_id index cmd (sm\<lparr>co_last_applied := index\<rparr>))"

definition rl_apply_command :: "nat \<Rightarrow> LogCommand \<Rightarrow> RaftLogStore \<Rightarrow> unit command_call" where
  "rl_apply_command shard_id cmd s =
     (case rl_logs s shard_id of
        None \<Rightarrow> (s, Err (ShardNotFound shard_id))
      | Some log \<Rightarrow>
          bind_st (s, add_u64 (length log) 1) (\<lambda>s index.
            let s = s\<lparr>rl_logs := (rl_logs s)(shard_id \<mapsto> log @ [(index, cmd)])\<rparr> in
            case rl_shards s shard_id of
              None \<Rightarrow> (s, Err (ShardNotFound shard_id))
            | Some sm \<Rightarrow>
                bind_st (s, apply_to_sm shard_id index cmd sm) (\<lambda>s sm.
                  (s\<lparr>rl_shards := (rl_shards s)(shard_id \<mapsto> sm)\<rparr>, Ok ()))))"

section \<open>Appending\<close>

definition append_check :: "AppendDeltaRequest \<Rightarrow> RaftLogStore \<Rightarrow> (LogError, unit) res" where
  "append_check req s =
     (let sid = ar_shard_id req in
      case rl_shards s sid of
        None \<Rightarrow> Err (ShardNotFound sid)
      | Some sm \<Rightarrow>
          (case state_refuses (si_state (co_info sm)) sid of
             Some e \<Rightarrow> Err e
           | None \<Rightarrow> if out_of_range (ar_hashed_key req) (co_info sm) then Err (KeyOutOfRange sid) else Ok ()))"

definition append_command :: "AppendDeltaRequest \<Rightarrow> LogCommand" where
  "append_command req =
     AppendDelta (ar_tenant_id req) (op_to_u8 (ar_operation req)) (ar_hashed_key req) (ar_chunk_refs req) (ar_payload req)
       (ar_has_inline_data req)"

definition append_apply :: "AppendDeltaRequest \<Rightarrow> RaftLogStore \<Rightarrow> unit command_call" where
  "append_apply req = rl_apply_command (ar_shard_id req) (append_command req)"

definition append_answer :: "AppendDeltaRequest \<Rightarrow> RaftLogStore \<Rightarrow> (LogError, nat) res" where
  "append_answer req s =
     (case rl_shards s (ar_shard_id req) of None \<Rightarrow> Panic | Some sm \<Rightarrow> Ok (si_tip (co_info sm)))"

text \<open>The method without other callers between its parts.\<close>

definition rl_append_delta :: "AppendDeltaRequest \<Rightarrow> RaftLogStore \<Rightarrow> nat command_call" where
  "rl_append_delta req s =
     bind_st (s, append_check req s) (\<lambda>s _. bind_st (append_apply req s) (\<lambda>s _. (s, append_answer req s)))"

definition rl_put_intent_and_fan :: "AppendDeltaRequest \<Rightarrow> RaftLogStore \<Rightarrow> unit command_call" where
  "rl_put_intent_and_fan req s = bind_st (rl_append_delta req s) (\<lambda>s _. (s, Ok ()))"

section \<open>Reading and maintenance\<close>

definition rl_read_deltas :: "ReadDeltasRequest \<Rightarrow> RaftLogStore \<Rightarrow> (LogError, Delta list) res" where
  "rl_read_deltas req s =
     (case rl_shards s (rr_shard_id req) of
        None \<Rightarrow> Err (ShardNotFound (rr_shard_id req))
      | Some sm \<Rightarrow>
          if rr_from req > rr_to req then Err (InvalidRange (rr_shard_id req))
          else Ok (filter (\<lambda>d. d_seq d \<ge> rr_from req \<and> d_seq d \<le> rr_to req) (co_deltas sm)))"

definition rl_shard_health :: "nat \<Rightarrow> RaftLogStore \<Rightarrow> (LogError, ShardInfo) res" where
  "rl_shard_health shard_id s = ok_or (ShardNotFound shard_id) (map_option co_info (rl_shards s shard_id))"

definition rl_set_maintenance :: "nat \<Rightarrow> bool \<Rightarrow> RaftLogStore \<Rightarrow> unit command_call" where
  "rl_set_maintenance shard_id enabled = rl_apply_command shard_id (SetMaintenance enabled)"

definition rl_boundary :: "CommandShard \<Rightarrow> nat" where
  "rl_boundary sm = (case wm_gc_boundary (co_watermarks sm) of None \<Rightarrow> 0 | Some b \<Rightarrow> b)"

definition rl_truncate_log :: "nat \<Rightarrow> RaftLogStore \<Rightarrow> nat command_call" where
  "rl_truncate_log shard_id s =
     (case rl_shards s shard_id of
        None \<Rightarrow> (s, Err (ShardNotFound shard_id))
      | Some sm \<Rightarrow>
          (s\<lparr>rl_shards := (rl_shards s)(shard_id \<mapsto> sm\<lparr>co_deltas := filter (\<lambda>d. d_seq d \<ge> rl_boundary sm) (co_deltas sm)\<rparr>)\<rparr>,
           Ok (rl_boundary sm)))"

definition rl_compact_shard :: "nat \<Rightarrow> RaftLogStore \<Rightarrow> nat command_call" where
  "rl_compact_shard shard_id s =
     (case rl_shards s shard_id of
        None \<Rightarrow> (s, Err (ShardNotFound shard_id))
      | Some sm \<Rightarrow>
          (let before_count = length (co_deltas sm);
               surviving = compact_surviving (rl_boundary sm) (co_deltas sm);
               after_count = length surviving in
           (s\<lparr>rl_shards := (rl_shards s)(shard_id \<mapsto>
                sm\<lparr>co_deltas := sort_key d_seq surviving, co_info := (co_info sm)\<lparr>si_delta_count := after_count\<rparr>\<rparr>)\<rparr>,
            Ok (before_count - after_count))))"

definition rl_update_shard_range :: "nat \<Rightarrow> bytes \<Rightarrow> bytes \<Rightarrow> RaftLogStore \<Rightarrow> RaftLogStore" where
  "rl_update_shard_range shard_id range_start range_end s =
     fst (with_shard shard_id
       (\<lambda>sm. sm\<lparr>co_info := (co_info sm)\<lparr>si_range_start := range_start, si_range_end := range_end\<rparr>\<rparr>) s)"

definition rl_set_shard_state :: "nat \<Rightarrow> ShardState \<Rightarrow> RaftLogStore \<Rightarrow> RaftLogStore" where
  "rl_set_shard_state shard_id state s =
     fst (with_shard shard_id (\<lambda>sm. sm\<lparr>co_info := (co_info sm)\<lparr>si_state := state\<rparr>\<rparr>) s)"

definition rl_set_shard_config :: "nat \<Rightarrow> ShardConfig \<Rightarrow> RaftLogStore \<Rightarrow> RaftLogStore" where
  "rl_set_shard_config shard_id config s =
     fst (with_shard shard_id (\<lambda>sm. sm\<lparr>co_info := (co_info sm)\<lparr>si_config := config\<rparr>\<rparr>) s)"

definition rl_advance_watermark :: "nat \<Rightarrow> string \<Rightarrow> nat \<Rightarrow> RaftLogStore \<Rightarrow> unit command_call" where
  "rl_advance_watermark shard_id consumer position =
     with_shard shard_id (\<lambda>sm. sm\<lparr>co_watermarks := wm_advance consumer position (co_watermarks sm)\<rparr>)"

section \<open>One append\<close>

lemma push_delta_Ok:
  "push_delta sid i tenant op key refs payload inline sm = Ok sm' \<longleftrightarrow>
     si_tip (co_info sm) < u64_max \<and> si_delta_count (co_info sm) < u64_max
     \<and> si_byte_size (co_info sm) + (length payload mod 2 ^ 32 + 128) \<le> u64_max
     \<and> sm' = sm\<lparr>co_info := (co_info sm)\<lparr>si_tip := si_tip (co_info sm) + 1, si_delta_count := si_delta_count (co_info sm) + 1,
          si_byte_size := si_byte_size (co_info sm) + (length payload mod 2 ^ 32 + 128)\<rparr>,
        co_deltas := co_deltas sm @ [command_delta sid i (si_tip (co_info sm) + 1) tenant op key refs payload inline]\<rparr>"
  by (auto simp: push_delta_def add_u64_def Let_def)

lemma append_apply_Ok:
  assumes "append_apply req s = (s', Ok ())" "rl_shards s (ar_shard_id req) = Some sm" "rl_logs s (ar_shard_id req) = Some log"
    and "co_last_applied sm = length log"
  obtains sm' where "rl_shards s' (ar_shard_id req) = Some sm'" "si_tip (co_info sm') = si_tip (co_info sm) + 1"
    "co_deltas sm' = co_deltas sm @ [command_delta (ar_shard_id req) (length log + 1) (si_tip (co_info sm) + 1) (ar_tenant_id req)
       (op_to_u8 (ar_operation req)) (ar_hashed_key req) (ar_chunk_refs req) (ar_payload req) (ar_has_inline_data req)]"
    "co_last_applied sm' = length log + 1" "rl_logs s' (ar_shard_id req) = Some (log @ [(length log + 1, append_command req)])"
  using assms by (auto simp: append_apply_def rl_apply_command_def Let_def add_u64_def apply_to_sm_def append_command_def push_delta_Ok split: if_splits)

section \<open>The command log\<close>

text \<open>Applying a log to a shard, which is what the log is kept for.\<close>

fun replay_log :: "nat \<Rightarrow> (nat \<times> LogCommand) list \<Rightarrow> CommandShard \<Rightarrow> (LogError, CommandShard) res" where
  "replay_log shard_id [] sm = Ok sm"
| "replay_log shard_id ((i, cmd) # es) sm = bind_res (apply_to_sm shard_id i cmd sm) (replay_log shard_id es)"

lemma replay_log_append: "replay_log sid (es @ fs) sm = bind_res (replay_log sid es sm) (replay_log sid fs)"
proof (induction es arbitrary: sm)
  case (Cons e es)
  obtain i cmd where e: "e = (i, cmd)" by (cases e)
  show ?case using Cons.IH by (cases "apply_to_sm sid i cmd sm") (simp_all add: e)
qed simp

definition logged_shard_inv :: "nat \<Rightarrow> RaftLogStore \<Rightarrow> bool" where
  "logged_shard_inv sid s \<longleftrightarrow>
     (case rl_logs s sid of
        None \<Rightarrow> rl_shards s sid = None
      | Some log \<Rightarrow> (\<exists>sm tenant node config. rl_shards s sid = Some sm \<and> co_last_applied sm = length log
          \<and> replay_log sid log (fresh_command_shard sid tenant node config) = Ok sm))"

lemma logged_shard_inv_cong:
  "rl_logs s' sid = rl_logs s sid \<Longrightarrow> rl_shards s' sid = rl_shards s sid \<Longrightarrow> logged_shard_inv sid s' = logged_shard_inv sid s"
  by (cases "rl_logs s sid") (simp_all add: logged_shard_inv_def)

text \<open>Shards are created, appended to and put under maintenance; a call that panics ends the run.\<close>

definition command_step :: "RaftLogStore \<Rightarrow> RaftLogStore \<Rightarrow> bool" where
  "command_step s s' \<longleftrightarrow>
     (\<exists>sid tenant node config. s' = rl_create_shard sid tenant node config s)
   \<or> (\<exists>req r. rl_append_delta req s = (s', r) \<and> r \<noteq> Panic)
   \<or> (\<exists>req r. append_apply req s = (s', r) \<and> r \<noteq> Panic)
   \<or> (\<exists>sid enabled r. rl_set_maintenance sid enabled s = (s', r) \<and> r \<noteq> Panic)"

lemma command_effect_last: "command_effect sid i cmd sm = Ok sm' \<Longrightarrow> co_last_applied sm' = co_last_applied sm"
proof -
  have items: "push_items sid i items sm = Ok sm' \<Longrightarrow> co_last_applied sm' = co_last_applied sm" for items sm
    by (induction items arbitrary: sm) (auto simp: push_delta_Ok)
  show "command_effect sid i cmd sm = Ok sm' \<Longrightarrow> co_last_applied sm' = co_last_applied sm"
    by (cases cmd) (auto simp: push_delta_Ok dest: items split: option.splits)
qed

lemma push_delta_no_Err: "push_delta sid i tenant op key refs payload inline sm \<noteq> Err e"
  by (simp add: push_delta_def add_u64_def Let_def)

lemma apply_no_Err: "apply_to_sm sid i cmd sm \<noteq> Err e"
proof -
  have items: "push_items sid i items sm \<noteq> Err e" for items sm
  proof (induction items arbitrary: sm)
    case (Cons x xs)
    then show ?case using push_delta_no_Err
      by (cases "push_delta sid i (ii_tenant_id x) (ii_operation x) (ii_hashed_key x) (ii_chunk_refs x) (ii_payload x) (ii_has_inline_data x) sm") auto
  qed simp
  show ?thesis by (cases cmd) (auto simp: apply_to_sm_def push_delta_no_Err items)
qed

lemma apply_command_inv:
  assumes "\<forall>sid. logged_shard_inv sid s" "rl_apply_command k cmd s = (s', r)" "r \<noteq> Panic"
  shows "\<forall>sid. logged_shard_inv sid s'"
proof (cases "rl_logs s k")
  case None
  then show ?thesis using assms by (simp add: rl_apply_command_def)
next
  case (Some log)
  have "logged_shard_inv k s" using assms(1) by blast
  with Some obtain sm tenant node config where sm: "rl_shards s k = Some sm" "co_last_applied sm = length log"
    "replay_log k log (fresh_command_shard k tenant node config) = Ok sm"
    by (auto simp: logged_shard_inv_def)
  obtain sm' where a: "apply_to_sm k (length log + 1) cmd sm = Ok sm'"
    "s' = s\<lparr>rl_logs := (rl_logs s)(k \<mapsto> log @ [(length log + 1, cmd)]), rl_shards := (rl_shards s)(k \<mapsto> sm')\<rparr>"
    using assms(2,3) Some sm(1)
    by (cases "apply_to_sm k (length log + 1) cmd sm") (auto simp: apply_no_Err rl_apply_command_def add_u64_def Let_def split: if_splits)
  have "co_last_applied sm' = length log + 1" using a(1) sm(2) by (auto simp: apply_to_sm_def dest: command_effect_last)
  moreover have "replay_log k (log @ [(length log + 1, cmd)]) (fresh_command_shard k tenant node config) = Ok sm'"
    using sm(3) a(1) by (simp add: replay_log_append)
  ultimately have "logged_shard_inv k s'" by (auto simp: logged_shard_inv_def a(2))
  moreover have "logged_shard_inv sid s'" if "sid \<noteq> k" for sid
    using assms(1) that logged_shard_inv_cong [of s' sid s] by (simp add: a(2))
  ultimately show ?thesis by metis
qed

lemma command_step_inv:
  assumes "\<forall>sid. logged_shard_inv sid s" "command_step s s'"
  shows "\<forall>sid. logged_shard_inv sid s'"
proof -
  consider (create) sid tenant node config where "s' = rl_create_shard sid tenant node config s"
    | (append) req r where "rl_append_delta req s = (s', r)" "r \<noteq> Panic"
    | (applied) req r where "append_apply req s = (s', r)" "r \<noteq> Panic"
    | (maint) sid enabled r where "rl_set_maintenance sid enabled s = (s', r)" "r \<noteq> Panic"
    using assms(2) by (auto simp: command_step_def)
  then show ?thesis
  proof cases
    case (create k tenant node config)
    have "co_last_applied (fresh_command_shard k tenant node config) = 0" by (simp add: fresh_command_shard_def)
    then have "logged_shard_inv k s'" by (auto simp: create rl_create_shard_def logged_shard_inv_def)
    moreover have "logged_shard_inv sid s'" if "sid \<noteq> k" for sid
      using assms(1) that logged_shard_inv_cong [of s' sid s] by (simp add: create rl_create_shard_def)
    ultimately show ?thesis by metis
  next
    case append
    show ?thesis
    proof (cases "append_check req s")
      case (Ok u)
      obtain t q where t: "append_apply req s = (t, q)" by (cases "append_apply req s")
      have "s' = t \<and> q \<noteq> Panic" using append Ok t by (cases q) (auto simp: rl_append_delta_def)
      then show ?thesis using apply_command_inv [OF assms(1)] t by (auto simp: append_apply_def)
    qed (use append assms(1) in \<open>auto simp: rl_append_delta_def\<close>)
  next
    case applied
    then show ?thesis using apply_command_inv [OF assms(1)] by (auto simp: append_apply_def)
  next
    case maint
    then show ?thesis using apply_command_inv [OF assms(1)] by (auto simp: rl_set_maintenance_def)
  qed
qed

interpretation command_store: invariant_system "\<lambda>s. s = raft_log_store_new" command_step "\<lambda>s. \<forall>sid. logged_shard_inv sid s"
proof unfold_locales
  show "s = raft_log_store_new \<Longrightarrow> \<forall>sid. logged_shard_inv sid s" for s
    by (simp add: raft_log_store_new_def logged_shard_inv_def)
qed (rule command_step_inv)

lemma shard_has_log:
  assumes "reach (\<lambda>s. s = raft_log_store_new) command_step s" "rl_shards s sid = Some sm"
  obtains log where "rl_logs s sid = Some log" "co_last_applied sm = length log"
    "\<exists>tenant node config. replay_log sid log (fresh_command_shard sid tenant node config) = Ok sm"
proof -
  have "logged_shard_inv sid s" using command_store.reach_inv [OF assms(1)] by blast
  then show thesis using assms(2) that by (cases "rl_logs s sid") (auto simp: logged_shard_inv_def)
qed

definition demo_command_store :: RaftLogStore where
  "demo_command_store = rl_create_shard 1 1 1 shard_config_default raft_log_store_new"

definition demo_request :: "u8 \<Rightarrow> AppendDeltaRequest" where
  "demo_request k = \<lparr>ar_shard_id = 1, ar_tenant_id = 1, ar_operation = Create,
     ar_timestamp = \<lparr>ts_hlc = HLC 0 0 0, ts_wall = \<lparr>millis_since_epoch = 0, timezone = ''UTC''\<rparr>, ts_quality = Ntp\<rparr>,
     ar_hashed_key = [k], ar_chunk_refs = [], ar_payload = [k, k], ar_has_inline_data = False\<rparr>"

lemma demo_command_store_reach: "reach (\<lambda>s. s = raft_log_store_new) command_step demo_command_store"
proof (rule reach_step)
  show "reach (\<lambda>s. s = raft_log_store_new) command_step raft_log_store_new" by (rule reach_init) simp
  show "command_step raft_log_store_new demo_command_store" unfolding command_step_def demo_command_store_def by blast
qed

lemma demo_command_store_shard: "rl_shards demo_command_store 1 = Some (fresh_command_shard 1 1 1 shard_config_default)" "rl_logs demo_command_store 1 = Some []"
  by (simp_all add: demo_command_store_def rl_create_shard_def)

lemma demo_request_check: "append_check (demo_request 5) demo_command_store = Ok ()" "append_check (demo_request 6) demo_command_store = Ok ()"
proof -
  have "replicate 32 x = x # replicate 31 x" for x :: u8 by (simp add: numeral_eq_Suc)
  then show "append_check (demo_request 5) demo_command_store = Ok ()" "append_check (demo_request 6) demo_command_store = Ok ()"
    using demo_command_store_shard by (simp_all add: append_check_def demo_request_def fresh_command_shard_def out_of_range_def)
qed

lemmas demo_apply = append_apply_def rl_apply_command_def add_u64_def u64_max_val apply_to_sm_def append_command_def push_delta_def
  fresh_command_shard_def demo_request_def Let_def

text \<open>The command log of a shard determines its state. In every run that creates shards, appends and changes maintenance
  mode, applying a shard's log to a freshly created shard gives exactly the current shard, with as many entries
  applied as the log has.\<close>

lemma command_log_rebuilds_shard:
  assumes "reach (\<lambda>s. s = raft_log_store_new) command_step s" "rl_shards s sid = Some sm"
  shows "\<exists>log tenant node config. rl_logs s sid = Some log \<and> rl_log_length sid s = co_last_applied sm
    \<and> replay_log sid log (fresh_command_shard sid tenant node config) = Ok sm"
  by (rule shard_has_log [OF assms]) (auto simp: rl_log_length_def)

lemma command_log_rebuilds_shard_example:
  "\<exists>s sm log tenant node config. append_apply (demo_request 5) demo_command_store = (s, Ok ()) \<and> rl_shards s 1 = Some sm \<and> si_tip (co_info sm) = 1
    \<and> rl_logs s 1 = Some log \<and> replay_log 1 log (fresh_command_shard 1 tenant node config) = Ok sm"
proof -
  obtain s sm where s: "append_apply (demo_request 5) demo_command_store = (s, Ok ())" "rl_shards s 1 = Some sm" "si_tip (co_info sm) = 1"
    using demo_command_store_shard by (simp add: demo_apply)
  have "reach (\<lambda>s. s = raft_log_store_new) command_step s"
    by (rule reach_step [OF demo_command_store_reach]) (use s(1) in \<open>auto simp: command_step_def\<close>)
  from command_log_rebuilds_shard [OF this s(2)] s show ?thesis by blast
qed

text \<open>Range, state, configuration and watermark changes are made without a log entry, so the replay misses them.\<close>

lemma unlogged_range_lost:
  assumes "rl_logs s sid = Some []" "rl_shards s sid = Some (fresh_command_shard sid tenant node config)" "range_start \<noteq> replicate 32 0"
  shows "\<exists>sm. rl_shards (rl_update_shard_range sid range_start range_end s) sid = Some sm
    \<and> rl_logs (rl_update_shard_range sid range_start range_end s) sid = Some [] \<and> replay_log sid [] (fresh_command_shard sid t n c) \<noteq> Ok sm"
  using assms by (auto simp: rl_update_shard_range_def with_shard_def fresh_command_shard_def)

text \<open>C28: An append reports the number of its own delta. When no other caller comes between its parts, a successful
  append adds exactly one delta, with the request's key and payload, and answers with that delta's number.\<close>

theorem append_reports_own_number:
  assumes "reach (\<lambda>s. s = raft_log_store_new) command_step s" "rl_shards s (ar_shard_id req) = Some sm"
    and "rl_append_delta req s = (s', Ok n)"
  shows "\<exists>sm' d. rl_shards s' (ar_shard_id req) = Some sm' \<and> co_deltas sm' = co_deltas sm @ [d] \<and> d_seq d = n \<and> n = si_tip (co_info sm) + 1
    \<and> d_key d = ar_hashed_key req \<and> dp_ciphertext (d_payload d) = ar_payload req \<and> dh_operation (d_header d) = ar_operation req"
proof -
  obtain log where log: "rl_logs s (ar_shard_id req) = Some log" "co_last_applied sm = length log" by (rule shard_has_log [OF assms(1,2)])
  have a: "append_apply req s = (s', Ok ())" "append_answer req s' = Ok n" using assms(3) by (auto simp: rl_append_delta_def)
  show ?thesis by (rule append_apply_Ok [OF a(1) assms(2) log]) (use a(2) in \<open>auto simp: append_answer_def command_delta_def op_u8_roundtrip\<close>)
qed

theorem append_reports_own_number_witness:
  "\<exists>s' sm' d. rl_append_delta (demo_request 5) demo_command_store = (s', Ok 1) \<and> rl_shards s' 1 = Some sm' \<and> co_deltas sm' = [d] \<and> d_key d = [5]"
proof -
  have i: "ar_shard_id (demo_request 5) = 1" "ar_hashed_key (demo_request 5) = [5]" by (simp_all add: demo_request_def)
  obtain s' where s': "rl_append_delta (demo_request 5) demo_command_store = (s', Ok 1)"
    using demo_command_store_shard demo_request_check(1) by (simp add: rl_append_delta_def append_answer_def demo_apply)
  have e: "co_deltas (fresh_command_shard 1 1 1 shard_config_default) = []" by (simp add: fresh_command_shard_def)
  from append_reports_own_number [OF demo_command_store_reach _ s', unfolded i, OF demo_command_store_shard(1), unfolded e] s' show ?thesis by auto
qed

text \<open>C38: Two concurrent appends can report the same number. The lock is released between applying the command and reading the
  tip, so when a second append to the shard is applied in between, both callers are told the second delta's number,
  and no caller ever learns the number of the first.\<close>

theorem concurrent_appends_share_number:
  assumes "reach (\<lambda>s. s = raft_log_store_new) command_step s" "rl_shards s (ar_shard_id a) = Some sm" "ar_shard_id b = ar_shard_id a"
    and "append_check a s = Ok ()" "append_check b s = Ok ()" "append_apply a s = (s1, Ok ())" "append_apply b s1 = (s2, Ok ())"
  shows "append_answer a s2 = Ok (si_tip (co_info sm) + 2) \<and> append_answer b s2 = Ok (si_tip (co_info sm) + 2)
    \<and> (\<exists>sm2 d e. rl_shards s2 (ar_shard_id a) = Some sm2 \<and> co_deltas sm2 = co_deltas sm @ [d, e]
        \<and> d_seq d = si_tip (co_info sm) + 1 \<and> d_key d = ar_hashed_key a \<and> d_seq e = si_tip (co_info sm) + 2 \<and> d_key e = ar_hashed_key b)"
proof -
  obtain log where log: "rl_logs s (ar_shard_id a) = Some log" "co_last_applied sm = length log" by (rule shard_has_log [OF assms(1,2)])
  obtain sm1 d where sm1: "rl_shards s1 (ar_shard_id a) = Some sm1" "si_tip (co_info sm1) = si_tip (co_info sm) + 1"
    "co_deltas sm1 = co_deltas sm @ [d]" "d_seq d = si_tip (co_info sm) + 1" "d_key d = ar_hashed_key a"
    "rl_logs s1 (ar_shard_id a) = Some (log @ [(length log + 1, append_command a)])" "co_last_applied sm1 = length log + 1"
    by (rule append_apply_Ok [OF assms(6,2) log]) (auto simp: command_delta_def)
  obtain sm2 e where sm2: "rl_shards s2 (ar_shard_id a) = Some sm2" "si_tip (co_info sm2) = si_tip (co_info sm1) + 1"
    "co_deltas sm2 = co_deltas sm1 @ [e]" "d_seq e = si_tip (co_info sm1) + 1" "d_key e = ar_hashed_key b"
    by (rule append_apply_Ok [OF assms(7), of sm1 "log @ [(length log + 1, append_command a)]"])
      (use sm1 assms(3) in \<open>auto simp: command_delta_def\<close>)
  show ?thesis using sm1 sm2 assms(3) by (auto simp: append_answer_def)
qed

theorem concurrent_appends_share_number_witness:
  "\<exists>s1 s2. append_apply (demo_request 5) demo_command_store = (s1, Ok ()) \<and> append_apply (demo_request 6) s1 = (s2, Ok ())
    \<and> append_answer (demo_request 5) s2 = Ok 2 \<and> append_answer (demo_request 6) s2 = Ok 2"
proof -
  have i: "ar_shard_id (demo_request k) = 1" for k by (simp add: demo_request_def)
  have "\<exists>s1 s2. append_apply (demo_request 5) demo_command_store = (s1, Ok ()) \<and> append_apply (demo_request 6) s1 = (s2, Ok ())"
    using demo_command_store_shard by (simp add: demo_apply)
  then obtain s1 s2 where s: "append_apply (demo_request 5) demo_command_store = (s1, Ok ())" "append_apply (demo_request 6) s1 = (s2, Ok ())" by blast
  have t: "si_tip (co_info (fresh_command_shard 1 1 1 shard_config_default)) = 0" by (simp add: fresh_command_shard_def)
  from concurrent_appends_share_number [OF demo_command_store_reach _ _ demo_request_check s, unfolded i, OF demo_command_store_shard(1) refl, unfolded t] s
  show ?thesis by auto
qed

section \<open>Against the replicated machine\<close>

text \<open>Commands that both state machines support; the duplicate window, decrements and the maintenance flag exist only in the
  replicated one.\<close>

fun shared_command :: "LogCommand \<Rightarrow> bool" where
  "shared_command (IncorporateIntent item) = False"
| "shared_command (IncorporateIntents items) = False"
| "shared_command (DecrementChunkRefcount tenant chunk_id) = False"
| "shared_command (SetMaintenance enabled) = False"
| "shared_command _ = True"

definition same_log :: "nat \<Rightarrow> CommandShard \<Rightarrow> ('k, 'l, 'm) ShardSmInner \<Rightarrow> bool" where
  "same_log sid sm m \<longleftrightarrow> sm_shard_id m = sid \<and> sm_inline_store m = None \<and> sm_tip m = si_tip (co_info sm)
     \<and> sm_delta_count m = si_delta_count (co_info sm) \<and> sm_watermarks m = co_watermarks sm \<and> sm_state m = si_state (co_info sm)
     \<and> sm_config m = si_config (co_info sm) \<and> sm_range_start m = si_range_start (co_info sm) \<and> sm_range_end m = si_range_end (co_info sm)
     \<and> (\<exists>k \<le> length (co_deltas sm). sm_deltas m = drop k (co_deltas sm))"

lemma append_inner_no_store:
  assumes "sm_inline_store m = None" "sm_tip m < u64_max" "sm_delta_count m < u64_max"
  shows "append_response kv (append_delta_inner tenant op key refs payload inline i [] m) =
    Ok (m\<lparr>sm_tip := sm_tip m + 1, sm_delta_count := sm_delta_count m + 1,
        sm_deltas := sm_deltas m @ [command_delta (sm_shard_id m) i (sm_tip m + 1) tenant op key refs payload inline]\<rparr>, Appended (sm_tip m + 1))"
  using assms by (simp add: append_delta_inner_def append_response_def flush_inline_batch_def add_u64_def Let_def command_delta_def)

lemma same_log_push:
  assumes "same_log sid sm m" "push_delta sid i tenant op key refs payload inline sm = Ok sm'"
  shows "\<exists>m' r. append_response kv (append_delta_inner tenant op key refs payload inline i [] m) = Ok (m', r) \<and> same_log sid sm' m'"
proof -
  have "sm_inline_store m = None" "sm_tip m < u64_max" "sm_delta_count m < u64_max" "sm_shard_id m = sid"
    using assms by (simp_all add: same_log_def push_delta_Ok)
  note a = append_inner_no_store [OF this(1-3), unfolded this(4)]
  obtain k where "k \<le> length (co_deltas sm)" "sm_deltas m = drop k (co_deltas sm)" using assms(1) by (auto simp: same_log_def)
  then show ?thesis unfolding a using assms by (simp add: same_log_def push_delta_Ok) (intro exI [of _ k], simp)
qed

lemma prune_no_store:
  assumes "sm_inline_store m = None"
  shows "\<exists>k \<le> length (sm_deltas m). prune_deltas_below_gc_boundary kv m = Ok (m\<lparr>sm_deltas := drop k (sm_deltas m)\<rparr>)"
proof (cases "wm_gc_boundary (sm_watermarks m)")
  case None
  then show ?thesis by (intro exI [of _ 0]) (simp add: prune_deltas_below_gc_boundary_def)
next
  case (Some b)
  show ?thesis
    by (intro exI [of _ "length (takeWhile (\<lambda>d. d_seq d < b) (sm_deltas m))"])
      (use assms Some in \<open>simp add: prune_deltas_below_gc_boundary_def length_takeWhile_le Let_def\<close>)
qed

lemma same_log_command:
  assumes "same_log sid sm m" "shared_command cmd" "command_effect sid i cmd sm = Ok sm'"
  shows "\<exists>m' r. apply_command_at kv cmd i now_ms m = Ok (m', r) \<and> same_log sid sm' m'"
proof (cases cmd)
  case (AppendDelta a b c d e f)
  then show ?thesis using same_log_push [OF assms(1)] assms(3) by simp
next
  case (ChunkAndDelta a b c d e f g h)
  obtain cs p where f: "apply_new_chunks a g i m = m\<lparr>sm_pending := p, sm_cluster_chunk_state := cs\<rparr>" using apply_new_chunks_frame by blast
  have "same_log sid sm (m\<lparr>sm_pending := p, sm_cluster_chunk_state := cs\<rparr>)" "sm_inline_store m = None"
    using assms(1) by (simp_all add: same_log_def)
  then show ?thesis using same_log_push assms(3) by (simp add: ChunkAndDelta f)
next
  case (AdvanceWatermark c p)
  let ?m = "m\<lparr>sm_watermarks := wm_advance c p (sm_watermarks m)\<rparr>"
  obtain k where k: "k \<le> length (sm_deltas m)" "prune_deltas_below_gc_boundary kv ?m = Ok (?m\<lparr>sm_deltas := drop k (sm_deltas m)\<rparr>)"
    using prune_no_store [of ?m kv] assms(1) by (auto simp: same_log_def)
  obtain l where l: "l \<le> length (co_deltas sm)" "sm_deltas m = drop l (co_deltas sm)" using assms(1) by (auto simp: same_log_def)
  have "k + l \<le> length (co_deltas sm)" using k(1) l by simp
  then show ?thesis using k(2) l(2) assms(1,3) by (auto simp: AdvanceWatermark same_log_def intro!: exI [of _ "k + l"])
qed (use assms in \<open>auto simp: same_log_def increment_chunk_def split: option.splits\<close>)

lemma same_log_run:
  "same_log sid sm m \<Longrightarrow> replay_log sid es sm = Ok sm' \<Longrightarrow> \<forall>(i, cmd) \<in> set es. shared_command cmd \<Longrightarrow>
   sorted_wrt (<) (map fst es) \<Longrightarrow> \<forall>(i, cmd) \<in> set es. co_last_applied sm < i \<Longrightarrow>
   \<exists>m'. run_commands kv (map (\<lambda>(i, cmd). (cmd, i, clock i)) es) m = Ok m' \<and> same_log sid sm' m'"
proof (induction es arbitrary: sm m)
  case (Cons e es)
  obtain i cmd where e: "e = (i, cmd)" by (cases e)
  obtain u where u: "command_effect sid i cmd (sm\<lparr>co_last_applied := i\<rparr>) = Ok u" "replay_log sid es u = Ok sm'"
    using Cons.prems(2,5) by (auto simp: e apply_to_sm_def split: if_splits)
  have "same_log sid (sm\<lparr>co_last_applied := i\<rparr>) m" using Cons.prems(1) by (simp add: same_log_def)
  from same_log_command [OF this _ u(1), of kv "clock i"] obtain m1 r where
    m1: "apply_command_at kv cmd i (clock i) m = Ok (m1, r)" "same_log sid u m1" using Cons.prems(3) by (auto simp: e)
  have "co_last_applied u = i" using command_effect_last [OF u(1)] by simp
  then have "\<forall>(j, cmd) \<in> set es. co_last_applied u < j" using Cons.prems(4) by (auto simp: e)
  from Cons.IH [OF m1(2) u(2) _ _ this] obtain m' where
    "run_commands kv (map (\<lambda>(i, cmd). (cmd, i, clock i)) es) m1 = Ok m'" "same_log sid sm' m'"
    using Cons.prems(3,4) by (auto simp: e)
  then show ?case using m1(1) by (auto simp: e simp del: apply_command_at.simps)
qed simp



text \<open>The maintenance command has a different meaning: leaving it makes the store's shard healthy whatever it was doing,
  and leaves the state of the replicated machine alone.\<close>

lemma maintenance_end_differs:
  "command_effect sid i (SetMaintenance False) sm = Ok sm' \<Longrightarrow> si_state (co_info sm') = Healthy"
  "apply_command_at kv (SetMaintenance False) i now_ms m = Ok (m', r) \<Longrightarrow> sm_state m' = sm_state m"
  by auto

text \<open>Creating a shard that exists replaces it by an empty one.\<close>

lemma recreate_empties:
  "\<exists>sm. rl_shards (rl_create_shard sid tenant node config s) sid = Some sm \<and> co_deltas sm = [] \<and> rl_log_length sid (rl_create_shard sid tenant node config s) = 0"
  by (simp add: rl_create_shard_def fresh_command_shard_def rl_log_length_def)

end
