(* ===== verification/Spec2Isabelle.thy ===== *)
theory Spec2Isabelle
  imports Kiseki_Time Block_Pool Block_Journal Hydrator_Runs Log_Guarantees Log_Lifecycle Chunk_Runs
    Raft_Log_Cache Fsync_Coalescer Key_Persistence Command_Store
begin

text \<open>
  Verification of the kiseki distributed storage system (\<^verbatim>\<open>src/crates\<close>).

  \<^bold>\<open>The program and its parts.\<close> Clients' data is encrypted into envelopes (\<^verbatim>\<open>kiseki-crypto\<close>) and stored as
  content-addressed chunks, replicated or erasure-coded over devices (\<^verbatim>\<open>kiseki-chunk\<close>), which in turn
  write extents of block devices (\<^verbatim>\<open>kiseki-block\<close>). Metadata changes are deltas in totally ordered log
  shards (\<^verbatim>\<open>kiseki-log\<close>) with small payloads offloaded to a small-object store, and are stamped by a
  hybrid logical clock (\<^verbatim>\<open>kiseki-common\<close>). Objects are compositions, rows that list chunks
  (\<^verbatim>\<open>kiseki-composition\<close>): the leader writes them with an overlay of acknowledged but not yet durable
  rows and appends a delta for each change, and every follower's hydrator rebuilds the rows from the log.
  Replicated state goes through Raft groups whose logs are durable stores with an entry cache and shared
  fsyncs (\<^verbatim>\<open>kiseki-raft\<close>); a log shard is one of them. The master keys of the envelopes come from the key manager (\<^verbatim>\<open>kiseki-keymanager\<close>),
  which rotates them and keeps its commands encrypted in such a log, and what operators and tenants do is
  recorded in an audit log (\<^verbatim>\<open>kiseki-audit\<close>).

  \<^bold>\<open>Conventions.\<close> The program is built with overflow checks and aborts on panic, so every operation
  returns a \<open>res\<close>: \<open>Ok\<close>, \<open>Err\<close> or \<open>Panic\<close>. Integers are natural numbers whose overflow is a \<open>Panic\<close>
  (\<open>add_u64\<close>, \<open>mul_u64\<close>, \<open>sum_u64\<close>); clocks, bitmaps, checksums and hashes, where bits and wrap-around
  matter, are words. Stateful methods are functions from the state to the new state and the result,
  composed with \<open>bind_st\<close>. A method is one step, and runs are the
  predicate \<open>reach\<close> over a step relation. Code of other packages is a record of operations, and what
  is used of it a predicate: \<open>kv_laws\<close> (the key-value engine), \<open>rs_laws\<close> (Reed-Solomon), \<open>crypto_laws\<close>
  (AEAD, HKDF, deflate), \<open>db_laws\<close> and \<open>codec_laws\<close> (the log's database engine and record codec), \<open>lru_laws\<close>
  (the cache package), each with an instance that satisfies it (\<open>map_kv\<close>, \<open>copy_rs\<close>, \<open>demo_cx\<close>, \<open>demo_db\<close>,
  \<open>demo_codec\<close>, \<open>list_lru\<close>).
  Where one definition translates part of a function that another definition translates as a whole, or a
  constant of it, the larger one names the source lines.
  Identifiers are natural numbers; random values, fresh identifiers and times are arguments.

  \<^bold>\<open>Theories.\<close>
  \<^item> \<open>Kiseki_Prelude\<close>: results, checked arithmetic, byte strings, ordered maps (locale \<open>ordered_map\<close>),
    reachability and invariants (locale \<open>invariant_system\<close>).
  \<^item> \<open>Kiseki_Time\<close> (\<^verbatim>\<open>kiseki-common/src/time.rs\<close>): the clock's tick and merge; timestamps strictly grow along
    causality, and the only failure is exhaustion.
  \<^item> \<open>Block_Allocator\<close> (\<^verbatim>\<open>allocator.rs\<close>, \<^verbatim>\<open>extent.rs\<close>): bitmap and free list; held extents are disjoint,
    allocation fails only when no run is large enough, restarts rebuild the same allocator.
  \<^item> \<open>Block_Device\<close> (\<^verbatim>\<open>superblock.rs\<close>, \<^verbatim>\<open>file.rs\<close>): framed writes on a byte file with a fault schedule;
    data that was written reads back in every reachable state and after reopening.
  \<^item> \<open>Block_Pool\<close> (\<^verbatim>\<open>pool.rs\<close>, \<^verbatim>\<open>backend.rs\<close>): the backend interface (locale \<open>device_backend\<close>), interpreted
    on the file device and on a pool of them.
  \<^item> \<open>Block_Journal\<close> (\<^verbatim>\<open>journal.rs\<close>, \<^verbatim>\<open>trim.rs\<close>): pending intents survive restarts; trims cover exactly what
    was queued.
  \<^item> \<open>Log_Types\<close>, \<open>Small_Objects\<close>, \<open>Log_Store\<close> (\<^verbatim>\<open>kiseki-log/src\<close>, \<^verbatim>\<open>small_object_store.rs\<close>): deltas, shards,
    watermarks, the inline store (locale \<open>inline_store\<close>) and every operation of the shard store.
  \<^item> \<open>Log_Runs\<close>, \<open>Log_Guarantees\<close>: runs with the ghost history of what was appended; total order, safe
    truncation, compaction, offloaded payloads and the replay at a split cutover.
  \<^item> \<open>Log_Lifecycle\<close> (\<^verbatim>\<open>auto_split.rs\<close>, \<^verbatim>\<open>split.rs\<close>, \<^verbatim>\<open>merge.rs\<close>, \<^verbatim>\<open>shard_inline_threshold.rs\<close>): exact midpoints,
    termination of repeated splitting, faithful redistribution.
  \<^item> \<open>Chunk_Placement\<close> (\<^verbatim>\<open>pool.rs\<close>, \<^verbatim>\<open>placement.rs\<close>, \<^verbatim>\<open>striping.rs\<close>, \<^verbatim>\<open>ec.rs\<close> of \<^verbatim>\<open>kiseki-chunk\<close>): routing by size,
    distinct devices, erasure coding.
  \<^item> \<open>Crypto_Envelope\<close> (\<^verbatim>\<open>kiseki-crypto/src\<close>, \<^verbatim>\<open>tenancy.rs\<close>): sealing, tenant wrapping, compression and
    crypto-shred.
  \<^item> \<open>Chunk_Store\<close>, \<open>Chunk_Runs\<close> (\<^verbatim>\<open>store.rs\<close> of \<^verbatim>\<open>kiseki-chunk\<close>): reference counts, holds, collection, pool
    accounting and degraded reads in every reachable store.
  \<^item> \<open>Composition_Codec\<close> (\<^verbatim>\<open>composition.rs\<close>, \<^verbatim>\<open>namespace.rs\<close>): the payloads of the deltas; decoding accepts exactly
    what encoding produces.
  \<^item> \<open>Composition_Storage\<close> (\<^verbatim>\<open>persistent/storage.rs\<close>): rows, the two-way name index (locale \<open>name_index\<close>) with
    last-writer-wins stamps, hydration batches; stamped binds commute.
  \<^item> \<open>Composition_Store\<close> (\<^verbatim>\<open>composition.rs\<close>, \<^verbatim>\<open>multipart.rs\<close>): the store with overlay, read cache (theory
    \<open>Lru_Cache\<close>) and uploads; the invariant \<open>store_inv\<close> of all operations, conditional and
    volatile creates, uploads.
  \<^item> \<open>Hydrator\<close>, \<open>Hydrator_Runs\<close> (\<^verbatim>\<open>hydrator.rs\<close>): staging of deltas and the poll; a follower's rows are the
    replay of the applied prefix in every run, the shard is never wedged, reads are never stale, and
    the name index depends on batching.
  \<^item> \<open>Raft_Log\<close> (\<^verbatim>\<open>fjall_log_store.rs\<close>, \<^verbatim>\<open>log_store.rs\<close>, \<^verbatim>\<open>membership.rs\<close>): the durable and the in-memory
    Raft log; the contract of a Raft log (locale \<open>raft_log_storage\<close>).
  \<^item> \<open>Raft_Log_Cache\<close> (\<^verbatim>\<open>fjall_raft_log_store.rs\<close>): the log with its entry cache; reads are exact and replication
    batches bounded in every run, acknowledged appends survive crashes, and votes do so unless
    fsyncs are coalesced.
  \<^item> \<open>Fsync_Coalescer\<close> (\<^verbatim>\<open>fsync_coalescer.rs\<close>): callers, timers and merged persists as interleaved steps; every
    caller is answered and an answer covers what it had written.
  \<^item> \<open>Shard_Machine\<close>, \<open>Shard_Machine_Runs\<close> (\<^verbatim>\<open>kiseki-log/src/raft/state_machine.rs\<close>): the replicated state machine of a
    shard with its duplicate window, chunk reference counts and snapshots; its invariant, duplicates are
    ignored within the window, deletes may overtake creates, the eviction loop ends, and what replicas and snapshots
    do not agree on.
  \<^item> \<open>Command_Store\<close> (\<^verbatim>\<open>kiseki-log/src/raft_store.rs\<close>): the single-node store with a command log per shard; it
    refines to the replicated machine, its log rebuilds its shards, and concurrent appends may report one number.
  \<^item> \<open>Raft_Machine\<close>: what Raft asks of a replicated state machine (locale \<open>replicated_machine\<close>), replicas and snapshots.
  \<^item> \<open>Command_Journal\<close>: a numbered command log kept in a durable log.
  \<^item> \<open>Audit_Log\<close> (\<^verbatim>\<open>kiseki-audit/src\<close>): the sharded log, the command-log store, its persistence and the replicated
    machine; exact trails per tenant (locale \<open>audit_sink\<close>), restarts, and snapshots that cannot be built.
  \<^item> \<open>Key_Manager\<close> (\<^verbatim>\<open>kiseki-keymanager/src\<close>: \<^verbatim>\<open>store.rs\<close>, \<^verbatim>\<open>raft_store.rs\<close>, \<^verbatim>\<open>raft/state_machine.rs\<close>,
    \<^verbatim>\<open>rewrap_worker.rs\<close>): the contract that keys are never lost (locale \<open>key_manager\<close>) on both stores, agreement of
    replicas, a race that loses a rotation, re-wrapping.
  \<^item> \<open>Key_Persistence\<close> (\<^verbatim>\<open>persistent_store.rs\<close>, \<^verbatim>\<open>node_identity.rs\<close>): the encrypted command log on disk; restarts keep
    every key, and an unreadable log replaces them.
  \<^item> this theory: the composition of encryption, erasure coding, placement and the chunk store.

  \<^bold>\<open>Bounds.\<close> All recursion is structural or has a termination proof, except the eviction loop \<open>evict_loop\<close>,
  a partial function proved to return on every input; no definition uses fuel. Statements
  that need room below the 64-bit limit say so in their hypotheses.

  \<^bold>\<open>What the laws do not say.\<close> \<open>crypto_laws\<close> is functional: it makes opening the exact inverse of sealing
  and says nothing about secrecy or about the difficulty of forging. Accordingly the results on
  envelopes are round trips and exact characterisations of what is accepted.

  \<^bold>\<open>Not modelled.\<close> Operating-system I/O (raw and io\_uring devices, probing of sysfs, page locking),
  floating-point helpers (dedup ratio, merge ratio), textual conversions and error messages of
  \<^verbatim>\<open>Display\<close> instances, metrics and tracing. The persistent chunk store, the fjall composition backend,
  the log's intent pipeline, the Raft transport, the tenant KMS clients, and the view, advisory and
  control crates have no theory. The network services, gateways, client, transports and generated protocol code
  are I/O around these parts. Methods are atomic steps: for the chunk store's \<open>read_chunk\<close> and
  \<open>delete_chunk_force\<close>, which take two locks one after the other, and for the split and merge
  orchestrators, which await several log calls, interleavings with other operations are left out.
\<close>

section \<open>From plaintext to fragments and back\<close>

text \<open>C2: End to end. A plaintext sealed under a master key and stored as a new chunk is still readable, and
  decrypts to the same bytes, after any further history of the store that neither decrements nor
  force-deletes that chunk: duplicate writes, collections, holds, writes of other chunks and any
  change of pools and devices, as long as no fault is injected for the chunk and no more of its
  fragments than the parity are on devices that are not online.\<close>

theorem stored_plaintext_recoverable:
  assumes laws: "crypto_laws cx" "rs_laws rs" and r: "reach chunk_init (chunk_step rs) (s, l)"
    and len: "length p \<le> gcm_max" and seal: "seal_envelope cx master cid p = Ok env"
    and w: "write_chunk rs env pool s = (s1, Ok True)" and run: "admissible_run rs cmds s1"
    and keep: "CDecrement cid \<notin> set cmds" "CForceDelete cid \<notin> set cmds"
    and rec: "recoverable (fold (chunk_exec rs) cmds s1) cid"
  shows "\<exists>env'. read_chunk rs cid (fold (chunk_exec rs) cmds s1) = Ok env' \<and> open_envelope cx master env' = Ok p"
proof -
  obtain e where "seal_envelope cx master cid p = Ok e" "open_envelope cx master e = Ok p" "ev_chunk_id e = cid"
    using open_of_seal [OF laws(1) len] by metis
  then have env: "open_envelope cx master env = Ok p" "ev_chunk_id env = cid" using seal by simp_all
  have r1: "reach chunk_init (chunk_step rs) (s1, l)" using reach_exec [OF r, of "CWrite env pool"] w by simp
  have new: "map_of (cs_chunks s) cid = None"
    using w env(2) by (cases "map_of (cs_chunks s) cid") (auto simp: write_chunk_def Let_def)
  then have "chunk_view s cid = None" by (simp add: chunk_view_def)
  then have "chunk_view s1 cid = Some (env, 1, {})" using chunk_view_write [of rs env pool s cid] env(2) w by simp
  then obtain l' n' h' where k: "reach chunk_init (chunk_step rs) (fold (chunk_exec rs) cmds s1, l')"
    "chunk_view (fold (chunk_exec rs) cmds s1) cid = Some (env, n', h')"
    using run_keeps_chunk [OF r1 run _ _ keep] by (metis order_refl)
  from recoverable_read [OF laws(2) k rec] env(1) show ?thesis by blast
qed

theorem stored_plaintext_recoverable_witness:
  "\<exists>env'. read_chunk copy_rs (replicate 32 0) (fold (chunk_exec copy_rs) [CGc, CDeviceOnline ''ec'' ''a'' False] demo_chunks1) = Ok env' \<and>
     open_envelope demo_cx demo_master env' = Ok [10, 20]"
proof -
  have seal: "seal_envelope demo_cx demo_master (replicate 32 0) [10, 20] = Ok demo_chunk"
    by (simp add: seal_envelope_def derive_system_dek_and_nonce_def aead_seal_with_nonce_def demo_cx_def demo_master_def
        demo_chunk_def GCM_TAG_LEN_def gcm_max_def Let_def)
  have gc: "chunk_exec copy_rs CGc demo_chunks1 = demo_chunks1"
    by (simp add: chunk_gc_def demo_chunks1_def demo_entry_def collectable_def)
  let ?s = "with_pool ''ec'' (set_device_online ''a'' False) demo_chunks1"
  have rec: "recoverable ?s (replicate 32 0)"
    by (simp add: recoverable_def with_pool_def demo_chunks1_def demo_chunks0_def add_pool_def chunk_store_new_def
        demo_entry_def demo_meta_def demo_pool_def affinity_pool_new_def lost_fragments_def device_online_def
        set_device_online_def numeral_2_eq_2)
  show ?thesis
    by (rule stored_plaintext_recoverable [OF demo_cx_laws copy_rs_laws demo_chunks_reach(1) _ seal demo_write])
      (simp_all add: gcm_max_def gc rec del: chunk_exec.simps(7))
qed

end
